(* ===== verification/Prelude.thy ===== *)
theory Prelude
  imports Main "HOL-Library.Word" "HOL-Library.Monad_Syntax"
begin

text \<open>
  What every theory of the development shares: the C integer types as machine words,
  little-endian object representations, memory blocks with uninitialised cells,
  \<^verbatim>\<open>memcpy\<close>, \<^verbatim>\<open>assert\<close> and the C \<^verbatim>\<open>for\<close> loop.

  A C function that can abort (a failed \<^verbatim>\<open>assert\<close>) or touch memory outside of a block is
  modelled as a function into \<open>option\<close>: \<open>None\<close> is the abort or the invalid access, \<open>Some\<close> the
  normal return. The target is the one the code is built for: 64 bit, little endian.
\<close>

unbundle bit_operations_syntax

section \<open>Integer types\<close>

type_synonym u8 = "8 word"
type_synonym u16 = "16 word"
type_synonym u32 = "32 word"
type_synonym u64 = "64 word"
type_synonym byte = "8 word"

named_theorems codec_simps \<open>equations that run the encoders and decoders on symbolic buffers\<close>
named_theorems ser_simps \<open>unfolding of the abstract wire formats\<close>

text \<open>Conversions to \<^verbatim>\<open>int\<close> are exact below \<open>2 ^ 31\<close>.\<close>

lemma sint_of_nat_small: "n < 2 ^ 31 \<Longrightarrow> sint (word_of_nat n :: u32) = int n"
  by (simp add: signed_of_nat signed_take_bit_int_eq_self)

lemma unat_ucast_up:
  "LENGTH('a) \<le> LENGTH('b) \<Longrightarrow> unat (ucast (k :: 'a::len word) :: 'b::len word) = unat k"
  by (simp add: unsigned_ucast_eq take_bit_nat_eq_self order.strict_trans2 [OF unsigned_less])

section \<open>Little-endian object representation\<close>

definition le_bytes :: "nat \<Rightarrow> 'a::len word \<Rightarrow> byte list" where
  "le_bytes n w = map (\<lambda>i. ucast (drop_bit (8 * i) w)) [0..<n]"

primrec of_le_bytes :: "byte list \<Rightarrow> 'a::len word" where
  "of_le_bytes [] = 0"
| "of_le_bytes (b # bs) = ucast b OR push_bit 8 (of_le_bytes bs)"

lemma length_le_bytes [simp]: "length (le_bytes n w) = n"
  by (simp add: le_bytes_def)

lemma bit_of_le_bytes:
  "bit (of_le_bytes bs :: 'a::len word) n \<longleftrightarrow>
     n < LENGTH('a) \<and> n div 8 < length bs \<and> bit (bs ! (n div 8)) (n mod 8)"
proof (induction bs arbitrary: n)
  case Nil
  then show ?case by simp
next
  case (Cons b bs)
  show ?case
  proof (cases "n < 8")
    case True
    then show ?thesis
      by (auto simp: bit_simps)
  next
    case False
    then have "n div 8 = Suc ((n - 8) div 8)" and "n mod 8 = (n - 8) mod 8"
      by (simp_all add: le_div_geq le_mod_geq)
    then show ?thesis
      using False Cons.IH [of "n - 8"] by (auto simp: bit_simps dest: bit_imp_le_length)
  qed
qed

lemma of_le_bytes_le_bytes [simp]:
  "LENGTH('a::len) \<le> 8 * n \<Longrightarrow> of_le_bytes (le_bytes n (w :: 'a word)) = w"
proof (rule bit_word_eqI)
  fix k
  assume le: "LENGTH('a) \<le> 8 * n" and k: "k < LENGTH('a)"
  then have "k div 8 < n" by (simp add: less_mult_imp_div_less mult.commute)
  moreover have "8 * (k div 8) + k mod 8 = k" by simp
  ultimately show "bit (of_le_bytes (le_bytes n w) :: 'a word) k \<longleftrightarrow> bit w k"
    using k by (simp add: bit_of_le_bytes le_bytes_def bit_simps)
qed

lemma le_bytes_of_le_bytes:
  assumes "8 * length bs \<le> LENGTH('a::len)"
  shows "le_bytes (length bs) (of_le_bytes bs :: 'a word) = bs"
proof (rule nth_equalityI)
  show "length (le_bytes (length bs) (of_le_bytes bs :: 'a word)) = length bs" by simp
next
  fix i
  assume "i < length (le_bytes (length bs) (of_le_bytes bs :: 'a word))"
  then have i: "i < length bs" by simp
  show "le_bytes (length bs) (of_le_bytes bs :: 'a word) ! i = bs ! i"
  proof (rule bit_word_eqI)
    fix k
    assume "k < LENGTH(8)"
    then have k: "k < 8" by simp
    then have "(8 * i + k) div 8 = i" "(8 * i + k) mod 8 = k" by simp_all
    moreover have "8 * i + k < LENGTH('a)"
      using i k assms by linarith
    ultimately show "bit (le_bytes (length bs) (of_le_bytes bs :: 'a word) ! i) k = bit (bs ! i) k"
      using i k by (simp add: le_bytes_def bit_simps bit_of_le_bytes)
  qed
qed

lemma le_bytes_inject:
  "LENGTH('a::len) \<le> 8 * n \<Longrightarrow> le_bytes n (v :: 'a word) = le_bytes n w \<longleftrightarrow> v = w"
  by (metis of_le_bytes_le_bytes)

lemma concat_replicate_replicate: "concat (replicate n (replicate m x)) = replicate (n * m) x"
  by (induction n) (simp_all add: replicate_add)

section \<open>Memory blocks\<close>

text \<open>
  A heap block is a list of cells; a cell that was never written (after \<^verbatim>\<open>malloc\<close>) is \<open>None\<close>.
  \<^verbatim>\<open>memcpy\<close> into a block fails (\<open>None\<close>) when it would write past the end of the block.
\<close>

type_synonym block = "byte option list"

definition c_malloc :: "nat \<Rightarrow> block" where
  "c_malloc n = replicate n None"

definition c_calloc :: "nat \<Rightarrow> nat \<Rightarrow> block" where
  "c_calloc n sz = replicate (n * sz) (Some 0)"

definition memcpy_to :: "block \<Rightarrow> nat \<Rightarrow> byte list \<Rightarrow> block option" where
  "memcpy_to buf off src =
     (if off + length src \<le> length buf
      then Some (take off buf @ map Some src @ drop (off + length src) buf)
      else None)"

text \<open>Reading \<open>n\<close> bytes at an offset of a received message.\<close>

definition memcpy_from :: "byte list \<Rightarrow> nat \<Rightarrow> nat \<Rightarrow> byte list option" where
  "memcpy_from src off n = (if off + n \<le> length src then Some (take n (drop off src)) else None)"

definition c_assert :: "bool \<Rightarrow> unit option" where
  "c_assert P = (if P then Some () else None)"

text \<open>Reading an element of an array behind a pointer: outside of the array it is invalid.\<close>

definition arr_at :: "'a list \<Rightarrow> nat \<Rightarrow> 'a option" where
  "arr_at xs i = (if i < length xs then Some (xs ! i) else None)"

lemma c_assert_bind [simp]: "(c_assert P \<bind> f) = (if P then f () else None)"
  by (simp add: c_assert_def)

lemma length_c_malloc [simp]: "length (c_malloc n) = n"
  by (simp add: c_malloc_def)

lemma length_c_calloc [simp]: "length (c_calloc n sz) = n * sz"
  by (simp add: c_calloc_def)

text \<open>The block after a successful write.\<close>

definition written :: "block \<Rightarrow> nat \<Rightarrow> byte list \<Rightarrow> block" where
  "written buf off src = take off buf @ map Some src @ drop (off + length src) buf"

lemma memcpy_to_fits [simp]:
  "off + length src \<le> length buf \<Longrightarrow> memcpy_to buf off src = Some (written buf off src)"
  by (simp add: memcpy_to_def written_def)

lemma memcpy_to_overrun [simp]:
  "length buf < off + length src \<Longrightarrow> memcpy_to buf off src = None"
  by (simp add: memcpy_to_def)

lemma length_written [simp]:
  "off + length src \<le> length buf \<Longrightarrow> length (written buf off src) = length buf"
  by (simp add: written_def)

lemma written_written:
  "off + length a \<le> length buf \<Longrightarrow>
   written (written buf off a) (off + length a) b = written buf off (a @ b)"
  by (simp add: written_def ac_simps)

lemma written_all:
  "length src = length buf \<Longrightarrow> written buf 0 src = map Some src"
  by (simp add: written_def)

lemma written_Nil [simp]: "written buf off [] = buf"
  by (simp add: written_def)

lemma take_written: "take (length src) (written buf 0 src) = map Some src"
  by (simp add: written_def)

section \<open>C loops\<close>

text \<open>\<^verbatim>\<open>for(i = lo; i < hi; ++i) s = body(i, s)\<close> is \<open>for_loop body [lo..<hi] s\<close>.\<close>

primrec for_loop :: "(nat \<Rightarrow> 's \<Rightarrow> 's option) \<Rightarrow> nat list \<Rightarrow> 's \<Rightarrow> 's option" where
  "for_loop f [] s = Some s"
| "for_loop f (i # is) s = (f i s \<bind> for_loop f is)"

lemma for_loop_append:
  "for_loop f (is @ js) s = (for_loop f is s \<bind> for_loop f js)"
  by (induction "is" arbitrary: s) (auto simp: bind_assoc split: Option.bind_splits)

text \<open>The invariant rule: a loop whose body maps the \<open>i\<close>-th state to the next one.\<close>

lemma for_loop_states:
  assumes "\<And>i. lo \<le> i \<Longrightarrow> i < hi \<Longrightarrow> f i (st i) = Some (st (Suc i))" and "lo \<le> hi"
  shows "for_loop f [lo..<hi] (st lo) = Some (st hi)"
  using assms
proof (induction "hi - lo" arbitrary: lo)
  case 0
  then show ?case by simp
next
  case (Suc d)
  then have lt: "lo < hi" by simp
  have "for_loop f [Suc lo..<hi] (st (Suc lo)) = Some (st hi)"
    using Suc.hyps Suc.prems lt by (intro Suc.hyps(1)) auto
  then show ?case
    using lt Suc.prems(1) [of lo] by (simp add: upt_conv_Cons)
qed

text \<open>The invariant rule in general.\<close>

lemma for_loop_inv:
  assumes "\<And>i s. lo \<le> i \<Longrightarrow> i < hi \<Longrightarrow> P i s \<Longrightarrow> \<exists>s'. f i s = Some s' \<and> P (Suc i) s'"
    and "P lo s" and "lo \<le> hi"
  shows "\<exists>s'. for_loop f [lo..<hi] s = Some s' \<and> P hi s'"
  using assms
proof (induction "hi - lo" arbitrary: lo s)
  case 0
  then show ?case by simp
next
  case (Suc d)
  then have lt: "lo < hi" by simp
  obtain s' where s': "f lo s = Some s'" "P (Suc lo) s'"
    using Suc.prems(1) [of lo s] Suc.prems(2) lt by auto
  have "\<exists>s''. for_loop f [Suc lo..<hi] s' = Some s'' \<and> P hi s''"
    using Suc.hyps(2) Suc.prems(1) s'(2) lt by (intro Suc.hyps(1)) auto
  then show ?case using lt s'(1) by (simp add: upt_conv_Cons)
qed

text \<open>A loop that returns \<^verbatim>\<open>false\<close> at the first index for which the test fails.\<close>

primrec all_loop :: "(nat \<Rightarrow> bool option) \<Rightarrow> nat list \<Rightarrow> bool option" where
  "all_loop f [] = Some True"
| "all_loop f (i # is) = (f i \<bind> (\<lambda>b. if b then all_loop f is else Some False))"

lemma all_loop_append:
  "all_loop f (is @ js) = (all_loop f is \<bind> (\<lambda>b. if b then all_loop f js else Some False))"
  by (induction "is") (auto split: Option.bind_splits)

lemma all_loop_Some:
  "(\<And>i. i \<in> set is \<Longrightarrow> f i = Some (P i)) \<Longrightarrow> all_loop f is = Some (\<forall>i \<in> set is. P i)"
  by (induction "is") auto

end
