(* ===== verification/Fifo.thy ===== *)
theory Fifo
  imports Prelude
begin

text \<open>
  The queue contract between \<^verbatim>\<open>seq_ring\<close> (the provider) and the thread-safe queue of
  \<^verbatim>\<open>ts_queue.c\<close> (the client): what appending and removing from the front do to the list of
  elements that a queue state stands for. \<open>fifo_run\<close> executes a schedule of operations; the
  locale's lemmas say what any schedule returns.
\<close>

datatype 'a fifo_op = Enqueue 'a | Dequeue

text \<open>A \<open>Dequeue\<close> of an empty queue leaves it alone: the consumer waits.\<close>

fun fifo_run ::
  "('q \<Rightarrow> 'a list) \<Rightarrow> ('q \<Rightarrow> 'a \<Rightarrow> 'q option) \<Rightarrow> ('q \<Rightarrow> ('a \<times> 'q) option) \<Rightarrow>
   'q \<Rightarrow> 'a fifo_op list \<Rightarrow> ('a list \<times> 'q) option" where
  "fifo_run contents push pop q [] = Some ([], q)"
| "fifo_run contents push pop q (Enqueue x # ops) = do {
     q \<leftarrow> push q x;
     fifo_run contents push pop q ops
   }"
| "fifo_run contents push pop q (Dequeue # ops) =
     (if contents q = [] then fifo_run contents push pop q ops
      else do {
        (x, q) \<leftarrow> pop q;
        (xs, q) \<leftarrow> fifo_run contents push pop q ops;
        Some (x # xs, q)
      })"

fun enqueued :: "'a fifo_op list \<Rightarrow> 'a list" where
  "enqueued [] = []"
| "enqueued (Enqueue x # ops) = x # enqueued ops"
| "enqueued (Dequeue # ops) = enqueued ops"

locale fifo_queue =
  fixes inv :: "'q \<Rightarrow> bool"
    and contents :: "'q \<Rightarrow> 'a list"
    and fits :: "'q \<Rightarrow> 'a \<Rightarrow> bool"
    and limit :: nat
    and push :: "'q \<Rightarrow> 'a \<Rightarrow> 'q option"
    and pop :: "'q \<Rightarrow> ('a \<times> 'q) option"
  assumes push_law: "inv q \<Longrightarrow> fits q x \<Longrightarrow> length (contents q) < limit \<Longrightarrow>
      \<exists>q'. push q x = Some q' \<and> inv q' \<and> contents q' = contents q @ [x] \<and> fits q' = fits q"
    and pop_law: "inv q \<Longrightarrow> contents q = x # xs \<Longrightarrow>
      \<exists>q'. pop q = Some (x, q') \<and> inv q' \<and> contents q' = xs \<and> fits q' = fits q"
begin

text \<open>No schedule fails, and what it dequeues followed by what it leaves is what went in.\<close>

lemma run_in_order:
  assumes "inv q" and "\<And>x. x \<in> set (enqueued ops) \<Longrightarrow> fits q x"
    and "length (contents q) + length (enqueued ops) \<le> limit"
  shows "\<exists>xs q'. fifo_run contents push pop q ops = Some (xs, q') \<and> inv q' \<and>
           xs @ contents q' = contents q @ enqueued ops"
  using assms
proof (induction ops arbitrary: q rule: enqueued.induct)
  case 1
  then show ?case by simp
next
  case (2 x ops)
  then obtain q' where q': "push q x = Some q'" "inv q'" "contents q' = contents q @ [x]"
    "fits q' = fits q"
    using push_law [of q x] by auto
  with 2 have "\<exists>xs q''. fifo_run contents push pop q' ops = Some (xs, q'') \<and> inv q'' \<and>
           xs @ contents q'' = contents q' @ enqueued ops"
    by (intro "2.IH") auto
  then show ?case using q' by auto
next
  case (3 ops)
  show ?case
  proof (cases "contents q")
    case Nil
    then have "\<exists>xs q'. fifo_run contents push pop q ops = Some (xs, q') \<and> inv q' \<and>
           xs @ contents q' = contents q @ enqueued ops"
      using 3(2-) by (intro "3.IH") auto
    then show ?thesis using Nil by simp
  next
    case (Cons x xs)
    then obtain q' where q': "pop q = Some (x, q')" "inv q'" "contents q' = xs" "fits q' = fits q"
      using pop_law [of q x xs] 3 by auto
    with 3 Cons have "\<exists>ys q''. fifo_run contents push pop q' ops = Some (ys, q'') \<and> inv q'' \<and>
           ys @ contents q'' = contents q' @ enqueued ops"
      by (intro "3.IH") auto
    then show ?thesis using q' Cons by auto
  qed
qed

lemma run_prefix:
  assumes "inv q" and "contents q = []" and "\<And>x. x \<in> set (enqueued ops) \<Longrightarrow> fits q x"
    and "length (enqueued ops) \<le> limit"
  shows "\<exists>xs q' rest. fifo_run contents push pop q ops = Some (xs, q') \<and>
           enqueued ops = xs @ rest \<and> contents q' = rest"
  using run_in_order [of q ops] assms by fastforce

end

end
