(* ===== verification/SeqRing.thy ===== *)
theory SeqRing
  imports Prelude Fifo
begin

text \<open>
  The growing ring buffer of \<^verbatim>\<open>util/alg_ds/ds/seq_container/seq_ring.c\<close>: a power-of-two array of
  slots of \<open>elt_size\<close> bytes with free-running 32 bit \<open>head\<close> and \<open>tail\<close> counters, which wrap.
  A pointer into the array (an iterator) is the index of the slot it points to, so
  \<^verbatim>\<open>r->array + pos * r->elt_size\<close> is \<open>pos\<close> and \<^verbatim>\<open>(it - r->array) / r->elt_size\<close> is \<open>it\<close>.
  \<open>ring_list\<close> is the abstraction: the elements between \<open>tail\<close> and \<open>head\<close> in order.
\<close>

section \<open>The model\<close>

record seq_ring =
  r_elt_size :: nat
  r_array :: "byte list list"
  r_cap :: nat
  r_head :: u32
  r_tail :: u32

definition DEFAULT_ELM :: nat where
  "DEFAULT_ELM = 32"

definition zero_slot :: "nat \<Rightarrow> byte list" where
  "zero_slot n = replicate n 0"

definition ring_mask :: "nat \<Rightarrow> u32 \<Rightarrow> u32" where
  "ring_mask c val = val AND (word_of_nat c - 1)"

text \<open>\<^verbatim>\<open>r_head - r_tail\<close> is a 32 bit subtraction, widened to \<^verbatim>\<open>size_t\<close> afterwards.\<close>

definition seq_ring_size :: "seq_ring \<Rightarrow> nat" where
  "seq_ring_size r = unat (r_head r - r_tail r)"

definition full :: "seq_ring \<Rightarrow> bool" where
  "full r \<longleftrightarrow> seq_ring_size r = r_cap r - 1"

text \<open>\<^verbatim>\<open>memcpy\<close> and \<^verbatim>\<open>memset 0\<close> of whole slots.\<close>

definition copy_slots ::
  "byte list list \<Rightarrow> nat \<Rightarrow> byte list list \<Rightarrow> nat \<Rightarrow> nat \<Rightarrow> byte list list option" where
  "copy_slots dst doff src soff n =
     (if doff + n \<le> length dst \<and> soff + n \<le> length src
      then Some (take doff dst @ take n (drop soff src) @ drop (doff + n) dst)
      else None)"

definition zero_slots :: "nat \<Rightarrow> byte list list \<Rightarrow> nat \<Rightarrow> nat \<Rightarrow> byte list list option" where
  "zero_slots esz dst off n =
     (if off + n \<le> length dst
      then Some (take off dst @ replicate n (zero_slot esz) @ drop (off + n) dst)
      else None)"

definition enlarge_buffer :: "seq_ring \<Rightarrow> seq_ring option" where
  "enlarge_buffer r = do {
     c_assert (full r);
     let factor = 2;
     let tmp_buffer = replicate (r_cap r * factor) (zero_slot (r_elt_size r));
     let head_pos = unat (ring_mask (r_cap r) (r_head r));
     let tail_pos = unat (ring_mask (r_cap r) (r_tail r));
     tmp_buffer \<leftarrow>
       (if tail_pos < head_pos
        then copy_slots tmp_buffer 0 (r_array r) tail_pos (head_pos - tail_pos)
        else do {
          b \<leftarrow> copy_slots tmp_buffer 0 (r_array r) tail_pos (r_cap r - tail_pos);
          copy_slots b (r_cap r - tail_pos) (r_array r) 0 head_pos
        });
     let c = r_cap r * factor;
     Some (r\<lparr>r_cap := c, r_array := tmp_buffer, r_tail := 0, r_head := word_of_nat (c div 2 - 1)\<rparr>)
   }"

definition seq_ring_init :: "nat \<Rightarrow> seq_ring" where
  "seq_ring_init esz =
     \<lparr>r_elt_size = esz, r_array = replicate DEFAULT_ELM (zero_slot esz), r_cap = DEFAULT_ELM,
      r_head = 0, r_tail = 0\<rparr>"

definition seq_ring_push_back :: "seq_ring \<Rightarrow> byte list \<Rightarrow> nat \<Rightarrow> seq_ring option" where
  "seq_ring_push_back r data len = do {
     c_assert (len = r_elt_size r);
     r \<leftarrow> (if full r then enlarge_buffer r else Some r);
     let pos = unat (ring_mask (r_cap r) (r_head r));
     src \<leftarrow> memcpy_from data 0 (r_elt_size r);
     c_assert (pos < length (r_array r));
     Some (r\<lparr>r_array := (r_array r)[pos := src], r_head := r_head r + 1\<rparr>)
   }"

definition seq_ring_front :: "seq_ring \<Rightarrow> nat" where
  "seq_ring_front r = unat (ring_mask (r_cap r) (r_tail r))"

text \<open>The position is a \<^verbatim>\<open>uint32_t\<close>, so \<^verbatim>\<open>pos + 1\<close> wraps.\<close>

definition seq_ring_next :: "seq_ring \<Rightarrow> nat \<Rightarrow> nat" where
  "seq_ring_next r it = (if unat (word_of_nat it + 1 :: u32) = r_cap r then 0 else it + 1)"

definition seq_ring_end :: "seq_ring \<Rightarrow> nat" where
  "seq_ring_end r = unat (ring_mask (r_cap r) (r_head r))"

definition seq_ring_at :: "seq_ring \<Rightarrow> u32 \<Rightarrow> nat" where
  "seq_ring_at r pos = unat (ring_mask (r_cap r) (r_tail r + pos))"

definition seq_ring_erase :: "seq_ring \<Rightarrow> nat \<Rightarrow> nat \<Rightarrow> seq_ring option" where
  "seq_ring_erase r it_start it_end = do {
     c_assert (it_start = unat (ring_mask (r_cap r) (r_tail r)));
     if it_start = it_end then Some r
     else do {
       let start_pos = it_start;
       let end_pos = it_end;
       c_assert (end_pos \<le> r_cap r);
       c_assert (end_pos \<noteq> start_pos);
       r' \<leftarrow>
         (if start_pos < end_pos
          then do {
            a \<leftarrow> zero_slots (r_elt_size r) (r_array r) start_pos (end_pos - start_pos);
            Some (r\<lparr>r_array := a, r_tail := r_tail r + word_of_nat (end_pos - start_pos)\<rparr>)
          }
          else do {
            c_assert (end_pos < start_pos);
            a \<leftarrow> zero_slots (r_elt_size r) (r_array r) start_pos (r_cap r - start_pos);
            a \<leftarrow> zero_slots (r_elt_size r) a 0 end_pos;
            Some (r\<lparr>r_array := a,
                    r_tail := r_tail r + word_of_nat (r_cap r - start_pos + end_pos)\<rparr>)
          });
       c_assert (unat (ring_mask (r_cap r') (r_tail r')) = end_pos);
       Some r'
     }
   }"

text \<open>The result is an \<^verbatim>\<open>int32_t\<close>.\<close>

definition seq_ring_dist :: "seq_ring \<Rightarrow> nat \<Rightarrow> nat \<Rightarrow> int" where
  "seq_ring_dist r first_it last_it =
     (if first_it < last_it then sint (word_of_nat (last_it - first_it) :: u32)
      else sint (word_of_nat ((r_cap r - first_it) + last_it) :: u32))"

definition seq_ring_equal :: "nat \<Rightarrow> nat \<Rightarrow> bool" where
  "seq_ring_equal it_1 it_2 \<longleftrightarrow> it_1 = it_2"

text \<open>
  The loop of \<^verbatim>\<open>seq_ring_free\<close> and of the algorithms on rings: the slots visited from one
  iterator to another by \<^verbatim>\<open>seq_ring_next\<close>. The fuel bounds the number of visited slots; running
  out of it is \<open>None\<close>.
\<close>

fun ring_walk :: "nat \<Rightarrow> seq_ring \<Rightarrow> nat \<Rightarrow> nat \<Rightarrow> byte list list option" where
  "ring_walk fuel r it end_it =
     (if it = end_it then Some []
      else case fuel of 0 \<Rightarrow> None
        | Suc fuel' \<Rightarrow> do {
            x \<leftarrow> arr_at (r_array r) it;
            xs \<leftarrow> ring_walk fuel' r (seq_ring_next r it) end_it;
            Some (x # xs)
          })"

text \<open>\<^verbatim>\<open>seq_ring_free\<close> calls \<open>fp\<close> on these elements, in this order.\<close>

definition seq_ring_free :: "seq_ring \<Rightarrow> byte list list option" where
  "seq_ring_free r = ring_walk (r_cap r) r (seq_ring_front r) (seq_ring_end r)"

text \<open>\<^verbatim>\<open>find_if_ring\<close> of \<^verbatim>\<open>alg/find.c\<close>: the first slot whose element
  satisfies \<open>f\<close> (which stands for \<^verbatim>\<open>f(value, .)\<close>), or the end.\<close>

fun find_if_ring :: "nat \<Rightarrow> seq_ring \<Rightarrow> (byte list \<Rightarrow> bool) \<Rightarrow> nat \<Rightarrow> nat \<Rightarrow> nat option" where
  "find_if_ring fuel r f it end_it =
     (if it = end_it then Some it
      else case fuel of 0 \<Rightarrow> None
        | Suc fuel' \<Rightarrow> do {
            x \<leftarrow> arr_at (r_array r) it;
            if f x then Some it else find_if_ring fuel' r f (seq_ring_next r it) end_it
          })"

declare ring_walk.simps [simp del] find_if_ring.simps [simp del]

section \<open>Invariant and abstraction\<close>

definition ring_inv :: "seq_ring \<Rightarrow> bool" where
  "ring_inv r \<longleftrightarrow>
     (\<exists>k. 5 \<le> k \<and> k \<le> 31 \<and> r_cap r = 2 ^ k) \<and> length (r_array r) = r_cap r \<and>
     (\<forall>s \<in> set (r_array r). length s = r_elt_size r) \<and> seq_ring_size r < r_cap r"

definition slot :: "seq_ring \<Rightarrow> nat \<Rightarrow> nat" where
  "slot r i = (unat (r_tail r) + i) mod r_cap r"

definition ring_list :: "seq_ring \<Rightarrow> byte list list" where
  "ring_list r = map (\<lambda>i. r_array r ! slot r i) [0..<seq_ring_size r]"

section \<open>Masks and slots\<close>

lemma ring_mask_unat:
  assumes "c = 2 ^ k" and "k \<le> 32"
  shows "unat (ring_mask c v) = unat v mod c"
proof -
  have "(word_of_nat c - 1 :: u32) = mask k"
    using assms by (simp add: mask_eq_exp_minus_1)
  then show ?thesis
    using assms by (simp add: ring_mask_def unsigned_take_bit_eq flip: take_bit_eq_mask take_bit_eq_mod)
qed

lemma unat_add_mod_dvd:
  assumes "c dvd 2 ^ 32"
  shows "unat (v + word_of_nat n :: u32) mod c = (unat v + n) mod c"
proof -
  have "unat (v + word_of_nat n) = (unat v + n) mod 2 ^ 32"
    by (simp add: unat_word_ariths unat_of_nat mod_add_right_eq)
  then show ?thesis
    using assms by (simp add: mod_mod_cancel)
qed

text \<open>The facts the proofs below take from the invariant.\<close>

lemma ring_invD:
  assumes "ring_inv r"
  shows "r_cap r dvd 2 ^ 32" "0 < r_cap r" "32 \<le> r_cap r" "length (r_array r) = r_cap r"
    "seq_ring_size r < r_cap r" "\<And>s. s \<in> set (r_array r) \<Longrightarrow> length s = r_elt_size r"
    "\<And>v. unat (ring_mask (r_cap r) v) = unat v mod r_cap r" "r_cap r \<le> 2 ^ 31"
proof -
  from assms obtain k where k: "5 \<le> k" "k \<le> 31" "r_cap r = 2 ^ k"
    by (auto simp: ring_inv_def)
  show "r_cap r dvd 2 ^ 32" using k le_imp_power_dvd [of k 32 "2::nat"] by simp
  show "0 < r_cap r" using k by simp
  have "(2::nat) ^ 5 \<le> 2 ^ k" using k by (intro power_increasing) auto
  then show "32 \<le> r_cap r" using k by simp
  show "\<And>v. unat (ring_mask (r_cap r) v) = unat v mod r_cap r"
    using k by (intro ring_mask_unat) auto
  have "(2::nat) ^ k \<le> 2 ^ 31" using k by (intro power_increasing) auto
  then show "r_cap r \<le> 2 ^ 31" using k by simp
qed (use assms in \<open>auto simp: ring_inv_def\<close>)

lemma head_slot:
  assumes "ring_inv r"
  shows "unat (r_head r) mod r_cap r = slot r (seq_ring_size r)"
proof -
  have "r_head r = r_tail r + word_of_nat (seq_ring_size r)"
    by (simp add: seq_ring_size_def)
  then show ?thesis
    using unat_add_mod_dvd [OF ring_invD(1) [OF assms]] by (metis slot_def)
qed

lemma front_slot: "ring_inv r \<Longrightarrow> seq_ring_front r = slot r 0"
  by (simp add: seq_ring_front_def slot_def ring_invD)

lemma end_slot: "ring_inv r \<Longrightarrow> seq_ring_end r = slot r (seq_ring_size r)"
  by (simp add: seq_ring_end_def ring_invD head_slot)

lemma at_slot: "ring_inv r \<Longrightarrow> seq_ring_at r (word_of_nat i) = slot r i"
  by (simp add: seq_ring_at_def slot_def ring_invD(7) unat_add_mod_dvd [OF ring_invD(1)])

lemma slot_less: "ring_inv r \<Longrightarrow> slot r i < r_cap r"
  by (simp add: slot_def ring_invD)

lemma next_slot:
  assumes "ring_inv r"
  shows "seq_ring_next r (slot r i) = slot r (Suc i)"
proof -
  have "unat (word_of_nat (Suc (slot r i)) :: u32) = Suc (slot r i)"
    using slot_less [OF assms, of i] ring_invD(8) [OF assms]
    by (intro of_nat_inverse [OF refl]) simp
  then have "unat (word_of_nat (slot r i) + 1 :: u32) = Suc (slot r i)"
    by (simp add: add.commute)
  moreover have "slot r (Suc i) = (if Suc (slot r i) = r_cap r then 0 else Suc (slot r i))"
    by (simp add: slot_def mod_Suc)
  ultimately show ?thesis
    by (simp add: seq_ring_next_def)
qed

lemma add_mod_inject:
  assumes "(a + i) mod c = (a + j) mod c" "i < c" "j < (c::nat)"
  shows "i = j"
proof -
  have "i = j" if "i \<le> j" "(a + i) mod c = (a + j) mod c" "j < c" for i j
  proof -
    have "c dvd (a + j) - (a + i)"
      using that mod_eq_dvd_iff_nat [of "a + i" "a + j" c] by simp
    then show ?thesis using that by (auto dest: dvd_imp_le)
  qed
  from this [of i j] this [of j i] show ?thesis
    using assms nat_le_linear [of i j] by auto
qed

lemma slot_inject:
  "ring_inv r \<Longrightarrow> i < r_cap r \<Longrightarrow> j < r_cap r \<Longrightarrow> slot r i = slot r j \<longleftrightarrow> i = j"
  unfolding slot_def by (blast intro: add_mod_inject)

lemma length_ring_list [simp]: "length (ring_list r) = seq_ring_size r"
  by (simp add: ring_list_def)

lemma ring_list_Nil: "ring_list r = [] \<longleftrightarrow> seq_ring_size r = 0"
  by (simp add: ring_list_def)

lemma ring_list_nth: "i < seq_ring_size r \<Longrightarrow> ring_list r ! i = r_array r ! slot r i"
  by (simp add: ring_list_def)

section \<open>Pushing and growing\<close>

lemma ring_list_split:
  assumes "ring_inv r"
  defines "tp \<equiv> unat (r_tail r) mod r_cap r"
  shows "ring_list r =
    (if tp + seq_ring_size r \<le> r_cap r
     then take (seq_ring_size r) (drop tp (r_array r))
     else drop tp (r_array r) @ take (tp + seq_ring_size r - r_cap r) (r_array r))"
proof -
  note inv = ring_invD [OF assms(1)]
  have tp: "tp < r_cap r" using inv by (simp add: tp_def)
  have sl: "slot r i = (if tp + i < r_cap r then tp + i else tp + i - r_cap r)"
    if "i < r_cap r" for i
  proof -
    have "slot r i = (tp + i) mod r_cap r" by (simp add: slot_def tp_def mod_add_left_eq)
    then show ?thesis using tp that by (simp add: mod_if)
  qed
  show ?thesis
    by (rule nth_equalityI)
      (use inv tp in \<open>auto simp: ring_list_nth sl nth_append min_def add.commute\<close>)
qed

lemma full_iff: "ring_inv r \<Longrightarrow> full r \<longleftrightarrow> Suc (seq_ring_size r) = r_cap r"
  using ring_invD(2) [of r] by (auto simp: full_def)

lemma enlarge_buffer_ok:
  assumes inv: "ring_inv r" and full: "full r" and bound: "r_cap r < 2 ^ 31"
  shows "\<exists>r'. enlarge_buffer r = Some r' \<and> ring_inv r' \<and> \<not> full r' \<and>
           ring_list r' = ring_list r \<and> r_elt_size r' = r_elt_size r \<and> r_cap r' = 2 * r_cap r"
proof -
  note iD = ring_invD [OF inv]
  define c where "c = r_cap r"
  define tp where "tp = unat (r_tail r) mod c"
  define hp where "hp = unat (r_head r) mod c"
  have sz: "Suc (seq_ring_size r) = c" using full full_iff [OF inv] by (simp add: c_def)
  have c: "32 \<le> c" "length (r_array r) = c" using iD by (auto simp: c_def)
  have tp: "tp < c" using c by (simp add: tp_def)
  have hp: "hp = (if tp = 0 then c - 1 else tp - 1)"
  proof -
    have "hp = (tp + seq_ring_size r) mod c"
      using head_slot [OF inv] by (simp add: hp_def tp_def slot_def c_def mod_add_left_eq)
    then show ?thesis using sz tp by (auto simp: mod_if)
  qed
  have lst: "ring_list r = (if tp = 0 then take (c - 1) (r_array r)
                            else drop tp (r_array r) @ take (tp - 1) (r_array r))"
    using ring_list_split [OF inv] sz tp c by (auto simp: c_def [symmetric] tp_def [symmetric])
  define buf where "buf = ring_list r @ replicate (c + 1) (zero_slot (r_elt_size r))"
  have eq: "enlarge_buffer r =
    Some (r\<lparr>r_cap := c * 2, r_array := buf, r_tail := 0, r_head := word_of_nat (c - 1)\<rparr>)"
  proof (cases "tp = 0")
    case True
    then have "tp < hp" "hp = c - 1" using hp c by auto
    with True show ?thesis
      using full c lst unfolding enlarge_buffer_def iD(7)
      by (simp add: copy_slots_def Let_def buf_def flip: c_def tp_def hp_def)
  next
    case False
    then have "\<not> tp < hp" "hp = tp - 1" using hp by auto
    with False show ?thesis
      using full c lst tp unfolding enlarge_buffer_def iD(7)
      by (simp add: copy_slots_def Let_def buf_def flip: c_def tp_def hp_def) linarith
  qed
  obtain k where k: "5 \<le> k" "c = 2 ^ k" "k < 31"
  proof -
    from inv obtain k where "5 \<le> k" "k \<le> 31" "c = 2 ^ k" by (auto simp: ring_inv_def c_def)
    moreover from this bound have "k \<noteq> 31" by (auto simp: c_def)
    ultimately show thesis using that by auto
  qed
  have un: "unat (word_of_nat (c - Suc 0) :: u32) = c - Suc 0"
    by (rule of_nat_inverse [OF refl]) (use bound in \<open>simp add: c_def less_imp_diff_less\<close>)
  let ?r = "r\<lparr>r_cap := c * 2, r_array := buf, r_tail := 0, r_head := word_of_nat (c - 1)\<rparr>"
  have sz': "seq_ring_size ?r = c - 1" by (simp add: seq_ring_size_def un)
  have els: "\<And>s. s \<in> set (ring_list r) \<Longrightarrow> length s = r_elt_size r"
    using iD(6) lst by (auto split: if_splits dest: in_set_dropD in_set_takeD)
  have "ring_inv ?r"
    unfolding ring_inv_def sz'
    using k sz c els by (auto simp: buf_def zero_slot_def intro!: exI [of _ "Suc k"])
  moreover have "ring_list ?r = ring_list r"
    using ring_list_split [OF calculation] sz sz' by (simp add: buf_def)
  moreover have "\<not> full ?r"
    using sz' c by (simp add: full_def)
  ultimately show ?thesis using eq by (auto simp: c_def)
qed

lemma push_slot_ok:
  assumes inv: "ring_inv r" and nf: "\<not> full r" and len: "length x = r_elt_size r"
  shows "ring_inv (r\<lparr>r_array := (r_array r)[seq_ring_end r := x], r_head := r_head r + 1\<rparr>)"
    and "ring_list (r\<lparr>r_array := (r_array r)[seq_ring_end r := x], r_head := r_head r + 1\<rparr>)
         = ring_list r @ [x]"
proof -
  let ?r = "r\<lparr>r_array := (r_array r)[seq_ring_end r := x], r_head := r_head r + 1\<rparr>"
  note iD = ring_invD [OF inv]
  have lt: "Suc (seq_ring_size r) < r_cap r"
    using nf iD(5) full_iff [OF inv] by simp
  have sz: "seq_ring_size ?r = Suc (seq_ring_size r)"
  proof -
    have eq: "r_head r + 1 - r_tail r = (r_head r - r_tail r) + 1" by simp
    have "unat ((r_head r - r_tail r) + 1) = Suc (unat (r_head r - r_tail r))"
      using lt iD(8) by (simp add: unat_word_ariths seq_ring_size_def)
    then show ?thesis by (simp add: seq_ring_size_def eq)
  qed
  have sl: "slot ?r i = slot r i" for i by (simp add: slot_def)
  show "ring_inv ?r"
    using inv lt len sz unfolding ring_inv_def
    by (auto dest!: set_update_subset_insert [THEN subsetD])
  show "ring_list ?r = ring_list r @ [x]"
  proof (rule nth_equalityI)
    show "length (ring_list ?r) = length (ring_list r @ [x])" by (simp add: sz)
  next
    fix i
    assume "i < length (ring_list ?r)"
    then have i: "i < Suc (seq_ring_size r)" by (simp add: sz)
    have nth: "ring_list ?r ! i = (r_array r)[slot r (seq_ring_size r) := x] ! slot r i"
      using i ring_list_nth [of i ?r] by (simp only: sz sl) (simp add: end_slot [OF inv])
    show "ring_list ?r ! i = (ring_list r @ [x]) ! i"
    proof (cases "i = seq_ring_size r")
      case True
      then show ?thesis
        unfolding nth using slot_less [OF inv] iD(4) by (simp add: nth_append)
    next
      case False
      then have "slot r i \<noteq> slot r (seq_ring_size r)"
        using i lt slot_inject [OF inv] by simp
      then show ?thesis
        using i False by (simp add: nth ring_list_nth nth_append)
    qed
  qed
qed

lemma seq_ring_push_back_ok:
  assumes inv: "ring_inv r" and len: "length x = r_elt_size r"
    and bound: "seq_ring_size r < 2 ^ 31 - 1"
  shows "\<exists>r'. seq_ring_push_back r x (r_elt_size r) = Some r' \<and> ring_inv r' \<and>
           ring_list r' = ring_list r @ [x] \<and> r_elt_size r' = r_elt_size r"
proof -
  obtain q where q: "(if full r then enlarge_buffer r else Some r) = Some q"
    "ring_inv q" "\<not> full q" "ring_list q = ring_list r" "r_elt_size q = r_elt_size r"
  proof (cases "full r")
    case True
    then have "r_cap r < 2 ^ 31"
      using bound full_iff [OF inv] by simp
    from enlarge_buffer_ok [OF inv True this] show thesis using True that by auto
  next
    case False
    with inv show thesis using that by auto
  qed
  let ?r = "q\<lparr>r_array := (r_array q)[seq_ring_end q := x], r_head := r_head q + 1\<rparr>"
  have "seq_ring_end q < length (r_array q)"
    using q(2) by (simp add: end_slot slot_less ring_invD(4))
  then have "seq_ring_push_back r x (r_elt_size r) = Some ?r"
    using q len by (simp add: seq_ring_push_back_def memcpy_from_def seq_ring_end_def)
  then show ?thesis
    using push_slot_ok [OF q(2,3)] q len by auto
qed

section \<open>Erasing from the front\<close>

lemma zero_slots_lengths:
  assumes "zero_slots esz a off n = Some b" and "\<And>s. s \<in> set a \<Longrightarrow> length s = esz" and "s \<in> set b"
  shows "length s = esz"
  using assms
  by (fastforce simp: zero_slots_def zero_slot_def split: if_splits dest: in_set_dropD in_set_takeD)

lemma zero_slots_nth:
  "zero_slots esz a off n = Some b \<Longrightarrow> i < length a \<Longrightarrow>
   b ! i = (if off \<le> i \<and> i < off + n then zero_slot esz else a ! i)"
  by (auto simp: zero_slots_def nth_append split: if_splits)

lemma length_zero_slots: "zero_slots esz a off n = Some b \<Longrightarrow> length b = length a"
  by (auto simp: zero_slots_def split: if_splits)

lemma zero_slots_defined: "off + n \<le> length a \<Longrightarrow> \<exists>b. zero_slots esz a off n = Some b"
  by (simp add: zero_slots_def)

text \<open>
  Moving the tail \<open>n\<close> slots on while only slots that it passes change drops the first \<open>n\<close> elements.
\<close>

lemma advance_tail:
  assumes inv: "ring_inv r" and n: "n \<le> seq_ring_size r"
    and len: "length a = r_cap r" and els: "\<And>s. s \<in> set a \<Longrightarrow> length s = r_elt_size r"
    and same: "\<And>i. n \<le> i \<Longrightarrow> i < seq_ring_size r \<Longrightarrow> a ! slot r i = r_array r ! slot r i"
  defines "r' \<equiv> r\<lparr>r_array := a, r_tail := r_tail r + word_of_nat n\<rparr>"
  shows "ring_inv r'" and "ring_list r' = drop n (ring_list r)"
    and "unat (ring_mask (r_cap r) (r_tail r + word_of_nat n)) = slot r n"
proof -
  note iD = ring_invD [OF inv]
  have sz: "seq_ring_size r' = seq_ring_size r - n"
  proof -
    have eq: "r_head r - (r_tail r + word_of_nat n) = (r_head r - r_tail r) - word_of_nat n" by simp
    have "unat (word_of_nat n :: u32) = n"
      using n iD(5,8) by (intro of_nat_inverse [OF refl]) simp
    then show ?thesis
      using n by (simp add: seq_ring_size_def r'_def eq unat_sub word_le_nat_alt)
  qed
  have sl: "slot r' i = slot r (n + i)" for i
    using unat_add_mod_dvd [OF iD(1), of "r_tail r" n]
    by (simp add: slot_def r'_def) (metis mod_add_left_eq add.assoc)
  have arr: "r_array r' = a" by (simp add: r'_def)
  show "ring_inv r'"
    using inv sz len els unfolding ring_inv_def by (auto simp: r'_def)
  show "ring_list r' = drop n (ring_list r)"
    by (rule nth_equalityI) (use n same arr in \<open>auto simp: sz sl ring_list_nth\<close>)
  show "unat (ring_mask (r_cap r) (r_tail r + word_of_nat n)) = slot r n"
    by (simp add: iD(7) unat_add_mod_dvd [OF iD(1)] slot_def)
qed

lemma slot_wrap:
  assumes "ring_inv r" "i < r_cap r"
  shows "slot r i = (if slot r 0 + i < r_cap r then slot r 0 + i else slot r 0 + i - r_cap r)"
proof -
  have "slot r i = (slot r 0 + i) mod r_cap r" by (simp add: slot_def mod_add_left_eq)
  then show ?thesis using assms(2) slot_less [OF assms(1), of 0] by (simp add: mod_if)
qed

lemma seq_ring_erase_ok:
  assumes inv: "ring_inv r" and n: "n \<le> seq_ring_size r"
  shows "\<exists>r'. seq_ring_erase r (seq_ring_front r) (slot r n) = Some r' \<and> ring_inv r' \<and>
           ring_list r' = drop n (ring_list r) \<and> r_elt_size r' = r_elt_size r"
proof (cases "n = 0")
  case True
  then show ?thesis
    using inv by (simp add: seq_ring_erase_def front_slot ring_invD(7) slot_def)
next
  case False
  note iD = ring_invD [OF inv]
  define tp where "tp = slot r 0"
  have tp: "tp < r_cap r" "unat (r_tail r) mod r_cap r = tp"
    using slot_less [OF inv, of 0] by (simp_all add: tp_def slot_def)
  have nc: "n < r_cap r" using n iD(5) by simp
  have sl: "slot r i = (if tp + i < r_cap r then tp + i else tp + i - r_cap r)"
    if "i < r_cap r" for i
    using slot_wrap [OF inv that] by (simp add: tp_def)
  have fr: "seq_ring_front r = tp" by (simp add: front_slot [OF inv] tp_def)
  show ?thesis
  proof (cases "tp + n < r_cap r")
    case True
    then have e: "slot r n = tp + n" using sl [OF nc] by simp
    obtain a where a: "zero_slots (r_elt_size r) (r_array r) tp n = Some a"
      using zero_slots_defined True iD(4) by (metis less_imp_le)
    have same: "a ! slot r i = r_array r ! slot r i" if "n \<le> i" "i < seq_ring_size r" for i
      using zero_slots_nth [OF a, of "slot r i"] slot_less [OF inv] sl [of i] that iD(4,5) tp
      by (auto split: if_splits)
    note adv = advance_tail [OF inv n _ _ same]
    have "length a = r_cap r" using length_zero_slots [OF a] iD(4) by simp
    moreover have "\<And>s. s \<in> set a \<Longrightarrow> length s = r_elt_size r"
      by (rule zero_slots_lengths [OF a iD(6)])
    ultimately show ?thesis
      using adv a False e tp True iD(7)
      by (auto simp: seq_ring_erase_def fr)
  next
    case wrap: False
    then have e: "slot r n = tp + n - r_cap r" using sl [OF nc] by simp
    have lt: "tp + n - r_cap r < tp" using nc wrap by simp
    obtain a where a: "zero_slots (r_elt_size r) (r_array r) tp (r_cap r - tp) = Some a"
      using zero_slots_defined [of tp "r_cap r - tp" "r_array r" "r_elt_size r"] tp(1) iD(4) by auto
    note la = length_zero_slots [OF a]
    have "0 + (tp + n - r_cap r) \<le> length a" using tp(1) nc iD(4) la by linarith
    then obtain b where b: "zero_slots (r_elt_size r) a 0 (tp + n - r_cap r) = Some b"
      using zero_slots_defined by blast
    have same: "b ! slot r i = r_array r ! slot r i" if "n \<le> i" "i < seq_ring_size r" for i
      using zero_slots_nth [OF a, of "slot r i"] zero_slots_nth [OF b, of "slot r i"]
        slot_less [OF inv] sl [of i] that iD(4,5) tp la wrap
      by (auto split: if_splits)
    note adv = advance_tail [OF inv n _ _ same]
    have "length b = r_cap r" using length_zero_slots [OF b] la iD(4) by simp
    moreover have "\<And>s. s \<in> set b \<Longrightarrow> length s = r_elt_size r"
      by (rule zero_slots_lengths [OF b zero_slots_lengths [OF a iD(6)]])
    moreover have "r_cap r - tp + (tp + n - r_cap r) = n" using wrap tp by simp
    ultimately show ?thesis
      using adv a b False e tp wrap lt iD(7) nc
      by (auto simp: seq_ring_erase_def fr)
  qed
qed

section \<open>Walking the ring\<close>

lemma ring_walk_from:
  assumes inv: "ring_inv r" and "i \<le> seq_ring_size r" and "seq_ring_size r - i \<le> fuel"
  shows "ring_walk fuel r (slot r i) (seq_ring_end r) = Some (drop i (ring_list r))"
  using assms(2,3)
proof (induction fuel arbitrary: i)
  case 0
  then show ?case by (simp add: ring_walk.simps end_slot [OF inv])
next
  case (Suc fuel)
  note iD = ring_invD [OF inv]
  show ?case
  proof (cases "i = seq_ring_size r")
    case True
    then show ?thesis by (simp add: ring_walk.simps end_slot [OF inv])
  next
    case False
    then have i: "i < seq_ring_size r" using Suc.prems by simp
    then have "slot r i \<noteq> seq_ring_end r"
      using iD(5) slot_inject [OF inv, of i "seq_ring_size r"] by (simp add: end_slot [OF inv])
    moreover have "arr_at (r_array r) (slot r i) = Some (ring_list r ! i)"
      using i slot_less [OF inv] iD(4) by (simp add: arr_at_def ring_list_nth)
    moreover have "ring_walk fuel r (slot r (Suc i)) (seq_ring_end r) = Some (drop (Suc i) (ring_list r))"
      using Suc.prems i by (intro Suc.IH) auto
    ultimately show ?thesis
      using i by (simp add: ring_walk.simps [of "Suc fuel"] next_slot [OF inv] Cons_nth_drop_Suc)
  qed
qed

lemma seq_ring_free_visits:
  "ring_inv r \<Longrightarrow> seq_ring_free r = Some (ring_list r)"
  using ring_walk_from [of r 0 "r_cap r"] ring_invD(5) [of r]
  by (simp add: seq_ring_free_def front_slot)

lemma find_if_ring_from:
  assumes inv: "ring_inv r" and "i \<le> seq_ring_size r" and "seq_ring_size r - i \<le> fuel"
  shows "find_if_ring fuel r f (slot r i) (seq_ring_end r) =
           Some (slot r (i + length (takeWhile (\<lambda>x. \<not> f x) (drop i (ring_list r)))))"
  using assms(2,3)
proof (induction fuel arbitrary: i)
  case 0
  then show ?case by (simp add: find_if_ring.simps end_slot [OF inv])
next
  case (Suc fuel)
  note iD = ring_invD [OF inv]
  show ?case
  proof (cases "i = seq_ring_size r")
    case True
    then show ?thesis by (simp add: find_if_ring.simps end_slot [OF inv])
  next
    case False
    then have i: "i < seq_ring_size r" using Suc.prems by simp
    then have ne: "slot r i \<noteq> seq_ring_end r"
      using iD(5) slot_inject [OF inv, of i "seq_ring_size r"] by (simp add: end_slot [OF inv])
    have at: "arr_at (r_array r) (slot r i) = Some (ring_list r ! i)"
      using i slot_less [OF inv] iD(4) by (simp add: arr_at_def ring_list_nth)
    have dr: "drop i (ring_list r) = ring_list r ! i # drop (Suc i) (ring_list r)"
      using i by (simp add: Cons_nth_drop_Suc)
    have "find_if_ring fuel r f (slot r (Suc i)) (seq_ring_end r) =
      Some (slot r (Suc i + length (takeWhile (\<lambda>x. \<not> f x) (drop (Suc i) (ring_list r)))))"
      using Suc.prems i by (intro Suc.IH) auto
    then show ?thesis
      using ne by (simp add: find_if_ring.simps [of "Suc fuel"] next_slot [OF inv] at dr)
  qed
qed

lemma ring_init_inv: "ring_inv (seq_ring_init esz)" "ring_list (seq_ring_init esz) = []"
  by (auto simp: ring_inv_def seq_ring_init_def DEFAULT_ELM_def zero_slot_def seq_ring_size_def
      ring_list_def intro!: exI [of _ 5])

section \<open>The ring as a queue\<close>

text \<open>
  Taking the front element and erasing it up to the next iterator, the sequence of calls that
  the thread-safe queue makes.
\<close>

definition ring_push :: "seq_ring \<Rightarrow> byte list \<Rightarrow> seq_ring option" where
  "ring_push r x = seq_ring_push_back r x (length x)"

definition ring_pop :: "seq_ring \<Rightarrow> (byte list \<times> seq_ring) option" where
  "ring_pop r = do {
     let it = seq_ring_front r;
     x \<leftarrow> arr_at (r_array r) it;
     c_assert (it \<noteq> seq_ring_end r);
     r' \<leftarrow> seq_ring_erase r it (seq_ring_next r it);
     Some (x, r')
   }"

lemma ring_pop_ok:
  assumes inv: "ring_inv r" and ne: "ring_list r = x # xs"
  shows "\<exists>r'. ring_pop r = Some (x, r') \<and> ring_inv r' \<and> ring_list r' = xs \<and>
           r_elt_size r' = r_elt_size r"
proof -
  have sz: "0 < seq_ring_size r" using ne by (metis length_ring_list length_greater_0_conv list.distinct(1))
  have "arr_at (r_array r) (slot r 0) = Some x"
    using slot_less [OF inv] ring_invD(4) [OF inv] ring_list_nth [OF sz] ne by (simp add: arr_at_def)
  moreover obtain r' where "seq_ring_erase r (seq_ring_front r) (slot r 1) = Some r'" "ring_inv r'"
      "ring_list r' = drop 1 (ring_list r)" "r_elt_size r' = r_elt_size r"
    using seq_ring_erase_ok [OF inv, of 1] sz by auto
  moreover have "seq_ring_front r \<noteq> seq_ring_end r"
    using sz ring_invD(5) [OF inv] slot_inject [OF inv, of 0 "seq_ring_size r"]
    by (simp add: front_slot [OF inv] end_slot [OF inv])
  ultimately show ?thesis
    using ne by (simp add: ring_pop_def front_slot [OF inv] next_slot [OF inv])
qed

interpretation ring: fifo_queue ring_inv ring_list "\<lambda>r x. length x = r_elt_size r" "2 ^ 31 - 1"
  ring_push ring_pop
proof unfold_locales
  fix r :: seq_ring and x :: "byte list"
  assume "ring_inv r" "length x = r_elt_size r" "length (ring_list r) < 2 ^ 31 - 1"
  then show "\<exists>r'. ring_push r x = Some r' \<and> ring_inv r' \<and> ring_list r' = ring_list r @ [x] \<and>
      (\<lambda>x. length x = r_elt_size r') = (\<lambda>x. length x = r_elt_size r)"
    using seq_ring_push_back_ok [of r x] by (auto simp: ring_push_def)
next
  fix r :: seq_ring and x xs
  assume "ring_inv r" "ring_list r = x # xs"
  then show "\<exists>r'. ring_pop r = Some (x, r') \<and> ring_inv r' \<and> ring_list r' = xs \<and>
      (\<lambda>x. length x = r_elt_size r') = (\<lambda>x. length x = r_elt_size r)"
    using ring_pop_ok [of r x xs] by auto
qed

section \<open>Properties\<close>

text \<open>C20: Appending to a ring that satisfies its invariant never aborts: the ring grows when it is
  full, also when \<^verbatim>\<open>head\<close> and \<^verbatim>\<open>tail\<close> have wrapped around 32 bits or around the array, keeps its
  invariant and holds the old elements followed by the new one.\<close>

theorem seq_ring_push_back_refines:
  assumes "ring_inv r" and "length x = r_elt_size r" and "seq_ring_size r < 2 ^ 31 - 1"
  shows "\<exists>r'. seq_ring_push_back r x (r_elt_size r) = Some r' \<and> ring_inv r' \<and>
           ring_list r' = ring_list r @ [x]"
  using seq_ring_push_back_ok [OF assms] by blast

theorem seq_ring_push_back_refines_witness:
  "\<exists>r'. seq_ring_push_back (seq_ring_init 2) [1, 2] 2 = Some r' \<and> ring_inv r' \<and>
     ring_list r' = [[1, 2]]"
  using seq_ring_push_back_refines [of "seq_ring_init 2" "[1, 2]"] ring_init_inv [of 2]
  by (simp add: seq_ring_init_def seq_ring_size_def)

text \<open>C22: Erasing from the front iterator to the iterator of the \<open>n\<close>-th element (whether or not the
  range wraps around the end of the array) never fails one of the code's assertions, keeps the
  invariant and drops exactly the first \<open>n\<close> elements.\<close>

theorem seq_ring_erase_refines:
  assumes "ring_inv r" and "n \<le> seq_ring_size r"
  shows "\<exists>r'. seq_ring_erase r (seq_ring_front r) (seq_ring_at r (word_of_nat n)) = Some r' \<and>
           ring_inv r' \<and> ring_list r' = drop n (ring_list r)"
  using seq_ring_erase_ok [OF assms] at_slot [OF assms(1)] by auto

theorem seq_ring_erase_refines_witness:
  "\<exists>r'. seq_ring_erase (seq_ring_init 4) 0 0 = Some r' \<and> ring_inv r' \<and> ring_list r' = []"
  using seq_ring_erase_refines [of "seq_ring_init 4" 0] ring_init_inv [of 4]
  by (simp add: seq_ring_init_def seq_ring_front_def seq_ring_at_def ring_mask_def)

text \<open>\<^verbatim>\<open>find_if_ring\<close> started at the front of a ring stops after at most \<^verbatim>\<open>cap\<close> steps at the first
  element that satisfies the predicate, and at the end iterator exactly when there is none.\<close>

theorem find_if_ring_first:
  assumes "ring_inv r"
  shows "find_if_ring (r_cap r) r f (seq_ring_front r) (seq_ring_end r) =
           Some (seq_ring_at r (word_of_nat (length (takeWhile (\<lambda>x. \<not> f x) (ring_list r)))))"
  using find_if_ring_from [OF assms, of 0 "r_cap r" f] ring_invD(5) [OF assms]
  by (simp add: front_slot [OF assms] at_slot [OF assms])

theorem find_if_ring_first_witness:
  "find_if_ring 32 (seq_ring_init 1) (\<lambda>x. x = [7]) 0 0 = Some 0"
  using find_if_ring_first [OF ring_init_inv(1), of 1 "\<lambda>x. x = [7]"]
  by (simp add: ring_init_inv) (simp add: seq_ring_init_def seq_ring_front_def seq_ring_end_def
      seq_ring_at_def ring_mask_def DEFAULT_ELM_def)

text \<open>The distance from the iterator of the \<open>i\<close>-th element to that of the \<open>i + d\<close>-th one is \<open>d\<close>, also
  when the range wraps around the end of the array, except that an empty range has the distance
  \<open>cap\<close> and not \<open>0\<close>.\<close>

theorem seq_ring_dist_slots:
  assumes "ring_inv r" and "r_cap r < 2 ^ 31" and "d < r_cap r"
  shows "seq_ring_dist r (seq_ring_at r (word_of_nat i)) (seq_ring_at r (word_of_nat (i + d))) =
           (if d = 0 then int (r_cap r) else int d)"
proof -
  note iD = ring_invD [OF assms(1)]
  have pos: "slot r i < r_cap r" "slot r (i + d) < r_cap r"
    using slot_less [OF assms(1)] by auto
  have "slot r (i + d) = (slot r i + d) mod r_cap r"
    by (simp add: slot_def mod_add_left_eq add.assoc)
  then have wrap: "slot r (i + d) = (if slot r i + d < r_cap r then slot r i + d
                                     else slot r i + d - r_cap r)"
    using pos(1) assms(3) by (simp add: mod_if)
  have s: "sint (word_of_nat n :: u32) = int n" if "n \<le> r_cap r" for n
    using that assms(2) by (intro sint_of_nat_small) simp
  have "seq_ring_dist r (slot r i) (slot r (i + d)) = (if d = 0 then int (r_cap r) else int d)"
  proof (cases "slot r i < slot r (i + d)")
    case True
    then have "d \<noteq> 0" "slot r (i + d) - slot r i = d"
      using pos(1) assms(3) wrap by (auto split: if_splits)
    with True show ?thesis using s [of d] assms(3) by (simp only: seq_ring_dist_def) simp
  next
    case False
    then have "r_cap r - slot r i + slot r (i + d) = (if d = 0 then r_cap r else d)"
      using pos(1) assms(3) wrap by (auto split: if_splits)
    with False show ?thesis
      using s [of "if d = 0 then r_cap r else d"] assms(3) by (simp only: seq_ring_dist_def) simp
  qed
  then show ?thesis by (simp only: at_slot [OF assms(1)])
qed

theorem seq_ring_dist_slots_witness:
  "seq_ring_dist (seq_ring_init 4) 30 2 = 4 \<and> seq_ring_dist (seq_ring_init 4) 5 5 = 32"
  using seq_ring_dist_slots [OF ring_init_inv(1), of 4 4 30]
    seq_ring_dist_slots [OF ring_init_inv(1), of 4 0 5]
  by (simp add: seq_ring_init_def seq_ring_at_def ring_mask_def DEFAULT_ELM_def)

end
