(* ===== verification/TsQueue.thy ===== *)
theory TsQueue
  imports SeqRing begin

text \<open>
  The thread-safe queue of \<^verbatim>\<open>util/alg_ds/ds/ts_queue/ts_queue.c\<close> together with the threads that use
  it in \<^verbatim>\<open>xApp/db/db.c\<close> and \<^verbatim>\<open>xApp/msg_dispatcher_xapp.c\<close>: any number of producers that push, one
  worker that takes elements, and the owner that stops the worker and frees the queue. Each step is
  one critical section of the mutex (or one access of an atomic flag outside of it); the
  interleavings are the runs of the step relation.
\<close>

section \<open>Operations\<close>

record tsq =
  q_ring :: seq_ring
  q_stop_token :: bool
  q_stopped :: bool

definition init_tsq :: "nat \<Rightarrow> tsq option" where
  "init_tsq elm_sz = do {
     c_assert (elm_sz > 0);
     Some \<lparr>q_ring = seq_ring_init elm_sz, q_stop_token = False, q_stopped = False\<rparr>
   }"

text \<open>The body of \<^verbatim>\<open>push_tsq\<close> under the lock; the signal that follows is part of the step.\<close>

definition push_tsq :: "tsq \<Rightarrow> byte list \<Rightarrow> tsq option" where
  "push_tsq q val = do {
     r \<leftarrow> ring_push (q_ring q) val;
     Some (q\<lparr>q_ring := r\<rparr>)
   }"

definition size_tsq :: "tsq \<Rightarrow> nat" where
  "size_tsq q = seq_ring_size (q_ring q)"

text \<open>
  What a consumer does while it holds the mutex: wait on the condition variable (\<open>Wait\<close>, which
  releases the mutex), leave because of the stop token (\<open>Stopped\<close>), or return an element.
  \<open>rc\<close> is the result of the last \<^verbatim>\<open>pthread_cond_wait\<close>.
\<close>

datatype 'e tsq_result = Wait | Stopped | Got "'e list"

definition wait_and_pop_tsq ::
  "(byte list \<Rightarrow> 'e) \<Rightarrow> int \<Rightarrow> tsq \<Rightarrow> ('e tsq_result \<times> tsq) option" where
  "wait_and_pop_tsq f rc q =
     (if seq_ring_size (q_ring q) = 0 \<and> rc = 0 \<and> q_stop_token q = False then Some (Wait, q)
      else if q_stop_token q = True then Some (Stopped, q)
      else do {
        c_assert (rc = 0);
        (x, r) \<leftarrow> ring_pop (q_ring q);
        Some (Got [f x], q\<lparr>q_ring := r\<rparr>)
      })"

text \<open>The loop of the batch operations: \<open>f\<close> of \<open>n\<close> consecutive elements and the iterator after them.\<close>

primrec batch_loop ::
  "(byte list \<Rightarrow> 'e) \<Rightarrow> seq_ring \<Rightarrow> nat \<Rightarrow> nat \<Rightarrow> ('e list \<times> nat) option" where
  "batch_loop f r 0 next_it = Some ([], next_it)"
| "batch_loop f r (Suc n) next_it = do {
     x \<leftarrow> arr_at (r_array r) next_it;
     (xs, e) \<leftarrow> batch_loop f r n (seq_ring_next r next_it);
     Some (f x # xs, e)
   }"

definition pop_tsq_batch ::
  "nat \<Rightarrow> (byte list \<Rightarrow> 'e) \<Rightarrow> tsq \<Rightarrow> ('e tsq_result \<times> tsq) option" where
  "pop_tsq_batch n f q =
     (if q_stop_token q = True then Some (Stopped, q)
      else do {
        c_assert (n \<le> seq_ring_size (q_ring q));
        let it = seq_ring_front (q_ring q);
        c_assert (it \<noteq> seq_ring_end (q_ring q));
        (xs, next_it) \<leftarrow> batch_loop f (q_ring q) n it;
        r \<leftarrow> seq_ring_erase (q_ring q) it next_it;
        Some (Got xs, q\<lparr>q_ring := r\<rparr>)
      })"

definition pop_tsq_10 :: "(byte list \<Rightarrow> 'e) \<Rightarrow> tsq \<Rightarrow> ('e tsq_result \<times> tsq) option" where
  "pop_tsq_10 = pop_tsq_batch 10"

definition pop_tsq_100 :: "(byte list \<Rightarrow> 'e) \<Rightarrow> tsq \<Rightarrow> ('e tsq_result \<times> tsq) option" where
  "pop_tsq_100 = pop_tsq_batch 100"

section \<open>The threads\<close>

text \<open>
  The worker of \<^verbatim>\<open>db.c\<close> looks at the size of the queue and then calls one of the three pops; the
  worker of \<^verbatim>\<open>msg_dispatcher_xapp.c\<close> always waits for one element.
\<close>

datatype call = Pop1 | Pop10 | Pop100

definition db_choose :: "nat \<Rightarrow> call" where
  "db_choose sz = (if sz > 100 then Pop100 else if sz > 10 then Pop10 else Pop1)"

fun do_call :: "call \<Rightarrow> tsq \<Rightarrow> (byte list tsq_result \<times> tsq) option" where
  "do_call Pop1 q = wait_and_pop_tsq id 0 q"
| "do_call Pop10 q = pop_tsq_10 id q"
| "do_call Pop100 q = pop_tsq_100 id q"

text \<open>
  \<open>Idle\<close>: at the head of the worker's loop; \<open>Chosen\<close>: about to lock the mutex; \<open>Blocked\<close>: inside
  \<^verbatim>\<open>pthread_cond_wait\<close>; \<open>Woken\<close>: woken up and about to get the mutex back; \<open>Leaving\<close>: has seen
  the stop token and released the mutex; \<open>Finished\<close>: has set \<^verbatim>\<open>stopped\<close>. The owner is
  \<open>Running\<close>, has set the stop token (\<open>StopSet\<close>), has signalled and polls \<^verbatim>\<open>stopped\<close>
  (\<open>Polling\<close>), or has freed the queue (\<open>Freed\<close>).
\<close>

datatype worker = Idle | Chosen call | Blocked | Woken | Leaving | Finished
datatype owner = Running | StopSet | Polling | Freed

text \<open>The logs of pushed, popped and finally freed elements are ghost state.\<close>

record tsq_sys =
  s_q :: tsq
  s_worker :: worker
  s_owner :: owner
  s_pushed :: "byte list list"
  s_popped :: "byte list list"
  s_freed :: "byte list list"

text \<open>\<^verbatim>\<open>pthread_cond_signal\<close> wakes the worker when it is blocked.\<close>

definition cond_signal :: "worker \<Rightarrow> worker" where
  "cond_signal w = (if w = Blocked then Woken else w)"

text \<open>What the worker does with the result of a critical section.\<close>

fun worker_after :: "byte list tsq_result \<Rightarrow> worker" where
  "worker_after Wait = Blocked"
| "worker_after Stopped = Leaving"
| "worker_after (Got xs) = Idle"

fun got :: "byte list tsq_result \<Rightarrow> byte list list" where
  "got (Got xs) = xs"
| "got _ = []"

text \<open>
  The steps. A producer pushes while the owner has not freed the queue, elements have the size of
  the queue and the ring stays below \<open>2 ^ 31\<close> slots (its counters have 32 bits).
\<close>

inductive tsq_step :: "tsq_sys \<Rightarrow> tsq_sys \<Rightarrow> bool" where
  producer: "\<lbrakk>s_owner s \<noteq> Freed; length x = r_elt_size (q_ring (s_q s));
     size_tsq (s_q s) < 2 ^ 31 - 1; push_tsq (s_q s) x = Some q\<rbrakk> \<Longrightarrow>
   tsq_step s (s\<lparr>s_q := q, s_worker := cond_signal (s_worker s), s_pushed := s_pushed s @ [x]\<rparr>)"
| choose_db: "s_worker s = Idle \<Longrightarrow>
   tsq_step s (s\<lparr>s_worker := Chosen (db_choose (size_tsq (s_q s)))\<rparr>)"
| choose_one: "s_worker s = Idle \<Longrightarrow> tsq_step s (s\<lparr>s_worker := Chosen Pop1\<rparr>)"
| call: "\<lbrakk>s_worker s = Chosen c; do_call c (s_q s) = Some (res, q)\<rbrakk> \<Longrightarrow>
   tsq_step s (s\<lparr>s_q := q, s_worker := worker_after res, s_popped := s_popped s @ got res\<rparr>)"
| spurious: "s_worker s = Blocked \<Longrightarrow> tsq_step s (s\<lparr>s_worker := Woken\<rparr>)"
| woken: "\<lbrakk>s_worker s = Woken; wait_and_pop_tsq id 0 (s_q s) = Some (res, q)\<rbrakk> \<Longrightarrow>
   tsq_step s (s\<lparr>s_q := q, s_worker := worker_after res, s_popped := s_popped s @ got res\<rparr>)"
| leave: "s_worker s = Leaving \<Longrightarrow>
   tsq_step s (s\<lparr>s_q := (s_q s)\<lparr>q_stopped := True\<rparr>, s_worker := Finished\<rparr>)"
| set_stop: "s_owner s = Running \<Longrightarrow>
   tsq_step s (s\<lparr>s_q := (s_q s)\<lparr>q_stop_token := True\<rparr>, s_owner := StopSet\<rparr>)"
| signal: "s_owner s = StopSet \<Longrightarrow>
   tsq_step s (s\<lparr>s_worker := cond_signal (s_worker s), s_owner := Polling\<rparr>)"
| free_tsq: "\<lbrakk>s_owner s = Polling; q_stopped (s_q s); seq_ring_free (q_ring (s_q s)) = Some xs\<rbrakk> \<Longrightarrow>
   tsq_step s (s\<lparr>s_owner := Freed, s_freed := xs\<rparr>)"

definition tsq_start :: "tsq \<Rightarrow> tsq_sys" where
  "tsq_start q = \<lparr>s_q = q, s_worker = Idle, s_owner = Running, s_pushed = [], s_popped = [],
     s_freed = []\<rparr>"

inductive tsq_reach :: "nat \<Rightarrow> tsq_sys \<Rightarrow> bool" for elm_sz where
  init: "init_tsq elm_sz = Some q \<Longrightarrow> tsq_reach elm_sz (tsq_start q)"
| step: "tsq_reach elm_sz s \<Longrightarrow> tsq_step s s' \<Longrightarrow> tsq_reach elm_sz s'"

inductive_cases tsq_stepE: "tsq_step s s'"

section \<open>Operations on the contents\<close>

definition tsq_list :: "tsq \<Rightarrow> byte list list" where
  "tsq_list q = ring_list (q_ring q)"

lemma batch_loop_ok:
  assumes inv: "ring_inv r"
  shows "i + n \<le> seq_ring_size r \<Longrightarrow>
    batch_loop f r n (slot r i) = Some (map f (take n (drop i (ring_list r))), slot r (i + n))"
proof (induction n arbitrary: i)
  case 0
  then show ?case by simp
next
  case (Suc n)
  then have i: "i < seq_ring_size r" by simp
  then have "arr_at (r_array r) (slot r i) = Some (ring_list r ! i)"
    using slot_less [OF inv] ring_invD(4) [OF inv] by (simp add: arr_at_def ring_list_nth)
  moreover have "drop i (ring_list r) = ring_list r ! i # drop (Suc i) (ring_list r)"
    using i by (simp add: Cons_nth_drop_Suc)
  moreover have "batch_loop f r n (slot r (Suc i)) =
      Some (map f (take n (drop (Suc i) (ring_list r))), slot r (Suc i + n))"
    using Suc.prems by (intro Suc.IH) simp
  ultimately show ?case by (simp add: next_slot [OF inv])
qed

lemma push_tsq_ok:
  assumes "ring_inv (q_ring q)" and "length x = r_elt_size (q_ring q)"
    and "size_tsq q < 2 ^ 31 - 1"
  shows "\<exists>r. push_tsq q x = Some (q\<lparr>q_ring := r\<rparr>) \<and> ring_inv r \<and>
           ring_list r = tsq_list q @ [x] \<and> r_elt_size r = r_elt_size (q_ring q)"
  using seq_ring_push_back_ok [OF assms(1,2)] assms(2,3)
  by (auto simp: push_tsq_def ring_push_def size_tsq_def tsq_list_def)

text \<open>Each pop either waits, stops or takes a prefix of the contents.\<close>

lemma wait_and_pop_tsq_ok:
  assumes "ring_inv (q_ring q)"
  shows "\<exists>res r. wait_and_pop_tsq id 0 q = Some (res, q\<lparr>q_ring := r\<rparr>) \<and> ring_inv r \<and>
           tsq_list q = got res @ ring_list r \<and> r_elt_size r = r_elt_size (q_ring q) \<and>
           (res = Wait \<longrightarrow> tsq_list q = [] \<and> \<not> q_stop_token q) \<and> (q_stop_token q \<longrightarrow> res = Stopped) \<and>
           (res = Stopped \<longrightarrow> q_stop_token q)"
proof (cases "q_stop_token q \<or> tsq_list q = []")
  case True
  then have "wait_and_pop_tsq id 0 q =
      Some (if q_stop_token q then Stopped else Wait, q)"
    by (auto simp: wait_and_pop_tsq_def tsq_list_def ring_list_Nil)
  with True assms show ?thesis
    by (intro exI [of _ "if q_stop_token q then Stopped else Wait"] exI [of _ "q_ring q"])
      (auto simp: tsq_list_def)
next
  case False
  then obtain x xs where xs: "ring_list (q_ring q) = x # xs"
    by (auto simp: tsq_list_def neq_Nil_conv)
  from ring_pop_ok [OF assms xs] obtain r where r: "ring_pop (q_ring q) = Some (x, r)" "ring_inv r"
    "ring_list r = xs" "r_elt_size r = r_elt_size (q_ring q)" by auto
  have "seq_ring_size (q_ring q) \<noteq> 0"
    using xs ring_list_Nil [of "q_ring q"] by simp
  then show ?thesis
    using False r xs by (intro exI [of _ "Got [x]"]) (auto simp: wait_and_pop_tsq_def tsq_list_def)
qed

lemma pop_tsq_batch_ok:
  assumes inv: "ring_inv (q_ring q)" and n: "0 < n" "n \<le> size_tsq q"
  shows "\<exists>res r. pop_tsq_batch n id q = Some (res, q\<lparr>q_ring := r\<rparr>) \<and> ring_inv r \<and>
           tsq_list q = got res @ ring_list r \<and> r_elt_size r = r_elt_size (q_ring q) \<and>
           res = (if q_stop_token q then Stopped else Got (take n (tsq_list q)))"
proof (cases "q_stop_token q")
  case True
  then have "pop_tsq_batch n id q = Some (Stopped, q)"
    by (simp add: pop_tsq_batch_def)
  with True inv show ?thesis
    by (intro exI [of _ Stopped] exI [of _ "q_ring q"]) (auto simp: tsq_list_def)
next
  case False
  let ?r = "q_ring q"
  have sz: "n \<le> seq_ring_size ?r" using n by (simp add: size_tsq_def)
  from seq_ring_erase_ok [OF inv sz] obtain r' where r': "ring_inv r'"
    "seq_ring_erase ?r (slot ?r 0) (slot ?r n) = Some r'"
    "ring_list r' = drop n (ring_list ?r)" "r_elt_size r' = r_elt_size ?r"
    by (auto simp: front_slot [OF inv])
  moreover have "slot ?r 0 \<noteq> seq_ring_end ?r"
    using n sz ring_invD(5) [OF inv] slot_inject [OF inv, of 0 "seq_ring_size ?r"]
    by (simp add: end_slot [OF inv])
  ultimately have "pop_tsq_batch n id q = Some (Got (take n (tsq_list q)), q\<lparr>q_ring := r'\<rparr>)"
    using False sz batch_loop_ok [OF inv, of 0 n id]
    by (simp add: pop_tsq_batch_def front_slot [OF inv] tsq_list_def)
  with False r' show ?thesis by (intro exI) (auto simp: tsq_list_def)
qed

section \<open>The invariant\<close>

definition tsq_inv :: "nat \<Rightarrow> tsq_sys \<Rightarrow> bool" where
  "tsq_inv e s \<longleftrightarrow>
     ring_inv (q_ring (s_q s)) \<and> r_elt_size (q_ring (s_q s)) = e \<and>
     s_pushed s = s_popped s @ tsq_list (s_q s) \<and>
     (s_worker s = Blocked \<longrightarrow> tsq_list (s_q s) = [] \<and> (s_owner s = Running \<or> s_owner s = StopSet)) \<and>
     (q_stop_token (s_q s) \<longleftrightarrow> s_owner s \<noteq> Running) \<and>
     (q_stopped (s_q s) \<longleftrightarrow> s_worker s = Finished) \<and>
     (s_worker s = Leaving \<or> s_worker s = Finished \<longrightarrow> q_stop_token (s_q s)) \<and>
     (s_worker s = Chosen Pop10 \<longrightarrow> 10 \<le> size_tsq (s_q s)) \<and>
     (s_worker s = Chosen Pop100 \<longrightarrow> 100 \<le> size_tsq (s_q s)) \<and>
     (s_owner s = Freed \<longrightarrow> s_worker s = Finished \<and> s_freed s = tsq_list (s_q s))"

lemma tsq_init_inv:
  assumes "init_tsq e = Some q"
  shows "tsq_inv e (tsq_start q)"
proof -
  have q: "q = \<lparr>q_ring = seq_ring_init e, q_stop_token = False, q_stopped = False\<rparr>"
    using assms by (simp add: init_tsq_def split: if_splits)
  show ?thesis
    using ring_init_inv [of e]
    by (simp add: tsq_inv_def tsq_start_def q tsq_list_def) (simp add: seq_ring_init_def)
qed

lemma size_tsq_list: "size_tsq q = length (tsq_list q)"
  by (simp add: size_tsq_def tsq_list_def)

lemma do_call_ok:
  assumes "tsq_inv e s" and "s_worker s = Chosen c"
  shows "\<exists>res r. do_call c (s_q s) = Some (res, (s_q s)\<lparr>q_ring := r\<rparr>) \<and> ring_inv r \<and>
           tsq_list (s_q s) = got res @ ring_list r \<and> r_elt_size r = e \<and>
           (res = Wait \<longrightarrow> tsq_list (s_q s) = [] \<and> \<not> q_stop_token (s_q s)) \<and>
           (q_stop_token (s_q s) \<longrightarrow> res = Stopped) \<and> (res = Stopped \<longrightarrow> q_stop_token (s_q s))"
proof (cases c)
  case Pop1
  then show ?thesis
    using wait_and_pop_tsq_ok [of "s_q s"] assms(1) by (auto simp: tsq_inv_def)
next
  case Pop10
  then show ?thesis
    using pop_tsq_batch_ok [of "s_q s" 10] assms by (auto simp: tsq_inv_def pop_tsq_10_def)
next
  case Pop100
  then show ?thesis
    using pop_tsq_batch_ok [of "s_q s" 100] assms by (auto simp: tsq_inv_def pop_tsq_100_def)
qed

text \<open>A critical section of the worker keeps the invariant.\<close>

lemma worker_section_inv:
  assumes "tsq_inv e s" and "s_worker s = Chosen c \<or> s_worker s = Woken"
    and "ring_inv r" "tsq_list (s_q s) = got res @ ring_list r" "r_elt_size r = e"
    and "res = Wait \<longrightarrow> tsq_list (s_q s) = [] \<and> \<not> q_stop_token (s_q s)"
    and "res = Stopped \<longrightarrow> q_stop_token (s_q s)"
  shows "tsq_inv e (s\<lparr>s_q := (s_q s)\<lparr>q_ring := r\<rparr>, s_worker := worker_after res,
           s_popped := s_popped s @ got res\<rparr>)"
  using assms unfolding tsq_inv_def
  by (cases res) (auto simp: tsq_list_def ring_list_Nil)

lemma tsq_step_inv:
  assumes "tsq_step s s'" and inv: "tsq_inv e s"
  shows "tsq_inv e s'"
  using assms(1)
proof cases
  case (producer x q)
  then obtain r where "q = (s_q s)\<lparr>q_ring := r\<rparr>" "ring_inv r"
    "ring_list r = tsq_list (s_q s) @ [x]" "r_elt_size r = e"
    using push_tsq_ok [of "s_q s" x] inv by (auto simp: tsq_inv_def)
  then show ?thesis
    using inv producer by (auto simp: tsq_inv_def tsq_list_def cond_signal_def size_tsq_list)
next
  case (call c res q)
  then show ?thesis
    using do_call_ok [OF inv call(2)] worker_section_inv [OF inv] by auto
next
  case (woken res q)
  then show ?thesis
    using wait_and_pop_tsq_ok [of "s_q s"] worker_section_inv [OF inv, of _ _ res] inv
    by (auto simp: tsq_inv_def [of e s])
next
  case (free_tsq xs)
  then show ?thesis
    using inv seq_ring_free_visits by (auto simp: tsq_inv_def tsq_list_def)
qed (use inv in \<open>auto simp: tsq_inv_def tsq_list_def cond_signal_def size_tsq_def db_choose_def
       split: if_splits\<close>)

lemma tsq_reach_inv: "tsq_reach e s \<Longrightarrow> tsq_inv e s"
  by (induction rule: tsq_reach.induct) (auto intro: tsq_init_inv tsq_step_inv)

section \<open>Witness runs\<close>

text \<open>A run in which the worker blocks on the empty queue, is woken by a push and takes the element,
  and one in which the owner stops the blocked worker.\<close>

definition q_demo :: tsq where
  "q_demo = \<lparr>q_ring = seq_ring_init 1, q_stop_token = False, q_stopped = False\<rparr>"

lemma demo_blocked: "tsq_reach 1 ((tsq_start q_demo)\<lparr>s_worker := Blocked\<rparr>)"
proof -
  have "tsq_reach 1 (tsq_start q_demo)"
    by (rule tsq_reach.init) (simp add: init_tsq_def q_demo_def)
  then have r: "tsq_reach 1 ((tsq_start q_demo)\<lparr>s_worker := Chosen Pop1\<rparr>)"
    by (rule tsq_reach.step) (rule tsq_step.choose_one, simp add: tsq_start_def)
  have c: "do_call Pop1 q_demo = Some (Wait, q_demo)"
    by (simp add: wait_and_pop_tsq_def q_demo_def seq_ring_init_def seq_ring_size_def)
  show ?thesis
    using tsq_reach.step [OF r tsq_step.call, of Pop1 Wait q_demo] c
    by (simp add: tsq_start_def)
qed

lemma demo_polling:
  "tsq_reach 1 ((tsq_start (q_demo\<lparr>q_stop_token := True\<rparr>))\<lparr>s_worker := Woken, s_owner := Polling\<rparr>)"
  using tsq_reach.step [OF tsq_reach.step [OF demo_blocked tsq_step.set_stop] tsq_step.signal]
  by (simp add: tsq_start_def cond_signal_def)

section \<open>Properties\<close>

text \<open>C3: In every interleaving of producers, worker and owner the elements that the worker took,
  followed by those still in the queue, are the pushed elements in the order of the pushes; after
  \<^verbatim>\<open>free_tsq\<close> the elements given to the free function are the rest of them. Nothing is lost,
  duplicated or reordered.\<close>

theorem tsq_fifo:
  assumes "tsq_reach e s"
  shows "s_pushed s = s_popped s @ tsq_list (s_q s) \<and>
         (s_owner s = Freed \<longrightarrow> s_pushed s = s_popped s @ s_freed s)"
  using tsq_reach_inv [OF assms] by (auto simp: tsq_inv_def)

theorem tsq_fifo_witness: "s_pushed ((tsq_start q_demo)\<lparr>s_worker := Blocked\<rparr>) = tsq_list q_demo"
  using tsq_fifo [OF demo_blocked] by (simp add: tsq_start_def)

text \<open>C5: No wakeup is lost: a worker that is blocked in \<^verbatim>\<open>pthread_cond_wait\<close> has nothing to take, and
  the owner has not sent the signal that follows the stop token yet. In particular the worker never
  sleeps while elements are queued, nor through a shutdown.\<close>

theorem tsq_no_lost_wakeup:
  assumes "tsq_reach e s" and "s_worker s = Blocked"
  shows "tsq_list (s_q s) = [] \<and> (q_stop_token (s_q s) \<longrightarrow> s_owner s = StopSet)"
  using tsq_reach_inv [OF assms(1)] assms(2) by (auto simp: tsq_inv_def)

theorem tsq_no_lost_wakeup_witness: "tsq_list (s_q ((tsq_start q_demo)\<lparr>s_worker := Blocked\<rparr>)) = []"
  using tsq_no_lost_wakeup [OF demo_blocked] by simp

text \<open>C24: The assertions of the pops never fail: whenever the worker enters a critical section, after
  having chosen a batch by the size it saw (the queue may have grown since) or after a wakeup
  (spurious ones included), the operation returns.\<close>

theorem tsq_worker_defined:
  assumes "tsq_reach e s"
  shows "(s_worker s = Chosen c \<longrightarrow> do_call c (s_q s) \<noteq> None) \<and>
         (s_worker s = Woken \<longrightarrow> wait_and_pop_tsq id 0 (s_q s) \<noteq> None)"
  using tsq_reach_inv [OF assms] do_call_ok [of e s c] wait_and_pop_tsq_ok [of "s_q s"]
  by (auto simp: tsq_inv_def [of e s])

theorem tsq_worker_defined_witness:
  "wait_and_pop_tsq id 0 (q_demo\<lparr>q_stop_token := True\<rparr>) \<noteq> None"
  using tsq_worker_defined [OF demo_polling] by (simp add: tsq_start_def)

text \<open>The steps that are left to the worker once the stop token is set.\<close>

fun worker_rank :: "worker \<Rightarrow> nat" where
  "worker_rank Idle = 3"
| "worker_rank (Chosen c) = 2"
| "worker_rank Blocked = 3"
| "worker_rank Woken = 2"
| "worker_rank Leaving = 1"
| "worker_rank Finished = 0"

lemma worker_rank_0: "worker_rank w = 0 \<longleftrightarrow> w = Finished"
  by (cases w) auto

lemma polling_section:
  assumes "tsq_inv e s" and "s_owner s = Polling"
  shows "s_worker s = Chosen c \<Longrightarrow> \<exists>q. do_call c (s_q s) = Some (Stopped, q)"
    and "\<exists>q. wait_and_pop_tsq id 0 (s_q s) = Some (Stopped, q)"
  using do_call_ok [OF assms(1), of c] assms wait_and_pop_tsq_ok [of "s_q s"]
  by (auto simp: tsq_inv_def)

lemma polling_rank_mono:
  assumes inv: "tsq_inv e s" and pol: "s_owner s = Polling" and step: "tsq_step s s'"
  shows "worker_rank (s_worker s') \<le> worker_rank (s_worker s)"
  using step
proof cases
  case (call c res q)
  then show ?thesis using polling_section(1) [OF inv pol call(2)] by auto
next
  case (woken res q)
  then show ?thesis using polling_section(2) [OF inv pol] by auto
qed (use pol in \<open>auto simp: cond_signal_def\<close>)

lemma polling_progress:
  assumes inv: "tsq_inv e s" and pol: "s_owner s = Polling" and ne: "s_worker s \<noteq> Finished"
  shows "\<exists>s'. tsq_step s s' \<and> s_owner s' = Polling \<and>
           worker_rank (s_worker s') < worker_rank (s_worker s)"
proof (cases "s_worker s")
  case Idle
  then show ?thesis using pol by (intro exI conjI) (erule tsq_step.choose_one, auto)
next
  case (Chosen c)
  from polling_section(1) [OF inv pol this] obtain q where "do_call c (s_q s) = Some (Stopped, q)"
    by auto
  then show ?thesis
    using pol Chosen by (intro exI conjI) (erule (1) tsq_step.call, auto)
next
  case Woken
  from polling_section(2) [OF inv pol] obtain q where
    "wait_and_pop_tsq id 0 (s_q s) = Some (Stopped, q)" by auto
  then show ?thesis
    using pol Woken by (intro exI conjI) (erule (1) tsq_step.woken, auto)
next
  case Leaving
  then show ?thesis using pol by (intro exI conjI) (erule tsq_step.leave, auto)
qed (use inv pol ne in \<open>auto simp: tsq_inv_def\<close>)

lemma polling_freed:
  assumes inv: "tsq_inv e s" and pol: "s_owner s = Polling" and fin: "s_worker s = Finished"
  shows "\<exists>s'. tsq_step s s' \<and> s_owner s' = Freed"
proof -
  have "seq_ring_free (q_ring (s_q s)) = Some (tsq_list (s_q s))" "q_stopped (s_q s)"
    using inv fin seq_ring_free_visits by (auto simp: tsq_inv_def tsq_list_def)
  from tsq_step.free_tsq [OF pol this(2,1)] show ?thesis by (intro exI conjI) auto
qed

text \<open>C26: \<^verbatim>\<open>free_tsq\<close> ends: while the owner polls \<^verbatim>\<open>stopped\<close>, no step of any thread moves the worker
  away from its exit; as long as it has not left, the worker itself has a step that brings it
  closer (there are at most three of them), and when it has left the owner frees the queue.\<close>

theorem tsq_shutdown:
  assumes "tsq_reach e s" and "s_owner s = Polling"
  shows "worker_rank (s_worker s) \<le> 3 \<and>
     (\<forall>s'. tsq_step s s' \<longrightarrow> worker_rank (s_worker s') \<le> worker_rank (s_worker s)) \<and>
     (0 < worker_rank (s_worker s) \<longrightarrow>
        (\<exists>s'. tsq_step s s' \<and> s_owner s' = Polling \<and>
              worker_rank (s_worker s') < worker_rank (s_worker s))) \<and>
     (worker_rank (s_worker s) = 0 \<longrightarrow> (\<exists>s'. tsq_step s s' \<and> s_owner s' = Freed))"
  using polling_rank_mono [OF tsq_reach_inv [OF assms(1)] assms(2)]
    polling_progress [OF tsq_reach_inv [OF assms(1)] assms(2)]
    polling_freed [OF tsq_reach_inv [OF assms(1)] assms(2)] worker_rank_0 [of "s_worker s"]
  by (cases "s_worker s") auto

theorem tsq_shutdown_witness:
  "\<exists>s'. tsq_step ((tsq_start (q_demo\<lparr>q_stop_token := True\<rparr>))\<lparr>s_worker := Woken, s_owner := Polling\<rparr>) s'
     \<and> worker_rank (s_worker s') < 2"
  using tsq_shutdown [OF demo_polling] by (auto simp: numeral_2_eq_2)

end
