(* ===== verification/SeqArr.thy ===== *)
theory SeqArr
  imports Prelude begin

text \<open>
  The growing array of \<^verbatim>\<open>util/alg_ds/ds/seq_container/seq_arr.c\<close>: \<open>size\<close> elements of \<open>elt_size\<close> bytes
  each in a heap block for \<open>cap\<close> of them. An iterator is a byte offset into the block. \<open>arr_rep a xs\<close>
  says that the array \<open>a\<close> is well formed and holds the elements \<open>xs\<close>.
\<close>

section \<open>The model\<close>

record seq_arr =
  a_data :: block
  a_size :: nat
  a_elt_size :: nat
  a_cap :: nat

definition MIN_SIZE :: nat where
  "MIN_SIZE = 8"

text \<open>\<^verbatim>\<open>realloc\<close> keeps the common prefix; the bytes that it adds are not initialised.\<close>

definition c_realloc :: "block \<Rightarrow> nat \<Rightarrow> block" where
  "c_realloc b n = take n b @ replicate (n - length b) None"

definition c_memmove :: "block \<Rightarrow> nat \<Rightarrow> nat \<Rightarrow> nat \<Rightarrow> block option" where
  "c_memmove b dst src n =
     (if dst + n \<le> length b \<and> src + n \<le> length b
      then Some (take dst b @ take n (drop src b) @ drop (dst + n) b) else None)"

definition copy_blocks :: "block \<Rightarrow> block \<Rightarrow> nat \<Rightarrow> block option" where
  "copy_blocks dst src n =
     (if n \<le> length dst \<and> n \<le> length src then Some (take n src @ drop n dst) else None)"

text \<open>
  The conversion of a \<^verbatim>\<open>size_t\<close> to \<^verbatim>\<open>float\<close>: exact up to 24 bits, beyond that the nearest number with
  a 24 bit significand, ties to the even one. A quotient of two floats is below \<open>0.25\<close> exactly
  when four times the dividend is below the divisor: the division cannot round up to \<open>0.25\<close>.
\<close>

definition round_even :: "nat \<Rightarrow> nat \<Rightarrow> nat" where
  "round_even n u =
     (let q = n div u; r = n mod u
      in if 2 * r < u \<or> 2 * r = u \<and> even q then q * u else (q + 1) * u)"

fun float_unit :: "nat \<Rightarrow> nat" where
  "float_unit n = (if n < 2 ^ 24 then 1 else 2 * float_unit (n div 2))"

declare float_unit.simps [simp del]

definition float_of_size :: "nat \<Rightarrow> nat" where
  "float_of_size n = round_even n (float_unit n)"

definition maybe_expand :: "seq_arr \<Rightarrow> seq_arr" where
  "maybe_expand a =
     (if a_size a + 1 = a_cap a
      then a\<lparr>a_data := c_realloc (a_data a) (2 * a_cap a * a_elt_size a), a_cap := a_cap a * 2\<rparr>
      else a)"

definition maybe_shrink :: "seq_arr \<Rightarrow> seq_arr option" where
  "maybe_shrink a =
     (if a_size a > MIN_SIZE \<and> 4 * float_of_size (a_size a) < float_of_size (a_cap a)
      then do {
        c_assert (a_cap a > MIN_SIZE);
        let c = a_cap a div 2;
        let tmp = c_calloc c c;
        c_assert (a_size a \<le> c);
        d \<leftarrow> copy_blocks tmp (a_data a) (a_size a * a_elt_size a);
        Some \<lparr>a_data = d, a_size = a_size a, a_elt_size = a_elt_size a, a_cap = c\<rparr>
      }
      else Some a)"

definition seq_arr_init :: "nat \<Rightarrow> seq_arr" where
  "seq_arr_init elt_size =
     \<lparr>a_data = c_calloc MIN_SIZE elt_size, a_size = 0, a_elt_size = elt_size, a_cap = MIN_SIZE\<rparr>"

definition seq_arr_push_back :: "seq_arr \<Rightarrow> byte list \<Rightarrow> nat \<Rightarrow> seq_arr option" where
  "seq_arr_push_back a data len = do {
     c_assert (len = a_elt_size a);
     let a = maybe_expand a;
     let offset = a_size a * a_elt_size a;
     src \<leftarrow> memcpy_from data 0 (a_elt_size a);
     d \<leftarrow> memcpy_to (a_data a) offset src;
     Some (a\<lparr>a_data := d, a_size := a_size a + 1\<rparr>)
   }"

definition seq_arr_front :: "seq_arr \<Rightarrow> nat" where
  "seq_arr_front a = 0"

definition seq_arr_next :: "seq_arr \<Rightarrow> nat \<Rightarrow> nat" where
  "seq_arr_next a it = it + a_elt_size a"

definition seq_arr_end :: "seq_arr \<Rightarrow> nat" where
  "seq_arr_end a = a_size a * a_elt_size a"

definition seq_arr_at :: "seq_arr \<Rightarrow> u32 \<Rightarrow> nat option" where
  "seq_arr_at a pos = do {
     c_assert (unat pos < a_size a);
     Some (unat pos * a_elt_size a)
   }"

definition seq_arr_dist :: "seq_arr \<Rightarrow> nat \<Rightarrow> nat \<Rightarrow> nat option" where
  "seq_arr_dist a first_it last_it =
     (if last_it < first_it then None else Some ((last_it - first_it) div a_elt_size a))"

text \<open>The two byte counts are \<^verbatim>\<open>int\<close>s, so more than \<open>2 ^ 31 - 1\<close> bytes fail the assertions.\<close>

definition seq_arr_erase :: "seq_arr \<Rightarrow> nat \<Rightarrow> nat \<Rightarrow> seq_arr option" where
  "seq_arr_erase a start_it end_it = do {
     c_assert (end_it \<ge> start_it);
     if start_it = end_it then Some a
     else do {
       let num_bytes_move = sint (word_of_int (int (seq_arr_end a) - int end_it) :: u32);
       c_assert (num_bytes_move > -1);
       d \<leftarrow> c_memmove (a_data a) start_it end_it (nat num_bytes_move);
       let num_bytes_erase = sint (word_of_int (int end_it - int start_it) :: u32);
       c_assert (num_bytes_erase > -1);
       let num_elm_erase = nat num_bytes_erase div a_elt_size a;
       c_assert (num_elm_erase > 0);
       let a = a\<lparr>a_data := d, a_size := a_size a - num_elm_erase\<rparr>;
       d \<leftarrow> memcpy_to (a_data a) (seq_arr_end a) (replicate (nat num_bytes_erase) 0);
       maybe_shrink (a\<lparr>a_data := d\<rparr>)
     }
   }"

text \<open>Reading the element that an iterator points to; an uninitialised byte is no value.\<close>

definition deref :: "seq_arr \<Rightarrow> nat \<Rightarrow> byte list option" where
  "deref a it =
     (if it + a_elt_size a \<le> length (a_data a) \<and> None \<notin> set (take (a_elt_size a) (drop it (a_data a)))
      then Some (map the (take (a_elt_size a) (drop it (a_data a)))) else None)"

text \<open>The loop of \<^verbatim>\<open>seq_arr_free\<close> and of range walks: the elements visited.\<close>

fun arr_walk :: "nat \<Rightarrow> seq_arr \<Rightarrow> nat \<Rightarrow> nat \<Rightarrow> byte list list option" where
  "arr_walk fuel a it end_it =
     (if it = end_it then Some []
      else case fuel of 0 \<Rightarrow> None
        | Suc fuel' \<Rightarrow> do {
            x \<leftarrow> deref a it;
            xs \<leftarrow> arr_walk fuel' a (seq_arr_next a it) end_it;
            Some (x # xs)
          })"

definition seq_arr_free :: "seq_arr \<Rightarrow> byte list list option" where
  "seq_arr_free a = arr_walk (a_size a) a (seq_arr_front a) (seq_arr_end a)"

text \<open>\<^verbatim>\<open>find_if_arr\<close> of \<^verbatim>\<open>alg/find.c\<close>; \<open>f\<close> stands for \<^verbatim>\<open>f(value, .)\<close>.\<close>

fun find_if_arr :: "nat \<Rightarrow> seq_arr \<Rightarrow> (byte list \<Rightarrow> bool) \<Rightarrow> nat \<Rightarrow> nat \<Rightarrow> nat option" where
  "find_if_arr fuel a f it end_it =
     (if it = end_it then Some it
      else case fuel of 0 \<Rightarrow> None
        | Suc fuel' \<Rightarrow> do {
            x \<leftarrow> deref a it;
            if f x then Some it else find_if_arr fuel' a f (seq_arr_next a it) end_it
          })"

declare arr_walk.simps [simp del] find_if_arr.simps [simp del]

section \<open>Representation\<close>

definition pow_cap :: "nat \<Rightarrow> bool" where
  "pow_cap c \<longleftrightarrow> (\<exists>k. c = MIN_SIZE * 2 ^ k)"

lemma pow_cap_double: "pow_cap c \<Longrightarrow> pow_cap (c * 2)"
  unfolding pow_cap_def by (metis mult.assoc mult.commute power_Suc)

lemma pow_cap_MIN: "pow_cap MIN_SIZE"
  by (auto simp: pow_cap_def intro: exI [of _ 0])

lemma pow_cap_ge: "pow_cap c \<Longrightarrow> 8 \<le> c"
  by (auto simp: pow_cap_def MIN_SIZE_def)

lemma pow_cap_half:
  assumes "pow_cap c" and "8 < c"
  shows "pow_cap (c div 2)" and "c div 2 * 2 = c"
proof -
  obtain k where k: "c = MIN_SIZE * 2 ^ k" using assms by (auto simp: pow_cap_def)
  with assms(2) obtain j where "k = Suc j" by (cases k) (auto simp: MIN_SIZE_def)
  with k show "pow_cap (c div 2)" and "c div 2 * 2 = c" by (auto simp: pow_cap_def)
qed

definition arr_rep :: "seq_arr \<Rightarrow> byte list list \<Rightarrow> bool" where
  "arr_rep a xs \<longleftrightarrow>
     a_size a = length xs \<and> (\<forall>x \<in> set xs. length x = a_elt_size a) \<and> 0 < a_elt_size a \<and>
     a_size a < a_cap a \<and> pow_cap (a_cap a) \<and>
     a_cap a * a_elt_size a \<le> length (a_data a) \<and>
     take (a_size a * a_elt_size a) (a_data a) = map Some (concat xs)"

lemma float_of_size_exact: "n < 2 ^ 24 \<Longrightarrow> float_of_size n = n"
  by (simp add: float_of_size_def float_unit.simps round_even_def)

lemma length_concat_elts: "(\<forall>x \<in> set xs. length x = n) \<Longrightarrow> length (concat xs) = length xs * n"
  by (induction xs) auto

lemma take_concat_elts:
  "(\<forall>x \<in> set xs. length x = n) \<Longrightarrow> take (i * n) (concat xs) = concat (take i xs)"
proof (induction xs arbitrary: i)
  case (Cons x xs)
  then show ?case by (cases i) auto
qed simp

lemma drop_concat_elts:
  "(\<forall>x \<in> set xs. length x = n) \<Longrightarrow> drop (i * n) (concat xs) = concat (drop i xs)"
proof (induction xs arbitrary: i)
  case (Cons x xs)
  then show ?case by (cases i) auto
qed simp

lemma arr_repD:
  assumes "arr_rep a xs"
  shows "a_size a = length xs" "\<forall>x \<in> set xs. length x = a_elt_size a" "0 < a_elt_size a"
    "length xs < a_cap a" "a_cap a * a_elt_size a \<le> length (a_data a)"
    "length xs * a_elt_size a \<le> length (a_data a)"
    "take (length xs * a_elt_size a) (a_data a) = map Some (concat xs)" "8 \<le> a_cap a"
    "length (concat xs) = length xs * a_elt_size a" "pow_cap (a_cap a)"
proof -
  have "length xs * a_elt_size a \<le> a_cap a * a_elt_size a"
    using assms by (intro mult_le_mono1) (simp add: arr_rep_def)
  moreover have "a_cap a * a_elt_size a \<le> length (a_data a)"
    using assms by (simp add: arr_rep_def)
  ultimately show "length xs * a_elt_size a \<le> length (a_data a)"
    by (rule order_trans)
  show "length (concat xs) = length xs * a_elt_size a"
    using assms by (intro length_concat_elts) (simp add: arr_rep_def)
qed (use assms in \<open>auto simp: arr_rep_def dest: pow_cap_ge\<close>)

lemma arr_init_rep: "0 < n \<Longrightarrow> arr_rep (seq_arr_init n) []"
  by (simp add: arr_rep_def seq_arr_init_def pow_cap_MIN) (simp add: MIN_SIZE_def)

lemma maybe_expand_rep:
  assumes "arr_rep a xs"
  shows "arr_rep (maybe_expand a) xs" and "Suc (length xs) < a_cap (maybe_expand a)"
    and "a_elt_size (maybe_expand a) = a_elt_size a"
proof -
  note D = arr_repD [OF assms]
  show "arr_rep (maybe_expand a) xs"
  proof (cases "a_size a + 1 = a_cap a")
    case True
    let ?n = "2 * a_cap a * a_elt_size a"
    have "length xs * a_elt_size a \<le> ?n"
      using D(4) by (intro mult_le_mono1) simp
    then show ?thesis
      using True D pow_cap_double [OF D(10)] unfolding arr_rep_def maybe_expand_def
      by (simp add: c_realloc_def min_def ac_simps)
  qed (use assms in \<open>simp add: maybe_expand_def\<close>)
  show "Suc (length xs) < a_cap (maybe_expand a)"
    using D(1,4,8) by (auto simp: maybe_expand_def)
  show "a_elt_size (maybe_expand a) = a_elt_size a"
    by (simp add: maybe_expand_def)
qed

lemma seq_arr_push_back_rep:
  assumes "arr_rep a xs" and x: "length x = a_elt_size a"
  shows "\<exists>a'. seq_arr_push_back a x (a_elt_size a) = Some a' \<and> arr_rep a' (xs @ [x]) \<and>
           a_elt_size a' = a_elt_size a"
proof -
  define b where "b = maybe_expand a"
  have rep: "arr_rep b xs" and cap: "Suc (length xs) < a_cap b" and el: "a_elt_size b = a_elt_size a"
    using maybe_expand_rep [OF assms(1)] by (simp_all add: b_def)
  note D = arr_repD [OF rep]
  let ?off = "length xs * a_elt_size b"
  have fits: "?off + length x \<le> length (a_data b)"
  proof -
    have "Suc (length xs) * a_elt_size b \<le> a_cap b * a_elt_size b"
      using cap by (intro mult_le_mono1) simp
    then show ?thesis using D(5) x el by simp
  qed
  let ?a = "b\<lparr>a_data := written (a_data b) ?off x, a_size := Suc (length xs)\<rparr>"
  have "seq_arr_push_back a x (a_elt_size a) = Some ?a"
    using fits D(1) x el by (simp add: seq_arr_push_back_def memcpy_from_def flip: b_def)
  moreover have "arr_rep ?a (xs @ [x])"
    using cap fits D x el unfolding arr_rep_def
    by (auto simp: written_def min_def add.commute)
  ultimately show ?thesis using el by auto
qed

section \<open>Shrinking and erasing\<close>

lemma pow_cap_64:
  assumes "pow_cap c" and "36 < c"
  shows "64 \<le> c"
proof -
  obtain k where k: "c = 8 * 2 ^ k" using assms by (auto simp: pow_cap_def MIN_SIZE_def)
  have "3 \<le> k"
  proof (rule ccontr)
    assume "\<not> 3 \<le> k"
    then have "(2::nat) ^ k \<le> 2 ^ 2" by (intro power_increasing) auto
    then show False using k assms(2) by simp
  qed
  then have "(2::nat) ^ 3 \<le> 2 ^ k" by (intro power_increasing) auto
  then show ?thesis using k by simp
qed

text \<open>
  The shrunk block has \<open>(cap / 2) * (cap / 2)\<close> bytes and not \<open>(cap / 2) * elt_size\<close>. Shrinking
  starts at a capacity of 64, so elements of at most 32 bytes fit.
\<close>

lemma maybe_shrink_rep:
  assumes rep: "arr_rep a xs" and el: "a_elt_size a \<le> 32" and cap: "a_cap a < 2 ^ 24"
  shows "\<exists>a'. maybe_shrink a = Some a' \<and> arr_rep a' xs \<and> a_elt_size a' = a_elt_size a"
proof -
  note D = arr_repD [OF rep]
  have fl: "float_of_size (a_size a) = length xs" "float_of_size (a_cap a) = a_cap a"
    using D(1,4) cap by (simp_all add: float_of_size_exact)
  show ?thesis
  proof (cases "MIN_SIZE < a_size a \<and> 4 * length xs < a_cap a")
    case False
    then show ?thesis using rep fl by (auto simp: maybe_shrink_def)
  next
    case True
    define c where "c = a_cap a div 2"
    have len: "8 < length xs" "4 * length xs < a_cap a"
      using True D(1) by (auto simp: MIN_SIZE_def)
    then have "64 \<le> a_cap a" using pow_cap_64 [OF D(10)] by simp
    then have c: "32 \<le> c" "length xs < c" "pow_cap c"
      using len pow_cap_half [OF D(10)] by (auto simp: c_def)
    let ?n = "length xs * a_elt_size a"
    have fits: "?n \<le> c * c" "c * a_elt_size a \<le> c * c"
      using c el by (auto intro: mult_le_mono)
    let ?d = "take ?n (a_data a) @ drop ?n (c_calloc c c)"
    let ?a = "\<lparr>a_data = ?d, a_size = length xs, a_elt_size = a_elt_size a, a_cap = c\<rparr>"
    have "maybe_shrink a = Some ?a"
      using True D(1,6) fl len c fits by (simp add: maybe_shrink_def copy_blocks_def MIN_SIZE_def flip: c_def)
    moreover have "arr_rep ?a xs"
      using D c fits unfolding arr_rep_def by (simp add: min_def)
    ultimately show ?thesis by auto
  qed
qed

lemma take_memmove:
  assumes "s \<le> t" and "t + n \<le> length b"
  shows "take (s + n) (take s b @ take n (drop t b) @ rest) =
           take s (take (t + n) b) @ drop t (take (t + n) b)"
proof -
  have "length (take s b) = s" "length (take n (drop t b)) = n" using assms by auto
  then show ?thesis using assms by (simp add: min_def drop_take del: length_take)
qed

lemma seq_arr_erase_rep:
  assumes rep: "arr_rep a xs" and el: "a_elt_size a \<le> 32" and cap: "a_cap a < 2 ^ 24"
    and ij: "i \<le> j" "j \<le> length xs"
  shows "\<exists>a'. seq_arr_erase a (i * a_elt_size a) (j * a_elt_size a) = Some a' \<and>
           arr_rep a' (take i xs @ drop j xs) \<and> a_elt_size a' = a_elt_size a"
proof (cases "i = j")
  case True
  then show ?thesis using rep by (simp add: seq_arr_erase_def)
next
  case False
  note D = arr_repD [OF rep]
  define e where "e = a_elt_size a"
  define n where "n = (length xs - j) * e"
  define m where "m = (j - i) * e"
  have lt: "i < j" using ij False by simp
  have e: "0 < e" "e \<le> 32" using D(3) el by (simp_all add: e_def)
  have "length xs * e < 2 ^ 24 * 32"
    using D(4) cap e by (intro mult_less_le_imp_less) auto
  then have b31: "length xs * e < 2 ^ 31" by simp
  have sum: "j * e + n = length xs * e" "i * e + m = j * e"
    using ij by (simp_all add: n_def m_def flip: distrib_right)
  have sint: "sint (word_of_int (int k) :: u32) = int k" if "k \<le> length xs * e" for k
    using that b31 sint_of_nat_small [of k] by simp
  have "int (length xs * e) - int (j * e) = int n" "int (j * e) - int (i * e) = int m"
    using sum by linarith+
  then have s1: "sint (word_of_int (int (length xs * e) - int (j * e)) :: u32) = int n"
    and s2: "sint (word_of_int (int (j * e) - int (i * e)) :: u32) = int m"
    using sint [of n] sint [of m] sum by (simp_all only: trans_le_add1 trans_le_add2 le_add1 le_add2)
  have dv: "m div e = j - i" using e by (simp add: m_def)
  have ne: "i * e \<noteq> j * e" "i * e \<le> j * e" using lt e by auto
  define d1 where "d1 = take (i * e) (a_data a) @ take n (drop (j * e) (a_data a)) @
                        drop (i * e + n) (a_data a)"
  define k where "k = length xs - (j - i)"
  have k: "k * e = i * e + n"
    using ij by (simp add: k_def n_def algebra_simps flip: distrib_right)
  have ld: "length xs * e \<le> length (a_data a)" using D(6) by (simp add: e_def)
  have ld1: "length d1 = length (a_data a)" using sum ld by (simp add: d1_def)
  define d2 where "d2 = written d1 (k * e) (replicate m 0)"
  have fit: "k * e + m \<le> length d1" using sum ld ld1 k by simp
  let ?b = "a\<lparr>a_size := k, a_data := d2\<rparr>"
  have step: "seq_arr_erase a (i * e) (j * e) = maybe_shrink ?b"
    using ne sum ld s1 s2 dv lt fit D(1)
    unfolding seq_arr_erase_def seq_arr_end_def Let_def
    by (simp add: c_memmove_def d2_def k_def flip: e_def d1_def)
  have "take (k * e) d2 = take (k * e) d1" using fit by (simp add: d2_def written_def)
  also have "\<dots> = take (i * e) (take (length xs * e) (a_data a)) @
                  drop (j * e) (take (length xs * e) (a_data a))"
    unfolding d1_def k sum(1) [symmetric] by (rule take_memmove) (use ne(2) sum(1) ld in simp_all)
  also have "\<dots> = map Some (concat (take i xs @ drop j xs))"
    using D(2,7) by (simp add: take_map drop_map take_concat_elts drop_concat_elts flip: e_def)
  finally have tk: "take (k * e) d2 = map Some (concat (take i xs @ drop j xs))" .
  have "arr_rep ?b (take i xs @ drop j xs)"
    using D ij tk fit ld1 e unfolding arr_rep_def
    by (auto simp: k_def d2_def min_def dest: in_set_takeD in_set_dropD simp flip: e_def)
  from maybe_shrink_rep [OF this] show ?thesis
    using step el cap by (simp add: e_def)
qed

section \<open>Iterating\<close>

lemma deref_rep:
  assumes rep: "arr_rep a xs" and i: "i < length xs"
  shows "deref a (i * a_elt_size a) = Some (xs ! i)"
proof -
  note D = arr_repD [OF rep]
  define e where "e = a_elt_size a"
  have "Suc i * e \<le> length xs * e" using i by (intro mult_le_mono1) simp
  then have le: "i * e + e \<le> length xs * e" by simp
  have "take e (drop (i * e) (a_data a)) = take e (drop (i * e) (take (length xs * e) (a_data a)))"
    using le by (simp add: drop_take min_def)
  also have "\<dots> = map Some (take (1 * e) (concat (drop i xs)))"
    using D(2,7) by (simp add: take_map drop_map drop_concat_elts flip: e_def)
  also have "take (1 * e) (concat (drop i xs)) = concat (take 1 (drop i xs))"
    using D(2) by (intro take_concat_elts) (auto simp: e_def dest: in_set_dropD)
  also have "take 1 (drop i xs) = [xs ! i]" using i by (simp add: take_Suc_conv_app_nth hd_drop_conv_nth)
  finally have "take e (drop (i * e) (a_data a)) = map Some (xs ! i)" by simp
  then show ?thesis using le D(6) by (auto simp: deref_def simp flip: e_def)
qed

lemma arr_walk_rep:
  assumes rep: "arr_rep a xs"
  shows "i \<le> length xs \<Longrightarrow> length xs - i \<le> fuel \<Longrightarrow>
    arr_walk fuel a (i * a_elt_size a) (seq_arr_end a) = Some (drop i xs)"
proof (induction fuel arbitrary: i)
  case 0
  then show ?case using arr_repD(1) [OF rep] by (simp add: arr_walk.simps seq_arr_end_def)
next
  case (Suc fuel)
  note D = arr_repD [OF rep]
  show ?case
  proof (cases "i = length xs")
    case True
    then show ?thesis using D(1) by (simp add: arr_walk.simps seq_arr_end_def)
  next
    case False
    then have i: "i < length xs" using Suc.prems by simp
    then have "i * a_elt_size a \<noteq> seq_arr_end a" using D(1,3) by (simp add: seq_arr_end_def)
    moreover have "arr_walk fuel a (Suc i * a_elt_size a) (seq_arr_end a) = Some (drop (Suc i) xs)"
      using Suc.prems i by (intro Suc.IH) auto
    ultimately show ?thesis
      using deref_rep [OF rep i] i
      by (simp add: arr_walk.simps [of "Suc fuel"] seq_arr_next_def add.commute Cons_nth_drop_Suc)
  qed
qed

lemma seq_arr_free_rep: "arr_rep a xs \<Longrightarrow> seq_arr_free a = Some xs"
  using arr_walk_rep [of a xs 0 "a_size a"] arr_repD(1)
  by (simp add: seq_arr_free_def seq_arr_front_def)

lemma find_if_arr_rep:
  assumes rep: "arr_rep a xs"
  shows "i \<le> length xs \<Longrightarrow> length xs - i \<le> fuel \<Longrightarrow>
    find_if_arr fuel a f (i * a_elt_size a) (seq_arr_end a) =
      Some ((i + length (takeWhile (\<lambda>x. \<not> f x) (drop i xs))) * a_elt_size a)"
proof (induction fuel arbitrary: i)
  case 0
  then show ?case using arr_repD(1) [OF rep] by (simp add: find_if_arr.simps seq_arr_end_def)
next
  case (Suc fuel)
  note D = arr_repD [OF rep]
  show ?case
  proof (cases "i = length xs")
    case True
    then show ?thesis using D(1) by (simp add: find_if_arr.simps seq_arr_end_def)
  next
    case False
    then have i: "i < length xs" using Suc.prems by simp
    then have ne: "i * a_elt_size a \<noteq> seq_arr_end a" using D(1,3) by (simp add: seq_arr_end_def)
    have dr: "drop i xs = xs ! i # drop (Suc i) xs" using i by (simp add: Cons_nth_drop_Suc)
    have "find_if_arr fuel a f (Suc i * a_elt_size a) (seq_arr_end a) =
        Some ((Suc i + length (takeWhile (\<lambda>x. \<not> f x) (drop (Suc i) xs))) * a_elt_size a)"
      using Suc.prems i by (intro Suc.IH) auto
    then show ?thesis
      using deref_rep [OF rep i] ne dr
      by (simp add: find_if_arr.simps [of "Suc fuel"] seq_arr_next_def add.commute add.left_commute)
  qed
qed

section \<open>Properties\<close>

text \<open>Appending to an array that holds \<open>xs\<close>, with the reallocation that doubles the capacity when
  only one free slot is left, stays inside of the block and gives an array that holds \<open>xs @ [x]\<close>.\<close>

theorem seq_arr_push_back_refines:
  assumes "arr_rep a xs" and "length x = a_elt_size a"
  shows "\<exists>a'. seq_arr_push_back a x (a_elt_size a) = Some a' \<and> arr_rep a' (xs @ [x])"
  using seq_arr_push_back_rep [OF assms] by blast

theorem seq_arr_push_back_refines_witness:
  "\<exists>a'. seq_arr_push_back (seq_arr_init 2) [5, 6] 2 = Some a' \<and> arr_rep a' [[5, 6]]"
  using seq_arr_push_back_refines [OF arr_init_rep, of 2 "[5, 6]"] by (simp add: seq_arr_init_def)

text \<open>Erasing the elements \<open>i\<close> to \<open>j - 1\<close> meets the assertions on the byte counts, moves the tail
  down, keeps every other element in order and leaves a well-formed array, shrunk or not. The
  elements have at most 32 bytes and the capacity is below \<open>2 ^ 24\<close>.\<close>

theorem seq_arr_erase_refines:
  assumes "arr_rep a xs" and "a_elt_size a \<le> 32" and "a_cap a < 2 ^ 24"
    and "i \<le> j" and "j \<le> length xs"
  shows "\<exists>a'. seq_arr_erase a (i * a_elt_size a) (j * a_elt_size a) = Some a' \<and>
           arr_rep a' (take i xs @ drop j xs)"
  using seq_arr_erase_rep [OF assms] by blast

theorem seq_arr_erase_refines_witness:
  "\<exists>a'. seq_arr_erase (seq_arr_init 2) 0 0 = Some a' \<and> arr_rep a' []"
  using seq_arr_erase_refines [OF arr_init_rep, of 2 0 0] by (simp add: seq_arr_init_def MIN_SIZE_def)

text \<open>\<^verbatim>\<open>maybe_shrink\<close> allocates \<open>cap / 2\<close> times \<open>cap / 2\<close> bytes instead of \<open>cap / 2\<close> times
  \<open>elt_size\<close>: when 64 slots are shrunk and the elements left need more than 1024 bytes, the copy
  writes past the end of the new block, although the array was well formed.\<close>

theorem maybe_shrink_overflow:
  assumes "arr_rep a xs" and "a_cap a = 64" and "8 < length xs" and "length xs < 16"
    and "1024 < length xs * a_elt_size a"
  shows "maybe_shrink a = None"
  using arr_repD [OF assms(1)] assms(2-)
  by (simp add: maybe_shrink_def MIN_SIZE_def float_of_size_exact copy_blocks_def)

theorem maybe_shrink_overflow_witness:
  "maybe_shrink \<lparr>a_data = c_calloc 64 128, a_size = 9, a_elt_size = 128, a_cap = 64\<rparr> = None"
proof (rule maybe_shrink_overflow)
  have "take (9 * 128) (replicate (64 * 128) (Some (0::byte))) =
        map Some (concat (replicate 9 (replicate 128 0)))"
    by (simp add: concat_replicate_replicate)
  then show "arr_rep \<lparr>a_data = c_calloc 64 128, a_size = 9, a_elt_size = 128, a_cap = 64\<rparr>
      (replicate 9 (replicate 128 0))"
    using pow_cap_double [OF pow_cap_double [OF pow_cap_double [OF pow_cap_MIN]]]
    by (simp add: arr_rep_def c_calloc_def MIN_SIZE_def)
qed simp_all

end
