(* ===== verification/Registry.thy ===== *)
theory Registry
  imports Prelude
begin

text \<open>
  The contract of a registry: values are stored under handles that a counter gives out. It is what
  the clients of \<^verbatim>\<open>assoc_reg_t\<close> rely on (\<^verbatim>\<open>act_proc.c\<close>); the provider is the sorted bucket array.
  \<open>reg_run\<close> executes a schedule of insertions and deletions, a deletion of an unknown handle
  being skipped.
\<close>

datatype 'v reg_op = Ins 'v | Del u32

fun reg_run ::
  "('r \<Rightarrow> (u32 \<times> 'v) list) \<Rightarrow> ('r \<Rightarrow> 'v \<Rightarrow> (u32 \<times> 'r) option) \<Rightarrow> ('r \<Rightarrow> u32 \<Rightarrow> ('v \<times> 'r) option) \<Rightarrow>
   'r \<Rightarrow> 'v reg_op list \<Rightarrow> (u32 list \<times> 'r) option" where
  "reg_run entries ins del r [] = Some ([], r)"
| "reg_run entries ins del r (Ins v # ops) = do {
     (k, r) \<leftarrow> ins r v;
     (ks, r) \<leftarrow> reg_run entries ins del r ops;
     Some (k # ks, r)
   }"
| "reg_run entries ins del r (Del k # ops) =
     (if map_of (entries r) k = None then reg_run entries ins del r ops
      else do {
        (v, r) \<leftarrow> del r k;
        reg_run entries ins del r ops
      })"

fun inserted :: "'v reg_op list \<Rightarrow> 'v list" where
  "inserted [] = []"
| "inserted (Ins v # ops) = v # inserted ops"
| "inserted (Del k # ops) = inserted ops"

locale registry =
  fixes inv :: "'r \<Rightarrow> bool"
    and entries :: "'r \<Rightarrow> (u32 \<times> 'v) list"
    and counter :: "'r \<Rightarrow> nat"
    and limit :: nat
    and ins :: "'r \<Rightarrow> 'v \<Rightarrow> (u32 \<times> 'r) option"
    and lookup :: "'r \<Rightarrow> u32 \<Rightarrow> 'v option option"
    and upd :: "'r \<Rightarrow> u32 \<Rightarrow> 'v \<Rightarrow> 'r option"
    and del :: "'r \<Rightarrow> u32 \<Rightarrow> ('v \<times> 'r) option"
  assumes insert_law: "inv r \<Longrightarrow> counter r < limit \<Longrightarrow>
      \<exists>k r'. ins r v = Some (k, r') \<and> inv r' \<and> unat k = counter r \<and>
             entries r' = entries r @ [(k, v)] \<and> counter r' = Suc (counter r)"
    and fresh_law: "inv r \<Longrightarrow> (k, v) \<in> set (entries r) \<Longrightarrow> 0 < k \<and> unat k < counter r"
    and distinct_law: "inv r \<Longrightarrow> distinct (map fst (entries r))"
    and lookup_law: "inv r \<Longrightarrow> 0 < k \<Longrightarrow> lookup r k = Some (map_of (entries r) k)"
    and update_law: "inv r \<Longrightarrow> map_of (entries r) k = Some v \<Longrightarrow>
      \<exists>r'. upd r k w = Some r' \<and> inv r' \<and>
           entries r' = map (\<lambda>e. if fst e = k then (k, w) else e) (entries r) \<and>
           counter r' = counter r"
    and delete_law: "inv r \<Longrightarrow> map_of (entries r) k = Some v \<Longrightarrow>
      \<exists>r'. del r k = Some (v, r') \<and> inv r' \<and>
           entries r' = filter (\<lambda>e. fst e \<noteq> k) (entries r) \<and> counter r' = counter r"
begin

lemma counter_pos: "inv r \<Longrightarrow> (k, v) \<in> set (entries r) \<Longrightarrow> 0 < counter r"
  using fresh_law [of r k v] by simp

text \<open>A new handle finds its value and changes no other lookup.\<close>

lemma insert_lookup:
  assumes "inv r" and "counter r < limit" and "0 < counter r"
  shows "\<exists>k r'. ins r v = Some (k, r') \<and> inv r' \<and> unat k = counter r \<and> counter r' = Suc (counter r) \<and>
           lookup r' k = Some (Some v) \<and>
           (\<forall>l. 0 < l \<longrightarrow> l \<noteq> k \<longrightarrow> lookup r' l = lookup r l)"
proof -
  obtain k r' where i: "ins r v = Some (k, r')" "inv r'" "unat k = counter r"
    "entries r' = entries r @ [(k, v)]" "counter r' = Suc (counter r)"
    using insert_law [OF assms(1,2)] by blast
  have "map_of (entries r) k = None"
    using fresh_law [OF assms(1)] i(3) by (fastforce simp: map_of_eq_None_iff)
  moreover have "0 < k" using i(3) assms(3) by (simp add: word_gt_0 unat_eq_0 [symmetric])
  ultimately show ?thesis
    using i assms(1) by (auto simp: lookup_law map_add_def split: option.split)
qed

lemma delete_lookup:
  assumes "inv r" and "map_of (entries r) k = Some v" and "0 < k"
  shows "\<exists>r'. del r k = Some (v, r') \<and> inv r' \<and> counter r' = counter r \<and>
           lookup r' k = Some None \<and> (\<forall>l. 0 < l \<longrightarrow> l \<noteq> k \<longrightarrow> lookup r' l = lookup r l)"
proof -
  obtain r' where d: "del r k = Some (v, r')" "inv r'"
    "entries r' = filter (\<lambda>e. fst e \<noteq> k) (entries r)" "counter r' = counter r"
    using delete_law [OF assms(1,2)] by blast
  have "map_of (filter (\<lambda>e. fst e \<noteq> k) xs) l = (if l = k then None else map_of xs l)"
    for xs :: "(u32 \<times> 'v) list" and l
    by (induction xs) auto
  with d assms show ?thesis by (auto simp: lookup_law)
qed

text \<open>No schedule fails, and the handles that it gets are consecutive: none is given out twice.\<close>

lemma run_handles:
  assumes "inv r" and "counter r + length (inserted ops) \<le> limit"
  shows "\<exists>ks r'. reg_run entries ins del r ops = Some (ks, r') \<and> inv r' \<and>
           map unat ks = [counter r..<counter r + length (inserted ops)] \<and>
           counter r' = counter r + length (inserted ops)"
  using assms
proof (induction ops arbitrary: r rule: inserted.induct)
  case 1
  then show ?case by simp
next
  case (2 v ops)
  then obtain k r' where i: "ins r v = Some (k, r')" "inv r'" "unat k = counter r"
    "counter r' = Suc (counter r)"
    using insert_law [of r v] by auto
  with 2 obtain ks q where "reg_run entries ins del r' ops = Some (ks, q)" "inv q"
    "map unat ks = [counter r'..<counter r' + length (inserted ops)]"
    "counter q = counter r' + length (inserted ops)"
    using "2.IH" [of r'] by auto
  then show ?case using i by (simp add: upt_rec [of "counter r"] Suc_le_eq)
next
  case (3 k ops)
  show ?case
  proof (cases "map_of (entries r) k")
    case None
    then show ?thesis using "3.IH" [of r] 3(2,3) by simp
  next
    case (Some v)
    then obtain r' where "del r k = Some (v, r')" "inv r'" "counter r' = counter r"
      using delete_law [OF 3(2)] by blast
    then show ?thesis using "3.IH" [of r'] 3(3) Some by auto
  qed
qed

end

end
