(* ===== verification/AssocReg.thy ===== *)
theory AssocReg
  imports SeqArr Registry begin

text \<open>
  The registry of \<^verbatim>\<open>util/alg_ds/ds/assoc_container/assoc_reg.c\<close>, with \<^verbatim>\<open>lower_bound_reg\<close>,
  \<^verbatim>\<open>find_reg\<close> and \<^verbatim>\<open>for_each_reg\<close> of \<^verbatim>\<open>util/alg_ds/alg\<close>: an array of buckets in the order of their
  keys, which are given out by a counter. Erasing clears a bucket's flag; dead buckets are removed
  when the array is compacted, shrunk or expanded. An iterator is the index of a bucket.
  \<open>reg_list\<close> is the abstraction: the live buckets as pairs of key and value.
\<close>

section \<open>The model\<close>

text \<open>The value bytes are opaque; \<open>None\<close> stands for the zero bytes of \<^verbatim>\<open>calloc\<close> and \<^verbatim>\<open>memset\<close>.\<close>

record 'v bucket =
  b_key :: u32
  b_has :: bool
  b_val :: "'v option"

record 'v assoc_reg =
  g_arr :: "'v bucket list"
  g_sz :: nat
  g_cap :: nat
  g_occ :: nat
  g_elm_sz :: nat
  g_key_id :: u64

definition REG_MIN_SIZE :: nat where
  "REG_MIN_SIZE = 16"

definition zero_bucket :: "'v bucket" where
  "zero_bucket = \<lparr>b_key = 0, b_has = False, b_val = None\<rparr>"

definition calloc_buckets :: "nat \<Rightarrow> 'v bucket list" where
  "calloc_buckets n = replicate n zero_bucket"

definition zero_buckets :: "'v bucket list \<Rightarrow> nat \<Rightarrow> nat \<Rightarrow> 'v bucket list option" where
  "zero_buckets a off n =
     (if off + n \<le> length a then Some (take off a @ calloc_buckets n @ drop (off + n) a) else None)"

definition iterator_in_ds :: "'v assoc_reg \<Rightarrow> nat \<Rightarrow> bool" where
  "iterator_in_ds r it \<longleftrightarrow> it < g_occ r"

text \<open>Writing an element of an array behind a pointer.\<close>

definition arr_put :: "'a list \<Rightarrow> nat \<Rightarrow> 'a \<Rightarrow> 'a list option" where
  "arr_put xs i x = (if i < length xs then Some (xs[i := x]) else None)"

definition copy_if ::
  "'v bucket list \<Rightarrow> nat \<Rightarrow> 'v bucket list \<Rightarrow> ('v bucket \<Rightarrow> bool) \<Rightarrow> (nat \<times> 'v bucket list) option" where
  "copy_if src n_memb out fp =
     for_loop (\<lambda>i (i_out, out). do {
         b \<leftarrow> arr_at src i;
         if fp b then do {
           out \<leftarrow> arr_put out i_out b;
           Some (i_out + 1, out)
         } else Some (i_out, out)
       }) [0..<n_memb] (0, out)"

definition reg_partition ::
  "'v bucket list \<Rightarrow> nat \<Rightarrow> ('v bucket \<Rightarrow> bool) \<Rightarrow> (nat \<times> 'v bucket list) option" where
  "reg_partition arr n_memb fp =
     for_loop (\<lambda>i (j, arr). do {
         b \<leftarrow> arr_at arr i;
         if fp b then do {
           arr \<leftarrow> arr_put arr j b;
           Some (j + 1, arr)
         } else Some (j, arr)
       }) [0..<n_memb] (0, arr)"

definition shrink_if_necessary :: "'v assoc_reg \<Rightarrow> 'v assoc_reg option" where
  "shrink_if_necessary r =
     (if g_cap r = REG_MIN_SIZE \<or> g_sz r * 4 > g_cap r then Some r
      else do {
        (idx, arr) \<leftarrow> reg_partition (g_arr r) (g_occ r) b_has;
        c_assert (idx \<le> g_occ r);
        arr \<leftarrow> zero_buckets arr idx (g_cap r - idx);
        let tmp = calloc_buckets (g_cap r div 2);
        c_assert (idx \<le> length tmp \<and> idx \<le> length arr);
        let tmp = take idx arr @ drop idx tmp;
        Some (r\<lparr>g_arr := tmp, g_occ := idx, g_cap := g_cap r div 2\<rparr>)
      })"

definition compact_if_necessary :: "'v assoc_reg \<Rightarrow> 'v assoc_reg option" where
  "compact_if_necessary r =
     (if g_sz r * 2 > g_occ r then Some r
      else do {
        (idx, arr) \<leftarrow> reg_partition (g_arr r) (g_occ r) b_has;
        c_assert (idx \<le> g_occ r);
        arr \<leftarrow> zero_buckets arr idx (g_cap r - idx);
        Some (r\<lparr>g_arr := arr, g_occ := idx\<rparr>)
      })"

definition expand_if_neccesary :: "'v assoc_reg \<Rightarrow> 'v assoc_reg option" where
  "expand_if_neccesary r =
     (if g_occ r < g_cap r - 1 then Some r
      else do {
        (out_idx, tmp_arr) \<leftarrow> copy_if (g_arr r) (g_occ r) (calloc_buckets (g_cap r * 2)) b_has;
        Some (r\<lparr>g_arr := tmp_arr, g_occ := out_idx, g_cap := g_cap r * 2\<rparr>)
      })"

definition assoc_reg_init :: "nat \<Rightarrow> 'v assoc_reg" where
  "assoc_reg_init elm_sz =
     \<lparr>g_arr = calloc_buckets REG_MIN_SIZE, g_sz = 0, g_cap = REG_MIN_SIZE, g_occ = 0,
      g_elm_sz = elm_sz, g_key_id = 1\<rparr>"

text \<open>The key is the counter truncated to 32 bits; the counter itself must not reach \<^verbatim>\<open>SIZE_MAX\<close>.\<close>

definition assoc_reg_push_back :: "'v assoc_reg \<Rightarrow> 'v \<Rightarrow> nat \<Rightarrow> (u32 \<times> 'v assoc_reg) option" where
  "assoc_reg_push_back r value elm_sz = do {
     c_assert (elm_sz = g_elm_sz r);
     r \<leftarrow> expand_if_neccesary r;
     let key = ucast (g_key_id r);
     arr \<leftarrow> arr_put (g_arr r) (g_occ r) \<lparr>b_key = key, b_has = True, b_val = Some value\<rparr>;
     c_assert (g_key_id r \<noteq> - 1);
     Some (key, r\<lparr>g_arr := arr, g_key_id := g_key_id r + 1, g_occ := g_occ r + 1,
                  g_sz := g_sz r + 1\<rparr>)
   }"

definition assoc_reg_key :: "'v assoc_reg \<Rightarrow> nat \<Rightarrow> u32 option" where
  "assoc_reg_key r it = do {
     c_assert (iterator_in_ds r it);
     b \<leftarrow> arr_at (g_arr r) it;
     c_assert (b_has b);
     Some (b_key b)
   }"

definition assoc_reg_value :: "'v assoc_reg \<Rightarrow> nat \<Rightarrow> 'v option" where
  "assoc_reg_value r it = do {
     c_assert (iterator_in_ds r it);
     b \<leftarrow> arr_at (g_arr r) it;
     c_assert (b_has b);
     b_val b
   }"

definition assoc_reg_end :: "'v assoc_reg \<Rightarrow> nat" where
  "assoc_reg_end r = g_occ r"

definition assoc_reg_size :: "'v assoc_reg \<Rightarrow> nat" where
  "assoc_reg_size r = g_sz r"

text \<open>The scan for a live bucket, up to a limit.\<close>

fun skip_dead :: "'v bucket list \<Rightarrow> nat \<Rightarrow> nat \<Rightarrow> nat option" where
  "skip_dead arr 0 it = Some it"
| "skip_dead arr (Suc n) it = do {
     b \<leftarrow> arr_at arr it;
     if b_has b then Some it else skip_dead arr n (it + 1)
   }"

definition assoc_reg_front :: "'v assoc_reg \<Rightarrow> nat option" where
  "assoc_reg_front r = (if g_occ r = 0 then Some 0 else skip_dead (g_arr r) (g_occ r) 0)"

definition assoc_reg_next :: "'v assoc_reg \<Rightarrow> nat \<Rightarrow> nat option" where
  "assoc_reg_next r it = do {
     b \<leftarrow> arr_at (g_arr r) it;
     c_assert (b_has b);
     c_assert (iterator_in_ds r it);
     skip_dead (g_arr r) (assoc_reg_end r - (it + 1)) (it + 1)
   }"

text \<open>The loop of \<^verbatim>\<open>assoc_reg_erase\<close>; the second component are the values given to \<^verbatim>\<open>free_func\<close>.\<close>

fun erase_loop :: "nat \<Rightarrow> 'v assoc_reg \<Rightarrow> nat \<Rightarrow> nat \<Rightarrow> ('v assoc_reg \<times> 'v list) option" where
  "erase_loop fuel r it end_it =
     (if it = end_it then Some (r, [])
      else case fuel of 0 \<Rightarrow> None
        | Suc fuel' \<Rightarrow> do {
            b \<leftarrow> arr_at (g_arr r) it;
            nxt \<leftarrow> assoc_reg_next r it;
            v \<leftarrow> b_val b;
            (r', vs) \<leftarrow> erase_loop fuel'
              (r\<lparr>g_arr := (g_arr r)[it := b\<lparr>b_has := False\<rparr>], g_sz := g_sz r - 1\<rparr>) nxt end_it;
            Some (r', v # vs)
          })"

declare erase_loop.simps [simp del]

definition assoc_reg_erase :: "'v assoc_reg \<Rightarrow> nat \<Rightarrow> nat \<Rightarrow> ('v assoc_reg \<times> 'v list) option" where
  "assoc_reg_erase r start_it end_it =
     (if start_it = end_it then Some (r, [])
      else do {
        c_assert (iterator_in_ds r start_it);
        (r, vs) \<leftarrow> erase_loop (g_occ r) r start_it end_it;
        r \<leftarrow> compact_if_necessary r;
        r \<leftarrow> shrink_if_necessary r;
        Some (r, vs)
      })"

text \<open>\<^verbatim>\<open>remove_if_range_reg\<close> collects the keys of the removed buckets in a \<^verbatim>\<open>seq_arr_t\<close>.\<close>

definition remove_if_range_reg ::
  "'v assoc_reg \<Rightarrow> ('v \<Rightarrow> bool) \<Rightarrow> (seq_arr \<times> 'v assoc_reg) option" where
  "remove_if_range_reg r f = do {
     (arr, r) \<leftarrow> for_loop (\<lambda>i (arr, r). do {
         b \<leftarrow> arr_at (g_arr r) i;
         if b_has b then do {
           v \<leftarrow> b_val b;
           if f v then do {
             arr \<leftarrow> seq_arr_push_back arr (le_bytes 4 (b_key b)) 4;
             Some (arr, r\<lparr>g_sz := g_sz r - 1, g_arr := (g_arr r)[i := b\<lparr>b_has := False\<rparr>]\<rparr>)
           } else Some (arr, r)
         } else Some (arr, r)
       }) [0..<g_occ r] (seq_arr_init 4, r);
     r \<leftarrow> compact_if_necessary r;
     r \<leftarrow> shrink_if_necessary r;
     Some (arr, r)
   }"

text \<open>The bisection of \<^verbatim>\<open>lower_bound_reg\<close>; its length is an \<^verbatim>\<open>int\<close>.\<close>

function lower_bound_loop :: "'v bucket list \<Rightarrow> nat \<Rightarrow> u32 \<Rightarrow> nat \<Rightarrow> nat \<Rightarrow> nat option" where
  "lower_bound_loop arr start key lower len =
     (if len > 0 then do {
        let half = len div 2;
        let idx = lower + half;
        b \<leftarrow> arr_at arr (start + idx);
        if b_key b < key then lower_bound_loop arr start key (idx + 1) (len - half - 1)
        else lower_bound_loop arr start key lower half
      } else Some lower)"
  by pat_completeness auto
termination
  by (relation "measure (\<lambda>(_, _, _, _, len). len)") auto

declare lower_bound_loop.simps [simp del]

definition lower_bound_reg :: "'v assoc_reg \<Rightarrow> nat \<Rightarrow> nat \<Rightarrow> u32 \<Rightarrow> nat option" where
  "lower_bound_reg r start_it end_it key =
     (if start_it = end_it then Some end_it
      else do {
        let sz = end_it - start_it;
        c_assert (sz < g_cap r);
        lower \<leftarrow> lower_bound_loop (g_arr r) start_it key 0 (nat (sint (word_of_nat sz :: u32)));
        Some (start_it + lower)
      })"

definition find_reg :: "'v assoc_reg \<Rightarrow> nat \<Rightarrow> nat \<Rightarrow> u32 \<Rightarrow> nat option" where
  "find_reg r start_it end_it key = do {
     c_assert (key > 0);
     if start_it = end_it then Some end_it
     else do {
       it \<leftarrow> lower_bound_reg r start_it end_it key;
       c_assert (it \<le> end_it);
       if it = end_it then Some end_it
       else do {
         b \<leftarrow> arr_at (g_arr r) it;
         if b_has b = False \<or> b_key b \<noteq> key then Some end_it else Some it
       }
     }
   }"

text \<open>The buckets that \<^verbatim>\<open>for_each_reg\<close> calls \<open>f\<close> on.\<close>

definition for_each_reg :: "'v assoc_reg \<Rightarrow> nat \<Rightarrow> nat \<Rightarrow> 'v bucket list option" where
  "for_each_reg r start_it end_it = do {
     c_assert (start_it < g_cap r);
     for_loop (\<lambda>i seen. do {
         b \<leftarrow> arr_at (g_arr r) i;
         Some (if b_has b then seen @ [b] else seen)
       }) [start_it..<end_it] []
   }"

section \<open>Invariant and abstraction\<close>

definition live :: "'v assoc_reg \<Rightarrow> 'v bucket list" where
  "live r = filter b_has (take (g_occ r) (g_arr r))"

definition reg_list :: "'v assoc_reg \<Rightarrow> (u32 \<times> 'v) list" where
  "reg_list r = map (\<lambda>b. (b_key b, the (b_val b))) (live r)"

definition reg_inv :: "'v assoc_reg \<Rightarrow> bool" where
  "reg_inv r \<longleftrightarrow>
     length (g_arr r) = g_cap r \<and> pow_cap (g_cap r) \<and> 16 \<le> g_cap r \<and> g_occ r < g_cap r \<and>
     g_sz r = length (live r) \<and> sorted_wrt (<) (map b_key (take (g_occ r) (g_arr r))) \<and>
     (\<forall>b \<in> set (take (g_occ r) (g_arr r)).
        0 < b_key b \<and> unat (b_key b) < unat (g_key_id r) \<and> (b_has b \<longrightarrow> b_val b \<noteq> None)) \<and>
     g_occ r < unat (g_key_id r) \<and> g_cap r \<le> max 16 (2 * unat (g_key_id r))"

lemma arr_at_Some: "i < length xs \<Longrightarrow> arr_at xs i = Some (xs ! i)"
  by (simp add: arr_at_def)

lemma arr_put_Some: "i < length xs \<Longrightarrow> arr_put xs i x = Some (xs[i := x])"
  by (simp add: arr_put_def)

lemma take_filter_Suc:
  "i < length xs \<Longrightarrow>
   filter P (take (Suc i) xs) = filter P (take i xs) @ (if P (xs ! i) then [xs ! i] else [])"
  by (simp add: take_Suc_conv_app_nth)

lemma length_filter_take: "length (filter P (take i xs)) \<le> i"
  by (metis length_filter_le length_take min.bounded_iff)

lemma take_list_update_Suc:
  "j < length a \<Longrightarrow> take (Suc j) (a[j := b]) = take j a @ [b]"
  by (simp add: take_Suc_conv_app_nth)

lemma reg_partition_ok:
  assumes "n \<le> length arr"
  shows "\<exists>arr'. reg_partition arr n fp = Some (length (filter fp (take n arr)), arr') \<and>
           length arr' = length arr \<and>
           take (length (filter fp (take n arr))) arr' = filter fp (take n arr)"
proof -
  let ?fs = "\<lambda>i. filter fp (take i arr)"
  let ?P = "\<lambda>i (j, a). j = length (?fs i) \<and> take j a = ?fs i \<and> drop i a = drop i arr \<and>
              length a = length arr"
  have "\<exists>s'. reg_partition arr n fp = Some s' \<and> ?P n s'"
    unfolding reg_partition_def
  proof (rule for_loop_inv, goal_cases)
    case (1 i s)
    obtain j a where s: "s = (j, a)" by (cases s)
    with 1 have P: "j = length (?fs i)" "take j a = ?fs i" "drop i a = drop i arr"
      "length a = length arr" by auto
    have i: "i < length arr" using 1 assms by simp
    then have ai: "a ! i = arr ! i" using P(3,4) by (metis hd_drop_conv_nth)
    have j: "j \<le> i" using P(1) length_filter_take by simp
    have dr: "drop (Suc i) a = drop (Suc i) arr"
      using P(3) by (metis drop_Suc tl_drop)
    show ?case
      using s P i j ai dr
      by (auto simp: arr_at_Some arr_put_Some take_filter_Suc take_list_update_Suc)
  qed auto
  then show ?thesis by auto
qed

lemma copy_if_ok:
  assumes "n \<le> length src" and "n \<le> length out"
  shows "copy_if src n out fp = Some (length (filter fp (take n src)),
           filter fp (take n src) @ drop (length (filter fp (take n src))) out)"
proof -
  let ?fs = "\<lambda>i. filter fp (take i src)"
  have "for_loop (\<lambda>i (i_out, out). do {
         b \<leftarrow> arr_at src i;
         if fp b then do {
           out \<leftarrow> arr_put out i_out b;
           Some (i_out + 1, out)
         } else Some (i_out, out)
       }) [0..<n] (length (?fs 0), ?fs 0 @ drop (length (?fs 0)) out) =
     Some (length (?fs n), ?fs n @ drop (length (?fs n)) out)"
  proof (rule for_loop_states [where st = "\<lambda>i. (length (?fs i), ?fs i @ drop (length (?fs i)) out)"])
    fix i
    assume "i < n"
    then have i: "i < length src" "i < length out" using assms by auto
    then have "length (?fs i) < length out"
      using length_filter_take [of fp i src] by simp
    then show "(case (length (?fs i), ?fs i @ drop (length (?fs i)) out) of
        (i_out, out) \<Rightarrow> arr_at src i \<bind> (\<lambda>b. if fp b then arr_put out i_out b \<bind>
          (\<lambda>out. Some (i_out + 1, out)) else Some (i_out, out))) =
        Some (length (?fs (Suc i)), ?fs (Suc i) @ drop (length (?fs (Suc i))) out)"
      using i by (simp add: arr_at_Some arr_put_Some take_filter_Suc list_update_append
          Cons_nth_drop_Suc [symmetric])
  qed simp
  then show ?thesis by (simp add: copy_if_def)
qed

section \<open>Compacting, shrinking, expanding\<close>

text \<open>All three leave the live buckets in order, followed by zero buckets.\<close>

definition squeezed :: "'v assoc_reg \<Rightarrow> nat \<Rightarrow> 'v assoc_reg" where
  "squeezed r c = r\<lparr>g_arr := live r @ calloc_buckets (c - length (live r)),
                    g_occ := length (live r), g_cap := c\<rparr>"

lemma squeezed_inv:
  assumes inv: "reg_inv r" and "pow_cap c" "16 \<le> c" "length (live r) < c"
    and cap: "c \<le> max 16 (2 * unat (g_key_id r))"
  shows "reg_inv (squeezed r c)" and "reg_list (squeezed r c) = reg_list r"
    and "live (squeezed r c) = live r"
proof -
  have lv: "live (squeezed r c) = live r"
    by (simp add: squeezed_def live_def)
  have tk: "take (g_occ (squeezed r c)) (g_arr (squeezed r c)) = live r"
    by (simp add: squeezed_def)
  have "sorted_wrt (<) (map b_key (live r))"
    using inv unfolding reg_inv_def live_def
    by (auto simp: sorted_wrt_map intro: sorted_wrt_filter)
  moreover have "set (live r) \<subseteq> set (take (g_occ r) (g_arr r))" by (auto simp: live_def)
  moreover have "length (live r) \<le> g_occ r" by (simp add: live_def length_filter_take)
  ultimately show "reg_inv (squeezed r c)"
    using assms unfolding reg_inv_def tk lv by (auto simp: squeezed_def calloc_buckets_def)
  show "reg_list (squeezed r c) = reg_list r" by (simp add: reg_list_def lv)
  show "live (squeezed r c) = live r" by (rule lv)
qed

lemma reg_invD:
  assumes "reg_inv r"
  shows "length (g_arr r) = g_cap r" "pow_cap (g_cap r)" "16 \<le> g_cap r" "g_occ r < g_cap r"
    "g_sz r = length (live r)" "sorted_wrt (<) (map b_key (take (g_occ r) (g_arr r)))"
    "length (live r) \<le> g_occ r" "g_occ r < unat (g_key_id r)"
    "g_cap r \<le> max 16 (2 * unat (g_key_id r))"
    "\<And>b. b \<in> set (take (g_occ r) (g_arr r)) \<Longrightarrow> 0 < b_key b"
    "\<And>b. b \<in> set (take (g_occ r) (g_arr r)) \<Longrightarrow> unat (b_key b) < unat (g_key_id r)"
    "\<And>b. b \<in> set (take (g_occ r) (g_arr r)) \<Longrightarrow> b_has b \<Longrightarrow> \<exists>v. b_val b = Some v"
  using assms length_filter_take [of b_has "g_occ r" "g_arr r"]
  by (auto simp: reg_inv_def live_def)

lemma squeeze_arr:
  assumes inv: "reg_inv r"
  shows "\<exists>arr'. reg_partition (g_arr r) (g_occ r) b_has = Some (length (live r), arr') \<and>
           length arr' = g_cap r \<and>
           zero_buckets arr' (length (live r)) (g_cap r - length (live r)) =
             Some (live r @ calloc_buckets (g_cap r - length (live r)))"
  using reg_partition_ok [of "g_occ r" "g_arr r" b_has] reg_invD(1,4,7) [OF inv]
  by (auto simp: live_def zero_buckets_def)

lemma compact_if_necessary_ok:
  assumes inv: "reg_inv r"
  shows "\<exists>r'. compact_if_necessary r = Some r' \<and> reg_inv r' \<and> reg_list r' = reg_list r \<and>
           g_key_id r' = g_key_id r \<and> g_elm_sz r' = g_elm_sz r"
proof (cases "g_sz r * 2 > g_occ r")
  case True
  then show ?thesis using inv by (simp add: compact_if_necessary_def)
next
  case False
  note D = reg_invD [OF inv]
  from squeeze_arr [OF inv] False D have "compact_if_necessary r = Some (squeezed r (g_cap r))"
    by (auto simp: compact_if_necessary_def squeezed_def)
  then show ?thesis
    using squeezed_inv [OF inv D(2,3)] D(4,7,9) by (simp add: squeezed_def)
qed

lemma pow_cap_16: "pow_cap c \<Longrightarrow> 8 < c \<Longrightarrow> 16 \<le> c"
  using pow_cap_half [of c] pow_cap_ge [of "c div 2"] by simp

lemma shrink_if_necessary_ok:
  assumes inv: "reg_inv r"
  shows "\<exists>r'. shrink_if_necessary r = Some r' \<and> reg_inv r' \<and> reg_list r' = reg_list r \<and>
           g_key_id r' = g_key_id r \<and> g_elm_sz r' = g_elm_sz r"
proof (cases "g_cap r = REG_MIN_SIZE \<or> g_sz r * 4 > g_cap r")
  case True
  then show ?thesis using inv by (simp add: shrink_if_necessary_def)
next
  case False
  note D = reg_invD [OF inv]
  let ?c = "g_cap r div 2"
  have c: "pow_cap ?c" "?c * 2 = g_cap r"
    using pow_cap_half [OF D(2)] D(3) by simp_all
  moreover have "16 < g_cap r" using D(3) False by (simp add: REG_MIN_SIZE_def)
  ultimately have c16: "16 \<le> ?c" using pow_cap_16 [OF c(1)] by linarith
  have lt: "length (live r) < ?c" using False D(5) c16 by linarith
  then have "shrink_if_necessary r = Some (squeezed r ?c)"
    using squeeze_arr [OF inv] False D
    by (auto simp: shrink_if_necessary_def squeezed_def calloc_buckets_def)
  then show ?thesis
    using squeezed_inv [OF inv c(1) c16 lt] D(9) by (simp add: squeezed_def)
qed

lemma expand_if_neccesary_ok:
  assumes inv: "reg_inv r"
  shows "\<exists>r'. expand_if_neccesary r = Some r' \<and> reg_inv r' \<and> reg_list r' = reg_list r \<and>
           g_key_id r' = g_key_id r \<and> g_elm_sz r' = g_elm_sz r \<and> Suc (g_occ r') < g_cap r'"
proof (cases "g_occ r < g_cap r - 1")
  case True
  then show ?thesis using inv by (simp add: expand_if_neccesary_def)
next
  case False
  note D = reg_invD [OF inv]
  let ?c = "g_cap r * 2"
  have "expand_if_neccesary r = Some (squeezed r ?c)"
    using False D copy_if_ok [of "g_occ r" "g_arr r" "calloc_buckets ?c" b_has]
    by (simp add: expand_if_neccesary_def squeezed_def live_def calloc_buckets_def)
  moreover have "length (live r) < ?c" "Suc (length (live r)) < ?c" using D by auto
  moreover have "?c \<le> max 16 (2 * unat (g_key_id r))" using False D(4,8) by simp
  ultimately show ?thesis
    using squeezed_inv [OF inv pow_cap_double [OF D(2)]] D(3) by (simp add: squeezed_def)
qed

section \<open>Inserting\<close>

lemma reg_init_inv: "reg_inv (assoc_reg_init n)" "reg_list (assoc_reg_init n) = []"
  using pow_cap_double [OF pow_cap_MIN]
  by (simp_all add: reg_inv_def assoc_reg_init_def reg_list_def live_def calloc_buckets_def
      REG_MIN_SIZE_def MIN_SIZE_def)

lemma assoc_reg_push_back_ok:
  assumes inv: "reg_inv r" and key: "unat (g_key_id r) < 2 ^ 32"
  shows "\<exists>r'. assoc_reg_push_back r v (g_elm_sz r) = Some (ucast (g_key_id r), r') \<and> reg_inv r' \<and>
           reg_list r' = reg_list r @ [(ucast (g_key_id r), v)] \<and>
           unat (g_key_id r') = Suc (unat (g_key_id r)) \<and> g_elm_sz r' = g_elm_sz r"
proof -
  obtain q where q: "expand_if_neccesary r = Some q" "reg_inv q" "reg_list q = reg_list r"
    "g_key_id q = g_key_id r" "g_elm_sz q = g_elm_sz r" "Suc (g_occ q) < g_cap q"
    using expand_if_neccesary_ok [OF inv] by blast
  note D = reg_invD [OF q(2)]
  let ?k = "ucast (g_key_id r) :: u32"
  have uk: "unat ?k = unat (g_key_id r)"
    using key by (simp add: unsigned_ucast_eq take_bit_nat_eq_self)
  have suc: "unat (g_key_id r + 1) = Suc (unat (g_key_id r))"
    using key by (simp add: unat_word_ariths)
  have ne: "g_key_id r \<noteq> - 1" using suc by auto
  let ?b = "\<lparr>b_key = ?k, b_has = True, b_val = Some v\<rparr>"
  let ?r = "q\<lparr>g_arr := (g_arr q)[g_occ q := ?b], g_key_id := g_key_id q + 1,
              g_occ := g_occ q + 1, g_sz := g_sz q + 1\<rparr>"
  have "assoc_reg_push_back r v (g_elm_sz r) = Some (?k, ?r)"
    using q D(1,4) ne by (simp add: assoc_reg_push_back_def arr_put_Some Let_def)
  moreover have tk: "take (g_occ ?r) (g_arr ?r) = take (g_occ q) (g_arr q) @ [?b]"
    using D(1,4) by (simp add: take_list_update_Suc)
  then have lv: "live ?r = live q @ [?b]" by (simp add: live_def)
  moreover have "reg_inv ?r"
    unfolding reg_inv_def tk lv
    using D q(4,6) suc uk D(10) by (fastforce simp: sorted_wrt_append word_less_nat_alt word_gt_0)
  ultimately show ?thesis
    using q suc by (intro exI [of _ ?r]) (simp add: reg_list_def)
qed

section \<open>Finding\<close>

lemma skip_dead_ok:
  "it + n \<le> length arr \<Longrightarrow>
   \<exists>k. skip_dead arr n it = Some k \<and> it \<le> k \<and> k \<le> it + n \<and>
       (\<forall>i. it \<le> i \<and> i < k \<longrightarrow> \<not> b_has (arr ! i)) \<and> (k < it + n \<longrightarrow> b_has (arr ! k))"
proof (induction n arbitrary: it)
  case 0
  then show ?case by auto
next
  case (Suc n)
  show ?case
  proof (cases "b_has (arr ! it)")
    case True
    then show ?thesis using Suc.prems by (auto simp: arr_at_def)
  next
    case False
    from Suc.IH [of "Suc it"] Suc.prems obtain k where
      "skip_dead arr n (Suc it) = Some k" "Suc it \<le> k" "k \<le> Suc it + n"
      "\<forall>i. Suc it \<le> i \<and> i < k \<longrightarrow> \<not> b_has (arr ! i)" "k < Suc it + n \<longrightarrow> b_has (arr ! k)"
      by auto
    moreover have "\<not> b_has (arr ! i)" if "it \<le> i" "i < k" for i
      using that False calculation(4) by (cases "i = it") auto
    ultimately show ?thesis
      using False Suc.prems by (intro exI [of _ k]) (simp add: arr_at_def)
  qed
qed

lemma lower_bound_loop_ok:
  assumes "start + n \<le> length arr"
    and "\<And>i j. i < j \<Longrightarrow> j < n \<Longrightarrow> b_key (arr ! (start + i)) \<le> b_key (arr ! (start + j))"
  shows "lower + len \<le> n \<Longrightarrow> (\<forall>i < lower. b_key (arr ! (start + i)) < key) \<Longrightarrow>
    (\<forall>i. lower + len \<le> i \<and> i < n \<longrightarrow> key \<le> b_key (arr ! (start + i))) \<Longrightarrow>
    \<exists>k \<le> n. lower_bound_loop arr start key lower len = Some k \<and>
       (\<forall>i < k. b_key (arr ! (start + i)) < key) \<and>
       (\<forall>i. k \<le> i \<and> i < n \<longrightarrow> key \<le> b_key (arr ! (start + i)))"
proof (induction len arbitrary: lower rule: less_induct)
  case (less len)
  show ?case
  proof (cases "len = 0")
    case True
    then show ?thesis using less.prems by (auto simp: lower_bound_loop.simps)
  next
    case False
    define idx where "idx = lower + len div 2"
    have idx: "idx < n" "lower \<le> idx" "idx < lower + len"
      using less.prems(1) False by (auto simp: idx_def)
    have at: "arr_at arr (start + idx) = Some (arr ! (start + idx))"
      using idx assms(1) by (simp add: arr_at_Some)
    show ?thesis
    proof (cases "b_key (arr ! (start + idx)) < key")
      case True
      have "\<exists>k \<le> n. lower_bound_loop arr start key (Suc idx) (len - len div 2 - 1) = Some k \<and>
         (\<forall>i < k. b_key (arr ! (start + i)) < key) \<and>
         (\<forall>i. k \<le> i \<and> i < n \<longrightarrow> key \<le> b_key (arr ! (start + i)))"
      proof (rule less.IH)
        show "\<forall>i < Suc idx. b_key (arr ! (start + i)) < key"
        proof (intro allI impI)
          fix i
          assume "i < Suc idx"
          then consider "i = idx" | "i < idx" by linarith
          then show "b_key (arr ! (start + i)) < key"
            using True assms(2) [of i idx] idx(1) by cases (auto intro: le_less_trans)
        qed
      qed (use False less.prems in \<open>auto simp: idx_def\<close>)
      then show ?thesis
        using False True at by (simp add: lower_bound_loop.simps [of _ _ _ lower len] flip: idx_def)
    next
      case ge: False
      have "\<exists>k \<le> n. lower_bound_loop arr start key lower (len div 2) = Some k \<and>
         (\<forall>i < k. b_key (arr ! (start + i)) < key) \<and>
         (\<forall>i. k \<le> i \<and> i < n \<longrightarrow> key \<le> b_key (arr ! (start + i)))"
      proof (rule less.IH)
        show "\<forall>i. lower + len div 2 \<le> i \<and> i < n \<longrightarrow> key \<le> b_key (arr ! (start + i))"
        proof (intro allI impI)
          fix i
          assume "lower + len div 2 \<le> i \<and> i < n"
          then consider "i = idx" | "idx < i" "i < n" by (fastforce simp: idx_def)
          then show "key \<le> b_key (arr ! (start + i))"
            using ge assms(2) [of idx i] by cases (auto intro: order_trans)
        qed
      qed (use False less.prems in auto)
      then show ?thesis
        using False ge at by (simp add: lower_bound_loop.simps [of _ _ _ lower len] flip: idx_def)
    qed
  qed
qed

text \<open>Keys grow along the array.\<close>

lemma reg_keys_less:
  "reg_inv r \<Longrightarrow> i < j \<Longrightarrow> j < g_occ r \<Longrightarrow> b_key (g_arr r ! i) < b_key (g_arr r ! j)"
  using reg_invD(1,4,6) [of r] by (auto simp: sorted_wrt_iff_nth_less)

lemma reg_key_inject:
  "reg_inv r \<Longrightarrow> i < g_occ r \<Longrightarrow> j < g_occ r \<Longrightarrow> b_key (g_arr r ! i) = b_key (g_arr r ! j) \<Longrightarrow> i = j"
  using reg_keys_less [of r i j] reg_keys_less [of r j i] by (metis less_irrefl nat_neq_iff)

lemma find_reg_ok:
  assumes inv: "reg_inv r" and s: "s \<le> g_occ r" and key: "0 < key" and cap: "g_cap r \<le> 2 ^ 31"
  shows "\<exists>k. find_reg r s (g_occ r) key = Some k \<and> k \<le> g_occ r \<and>
           (k < g_occ r \<longrightarrow> s \<le> k \<and> b_has (g_arr r ! k) \<and> b_key (g_arr r ! k) = key) \<and>
           (k = g_occ r \<longrightarrow>
              (\<forall>i. s \<le> i \<and> i < g_occ r \<longrightarrow> \<not> (b_has (g_arr r ! i) \<and> b_key (g_arr r ! i) = key)))"
proof (cases "s = g_occ r")
  case True
  then show ?thesis using key by (auto simp: find_reg_def)
next
  case False
  note D = reg_invD [OF inv]
  define n where "n = g_occ r - s"
  have n: "s + n = g_occ r" "0 < n" "s + n \<le> length (g_arr r)" "n < g_cap r" "n < 2 ^ 31"
    using False s D(1,4) cap by (auto simp: n_def)
  obtain k where k: "k \<le> n" "lower_bound_loop (g_arr r) s key 0 n = Some k"
    "\<forall>i < k. b_key (g_arr r ! (s + i)) < key"
    "\<forall>i. k \<le> i \<and> i < n \<longrightarrow> key \<le> b_key (g_arr r ! (s + i))"
    using lower_bound_loop_ok [OF n(3), of 0 n key] reg_keys_less [OF inv] n(1)
    by (fastforce intro: less_imp_le)
  have nth: "i = s + (i - s)" if "s \<le> i" for i using that by simp
  have lb: "lower_bound_reg r s (g_occ r) key = Some (s + k)"
    using False n sint_of_nat_small [OF n(5)] k(2) by (simp add: lower_bound_reg_def flip: n_def)
  show ?thesis
  proof (cases "k < n \<and> b_has (g_arr r ! (s + k)) \<and> b_key (g_arr r ! (s + k)) = key")
    case True
    then have "find_reg r s (g_occ r) key = Some (s + k)"
      using False key lb n(1,3) by (simp add: find_reg_def arr_at_Some)
    with True n(1) show ?thesis by auto
  next
    case no: False
    then have "find_reg r s (g_occ r) key = Some (g_occ r)"
      using False key lb k(1) n(1,3) by (auto simp: find_reg_def arr_at_Some)
    moreover have "\<not> (b_has (g_arr r ! i) \<and> b_key (g_arr r ! i) = key)"
      if i: "s \<le> i" "i < g_occ r" for i
    proof
      assume h: "b_has (g_arr r ! i) \<and> b_key (g_arr r ! i) = key"
      obtain d where d: "i = s + d" "d < n" using i nth [OF i(1)] n(1) by (metis nat_add_left_cancel_less)
      with h k(3) have "k \<le> d" by (metis less_irrefl not_less)
      moreover have "key \<le> b_key (g_arr r ! (s + k))" using k(4) d calculation by simp
      moreover have "k < d \<longrightarrow> b_key (g_arr r ! (s + k)) < b_key (g_arr r ! i)"
        using reg_keys_less [OF inv, of "s + k" i] d i by simp
      ultimately have "k = d" using h by (metis le_neq_implies_less not_less)
      then show False using no h d by simp
    qed
    ultimately show ?thesis by blast
  qed
qed

section \<open>Erasing\<close>

definition kill :: "'v bucket \<Rightarrow> 'v bucket" where
  "kill b = b\<lparr>b_has := False\<rparr>"

lemma kill_simps [simp]: "b_has (kill b) = False" "b_key (kill b) = b_key b" "b_val (kill b) = b_val b"
  by (simp_all add: kill_def)

lemma kill_dead: "\<not> b_has b \<Longrightarrow> kill b = b"
  by (cases b) (simp add: kill_def)

lemma nth_in_take: "k < n \<Longrightarrow> n \<le> length a \<Longrightarrow> a ! k \<in> set (take n a)"
  by (auto simp: in_set_conv_nth intro: exI [of _ k])

text \<open>The array with the buckets \<open>i\<close> to \<open>j - 1\<close> dead.\<close>

definition kill_range :: "'v bucket list \<Rightarrow> nat \<Rightarrow> nat \<Rightarrow> 'v bucket list" where
  "kill_range a i j = map (\<lambda>k. if i \<le> k \<and> k < j then kill (a ! k) else a ! k) [0..<length a]"

lemma length_kill_range [simp]: "length (kill_range a i j) = length a"
  by (simp add: kill_range_def)

lemma kill_range_nth:
  "k < length a \<Longrightarrow> kill_range a i j ! k = (if i \<le> k \<and> k < j then kill (a ! k) else a ! k)"
  by (simp add: kill_range_def)

lemma kill_range_empty: "kill_range a i i = a"
  by (rule nth_equalityI) (auto simp: kill_range_nth)

lemma kill_range_split:
  assumes "i \<le> j" "j \<le> length a"
  shows "kill_range a i j = take i a @ map kill (take (j - i) (drop i a)) @ drop j a"
  by (rule nth_equalityI) (use assms in \<open>auto simp: kill_range_nth nth_append\<close>)

text \<open>An iterator is the index of a live bucket or the end.\<close>

definition is_iter :: "'v assoc_reg \<Rightarrow> nat \<Rightarrow> bool" where
  "is_iter r i \<longleftrightarrow> i = g_occ r \<or> i < g_occ r \<and> b_has (g_arr r ! i)"

definition reg_shape :: "'v assoc_reg \<Rightarrow> bool" where
  "reg_shape r \<longleftrightarrow> length (g_arr r) = g_cap r \<and> g_occ r < g_cap r"

lemma assoc_reg_next_ok:
  assumes inv: "reg_shape r" and it: "it < g_occ r" "b_has (g_arr r ! it)"
  shows "\<exists>k. assoc_reg_next r it = Some k \<and> it < k \<and> is_iter r k \<and>
           (\<forall>i. it < i \<and> i < k \<longrightarrow> \<not> b_has (g_arr r ! i))"
proof -
  have D: "length (g_arr r) = g_cap r" "g_occ r < g_cap r" using inv by (auto simp: reg_shape_def)
  from skip_dead_ok [of "Suc it" "g_occ r - Suc it" "g_arr r"] it D
  obtain k where "skip_dead (g_arr r) (g_occ r - Suc it) (Suc it) = Some k" "Suc it \<le> k" "k \<le> g_occ r"
    "\<forall>i. Suc it \<le> i \<and> i < k \<longrightarrow> \<not> b_has (g_arr r ! i)" "k < g_occ r \<longrightarrow> b_has (g_arr r ! k)"
    by auto
  then show ?thesis
    using it D by (auto simp: assoc_reg_next_def arr_at_Some iterator_in_ds_def
        assoc_reg_end_def is_iter_def)
qed

lemma assoc_reg_front_ok:
  assumes inv: "reg_inv r"
  shows "\<exists>k. assoc_reg_front r = Some k \<and> is_iter r k \<and> (\<forall>i < k. \<not> b_has (g_arr r ! i))"
  using skip_dead_ok [of 0 "g_occ r" "g_arr r"] reg_invD(1,4) [OF inv]
  by (auto simp: assoc_reg_front_def is_iter_def)

definition live_between :: "'v assoc_reg \<Rightarrow> nat \<Rightarrow> nat \<Rightarrow> 'v bucket list" where
  "live_between r i j = filter b_has (take (j - i) (drop i (g_arr r)))"

lemma live_between_skip:
  assumes "i \<le> k" "k \<le> j" "j \<le> length (g_arr r)"
    and "\<And>l. i \<le> l \<Longrightarrow> l < k \<Longrightarrow> \<not> b_has (g_arr r ! l)"
  shows "live_between r i j = live_between r k j"
proof -
  have "take (j - i) (drop i (g_arr r)) =
        take (k - i) (drop i (g_arr r)) @ take (j - k) (drop k (g_arr r))"
  proof -
    have e: "j - i = (k - i) + (j - k)" and d: "k - i + i = k" using assms(1,2) by simp_all
    show ?thesis unfolding e take_add drop_drop d ..
  qed
  moreover have "filter b_has (take (k - i) (drop i (g_arr r))) = []"
    using assms by (auto simp: filter_empty_conv in_set_conv_nth)
  ultimately show ?thesis by (simp add: live_between_def)
qed

lemma erase_loop_ok:
  assumes "reg_shape r" "is_iter r i" "is_iter r j" "i \<le> j"
    and "\<And>k. k < g_occ r \<Longrightarrow> b_has (g_arr r ! k) \<Longrightarrow> \<exists>v. b_val (g_arr r ! k) = Some v"
    and "j - i \<le> fuel"
  shows "erase_loop fuel r i j =
    Some (r\<lparr>g_arr := kill_range (g_arr r) i j, g_sz := g_sz r - length (live_between r i j)\<rparr>,
          map (the \<circ> b_val) (live_between r i j))"
  using assms
proof (induction fuel arbitrary: r i)
  case 0
  then show ?case by (simp add: erase_loop.simps kill_range_empty live_between_def)
next
  case (Suc fuel)
  show ?case
  proof (cases "i = j")
    case True
    then show ?thesis by (simp add: erase_loop.simps kill_range_empty live_between_def)
  next
    case False
    have le: "j \<le> g_occ r" "g_occ r < length (g_arr r)"
      using Suc.prems(1,3) by (auto simp: is_iter_def reg_shape_def)
    have i: "i < g_occ r" "b_has (g_arr r ! i)"
      using Suc.prems(2,4) le False by (auto simp: is_iter_def)
    obtain v where v: "b_val (g_arr r ! i) = Some v" using Suc.prems(5) [OF i] by auto
    obtain k where k: "assoc_reg_next r i = Some k" "i < k" "is_iter r k"
      "\<forall>l. i < l \<and> l < k \<longrightarrow> \<not> b_has (g_arr r ! l)"
      using assoc_reg_next_ok [OF Suc.prems(1) i] by auto
    have kj: "k \<le> j"
    proof (rule ccontr)
      assume "\<not> k \<le> j"
      then have "\<not> b_has (g_arr r ! j)" "j < g_occ r"
        using k Suc.prems(4) False by (auto simp: is_iter_def)
      then show False using Suc.prems(3) by (simp add: is_iter_def)
    qed
    let ?r = "r\<lparr>g_arr := (g_arr r)[i := kill (g_arr r ! i)], g_sz := g_sz r - 1\<rparr>"
    have lb: "live_between ?r k j = live_between r k j"
      using k(2) by (simp add: live_between_def)
    have lbi: "live_between r i j = g_arr r ! i # live_between r k j"
    proof -
      have "live_between r (Suc i) j = live_between r k j"
        using k(2,4) kj le by (intro live_between_skip) auto
      moreover have "j - i = Suc (j - Suc i)" using k(2) kj by simp
      moreover have "drop i (g_arr r) = g_arr r ! i # drop (Suc i) (g_arr r)"
        using i le by (simp add: Cons_nth_drop_Suc)
      ultimately show ?thesis using i(2) by (simp add: live_between_def)
    qed
    have kr: "kill_range (g_arr ?r) k j = kill_range (g_arr r) i j"
    proof (rule nth_equalityI)
      fix l
      assume "l < length (kill_range (g_arr ?r) k j)"
      then have l: "l < length (g_arr r)" by simp
      consider "l < i" | "l = i" | "i < l" "l < k" | "k \<le> l" by linarith
      then show "kill_range (g_arr ?r) k j ! l = kill_range (g_arr r) i j ! l"
        using l k(2,4) kj by cases (auto simp: kill_range_nth nth_list_update kill_dead)
    qed simp
    have "erase_loop fuel ?r k j =
      Some (?r\<lparr>g_arr := kill_range (g_arr ?r) k j, g_sz := g_sz ?r - length (live_between ?r k j)\<rparr>,
            map (the \<circ> b_val) (live_between ?r k j))"
    proof (rule Suc.IH)
      show "is_iter ?r k" "is_iter ?r j" using k Suc.prems(3) kj by (auto simp: is_iter_def)
      show "reg_shape ?r" using Suc.prems(1) by (simp add: reg_shape_def)
      fix l
      assume "l < g_occ ?r" "b_has (g_arr ?r ! l)"
      then show "\<exists>v. b_val (g_arr ?r ! l) = Some v"
        using Suc.prems(5) [of l] le by (cases "l = i") auto
    qed (use k kj Suc.prems(6) in auto)
    then show ?thesis
      using False v k(1) i le kr unfolding lb
      by (simp add: erase_loop.simps [of "Suc fuel"] arr_at_Some lbi flip: kill_def)
  qed
qed

text \<open>The number of live buckets before an iterator is its position in \<open>reg_list\<close>.\<close>

definition reg_pos :: "'v assoc_reg \<Rightarrow> nat \<Rightarrow> nat" where
  "reg_pos r i = length (filter b_has (take i (g_arr r)))"

lemma live_split:
  assumes "i \<le> j" "j \<le> g_occ r"
  shows "live r = filter b_has (take i (g_arr r)) @ live_between r i j @ live_between r j (g_occ r)"
proof -
  have e: "g_occ r = i + ((j - i) + (g_occ r - j))" and d: "j - i + i = j" using assms by simp_all
  have "take (g_occ r) (g_arr r) = take i (g_arr r) @ take (j - i) (drop i (g_arr r)) @
        take (g_occ r - j) (drop j (g_arr r))"
    by (subst e) (simp only: take_add drop_drop d)
  then show ?thesis by (simp add: live_def live_between_def)
qed

lemma kill_range_inv:
  assumes inv: "reg_inv r" and ij: "i \<le> j" "j \<le> g_occ r"
  defines "q \<equiv> r\<lparr>g_arr := kill_range (g_arr r) i j, g_sz := g_sz r - length (live_between r i j)\<rparr>"
  shows "reg_inv q"
    and "live q = filter b_has (take i (g_arr r)) @ live_between r j (g_occ r)"
proof -
  note D = reg_invD [OF inv]
  have jl: "j \<le> length (g_arr r)" using ij D(1,4) by simp
  have tk: "take (g_occ r) (kill_range (g_arr r) i j) = take i (g_arr r) @
      map kill (take (j - i) (drop i (g_arr r))) @ take (g_occ r - j) (drop j (g_arr r))"
  proof -
    have "take (g_occ r) (kill_range (g_arr r) i j) = kill_range (take (g_occ r) (g_arr r)) i j"
      by (rule nth_equalityI) (use D(1,4) in \<open>auto simp: kill_range_nth\<close>)
    then show ?thesis
      using kill_range_split [OF ij(1), of "take (g_occ r) (g_arr r)"] ij D(1,4)
      by (simp add: min_def drop_take)
  qed
  have none: "filter b_has (map kill xs) = []" for xs :: "'a bucket list"
    by (simp add: filter_empty_conv)
  show lv: "live q = filter b_has (take i (g_arr r)) @ live_between r j (g_occ r)"
    by (simp add: live_def q_def tk none live_between_def)
  have nth: "take (g_occ r) (g_arr q) ! k = (if i \<le> k \<and> k < j then kill (g_arr r ! k) else g_arr r ! k)"
    if "k < g_occ r" for k
    using that D(1,4) by (simp add: q_def kill_range_nth)
  have keys: "map b_key (take (g_occ r) (g_arr q)) = map b_key (take (g_occ r) (g_arr r))"
    by (rule nth_equalityI) (use nth D(1,4) in \<open>auto simp: q_def kill_range_nth\<close>)
  have mem: "\<exists>b' \<in> set (take (g_occ r) (g_arr r)). b = b' \<or> b = kill b'"
    if b: "b \<in> set (take (g_occ r) (g_arr q))" for b
  proof -
    from b obtain k where "k < g_occ r" "b = take (g_occ r) (g_arr q) ! k"
      by (auto simp: in_set_conv_nth)
    then show ?thesis
      using nth [of k] D(1,4) by (intro bexI [of _ "g_arr r ! k"]) (auto simp: in_set_conv_nth)
  qed
  have sz: "g_sz q = length (live q)"
    using D(5) live_split [OF ij] lv by (simp add: q_def)
  have shape: "length (g_arr q) = g_cap q" "g_occ q = g_occ r" "g_cap q = g_cap r" "g_key_id q = g_key_id r"
    using D(1) by (simp_all add: q_def)
  show "reg_inv q"
    unfolding reg_inv_def shape(2-4) keys
  proof (intro conjI ballI)
    fix b
    assume "b \<in> set (take (g_occ r) (g_arr q))"
    then obtain b' where b': "b' \<in> set (take (g_occ r) (g_arr r))" "b = b' \<or> b = kill b'"
      using mem by blast
    show "0 < b_key b" "unat (b_key b) < unat (g_key_id r)" "b_has b \<longrightarrow> b_val b \<noteq> None"
      using D(10-12) [OF b'(1)] b'(2) by auto
  qed (use D shape sz in simp_all)
qed

lemma live_between_length: "i \<le> j \<Longrightarrow> j \<le> g_occ r \<Longrightarrow> length (live_between r i j) = reg_pos r j - reg_pos r i"
proof -
  assume ij: "i \<le> j" "j \<le> g_occ r"
  have "take j (g_arr r) = take i (g_arr r) @ take (j - i) (drop i (g_arr r))"
    using ij by (metis le_add_diff_inverse take_add)
  then show ?thesis by (simp add: reg_pos_def live_between_def)
qed

lemma assoc_reg_erase_ok:
  assumes inv: "reg_inv r" and it: "is_iter r i" "is_iter r j" "i \<le> j"
  shows "\<exists>r'. assoc_reg_erase r i j =
             Some (r', map snd (take (reg_pos r j - reg_pos r i) (drop (reg_pos r i) (reg_list r)))) \<and>
           reg_inv r' \<and> reg_list r' = take (reg_pos r i) (reg_list r) @ drop (reg_pos r j) (reg_list r) \<and>
           g_key_id r' = g_key_id r \<and> g_elm_sz r' = g_elm_sz r"
proof (cases "i = j")
  case True
  then show ?thesis using inv by (simp add: assoc_reg_erase_def)
next
  case False
  note D = reg_invD [OF inv]
  have occ: "i < g_occ r" "j \<le> g_occ r" using it False by (auto simp: is_iter_def)
  let ?q = "r\<lparr>g_arr := kill_range (g_arr r) i j, g_sz := g_sz r - length (live_between r i j)\<rparr>"
  have "erase_loop (g_occ r) r i j = Some (?q, map (the \<circ> b_val) (live_between r i j))"
  proof (rule erase_loop_ok [OF _ it])
    show "reg_shape r" using D(1,4) by (simp add: reg_shape_def)
    show "\<exists>v. b_val (g_arr r ! k) = Some v" if "k < g_occ r" "b_has (g_arr r ! k)" for k
      using reg_invD(12) [OF inv nth_in_take] that D(1,4) by simp
  qed (use occ in simp)
  moreover obtain q1 where q1: "compact_if_necessary ?q = Some q1" "reg_inv q1"
      "reg_list q1 = reg_list ?q" "g_key_id q1 = g_key_id r" "g_elm_sz q1 = g_elm_sz r"
    using compact_if_necessary_ok [OF kill_range_inv(1) [OF inv it(3) occ(2)]] by auto
  moreover obtain q2 where q2: "shrink_if_necessary q1 = Some q2" "reg_inv q2"
      "reg_list q2 = reg_list q1" "g_key_id q2 = g_key_id q1" "g_elm_sz q2 = g_elm_sz q1"
    using shrink_if_necessary_ok [OF q1(2)] by auto
  moreover have "map (the \<circ> b_val) (live_between r i j) =
      map snd (take (reg_pos r j - reg_pos r i) (drop (reg_pos r i) (reg_list r)))"
    using live_split [OF it(3) occ(2)] live_between_length [OF it(3) occ(2)]
    by (simp add: reg_list_def reg_pos_def take_map drop_map comp_def)
  moreover have "reg_list ?q = take (reg_pos r i) (reg_list r) @ drop (reg_pos r j) (reg_list r)"
  proof -
    have "reg_pos r j = reg_pos r i + length (live_between r i j)"
      using live_between_length [OF it(3) occ(2)] occ it(3)
      by (simp add: reg_pos_def) (metis filter_append length_append le_add1 le_add_diff_inverse take_add)
    then show ?thesis
      using live_split [OF it(3) occ(2)] kill_range_inv(2) [OF inv it(3) occ(2)]
      by (simp add: reg_list_def reg_pos_def)
  qed
  ultimately show ?thesis
    using False occ by (auto simp: assoc_reg_erase_def iterator_in_ds_def)
qed

section \<open>Searching, updating and deleting by key\<close>

text \<open>The sequences of calls that the clients make.\<close>

definition reg_find :: "'v assoc_reg \<Rightarrow> u32 \<Rightarrow> nat option" where
  "reg_find r key = do {
     it \<leftarrow> assoc_reg_front r;
     find_reg r it (assoc_reg_end r) key
   }"

definition reg_lookup :: "'v assoc_reg \<Rightarrow> u32 \<Rightarrow> 'v option option" where
  "reg_lookup r key = do {
     it \<leftarrow> reg_find r key;
     if it = assoc_reg_end r then Some None
     else do {
       v \<leftarrow> assoc_reg_value r it;
       Some (Some v)
     }
   }"

definition reg_update :: "'v assoc_reg \<Rightarrow> u32 \<Rightarrow> 'v \<Rightarrow> 'v assoc_reg option" where
  "reg_update r key w = do {
     it \<leftarrow> reg_find r key;
     c_assert (it \<noteq> assoc_reg_end r);
     b \<leftarrow> arr_at (g_arr r) it;
     Some (r\<lparr>g_arr := (g_arr r)[it := b\<lparr>b_val := Some w\<rparr>]\<rparr>)
   }"

definition reg_delete :: "'v assoc_reg \<Rightarrow> u32 \<Rightarrow> ('v \<times> 'v assoc_reg) option" where
  "reg_delete r key = do {
     it \<leftarrow> reg_find r key;
     c_assert (it \<noteq> assoc_reg_end r);
     nxt \<leftarrow> assoc_reg_next r it;
     (r, vs) \<leftarrow> assoc_reg_erase r it nxt;
     v \<leftarrow> arr_at vs 0;
     Some (v, r)
   }"

lemma reg_list_iff:
  assumes "reg_inv r"
  shows "(k, v) \<in> set (reg_list r) \<longleftrightarrow>
    (\<exists>i < g_occ r. b_has (g_arr r ! i) \<and> b_key (g_arr r ! i) = k \<and> v = the (b_val (g_arr r ! i)))"
  using reg_invD(1,4) [OF assms]
  by (auto simp: reg_list_def live_def in_set_conv_nth image_iff)

lemma reg_list_keys: "reg_inv r \<Longrightarrow> sorted_wrt (<) (map fst (reg_list r))"
  using reg_invD(6) [of r]
  by (auto simp: reg_list_def live_def comp_def sorted_wrt_map intro: sorted_wrt_filter)

lemma reg_list_distinct: "reg_inv r \<Longrightarrow> distinct (map fst (reg_list r))"
  using reg_list_keys strict_sorted_iff by blast

lemma reg_list_fresh:
  assumes "reg_inv r" and "(k, v) \<in> set (reg_list r)"
  shows "0 < k \<and> unat k < unat (g_key_id r)"
  using assms reg_invD(10,11) [OF assms(1)]
  by (auto simp: reg_list_def live_def)

lemma reg_find_ok:
  assumes inv: "reg_inv r" and key: "0 < key" and cap: "g_cap r \<le> 2 ^ 31"
  shows "\<exists>k. reg_find r key = Some k \<and>
           (if map_of (reg_list r) key = None then k = g_occ r
            else k < g_occ r \<and> b_has (g_arr r ! k) \<and> b_key (g_arr r ! k) = key \<and>
                 b_val (g_arr r ! k) = map_of (reg_list r) key)"
proof -
  note D = reg_invD [OF inv]
  obtain s where s: "assoc_reg_front r = Some s" "is_iter r s" "\<forall>i < s. \<not> b_has (g_arr r ! i)"
    using assoc_reg_front_ok [OF inv] by auto
  have sle: "s \<le> g_occ r" using s(2) by (auto simp: is_iter_def)
  from find_reg_ok [OF inv sle key cap] obtain k where k: "find_reg r s (g_occ r) key = Some k"
    "k \<le> g_occ r" "k < g_occ r \<longrightarrow> b_has (g_arr r ! k) \<and> b_key (g_arr r ! k) = key"
    "k = g_occ r \<longrightarrow>
       (\<forall>i. s \<le> i \<and> i < g_occ r \<longrightarrow> \<not> (b_has (g_arr r ! i) \<and> b_key (g_arr r ! i) = key))"
    by auto
  have find: "reg_find r key = Some k"
    using s(1) k(1) by (simp add: reg_find_def assoc_reg_end_def)
  show ?thesis
  proof (cases "k = g_occ r")
    case True
    have "key \<notin> fst ` set (reg_list r)"
    proof
      assume "key \<in> fst ` set (reg_list r)"
      then obtain i where i: "i < g_occ r" "b_has (g_arr r ! i)" "b_key (g_arr r ! i) = key"
        using reg_list_iff [OF inv] by force
      moreover from i(2) s(3) have "s \<le> i" by (auto simp: not_less [symmetric])
      ultimately show False using k(4) True by blast
    qed
    then show ?thesis using find True by (simp add: map_of_eq_None_iff)
  next
    case False
    then have lt: "k < g_occ r" "b_has (g_arr r ! k)" "b_key (g_arr r ! k) = key"
      using k(2,3) by auto
    obtain v where v: "b_val (g_arr r ! k) = Some v"
      using D(12) [OF nth_in_take] lt D(1,4) by (metis less_imp_le)
    then have "(key, v) \<in> set (reg_list r)"
      using lt by (auto simp: reg_list_iff [OF inv] intro!: exI [of _ k])
    then have "map_of (reg_list r) key = Some v"
      using reg_list_distinct [OF inv] by (rule map_of_is_SomeI [rotated])
    then show ?thesis using find lt v by simp
  qed
qed

lemma reg_lookup_ok:
  assumes "reg_inv r" and "0 < key" and "g_cap r \<le> 2 ^ 31"
  shows "reg_lookup r key = Some (map_of (reg_list r) key)"
proof (cases "map_of (reg_list r) key")
  case None
  then show ?thesis
    using reg_find_ok [OF assms] by (auto simp: reg_lookup_def assoc_reg_end_def)
next
  case (Some v)
  then obtain k where "reg_find r key = Some k" "k < g_occ r" "b_has (g_arr r ! k)"
    "b_val (g_arr r ! k) = Some v"
    using reg_find_ok [OF assms] by auto
  then show ?thesis
    using Some reg_invD(1,4) [OF assms(1)]
    by (simp add: reg_lookup_def assoc_reg_end_def assoc_reg_value_def iterator_in_ds_def arr_at_Some)
qed

lemma filter_distinct_key:
  "distinct (map fst L) \<Longrightarrow> p < length L \<Longrightarrow>
   filter (\<lambda>e. fst e \<noteq> fst (L ! p)) L = take p L @ drop (Suc p) L"
proof (induction L arbitrary: p)
  case (Cons a L)
  show ?case
  proof (cases p)
    case 0
    have "fst e \<noteq> fst a" if "e \<in> set L" for e
      using Cons.prems(1) imageI [OF that, of fst] by (intro notI) simp
    then have "filter (\<lambda>e. fst e \<noteq> fst a) L = L" by (simp add: filter_id_conv)
    then show ?thesis using 0 by simp
  next
    case (Suc q)
    then have "fst (L ! q) \<in> fst ` set L" using Cons.prems(2) by simp
    then have "fst a \<noteq> fst (L ! q)" using Cons.prems(1) by (intro notI) simp
    then show ?thesis using Suc Cons by simp
  qed
qed simp

lemma reg_delete_ok:
  assumes inv: "reg_inv r" and cap: "g_cap r \<le> 2 ^ 31" and v: "map_of (reg_list r) key = Some v"
  shows "\<exists>r'. reg_delete r key = Some (v, r') \<and> reg_inv r' \<and>
           reg_list r' = filter (\<lambda>e. fst e \<noteq> key) (reg_list r) \<and> g_key_id r' = g_key_id r \<and>
           g_elm_sz r' = g_elm_sz r"
proof -
  note D = reg_invD [OF inv]
  have key: "0 < key" using reg_list_fresh [OF inv map_of_SomeD [OF v]] by simp
  obtain i where i: "reg_find r key = Some i" "i < g_occ r" "b_has (g_arr r ! i)"
    "b_key (g_arr r ! i) = key" "b_val (g_arr r ! i) = Some v"
    using reg_find_ok [OF inv key cap] v by auto
  have shape: "reg_shape r" using D(1,4) by (simp add: reg_shape_def)
  obtain j where j: "assoc_reg_next r i = Some j" "i < j" "is_iter r j"
    "\<forall>l. i < l \<and> l < j \<longrightarrow> \<not> b_has (g_arr r ! l)"
    using assoc_reg_next_ok [OF shape i(2,3)] by auto
  have it: "is_iter r i" using i by (simp add: is_iter_def)
  have jo: "j \<le> g_occ r" using j(3) by (auto simp: is_iter_def)
  have "live_between r (Suc i) j = live_between r j j"
    using j jo D(1,4) by (intro live_between_skip) auto
  moreover have "j - i = Suc (j - Suc i)" using j(2) by simp
  moreover have "drop i (g_arr r) = g_arr r ! i # drop (Suc i) (g_arr r)"
    using i(2) D(1,4) by (simp add: Cons_nth_drop_Suc)
  ultimately have lb: "live_between r i j = [g_arr r ! i]"
    using i(3) by (simp add: live_between_def)
  have ij: "i \<le> j" using j(2) by simp
  define p where "p = reg_pos r i"
  have pj: "reg_pos r j = Suc p"
    using live_between_length [OF ij jo] lb by (simp add: p_def)
  have spl: "reg_list r = map (\<lambda>b. (b_key b, the (b_val b))) (filter b_has (take i (g_arr r))) @
      (key, v) # map (\<lambda>b. (b_key b, the (b_val b))) (live_between r j (g_occ r))"
    using live_split [OF ij jo] lb i(4,5) by (simp add: reg_list_def)
  then have p: "p < length (reg_list r)" "reg_list r ! p = (key, v)"
    by (simp_all add: p_def reg_pos_def nth_append)
  obtain r' where r': "assoc_reg_erase r i j = Some (r', [v])" "reg_inv r'"
    "reg_list r' = take p (reg_list r) @ drop (Suc p) (reg_list r)" "g_key_id r' = g_key_id r"
    "g_elm_sz r' = g_elm_sz r"
    using assoc_reg_erase_ok [OF inv it j(3) ij] pj p
    by (auto simp: take_Suc_conv_app_nth take_Suc hd_drop_conv_nth simp flip: p_def)
  then show ?thesis
    using i(1,2) j(1) filter_distinct_key [OF reg_list_distinct [OF inv] p(1)] p(2)
    by (auto simp: reg_delete_def assoc_reg_end_def arr_at_def)
qed

lemma reg_update_ok:
  assumes inv: "reg_inv r" and cap: "g_cap r \<le> 2 ^ 31" and v: "map_of (reg_list r) key = Some v"
  shows "\<exists>r'. reg_update r key w = Some r' \<and> reg_inv r' \<and>
           reg_list r' = map (\<lambda>e. if fst e = key then (key, w) else e) (reg_list r) \<and>
           g_key_id r' = g_key_id r \<and> g_elm_sz r' = g_elm_sz r"
proof -
  note D = reg_invD [OF inv]
  have key: "0 < key" using reg_list_fresh [OF inv map_of_SomeD [OF v]] by simp
  obtain i where i: "reg_find r key = Some i" "i < g_occ r" "b_has (g_arr r ! i)"
    "b_key (g_arr r ! i) = key"
    using reg_find_ok [OF inv key cap] v by auto
  let ?b = "(g_arr r ! i)\<lparr>b_val := Some w\<rparr>"
  let ?r = "r\<lparr>g_arr := (g_arr r)[i := ?b]\<rparr>"
  let ?pair = "\<lambda>b. (b_key b, the (b_val b))" and ?set = "\<lambda>e. if fst e = key then (key, w) else e"
  have upd: "reg_update r key w = Some ?r"
    using i D(1,4) by (simp add: reg_update_def assoc_reg_end_def arr_at_Some)
  let ?xs = "take (g_occ r) (g_arr r)" and ?ys = "take (g_occ r) ((g_arr r)[i := ?b])"
  have nth: "?ys ! k = (if b_key (?xs ! k) = key then (?xs ! k)\<lparr>b_val := Some w\<rparr> else ?xs ! k)"
    if "k < g_occ r" for k
    using that i reg_key_inject [OF inv, of k i] D(1,4) by (cases "k = i") auto
  have ys: "?ys = map (\<lambda>b. if b_key b = key then b\<lparr>b_val := Some w\<rparr> else b) ?xs"
    by (rule nth_equalityI) (use nth D(1,4) in auto)
  have lv: "live ?r = map (\<lambda>b. if b_key b = key then b\<lparr>b_val := Some w\<rparr> else b) (live r)"
  proof -
    have "filter b_has (map (\<lambda>b. if b_key b = key then b\<lparr>b_val := Some w\<rparr> else b) xs) =
          map (\<lambda>b. if b_key b = key then b\<lparr>b_val := Some w\<rparr> else b) (filter b_has xs)" for xs
      by (induction xs) auto
    then show ?thesis unfolding live_def by (simp add: ys)
  qed
  then have lst: "reg_list ?r = map ?set (reg_list r)"
    by (auto simp: reg_list_def)
  have keys: "map b_key ?ys = map b_key ?xs" unfolding ys by (auto simp: comp_def)
  have "reg_inv ?r"
    unfolding reg_inv_def lv
  proof (intro conjI ballI)
    show "sorted_wrt (<) (map b_key (take (g_occ ?r) (g_arr ?r)))"
      using D(6) keys by simp
    fix b
    assume "b \<in> set (take (g_occ ?r) (g_arr ?r))"
    then have "b \<in> set ?ys" by simp
    then obtain b' where "b' \<in> set ?xs" "b = (if b_key b' = key then b'\<lparr>b_val := Some w\<rparr> else b')"
      unfolding ys by auto
    then show "0 < b_key b" "unat (b_key b) < unat (g_key_id ?r)" "b_has b \<longrightarrow> b_val b \<noteq> None"
      using D(10-12) [of b'] by auto
  qed (use D in simp_all)
  then show ?thesis using upd lst by auto
qed

text \<open>
  The registry keeps the contract of \<open>registry\<close> as long as its counter stays below \<open>2 ^ 30\<close>: its
  capacity then fits the \<^verbatim>\<open>int\<close> of the bisection.
\<close>

definition reg_ok :: "nat \<Rightarrow> 'v assoc_reg \<Rightarrow> bool" where
  "reg_ok elm_sz r \<longleftrightarrow> reg_inv r \<and> g_elm_sz r = elm_sz \<and> unat (g_key_id r) \<le> 2 ^ 30"

lemma reg_ok_cap: "reg_ok n r \<Longrightarrow> reg_inv r \<and> g_cap r \<le> 2 ^ 31"
  using reg_invD(9) [of r] by (auto simp: reg_ok_def max_def split: if_splits)

definition reg_counter :: "'v assoc_reg \<Rightarrow> nat" where
  "reg_counter r = unat (g_key_id r)"

interpretation reg: registry "reg_ok n" reg_list reg_counter "2 ^ 30"
  "\<lambda>r v. assoc_reg_push_back r v n" reg_lookup reg_update reg_delete for n
proof unfold_locales
  fix r :: "'a assoc_reg" and v
  assume "reg_ok n r" "reg_counter r < 2 ^ 30"
  moreover from this have "unat (ucast (g_key_id r) :: u32) = unat (g_key_id r)"
    by (simp add: reg_counter_def unsigned_ucast_eq take_bit_nat_eq_self)
  ultimately show "\<exists>k r'. assoc_reg_push_back r v n = Some (k, r') \<and> reg_ok n r' \<and>
      unat k = reg_counter r \<and> reg_list r' = reg_list r @ [(k, v)] \<and>
      reg_counter r' = Suc (reg_counter r)"
    using assoc_reg_push_back_ok [of r v] by (auto simp: reg_ok_def reg_counter_def)
next
  fix r :: "'a assoc_reg" and k v
  assume "reg_ok n r" "(k, v) \<in> set (reg_list r)"
  then show "0 < k \<and> unat k < reg_counter r"
    using reg_list_fresh [of r k v] by (auto simp: reg_ok_def reg_counter_def)
next
  fix r :: "'a assoc_reg"
  assume "reg_ok n r"
  then show "distinct (map fst (reg_list r))" using reg_list_distinct by (auto simp: reg_ok_def)
next
  fix r :: "'a assoc_reg" and k :: u32
  assume "reg_ok n r" "0 < k"
  then show "reg_lookup r k = Some (map_of (reg_list r) k)"
    using reg_ok_cap reg_lookup_ok by blast
next
  fix r :: "'a assoc_reg" and k v w
  assume "reg_ok n r" "map_of (reg_list r) k = Some v"
  then show "\<exists>r'. reg_update r k w = Some r' \<and> reg_ok n r' \<and>
      reg_list r' = map (\<lambda>e. if fst e = k then (k, w) else e) (reg_list r) \<and>
      reg_counter r' = reg_counter r"
    using reg_update_ok [of r k v w] reg_ok_cap [of n r] by (auto simp: reg_ok_def reg_counter_def)
next
  fix r :: "'a assoc_reg" and k v
  assume "reg_ok n r" "map_of (reg_list r) k = Some v"
  then show "\<exists>r'. reg_delete r k = Some (v, r') \<and> reg_ok n r' \<and>
      reg_list r' = filter (\<lambda>e. fst e \<noteq> k) (reg_list r) \<and> reg_counter r' = reg_counter r"
    using reg_delete_ok [of r k v] reg_ok_cap [of n r] by (auto simp: reg_ok_def reg_counter_def)
qed

section \<open>Removing by predicate\<close>

definition selected :: "('v \<Rightarrow> bool) \<Rightarrow> 'v bucket \<Rightarrow> bool" where
  "selected f b \<longleftrightarrow> b_has b \<and> f (the (b_val b))"

text \<open>The state of the loop after \<open>i\<close> buckets: the collected keys and the array.\<close>

definition removed_keys :: "('v \<Rightarrow> bool) \<Rightarrow> 'v assoc_reg \<Rightarrow> nat \<Rightarrow> byte list list" where
  "removed_keys f r i = map (le_bytes 4 \<circ> b_key) (filter (selected f) (take i (g_arr r)))"

definition cleared :: "('v \<Rightarrow> bool) \<Rightarrow> 'v assoc_reg \<Rightarrow> nat \<Rightarrow> 'v bucket list" where
  "cleared f r i =
     map (\<lambda>b. if selected f b then kill b else b) (take i (g_arr r)) @ drop i (g_arr r)"

definition remove_state :: "('v \<Rightarrow> bool) \<Rightarrow> 'v assoc_reg \<Rightarrow> nat \<Rightarrow> 'v assoc_reg" where
  "remove_state f r i = r\<lparr>g_sz := g_sz r - length (removed_keys f r i), g_arr := cleared f r i\<rparr>"

lemma cleared_Suc:
  assumes "i < length (g_arr r)"
  shows "cleared f r (Suc i) = (cleared f r i)[i := if selected f (g_arr r ! i) then kill (g_arr r ! i) else g_arr r ! i]"
    and "arr_at (cleared f r i) i = Some (g_arr r ! i)"
    and "(cleared f r i)[i := g_arr r ! i] = cleared f r i"
proof -
  show "cleared f r (Suc i) = (cleared f r i)[i := if selected f (g_arr r ! i) then kill (g_arr r ! i) else g_arr r ! i]"
    by (rule nth_equalityI)
      (use assms in \<open>auto simp: cleared_def nth_append nth_list_update less_Suc_eq\<close>)
  show at: "arr_at (cleared f r i) i = Some (g_arr r ! i)"
    using assms by (simp add: arr_at_def cleared_def nth_append)
  show "(cleared f r i)[i := g_arr r ! i] = cleared f r i"
    using at by (auto simp: arr_at_def list_update_same_conv split: if_splits)
qed

lemma removed_keys_Suc:
  "i < length (g_arr r) \<Longrightarrow> removed_keys f r (Suc i) =
     removed_keys f r i @ (if selected f (g_arr r ! i) then [le_bytes 4 (b_key (g_arr r ! i))] else [])"
  by (simp add: removed_keys_def take_filter_Suc)

lemma remove_step:
  assumes inv: "reg_inv r" and i: "i < g_occ r"
    and arr: "arr_rep arr (removed_keys f r i)" "a_elt_size arr = 4"
  shows "\<exists>arr'. (do {
         b \<leftarrow> arr_at (g_arr (remove_state f r i)) i;
         if b_has b then do {
           v \<leftarrow> b_val b;
           if f v then do {
             arr \<leftarrow> seq_arr_push_back arr (le_bytes 4 (b_key b)) 4;
             Some (arr, (remove_state f r i)\<lparr>g_sz := g_sz (remove_state f r i) - 1,
                          g_arr := (g_arr (remove_state f r i))[i := b\<lparr>b_has := False\<rparr>]\<rparr>)
           } else Some (arr, remove_state f r i)
         } else Some (arr, remove_state f r i)
       }) = Some (arr', remove_state f r (Suc i)) \<and> arr_rep arr' (removed_keys f r (Suc i)) \<and>
       a_elt_size arr' = 4"
proof -
  note D = reg_invD [OF inv]
  have il: "i < length (g_arr r)" using i D(1,4) by simp
  note steps = cleared_Suc [OF il, of f] removed_keys_Suc [OF il, of f]
  show ?thesis
  proof (cases "selected f (g_arr r ! i)")
    case True
    then obtain v where v: "b_has (g_arr r ! i)" "b_val (g_arr r ! i) = Some v" "f v"
      using D(12) [OF nth_in_take [OF i]] D(1,4) by (auto simp: selected_def)
    obtain arr' where "seq_arr_push_back arr (le_bytes 4 (b_key (g_arr r ! i))) 4 = Some arr'"
      "arr_rep arr' (removed_keys f r i @ [le_bytes 4 (b_key (g_arr r ! i))])" "a_elt_size arr' = 4"
      using seq_arr_push_back_rep [OF arr(1), of "le_bytes 4 (b_key (g_arr r ! i))"] arr(2) by auto
    with True v steps show ?thesis by (simp add: remove_state_def kill_def)
  next
    case False
    then have "b_has (g_arr r ! i) \<Longrightarrow> \<exists>v. b_val (g_arr r ! i) = Some v \<and> \<not> f v"
      using D(12) [OF nth_in_take [OF i]] D(1,4) by (auto simp: selected_def)
    with False steps arr show ?thesis by (auto simp: remove_state_def)
  qed
qed

lemma remove_state_ok:
  assumes inv: "reg_inv r"
  shows "reg_inv (remove_state f r (g_occ r))"
    and "reg_list (remove_state f r (g_occ r)) = filter (\<lambda>e. \<not> f (snd e)) (reg_list r)"
    and "removed_keys f r (g_occ r) = map (le_bytes 4 \<circ> fst) (filter (\<lambda>e. f (snd e)) (reg_list r))"
proof -
  let ?q = "remove_state f r (g_occ r)"
  note D = reg_invD [OF inv]
  have tk: "take (g_occ r) (cleared f r (g_occ r)) =
      map (\<lambda>b. if selected f b then kill b else b) (take (g_occ r) (g_arr r))"
    using D(1,4) by (simp add: cleared_def)
  have "filter b_has (map (\<lambda>b. if selected f b then kill b else b) xs) =
        filter (\<lambda>b. \<not> selected f b) (filter b_has xs)" for xs
    by (induction xs) auto
  then have lv: "live ?q = filter (\<lambda>b. \<not> selected f b) (live r)"
    by (simp add: live_def tk remove_state_def)
  have sel_live: "filter (selected f) (take (g_occ r) (g_arr r)) = filter (selected f) (live r)"
    by (auto simp: live_def selected_def intro: filter_cong)
  have sz: "g_sz ?q = length (live ?q)"
    unfolding lv using D(5) sum_length_filter_compl [of "selected f" "live r"]
    by (simp add: removed_keys_def sel_live remove_state_def)
  show "reg_inv ?q"
    unfolding reg_inv_def sz
  proof (intro conjI ballI)
    show "sorted_wrt (<) (map b_key (take (g_occ ?q) (g_arr ?q)))"
      using D(6) by (simp add: tk remove_state_def comp_def if_distrib cong: if_cong)
    fix b
    assume "b \<in> set (take (g_occ ?q) (g_arr ?q))"
    then obtain b' where "b' \<in> set (take (g_occ r) (g_arr r))" "b = b' \<or> b = kill b'"
      by (auto simp: tk remove_state_def split: if_splits)
    then show "0 < b_key b" "unat (b_key b) < unat (g_key_id ?q)" "b_has b \<longrightarrow> b_val b \<noteq> None"
      using D(10-12) [of b'] by (auto simp: remove_state_def)
  qed (use D in \<open>auto simp: cleared_def remove_state_def\<close>)
  have "filter (selected f) (live r) = filter (\<lambda>b. f (the (b_val b))) (live r)"
    "filter (\<lambda>b. \<not> selected f b) (live r) = filter (\<lambda>b. \<not> f (the (b_val b))) (live r)"
    by (rule filter_cong; simp add: selected_def live_def)+
  then show "reg_list ?q = filter (\<lambda>e. \<not> f (snd e)) (reg_list r)"
    "removed_keys f r (g_occ r) = map (le_bytes 4 \<circ> fst) (filter (\<lambda>e. f (snd e)) (reg_list r))"
    unfolding reg_list_def lv by (simp_all add: filter_map comp_def sel_live removed_keys_def)
qed

lemma remove_if_range_reg_ok:
  assumes inv: "reg_inv r"
  shows "\<exists>arr r'. remove_if_range_reg r f = Some (arr, r') \<and> reg_inv r' \<and>
           reg_list r' = filter (\<lambda>e. \<not> f (snd e)) (reg_list r) \<and>
           arr_rep arr (map (le_bytes 4 \<circ> fst) (filter (\<lambda>e. f (snd e)) (reg_list r))) \<and>
           g_key_id r' = g_key_id r \<and> g_elm_sz r' = g_elm_sz r"
proof -
  let ?P = "\<lambda>i (arr, q). arr_rep arr (removed_keys f r i) \<and> a_elt_size arr = 4 \<and> q = remove_state f r i"
  let ?body = "\<lambda>i (arr, r). do {
         b \<leftarrow> arr_at (g_arr r) i;
         if b_has b then do {
           v \<leftarrow> b_val b;
           if f v then do {
             arr \<leftarrow> seq_arr_push_back arr (le_bytes 4 (b_key b)) 4;
             Some (arr, r\<lparr>g_sz := g_sz r - 1, g_arr := (g_arr r)[i := b\<lparr>b_has := False\<rparr>]\<rparr>)
           } else Some (arr, r)
         } else Some (arr, r)
       }"
  have "\<exists>s'. for_loop ?body [0..<g_occ r] (seq_arr_init 4, r) = Some s' \<and> ?P (g_occ r) s'"
  proof (rule for_loop_inv [where P = ?P])
    show "?P 0 (seq_arr_init 4, r)"
      using arr_init_rep [of 4]
      by (simp add: removed_keys_def cleared_def remove_state_def) (simp add: seq_arr_init_def)
    fix i s
    assume "i < g_occ r" "?P i s"
    then obtain arr where s: "s = (arr, remove_state f r i)" "arr_rep arr (removed_keys f r i)"
      "a_elt_size arr = 4" by auto
    show "\<exists>s'. ?body i s = Some s' \<and> ?P (Suc i) s'"
      using remove_step [OF inv \<open>i < g_occ r\<close> s(2,3)] unfolding s(1) by auto
  qed simp
  moreover note st = remove_state_ok [OF inv, of f]
  moreover obtain q1 where q1: "compact_if_necessary (remove_state f r (g_occ r)) = Some q1" "reg_inv q1"
    "reg_list q1 = reg_list (remove_state f r (g_occ r))" "g_key_id q1 = g_key_id r" "g_elm_sz q1 = g_elm_sz r"
    using compact_if_necessary_ok [OF st(1)] by (auto simp: remove_state_def)
  moreover obtain q2 where "shrink_if_necessary q1 = Some q2" "reg_inv q2" "reg_list q2 = reg_list q1"
    "g_key_id q2 = g_key_id q1" "g_elm_sz q2 = g_elm_sz q1"
    using shrink_if_necessary_ok [OF q1(2)] by auto
  ultimately show ?thesis by (auto simp: remove_if_range_reg_def)
qed

section \<open>Properties\<close>

text \<open>The unfolding of \<open>reg_ok\<close> for a fresh registry, for the witnesses.\<close>

lemma reg_ok_init: "reg_ok n (assoc_reg_init n)" "reg_counter (assoc_reg_init n) = 1"
  using reg_init_inv(1) [of n] by (simp_all add: reg_ok_def reg_counter_def)
    (simp_all add: assoc_reg_init_def)

text \<open>C29: Pushing a value, with the expansion that drops the dead buckets when the array is full,
  returns the counter as the key; searching that key then finds the value, and every other key
  finds what it found before. The counter, a word of 32 bits, is below \<open>2 ^ 30\<close>.\<close>

theorem assoc_reg_push_back_lookup:
  assumes "reg_ok n r" and "reg_counter r < 2 ^ 30"
  shows "\<exists>k r'. assoc_reg_push_back r v n = Some (k, r') \<and> reg_ok n r' \<and> unat k = reg_counter r \<and>
           reg_lookup r' k = Some (Some v) \<and>
           (\<forall>l. 0 < l \<longrightarrow> l \<noteq> k \<longrightarrow> reg_lookup r' l = reg_lookup r l)"
proof -
  have "0 < reg_counter r"
    using reg_invD(8) [of r] assms(1) by (auto simp: reg_ok_def reg_counter_def)
  from reg.insert_lookup [OF assms this, of v] show ?thesis by blast
qed

theorem assoc_reg_push_back_lookup_witness:
  "\<exists>k r'. assoc_reg_push_back (assoc_reg_init 8) ''v'' 8 = Some (k, r') \<and>
     reg_lookup r' k = Some (Some ''v'')"
  using assoc_reg_push_back_lookup [OF reg_ok_init(1), of 8 "''v''"]
  unfolding reg_ok_init(2) by fastforce

text \<open>C31: Deleting the bucket of a key (searched by bisection, erased up to the next iterator, the array
  compacted and shrunk when few buckets are alive) frees exactly its value; afterwards the key is
  not found and every other key finds what it found before.\<close>

theorem reg_delete_lookup:
  assumes "reg_ok n r" and "reg_lookup r k = Some (Some v)" and "0 < k"
  shows "\<exists>r'. reg_delete r k = Some (v, r') \<and> reg_ok n r' \<and> reg_lookup r' k = Some None \<and>
           (\<forall>l. 0 < l \<longrightarrow> l \<noteq> k \<longrightarrow> reg_lookup r' l = reg_lookup r l)"
proof -
  have "map_of (reg_list r) k = Some v"
    using reg.lookup_law [OF assms(1,3)] assms(2) by simp
  from reg.delete_lookup [OF assms(1) this assms(3)] show ?thesis by blast
qed

text \<open>Over any schedule of insertions and deletions the keys handed out are consecutive counter
  values: no key is given out twice, whatever was erased, compacted or shrunk in between.\<close>

theorem assoc_reg_handles:
  assumes "reg_ok n r" and "reg_counter r + length (inserted ops) \<le> 2 ^ 30"
  shows "\<exists>ks r'. reg_run reg_list (\<lambda>r v. assoc_reg_push_back r v n) reg_delete r ops = Some (ks, r') \<and>
           map unat ks = [reg_counter r..<reg_counter r + length (inserted ops)] \<and> distinct ks"
proof -
  obtain ks r' where run:
    "reg_run reg_list (\<lambda>r v. assoc_reg_push_back r v n) reg_delete r ops = Some (ks, r')"
    "map unat ks = [reg_counter r..<reg_counter r + length (inserted ops)]"
    using reg.run_handles [OF assms] by blast
  moreover have "distinct ks" using run(2) by (metis distinct_map distinct_upt)
  ultimately show ?thesis by blast
qed

theorem assoc_reg_handles_witness:
  "\<exists>ks r'. reg_run reg_list (\<lambda>r v. assoc_reg_push_back r v 4) reg_delete (assoc_reg_init 4)
     [Ins (1::nat), Ins 2, Del 1, Ins 3] = Some (ks, r') \<and> map unat ks = [1..<4]"
proof -
  have n: "1 + length (inserted [Ins (1::nat), Ins 2, Del 1, Ins 3]) = 4" by simp
  from assoc_reg_handles [OF reg_ok_init(1), of 4 "[Ins (1::nat), Ins 2, Del 1, Ins 3]",
      unfolded reg_ok_init(2) n]
  show ?thesis by (auto simp del: reg_run.simps)
qed

text \<open>\<^verbatim>\<open>remove_if_range_reg\<close> removes exactly the entries whose value satisfies the predicate, keeps
  the others in order and returns an array with the keys of the removed ones, four bytes each.\<close>

theorem remove_if_range_reg_refines:
  assumes "reg_inv r"
  shows "\<exists>arr r'. remove_if_range_reg r f = Some (arr, r') \<and> reg_inv r' \<and>
           reg_list r' = filter (\<lambda>e. \<not> f (snd e)) (reg_list r) \<and>
           arr_rep arr (map (le_bytes 4 \<circ> fst) (filter (\<lambda>e. f (snd e)) (reg_list r)))"
  using remove_if_range_reg_ok [OF assms] by blast

text \<open>A registry with one entry.\<close>

definition reg_demo :: "nat assoc_reg" where
  "reg_demo = \<lparr>g_arr = \<lparr>b_key = 1, b_has = True, b_val = Some 7\<rparr> # calloc_buckets 15, g_sz = 1,
     g_cap = 16, g_occ = 1, g_elm_sz = 4, g_key_id = 2\<rparr>"

lemma reg_demo_ok: "reg_ok 4 reg_demo" "reg_list reg_demo = [(1, 7)]"
  using pow_cap_double [OF pow_cap_MIN]
  by (auto simp: reg_ok_def reg_inv_def reg_demo_def reg_list_def live_def calloc_buckets_def MIN_SIZE_def)

theorem reg_delete_lookup_witness:
  "\<exists>r'. reg_delete reg_demo 1 = Some (7, r') \<and> reg_lookup r' 1 = Some None"
  using reg_delete_lookup [OF reg_demo_ok(1), of 1 7]
    reg.lookup_law [OF reg_demo_ok(1), of 1] reg_demo_ok(2) by auto

theorem remove_if_range_reg_refines_witness:
  "\<exists>arr r'. remove_if_range_reg reg_demo (\<lambda>v. v = 7) = Some (arr, r') \<and> reg_list r' = [] \<and>
     arr_rep arr [[1, 0, 0, 0]]"
  using remove_if_range_reg_refines [of reg_demo "\<lambda>v. v = 7"] reg_demo_ok
  by (auto simp: reg_ok_def le_bytes_def upt_rec)

end
