(* ===== verification/Comparator.thy ===== *)
theory Comparator
  imports Prelude "HOL-Library.Product_Lexorder"
begin

text \<open>
  The contract of a three-way comparison function, which the ordered containers of
  \<^verbatim>\<open>util/alg_ds/ds/assoc_container\<close> take as a function pointer: on the keys in use it is
  antisymmetric and transitive, and returns \<open>0\<close> exactly for keys that are the same.
\<close>

definition cmp3 :: "'a::linorder \<Rightarrow> 'a \<Rightarrow> int" where
  "cmp3 a b = (if a < b then - 1 else if a > b then 1 else 0)"

text \<open>Comparing the next field only when the fields before are equal.\<close>

definition then_cmp :: "int \<Rightarrow> int \<Rightarrow> int" where
  "then_cmp rc k = (if rc \<noteq> 0 then rc else k)"

lemma cmp3_simps:
  "cmp3 a b < 0 \<longleftrightarrow> a < b" "cmp3 a b \<le> 0 \<longleftrightarrow> a \<le> b" "cmp3 a b = 0 \<longleftrightarrow> a = b"
  by (auto simp: cmp3_def)

lemma cmp3_anti: "cmp3 b a = - cmp3 a b"
  by (auto simp: cmp3_def)

text \<open>Field by field comparison is the comparison of the lexicographically ordered tuples.\<close>

lemma then_cmp_lex: "then_cmp (cmp3 a b) (cmp3 c d) = cmp3 (a, c) (b, d)"
  by (auto simp: then_cmp_def cmp3_def less_prod_def)

lemma cmp3_trans: "cmp3 a b \<le> 0 \<Longrightarrow> cmp3 b c \<le> 0 \<Longrightarrow> cmp3 a c \<le> 0"
  by (auto simp: cmp3_simps)

locale comparator =
  fixes valid :: "'a \<Rightarrow> bool"
    and cmp :: "'a \<Rightarrow> 'a \<Rightarrow> int"
    and same :: "'a \<Rightarrow> 'a \<Rightarrow> bool"
  assumes anti: "valid x \<Longrightarrow> valid y \<Longrightarrow> cmp y x = - cmp x y"
    and trans_law: "valid x \<Longrightarrow> valid y \<Longrightarrow> valid z \<Longrightarrow> cmp x y \<le> 0 \<Longrightarrow> cmp y z \<le> 0 \<Longrightarrow> cmp x z \<le> 0"
    and zero: "valid x \<Longrightarrow> valid y \<Longrightarrow> cmp x y = 0 \<longleftrightarrow> same x y"
begin

lemma less_trans:
  assumes "valid x" "valid y" "valid z" "cmp x y < 0" "cmp y z \<le> 0"
  shows "cmp x z < 0"
proof (rule ccontr)
  assume "\<not> cmp x z < 0"
  then have "cmp z x \<le> 0" using anti [OF assms(1,3)] by simp
  then have "cmp y x \<le> 0" using trans_law [OF assms(2,3,1,5)] by simp
  then show False using anti [OF assms(1,2)] assms(4) by simp
qed

lemma same_trans:
  assumes "valid x" "valid y" "valid z" "same x y" "same y z"
  shows "same x z"
proof -
  have z: "cmp x y = 0" "cmp y z = 0" "cmp y x = 0" "cmp z y = 0"
    using assms zero anti [OF assms(1,2)] anti [OF assms(2,3)] by auto
  then have "cmp x z \<le> 0" "cmp z x \<le> 0"
    using trans_law [of x y z] trans_law [of z y x] assms by auto
  then show ?thesis using anti [OF assms(1,3)] zero [OF assms(1,3)] by simp
qed

lemma same_cong:
  assumes "valid x" "valid y" "valid z" "same x y"
  shows "cmp x z < 0 \<longleftrightarrow> cmp y z < 0"
proof -
  have "cmp x y = 0" "cmp y x = 0"
    using assms zero anti [OF assms(1,2)] by auto
  then show ?thesis
    using assms less_trans [of x z y] anti [of y x] trans_law [of x y z] trans_law [of y x z]
      zero [of x z] zero [of y z] same_trans [of y x z] same_trans [of x y z] zero [of y x]
    by (metis linorder_le_less_linear nle_le order_le_less)
qed

end

end
