(* ===== verification/E2apTypes.thy ===== *)
theory E2apTypes
  imports Comparator begin

text \<open>
  Identifiers of the E2 application protocol that keys and messages are made of
  (\<^verbatim>\<open>lib/ap/e2ap_types/common\<close>, \<^verbatim>\<open>util/ngran_types.h\<close>, \<^verbatim>\<open>util/compare.h\<close>) with their equality and
  comparison functions. A pointer member that may be \<^verbatim>\<open>NULL\<close> is an \<open>option\<close>; a comparison that
  would dereference \<^verbatim>\<open>NULL\<close> is \<open>None\<close>.
\<close>

section \<open>RIC request identifiers\<close>

record ric_gen_id =
  ric_req_id :: u32
  ric_inst_id :: u16
  ran_func_id :: u16

definition eq_ric_gen_id :: "ric_gen_id \<Rightarrow> ric_gen_id \<Rightarrow> bool" where
  "eq_ric_gen_id m0 m1 \<longleftrightarrow>
     ric_req_id m0 = ric_req_id m1 \<and> ric_inst_id m0 = ric_inst_id m1 \<and> ran_func_id m0 = ran_func_id m1"

text \<open>This one orders downwards.\<close>

definition cmp_ric_gen_id :: "ric_gen_id \<Rightarrow> ric_gen_id \<Rightarrow> int" where
  "cmp_ric_gen_id m0 m1 =
     (if ran_func_id m0 < ran_func_id m1 then 1
      else if ran_func_id m0 > ran_func_id m1 then - 1
      else if ric_inst_id m0 < ric_inst_id m1 then 1
      else if ric_inst_id m0 > ric_inst_id m1 then - 1
      else if ric_req_id m0 < ric_req_id m1 then 1
      else if ric_req_id m0 > ric_req_id m1 then - 1
      else 0)"

section \<open>Scalar keys\<close>

definition eq_fd :: "int \<Rightarrow> int \<Rightarrow> bool option" where
  "eq_fd fd1 fd2 = do {
     c_assert (fd1 > 0);
     c_assert (fd2 > 0);
     Some (fd1 = fd2)
   }"

definition cmp_fd :: "int \<Rightarrow> int \<Rightarrow> int option" where
  "cmp_fd fd1 fd2 = do {
     c_assert (fd1 > 0);
     c_assert (fd2 > 0);
     Some (if fd1 < fd2 then 1 else if fd1 = fd2 then 0 else - 1)
   }"

definition eq_ran_func_id :: "u16 \<Rightarrow> u16 \<Rightarrow> bool" where
  "eq_ran_func_id a b \<longleftrightarrow> a = b"

definition cmp_ran_func_id :: "u16 \<Rightarrow> u16 \<Rightarrow> int" where
  "cmp_ran_func_id a b = (if a < b then 1 else if a = b then 0 else - 1)"

section \<open>PLMN and E2 node identifiers\<close>

record plmn =
  mcc :: u16
  mnc :: u16
  mnc_digit_len :: u8

definition eq_plmn :: "plmn \<Rightarrow> plmn \<Rightarrow> bool" where
  "eq_plmn m0 m1 \<longleftrightarrow> mcc m0 = mcc m1 \<and> mnc m0 = mnc m1 \<and> mnc_digit_len m0 = mnc_digit_len m1"

definition cp_plmn :: "plmn \<Rightarrow> plmn" where
  "cp_plmn src = \<lparr>mcc = mcc src, mnc = mnc src, mnc_digit_len = mnc_digit_len src\<rparr>"

definition cmp_plmn :: "plmn \<Rightarrow> plmn \<Rightarrow> int" where
  "cmp_plmn m0 m1 =
     then_cmp (cmp3 (mcc m0) (mcc m1))
       (then_cmp (cmp3 (mnc m0) (mnc m1)) (cmp3 (mnc_digit_len m0) (mnc_digit_len m1)))"

datatype ngran_node =
    ngran_eNB | ngran_ng_eNB | ngran_gNB | ngran_eNB_CU | ngran_ng_eNB_CU | ngran_gNB_CU
  | ngran_eNB_DU | ngran_gNB_DU | ngran_eNB_MBMS_STA

fun ngran_val :: "ngran_node \<Rightarrow> nat" where
  "ngran_val ngran_eNB = 0"
| "ngran_val ngran_ng_eNB = 1"
| "ngran_val ngran_gNB = 2"
| "ngran_val ngran_eNB_CU = 3"
| "ngran_val ngran_ng_eNB_CU = 4"
| "ngran_val ngran_gNB_CU = 5"
| "ngran_val ngran_eNB_DU = 6"
| "ngran_val ngran_gNB_DU = 7"
| "ngran_val ngran_eNB_MBMS_STA = 8"

text \<open>The enumeration is ordered by its values.\<close>

instantiation ngran_node :: linorder
begin

definition less_eq_ngran_node :: "ngran_node \<Rightarrow> ngran_node \<Rightarrow> bool" where
  "less_eq_ngran_node a b \<longleftrightarrow> ngran_val a \<le> ngran_val b"

definition less_ngran_node :: "ngran_node \<Rightarrow> ngran_node \<Rightarrow> bool" where
  "less_ngran_node a b \<longleftrightarrow> ngran_val a < ngran_val b"

instance
proof
  fix x y z :: ngran_node
  show "x < y \<longleftrightarrow> x \<le> y \<and> \<not> y \<le> x" "x \<le> x" "x \<le> y \<or> y \<le> x"
    by (auto simp: less_eq_ngran_node_def less_ngran_node_def)
  show "x \<le> y \<Longrightarrow> y \<le> z \<Longrightarrow> x \<le> z" by (simp add: less_eq_ngran_node_def)
  show "x \<le> y \<Longrightarrow> y \<le> x \<Longrightarrow> x = y"
    by (cases x; cases y; simp add: less_eq_ngran_node_def)
qed

end

definition NODE_IS_MONOLITHIC :: "ngran_node \<Rightarrow> bool" where
  "NODE_IS_MONOLITHIC t \<longleftrightarrow> t = ngran_eNB \<or> t = ngran_ng_eNB \<or> t = ngran_gNB"

definition NODE_IS_CU :: "ngran_node \<Rightarrow> bool" where
  "NODE_IS_CU t \<longleftrightarrow> t = ngran_eNB_CU \<or> t = ngran_ng_eNB_CU \<or> t = ngran_gNB_CU"

definition NODE_IS_DU :: "ngran_node \<Rightarrow> bool" where
  "NODE_IS_DU t \<longleftrightarrow> t = ngran_eNB_DU \<or> t = ngran_gNB_DU"

record global_e2_node_id =
  n_type :: ngran_node
  n_plmn :: plmn
  n_nb_id :: u32
  n_cu_du_id :: "u64 option"

text \<open>\<open>same\<close> is the test for the same object with which the function starts.\<close>

definition eq_global_e2_node_id :: "bool \<Rightarrow> global_e2_node_id \<Rightarrow> global_e2_node_id \<Rightarrow> bool" where
  "eq_global_e2_node_id same m0 m1 =
     (if same then True
      else if NODE_IS_MONOLITHIC (n_type m0) \<and> NODE_IS_MONOLITHIC (n_type m1) then
        n_type m0 = n_type m1 \<and> eq_plmn (n_plmn m0) (n_plmn m1) \<and> n_nb_id m0 = n_nb_id m1
      else if (NODE_IS_CU (n_type m0) \<or> NODE_IS_DU (n_type m0)) \<and>
              (NODE_IS_CU (n_type m1) \<or> NODE_IS_DU (n_type m1)) then
        (if n_cu_du_id m0 = None \<or> n_cu_du_id m1 = None then False
         else n_type m0 = n_type m1 \<and> eq_plmn (n_plmn m0) (n_plmn m1) \<and>
              n_nb_id m0 = n_nb_id m1 \<and> the (n_cu_du_id m0) = the (n_cu_du_id m1))
      else eq_plmn (n_plmn m0) (n_plmn m1) \<and> n_nb_id m0 = n_nb_id m1)"

text \<open>The copy owns a new cell for \<^verbatim>\<open>cu_du_id\<close>.\<close>

definition cp_global_e2_node_id :: "global_e2_node_id \<Rightarrow> global_e2_node_id" where
  "cp_global_e2_node_id src =
     \<lparr>n_type = n_type src, n_plmn = cp_plmn (n_plmn src), n_nb_id = n_nb_id src,
      n_cu_du_id = (case n_cu_du_id src of None \<Rightarrow> None | Some v \<Rightarrow> Some v)\<rparr>"

definition cmp_global_e2_node_id :: "global_e2_node_id \<Rightarrow> global_e2_node_id \<Rightarrow> int option" where
  "cmp_global_e2_node_id m0 m1 =
     (if NODE_IS_MONOLITHIC (n_type m0) \<and> NODE_IS_MONOLITHIC (n_type m1) then
        Some (then_cmp (cmp3 (n_type m0) (n_type m1))
               (then_cmp (cmp_plmn (n_plmn m0) (n_plmn m1)) (cmp3 (n_nb_id m0) (n_nb_id m1))))
      else if (NODE_IS_CU (n_type m0) \<or> NODE_IS_DU (n_type m0)) \<and>
              (NODE_IS_CU (n_type m1) \<or> NODE_IS_DU (n_type m1)) then
        (let rc = then_cmp (cmp3 (n_type m0) (n_type m1))
                    (then_cmp (cmp_plmn (n_plmn m0) (n_plmn m1)) (cmp3 (n_nb_id m0) (n_nb_id m1)))
         in if rc \<noteq> 0 then Some rc
            else do {
              a \<leftarrow> n_cu_du_id m0;
              b \<leftarrow> n_cu_du_id m1;
              Some (cmp3 a b)
            })
      else Some (then_cmp (cmp_plmn (n_plmn m0) (n_plmn m1)) (cmp3 (n_nb_id m0) (n_nb_id m1))))"

section \<open>The comparison contracts\<close>

lemma cp_id [simp]: "cp_plmn p = p" "cp_global_e2_node_id g = g"
  by (simp_all add: cp_plmn_def cp_global_e2_node_id_def split: option.split)

definition plmn_key :: "plmn \<Rightarrow> u16 \<times> u16 \<times> u8" where
  "plmn_key p = (mcc p, mnc p, mnc_digit_len p)"

lemma cmp_plmn_key: "cmp_plmn a b = cmp3 (plmn_key a) (plmn_key b)"
  by (simp add: cmp_plmn_def plmn_key_def then_cmp_lex)

lemma plmn_key_inject: "plmn_key a = plmn_key b \<longleftrightarrow> a = b"
  by (cases a; cases b) (auto simp: plmn_key_def)

lemma eq_plmn_iff: "eq_plmn a b \<longleftrightarrow> a = b"
  by (cases a; cases b) (auto simp: eq_plmn_def)

interpretation plmn: comparator "\<lambda>_. True" cmp_plmn eq_plmn
  by unfold_locales
    (auto simp: cmp_plmn_key eq_plmn_iff plmn_key_inject cmp3_simps intro: cmp3_anti cmp3_trans)

definition ric_gen_key :: "ric_gen_id \<Rightarrow> u16 \<times> u16 \<times> u32" where
  "ric_gen_key m = (ran_func_id m, ric_inst_id m, ric_req_id m)"

lemma cmp_ric_gen_key: "cmp_ric_gen_id a b = cmp3 (ric_gen_key b) (ric_gen_key a)"
  by (auto simp: cmp_ric_gen_id_def ric_gen_key_def cmp3_def less_prod_def)

interpretation ric_gen: comparator "\<lambda>_. True" cmp_ric_gen_id eq_ric_gen_id
  by unfold_locales
    (auto simp: cmp_ric_gen_key eq_ric_gen_id_def ric_gen_key_def cmp3_simps
      intro: cmp3_anti cmp3_trans)

interpretation fd: comparator "\<lambda>fd. 0 < fd" "\<lambda>a b. the (cmp_fd a b)" "\<lambda>a b. eq_fd a b = Some True"
  by unfold_locales (auto simp: cmp_fd_def eq_fd_def split: if_splits)

interpretation ran_func: comparator "\<lambda>_. True" cmp_ran_func_id eq_ran_func_id
  by unfold_locales (auto simp: cmp_ran_func_id_def eq_ran_func_id_def split: if_splits)

text \<open>Nodes of one class: monolithic ones, or CUs and DUs that have their identifier.\<close>

definition mono_node :: "global_e2_node_id \<Rightarrow> bool" where
  "mono_node m \<longleftrightarrow> NODE_IS_MONOLITHIC (n_type m)"

definition split_node :: "global_e2_node_id \<Rightarrow> bool" where
  "split_node m \<longleftrightarrow> (NODE_IS_CU (n_type m) \<or> NODE_IS_DU (n_type m)) \<and> n_cu_du_id m \<noteq> None"

lemma split_not_mono: "NODE_IS_CU t \<or> NODE_IS_DU t \<Longrightarrow> \<not> NODE_IS_MONOLITHIC t"
  by (auto simp: NODE_IS_CU_def NODE_IS_DU_def NODE_IS_MONOLITHIC_def)

definition node_key :: "global_e2_node_id \<Rightarrow> ngran_node \<times> (u16 \<times> u16 \<times> u8) \<times> u32" where
  "node_key m = (n_type m, plmn_key (n_plmn m), n_nb_id m)"

lemma cmp_mono_key:
  "mono_node a \<Longrightarrow> mono_node b \<Longrightarrow> cmp_global_e2_node_id a b = Some (cmp3 (node_key a) (node_key b))"
  by (simp add: cmp_global_e2_node_id_def mono_node_def node_key_def cmp_plmn_key then_cmp_lex)

lemma cmp_split_key:
  "split_node a \<Longrightarrow> split_node b \<Longrightarrow>
   cmp_global_e2_node_id a b =
     Some (cmp3 (node_key a, the (n_cu_du_id a)) (node_key b, the (n_cu_du_id b)))"
proof -
  assume ab: "split_node a" "split_node b"
  then obtain x y where xy: "n_cu_du_id a = Some x" "n_cu_du_id b = Some y"
    by (auto simp: split_node_def)
  have rc: "then_cmp (cmp3 (n_type a) (n_type b))
      (then_cmp (cmp_plmn (n_plmn a) (n_plmn b)) (cmp3 (n_nb_id a) (n_nb_id b))) =
      cmp3 (node_key a) (node_key b)"
    by (simp add: node_key_def cmp_plmn_key then_cmp_lex)
  show ?thesis
    using ab split_not_mono [of "n_type a"] then_cmp_lex [of "node_key a" "node_key b" x y, symmetric]
    unfolding cmp_global_e2_node_id_def rc
    by (simp add: xy split_node_def then_cmp_def)
qed

lemma eq_mono_key:
  "mono_node a \<Longrightarrow> mono_node b \<Longrightarrow> eq_global_e2_node_id False a b \<longleftrightarrow> node_key a = node_key b"
  by (auto simp: eq_global_e2_node_id_def mono_node_def node_key_def eq_plmn_iff plmn_key_inject)

lemma eq_split_key:
  "split_node a \<Longrightarrow> split_node b \<Longrightarrow> eq_global_e2_node_id False a b \<longleftrightarrow>
     (node_key a, the (n_cu_du_id a)) = (node_key b, the (n_cu_du_id b))"
  using split_not_mono [of "n_type a"]
  by (auto simp: eq_global_e2_node_id_def split_node_def node_key_def eq_plmn_iff plmn_key_inject)

interpretation mono: comparator mono_node "\<lambda>a b. the (cmp_global_e2_node_id a b)"
  "eq_global_e2_node_id False"
  by unfold_locales
    (auto simp: cmp_mono_key eq_mono_key cmp3_simps intro: cmp3_anti cmp3_trans)

interpretation split: comparator split_node "\<lambda>a b. the (cmp_global_e2_node_id a b)"
  "eq_global_e2_node_id False"
  by unfold_locales
    (auto simp: cmp_split_key eq_split_key cmp3_simps intro: cmp3_anti cmp3_trans)

section \<open>Properties\<close>

text \<open>C35: On E2 nodes of one class (all monolithic, or all CUs and DUs with an identifier)
  \<^verbatim>\<open>cmp_global_e2_node_id\<close> returns and is the order that a search tree needs: its result changes
  sign with the arguments, being smaller is transitive, and it is \<open>0\<close> exactly when
  \<^verbatim>\<open>eq_global_e2_node_id\<close> holds, so that equal keys are interchangeable.\<close>

theorem cmp_node_id_order:
  assumes "mono_node a \<and> mono_node b \<and> mono_node c \<or> split_node a \<and> split_node b \<and> split_node c"
  shows "\<exists>ab ba bc ac. cmp_global_e2_node_id a b = Some ab \<and> cmp_global_e2_node_id b a = Some ba \<and>
     cmp_global_e2_node_id b c = Some bc \<and> cmp_global_e2_node_id a c = Some ac \<and> ba = - ab \<and>
     (ab < 0 \<and> bc \<le> 0 \<longrightarrow> ac < 0) \<and> (ab = 0 \<longleftrightarrow> eq_global_e2_node_id False a b)"
  using assms
proof
  assume m: "mono_node a \<and> mono_node b \<and> mono_node c"
  then show ?thesis
    using mono.anti [of a b] mono.less_trans [of a b c] mono.zero [of a b] by (auto simp: cmp_mono_key)
next
  assume m: "split_node a \<and> split_node b \<and> split_node c"
  then show ?thesis
    using split.anti [of a b] split.less_trans [of a b c] split.zero [of a b] by (auto simp: cmp_split_key)
qed

definition node_demo :: "ngran_node \<Rightarrow> u64 option \<Rightarrow> global_e2_node_id" where
  "node_demo t i = \<lparr>n_type = t, n_plmn = \<lparr>mcc = 208, mnc = 95, mnc_digit_len = 2\<rparr>, n_nb_id = 50,
     n_cu_du_id = i\<rparr>"

theorem cmp_node_id_order_witness:
  "\<exists>ab ba. cmp_global_e2_node_id (node_demo ngran_gNB None) (node_demo ngran_eNB None) = Some ab \<and>
     cmp_global_e2_node_id (node_demo ngran_eNB None) (node_demo ngran_gNB None) = Some ba \<and> ba = - ab"
  using cmp_node_id_order [of "node_demo ngran_gNB None" "node_demo ngran_eNB None"
      "node_demo ngran_gNB None"]
  by (auto simp: mono_node_def node_demo_def NODE_IS_MONOLITHIC_def)

text \<open>Across the classes it is no order: a monolithic gNB compares as equal to the CU and to the DU
  with the same PLMN and node identifier, which compare as different from each other. A search
  tree that holds all three loses one of them or finds the wrong one.\<close>

theorem cmp_node_id_not_transitive:
  "\<exists>cu gnb du. split_node cu \<and> mono_node gnb \<and> split_node du \<and>
     cmp_global_e2_node_id cu gnb = Some 0 \<and> cmp_global_e2_node_id gnb du = Some 0 \<and>
     cmp_global_e2_node_id cu du = Some (- 1)"
proof -
  let ?cu = "node_demo ngran_gNB_CU (Some 1)" and ?gnb = "node_demo ngran_gNB None"
    and ?du = "node_demo ngran_gNB_DU (Some 1)"
  have "cmp_global_e2_node_id ?cu ?gnb = Some 0" "cmp_global_e2_node_id ?gnb ?du = Some 0"
    "cmp_global_e2_node_id ?cu ?du = Some (- 1)"
    by (simp_all add: cmp_global_e2_node_id_def node_demo_def NODE_IS_MONOLITHIC_def NODE_IS_CU_def
        NODE_IS_DU_def cmp_plmn_def then_cmp_def cmp3_def less_ngran_node_def)
  moreover have "split_node ?cu" "mono_node ?gnb" "split_node ?du"
    by (simp_all add: split_node_def mono_node_def node_demo_def NODE_IS_MONOLITHIC_def NODE_IS_CU_def
        NODE_IS_DU_def)
  ultimately show ?thesis by blast
qed

end
