(* ===== verification/ActProc.thy ===== *)
theory ActProc
  imports AssocReg E2apTypes begin

text \<open>
  The active procedures of an xApp (\<^verbatim>\<open>xApp/act_proc.c\<close>) and the request identifiers that
  \<^verbatim>\<open>xApp/e42_xapp.c\<close> generates from them: a registry under a mutex, so that every operation is one
  step. The callback of a procedure is of an arbitrary type.
\<close>

datatype act_proc_type = RIC_SUBSCRIPTION_PROCEDURE_ACTIVE | RIC_CONTROL_PROCEDURE_ACTIVE

record 'cb act_proc_val =
  v_type :: act_proc_type
  v_id :: ric_gen_id
  v_sm_cb :: 'cb
  v_e2_node :: global_e2_node_id

text \<open>\<^verbatim>\<open>sizeof(act_proc_val_t)\<close> on the 64 bit target.\<close>

definition act_proc_val_size :: nat where
  "act_proc_val_size = 48"

type_synonym 'cb act_proc = "'cb act_proc_val assoc_reg"

definition init_act_proc :: "'cb act_proc" where
  "init_act_proc = assoc_reg_init act_proc_val_size"

definition valid_proc_type :: "act_proc_type \<Rightarrow> bool" where
  "valid_proc_type t \<longleftrightarrow> t = RIC_SUBSCRIPTION_PROCEDURE_ACTIVE \<or> t = RIC_CONTROL_PROCEDURE_ACTIVE"

definition add_act_proc ::
  "'cb act_proc \<Rightarrow> act_proc_type \<Rightarrow> ric_gen_id \<Rightarrow> global_e2_node_id \<Rightarrow> 'cb \<Rightarrow>
   (u32 \<times> 'cb act_proc) option" where
  "add_act_proc p type ric e2_node sm_cb = do {
     c_assert (valid_proc_type type);
     let val = \<lparr>v_type = type, v_id = ric, v_sm_cb = sm_cb,
                v_e2_node = cp_global_e2_node_id e2_node\<rparr>;
     assoc_reg_push_back p val act_proc_val_size
   }"

text \<open>The identifier is a \<^verbatim>\<open>uint16_t\<close> here and widened to the key.\<close>

definition rm_act_proc :: "'cb act_proc \<Rightarrow> u16 \<Rightarrow> 'cb act_proc option" where
  "rm_act_proc p ric_req = do {
     it \<leftarrow> assoc_reg_front p;
     it \<leftarrow> find_reg p it (assoc_reg_end p) (ucast ric_req);
     c_assert (it \<noteq> assoc_reg_end p);
     nxt \<leftarrow> assoc_reg_next p it;
     (p, freed) \<leftarrow> assoc_reg_erase p it nxt;
     Some p
   }"

text \<open>The answer is \<open>None\<close> for \<^verbatim>\<open>ok = false\<close>. The identifier found is written into the registry too.\<close>

definition find_act_proc ::
  "'cb act_proc \<Rightarrow> u16 \<Rightarrow> ('cb act_proc_val option \<times> 'cb act_proc) option" where
  "find_act_proc p ric_req = do {
     it \<leftarrow> assoc_reg_front p;
     it \<leftarrow> find_reg p it (assoc_reg_end p) (ucast ric_req);
     if it = assoc_reg_end p then Some (None, p)
     else do {
       val \<leftarrow> assoc_reg_value p it;
       let val = val\<lparr>v_id := (v_id val)\<lparr>ric_req_id := ucast ric_req\<rparr>\<rparr>;
       b \<leftarrow> arr_at (g_arr p) it;
       Some (Some val, p\<lparr>g_arr := (g_arr p)[it := b\<lparr>b_val := Some val\<rparr>]\<rparr>)
     }
   }"

text \<open>The service models an xApp knows: MAC, RLC, PDCP, SLICE, TC, KPM and GTP.\<close>

definition valid_ran_func_id :: "u16 \<Rightarrow> bool" where
  "valid_ran_func_id f \<longleftrightarrow>
     f = 145 \<or> f = 142 \<or> f = 143 \<or> f = 144 \<or> f = 146 \<or> f = 148 \<or> f = 147"

definition generate_ric_gen_id ::
  "'cb act_proc \<Rightarrow> act_proc_type \<Rightarrow> u16 \<Rightarrow> global_e2_node_id \<Rightarrow> 'cb \<Rightarrow>
   (ric_gen_id \<times> 'cb act_proc) option" where
  "generate_ric_gen_id p type ran_func node cb = do {
     c_assert (valid_ran_func_id ran_func);
     let ric_req = \<lparr>ric_req_id = 0, ric_inst_id = 0, ran_func_id = ran_func\<rparr>;
     (req_id, p) \<leftarrow> add_act_proc p type ric_req node cb;
     c_assert (unat req_id < 2 ^ 16);
     Some (ric_req\<lparr>ric_req_id := req_id\<rparr>, p)
   }"

section \<open>The operations by the contract of the registry\<close>

lemma rm_act_proc_reg:
  assumes "reg_delete p (ucast k) = Some (v, q)"
  shows "rm_act_proc p k = Some q"
  using assms
  by (auto simp: reg_delete_def rm_act_proc_def reg_find_def bind_eq_Some_conv split: if_splits)

text \<open>The value that \<^verbatim>\<open>find_act_proc\<close> returns.\<close>

definition with_req_id :: "u16 \<Rightarrow> 'cb act_proc_val \<Rightarrow> 'cb act_proc_val" where
  "with_req_id k v = v\<lparr>v_id := (v_id v)\<lparr>ric_req_id := ucast k\<rparr>\<rparr>"

lemma ucast_u16_pos: "0 < (k :: u16) \<Longrightarrow> 0 < (ucast k :: u32)"
  by (simp add: word_less_nat_alt unat_ucast_up)

lemma find_act_proc_reg:
  assumes ok: "reg_ok n p" and k: "0 < k"
  shows "map_of (reg_list p) (ucast k) = None \<Longrightarrow> find_act_proc p k = Some (None, p)"
    and "map_of (reg_list p) (ucast k) = Some v \<Longrightarrow>
      \<exists>q. find_act_proc p k = Some (Some (with_req_id k v), q) \<and>
          reg_update p (ucast k) (with_req_id k v) = Some q"
proof -
  have inv: "reg_inv p" "g_cap p \<le> 2 ^ 31" using reg_ok_cap [OF ok] by auto
  note find = reg_find_ok [OF inv(1) ucast_u16_pos [OF k] inv(2)] and D = reg_invD(1,4) [OF inv(1)]
  have eq: "find_act_proc p k = do {
      it \<leftarrow> reg_find p (ucast k);
      if it = assoc_reg_end p then Some (None, p)
      else do {
        val \<leftarrow> assoc_reg_value p it;
        b \<leftarrow> arr_at (g_arr p) it;
        Some (Some (with_req_id k val), p\<lparr>g_arr := (g_arr p)[it := b\<lparr>b_val := Some (with_req_id k val)\<rparr>]\<rparr>)
      }
    }"
    unfolding find_act_proc_def reg_find_def with_req_id_def Let_def Option.bind_assoc ..
  show "find_act_proc p k = Some (None, p)" if "map_of (reg_list p) (ucast k) = None"
    using find that by (auto simp: eq assoc_reg_end_def)
  show "\<exists>q. find_act_proc p k = Some (Some (with_req_id k v), q) \<and>
          reg_update p (ucast k) (with_req_id k v) = Some q"
    if v: "map_of (reg_list p) (ucast k) = Some v"
  proof -
    obtain i where "reg_find p (ucast k) = Some i" "i < g_occ p" "b_has (g_arr p ! i)"
      "b_val (g_arr p ! i) = Some v"
      using find v by auto
    then show ?thesis
      using D by (simp add: eq reg_update_def assoc_reg_end_def assoc_reg_value_def
          iterator_in_ds_def arr_at_Some)
  qed
qed

definition act_ok :: "'cb act_proc \<Rightarrow> bool" where
  "act_ok p \<longleftrightarrow> reg_ok act_proc_val_size p"

text \<open>The procedures that are active, by request identifier.\<close>

definition active :: "'cb act_proc \<Rightarrow> u16 \<Rightarrow> 'cb act_proc_val option" where
  "active p k = map_option (with_req_id k) (map_of (reg_list p) (ucast k))"

lemma with_req_id_idem [simp]: "with_req_id k (with_req_id k v) = with_req_id k v"
  by (simp add: with_req_id_def)

lemma map_of_map_upd:
  "map_of (map (\<lambda>e. if fst e = k then (k, w) else e) xs) l =
     (if l = k \<and> map_of xs k \<noteq> None then Some w else map_of xs l)"
  by (induction xs) auto

lemma ucast_u16_inject: "(ucast a :: u32) = ucast b \<longleftrightarrow> (a :: u16) = b"
  by (auto simp: word_unat_eq_iff unat_ucast_up)

section \<open>Properties\<close>

text \<open>C32: Adding a procedure returns an identifier that was not in use; as long as fewer than \<open>2 ^ 16\<close>
  identifiers were given out, looking it up by its 16 bit form finds the procedure, with the
  identifier filled in, and every other identifier finds what it found before.\<close>

theorem add_find_act_proc:
  assumes "act_ok p" and "reg_counter p < 2 ^ 16"
  shows "\<exists>k q. add_act_proc p t ric node cb = Some (ucast k, q) \<and> act_ok q \<and> active p k = None \<and>
     (\<exists>q'. find_act_proc q k =
        Some (Some (with_req_id k \<lparr>v_type = t, v_id = ric, v_sm_cb = cb, v_e2_node = node\<rparr>), q')) \<and>
     (\<forall>l. l \<noteq> k \<longrightarrow> active q l = active p l)"
proof -
  let ?v = "\<lparr>v_type = t, v_id = ric, v_sm_cb = cb, v_e2_node = node\<rparr>"
  have ok: "reg_ok act_proc_val_size p" using assms(1) by (simp add: act_ok_def)
  have pos: "0 < reg_counter p"
    using reg_invD(8) [of p] ok by (auto simp: reg_ok_def reg_counter_def)
  obtain h q where add: "assoc_reg_push_back p ?v act_proc_val_size = Some (h, q)"
    "reg_ok act_proc_val_size q" "unat h = reg_counter p" "reg_list q = reg_list p @ [(h, ?v)]"
    using reg.insert_law [OF ok, of ?v] assms(2) by auto
  define k :: u16 where "k = ucast h"
  have hk: "h = ucast k"
    using add(3) assms(2) by (simp add: word_unat_eq_iff unat_ucast_up k_def
        unsigned_take_bit_eq unsigned_ucast_eq take_bit_nat_eq_self)
  have k: "0 < k" using add(3) hk pos by (simp add: word_less_nat_alt unat_ucast_up)
  have none: "map_of (reg_list p) h = None"
    using reg.fresh_law [OF ok] add(3) by (fastforce simp: map_of_eq_None_iff)
  then have "map_of (reg_list q) (ucast k) = Some ?v"
    using add(4) hk by (simp add: map_add_def)
  from find_act_proc_reg(2) [OF add(2) k this]
  have "\<exists>q'. find_act_proc q k = Some (Some (with_req_id k ?v), q')" by auto
  moreover have "active q l = active p l" if "l \<noteq> k" for l
    using that add(4) hk by (simp add: active_def map_add_def ucast_u16_inject split: option.split)
  ultimately show ?thesis
    using add none hk
    by (intro exI [of _ k] exI [of _ q])
      (auto simp: add_act_proc_def valid_proc_type_def act_ok_def active_def intro: act_proc_type.exhaust)
qed

theorem add_find_act_proc_witness:
  "\<exists>k q. add_act_proc init_act_proc RIC_CONTROL_PROCEDURE_ACTIVE
      \<lparr>ric_req_id = 0, ric_inst_id = 0, ran_func_id = 142\<rparr> (node_demo ngran_gNB None) () =
      Some (ucast (k :: u16), q) \<and> act_ok q"
proof -
  have "act_ok (init_act_proc :: unit act_proc)" "reg_counter (init_act_proc :: unit act_proc) < 2 ^ 16"
    by (simp_all add: act_ok_def init_act_proc_def reg_ok_init)
  from add_find_act_proc [OF this, of RIC_CONTROL_PROCEDURE_ACTIVE
      "\<lparr>ric_req_id = 0, ric_inst_id = 0, ran_func_id = 142\<rparr>" "node_demo ngran_gNB None" "()"]
  show ?thesis by auto
qed

text \<open>Removing an active procedure succeeds and removes only that one; finding never changes which
  procedures are active.\<close>

theorem rm_act_proc_active:
  assumes "act_ok p" and "active p k = Some v" and "0 < k"
  shows "\<exists>q q'. rm_act_proc p k = Some q \<and> act_ok q \<and> active q = (active p)(k := None) \<and>
           find_act_proc p k = Some (Some v, q') \<and> act_ok q' \<and> active q' = active p"
proof -
  have ok: "reg_ok act_proc_val_size p" using assms(1) by (simp add: act_ok_def)
  obtain u where u: "map_of (reg_list p) (ucast k) = Some u" "v = with_req_id k u"
    using assms(2) by (auto simp: active_def)
  obtain q where q: "reg_delete p (ucast k) = Some (u, q)" "reg_ok act_proc_val_size q"
    "reg_list q = filter (\<lambda>e. fst e \<noteq> ucast k) (reg_list p)"
    using reg.delete_law [OF ok u(1)] by auto
  have "map_of (filter (\<lambda>e. fst e \<noteq> h) xs) l = (if l = h then None else map_of xs l)"
    for xs :: "(u32 \<times> 'a act_proc_val) list" and l h
    by (induction xs) auto
  then have rm: "active q = (active p)(k := None)"
    using q(3) by (auto simp: active_def ucast_u16_inject)
  obtain q' where q': "find_act_proc p k = Some (Some v, q')"
    "reg_update p (ucast k) v = Some q'"
    using find_act_proc_reg(2) [OF ok assms(3) u(1)] u(2) by auto
  moreover have "reg_ok act_proc_val_size q'"
    "reg_list q' = map (\<lambda>e. if fst e = ucast k then (ucast k, v) else e) (reg_list p)"
    using reg.update_law [OF ok u(1), of v] q'(2) by auto
  moreover from this(2) have "active q' = active p"
    using u by (auto simp: active_def map_of_map_upd ucast_u16_inject)
  ultimately show ?thesis
    using rm_act_proc_reg [OF q(1)] q(2) rm by (auto simp: act_ok_def)
qed

definition act_demo :: "unit act_proc" where
  "act_demo = \<lparr>g_arr = \<lparr>b_key = 1, b_has = True, b_val = Some
       \<lparr>v_type = RIC_SUBSCRIPTION_PROCEDURE_ACTIVE,
        v_id = \<lparr>ric_req_id = 0, ric_inst_id = 0, ran_func_id = 142\<rparr>, v_sm_cb = (),
        v_e2_node = node_demo ngran_gNB None\<rparr>\<rparr> # calloc_buckets 15,
     g_sz = 1, g_cap = 16, g_occ = 1, g_elm_sz = act_proc_val_size, g_key_id = 2\<rparr>"

theorem rm_act_proc_active_witness:
  "\<exists>q. rm_act_proc act_demo 1 = Some q \<and> active q 1 = None"
proof -
  have "act_ok act_demo"
    using pow_cap_double [OF pow_cap_MIN]
    by (simp add: act_ok_def reg_ok_def reg_inv_def act_demo_def live_def calloc_buckets_def MIN_SIZE_def)
  moreover obtain v where "active act_demo 1 = Some v"
    by (simp add: active_def reg_list_def live_def act_demo_def)
  ultimately show ?thesis
    using rm_act_proc_active [of act_demo 1 v] by auto
qed

end
