(* ===== verification/Codec.thy ===== *)
theory Codec
  imports Prelude
begin

text \<open>
  What the plain encoders and decoders of the service models (\<^verbatim>\<open>sm/*_sm/enc\<close>, \<^verbatim>\<open>sm/*_sm/dec\<close>)
  share: byte arrays, reading fields from the object representation of a struct, and the loops
  over arrays of structs. The locale \<open>struct_codec\<close> is the contract of an object representation;
  it is interpreted for every struct that is copied as a whole.
\<close>

section \<open>Byte arrays\<close>

record byte_array =
  ba_len :: nat
  ba_buf :: block

text \<open>The bytes that the receiver gets: the first \<open>len\<close> cells, which must have been written.\<close>

definition payload :: "byte_array \<Rightarrow> byte list option" where
  "payload ba =
     (if ba_len ba \<le> length (ba_buf ba) \<and> None \<notin> set (take (ba_len ba) (ba_buf ba))
      then Some (map the (take (ba_len ba) (ba_buf ba))) else None)"

lemma payload_Some:
  "take n buf = map Some bs \<Longrightarrow> length bs = n \<Longrightarrow> payload \<lparr>ba_len = n, ba_buf = buf\<rparr> = Some bs"
proof -
  assume a: "take n buf = map Some bs" "length bs = n"
  then have "n \<le> length buf" by (metis length_map length_take min.cobounded1)
  with a show ?thesis by (auto simp: payload_def comp_def)
qed

lemma payload_all: "payload \<lparr>ba_len = length bs, ba_buf = map Some bs\<rparr> = Some bs"
  by (rule payload_Some) auto

section \<open>Reading fields\<close>

definition get_le :: "nat \<Rightarrow> byte list \<Rightarrow> 'a::len word \<times> byte list" where
  "get_le n bs = (of_le_bytes (take n bs), drop n bs)"

lemma get_le_append [simp]:
  "LENGTH('a::len) \<le> 8 * n \<Longrightarrow> get_le n (le_bytes n (w :: 'a word) @ rest) = (w, rest)"
  by (simp add: get_le_def)

lemma get_le_single [simp]:
  "LENGTH('a::len) \<le> 8 * n \<Longrightarrow> get_le n (le_bytes n (w :: 'a word)) = (w, [])"
  by (simp add: get_le_def)

text \<open>An array member of \<open>k\<close> words of \<open>n\<close> bytes each.\<close>

definition put_les :: "nat \<Rightarrow> 'a::len word list \<Rightarrow> byte list" where
  "put_les n ws = concat (map (le_bytes n) ws)"

fun get_les :: "nat \<Rightarrow> nat \<Rightarrow> byte list \<Rightarrow> 'a::len word list \<times> byte list" where
  "get_les 0 n bs = ([], bs)"
| "get_les (Suc k) n bs =
     (let (w, bs) = get_le n bs; (ws, bs) = get_les k n bs in (w # ws, bs))"

lemma length_put_les [simp]: "length (put_les n ws) = length ws * n"
  by (induction ws) (auto simp: put_les_def)

lemma get_les_append [simp]:
  "LENGTH('a::len) \<le> 8 * n \<Longrightarrow> length ws = k \<Longrightarrow>
   get_les k n (put_les n (ws :: 'a word list) @ rest) = (ws, rest)"
proof (induction ws arbitrary: k)
  case (Cons w ws)
  then show ?case by (cases k) (auto simp: put_les_def)
qed (simp add: put_les_def)

text \<open>Reading and writing at an offset.\<close>

lemma memcpy_from_prefix:
  "drop off bs = x @ rest \<Longrightarrow> off \<le> length bs \<Longrightarrow> length x = n \<Longrightarrow> memcpy_from bs off n = Some x"
proof -
  assume a: "drop off bs = x @ rest" "off \<le> length bs" "length x = n"
  then have "length bs - off = length (x @ rest)" by (metis length_drop)
  then show ?thesis using a by (auto simp: memcpy_from_def)
qed

lemma drop_prefix:
  "drop off bs = x @ rest \<Longrightarrow> length x = n \<Longrightarrow> drop (off + n) bs = rest"
  by (metis add.commute append_eq_conv_conj drop_drop)

lemma drop_prefix_le:
  "drop off bs = x @ rest \<Longrightarrow> off \<le> length bs \<Longrightarrow> length x = n \<Longrightarrow> off + n \<le> length bs"
  by (metis le_add1 length_append length_drop le_diff_conv2 add.commute)

section \<open>Arrays of structs\<close>

definition write_structs ::
  "('x \<Rightarrow> byte list) \<Rightarrow> nat \<Rightarrow> 'x list \<Rightarrow> nat \<Rightarrow> block \<times> nat \<Rightarrow> (block \<times> nat) option" where
  "write_structs ser sz xs n =
     for_loop (\<lambda>i (buf, ptr). do {
         x \<leftarrow> arr_at xs i;
         buf \<leftarrow> memcpy_to buf ptr (ser x);
         Some (buf, ptr + sz)
       }) [0..<n]"

definition read_structs ::
  "(byte list \<Rightarrow> 'x) \<Rightarrow> nat \<Rightarrow> nat \<Rightarrow> byte list \<Rightarrow> nat \<Rightarrow> ('x list \<times> nat) option" where
  "read_structs de sz n bs ptr =
     for_loop (\<lambda>i (xs, ptr). do {
         b \<leftarrow> memcpy_from bs ptr sz;
         Some (xs @ [de b], ptr + sz)
       }) [0..<n] ([], ptr)"

text \<open>The reader succeeds exactly when the structs are inside of the message.\<close>

lemma read_structs_iff:
  "(\<exists>xs. length xs = n \<and> read_structs de sz n bs ptr = Some (xs, ptr + n * sz)) \<longleftrightarrow>
     n = 0 \<or> ptr + n * sz \<le> length bs"
  "read_structs de sz n bs ptr = None \<longleftrightarrow> \<not> (n = 0 \<or> ptr + n * sz \<le> length bs)"
proof -
  let ?loop = "\<lambda>n. read_structs de sz n bs ptr"
  have step: "?loop (Suc n) = (?loop n \<bind> (\<lambda>(xs, ptr). memcpy_from bs ptr sz \<bind>
      (\<lambda>b. Some (xs @ [de b], ptr + sz))))" for n
    by (simp add: read_structs_def for_loop_append split: Option.bind_splits)
  have main: "if n = 0 \<or> ptr + n * sz \<le> length bs
        then \<exists>xs. length xs = n \<and> ?loop n = Some (xs, ptr + n * sz) else ?loop n = None" for n
  proof (induction n)
    case 0
    then show ?case by (simp add: read_structs_def)
  next
    case (Suc n)
    show ?case
    proof (cases "ptr + Suc n * sz \<le> length bs")
      case True
      then have "ptr + n * sz \<le> length bs" by simp
      with Suc obtain xs where "length xs = n" "?loop n = Some (xs, ptr + n * sz)" by auto
      with True show ?thesis by (simp add: step memcpy_from_def)
    next
      case False
      then show ?thesis
        using Suc by (cases "?loop n") (auto simp: step memcpy_from_def split: if_splits)
    qed
  qed
  show "(\<exists>xs. length xs = n \<and> read_structs de sz n bs ptr = Some (xs, ptr + n * sz)) \<longleftrightarrow>
     n = 0 \<or> ptr + n * sz \<le> length bs"
    "read_structs de sz n bs ptr = None \<longleftrightarrow> \<not> (n = 0 \<or> ptr + n * sz \<le> length bs)"
    using main [of n] by (auto split: if_splits)
qed

lemma write_structs_ptr:
  "write_structs ser sz xs n (buf, ptr) = Some (b, p) \<Longrightarrow> p = ptr + n * sz"
proof (induction n arbitrary: b p)
  case 0
  then show ?case by (simp add: write_structs_def)
next
  case (Suc n)
  then show ?case
    by (auto simp: write_structs_def for_loop_append bind_eq_Some_conv)
qed

text \<open>\<^verbatim>\<open>memcpy(dst, src, sizeof( *dst) * n)\<close> of an array of \<open>n\<close> structs into an array of that size.\<close>

definition copy_array :: "'a list \<Rightarrow> nat \<Rightarrow> 'a list option" where
  "copy_array src n = (if n \<le> length src then Some (take n src) else None)"

lemma copy_array_all [simp]: "n = length xs \<Longrightarrow> copy_array xs n = Some xs"
  by (simp add: copy_array_def)

text \<open>The comparison loops of the information elements: they read both arrays in parallel.\<close>

lemma all_loop_arrays:
  "length xs = n \<Longrightarrow> length ys = n \<Longrightarrow>
   all_loop (\<lambda>i. arr_at xs i \<bind> (\<lambda>x. arr_at ys i \<bind> (\<lambda>y. Some (P x y)))) [0..<n]
     = Some (list_all2 P xs ys)"
  by (subst all_loop_Some [where P = "\<lambda>i. P (xs ! i) (ys ! i)"])
    (auto simp: arr_at_def list_all2_conv_all_nth)

lemma all_loop_arrays_map:
  "length xs = n \<Longrightarrow> length ys = n \<Longrightarrow>
   all_loop (\<lambda>i. arr_at xs i \<bind> (\<lambda>x. arr_at ys i \<bind> (\<lambda>y. Some (f x = f y)))) [0..<n]
     = Some (map f xs = map f ys)"
  using all_loop_arrays [of xs n ys "\<lambda>x y. f x = f y"]
  by (simp add: list_all2_conv_all_nth list_eq_iff_nth_eq)

text \<open>
  The frame of the statistics messages: a count, that many structs and a time stamp. Its decoders
  accept exactly the messages whose length fits the count.
\<close>

definition ser_stats :: "('x \<Rightarrow> byte list) \<Rightarrow> u32 \<Rightarrow> 'x list \<Rightarrow> u64 \<Rightarrow> byte list" where
  "ser_stats ser n xs t = le_bytes 4 n @ concat (map ser xs) @ le_bytes 8 t"

lemma read_stats_None:
  "(read_structs de sz n bs 4 \<bind> (\<lambda>(xs, ptr). memcpy_from bs ptr 8 \<bind>
      (\<lambda>t. if ptr + 8 = length bs then Some (f xs t) else None))) = None \<longleftrightarrow>
   length bs \<noteq> 4 + n * sz + 8"
proof (cases "n = 0 \<or> 4 + n * sz \<le> length bs")
  case True
  then obtain xs where "read_structs de sz n bs 4 = Some (xs, 4 + n * sz)"
    using read_structs_iff(1) [of n de sz bs 4] by auto
  then show ?thesis by (auto simp: memcpy_from_def)
next
  case False
  then have "read_structs de sz n bs 4 = None"
    using read_structs_iff(2) [of de sz n bs 4] by blast
  with False show ?thesis by auto
qed

locale struct_codec =
  fixes ser :: "'x \<Rightarrow> byte list"
    and de :: "byte list \<Rightarrow> 'x"
    and size :: nat
    and wf :: "'x \<Rightarrow> bool"
  assumes len_law: "wf x \<Longrightarrow> length (ser x) = size"
    and de_law: "wf x \<Longrightarrow> de (ser x) = x"
begin

lemma length_sers: "\<forall>x \<in> set xs. wf x \<Longrightarrow> length (concat (map ser xs)) = length xs * size"
  by (induction xs) (auto simp: len_law)

lemma write_ok:
  assumes "n \<le> length xs" and "\<forall>x \<in> set xs. wf x" and "ptr + n * size \<le> length buf"
  shows "write_structs ser size xs n (buf, ptr) =
           Some (written buf ptr (concat (map ser (take n xs))), ptr + n * size)"
proof -
  let ?st = "\<lambda>i. (written buf ptr (concat (map ser (take i xs))), ptr + i * size)"
  let ?f = "\<lambda>i (buf, ptr). arr_at xs i \<bind> (\<lambda>x. memcpy_to buf ptr (ser x) \<bind>
              (\<lambda>buf. Some (buf, ptr + size)))"
  have "for_loop ?f [0..<n] (?st 0) = Some (?st n)"
  proof (rule for_loop_states)
    fix i
    assume i: "i < n"
    have "Suc i * size \<le> n * size" using i by (intro mult_le_mono1) simp
    then have fits: "ptr + i * size + size \<le> length buf" using assms(3) by simp
    have wf: "\<forall>x \<in> set (take i xs). wf x" "wf (xs ! i)"
      using assms(1,2) i by (auto dest: in_set_takeD)
    note len = length_sers [OF wf(1)] len_law [OF wf(2)]
    have lt: "length (take i xs) = i" using assms(1) i by simp
    show "?f i (?st i) = Some (?st (Suc i))"
      using i assms(1) fits len lt
        written_written [of ptr "concat (map ser (take i xs))" buf "ser (xs ! i)"]
      by (simp add: arr_at_def take_Suc_conv_app_nth add.commute add.left_commute)
  qed simp
  then show ?thesis by (simp add: write_structs_def)
qed

lemma read_ok:
  assumes "\<forall>x \<in> set xs. wf x" and "drop ptr bs = concat (map ser xs) @ rest" and "ptr \<le> length bs"
  shows "read_structs de size (length xs) bs ptr = Some (xs, ptr + length xs * size)"
proof -
  let ?st = "\<lambda>i. (take i xs, ptr + i * size)"
  let ?f = "\<lambda>i (xs, ptr). memcpy_from bs ptr size \<bind> (\<lambda>b. Some (xs @ [de b], ptr + size))"
  have "for_loop ?f [0..<length xs] (?st 0) = Some (?st (length xs))"
  proof (rule for_loop_states)
    fix i
    assume i: "i < length xs"
    have xs: "xs = take i xs @ xs ! i # drop (Suc i) xs" using i by (rule id_take_nth_drop)
    have wf: "\<forall>x \<in> set (take i xs). wf x" "wf (xs ! i)"
      using assms(1) i by (auto dest: in_set_takeD)
    have len: "length (concat (map ser (take i xs))) = i * size"
      using length_sers [OF wf(1)] i by simp
    have "concat (map ser xs) = concat (map ser (take i xs)) @ ser (xs ! i) @
        concat (map ser (drop (Suc i) xs))"
      by (subst xs) simp
    then have d: "drop ptr bs = concat (map ser (take i xs)) @ ser (xs ! i) @
        concat (map ser (drop (Suc i) xs)) @ rest"
      using assms(2) by simp
    have "memcpy_from bs (ptr + i * size) size = Some (ser (xs ! i))"
      using drop_prefix [OF d len] drop_prefix_le [OF d assms(3) len] len_law [OF wf(2)]
      by (rule memcpy_from_prefix)
    then show "?f i (?st i) = Some (?st (Suc i))"
      using i de_law [OF wf(2)] by (simp add: take_Suc_conv_app_nth add.commute add.left_commute)
  qed simp
  then show ?thesis by (simp add: read_structs_def)
qed

lemma enc_stats:
  assumes "unat n = length xs" and "\<forall>x \<in> set xs. wf x" and "length buf = 4 + unat n * size + 8"
  shows "\<exists>b1 b2. memcpy_to buf 0 (le_bytes 4 n) = Some b1 \<and>
           write_structs ser size xs (unat n) (b1, 4) = Some (b2, 4 + unat n * size) \<and>
           memcpy_to b2 (4 + unat n * size) (le_bytes 8 t) = Some (map Some (ser_stats ser n xs t))"
proof -
  let ?c = "concat (map ser xs)"
  have len: "length ?c = unat n * size" using length_sers [OF assms(2)] assms(1) by simp
  let ?b1 = "written buf 0 (le_bytes 4 n)"
  let ?b2 = "written ?b1 4 ?c"
  have "write_structs ser size xs (unat n) (?b1, 4) = Some (?b2, 4 + unat n * size)"
    using write_ok [of "unat n" xs 4 ?b1] assms by simp
  moreover have "written ?b2 (4 + unat n * size) (le_bytes 8 t) = map Some (ser_stats ser n xs t)"
    using written_written [of 0 "le_bytes 4 n" buf "?c @ le_bytes 8 t"]
      written_written [of 4 ?c ?b1 "le_bytes 8 t"] assms(3) len
      written_all [of "le_bytes 4 n @ ?c @ le_bytes 8 t" buf]
    by (simp add: ser_stats_def)
  ultimately show ?thesis using assms(3) len by simp
qed

lemma dec_stats:
  fixes t :: u64
  assumes "unat n = length xs" and "\<forall>x \<in> set xs. wf x"
  defines "bs \<equiv> ser_stats ser n xs t"
  shows "memcpy_from bs 0 4 = Some (le_bytes 4 n)"
    and "read_structs de size (unat n) bs 4 = Some (xs, 4 + unat n * size)"
    and "memcpy_from bs (4 + unat n * size) 8 = Some (le_bytes 8 t)"
    and "length bs = 4 + unat n * size + 8"
proof -
  have len: "length (concat (map ser xs)) = unat n * size"
    using length_sers [OF assms(2)] assms(1) by simp
  show "length bs = 4 + unat n * size + 8" using len by (simp add: bs_def ser_stats_def)
  show "memcpy_from bs 0 4 = Some (le_bytes 4 n)"
    by (rule memcpy_from_prefix [where rest = "concat (map ser xs) @ le_bytes 8 t"])
      (simp_all add: bs_def ser_stats_def)
  have d: "drop 4 bs = concat (map ser xs) @ le_bytes 8 t" "4 \<le> length bs"
    by (simp_all add: bs_def ser_stats_def)
  show "read_structs de size (unat n) bs 4 = Some (xs, 4 + unat n * size)"
    using read_ok [OF assms(2) d] assms(1) by simp
  have "drop (4 + unat n * size) bs = le_bytes 8 t @ []" "4 + unat n * size \<le> length bs"
    using drop_prefix [OF d(1) len] drop_prefix_le [OF d len] by simp_all
  then show "memcpy_from bs (4 + unat n * size) 8 = Some (le_bytes 8 t)"
    by (rule memcpy_from_prefix) simp
qed

end

text \<open>Single words, which the one-member structs of the service models are.\<close>

lemma enc_word [simp]:
  "8 * n = LENGTH('a) \<Longrightarrow> n \<le> m \<Longrightarrow>
   \<exists>buf. memcpy_to (c_malloc m) 0 (le_bytes n (w :: 'a::len word)) = Some buf \<and>
         payload \<lparr>ba_len = n, ba_buf = buf\<rparr> = Some (le_bytes n w)"
  by (auto simp: written_def intro: payload_Some)

lemma word_roundtrip:
  assumes "\<And>w. dec (le_bytes n w) = Some w" and "8 * n = LENGTH('a)" and "n \<le> m"
  shows "\<exists>ba. (memcpy_to (c_malloc m) 0 (le_bytes n (w :: 'a::len word)) \<bind>
            (\<lambda>buf. Some \<lparr>ba_len = n, ba_buf = buf\<rparr>)) = Some ba \<and> (payload ba \<bind> dec) = Some w"
  using enc_word [OF assms(2,3), of w] assms(1) by auto

section \<open>Rounding up to a power of two\<close>

text \<open>\<^verbatim>\<open>next_pow2\<close> of the RLC and GTP decoders: the bits of \<open>x - 1\<close> are smeared to the right.\<close>

definition next_pow2 :: "u64 \<Rightarrow> u64" where
  "next_pow2 x =
     (let x = x - 1;
          x = x OR drop_bit 1 x;
          x = x OR drop_bit 2 x;
          x = x OR drop_bit 4 x;
          x = x OR drop_bit 8 x;
          x = x OR drop_bit 16 x;
          x = x OR drop_bit 32 x
      in x + 1)"

text \<open>\<open>y\<close> has a bit wherever \<open>x\<close> has one in the \<open>w\<close> positions from there on.\<close>

definition smeared :: "u64 \<Rightarrow> nat \<Rightarrow> u64 \<Rightarrow> bool" where
  "smeared x w y \<longleftrightarrow> (\<forall>n. bit y n \<longleftrightarrow> (\<exists>j < w. bit x (n + j)))"

lemma smeared_1: "smeared x 1 x"
  by (simp add: smeared_def)

lemma smeared_double:
  assumes "smeared x w y"
  shows "smeared x (2 * w) (y OR drop_bit w y)"
  unfolding smeared_def
proof
  fix n
  have "bit (y OR drop_bit w y) n \<longleftrightarrow> (\<exists>j < w. bit x (n + j)) \<or> (\<exists>j < w. bit x (n + w + j))"
    using assms by (auto simp: bit_or_iff bit_drop_bit_eq smeared_def ac_simps)
  also have "\<dots> \<longleftrightarrow> (\<exists>j < 2 * w. bit x (n + j))"
  proof
    assume "(\<exists>j < w. bit x (n + j)) \<or> (\<exists>j < w. bit x (n + w + j))"
    then show "\<exists>j < 2 * w. bit x (n + j)"
    proof
      assume "\<exists>j < w. bit x (n + w + j)"
      then obtain j where "j < w" "bit x (n + w + j)" by blast
      then show ?thesis by (intro exI [of _ "w + j"]) (simp add: add.assoc)
    qed (metis less_le_trans le_add1 mult_2)
  next
    assume "\<exists>j < 2 * w. bit x (n + j)"
    then obtain j where j: "j < 2 * w" "bit x (n + j)" by blast
    show "(\<exists>j < w. bit x (n + j)) \<or> (\<exists>j < w. bit x (n + w + j))"
    proof (cases "j < w")
      case False
      with j show ?thesis by (intro disjI2 exI [of _ "j - w"]) auto
    qed (use j in blast)
  qed
  finally show "bit (y OR drop_bit w y) n \<longleftrightarrow> (\<exists>j < 2 * w. bit x (n + j))" .
qed

lemma next_pow2_smear: "\<exists>y. next_pow2 x = y + 1 \<and> (\<forall>n. bit y n \<longleftrightarrow> (\<exists>m \<ge> n. bit (x - 1) m))"
proof -
  define y1 where "y1 = (x - 1) OR drop_bit 1 (x - 1)"
  define y2 where "y2 = y1 OR drop_bit 2 y1"
  define y3 where "y3 = y2 OR drop_bit 4 y2"
  define y4 where "y4 = y3 OR drop_bit 8 y3"
  define y5 where "y5 = y4 OR drop_bit 16 y4"
  define y6 where "y6 = y5 OR drop_bit 32 y5"
  have "smeared (x - 1) (2 * (2 * (2 * (2 * (2 * (2 * 1)))))) y6"
    using smeared_double [OF smeared_double [OF smeared_double [OF smeared_double [OF
          smeared_double [OF smeared_double [OF smeared_1 [of "x - 1"]]]]]]]
    by (simp add: y1_def y2_def y3_def y4_def y5_def y6_def)
  then have sm: "bit y6 n \<longleftrightarrow> (\<exists>j < 64. bit (x - 1) (n + j))" for n by (simp add: smeared_def)
  have "(\<exists>j < 64. bit (x - 1) (n + j)) \<longleftrightarrow> (\<exists>m \<ge> n. bit (x - 1) m)" for n
  proof
    assume "\<exists>m \<ge> n. bit (x - 1) m"
    then obtain m where m: "n \<le> m" "bit (x - 1) m" by blast
    then have "m < 64" by (auto dest: bit_imp_le_length)
    with m show "\<exists>j < 64. bit (x - 1) (n + j)" by (intro exI [of _ "m - n"]) auto
  qed (metis le_add1)
  with sm have "\<forall>n. bit y6 n \<longleftrightarrow> (\<exists>m \<ge> n. bit (x - 1) m)" by simp
  moreover have "next_pow2 x = y6 + 1"
    by (simp add: next_pow2_def Let_def y1_def y2_def y3_def y4_def y5_def y6_def)
  ultimately show ?thesis by blast
qed

lemma next_pow2_least:
  assumes x: "0 < x" and k: "unat x \<le> 2 ^ k" "k < 64" and least: "\<And>j. unat x \<le> 2 ^ j \<Longrightarrow> k \<le> j"
  shows "unat (next_pow2 x) = 2 ^ k"
proof -
  obtain y where y: "next_pow2 x = y + 1" "\<And>n. bit y n \<longleftrightarrow> (\<exists>m \<ge> n. bit (x - 1) m)"
    using next_pow2_smear [of x] by blast
  define n where "n = unat (x - 1)"
  have un: "unat x = Suc n"
    using x by (simp add: n_def unat_minus_one word_gt_0 unat_gt_0 Suc_diff_le)
  have bits: "bit (x - 1) m \<longleftrightarrow> odd (n div 2 ^ m)" for m
    by (simp add: n_def bit_unsigned_iff flip: bit_iff_odd)
  have high: "\<not> bit (x - 1) m" if "k \<le> m" for m
  proof -
    have "(2::nat) ^ k \<le> 2 ^ m" using that by (simp add: power_increasing)
    then have "n < 2 ^ m" using k(1) un by linarith
    then show ?thesis by (simp add: bits)
  qed
  have low: "bit (x - 1) (k - 1)" if "0 < k"
  proof -
    have "\<not> unat x \<le> 2 ^ (k - 1)" using least [of "k - 1"] that by auto
    then have "2 ^ (k - 1) \<le> n" "n < 2 * 2 ^ (k - 1)"
      using un k that by (simp_all flip: power_Suc)
    then have "n div 2 ^ (k - 1) = 1" by (simp add: div_nat_eqI)
    then show ?thesis by (simp add: bits)
  qed
  have "y = mask k"
  proof (rule bit_word_eqI)
    fix i
    have "(\<exists>m \<ge> i. bit (x - 1) m) \<longleftrightarrow> i < k"
      using high low by (cases "i < k") (auto intro: exI [of _ "k - 1"] simp: not_less)
    then show "bit y i \<longleftrightarrow> bit (mask k :: u64) i" if "i < LENGTH(64)"
      using that by (simp add: y(2) bit_mask_iff)
  qed
  then have "next_pow2 x = 2 ^ k" using y(1) by (simp add: mask_eq_exp_minus_1)
  moreover have "(2::nat) ^ k < 2 ^ 64" using k(2) by (intro power_strict_increasing) auto
  then have "unat (2 ^ k :: u64) = 2 ^ k"
    using of_nat_inverse [OF refl, of "2 ^ k", where 'a = 64] by simp
  ultimately show ?thesis by simp
qed

text \<open>For the messages here it is at least 16, which the decoders ask for.\<close>

lemma next_pow2_ge:
  assumes "12 \<le> n" and "n \<le> 2 ^ 63"
  shows "16 \<le> unat (next_pow2 (word_of_nat n))"
proof -
  have u: "unat (word_of_nat n :: u64) = n"
    using assms(2) by (intro of_nat_inverse [OF refl]) (simp add: le_less_trans)
  define k where "k = (LEAST k. n \<le> 2 ^ k)"
  have "n \<le> 2 ^ k" unfolding k_def by (rule LeastI [where P = "\<lambda>k. n \<le> 2 ^ k"]) (rule assms(2))
  moreover have least: "k \<le> j" if "n \<le> 2 ^ j" for j
    unfolding k_def using that by (rule Least_le)
  moreover have "k < 64" using least [OF assms(2)] by simp
  moreover have "(0 :: u64) < word_of_nat n"
    using assms(1) u by (simp add: word_less_nat_alt)
  ultimately have p: "unat (next_pow2 (word_of_nat n)) = 2 ^ k"
    using next_pow2_least [of "word_of_nat n" k] u by simp
  have "4 \<le> k"
  proof (rule ccontr)
    assume "\<not> 4 \<le> k"
    then have "(2::nat) ^ k \<le> 2 ^ 3" by (intro power_increasing) auto
    then show False using \<open>n \<le> 2 ^ k\<close> assms(1) by simp
  qed
  then have "(2::nat) ^ 4 \<le> 2 ^ k" by (intro power_increasing) auto
  then show ?thesis using p by simp
qed

end
