(* ===== verification/GtpSm.thy ===== *)
theory GtpSm
  imports Codec
begin

text \<open>
  The GTP service model (\<^verbatim>\<open>sm/gtp_sm\<close>): its information elements
  (\<^verbatim>\<open>ie/gtp_data_ie.c\<close>), their plain encoding (\<^verbatim>\<open>enc/gtp_enc_plain.c\<close>) and decoding
  (\<^verbatim>\<open>dec/gtp_dec_plain.c\<close>). The event trigger, the headers, the call process identifier and the
  control message are structs with one 32 bit member and stand for that word. The functions
  whose body is only an abort ("Not implemented") have no definition.
\<close>

section \<open>Information elements\<close>

text \<open>The counters of one NG-U tunnel, \<^verbatim>\<open>gtp_ngu_t_stats_t\<close>. Its object has 12 bytes. A \<open>pad\<close> field holds padding bytes.\<close>

record gtp_ngu_stats =
  gt_rnti :: u32
  gt_teidgnb :: u32
  gt_qfi :: u8
  gt_teidupf :: u8
  gt_pad0 :: u16

definition gtp_ngu_stats_bytes :: "gtp_ngu_stats \<Rightarrow> byte list" where
  "gtp_ngu_stats_bytes s =
     le_bytes 4 (gt_rnti s) @
     le_bytes 4 (gt_teidgnb s) @
     le_bytes 1 (gt_qfi s) @
     le_bytes 1 (gt_teidupf s) @
     le_bytes 2 (gt_pad0 s)"

definition gtp_ngu_stats_of_bytes :: "byte list \<Rightarrow> gtp_ngu_stats" where
  "gtp_ngu_stats_of_bytes bs =
     (let
        (x0, bs) = get_le 4 bs;
        (x1, bs) = get_le 4 bs;
        (x2, bs) = get_le 1 bs;
        (x3, bs) = get_le 1 bs;
        (x4, bs) = get_le 2 bs
      in \<lparr>gt_rnti = x0, gt_teidgnb = x1, gt_qfi = x2, gt_teidupf = x3
         , gt_pad0 = x4\<rparr>)"

interpretation gt: struct_codec gtp_ngu_stats_bytes gtp_ngu_stats_of_bytes 12 "\<lambda>_. True"
  by unfold_locales (simp_all add: gtp_ngu_stats_bytes_def gtp_ngu_stats_of_bytes_def)

text \<open>\<^verbatim>\<open>gtp_ind_msg_t\<close>, an object of 24 bytes; the array is behind a pointer.\<close>

record gtp_ind_msg =
  gi_len :: u32
  gi_ngut :: "gtp_ngu_stats list"
  gi_tstamp :: u64

definition gtp_ind_msg_wf :: "gtp_ind_msg \<Rightarrow> bool" where
  "gtp_ind_msg_wf m \<longleftrightarrow> unat (gi_len m) = length (gi_ngut m)"

record gtp_ind_data =
  gd_hdr :: u32
  gd_msg :: gtp_ind_msg
  gd_proc_id :: "u32 option"

definition cp_gtp_ind_hdr :: "u32 \<Rightarrow> u32" where
  "cp_gtp_ind_hdr src = src"

definition eq_gtp_ind_hdr :: "u32 \<Rightarrow> u32 \<Rightarrow> bool" where
  "eq_gtp_ind_hdr m0 m1 = (if m0 \<noteq> m1 then False else True)"

definition cp_gtp_call_proc_id :: "u32 \<Rightarrow> u32" where
  "cp_gtp_call_proc_id src = src"

text \<open>The pointers to the call process identifiers may be \<^verbatim>\<open>NULL\<close>.\<close>

definition eq_gtp_call_proc_id :: "u32 option \<Rightarrow> u32 option \<Rightarrow> bool" where
  "eq_gtp_call_proc_id m0 m1 =
     (case (m0, m1) of
        (None, None) \<Rightarrow> True
      | (None, Some _) \<Rightarrow> False
      | (Some _, None) \<Rightarrow> False
      | (Some p0, Some p1) \<Rightarrow> if p0 \<noteq> p1 then False else True)"

definition cp_gtp_ind_msg :: "gtp_ind_msg \<Rightarrow> gtp_ind_msg option" where
  "cp_gtp_ind_msg src = do {
     ngut \<leftarrow> copy_array (gi_ngut src) (unat (gi_len src));
     Some \<lparr>gi_len = gi_len src, gi_ngut = ngut, gi_tstamp = gi_tstamp src\<rparr>
   }"

definition cp_gtp_ind_data :: "gtp_ind_data \<Rightarrow> gtp_ind_data option" where
  "cp_gtp_ind_data src = do {
     msg \<leftarrow> cp_gtp_ind_msg (gd_msg src);
     Some \<lparr>gd_hdr = cp_gtp_ind_hdr (gd_hdr src),
           gd_msg = msg,
           gd_proc_id = map_option cp_gtp_call_proc_id (gd_proc_id src)\<rparr>
   }"

text \<open>The test of one element of \<^verbatim>\<open>eq_gtp_ind_msg\<close>.\<close>

definition gtp_differ :: "gtp_ngu_stats \<Rightarrow> gtp_ngu_stats \<Rightarrow> bool" where
  "gtp_differ rb0 rb1 \<longleftrightarrow>
     gt_rnti rb0 \<noteq> gt_rnti rb1 \<or>
     gt_teidgnb rb0 \<noteq> gt_teidgnb rb1 \<or>
     gt_qfi rb0 \<noteq> gt_qfi rb1 \<or>
     gt_teidupf rb0 \<noteq> gt_teidupf rb1"

definition eq_gtp_ind_msg :: "gtp_ind_msg \<Rightarrow> gtp_ind_msg \<Rightarrow> bool option" where
  "eq_gtp_ind_msg m0 m1 =
     (if gi_tstamp m0 \<noteq> gi_tstamp m1 \<or> gi_len m0 \<noteq> gi_len m1 then Some False
      else all_loop (\<lambda>i. do {
             rb0 \<leftarrow> arr_at (gi_ngut m0) i;
             rb1 \<leftarrow> arr_at (gi_ngut m1) i;
             Some (\<not> gtp_differ rb0 rb1)
           }) [0..<unat (gi_len m0)])"

section \<open>Encoding\<close>

definition gtp_enc_event_trigger_plain :: "u32 \<Rightarrow> byte_array option" where
  "gtp_enc_event_trigger_plain ms = do {
     buf \<leftarrow> memcpy_to (c_malloc 4) 0 (le_bytes 4 ms);
     Some \<lparr>ba_len = 4, ba_buf = buf\<rparr>
   }"

definition gtp_enc_ind_hdr_plain :: "u32 \<Rightarrow> byte_array option" where
  "gtp_enc_ind_hdr_plain hdr = do {
     buf \<leftarrow> memcpy_to (c_malloc 24) 0 (le_bytes 4 hdr);
     Some \<lparr>ba_len = 4, ba_buf = buf\<rparr>
   }"

definition gtp_enc_ind_msg_plain :: "gtp_ind_msg \<Rightarrow> byte_array option" where
  "gtp_enc_ind_msg_plain m = do {
     let sz = 4 + 12 * unat (gi_len m) + 8;
     buf \<leftarrow> memcpy_to (c_malloc sz) 0 (le_bytes 4 (gi_len m));
     (buf, it) \<leftarrow> write_structs gtp_ngu_stats_bytes 12 (gi_ngut m) (unat (gi_len m)) (buf, 4);
     buf \<leftarrow> memcpy_to buf it (le_bytes 8 (gi_tstamp m));
     let it = it + 8;
     c_assert (it = sz);
     Some \<lparr>ba_len = sz, ba_buf = buf\<rparr>
   }"

definition gtp_enc_ctrl_hdr_plain :: "u32 \<Rightarrow> byte_array option" where
  "gtp_enc_ctrl_hdr_plain hdr = do {
     buf \<leftarrow> memcpy_to (c_malloc 24) 0 (le_bytes 4 hdr);
     Some \<lparr>ba_len = 4, ba_buf = buf\<rparr>
   }"

text \<open>The length is taken from the control header; both structs are one word.\<close>

definition gtp_enc_ctrl_msg_plain :: "u32 \<Rightarrow> byte_array option" where
  "gtp_enc_ctrl_msg_plain action = do {
     buf \<leftarrow> memcpy_to (c_malloc 4) 0 (le_bytes 4 action);
     Some \<lparr>ba_len = 4, ba_buf = buf\<rparr>
   }"

section \<open>Decoding\<close>

text \<open>The event trigger is read without a check of the length.\<close>

definition gtp_dec_event_trigger_plain :: "byte list \<Rightarrow> u32 option" where
  "gtp_dec_event_trigger_plain ev_tr = do {
     b \<leftarrow> memcpy_from ev_tr 0 4;
     Some (of_le_bytes b)
   }"

definition gtp_dec_ind_hdr_plain :: "byte list \<Rightarrow> u32 option" where
  "gtp_dec_ind_hdr_plain hdr = do {
     c_assert (length hdr = 4);
     b \<leftarrow> memcpy_from hdr 0 (length hdr);
     Some (of_le_bytes b)
   }"

definition gtp_dec_ind_msg_plain :: "byte list \<Rightarrow> gtp_ind_msg option" where
  "gtp_dec_ind_msg_plain bs = do {
     c_assert (16 \<le> unat (next_pow2 (word_of_nat (length bs))));
     b \<leftarrow> memcpy_from bs 0 4;
     let len = of_le_bytes b;
     (ngut, it) \<leftarrow> read_structs gtp_ngu_stats_of_bytes 12 (unat len) bs 4;
     t \<leftarrow> memcpy_from bs it 8;
     c_assert (it + 8 = length bs);
     Some \<lparr>gi_len = len, gi_ngut = ngut, gi_tstamp = of_le_bytes t\<rparr>
   }"

definition gtp_dec_ctrl_hdr_plain :: "byte list \<Rightarrow> u32 option" where
  "gtp_dec_ctrl_hdr_plain hdr = do {
     c_assert (length hdr = 4);
     b \<leftarrow> memcpy_from hdr 0 (length hdr);
     Some (of_le_bytes b)
   }"

definition gtp_dec_ctrl_msg_plain :: "byte list \<Rightarrow> u32 option" where
  "gtp_dec_ctrl_msg_plain msg = do {
     c_assert (length msg = 4);
     b \<leftarrow> memcpy_from msg 0 (length msg);
     Some (of_le_bytes b)
   }"

section \<open>Properties\<close>

text \<open>The words of the event trigger, the headers and the control message survive the trip.\<close>

lemma gtp_words_roundtrip:
  "\<exists>ba. gtp_enc_event_trigger_plain w = Some ba \<and> (payload ba \<bind> gtp_dec_event_trigger_plain) = Some w"
  "\<exists>ba. gtp_enc_ind_hdr_plain w = Some ba \<and> (payload ba \<bind> gtp_dec_ind_hdr_plain) = Some w"
  "\<exists>ba. gtp_enc_ctrl_hdr_plain w = Some ba \<and> (payload ba \<bind> gtp_dec_ctrl_hdr_plain) = Some w"
  "\<exists>ba. gtp_enc_ctrl_msg_plain w = Some ba \<and> (payload ba \<bind> gtp_dec_ctrl_msg_plain) = Some w"
  unfolding gtp_enc_event_trigger_plain_def gtp_enc_ind_hdr_plain_def gtp_enc_ctrl_hdr_plain_def
    gtp_enc_ctrl_msg_plain_def gtp_dec_event_trigger_plain_def gtp_dec_ind_hdr_plain_def
    gtp_dec_ctrl_hdr_plain_def gtp_dec_ctrl_msg_plain_def
  by (rule word_roundtrip; simp add: memcpy_from_def)+

lemma gtp_enc_ind_msg:
  assumes "gtp_ind_msg_wf m"
  shows "gtp_enc_ind_msg_plain m =
    Some \<lparr>ba_len = 12 + 12 * unat (gi_len m),
          ba_buf = map Some (ser_stats gtp_ngu_stats_bytes (gi_len m) (gi_ngut m) (gi_tstamp m))\<rparr>"
proof -
  let ?n = "unat (gi_len m)"
  have w: "unat (gi_len m) = length (gi_ngut m)" "\<forall>s \<in> set (gi_ngut m). True"
    using assms(1) by (simp_all add: gtp_ind_msg_wf_def)
  obtain b1 b2 where b:
    "memcpy_to (c_malloc (4 + 12 * unat (gi_len m) + 8)) 0 (le_bytes 4 (gi_len m)) = Some b1"
    "write_structs gtp_ngu_stats_bytes 12 (gi_ngut m) ?n (b1, 4) = Some (b2, 4 + ?n * 12)"
    "memcpy_to b2 (4 + ?n * 12) (le_bytes 8 (gi_tstamp m)) =
       Some (map Some (ser_stats gtp_ngu_stats_bytes (gi_len m) (gi_ngut m) (gi_tstamp m)))"
    using gt.enc_stats [OF w, of "c_malloc (4 + 12 * unat (gi_len m) + 8)" "gi_tstamp m"] by (auto simp: mult.commute)
  show ?thesis
    unfolding gtp_enc_ind_msg_plain_def Let_def  b Option.bind.bind_lunit prod.case
    by (simp add: b)
qed

lemma gtp_dec_ind_msg:
  assumes "gtp_ind_msg_wf m"
  shows "gtp_dec_ind_msg_plain (ser_stats gtp_ngu_stats_bytes (gi_len m) (gi_ngut m) (gi_tstamp m)) = Some m"
proof -
  have w: "unat (gi_len m) = length (gi_ngut m)" "\<forall>s \<in> set (gi_ngut m). True"
    using assms by (simp_all add: gtp_ind_msg_wf_def)
  let ?bs = "ser_stats gtp_ngu_stats_bytes (gi_len m) (gi_ngut m) (gi_tstamp m)"
  note d = gt.dec_stats [OF w, of "gi_tstamp m"]
  have "unat (gi_len m) < 2 ^ 32" using unsigned_less [of "gi_len m"] by simp
  then have "12 \<le> length ?bs" "length ?bs \<le> 2 ^ 63" using d(4) by simp_all
  then have p: "16 \<le> unat (next_pow2 (word_of_nat (length ?bs)))" by (rule next_pow2_ge)
  show ?thesis
    by (simp add: gtp_dec_ind_msg_plain_def d(1-3) p) (simp add: d(4))
qed

text \<open>A well-formed indication message of 12 byte structs is encoded into 12 + 12 * n
  bytes, without leaving the buffer, and the decoder gives the same message back.\<close>

lemma gtp_ind_msg_roundtrip:
  assumes "gtp_ind_msg_wf m"
  shows "\<exists>ba bs. gtp_enc_ind_msg_plain m = Some ba \<and> payload ba = Some bs \<and>
           length bs = 12 + 12 * unat (gi_len m) \<and> gtp_dec_ind_msg_plain bs = Some m"
  unfolding gtp_enc_ind_msg [OF assms]
  using gtp_dec_ind_msg [OF assms] gt.dec_stats(4) [of "gi_len m" "gi_ngut m" "gi_tstamp m"]
    assms payload_all [of "ser_stats gtp_ngu_stats_bytes (gi_len m) (gi_ngut m) (gi_tstamp m)"]
  by (simp add: gtp_ind_msg_wf_def mult.commute)

text \<open>The comparison sees every member but not the padding.\<close>

definition gtp_erase_pad :: "gtp_ngu_stats \<Rightarrow> gtp_ngu_stats" where
  "gtp_erase_pad s = s\<lparr>gt_pad0 := 0\<rparr>"

lemma gtp_differ_iff: "gtp_differ x y \<longleftrightarrow> gtp_erase_pad x \<noteq> gtp_erase_pad y"
  by (cases x; cases y) (auto simp: gtp_differ_def gtp_erase_pad_def)

text \<open>\<^verbatim>\<open>eq_gtp_ind_msg\<close> reads inside of both arrays and decides equality of the messages up to the padding
  of the structs.\<close>

lemma eq_gtp_ind_msg_iff:
  assumes "gtp_ind_msg_wf m0" and "gtp_ind_msg_wf m1"
  shows "eq_gtp_ind_msg m0 m1 = Some (gi_len m0 = gi_len m1 \<and> gi_tstamp m0 = gi_tstamp m1 \<and>
           map gtp_erase_pad (gi_ngut m0) = map gtp_erase_pad (gi_ngut m1))"
proof (cases "gi_tstamp m0 \<noteq> gi_tstamp m1 \<or> gi_len m0 \<noteq> gi_len m1")
  case True
  then show ?thesis by (auto simp: eq_gtp_ind_msg_def)
next
  case False
  then have "length (gi_ngut m0) = unat (gi_len m0)" "length (gi_ngut m1) = unat (gi_len m0)"
    using assms by (simp_all add: gtp_ind_msg_wf_def)
  from all_loop_arrays_map [OF this] False show ?thesis
    by (simp add: eq_gtp_ind_msg_def gtp_differ_iff)
qed


end
