(* ===== verification/RlcSm.thy ===== *)
theory RlcSm
  imports Codec
begin

text \<open>
  The RLC service model (\<^verbatim>\<open>sm/rlc_sm\<close>): its information elements
  (\<^verbatim>\<open>ie/rlc_data_ie.c\<close>), their plain encoding (\<^verbatim>\<open>enc/rlc_enc_plain.c\<close>) and decoding
  (\<^verbatim>\<open>dec/rlc_dec_plain.c\<close>). The event trigger, the headers, the call process identifier and the
  control message are structs with one 32 bit member and stand for that word. The functions
  whose body is only an abort ("Not implemented") have no definition.
\<close>

section \<open>Information elements\<close>

text \<open>The counters of one radio bearer, \<^verbatim>\<open>rlc_radio_bearer_stats_t\<close>. Its object has 128 bytes. A \<open>pad\<close> field holds padding bytes.\<close>

record rlc_rb_stats =
  rb_txpdu_pkts :: u32
  rb_txpdu_bytes :: u32
  rb_txpdu_wt_ms :: u32
  rb_txpdu_dd_pkts :: u32
  rb_txpdu_dd_bytes :: u32
  rb_txpdu_retx_pkts :: u32
  rb_txpdu_retx_bytes :: u32
  rb_txpdu_segmented :: u32
  rb_txpdu_status_pkts :: u32
  rb_txpdu_status_bytes :: u32
  rb_txbuf_occ_bytes :: u32
  rb_txbuf_occ_pkts :: u32
  rb_rxpdu_pkts :: u32
  rb_rxpdu_bytes :: u32
  rb_rxpdu_dup_pkts :: u32
  rb_rxpdu_dup_bytes :: u32
  rb_rxpdu_dd_pkts :: u32
  rb_rxpdu_dd_bytes :: u32
  rb_rxpdu_ow_pkts :: u32
  rb_rxpdu_ow_bytes :: u32
  rb_rxpdu_status_pkts :: u32
  rb_rxpdu_status_bytes :: u32
  rb_rxbuf_occ_bytes :: u32
  rb_rxbuf_occ_pkts :: u32
  rb_txsdu_pkts :: u32
  rb_txsdu_bytes :: u32
  rb_rxsdu_pkts :: u32
  rb_rxsdu_bytes :: u32
  rb_rxsdu_dd_pkts :: u32
  rb_rxsdu_dd_bytes :: u32
  rb_rnti :: u32
  rb_mode :: u8
  rb_rbid :: u8
  rb_pad0 :: u16

definition rlc_rb_stats_bytes :: "rlc_rb_stats \<Rightarrow> byte list" where
  "rlc_rb_stats_bytes s =
     le_bytes 4 (rb_txpdu_pkts s) @
     le_bytes 4 (rb_txpdu_bytes s) @
     le_bytes 4 (rb_txpdu_wt_ms s) @
     le_bytes 4 (rb_txpdu_dd_pkts s) @
     le_bytes 4 (rb_txpdu_dd_bytes s) @
     le_bytes 4 (rb_txpdu_retx_pkts s) @
     le_bytes 4 (rb_txpdu_retx_bytes s) @
     le_bytes 4 (rb_txpdu_segmented s) @
     le_bytes 4 (rb_txpdu_status_pkts s) @
     le_bytes 4 (rb_txpdu_status_bytes s) @
     le_bytes 4 (rb_txbuf_occ_bytes s) @
     le_bytes 4 (rb_txbuf_occ_pkts s) @
     le_bytes 4 (rb_rxpdu_pkts s) @
     le_bytes 4 (rb_rxpdu_bytes s) @
     le_bytes 4 (rb_rxpdu_dup_pkts s) @
     le_bytes 4 (rb_rxpdu_dup_bytes s) @
     le_bytes 4 (rb_rxpdu_dd_pkts s) @
     le_bytes 4 (rb_rxpdu_dd_bytes s) @
     le_bytes 4 (rb_rxpdu_ow_pkts s) @
     le_bytes 4 (rb_rxpdu_ow_bytes s) @
     le_bytes 4 (rb_rxpdu_status_pkts s) @
     le_bytes 4 (rb_rxpdu_status_bytes s) @
     le_bytes 4 (rb_rxbuf_occ_bytes s) @
     le_bytes 4 (rb_rxbuf_occ_pkts s) @
     le_bytes 4 (rb_txsdu_pkts s) @
     le_bytes 4 (rb_txsdu_bytes s) @
     le_bytes 4 (rb_rxsdu_pkts s) @
     le_bytes 4 (rb_rxsdu_bytes s) @
     le_bytes 4 (rb_rxsdu_dd_pkts s) @
     le_bytes 4 (rb_rxsdu_dd_bytes s) @
     le_bytes 4 (rb_rnti s) @
     le_bytes 1 (rb_mode s) @
     le_bytes 1 (rb_rbid s) @
     le_bytes 2 (rb_pad0 s)"

definition rlc_rb_stats_of_bytes :: "byte list \<Rightarrow> rlc_rb_stats" where
  "rlc_rb_stats_of_bytes bs =
     (let
        (x0, bs) = get_le 4 bs;
        (x1, bs) = get_le 4 bs;
        (x2, bs) = get_le 4 bs;
        (x3, bs) = get_le 4 bs;
        (x4, bs) = get_le 4 bs;
        (x5, bs) = get_le 4 bs;
        (x6, bs) = get_le 4 bs;
        (x7, bs) = get_le 4 bs;
        (x8, bs) = get_le 4 bs;
        (x9, bs) = get_le 4 bs;
        (x10, bs) = get_le 4 bs;
        (x11, bs) = get_le 4 bs;
        (x12, bs) = get_le 4 bs;
        (x13, bs) = get_le 4 bs;
        (x14, bs) = get_le 4 bs;
        (x15, bs) = get_le 4 bs;
        (x16, bs) = get_le 4 bs;
        (x17, bs) = get_le 4 bs;
        (x18, bs) = get_le 4 bs;
        (x19, bs) = get_le 4 bs;
        (x20, bs) = get_le 4 bs;
        (x21, bs) = get_le 4 bs;
        (x22, bs) = get_le 4 bs;
        (x23, bs) = get_le 4 bs;
        (x24, bs) = get_le 4 bs;
        (x25, bs) = get_le 4 bs;
        (x26, bs) = get_le 4 bs;
        (x27, bs) = get_le 4 bs;
        (x28, bs) = get_le 4 bs;
        (x29, bs) = get_le 4 bs;
        (x30, bs) = get_le 4 bs;
        (x31, bs) = get_le 1 bs;
        (x32, bs) = get_le 1 bs;
        (x33, bs) = get_le 2 bs
      in \<lparr>rb_txpdu_pkts = x0, rb_txpdu_bytes = x1, rb_txpdu_wt_ms = x2, rb_txpdu_dd_pkts = x3
         , rb_txpdu_dd_bytes = x4, rb_txpdu_retx_pkts = x5, rb_txpdu_retx_bytes = x6, rb_txpdu_segmented = x7
         , rb_txpdu_status_pkts = x8, rb_txpdu_status_bytes = x9, rb_txbuf_occ_bytes = x10, rb_txbuf_occ_pkts = x11
         , rb_rxpdu_pkts = x12, rb_rxpdu_bytes = x13, rb_rxpdu_dup_pkts = x14, rb_rxpdu_dup_bytes = x15
         , rb_rxpdu_dd_pkts = x16, rb_rxpdu_dd_bytes = x17, rb_rxpdu_ow_pkts = x18, rb_rxpdu_ow_bytes = x19
         , rb_rxpdu_status_pkts = x20, rb_rxpdu_status_bytes = x21, rb_rxbuf_occ_bytes = x22, rb_rxbuf_occ_pkts = x23
         , rb_txsdu_pkts = x24, rb_txsdu_bytes = x25, rb_rxsdu_pkts = x26, rb_rxsdu_bytes = x27
         , rb_rxsdu_dd_pkts = x28, rb_rxsdu_dd_bytes = x29, rb_rnti = x30, rb_mode = x31
         , rb_rbid = x32, rb_pad0 = x33\<rparr>)"

interpretation rb: struct_codec rlc_rb_stats_bytes rlc_rb_stats_of_bytes 128 "\<lambda>_. True"
  by unfold_locales (simp_all add: rlc_rb_stats_bytes_def rlc_rb_stats_of_bytes_def)

text \<open>\<^verbatim>\<open>rlc_ind_msg_t\<close>, an object of 24 bytes; the array is behind a pointer.\<close>

record rlc_ind_msg =
  ri_len :: u32
  ri_rb :: "rlc_rb_stats list"
  ri_tstamp :: u64

definition rlc_ind_msg_wf :: "rlc_ind_msg \<Rightarrow> bool" where
  "rlc_ind_msg_wf m \<longleftrightarrow> unat (ri_len m) = length (ri_rb m)"

record rlc_ind_data =
  rd_hdr :: u32
  rd_msg :: rlc_ind_msg
  rd_proc_id :: "u32 option"

definition cp_rlc_ind_hdr :: "u32 \<Rightarrow> u32" where
  "cp_rlc_ind_hdr src = src"

definition eq_rlc_ind_hdr :: "u32 \<Rightarrow> u32 \<Rightarrow> bool" where
  "eq_rlc_ind_hdr m0 m1 = (if m0 \<noteq> m1 then False else True)"

definition cp_rlc_call_proc_id :: "u32 \<Rightarrow> u32" where
  "cp_rlc_call_proc_id src = src"

text \<open>The pointers to the call process identifiers may be \<^verbatim>\<open>NULL\<close>.\<close>

definition eq_rlc_call_proc_id :: "u32 option \<Rightarrow> u32 option \<Rightarrow> bool" where
  "eq_rlc_call_proc_id m0 m1 =
     (case (m0, m1) of
        (None, None) \<Rightarrow> True
      | (None, Some _) \<Rightarrow> False
      | (Some _, None) \<Rightarrow> False
      | (Some p0, Some p1) \<Rightarrow> if p0 \<noteq> p1 then False else True)"

definition cp_rlc_ind_msg :: "rlc_ind_msg \<Rightarrow> rlc_ind_msg option" where
  "cp_rlc_ind_msg src = do {
     rb \<leftarrow> copy_array (ri_rb src) (unat (ri_len src));
     Some \<lparr>ri_len = ri_len src, ri_rb = rb, ri_tstamp = ri_tstamp src\<rparr>
   }"

definition cp_rlc_ind_data :: "rlc_ind_data \<Rightarrow> rlc_ind_data option" where
  "cp_rlc_ind_data src = do {
     msg \<leftarrow> cp_rlc_ind_msg (rd_msg src);
     Some \<lparr>rd_hdr = cp_rlc_ind_hdr (rd_hdr src),
           rd_msg = msg,
           rd_proc_id = map_option cp_rlc_call_proc_id (rd_proc_id src)\<rparr>
   }"

text \<open>The test of one element of \<^verbatim>\<open>eq_rlc_ind_msg\<close>.\<close>

definition rlc_differ :: "rlc_rb_stats \<Rightarrow> rlc_rb_stats \<Rightarrow> bool" where
  "rlc_differ rb0 rb1 \<longleftrightarrow>
     rb_txpdu_pkts rb0 \<noteq> rb_txpdu_pkts rb1 \<or>
     rb_txpdu_bytes rb0 \<noteq> rb_txpdu_bytes rb1 \<or>
     rb_txpdu_wt_ms rb0 \<noteq> rb_txpdu_wt_ms rb1 \<or>
     rb_txpdu_dd_pkts rb0 \<noteq> rb_txpdu_dd_pkts rb1 \<or>
     rb_txpdu_dd_bytes rb0 \<noteq> rb_txpdu_dd_bytes rb1 \<or>
     rb_txpdu_retx_pkts rb0 \<noteq> rb_txpdu_retx_pkts rb1 \<or>
     rb_txpdu_retx_bytes rb0 \<noteq> rb_txpdu_retx_bytes rb1 \<or>
     rb_txpdu_segmented rb0 \<noteq> rb_txpdu_segmented rb1 \<or>
     rb_txpdu_status_pkts rb0 \<noteq> rb_txpdu_status_pkts rb1 \<or>
     rb_txpdu_status_bytes rb0 \<noteq> rb_txpdu_status_bytes rb1 \<or>
     rb_txbuf_occ_bytes rb0 \<noteq> rb_txbuf_occ_bytes rb1 \<or>
     rb_txbuf_occ_pkts rb0 \<noteq> rb_txbuf_occ_pkts rb1 \<or>
     rb_rxpdu_pkts rb0 \<noteq> rb_rxpdu_pkts rb1 \<or>
     rb_rxpdu_bytes rb0 \<noteq> rb_rxpdu_bytes rb1 \<or>
     rb_rxpdu_dup_pkts rb0 \<noteq> rb_rxpdu_dup_pkts rb1 \<or>
     rb_rxpdu_dup_bytes rb0 \<noteq> rb_rxpdu_dup_bytes rb1 \<or>
     rb_rxpdu_dd_pkts rb0 \<noteq> rb_rxpdu_dd_pkts rb1 \<or>
     rb_rxpdu_dd_bytes rb0 \<noteq> rb_rxpdu_dd_bytes rb1 \<or>
     rb_rxpdu_ow_pkts rb0 \<noteq> rb_rxpdu_ow_pkts rb1 \<or>
     rb_rxpdu_ow_bytes rb0 \<noteq> rb_rxpdu_ow_bytes rb1 \<or>
     rb_rxpdu_status_pkts rb0 \<noteq> rb_rxpdu_status_pkts rb1 \<or>
     rb_rxpdu_status_bytes rb0 \<noteq> rb_rxpdu_status_bytes rb1 \<or>
     rb_rxbuf_occ_bytes rb0 \<noteq> rb_rxbuf_occ_bytes rb1 \<or>
     rb_rxbuf_occ_pkts rb0 \<noteq> rb_rxbuf_occ_pkts rb1 \<or>
     rb_txsdu_pkts rb0 \<noteq> rb_txsdu_pkts rb1 \<or>
     rb_txsdu_bytes rb0 \<noteq> rb_txsdu_bytes rb1 \<or>
     rb_rxsdu_pkts rb0 \<noteq> rb_rxsdu_pkts rb1 \<or>
     rb_rxsdu_bytes rb0 \<noteq> rb_rxsdu_bytes rb1 \<or>
     rb_rxsdu_dd_pkts rb0 \<noteq> rb_rxsdu_dd_pkts rb1 \<or>
     rb_rxsdu_dd_bytes rb0 \<noteq> rb_rxsdu_dd_bytes rb1 \<or>
     rb_rnti rb0 \<noteq> rb_rnti rb1 \<or>
     rb_mode rb0 \<noteq> rb_mode rb1 \<or>
     rb_rbid rb0 \<noteq> rb_rbid rb1"

definition eq_rlc_ind_msg :: "rlc_ind_msg \<Rightarrow> rlc_ind_msg \<Rightarrow> bool option" where
  "eq_rlc_ind_msg m0 m1 =
     (if ri_tstamp m0 \<noteq> ri_tstamp m1 \<or> ri_len m0 \<noteq> ri_len m1 then Some False
      else all_loop (\<lambda>i. do {
             rb0 \<leftarrow> arr_at (ri_rb m0) i;
             rb1 \<leftarrow> arr_at (ri_rb m1) i;
             Some (\<not> rlc_differ rb0 rb1)
           }) [0..<unat (ri_len m0)])"

section \<open>Encoding\<close>

definition rlc_enc_event_trigger_plain :: "u32 \<Rightarrow> byte_array option" where
  "rlc_enc_event_trigger_plain ms = do {
     buf \<leftarrow> memcpy_to (c_malloc 4) 0 (le_bytes 4 ms);
     Some \<lparr>ba_len = 4, ba_buf = buf\<rparr>
   }"

definition rlc_enc_ind_hdr_plain :: "u32 \<Rightarrow> byte_array option" where
  "rlc_enc_ind_hdr_plain hdr = do {
     buf \<leftarrow> memcpy_to (c_malloc 24) 0 (le_bytes 4 hdr);
     Some \<lparr>ba_len = 4, ba_buf = buf\<rparr>
   }"

definition rlc_enc_ind_msg_plain :: "rlc_ind_msg \<Rightarrow> byte_array option" where
  "rlc_enc_ind_msg_plain m = do {
     let sz = 4 + 128 * unat (ri_len m) + 8;
     buf \<leftarrow> memcpy_to (c_malloc sz) 0 (le_bytes 4 (ri_len m));
     (buf, it) \<leftarrow> write_structs rlc_rb_stats_bytes 128 (ri_rb m) (unat (ri_len m)) (buf, 4);
     buf \<leftarrow> memcpy_to buf it (le_bytes 8 (ri_tstamp m));
     let it = it + 8;
     c_assert (it = sz);
     Some \<lparr>ba_len = sz, ba_buf = buf\<rparr>
   }"

definition rlc_enc_ctrl_hdr_plain :: "u32 \<Rightarrow> byte_array option" where
  "rlc_enc_ctrl_hdr_plain hdr = do {
     buf \<leftarrow> memcpy_to (c_malloc 24) 0 (le_bytes 4 hdr);
     Some \<lparr>ba_len = 4, ba_buf = buf\<rparr>
   }"

text \<open>The length is taken from the control header; both structs are one word.\<close>

definition rlc_enc_ctrl_msg_plain :: "u32 \<Rightarrow> byte_array option" where
  "rlc_enc_ctrl_msg_plain action = do {
     buf \<leftarrow> memcpy_to (c_malloc 4) 0 (le_bytes 4 action);
     Some \<lparr>ba_len = 4, ba_buf = buf\<rparr>
   }"

section \<open>Decoding\<close>

text \<open>The event trigger is read without a check of the length.\<close>

definition rlc_dec_event_trigger_plain :: "byte list \<Rightarrow> u32 option" where
  "rlc_dec_event_trigger_plain ev_tr = do {
     b \<leftarrow> memcpy_from ev_tr 0 4;
     Some (of_le_bytes b)
   }"

definition rlc_dec_ind_hdr_plain :: "byte list \<Rightarrow> u32 option" where
  "rlc_dec_ind_hdr_plain hdr = do {
     c_assert (length hdr = 4);
     b \<leftarrow> memcpy_from hdr 0 (length hdr);
     Some (of_le_bytes b)
   }"

definition rlc_dec_ind_msg_plain :: "byte list \<Rightarrow> rlc_ind_msg option" where
  "rlc_dec_ind_msg_plain bs = do {
     c_assert (16 \<le> unat (next_pow2 (word_of_nat (length bs))));
     b \<leftarrow> memcpy_from bs 0 4;
     let len = of_le_bytes b;
     (rb, it) \<leftarrow> read_structs rlc_rb_stats_of_bytes 128 (unat len) bs 4;
     t \<leftarrow> memcpy_from bs it 8;
     c_assert (it + 8 = length bs);
     Some \<lparr>ri_len = len, ri_rb = rb, ri_tstamp = of_le_bytes t\<rparr>
   }"

definition rlc_dec_ctrl_hdr_plain :: "byte list \<Rightarrow> u32 option" where
  "rlc_dec_ctrl_hdr_plain hdr = do {
     c_assert (length hdr = 4);
     b \<leftarrow> memcpy_from hdr 0 (length hdr);
     Some (of_le_bytes b)
   }"

definition rlc_dec_ctrl_msg_plain :: "byte list \<Rightarrow> u32 option" where
  "rlc_dec_ctrl_msg_plain msg = do {
     c_assert (length msg = 4);
     b \<leftarrow> memcpy_from msg 0 (length msg);
     Some (of_le_bytes b)
   }"

section \<open>Properties\<close>

text \<open>The words of the event trigger, the headers and the control message survive the trip.\<close>

lemma rlc_words_roundtrip:
  "\<exists>ba. rlc_enc_event_trigger_plain w = Some ba \<and> (payload ba \<bind> rlc_dec_event_trigger_plain) = Some w"
  "\<exists>ba. rlc_enc_ind_hdr_plain w = Some ba \<and> (payload ba \<bind> rlc_dec_ind_hdr_plain) = Some w"
  "\<exists>ba. rlc_enc_ctrl_hdr_plain w = Some ba \<and> (payload ba \<bind> rlc_dec_ctrl_hdr_plain) = Some w"
  "\<exists>ba. rlc_enc_ctrl_msg_plain w = Some ba \<and> (payload ba \<bind> rlc_dec_ctrl_msg_plain) = Some w"
  unfolding rlc_enc_event_trigger_plain_def rlc_enc_ind_hdr_plain_def rlc_enc_ctrl_hdr_plain_def
    rlc_enc_ctrl_msg_plain_def rlc_dec_event_trigger_plain_def rlc_dec_ind_hdr_plain_def
    rlc_dec_ctrl_hdr_plain_def rlc_dec_ctrl_msg_plain_def
  by (rule word_roundtrip; simp add: memcpy_from_def)+

lemma rlc_enc_ind_msg:
  assumes "rlc_ind_msg_wf m"
  shows "rlc_enc_ind_msg_plain m =
    Some \<lparr>ba_len = 12 + 128 * unat (ri_len m),
          ba_buf = map Some (ser_stats rlc_rb_stats_bytes (ri_len m) (ri_rb m) (ri_tstamp m))\<rparr>"
proof -
  let ?n = "unat (ri_len m)"
  have w: "unat (ri_len m) = length (ri_rb m)" "\<forall>s \<in> set (ri_rb m). True"
    using assms(1) by (simp_all add: rlc_ind_msg_wf_def)
  obtain b1 b2 where b:
    "memcpy_to (c_malloc (4 + 128 * unat (ri_len m) + 8)) 0 (le_bytes 4 (ri_len m)) = Some b1"
    "write_structs rlc_rb_stats_bytes 128 (ri_rb m) ?n (b1, 4) = Some (b2, 4 + ?n * 128)"
    "memcpy_to b2 (4 + ?n * 128) (le_bytes 8 (ri_tstamp m)) =
       Some (map Some (ser_stats rlc_rb_stats_bytes (ri_len m) (ri_rb m) (ri_tstamp m)))"
    using rb.enc_stats [OF w, of "c_malloc (4 + 128 * unat (ri_len m) + 8)" "ri_tstamp m"] by (auto simp: mult.commute)
  show ?thesis
    unfolding rlc_enc_ind_msg_plain_def Let_def  b Option.bind.bind_lunit prod.case
    by (simp add: b)
qed

lemma rlc_dec_ind_msg:
  assumes "rlc_ind_msg_wf m"
  shows "rlc_dec_ind_msg_plain (ser_stats rlc_rb_stats_bytes (ri_len m) (ri_rb m) (ri_tstamp m)) = Some m"
proof -
  have w: "unat (ri_len m) = length (ri_rb m)" "\<forall>s \<in> set (ri_rb m). True"
    using assms by (simp_all add: rlc_ind_msg_wf_def)
  let ?bs = "ser_stats rlc_rb_stats_bytes (ri_len m) (ri_rb m) (ri_tstamp m)"
  note d = rb.dec_stats [OF w, of "ri_tstamp m"]
  have "unat (ri_len m) < 2 ^ 32" using unsigned_less [of "ri_len m"] by simp
  then have "12 \<le> length ?bs" "length ?bs \<le> 2 ^ 63" using d(4) by simp_all
  then have p: "16 \<le> unat (next_pow2 (word_of_nat (length ?bs)))" by (rule next_pow2_ge)
  show ?thesis
    by (simp add: rlc_dec_ind_msg_plain_def d(1-3) p) (simp add: d(4))
qed

text \<open>C36: A well-formed indication message of 128 byte structs is encoded into 12 + 128 * n
  bytes, without leaving the buffer, and the decoder gives the same message back.\<close>

theorem rlc_ind_msg_roundtrip:
  assumes "rlc_ind_msg_wf m"
  shows "\<exists>ba bs. rlc_enc_ind_msg_plain m = Some ba \<and> payload ba = Some bs \<and>
           length bs = 12 + 128 * unat (ri_len m) \<and> rlc_dec_ind_msg_plain bs = Some m"
  unfolding rlc_enc_ind_msg [OF assms]
  using rlc_dec_ind_msg [OF assms] rb.dec_stats(4) [of "ri_len m" "ri_rb m" "ri_tstamp m"]
    assms payload_all [of "ser_stats rlc_rb_stats_bytes (ri_len m) (ri_rb m) (ri_tstamp m)"]
  by (simp add: rlc_ind_msg_wf_def mult.commute)

lemma rlc_ind_msg_roundtrip_witness:
  "\<exists>ba bs. rlc_enc_ind_msg_plain \<lparr>ri_len = 1, ri_rb = [rlc_rb_stats_of_bytes (replicate 128 7)], ri_tstamp = 99\<rparr> = Some ba \<and>
     payload ba = Some bs \<and> length bs = 140 \<and>
     rlc_dec_ind_msg_plain bs = Some \<lparr>ri_len = 1, ri_rb = [rlc_rb_stats_of_bytes (replicate 128 7)], ri_tstamp = 99\<rparr>"
  using rlc_ind_msg_roundtrip [of "\<lparr>ri_len = 1, ri_rb = [rlc_rb_stats_of_bytes (replicate 128 7)], ri_tstamp = 99\<rparr>"]
  by (simp add: rlc_ind_msg_wf_def)

text \<open>The comparison sees every member but not the padding.\<close>

definition rlc_erase_pad :: "rlc_rb_stats \<Rightarrow> rlc_rb_stats" where
  "rlc_erase_pad s = s\<lparr>rb_pad0 := 0\<rparr>"

lemma rlc_differ_iff: "rlc_differ x y \<longleftrightarrow> rlc_erase_pad x \<noteq> rlc_erase_pad y"
  by (cases x; cases y) (auto simp: rlc_differ_def rlc_erase_pad_def)

text \<open>\<^verbatim>\<open>eq_rlc_ind_msg\<close> reads inside of both arrays and decides equality of the messages up to the padding
  of the structs.\<close>

theorem eq_rlc_ind_msg_iff:
  assumes "rlc_ind_msg_wf m0" and "rlc_ind_msg_wf m1"
  shows "eq_rlc_ind_msg m0 m1 = Some (ri_len m0 = ri_len m1 \<and> ri_tstamp m0 = ri_tstamp m1 \<and>
           map rlc_erase_pad (ri_rb m0) = map rlc_erase_pad (ri_rb m1))"
proof (cases "ri_tstamp m0 \<noteq> ri_tstamp m1 \<or> ri_len m0 \<noteq> ri_len m1")
  case True
  then show ?thesis by (auto simp: eq_rlc_ind_msg_def)
next
  case False
  then have "length (ri_rb m0) = unat (ri_len m0)" "length (ri_rb m1) = unat (ri_len m0)"
    using assms by (simp_all add: rlc_ind_msg_wf_def)
  from all_loop_arrays_map [OF this] False show ?thesis
    by (simp add: eq_rlc_ind_msg_def rlc_differ_iff)
qed


lemma eq_rlc_ind_msg_iff_witness:
  "eq_rlc_ind_msg \<lparr>ri_len = 1, ri_rb = [(rlc_rb_stats_of_bytes (replicate 128 7))\<lparr>rb_pad0 := 1\<rparr>], ri_tstamp = 99\<rparr>
     \<lparr>ri_len = 1, ri_rb = [(rlc_rb_stats_of_bytes (replicate 128 7))\<lparr>rb_pad0 := 2\<rparr>], ri_tstamp = 99\<rparr> = Some True"
  using eq_rlc_ind_msg_iff [of "\<lparr>ri_len = 1, ri_rb = [(rlc_rb_stats_of_bytes (replicate 128 7))\<lparr>rb_pad0 := 1\<rparr>], ri_tstamp = 99\<rparr>"
      "\<lparr>ri_len = 1, ri_rb = [(rlc_rb_stats_of_bytes (replicate 128 7))\<lparr>rb_pad0 := 2\<rparr>], ri_tstamp = 99\<rparr>"]
  by (simp add: rlc_ind_msg_wf_def rlc_erase_pad_def)

end
