(* ===== verification/PdcpSm.thy ===== *)
theory PdcpSm
  imports Codec
begin

text \<open>
  The PDCP service model (\<^verbatim>\<open>sm/pdcp_sm\<close>): its information elements
  (\<^verbatim>\<open>ie/pdcp_data_ie.c\<close>), their plain encoding (\<^verbatim>\<open>enc/pdcp_enc_plain.c\<close>) and decoding
  (\<^verbatim>\<open>dec/pdcp_dec_plain.c\<close>). The event trigger, the headers, the call process identifier and the
  control message are structs with one 32 bit member and stand for that word. The functions
  whose body is only an abort ("Not implemented") have no definition.
\<close>

section \<open>Information elements\<close>

text \<open>The counters of one radio bearer, \<^verbatim>\<open>pdcp_radio_bearer_stats_t\<close>. Its object has 68 bytes. A \<open>pad\<close> field holds padding bytes.\<close>

record pdcp_rb_stats =
  pb_txpdu_pkts :: u32
  pb_txpdu_bytes :: u32
  pb_txpdu_sn :: u32
  pb_rxpdu_pkts :: u32
  pb_rxpdu_bytes :: u32
  pb_rxpdu_sn :: u32
  pb_rxpdu_oo_pkts :: u32
  pb_rxpdu_oo_bytes :: u32
  pb_rxpdu_dd_pkts :: u32
  pb_rxpdu_dd_bytes :: u32
  pb_rxpdu_ro_count :: u32
  pb_txsdu_pkts :: u32
  pb_txsdu_bytes :: u32
  pb_rxsdu_pkts :: u32
  pb_rxsdu_bytes :: u32
  pb_rnti :: u32
  pb_mode :: u8
  pb_rbid :: u8
  pb_pad0 :: u16

definition pdcp_rb_stats_bytes :: "pdcp_rb_stats \<Rightarrow> byte list" where
  "pdcp_rb_stats_bytes s =
     le_bytes 4 (pb_txpdu_pkts s) @
     le_bytes 4 (pb_txpdu_bytes s) @
     le_bytes 4 (pb_txpdu_sn s) @
     le_bytes 4 (pb_rxpdu_pkts s) @
     le_bytes 4 (pb_rxpdu_bytes s) @
     le_bytes 4 (pb_rxpdu_sn s) @
     le_bytes 4 (pb_rxpdu_oo_pkts s) @
     le_bytes 4 (pb_rxpdu_oo_bytes s) @
     le_bytes 4 (pb_rxpdu_dd_pkts s) @
     le_bytes 4 (pb_rxpdu_dd_bytes s) @
     le_bytes 4 (pb_rxpdu_ro_count s) @
     le_bytes 4 (pb_txsdu_pkts s) @
     le_bytes 4 (pb_txsdu_bytes s) @
     le_bytes 4 (pb_rxsdu_pkts s) @
     le_bytes 4 (pb_rxsdu_bytes s) @
     le_bytes 4 (pb_rnti s) @
     le_bytes 1 (pb_mode s) @
     le_bytes 1 (pb_rbid s) @
     le_bytes 2 (pb_pad0 s)"

definition pdcp_rb_stats_of_bytes :: "byte list \<Rightarrow> pdcp_rb_stats" where
  "pdcp_rb_stats_of_bytes bs =
     (let
        (x0, bs) = get_le 4 bs;
        (x1, bs) = get_le 4 bs;
        (x2, bs) = get_le 4 bs;
        (x3, bs) = get_le 4 bs;
        (x4, bs) = get_le 4 bs;
        (x5, bs) = get_le 4 bs;
        (x6, bs) = get_le 4 bs;
        (x7, bs) = get_le 4 bs;
        (x8, bs) = get_le 4 bs;
        (x9, bs) = get_le 4 bs;
        (x10, bs) = get_le 4 bs;
        (x11, bs) = get_le 4 bs;
        (x12, bs) = get_le 4 bs;
        (x13, bs) = get_le 4 bs;
        (x14, bs) = get_le 4 bs;
        (x15, bs) = get_le 4 bs;
        (x16, bs) = get_le 1 bs;
        (x17, bs) = get_le 1 bs;
        (x18, bs) = get_le 2 bs
      in \<lparr>pb_txpdu_pkts = x0, pb_txpdu_bytes = x1, pb_txpdu_sn = x2, pb_rxpdu_pkts = x3
         , pb_rxpdu_bytes = x4, pb_rxpdu_sn = x5, pb_rxpdu_oo_pkts = x6, pb_rxpdu_oo_bytes = x7
         , pb_rxpdu_dd_pkts = x8, pb_rxpdu_dd_bytes = x9, pb_rxpdu_ro_count = x10, pb_txsdu_pkts = x11
         , pb_txsdu_bytes = x12, pb_rxsdu_pkts = x13, pb_rxsdu_bytes = x14, pb_rnti = x15
         , pb_mode = x16, pb_rbid = x17, pb_pad0 = x18\<rparr>)"

interpretation pb: struct_codec pdcp_rb_stats_bytes pdcp_rb_stats_of_bytes 68 "\<lambda>_. True"
  by unfold_locales (simp_all add: pdcp_rb_stats_bytes_def pdcp_rb_stats_of_bytes_def)

text \<open>\<^verbatim>\<open>pdcp_ind_msg_t\<close>, an object of 24 bytes; the array is behind a pointer.\<close>

record pdcp_ind_msg =
  pi_len :: u32
  pi_rb :: "pdcp_rb_stats list"
  pi_tstamp :: u64

definition pdcp_ind_msg_wf :: "pdcp_ind_msg \<Rightarrow> bool" where
  "pdcp_ind_msg_wf m \<longleftrightarrow> unat (pi_len m) = length (pi_rb m)"

record pdcp_ind_data =
  pd_hdr :: u32
  pd_msg :: pdcp_ind_msg
  pd_proc_id :: "u32 option"

definition cp_pdcp_ind_hdr :: "u32 \<Rightarrow> u32" where
  "cp_pdcp_ind_hdr src = src"

definition eq_pdcp_ind_hdr :: "u32 \<Rightarrow> u32 \<Rightarrow> bool" where
  "eq_pdcp_ind_hdr m0 m1 = (if m0 \<noteq> m1 then False else True)"

definition cp_pdcp_call_proc_id :: "u32 \<Rightarrow> u32" where
  "cp_pdcp_call_proc_id src = src"

text \<open>The pointers to the call process identifiers may be \<^verbatim>\<open>NULL\<close>.\<close>

definition eq_pdcp_call_proc_id :: "u32 option \<Rightarrow> u32 option \<Rightarrow> bool" where
  "eq_pdcp_call_proc_id m0 m1 =
     (case (m0, m1) of
        (None, None) \<Rightarrow> True
      | (None, Some _) \<Rightarrow> False
      | (Some _, None) \<Rightarrow> False
      | (Some p0, Some p1) \<Rightarrow> if p0 \<noteq> p1 then False else True)"

text \<open>The invariants of the message; a violated one aborts.\<close>

definition check_pdcp_mode :: "u8 \<Rightarrow> bool option" where
  "check_pdcp_mode mode = do { c_assert (mode = 0 \<or> mode = 1 \<or> mode = 2); Some True }"

definition check_pdcp_rbid :: "u8 \<Rightarrow> bool option" where
  "check_pdcp_rbid rbid = do { c_assert (rbid < 11); Some True }"

definition check_pdcp_bearer :: "pdcp_rb_stats \<Rightarrow> bool option" where
  "check_pdcp_bearer rb = do {
     c_assert (pb_txpdu_pkts rb \<le> pb_txpdu_bytes rb);
     c_assert (pb_rxpdu_pkts rb \<le> pb_rxpdu_bytes rb);
     c_assert (pb_txsdu_pkts rb \<le> pb_txsdu_bytes rb);
     c_assert (pb_rxsdu_pkts rb \<le> pb_rxsdu_bytes rb);
     Some True
   }"

definition check_pdcp_invariants :: "pdcp_ind_msg \<Rightarrow> bool option" where
  "check_pdcp_invariants msg = do {
     _ \<leftarrow> for_loop (\<lambda>i _. do {
            rb \<leftarrow> arr_at (pi_rb msg) i;
            _ \<leftarrow> check_pdcp_mode (pb_mode rb);
            _ \<leftarrow> check_pdcp_rbid (pb_rbid rb);
            _ \<leftarrow> check_pdcp_bearer rb;
            Some ()
          }) [0..<unat (pi_len msg)] ();
     Some True
   }"

definition cp_pdcp_ind_msg :: "pdcp_ind_msg \<Rightarrow> pdcp_ind_msg option" where
  "cp_pdcp_ind_msg src = do {
     ok \<leftarrow> check_pdcp_invariants src;
     c_assert ok;
     rb \<leftarrow> copy_array (pi_rb src) (unat (pi_len src));
     Some \<lparr>pi_len = pi_len src, pi_rb = rb, pi_tstamp = pi_tstamp src\<rparr>
   }"

definition cp_pdcp_ind_data :: "pdcp_ind_data \<Rightarrow> pdcp_ind_data option" where
  "cp_pdcp_ind_data src = do {
     msg \<leftarrow> cp_pdcp_ind_msg (pd_msg src);
     Some \<lparr>pd_hdr = cp_pdcp_ind_hdr (pd_hdr src),
           pd_msg = msg,
           pd_proc_id = map_option cp_pdcp_call_proc_id (pd_proc_id src)\<rparr>
   }"

text \<open>The test of one element of \<^verbatim>\<open>eq_pdcp_ind_msg\<close>.\<close>

definition pdcp_differ :: "pdcp_rb_stats \<Rightarrow> pdcp_rb_stats \<Rightarrow> bool" where
  "pdcp_differ rb0 rb1 \<longleftrightarrow>
     pb_txpdu_pkts rb0 \<noteq> pb_txpdu_pkts rb1 \<or>
     pb_txpdu_bytes rb0 \<noteq> pb_txpdu_bytes rb1 \<or>
     pb_txpdu_sn rb0 \<noteq> pb_txpdu_sn rb1 \<or>
     pb_rxpdu_pkts rb0 \<noteq> pb_rxpdu_pkts rb1 \<or>
     pb_rxpdu_bytes rb0 \<noteq> pb_rxpdu_bytes rb1 \<or>
     pb_rxpdu_sn rb0 \<noteq> pb_rxpdu_sn rb1 \<or>
     pb_rxpdu_oo_pkts rb0 \<noteq> pb_rxpdu_oo_pkts rb1 \<or>
     pb_rxpdu_oo_bytes rb0 \<noteq> pb_rxpdu_oo_bytes rb1 \<or>
     pb_rxpdu_dd_pkts rb0 \<noteq> pb_rxpdu_dd_pkts rb1 \<or>
     pb_rxpdu_dd_bytes rb0 \<noteq> pb_rxpdu_dd_bytes rb1 \<or>
     pb_rxpdu_ro_count rb0 \<noteq> pb_rxpdu_ro_count rb1 \<or>
     pb_txsdu_pkts rb0 \<noteq> pb_txsdu_pkts rb1 \<or>
     pb_txsdu_bytes rb0 \<noteq> pb_txsdu_bytes rb1 \<or>
     pb_rxsdu_pkts rb0 \<noteq> pb_rxsdu_pkts rb1 \<or>
     pb_rxsdu_bytes rb0 \<noteq> pb_rxsdu_bytes rb1 \<or>
     pb_rnti rb0 \<noteq> pb_rnti rb1 \<or>
     pb_mode rb0 \<noteq> pb_mode rb1 \<or>
     pb_rbid rb0 \<noteq> pb_rbid rb1"

text \<open>A difference runs into \<^verbatim>\<open>assert(0 != 0 && "Impossible!")\<close> before the \<^verbatim>\<open>return false\<close>.\<close>

definition eq_pdcp_ind_msg :: "pdcp_ind_msg \<Rightarrow> pdcp_ind_msg \<Rightarrow> bool option" where
  "eq_pdcp_ind_msg m0 m1 = do {
     ok \<leftarrow> check_pdcp_invariants m0;
     c_assert ok;
     ok \<leftarrow> check_pdcp_invariants m1;
     c_assert ok;
     if pi_tstamp m0 \<noteq> pi_tstamp m1 \<or> pi_len m0 \<noteq> pi_len m1
     then do { c_assert False; Some False }
     else all_loop (\<lambda>i. do {
            rb0 \<leftarrow> arr_at (pi_rb m0) i;
            rb1 \<leftarrow> arr_at (pi_rb m1) i;
            if pdcp_differ rb0 rb1 then do { c_assert False; Some False } else Some True
          }) [0..<unat (pi_len m0)]
   }"

definition cp_pdcp_ctrl_msg :: "u32 \<Rightarrow> u32" where
  "cp_pdcp_ctrl_msg src = src"

definition eq_pdcp_ctrl_msg :: "u32 \<Rightarrow> u32 \<Rightarrow> bool" where
  "eq_pdcp_ctrl_msg m0 m1 = (if m0 = m1 then True else False)"

section \<open>The control outcome\<close>

definition pdcp_enc_ctrl_out_plain :: "u32 \<Rightarrow> byte_array option" where
  "pdcp_enc_ctrl_out_plain ans = do {
     buf \<leftarrow> memcpy_to (c_malloc 4) 0 (le_bytes 4 ans);
     Some \<lparr>ba_len = 4, ba_buf = buf\<rparr>
   }"

definition pdcp_dec_ctrl_out_plain :: "byte list \<Rightarrow> u32 option" where
  "pdcp_dec_ctrl_out_plain out = do {
     c_assert (0 < length out);
     c_assert (length out = 4);
     b \<leftarrow> memcpy_from out 0 (length out);
     Some (of_le_bytes b)
   }"

lemma pdcp_ctrl_out_roundtrip:
  "\<exists>ba. pdcp_enc_ctrl_out_plain w = Some ba \<and> (payload ba \<bind> pdcp_dec_ctrl_out_plain) = Some w"
  unfolding pdcp_enc_ctrl_out_plain_def pdcp_dec_ctrl_out_plain_def
  by (rule word_roundtrip; simp add: memcpy_from_def)

section \<open>Encoding\<close>

definition pdcp_enc_event_trigger_plain :: "u32 \<Rightarrow> byte_array option" where
  "pdcp_enc_event_trigger_plain ms = do {
     buf \<leftarrow> memcpy_to (c_malloc 4) 0 (le_bytes 4 ms);
     Some \<lparr>ba_len = 4, ba_buf = buf\<rparr>
   }"

definition pdcp_enc_ind_hdr_plain :: "u32 \<Rightarrow> byte_array option" where
  "pdcp_enc_ind_hdr_plain hdr = do {
     buf \<leftarrow> memcpy_to (c_malloc 24) 0 (le_bytes 4 hdr);
     Some \<lparr>ba_len = 4, ba_buf = buf\<rparr>
   }"

definition pdcp_enc_ind_msg_plain :: "pdcp_ind_msg \<Rightarrow> byte_array option" where
  "pdcp_enc_ind_msg_plain m = do {
     let sz = 4 + 8 + 68 * unat (pi_len m);
     buf \<leftarrow> memcpy_to (c_malloc sz) 0 (le_bytes 4 (pi_len m));
     (buf, it) \<leftarrow> write_structs pdcp_rb_stats_bytes 68 (pi_rb m) (unat (pi_len m)) (buf, 4);
     buf \<leftarrow> memcpy_to buf it (le_bytes 8 (pi_tstamp m));
     let it = it + 8;
     c_assert (it = sz);
     Some \<lparr>ba_len = sz, ba_buf = buf\<rparr>
   }"

definition pdcp_enc_ctrl_hdr_plain :: "u32 \<Rightarrow> byte_array option" where
  "pdcp_enc_ctrl_hdr_plain hdr = do {
     buf \<leftarrow> memcpy_to (c_malloc 24) 0 (le_bytes 4 hdr);
     Some \<lparr>ba_len = 4, ba_buf = buf\<rparr>
   }"

text \<open>The length is taken from the control header; both structs are one word.\<close>

definition pdcp_enc_ctrl_msg_plain :: "u32 \<Rightarrow> byte_array option" where
  "pdcp_enc_ctrl_msg_plain action = do {
     buf \<leftarrow> memcpy_to (c_malloc 4) 0 (le_bytes 4 action);
     Some \<lparr>ba_len = 4, ba_buf = buf\<rparr>
   }"

section \<open>Decoding\<close>

text \<open>The event trigger is read without a check of the length.\<close>

definition pdcp_dec_event_trigger_plain :: "byte list \<Rightarrow> u32 option" where
  "pdcp_dec_event_trigger_plain ev_tr = do {
     b \<leftarrow> memcpy_from ev_tr 0 4;
     Some (of_le_bytes b)
   }"

definition pdcp_dec_ind_hdr_plain :: "byte list \<Rightarrow> u32 option" where
  "pdcp_dec_ind_hdr_plain hdr = do {
     c_assert (length hdr = 4);
     b \<leftarrow> memcpy_from hdr 0 (length hdr);
     Some (of_le_bytes b)
   }"

definition pdcp_dec_ind_msg_plain :: "byte list \<Rightarrow> pdcp_ind_msg option" where
  "pdcp_dec_ind_msg_plain bs = do {
     c_assert (4 + 8 \<le> length bs);
     b \<leftarrow> memcpy_from bs 0 4;
     let len = of_le_bytes b;
     (rb, it) \<leftarrow> read_structs pdcp_rb_stats_of_bytes 68 (unat len) bs 4;
     t \<leftarrow> memcpy_from bs it 8;
     c_assert (it + 8 = length bs);
     Some \<lparr>pi_len = len, pi_rb = rb, pi_tstamp = of_le_bytes t\<rparr>
   }"

definition pdcp_dec_ctrl_hdr_plain :: "byte list \<Rightarrow> u32 option" where
  "pdcp_dec_ctrl_hdr_plain hdr = do {
     c_assert (length hdr = 4);
     b \<leftarrow> memcpy_from hdr 0 (length hdr);
     Some (of_le_bytes b)
   }"

definition pdcp_dec_ctrl_msg_plain :: "byte list \<Rightarrow> u32 option" where
  "pdcp_dec_ctrl_msg_plain msg = do {
     c_assert (length msg = 4);
     b \<leftarrow> memcpy_from msg 0 (length msg);
     Some (of_le_bytes b)
   }"

section \<open>Properties\<close>

text \<open>The words of the event trigger, the headers and the control message survive the trip.\<close>

lemma pdcp_words_roundtrip:
  "\<exists>ba. pdcp_enc_event_trigger_plain w = Some ba \<and> (payload ba \<bind> pdcp_dec_event_trigger_plain) = Some w"
  "\<exists>ba. pdcp_enc_ind_hdr_plain w = Some ba \<and> (payload ba \<bind> pdcp_dec_ind_hdr_plain) = Some w"
  "\<exists>ba. pdcp_enc_ctrl_hdr_plain w = Some ba \<and> (payload ba \<bind> pdcp_dec_ctrl_hdr_plain) = Some w"
  "\<exists>ba. pdcp_enc_ctrl_msg_plain w = Some ba \<and> (payload ba \<bind> pdcp_dec_ctrl_msg_plain) = Some w"
  unfolding pdcp_enc_event_trigger_plain_def pdcp_enc_ind_hdr_plain_def pdcp_enc_ctrl_hdr_plain_def
    pdcp_enc_ctrl_msg_plain_def pdcp_dec_event_trigger_plain_def pdcp_dec_ind_hdr_plain_def
    pdcp_dec_ctrl_hdr_plain_def pdcp_dec_ctrl_msg_plain_def
  by (rule word_roundtrip; simp add: memcpy_from_def)+

lemma pdcp_enc_ind_msg:
  assumes "pdcp_ind_msg_wf m"
  shows "pdcp_enc_ind_msg_plain m =
    Some \<lparr>ba_len = 12 + 68 * unat (pi_len m),
          ba_buf = map Some (ser_stats pdcp_rb_stats_bytes (pi_len m) (pi_rb m) (pi_tstamp m))\<rparr>"
proof -
  let ?n = "unat (pi_len m)"
  have w: "unat (pi_len m) = length (pi_rb m)" "\<forall>s \<in> set (pi_rb m). True"
    using assms(1) by (simp_all add: pdcp_ind_msg_wf_def)
  obtain b1 b2 where b:
    "memcpy_to (c_malloc (4 + 8 + 68 * unat (pi_len m))) 0 (le_bytes 4 (pi_len m)) = Some b1"
    "write_structs pdcp_rb_stats_bytes 68 (pi_rb m) ?n (b1, 4) = Some (b2, 4 + ?n * 68)"
    "memcpy_to b2 (4 + ?n * 68) (le_bytes 8 (pi_tstamp m)) =
       Some (map Some (ser_stats pdcp_rb_stats_bytes (pi_len m) (pi_rb m) (pi_tstamp m)))"
    using pb.enc_stats [OF w, of "c_malloc (4 + 8 + 68 * unat (pi_len m))" "pi_tstamp m"] by (auto simp: mult.commute)
  show ?thesis
    unfolding pdcp_enc_ind_msg_plain_def Let_def  b Option.bind.bind_lunit prod.case
    by (simp add: b)
qed

lemma pdcp_dec_ind_msg:
  assumes "pdcp_ind_msg_wf m"
  shows "pdcp_dec_ind_msg_plain (ser_stats pdcp_rb_stats_bytes (pi_len m) (pi_rb m) (pi_tstamp m)) = Some m"
proof -
  have w: "unat (pi_len m) = length (pi_rb m)" "\<forall>s \<in> set (pi_rb m). True"
    using assms by (simp_all add: pdcp_ind_msg_wf_def)
  let ?bs = "ser_stats pdcp_rb_stats_bytes (pi_len m) (pi_rb m) (pi_tstamp m)"
  note d = pb.dec_stats [OF w, of "pi_tstamp m"]
  have p: "12 \<le> length ?bs" using d(4) by simp
  show ?thesis
    by (simp add: pdcp_dec_ind_msg_plain_def d(1-3) p) (simp add: d(4))
qed

text \<open>A well-formed indication message of 68 byte structs is encoded into 12 + 68 * n
  bytes, without leaving the buffer, and the decoder gives the same message back.\<close>

theorem pdcp_ind_msg_roundtrip:
  assumes "pdcp_ind_msg_wf m"
  shows "\<exists>ba bs. pdcp_enc_ind_msg_plain m = Some ba \<and> payload ba = Some bs \<and>
           length bs = 12 + 68 * unat (pi_len m) \<and> pdcp_dec_ind_msg_plain bs = Some m"
  unfolding pdcp_enc_ind_msg [OF assms]
  using pdcp_dec_ind_msg [OF assms] pb.dec_stats(4) [of "pi_len m" "pi_rb m" "pi_tstamp m"]
    assms payload_all [of "ser_stats pdcp_rb_stats_bytes (pi_len m) (pi_rb m) (pi_tstamp m)"]
  by (simp add: pdcp_ind_msg_wf_def mult.commute)

lemma pdcp_ind_msg_roundtrip_witness:
  "\<exists>ba bs. pdcp_enc_ind_msg_plain \<lparr>pi_len = 1, pi_rb = [pdcp_rb_stats_of_bytes (replicate 68 7)], pi_tstamp = 99\<rparr> = Some ba \<and>
     payload ba = Some bs \<and> length bs = 80 \<and>
     pdcp_dec_ind_msg_plain bs = Some \<lparr>pi_len = 1, pi_rb = [pdcp_rb_stats_of_bytes (replicate 68 7)], pi_tstamp = 99\<rparr>"
  using pdcp_ind_msg_roundtrip [of "\<lparr>pi_len = 1, pi_rb = [pdcp_rb_stats_of_bytes (replicate 68 7)], pi_tstamp = 99\<rparr>"]
  by (simp add: pdcp_ind_msg_wf_def)

text \<open>The comparison sees every member but not the padding.\<close>

definition pdcp_erase_pad :: "pdcp_rb_stats \<Rightarrow> pdcp_rb_stats" where
  "pdcp_erase_pad s = s\<lparr>pb_pad0 := 0\<rparr>"

lemma pdcp_differ_iff: "pdcp_differ x y \<longleftrightarrow> pdcp_erase_pad x \<noteq> pdcp_erase_pad y"
  by (cases x; cases y) (auto simp: pdcp_differ_def pdcp_erase_pad_def)

text \<open>What the invariants say of one bearer.\<close>

definition pdcp_bearer_ok :: "pdcp_rb_stats \<Rightarrow> bool" where
  "pdcp_bearer_ok rb \<longleftrightarrow> pb_mode rb \<le> 2 \<and> pb_rbid rb < 11 \<and>
     pb_txpdu_pkts rb \<le> pb_txpdu_bytes rb \<and> pb_rxpdu_pkts rb \<le> pb_rxpdu_bytes rb \<and>
     pb_txsdu_pkts rb \<le> pb_txsdu_bytes rb \<and> pb_rxsdu_pkts rb \<le> pb_rxsdu_bytes rb"

lemma word_le_2: "(x :: u8) \<le> 2 \<longleftrightarrow> x = 0 \<or> x = 1 \<or> x = 2"
proof
  assume "x \<le> 2"
  then have "unat x \<le> 2" by (simp add: word_le_nat_alt)
  then have "unat x = 0 \<or> unat x = 1 \<or> unat x = 2" by linarith
  then show "x = 0 \<or> x = 1 \<or> x = 2"
    by (simp add: word_unat_eq_iff)
qed auto

lemma check_pdcp_bearers:
  "(check_pdcp_mode (pb_mode rb) \<bind> (\<lambda>_. check_pdcp_rbid (pb_rbid rb) \<bind>
     (\<lambda>_. check_pdcp_bearer rb \<bind> (\<lambda>_. f)))) = (if pdcp_bearer_ok rb then f else None)"
  by (simp add: check_pdcp_mode_def check_pdcp_rbid_def check_pdcp_bearer_def pdcp_bearer_ok_def word_le_2)

lemma check_pdcp_invariants_iff:
  assumes "length (pi_rb m) = unat (pi_len m)"
  shows "check_pdcp_invariants m = (if list_all pdcp_bearer_ok (pi_rb m) then Some True else None)"
proof -
  have "for_loop (\<lambda>i _. arr_at xs i \<bind> (\<lambda>rb. check_pdcp_mode (pb_mode rb) \<bind>
      (\<lambda>_. check_pdcp_rbid (pb_rbid rb) \<bind> (\<lambda>_. check_pdcp_bearer rb \<bind> (\<lambda>_. Some ()))))) [0..<n] () =
      (if list_all pdcp_bearer_ok (take n xs) then Some () else None)" if "n \<le> length xs" for xs n
    using that
  proof (induction n)
    case (Suc n)
    then show ?case
      by (auto simp: for_loop_append arr_at_def check_pdcp_bearers take_Suc_conv_app_nth)
  qed simp
  from this [of "unat (pi_len m)" "pi_rb m"] assms show ?thesis
    by (simp add: check_pdcp_invariants_def)
qed

text \<open>\<^verbatim>\<open>eq_pdcp_ind_msg\<close> never returns false: it returns true on messages that satisfy the
  invariants and agree up to padding, and aborts on all other ones.\<close>

theorem eq_pdcp_ind_msg_never_false:
  assumes "pdcp_ind_msg_wf m0" and "pdcp_ind_msg_wf m1"
  shows "eq_pdcp_ind_msg m0 m1 =
    (if list_all pdcp_bearer_ok (pi_rb m0) \<and> list_all pdcp_bearer_ok (pi_rb m1) \<and>
        pi_len m0 = pi_len m1 \<and> pi_tstamp m0 = pi_tstamp m1 \<and>
        map pdcp_erase_pad (pi_rb m0) = map pdcp_erase_pad (pi_rb m1)
     then Some True else None)"
proof -
  have len: "length (pi_rb m0) = unat (pi_len m0)" "length (pi_rb m1) = unat (pi_len m1)"
    using assms by (simp_all add: pdcp_ind_msg_wf_def)
  let ?f = "\<lambda>i. arr_at (pi_rb m0) i \<bind> (\<lambda>rb0. arr_at (pi_rb m1) i \<bind> (\<lambda>rb1.
      if pdcp_differ rb0 rb1 then c_assert False \<bind> (\<lambda>_. Some False) else Some True))"
  have loop: "all_loop ?f [0..<n] =
      (if map pdcp_erase_pad (take n (pi_rb m0)) = map pdcp_erase_pad (take n (pi_rb m1))
       then Some True else None)"
    if "n \<le> length (pi_rb m0)" "n \<le> length (pi_rb m1)" for n
    using that
  proof (induction n)
    case (Suc n)
    have *: "all_loop ?f ([0..<n] @ [n]) = (all_loop ?f [0..<n] \<bind>
        (\<lambda>b. if b then all_loop ?f [n] else Some False))"
      by (rule all_loop_append)
    have IH: "all_loop ?f [0..<n] =
        (if map pdcp_erase_pad (take n (pi_rb m0)) = map pdcp_erase_pad (take n (pi_rb m1))
         then Some True else None)"
      using Suc by simp
    show ?case
      using Suc.prems
      by (simp add: * IH) (simp add: arr_at_def take_Suc_conv_app_nth pdcp_differ_iff)
  qed simp
  show ?thesis
  proof (cases "pi_tstamp m0 \<noteq> pi_tstamp m1 \<or> pi_len m0 \<noteq> pi_len m1")
    case True
    then show ?thesis by (auto simp: eq_pdcp_ind_msg_def check_pdcp_invariants_iff len)
  next
    case False
    then have "all_loop ?f [0..<unat (pi_len m0)] =
        (if map pdcp_erase_pad (pi_rb m0) = map pdcp_erase_pad (pi_rb m1) then Some True else None)"
      using loop [of "unat (pi_len m0)"] len by simp
    with False show ?thesis
      by (simp add: eq_pdcp_ind_msg_def check_pdcp_invariants_iff len)
  qed
qed

lemma eq_pdcp_ind_msg_never_false_witness:
  "eq_pdcp_ind_msg \<lparr>pi_len = 1, pi_rb = [pdcp_rb_stats_of_bytes (replicate 68 0)], pi_tstamp = 98\<rparr>
     \<lparr>pi_len = 1, pi_rb = [pdcp_rb_stats_of_bytes (replicate 68 0)], pi_tstamp = 99\<rparr> = None"
  using eq_pdcp_ind_msg_never_false [of "\<lparr>pi_len = 1, pi_rb = [pdcp_rb_stats_of_bytes (replicate 68 0)], pi_tstamp = 98\<rparr>"
     "\<lparr>pi_len = 1, pi_rb = [pdcp_rb_stats_of_bytes (replicate 68 0)], pi_tstamp = 99\<rparr>"]
  by (simp add: pdcp_ind_msg_wf_def)

end
