(* ===== verification/MacSm.thy ===== *)
theory MacSm
  imports Codec
begin

text \<open>
  The MAC service model (\<^verbatim>\<open>sm/mac_sm\<close>): its information elements
  (\<^verbatim>\<open>ie/mac_data_ie.c\<close>), their plain encoding (\<^verbatim>\<open>enc/mac_enc_plain.c\<close>) and decoding
  (\<^verbatim>\<open>dec/mac_dec_plain.c\<close>). The event trigger, the headers, the call process identifier and the
  control message are structs with one 32 bit member and stand for that word. The functions
  whose body is only an abort ("Not implemented") have no definition.
\<close>

section \<open>Information elements\<close>

text \<open>The counters of one UE, \<^verbatim>\<open>mac_ue_stats_impl_t\<close>; \<^verbatim>\<open>float\<close> members are kept as their bits. Its object has 176 bytes. A \<open>pad\<close> field holds padding bytes.\<close>

record mac_ue_stats =
  mu_dl_aggr_tbs :: u64
  mu_ul_aggr_tbs :: u64
  mu_dl_aggr_bytes_sdus :: u64
  mu_ul_aggr_bytes_sdus :: u64
  mu_dl_curr_tbs :: u64
  mu_ul_curr_tbs :: u64
  mu_dl_sched_rb :: u64
  mu_ul_sched_rb :: u64
  mu_pusch_snr :: u32
  mu_pucch_snr :: u32
  mu_ul_rssi :: u32
  mu_dl_bler :: u32
  mu_ul_bler :: u32
  mu_dl_harq :: "u32 list"
  mu_ul_harq :: "u32 list"
  mu_dl_num_harq :: u32
  mu_ul_num_harq :: u32
  mu_rnti :: u32
  mu_dl_aggr_prb :: u32
  mu_ul_aggr_prb :: u32
  mu_dl_aggr_sdus :: u32
  mu_ul_aggr_sdus :: u32
  mu_dl_aggr_retx_prb :: u32
  mu_ul_aggr_retx_prb :: u32
  mu_bsr :: u32
  mu_frame :: u16
  mu_slot :: u16
  mu_wb_cqi :: u8
  mu_dl_mcs1 :: u8
  mu_ul_mcs1 :: u8
  mu_dl_mcs2 :: u8
  mu_ul_mcs2 :: u8
  mu_phr :: u8
  mu_pad0 :: u16

definition mac_ue_stats_bytes :: "mac_ue_stats \<Rightarrow> byte list" where
  "mac_ue_stats_bytes s =
     le_bytes 8 (mu_dl_aggr_tbs s) @
     le_bytes 8 (mu_ul_aggr_tbs s) @
     le_bytes 8 (mu_dl_aggr_bytes_sdus s) @
     le_bytes 8 (mu_ul_aggr_bytes_sdus s) @
     le_bytes 8 (mu_dl_curr_tbs s) @
     le_bytes 8 (mu_ul_curr_tbs s) @
     le_bytes 8 (mu_dl_sched_rb s) @
     le_bytes 8 (mu_ul_sched_rb s) @
     le_bytes 4 (mu_pusch_snr s) @
     le_bytes 4 (mu_pucch_snr s) @
     le_bytes 4 (mu_ul_rssi s) @
     le_bytes 4 (mu_dl_bler s) @
     le_bytes 4 (mu_ul_bler s) @
     put_les 4 (mu_dl_harq s) @
     put_les 4 (mu_ul_harq s) @
     le_bytes 4 (mu_dl_num_harq s) @
     le_bytes 4 (mu_ul_num_harq s) @
     le_bytes 4 (mu_rnti s) @
     le_bytes 4 (mu_dl_aggr_prb s) @
     le_bytes 4 (mu_ul_aggr_prb s) @
     le_bytes 4 (mu_dl_aggr_sdus s) @
     le_bytes 4 (mu_ul_aggr_sdus s) @
     le_bytes 4 (mu_dl_aggr_retx_prb s) @
     le_bytes 4 (mu_ul_aggr_retx_prb s) @
     le_bytes 4 (mu_bsr s) @
     le_bytes 2 (mu_frame s) @
     le_bytes 2 (mu_slot s) @
     le_bytes 1 (mu_wb_cqi s) @
     le_bytes 1 (mu_dl_mcs1 s) @
     le_bytes 1 (mu_ul_mcs1 s) @
     le_bytes 1 (mu_dl_mcs2 s) @
     le_bytes 1 (mu_ul_mcs2 s) @
     le_bytes 1 (mu_phr s) @
     le_bytes 2 (mu_pad0 s)"

definition mac_ue_stats_of_bytes :: "byte list \<Rightarrow> mac_ue_stats" where
  "mac_ue_stats_of_bytes bs =
     (let
        (x0, bs) = get_le 8 bs;
        (x1, bs) = get_le 8 bs;
        (x2, bs) = get_le 8 bs;
        (x3, bs) = get_le 8 bs;
        (x4, bs) = get_le 8 bs;
        (x5, bs) = get_le 8 bs;
        (x6, bs) = get_le 8 bs;
        (x7, bs) = get_le 8 bs;
        (x8, bs) = get_le 4 bs;
        (x9, bs) = get_le 4 bs;
        (x10, bs) = get_le 4 bs;
        (x11, bs) = get_le 4 bs;
        (x12, bs) = get_le 4 bs;
        (x13, bs) = get_les 5 4 bs;
        (x14, bs) = get_les 5 4 bs;
        (x15, bs) = get_le 4 bs;
        (x16, bs) = get_le 4 bs;
        (x17, bs) = get_le 4 bs;
        (x18, bs) = get_le 4 bs;
        (x19, bs) = get_le 4 bs;
        (x20, bs) = get_le 4 bs;
        (x21, bs) = get_le 4 bs;
        (x22, bs) = get_le 4 bs;
        (x23, bs) = get_le 4 bs;
        (x24, bs) = get_le 4 bs;
        (x25, bs) = get_le 2 bs;
        (x26, bs) = get_le 2 bs;
        (x27, bs) = get_le 1 bs;
        (x28, bs) = get_le 1 bs;
        (x29, bs) = get_le 1 bs;
        (x30, bs) = get_le 1 bs;
        (x31, bs) = get_le 1 bs;
        (x32, bs) = get_le 1 bs;
        (x33, bs) = get_le 2 bs
      in \<lparr>mu_dl_aggr_tbs = x0, mu_ul_aggr_tbs = x1, mu_dl_aggr_bytes_sdus = x2, mu_ul_aggr_bytes_sdus = x3
         , mu_dl_curr_tbs = x4, mu_ul_curr_tbs = x5, mu_dl_sched_rb = x6, mu_ul_sched_rb = x7
         , mu_pusch_snr = x8, mu_pucch_snr = x9, mu_ul_rssi = x10, mu_dl_bler = x11
         , mu_ul_bler = x12, mu_dl_harq = x13, mu_ul_harq = x14, mu_dl_num_harq = x15
         , mu_ul_num_harq = x16, mu_rnti = x17, mu_dl_aggr_prb = x18, mu_ul_aggr_prb = x19
         , mu_dl_aggr_sdus = x20, mu_ul_aggr_sdus = x21, mu_dl_aggr_retx_prb = x22, mu_ul_aggr_retx_prb = x23
         , mu_bsr = x24, mu_frame = x25, mu_slot = x26, mu_wb_cqi = x27
         , mu_dl_mcs1 = x28, mu_ul_mcs1 = x29, mu_dl_mcs2 = x30, mu_ul_mcs2 = x31
         , mu_phr = x32, mu_pad0 = x33\<rparr>)"

definition mac_ue_stats_wf :: "mac_ue_stats \<Rightarrow> bool" where
  "mac_ue_stats_wf s \<longleftrightarrow> length (mu_dl_harq s) = 5 \<and> length (mu_ul_harq s) = 5"

interpretation mu: struct_codec mac_ue_stats_bytes mac_ue_stats_of_bytes 176 mac_ue_stats_wf
  by unfold_locales (simp_all add: mac_ue_stats_bytes_def mac_ue_stats_of_bytes_def mac_ue_stats_wf_def)

text \<open>\<^verbatim>\<open>mac_ind_msg_t\<close>, an object of 24 bytes; the array is behind a pointer.\<close>

record mac_ind_msg =
  mi_len :: u32
  mi_ue_stats :: "mac_ue_stats list"
  mi_tstamp :: u64

definition mac_ind_msg_wf :: "mac_ind_msg \<Rightarrow> bool" where
  "mac_ind_msg_wf m \<longleftrightarrow> unat (mi_len m) = length (mi_ue_stats m) \<and> (\<forall>s \<in> set (mi_ue_stats m). mac_ue_stats_wf s)"

record mac_ind_data =
  md_hdr :: u32
  md_msg :: mac_ind_msg
  md_proc_id :: "u32 option"

definition cp_mac_ind_hdr :: "u32 \<Rightarrow> u32" where
  "cp_mac_ind_hdr src = src"

definition eq_mac_ind_hdr :: "u32 \<Rightarrow> u32 \<Rightarrow> bool" where
  "eq_mac_ind_hdr m0 m1 = (if m0 \<noteq> m1 then False else True)"

definition cp_mac_call_proc_id :: "u32 \<Rightarrow> u32" where
  "cp_mac_call_proc_id src = src"

text \<open>The pointers to the call process identifiers may be \<^verbatim>\<open>NULL\<close>.\<close>

definition eq_mac_call_proc_id :: "u32 option \<Rightarrow> u32 option \<Rightarrow> bool" where
  "eq_mac_call_proc_id m0 m1 =
     (case (m0, m1) of
        (None, None) \<Rightarrow> True
      | (None, Some _) \<Rightarrow> False
      | (Some _, None) \<Rightarrow> False
      | (Some p0, Some p1) \<Rightarrow> if p0 \<noteq> p1 then False else True)"

text \<open>
  A copy is built member by member; the designated initialiser leaves the padding unspecified,
  which is the argument \<open>pad\<close>.
\<close>

definition cp_mac_ue_stats_impl :: "u16 \<Rightarrow> mac_ue_stats \<Rightarrow> mac_ue_stats option" where
  "cp_mac_ue_stats_impl pad src = do {
     d0 \<leftarrow> arr_at (mu_dl_harq src) 0;
     d1 \<leftarrow> arr_at (mu_dl_harq src) 1;
     d2 \<leftarrow> arr_at (mu_dl_harq src) 2;
     d3 \<leftarrow> arr_at (mu_dl_harq src) 3;
     d4 \<leftarrow> arr_at (mu_dl_harq src) 4;
     u0 \<leftarrow> arr_at (mu_ul_harq src) 0;
     u1 \<leftarrow> arr_at (mu_ul_harq src) 1;
     u2 \<leftarrow> arr_at (mu_ul_harq src) 2;
     u3 \<leftarrow> arr_at (mu_ul_harq src) 3;
     u4 \<leftarrow> arr_at (mu_ul_harq src) 4;
     Some \<lparr>mu_dl_aggr_tbs = mu_dl_aggr_tbs src,
           mu_ul_aggr_tbs = mu_ul_aggr_tbs src,
           mu_dl_aggr_bytes_sdus = mu_dl_aggr_bytes_sdus src,
           mu_ul_aggr_bytes_sdus = mu_ul_aggr_bytes_sdus src,
           mu_dl_curr_tbs = mu_dl_curr_tbs src,
           mu_ul_curr_tbs = mu_ul_curr_tbs src,
           mu_dl_sched_rb = mu_dl_sched_rb src,
           mu_ul_sched_rb = mu_ul_sched_rb src,
           mu_pusch_snr = mu_pusch_snr src,
           mu_pucch_snr = mu_pucch_snr src,
           mu_ul_rssi = mu_ul_rssi src,
           mu_dl_bler = mu_dl_bler src,
           mu_ul_bler = mu_ul_bler src,
           mu_dl_harq = [d0, d1, d2, d3, d4],
           mu_ul_harq = [u0, u1, u2, u3, u4],
           mu_dl_num_harq = mu_dl_num_harq src,
           mu_ul_num_harq = mu_ul_num_harq src,
           mu_rnti = mu_rnti src,
           mu_dl_aggr_prb = mu_dl_aggr_prb src,
           mu_ul_aggr_prb = mu_ul_aggr_prb src,
           mu_dl_aggr_sdus = mu_dl_aggr_sdus src,
           mu_ul_aggr_sdus = mu_ul_aggr_sdus src,
           mu_dl_aggr_retx_prb = mu_dl_aggr_retx_prb src,
           mu_ul_aggr_retx_prb = mu_ul_aggr_retx_prb src,
           mu_bsr = mu_bsr src,
           mu_frame = mu_frame src,
           mu_slot = mu_slot src,
           mu_wb_cqi = mu_wb_cqi src,
           mu_dl_mcs1 = mu_dl_mcs1 src,
           mu_ul_mcs1 = mu_ul_mcs1 src,
           mu_dl_mcs2 = mu_dl_mcs2 src,
           mu_ul_mcs2 = mu_ul_mcs2 src,
           mu_phr = mu_phr src,
           mu_pad0 = pad\<rparr>
   }"

text \<open>Each element of the copy has padding of its own.\<close>

definition cp_mac_ind_msg :: "(nat \<Rightarrow> u16) \<Rightarrow> mac_ind_msg \<Rightarrow> mac_ind_msg option" where
  "cp_mac_ind_msg pad src = do {
     ue_stats \<leftarrow> for_loop (\<lambda>i dst. do {
         s \<leftarrow> arr_at (mi_ue_stats src) i;
         c \<leftarrow> cp_mac_ue_stats_impl (pad i) s;
         Some (dst @ [c])
       }) [0..<unat (mi_len src)] [];
     Some \<lparr>mi_len = mi_len src, mi_ue_stats = ue_stats, mi_tstamp = mi_tstamp src\<rparr>
   }"

definition cp_mac_ind_data :: "(nat \<Rightarrow> u16) \<Rightarrow> mac_ind_data \<Rightarrow> mac_ind_data option" where
  "cp_mac_ind_data pad src = do {
     msg \<leftarrow> cp_mac_ind_msg pad (md_msg src);
     Some \<lparr>md_hdr = cp_mac_ind_hdr (md_hdr src),
           md_msg = msg,
           md_proc_id = map_option cp_mac_call_proc_id (md_proc_id src)\<rparr>
   }"

section \<open>Encoding\<close>

definition mac_enc_event_trigger_plain :: "u32 \<Rightarrow> byte_array option" where
  "mac_enc_event_trigger_plain ms = do {
     buf \<leftarrow> memcpy_to (c_malloc 4) 0 (le_bytes 4 ms);
     Some \<lparr>ba_len = 4, ba_buf = buf\<rparr>
   }"

definition mac_enc_ind_hdr_plain :: "u32 \<Rightarrow> byte_array option" where
  "mac_enc_ind_hdr_plain hdr = do {
     buf \<leftarrow> memcpy_to (c_malloc 24) 0 (le_bytes 4 hdr);
     Some \<lparr>ba_len = 4, ba_buf = buf\<rparr>
   }"

text \<open>The size is computed in a \<^verbatim>\<open>uint32_t\<close> here, and the buffer has that size.\<close>

definition mac_enc_ind_msg_plain :: "mac_ind_msg \<Rightarrow> byte_array option" where
  "mac_enc_ind_msg_plain m = do {
     let len = (word_of_nat (4 + 176 * unat (mi_len m) + 8) :: u32);
     buf \<leftarrow> memcpy_to (c_calloc 1 (unat len)) 0 (le_bytes 4 (mi_len m));
     (buf, ptr) \<leftarrow> write_structs mac_ue_stats_bytes 176 (mi_ue_stats m) (unat (mi_len m)) (buf, 4);
     buf \<leftarrow> memcpy_to buf ptr (le_bytes 8 (mi_tstamp m));
     let ptr = ptr + 8;
     c_assert (ptr = unat len);
     Some \<lparr>ba_len = unat len, ba_buf = buf\<rparr>
   }"

definition mac_enc_ctrl_hdr_plain :: "u32 \<Rightarrow> byte_array option" where
  "mac_enc_ctrl_hdr_plain hdr = do {
     buf \<leftarrow> memcpy_to (c_malloc 24) 0 (le_bytes 4 hdr);
     Some \<lparr>ba_len = 4, ba_buf = buf\<rparr>
   }"

text \<open>The length is taken from the control header; both structs are one word.\<close>

definition mac_enc_ctrl_msg_plain :: "u32 \<Rightarrow> byte_array option" where
  "mac_enc_ctrl_msg_plain action = do {
     buf \<leftarrow> memcpy_to (c_malloc 4) 0 (le_bytes 4 action);
     Some \<lparr>ba_len = 4, ba_buf = buf\<rparr>
   }"

section \<open>Decoding\<close>

text \<open>The event trigger is read without a check of the length.\<close>

definition mac_dec_event_trigger_plain :: "byte list \<Rightarrow> u32 option" where
  "mac_dec_event_trigger_plain ev_tr = do {
     b \<leftarrow> memcpy_from ev_tr 0 4;
     Some (of_le_bytes b)
   }"

definition mac_dec_ind_hdr_plain :: "byte list \<Rightarrow> u32 option" where
  "mac_dec_ind_hdr_plain hdr = do {
     c_assert (length hdr = 4);
     b \<leftarrow> memcpy_from hdr 0 (length hdr);
     Some (of_le_bytes b)
   }"

definition mac_dec_ind_msg_plain :: "byte list \<Rightarrow> mac_ind_msg option" where
  "mac_dec_ind_msg_plain bs = do {
     b \<leftarrow> memcpy_from bs 0 4;
     let len = of_le_bytes b;
     (ue_stats, it) \<leftarrow> read_structs mac_ue_stats_of_bytes 176 (unat len) bs 4;
     t \<leftarrow> memcpy_from bs it 8;
     c_assert (it + 8 = length bs);
     Some \<lparr>mi_len = len, mi_ue_stats = ue_stats, mi_tstamp = of_le_bytes t\<rparr>
   }"

definition mac_dec_ctrl_hdr_plain :: "byte list \<Rightarrow> u32 option" where
  "mac_dec_ctrl_hdr_plain hdr = do {
     c_assert (length hdr = 4);
     b \<leftarrow> memcpy_from hdr 0 (length hdr);
     Some (of_le_bytes b)
   }"

definition mac_dec_ctrl_msg_plain :: "byte list \<Rightarrow> u32 option" where
  "mac_dec_ctrl_msg_plain msg = do {
     c_assert (length msg = 4);
     b \<leftarrow> memcpy_from msg 0 (length msg);
     Some (of_le_bytes b)
   }"

section \<open>Properties\<close>

text \<open>The words of the event trigger, the headers and the control message survive the trip.\<close>

lemma mac_words_roundtrip:
  "\<exists>ba. mac_enc_event_trigger_plain w = Some ba \<and> (payload ba \<bind> mac_dec_event_trigger_plain) = Some w"
  "\<exists>ba. mac_enc_ind_hdr_plain w = Some ba \<and> (payload ba \<bind> mac_dec_ind_hdr_plain) = Some w"
  "\<exists>ba. mac_enc_ctrl_hdr_plain w = Some ba \<and> (payload ba \<bind> mac_dec_ctrl_hdr_plain) = Some w"
  "\<exists>ba. mac_enc_ctrl_msg_plain w = Some ba \<and> (payload ba \<bind> mac_dec_ctrl_msg_plain) = Some w"
  unfolding mac_enc_event_trigger_plain_def mac_enc_ind_hdr_plain_def mac_enc_ctrl_hdr_plain_def
    mac_enc_ctrl_msg_plain_def mac_dec_event_trigger_plain_def mac_dec_ind_hdr_plain_def
    mac_dec_ctrl_hdr_plain_def mac_dec_ctrl_msg_plain_def
  by (rule word_roundtrip; simp add: memcpy_from_def)+

lemma mac_enc_ind_msg:
  assumes "mac_ind_msg_wf m" and "12 + 176 * unat (mi_len m) < 2 ^ 32"
  shows "mac_enc_ind_msg_plain m =
    Some \<lparr>ba_len = 12 + 176 * unat (mi_len m),
          ba_buf = map Some (ser_stats mac_ue_stats_bytes (mi_len m) (mi_ue_stats m) (mi_tstamp m))\<rparr>"
proof -
  let ?n = "unat (mi_len m)"
  have w: "unat (mi_len m) = length (mi_ue_stats m)" "\<forall>s \<in> set (mi_ue_stats m). mac_ue_stats_wf s"
    using assms(1) by (simp_all add: mac_ind_msg_wf_def)
  have sz: "unat (word_of_nat (4 + 176 * unat (mi_len m) + 8) :: u32) = 4 + 176 * unat (mi_len m) + 8"
    using assms(2) by (intro of_nat_inverse [OF refl]) simp
  obtain b1 b2 where b:
    "memcpy_to (c_calloc 1 (4 + 176 * unat (mi_len m) + 8)) 0 (le_bytes 4 (mi_len m)) = Some b1"
    "write_structs mac_ue_stats_bytes 176 (mi_ue_stats m) ?n (b1, 4) = Some (b2, 4 + ?n * 176)"
    "memcpy_to b2 (4 + ?n * 176) (le_bytes 8 (mi_tstamp m)) =
       Some (map Some (ser_stats mac_ue_stats_bytes (mi_len m) (mi_ue_stats m) (mi_tstamp m)))"
    using mu.enc_stats [OF w, of "c_calloc 1 (4 + 176 * unat (mi_len m) + 8)" "mi_tstamp m"] by (auto simp: sz)
  show ?thesis
    unfolding mac_enc_ind_msg_plain_def Let_def sz b Option.bind.bind_lunit prod.case
    by (simp add: b)
qed

lemma mac_dec_ind_msg:
  assumes "mac_ind_msg_wf m"
  shows "mac_dec_ind_msg_plain (ser_stats mac_ue_stats_bytes (mi_len m) (mi_ue_stats m) (mi_tstamp m)) = Some m"
proof -
  have w: "unat (mi_len m) = length (mi_ue_stats m)" "\<forall>s \<in> set (mi_ue_stats m). mac_ue_stats_wf s"
    using assms by (simp_all add: mac_ind_msg_wf_def)
  let ?bs = "ser_stats mac_ue_stats_bytes (mi_len m) (mi_ue_stats m) (mi_tstamp m)"
  note d = mu.dec_stats [OF w, of "mi_tstamp m"]
  show ?thesis
    by (simp add: mac_dec_ind_msg_plain_def d(1-3)) (simp add: d(4))
qed

text \<open>C17: A well-formed indication message of 176 byte structs is encoded into 12 + 176 * n
  bytes, without leaving the buffer, and the decoder gives the same message back. The size must fit
  the 32 bit variable it is computed in.\<close>

theorem mac_ind_msg_roundtrip:
  assumes "mac_ind_msg_wf m" and "12 + 176 * unat (mi_len m) < 2 ^ 32"
  shows "\<exists>ba bs. mac_enc_ind_msg_plain m = Some ba \<and> payload ba = Some bs \<and>
           length bs = 12 + 176 * unat (mi_len m) \<and> mac_dec_ind_msg_plain bs = Some m"
  unfolding mac_enc_ind_msg [OF assms]
  using mac_dec_ind_msg [OF assms(1)] mu.dec_stats(4) [of "mi_len m" "mi_ue_stats m" "mi_tstamp m"]
    assms(1) payload_all [of "ser_stats mac_ue_stats_bytes (mi_len m) (mi_ue_stats m) (mi_tstamp m)"]
  by (simp add: mac_ind_msg_wf_def mult.commute)

lemma mac_ind_msg_roundtrip_witness:
  "\<exists>ba bs. mac_enc_ind_msg_plain \<lparr>mi_len = 1, mi_ue_stats = [mac_ue_stats_of_bytes (replicate 176 7)], mi_tstamp = 99\<rparr> = Some ba \<and>
     payload ba = Some bs \<and> length bs = 188 \<and>
     mac_dec_ind_msg_plain bs = Some \<lparr>mi_len = 1, mi_ue_stats = [mac_ue_stats_of_bytes (replicate 176 7)], mi_tstamp = 99\<rparr>"
proof -
  have "mac_ue_stats_wf (mac_ue_stats_of_bytes (replicate 176 7))" by code_simp
  then show ?thesis
    using mac_ind_msg_roundtrip [of "\<lparr>mi_len = 1, mi_ue_stats = [mac_ue_stats_of_bytes (replicate 176 7)], mi_tstamp = 99\<rparr>"]
    by (simp add: mac_ind_msg_wf_def)
qed

text \<open>The decoder of the MAC indication accepts exactly the messages whose length fits their count
  of UEs; every other message aborts or is read past its end.\<close>

theorem mac_dec_ind_msg_accepts:
  "mac_dec_ind_msg_plain bs = None \<longleftrightarrow>
     \<not> (4 \<le> length bs \<and> length bs = 12 + 176 * unat (of_le_bytes (take 4 bs) :: u32))"
proof (cases "4 \<le> length bs")
  case True
  then show ?thesis
    using read_stats_None [of mac_ue_stats_of_bytes 176 "unat (of_le_bytes (take 4 bs) :: u32)" bs
        "\<lambda>xs t. \<lparr>mi_len = of_le_bytes (take 4 bs), mi_ue_stats = xs, mi_tstamp = of_le_bytes t\<rparr>"]
    by (simp add: mac_dec_ind_msg_plain_def memcpy_from_def [of bs 0] mult.commute split_def Let_def)
qed (simp add: mac_dec_ind_msg_plain_def memcpy_from_def)

text \<open>When the size of the message does not fit 32 bits, the allocated buffer is too small and
  \<^verbatim>\<open>mac_enc_ind_msg_plain\<close> leaves it or fails its layout check; it never returns.\<close>

theorem mac_enc_ind_msg_overflow:
  assumes "2 ^ 32 \<le> 12 + 176 * unat (mi_len m)"
  shows "mac_enc_ind_msg_plain m = None"
proof (rule ccontr)
  assume "mac_enc_ind_msg_plain m \<noteq> None"
  then obtain ba where *: "mac_enc_ind_msg_plain m = Some ba" by blast
  let ?len = "unat (word_of_nat (4 + 176 * unat (mi_len m) + 8) :: u32)"
  from * obtain b1 b2 p where
    "write_structs mac_ue_stats_bytes 176 (mi_ue_stats m) (unat (mi_len m)) (b1, 4) = Some (b2, p)"
    and "p + 8 = ?len"
    unfolding mac_enc_ind_msg_plain_def Let_def
    by (auto simp: bind_eq_Some_conv split: if_splits)
  then have "4 + 176 * unat (mi_len m) + 8 = ?len"
    using write_structs_ptr by fastforce
  moreover have "?len < 2 ^ 32" using unsigned_less [of "word_of_nat (4 + 176 * unat (mi_len m) + 8) :: u32"] by simp
  ultimately show False using assms by linarith
qed

lemma mac_enc_ind_msg_overflow_witness:
  "mac_enc_ind_msg_plain \<lparr>mi_len = 24403224, mi_ue_stats = [], mi_tstamp = 99\<rparr> = None"
  by (rule mac_enc_ind_msg_overflow) simp

lemma cp_mac_ue_stats_impl:
  "mac_ue_stats_wf s \<Longrightarrow> cp_mac_ue_stats_impl pad s = Some (s\<lparr>mu_pad0 := pad\<rparr>)"
  by (cases s)
    (auto simp: cp_mac_ue_stats_impl_def mac_ue_stats_wf_def arr_at_def eval_nat_numeral length_Suc_conv)

lemma cp_mac_ind_msg:
  assumes "mac_ind_msg_wf m"
  shows "cp_mac_ind_msg pad m = Some (m\<lparr>mi_ue_stats :=
           map (\<lambda>i. (mi_ue_stats m ! i)\<lparr>mu_pad0 := pad i\<rparr>) [0..<length (mi_ue_stats m)]\<rparr>)"
proof -
  let ?xs = "mi_ue_stats m"
  let ?st = "\<lambda>n. map (\<lambda>i. (?xs ! i)\<lparr>mu_pad0 := pad i\<rparr>) [0..<n]"
  have "for_loop (\<lambda>i dst. arr_at ?xs i \<bind> (\<lambda>s. cp_mac_ue_stats_impl (pad i) s \<bind>
      (\<lambda>c. Some (dst @ [c])))) [0..<length ?xs] (?st 0) = Some (?st (length ?xs))"
    using assms by (intro for_loop_states)
      (simp_all add: mac_ind_msg_wf_def arr_at_def cp_mac_ue_stats_impl)
  then show ?thesis using assms by (cases m) (simp add: cp_mac_ind_msg_def mac_ind_msg_wf_def)
qed

end
