(* ===== verification/FieldCodec.thy ===== *)
theory FieldCodec
  imports Codec begin

text \<open>
  The variable-length messages of the slice and traffic control models are written and read field
  by field: a C function \<^verbatim>\<open>fill_x\<close> gets a pointer into the buffer and returns how many bytes it
  has written or read. Here the pointer is an offset, and the writer returns the new buffer too.
\<close>

definition reads :: "byte list \<Rightarrow> nat \<Rightarrow> byte list \<Rightarrow> bool" where
  "reads bs it s \<longleftrightarrow> memcpy_from bs it (length s) = Some s"

lemma reads_append:
  "reads bs it (a @ b) \<longleftrightarrow> reads bs it a \<and> reads bs (it + length a) b"
proof -
  have "take (length a + length b) (drop it bs) = a @ b \<longleftrightarrow>
      take (length a) (drop it bs) = a \<and> take (length b) (drop (it + length a) bs) = b"
    if "it + (length a + length b) \<le> length bs"
    using that by (simp add: take_add append_eq_append_conv add.commute)
  then show ?thesis by (auto simp: reads_def memcpy_from_def)
qed

lemma reads_all: "reads bs 0 bs"
  by (simp add: reads_def memcpy_from_def)

lemma reads_Nil: "reads bs it [] \<longleftrightarrow> it \<le> length bs"
  by (simp add: reads_def memcpy_from_def)

lemma reads_bound: "reads bs it s \<Longrightarrow> it + length s \<le> length bs"
  by (simp add: reads_def memcpy_from_def split: if_splits)

lemma reads_word: "reads bs it (le_bytes n w) \<longleftrightarrow> memcpy_from bs it n = Some (le_bytes n w)"
  by (simp add: reads_def)

lemma reads_array:
  "n \<le> length xs \<Longrightarrow> reads bs it (take n xs) \<longleftrightarrow> memcpy_from bs it n = Some (take n xs)"
  by (simp add: reads_def)

text \<open>Two writes next to each other.\<close>

lemma written_next:
  "k = it + length a \<Longrightarrow> it + length a \<le> length buf \<Longrightarrow>
   written (written buf it a) k b = written buf it (a @ b)"
  by (simp add: written_written)

text \<open>The loops \<^verbatim>\<open>for(i = 0; i < n; ++i){ tmp = fill(it, &xs[i]); it += tmp; sz += tmp; }\<close>.\<close>

definition fill_each ::
  "(block \<Rightarrow> nat \<Rightarrow> 'x \<Rightarrow> (block \<times> nat) option) \<Rightarrow> 'x list \<Rightarrow> nat \<Rightarrow>
   block \<times> nat \<times> nat \<Rightarrow> (block \<times> nat \<times> nat) option" where
  "fill_each fill xs n =
     for_loop (\<lambda>i (buf, it, sz). do {
         x \<leftarrow> arr_at xs i;
         (buf, tmp) \<leftarrow> fill buf it x;
         Some (buf, it + tmp, sz + tmp)
       }) [0..<n]"

text \<open>The same where the writer changes the element it writes.\<close>

definition fill_each_upd ::
  "(block \<Rightarrow> nat \<Rightarrow> 'x \<Rightarrow> (block \<times> nat \<times> 'x) option) \<Rightarrow> nat \<Rightarrow>
   block \<times> nat \<times> nat \<times> 'x list \<Rightarrow> (block \<times> nat \<times> nat \<times> 'x list) option" where
  "fill_each_upd fill n =
     for_loop (\<lambda>i (buf, it, sz, xs). do {
         x \<leftarrow> arr_at xs i;
         (buf, tmp, x) \<leftarrow> fill buf it x;
         Some (buf, it + tmp, sz + tmp, xs[i := x])
       }) [0..<n]"

definition dec_each ::
  "(nat \<Rightarrow> ('x \<times> nat) option) \<Rightarrow> nat \<Rightarrow> nat \<times> nat \<Rightarrow> ('x list \<times> nat \<times> nat) option" where
  "dec_each dec n = (\<lambda>(it, sz).
     for_loop (\<lambda>i (xs, it, sz). do {
         (x, tmp) \<leftarrow> dec it;
         Some (xs @ [x], it + tmp, sz + tmp)
       }) [0..<n] ([], it, sz))"

text \<open>
  The contract of a writer: where the element fits it writes the bytes \<open>ser x\<close> and returns their
  number. \<open>e\<close> is the offset of the end of the buffer, which some writers check.
\<close>

locale field_writer =
  fixes ser :: "'x \<Rightarrow> byte list"
    and fill :: "nat \<Rightarrow> block \<Rightarrow> nat \<Rightarrow> 'x \<Rightarrow> (block \<times> nat) option"
    and wf :: "'x \<Rightarrow> bool"
  assumes fill_law: "wf x \<Longrightarrow> it + length (ser x) \<le> e \<Longrightarrow> length buf = e \<Longrightarrow>
    fill e buf it x = Some (written buf it (ser x), length (ser x))"
begin

lemma fill_each_ok:
  assumes "n \<le> length xs" and "\<forall>x \<in> set (take n xs). wf x"
    and "it + length (concat (map ser (take n xs))) \<le> e" and "length buf = e"
  shows "fill_each (fill e) xs n (buf, it, sz) =
    Some (written buf it (concat (map ser (take n xs))),
          it + length (concat (map ser (take n xs))), sz + length (concat (map ser (take n xs))))"
  using assms
proof (induction n)
  case 0
  then show ?case by (simp add: fill_each_def)
next
  case (Suc n)
  let ?c = "concat (map ser (take n xs))"
  have t: "take (Suc n) xs = take n xs @ [xs ! n]"
    using Suc.prems(1) by (simp add: take_Suc_conv_app_nth)
  have IH: "fill_each (fill e) xs n (buf, it, sz) = Some (written buf it ?c, it + length ?c, sz + length ?c)"
    using Suc.prems by (intro Suc.IH) (auto simp: t)
  have "fill e (written buf it ?c) (it + length ?c) (xs ! n) =
      Some (written (written buf it ?c) (it + length ?c) (ser (xs ! n)), length (ser (xs ! n)))"
    using Suc.prems by (intro fill_law) (auto simp: t)
  moreover have "written (written buf it ?c) (it + length ?c) (ser (xs ! n)) = written buf it (?c @ ser (xs ! n))"
    using Suc.prems by (intro written_written) (simp add: t)
  ultimately show ?case
    using IH Suc.prems(1) by (simp add: fill_each_def for_loop_append t arr_at_def)
qed

end

text \<open>A writer that leaves \<open>zap x\<close> behind in the struct, and writes that.\<close>

locale field_upd_writer =
  fixes ser :: "'x \<Rightarrow> byte list"
    and fill :: "nat \<Rightarrow> block \<Rightarrow> nat \<Rightarrow> 'x \<Rightarrow> (block \<times> nat \<times> 'x) option"
    and zap :: "'x \<Rightarrow> 'x"
    and wf :: "'x \<Rightarrow> bool"
  assumes fill_upd_law: "wf x \<Longrightarrow> it + length (ser (zap x)) \<le> e \<Longrightarrow> length buf = e \<Longrightarrow>
    fill e buf it x = Some (written buf it (ser (zap x)), length (ser (zap x)), zap x)"
begin

lemma fill_each_upd_ok:
  assumes "n = length xs" and "\<forall>x \<in> set xs. wf x"
    and "it + length (concat (map (\<lambda>x. ser (zap x)) xs)) \<le> e" and "length buf = e"
  shows "fill_each_upd (fill e) n (buf, it, sz, xs) =
    Some (written buf it (concat (map (\<lambda>x. ser (zap x)) xs)),
          it + length (concat (map (\<lambda>x. ser (zap x)) xs)),
          sz + length (concat (map (\<lambda>x. ser (zap x)) xs)), map zap xs)"
proof -
  have "fill_each_upd (fill e) n (buf, it, sz, xs) =
    Some (written buf it (concat (map (\<lambda>x. ser (zap x)) (take n xs))),
          it + length (concat (map (\<lambda>x. ser (zap x)) (take n xs))),
          sz + length (concat (map (\<lambda>x. ser (zap x)) (take n xs))), map zap (take n xs) @ drop n xs)"
    if "n \<le> length xs" "it + length (concat (map (\<lambda>x. ser (zap x)) (take n xs))) \<le> e" for n
    using that
  proof (induction n)
    case 0
    then show ?case by (simp add: fill_each_upd_def)
  next
    case (Suc n)
    let ?c = "concat (map (\<lambda>x. ser (zap x)) (take n xs))"
    let ?s = "ser (zap (xs ! n))"
    have t: "take (Suc n) xs = take n xs @ [xs ! n]" "drop n xs = xs ! n # drop (Suc n) xs"
      using Suc.prems(1) by (simp_all add: take_Suc_conv_app_nth Cons_nth_drop_Suc)
    have IH: "fill_each_upd (fill e) n (buf, it, sz, xs) =
        Some (written buf it ?c, it + length ?c, sz + length ?c, map zap (take n xs) @ drop n xs)"
      using Suc.prems by (intro Suc.IH) (auto simp: t)
    have "fill e (written buf it ?c) (it + length ?c) (xs ! n) =
        Some (written (written buf it ?c) (it + length ?c) ?s, length ?s, zap (xs ! n))"
      using Suc.prems assms(2,4) by (intro fill_upd_law) (auto simp: t)
    moreover have "written (written buf it ?c) (it + length ?c) ?s = written buf it (?c @ ?s)"
      using Suc.prems assms(4) by (intro written_written) (simp add: t)
    moreover have "(map zap (take n xs) @ drop n xs) ! n = xs ! n"
      "(map zap (take n xs) @ drop n xs)[n := zap (xs ! n)] = map zap (take (Suc n) xs) @ drop (Suc n) xs"
      using Suc.prems(1) by (simp_all add: nth_append t list_update_append)
    ultimately show ?case
      using IH Suc.prems(1) by (simp add: fill_each_upd_def for_loop_append t(1) arr_at_def)
  qed
  from this [of n] assms show ?thesis by simp
qed

end

text \<open>The contract of a reader: where \<open>ser x\<close> stands in the message it returns \<open>rcv x\<close>.\<close>

locale field_reader =
  fixes ser :: "'x \<Rightarrow> byte list"
    and dec :: "byte list \<Rightarrow> nat \<Rightarrow> ('x \<times> nat) option"
    and rcv :: "'x \<Rightarrow> 'x"
    and wf :: "'x \<Rightarrow> bool"
  assumes dec_law: "wf x \<Longrightarrow> reads bs it (ser x) \<Longrightarrow> dec bs it = Some (rcv x, length (ser x))"
begin

lemma dec_dest: "reads bs it (ser x) \<Longrightarrow> wf x \<Longrightarrow> dec bs it = Some (rcv x, length (ser x))"
  by (rule dec_law)

lemma dec_each_ok:
  assumes "\<forall>x \<in> set xs. wf x" and "reads bs it (concat (map ser xs))" and "n = length xs"
  shows "dec_each (dec bs) n (it, sz) =
    Some (map rcv xs, it + length (concat (map ser xs)), sz + length (concat (map ser xs)))"
  using assms
proof (induction xs arbitrary: n rule: rev_induct)
  case Nil
  then show ?case by (simp add: dec_each_def)
next
  case (snoc x xs)
  have "dec_each (dec bs) (length xs) (it, sz) =
      Some (map rcv xs, it + length (concat (map ser xs)), sz + length (concat (map ser xs)))"
    using snoc.prems by (intro snoc.IH) (auto simp: reads_append)
  moreover have "dec bs (it + length (concat (map ser xs))) = Some (rcv x, length (ser x))"
    using snoc.prems by (intro dec_law) (auto simp: reads_append)
  ultimately show ?case
    using snoc.prems(3) by (simp add: dec_each_def for_loop_append)
qed

end

text \<open>Single 32 bit words: the elements of the integer arrays.\<close>

definition fill_u32 :: "block \<Rightarrow> nat \<Rightarrow> u32 \<Rightarrow> (block \<times> nat) option" where
  "fill_u32 buf it w = do {
     buf \<leftarrow> memcpy_to buf it (le_bytes 4 w);
     Some (buf, 4)
   }"

definition dec_u32 :: "byte list \<Rightarrow> nat \<Rightarrow> (u32 \<times> nat) option" where
  "dec_u32 bs it = do {
     b \<leftarrow> memcpy_from bs it 4;
     Some (of_le_bytes b, 4)
   }"

interpretation u32w: field_writer "le_bytes 4" "\<lambda>_. fill_u32" "\<lambda>_. True"
  by unfold_locales (simp add: fill_u32_def)

interpretation u32r: field_reader "le_bytes 4" dec_u32 "\<lambda>w. w" "\<lambda>_. True"
  by unfold_locales (simp add: dec_u32_def reads_word)

end
