(* ===== verification/SliceIe.thy ===== *)
theory SliceIe
  imports FieldCodec begin

text \<open>
  The slice service model, part one: the information elements (\<^verbatim>\<open>sm/slice_sm/ie/slice_data_ie.h\<close>) and
  their comparison and copy functions (\<^verbatim>\<open>slice_data_ie.c\<close>). A tagged union is a datatype; its last
  constructor stands for the tag values the code calls unknown. The arrays behind pointers are
  lists; the first \<open>len\<close> elements count. \<^verbatim>\<open>float\<close> members are kept as their IEEE single bits. The
  functions that only abort, and those that only free memory, have no definition.
\<close>

section \<open>Information elements\<close>

record static_slice =
  st_pos_low :: u32
  st_pos_high :: u32

record nvs_rate =
  nr_required :: u32
  nr_reference :: u32

datatype nvs_slice =
    Nvs_rate nvs_rate
  | Nvs_capacity u32
  | Nvs_unknown u32

record scn19_on_demand =
  od_pct_reserved :: u32
  od_log_delta :: u32
  od_tau :: u32

datatype scn19_slice =
    Scn19_dynamic nvs_rate
  | Scn19_fixed static_slice
  | Scn19_on_demand scn19_on_demand
  | Scn19_unknown u32

record edf_slice =
  ed_deadline :: u32
  ed_guaranteed_prbs :: u32
  ed_max_replenish :: u32
  ed_len_over :: u32
  ed_over :: "u32 list"

datatype slice_params =
    Params_static static_slice
  | Params_nvs nvs_slice
  | Params_scn19 scn19_slice
  | Params_edf edf_slice
  | Params_unknown u32

record fr_slice =
  fs_id :: u32
  fs_len_label :: u32
  fs_label :: "byte list"
  fs_len_sched :: u32
  fs_sched :: "byte list"
  fs_params :: slice_params

record ul_dl_slice_conf =
  ud_len_slices :: u32
  ud_slices :: "fr_slice list"
  ud_len_sched_name :: u32
  ud_sched_name :: "byte list"

record slice_conf =
  sl_dl :: ul_dl_slice_conf
  sl_ul :: ul_dl_slice_conf

record ue_slice_assoc =
  ua_dl_id :: u32
  ua_ul_id :: u32
  ua_rnti :: u16

record ue_slice_conf =
  us_len_ue_slice :: u32
  us_ues :: "ue_slice_assoc list"

record slice_ind_msg =
  sm_slice_conf :: slice_conf
  sm_ue_slice_conf :: ue_slice_conf
  sm_tstamp :: u64

record del_slice_conf =
  dl_len_dl :: u32
  dl_dl :: "u32 list"
  dl_len_ul :: u32
  dl_ul :: "u32 list"

datatype slice_ctrl_msg =
    Ctrl_add slice_conf
  | Ctrl_del del_slice_conf
  | Ctrl_ue_assoc ue_slice_conf
  | Ctrl_unknown u32

record slice_ctrl_out =
  co_ans :: u32
  co_len_diag :: u32
  co_diagnostic :: "byte list"

record slice_func_def =
  fd_len_alg :: u32
  fd_alg :: "u32 list"

text \<open>The tags, \<^verbatim>\<open>nvs_slice_conf_e\<close>, \<^verbatim>\<open>scn19_slice_conf_e\<close>, \<^verbatim>\<open>slice_algorithm_e\<close>.\<close>

fun nvs_conf :: "nvs_slice \<Rightarrow> u32" where
  "nvs_conf (Nvs_rate _) = 0"
| "nvs_conf (Nvs_capacity _) = 1"
| "nvs_conf (Nvs_unknown c) = c"

fun scn19_conf :: "scn19_slice \<Rightarrow> u32" where
  "scn19_conf (Scn19_dynamic _) = 0"
| "scn19_conf (Scn19_fixed _) = 1"
| "scn19_conf (Scn19_on_demand _) = 2"
| "scn19_conf (Scn19_unknown c) = c"

fun params_type :: "slice_params \<Rightarrow> u32" where
  "params_type (Params_static _) = 1"
| "params_type (Params_nvs _) = 2"
| "params_type (Params_scn19 _) = 3"
| "params_type (Params_edf _) = 4"
| "params_type (Params_unknown t) = t"

section \<open>Comparison\<close>

text \<open>\<^verbatim>\<open>==\<close> of two \<^verbatim>\<open>float\<close>: a NaN differs from everything, the two zeros are equal.\<close>

definition float_nan :: "u32 \<Rightarrow> bool" where
  "float_nan x \<longleftrightarrow> take_bit 31 x > 0x7F800000"

definition float_eq :: "u32 \<Rightarrow> u32 \<Rightarrow> bool" where
  "float_eq x y \<longleftrightarrow> \<not> float_nan x \<and> \<not> float_nan y \<and> (x = y \<or> take_bit 31 x = 0 \<and> take_bit 31 y = 0)"

lemma float_eq_refl [simp]: "float_eq x x \<longleftrightarrow> \<not> float_nan x"
  by (simp add: float_eq_def)

definition eq_static_slice :: "static_slice \<Rightarrow> static_slice \<Rightarrow> bool" where
  "eq_static_slice m0 m1 \<longleftrightarrow> st_pos_high m0 = st_pos_high m1 \<and> st_pos_low m0 = st_pos_low m1"

definition eq_nvs_rate :: "nvs_rate \<Rightarrow> nvs_rate \<Rightarrow> bool" where
  "eq_nvs_rate m0 m1 \<longleftrightarrow>
     float_eq (nr_reference m0) (nr_reference m1) \<and> float_eq (nr_required m0) (nr_required m1)"

definition eq_nvs_cap :: "u32 \<Rightarrow> u32 \<Rightarrow> bool" where
  "eq_nvs_cap m0 m1 \<longleftrightarrow> float_eq m0 m1"

text \<open>The \<^verbatim>\<open>assert\<close> of a string literal in the last branch holds; the result stays false there.\<close>

fun eq_nvs_slice :: "nvs_slice \<Rightarrow> nvs_slice \<Rightarrow> bool" where
  "eq_nvs_slice (Nvs_rate r0) (Nvs_rate r1) = eq_nvs_rate r0 r1"
| "eq_nvs_slice (Nvs_capacity c0) (Nvs_capacity c1) = eq_nvs_cap c0 c1"
| "eq_nvs_slice _ _ = False"

definition eq_scn19_on_demand :: "scn19_on_demand \<Rightarrow> scn19_on_demand \<Rightarrow> bool" where
  "eq_scn19_on_demand m0 m1 \<longleftrightarrow>
     float_eq (od_log_delta m0) (od_log_delta m1) \<and>
     float_eq (od_pct_reserved m0) (od_pct_reserved m1) \<and>
     od_tau m0 = od_tau m1"

fun eq_scn19_slice :: "scn19_slice \<Rightarrow> scn19_slice \<Rightarrow> bool" where
  "eq_scn19_slice (Scn19_dynamic r0) (Scn19_dynamic r1) = eq_nvs_rate r0 r1"
| "eq_scn19_slice (Scn19_fixed f0) (Scn19_fixed f1) = eq_static_slice f0 f1"
| "eq_scn19_slice (Scn19_on_demand d0) (Scn19_on_demand d1) = eq_scn19_on_demand d0 d1"
| "eq_scn19_slice _ _ = False"

text \<open>The comparison loop of two integer arrays.\<close>

definition eq_words :: "u32 list \<Rightarrow> u32 list \<Rightarrow> nat \<Rightarrow> bool option" where
  "eq_words xs ys n =
     all_loop (\<lambda>i. do { x \<leftarrow> arr_at xs i; y \<leftarrow> arr_at ys i; Some (x = y) }) [0..<n]"

text \<open>The arrays are compared before the lengths are.\<close>

definition eq_edf_slice :: "edf_slice \<Rightarrow> edf_slice \<Rightarrow> bool option" where
  "eq_edf_slice m0 m1 = do {
     b \<leftarrow> eq_words (ed_over m0) (ed_over m1) (unat (ed_len_over m0));
     Some (b \<and> ed_deadline m0 = ed_deadline m1 \<and>
           ed_guaranteed_prbs m0 = ed_guaranteed_prbs m1 \<and>
           ed_max_replenish m0 = ed_max_replenish m1 \<and>
           ed_len_over m0 = ed_len_over m1)
   }"

fun eq_slice_params :: "slice_params \<Rightarrow> slice_params \<Rightarrow> bool option" where
  "eq_slice_params (Params_static s0) (Params_static s1) = Some (eq_static_slice s0 s1)"
| "eq_slice_params (Params_nvs n0) (Params_nvs n1) = Some (eq_nvs_slice n0 n1)"
| "eq_slice_params (Params_scn19 s0) (Params_scn19 s1) = Some (eq_scn19_slice s0 s1)"
| "eq_slice_params (Params_edf e0) (Params_edf e1) = eq_edf_slice e0 e1"
| "eq_slice_params _ _ = Some False"

text \<open>\<^verbatim>\<open>memcmp(a, b, n) == 0\<close>.\<close>

definition c_memcmp_eq :: "byte list \<Rightarrow> byte list \<Rightarrow> nat \<Rightarrow> bool option" where
  "c_memcmp_eq a b n =
     (if n \<le> length a \<and> n \<le> length b then Some (take n a = take n b) else None)"

text \<open>The scheduler strings are compared by their length only.\<close>

definition eq_slice :: "fr_slice \<Rightarrow> fr_slice \<Rightarrow> bool option" where
  "eq_slice m0 m1 =
     (if fs_id m0 \<noteq> fs_id m1 then Some False
      else if fs_len_label m0 \<noteq> fs_len_label m1 then Some False
      else do {
        same \<leftarrow> c_memcmp_eq (fs_label m0) (fs_label m1) (unat (fs_len_label m0));
        if \<not> same then Some False
        else if fs_len_sched m0 \<noteq> fs_len_sched m1 then Some False
        else eq_slice_params (fs_params m0) (fs_params m1)
      })"

definition eq_ul_dl_slice_conf :: "ul_dl_slice_conf \<Rightarrow> ul_dl_slice_conf \<Rightarrow> bool option" where
  "eq_ul_dl_slice_conf m0 m1 =
     (if ud_len_sched_name m0 \<noteq> ud_len_sched_name m1 then Some False
      else if ud_len_slices m0 \<noteq> ud_len_slices m1 then Some False
      else do {
        same \<leftarrow> c_memcmp_eq (ud_sched_name m0) (ud_sched_name m1) (unat (ud_len_sched_name m0));
        if \<not> same then Some False
        else all_loop (\<lambda>i. do {
               s0 \<leftarrow> arr_at (ud_slices m0) i;
               s1 \<leftarrow> arr_at (ud_slices m1) i;
               eq_slice s0 s1
             }) [0..<unat (ud_len_slices m0)]
      })"

text \<open>\<^verbatim>\<open>&&\<close> of two calls: the second one is made only when the first returns true.\<close>

definition eq_slice_conf :: "slice_conf \<Rightarrow> slice_conf \<Rightarrow> bool option" where
  "eq_slice_conf m0 m1 = do {
     b \<leftarrow> eq_ul_dl_slice_conf (sl_ul m0) (sl_ul m1);
     if b then eq_ul_dl_slice_conf (sl_dl m0) (sl_dl m1) else Some False
   }"

definition eq_ue_slice_assoc :: "ue_slice_assoc \<Rightarrow> ue_slice_assoc \<Rightarrow> bool" where
  "eq_ue_slice_assoc m0 m1 \<longleftrightarrow>
     ua_dl_id m0 = ua_dl_id m1 \<and> ua_rnti m0 = ua_rnti m1 \<and> ua_ul_id m0 = ua_ul_id m1"

definition eq_ue_slice_conf :: "ue_slice_conf \<Rightarrow> ue_slice_conf \<Rightarrow> bool option" where
  "eq_ue_slice_conf m0 m1 =
     (if us_len_ue_slice m0 \<noteq> us_len_ue_slice m1 then Some False
      else all_loop (\<lambda>i. do {
             a0 \<leftarrow> arr_at (us_ues m0) i;
             a1 \<leftarrow> arr_at (us_ues m1) i;
             Some (eq_ue_slice_assoc a0 a1)
           }) [0..<unat (us_len_ue_slice m0)])"

definition eq_slice_ind_msg :: "slice_ind_msg \<Rightarrow> slice_ind_msg \<Rightarrow> bool option" where
  "eq_slice_ind_msg m0 m1 = do {
     b \<leftarrow> eq_slice_conf (sm_slice_conf m0) (sm_slice_conf m1);
     b \<leftarrow> if b then eq_ue_slice_conf (sm_ue_slice_conf m0) (sm_ue_slice_conf m1) else Some False;
     Some (b \<and> sm_tstamp m0 = sm_tstamp m1)
   }"

definition eq_del_slice :: "del_slice_conf \<Rightarrow> del_slice_conf \<Rightarrow> bool option" where
  "eq_del_slice m0 m1 =
     (if dl_len_dl m0 \<noteq> dl_len_dl m1 then Some False
      else do {
        b \<leftarrow> eq_words (dl_dl m0) (dl_dl m1) (unat (dl_len_dl m0));
        if \<not> b then Some False
        else if dl_len_ul m0 \<noteq> dl_len_ul m1 then Some False
        else eq_words (dl_ul m0) (dl_ul m1) (unat (dl_len_ul m0))
      })"

definition eq_slice_ctrl_out :: "slice_ctrl_out \<Rightarrow> slice_ctrl_out \<Rightarrow> bool option" where
  "eq_slice_ctrl_out m0 m1 =
     (if co_len_diag m0 \<noteq> co_len_diag m1 then Some False
      else if 0 < co_len_diag m0
      then c_memcmp_eq (co_diagnostic m0) (co_diagnostic m1) (unat (co_len_diag m0))
      else Some True)"

definition eq_slice_func_def :: "slice_func_def \<Rightarrow> slice_func_def \<Rightarrow> bool option" where
  "eq_slice_func_def m0 m1 =
     (if fd_len_alg m0 \<noteq> fd_len_alg m1 then Some False
      else eq_words (fd_alg m0) (fd_alg m1) (unat (fd_len_alg m0)))"

section \<open>Copies\<close>

text \<open>\<^verbatim>\<open>for(i = 0; i < n; ++i) dst[i] = cp(&src[i])\<close> into a new array of \<open>n\<close> elements.\<close>

definition copy_each :: "('x \<Rightarrow> 'x option) \<Rightarrow> 'x list \<Rightarrow> nat \<Rightarrow> 'x list option" where
  "copy_each cp src n =
     for_loop (\<lambda>i dst. do {
         x \<leftarrow> arr_at src i;
         y \<leftarrow> cp x;
         Some (dst @ [y])
       }) [0..<n] []"

lemma copy_each_if:
  assumes "n \<le> length xs" and "\<And>x. x \<in> set (take n xs) \<Longrightarrow> cp x = (if P x then Some (g x) else None)"
  shows "copy_each cp xs n = (if \<forall>x \<in> set (take n xs). P x then Some (map g (take n xs)) else None)"
  using assms
proof (induction n)
  case 0
  then show ?case by (simp add: copy_each_def)
next
  case (Suc n)
  have t: "take (Suc n) xs = take n xs @ [xs ! n]"
    using Suc.prems(1) by (simp add: take_Suc_conv_app_nth)
  have IH: "copy_each cp xs n = (if \<forall>x \<in> set (take n xs). P x then Some (map g (take n xs)) else None)"
    using Suc.prems by (intro Suc.IH) (auto simp: t)
  have "cp (xs ! n) = (if P (xs ! n) then Some (g (xs ! n)) else None)"
    using Suc.prems(2) by (simp add: t)
  with IH Suc.prems(1) show ?case
    by (auto simp: copy_each_def for_loop_append t arr_at_def)
qed

fun cp_scn19_slice :: "scn19_slice \<Rightarrow> scn19_slice option" where
  "cp_scn19_slice (Scn19_dynamic r) =
     Some (Scn19_dynamic \<lparr>nr_required = nr_required r, nr_reference = nr_reference r\<rparr>)"
| "cp_scn19_slice (Scn19_fixed f) =
     Some (Scn19_fixed \<lparr>st_pos_low = st_pos_low f, st_pos_high = st_pos_high f\<rparr>)"
| "cp_scn19_slice (Scn19_on_demand d) =
     Some (Scn19_on_demand \<lparr>od_pct_reserved = od_pct_reserved d, od_log_delta = od_log_delta d,
                            od_tau = od_tau d\<rparr>)"
| "cp_scn19_slice (Scn19_unknown _) = None"

text \<open>
  The EDF branch copies the array through the \<^verbatim>\<open>NULL\<close> pointer of the zeroed copy: with a positive
  length its first assignment is an invalid write. At the end the copy is compared with the source.
\<close>

definition cp_slice_params :: "slice_params \<Rightarrow> slice_params option" where
  "cp_slice_params src = do {
     dst \<leftarrow> (case src of
         Params_static s \<Rightarrow> Some (Params_static \<lparr>st_pos_low = st_pos_low s, st_pos_high = st_pos_high s\<rparr>)
       | Params_nvs (Nvs_rate r) \<Rightarrow>
           Some (Params_nvs (Nvs_rate \<lparr>nr_required = nr_required r, nr_reference = nr_reference r\<rparr>))
       | Params_nvs (Nvs_capacity c) \<Rightarrow> Some (Params_nvs (Nvs_capacity c))
       | Params_nvs (Nvs_unknown _) \<Rightarrow> None
       | Params_scn19 s \<Rightarrow> map_option Params_scn19 (cp_scn19_slice s)
       | Params_edf e \<Rightarrow> do {
           over \<leftarrow> for_loop (\<lambda>i over. do {
               v \<leftarrow> arr_at (ed_over e) i;
               c_assert (i < length over);
               Some (over[i := v])
             }) [0..<unat (ed_len_over e)] [];
           Some (Params_edf \<lparr>ed_deadline = ed_deadline e, ed_guaranteed_prbs = ed_guaranteed_prbs e,
             ed_max_replenish = ed_max_replenish e, ed_len_over = ed_len_over e, ed_over = over\<rparr>)
         }
       | Params_unknown _ \<Rightarrow> None);
     same \<leftarrow> eq_slice_params dst src;
     c_assert same;
     Some dst
   }"

text \<open>The copy of a string: no array at all for the length 0.\<close>

definition cp_string :: "byte list \<Rightarrow> nat \<Rightarrow> byte list option" where
  "cp_string src n = (if 0 < n then copy_array src n else Some [])"

definition cpy_slice :: "fr_slice \<Rightarrow> fr_slice option" where
  "cpy_slice src = do {
     label \<leftarrow> cp_string (fs_label src) (unat (fs_len_label src));
     sched \<leftarrow> cp_string (fs_sched src) (unat (fs_len_sched src));
     params \<leftarrow> cp_slice_params (fs_params src);
     let dst = \<lparr>fs_id = fs_id src, fs_len_label = fs_len_label src, fs_label = label,
                fs_len_sched = fs_len_sched src, fs_sched = sched, fs_params = params\<rparr>;
     same \<leftarrow> eq_slice src dst;
     c_assert same;
     Some dst
   }"

definition cpy_ul_dl_slice_conf :: "ul_dl_slice_conf \<Rightarrow> ul_dl_slice_conf option" where
  "cpy_ul_dl_slice_conf src = do {
     sched_name \<leftarrow> cp_string (ud_sched_name src) (unat (ud_len_sched_name src));
     slices \<leftarrow> copy_each cpy_slice (ud_slices src) (unat (ud_len_slices src));
     let dst = \<lparr>ud_len_slices = ud_len_slices src, ud_slices = slices,
                ud_len_sched_name = ud_len_sched_name src, ud_sched_name = sched_name\<rparr>;
     same \<leftarrow> eq_ul_dl_slice_conf src dst;
     c_assert same;
     Some dst
   }"

definition cp_slice_conf :: "slice_conf \<Rightarrow> slice_conf option" where
  "cp_slice_conf src = do {
     dl \<leftarrow> cpy_ul_dl_slice_conf (sl_dl src);
     ul \<leftarrow> cpy_ul_dl_slice_conf (sl_ul src);
     let dst = \<lparr>sl_dl = dl, sl_ul = ul\<rparr>;
     same \<leftarrow> eq_slice_conf src dst;
     c_assert same;
     Some dst
   }"

definition cp_ue_slice_assoc :: "ue_slice_assoc \<Rightarrow> ue_slice_assoc" where
  "cp_ue_slice_assoc src =
     \<lparr>ua_dl_id = ua_dl_id src, ua_ul_id = ua_ul_id src, ua_rnti = ua_rnti src\<rparr>"

definition cp_ue_slice_conf :: "ue_slice_conf \<Rightarrow> ue_slice_conf option" where
  "cp_ue_slice_conf src = do {
     ues \<leftarrow> copy_each (\<lambda>a. Some (cp_ue_slice_assoc a)) (us_ues src) (unat (us_len_ue_slice src));
     Some \<lparr>us_len_ue_slice = us_len_ue_slice src, us_ues = ues\<rparr>
   }"

definition cp_slice_ind_msg :: "slice_ind_msg \<Rightarrow> slice_ind_msg option" where
  "cp_slice_ind_msg src = do {
     slice_conf \<leftarrow> cp_slice_conf (sm_slice_conf src);
     ue_slice_conf \<leftarrow> cp_ue_slice_conf (sm_ue_slice_conf src);
     let out = \<lparr>sm_slice_conf = slice_conf, sm_ue_slice_conf = ue_slice_conf, sm_tstamp = sm_tstamp src\<rparr>;
     same \<leftarrow> eq_slice_ind_msg src out;
     c_assert same;
     Some out
   }"

definition cp_del_slice :: "del_slice_conf \<Rightarrow> del_slice_conf option" where
  "cp_del_slice src = do {
     (len_dl, dl) \<leftarrow> (if 0 < dl_len_dl src
        then do { dl \<leftarrow> copy_each Some (dl_dl src) (unat (dl_len_dl src)); Some (dl_len_dl src, dl) }
        else Some (0, []));
     (len_ul, ul) \<leftarrow> (if 0 < dl_len_ul src
        then do { ul \<leftarrow> copy_each Some (dl_ul src) (unat (dl_len_ul src)); Some (dl_len_ul src, ul) }
        else Some (0, []));
     Some \<lparr>dl_len_dl = len_dl, dl_dl = dl, dl_len_ul = len_ul, dl_ul = ul\<rparr>
   }"

fun cp_slice_ctrl_msg :: "slice_ctrl_msg \<Rightarrow> slice_ctrl_msg option" where
  "cp_slice_ctrl_msg (Ctrl_add c) = map_option Ctrl_add (cp_slice_conf c)"
| "cp_slice_ctrl_msg (Ctrl_del d) = map_option Ctrl_del (cp_del_slice d)"
| "cp_slice_ctrl_msg (Ctrl_ue_assoc u) = map_option Ctrl_ue_assoc (cp_ue_slice_conf u)"
| "cp_slice_ctrl_msg (Ctrl_unknown _) = None"

text \<open>The answer is not copied; it is 0 in the copy.\<close>

definition cp_slice_ctrl_out :: "slice_ctrl_out \<Rightarrow> slice_ctrl_out option" where
  "cp_slice_ctrl_out src = do {
     diagnostic \<leftarrow> cp_string (co_diagnostic src) (unat (co_len_diag src));
     Some \<lparr>co_ans = 0, co_len_diag = co_len_diag src, co_diagnostic = diagnostic\<rparr>
   }"

definition cp_slice_func_def :: "slice_func_def \<Rightarrow> slice_func_def option" where
  "cp_slice_func_def src = do {
     alg \<leftarrow> copy_each Some (fd_alg src) (unat (fd_len_alg src));
     Some \<lparr>fd_len_alg = fd_len_alg src, fd_alg = alg\<rparr>
   }"

section \<open>Which messages can be copied\<close>

fun nvs_slice_numbers :: "nvs_slice \<Rightarrow> bool" where
  "nvs_slice_numbers (Nvs_rate r) \<longleftrightarrow> \<not> float_nan (nr_required r) \<and> \<not> float_nan (nr_reference r)"
| "nvs_slice_numbers (Nvs_capacity c) \<longleftrightarrow> \<not> float_nan c"
| "nvs_slice_numbers (Nvs_unknown _) \<longleftrightarrow> False"

fun scn19_slice_numbers :: "scn19_slice \<Rightarrow> bool" where
  "scn19_slice_numbers (Scn19_dynamic r) \<longleftrightarrow> \<not> float_nan (nr_required r) \<and> \<not> float_nan (nr_reference r)"
| "scn19_slice_numbers (Scn19_fixed _) \<longleftrightarrow> True"
| "scn19_slice_numbers (Scn19_on_demand d) \<longleftrightarrow> \<not> float_nan (od_log_delta d) \<and> \<not> float_nan (od_pct_reserved d)"
| "scn19_slice_numbers (Scn19_unknown _) \<longleftrightarrow> False"

fun copyable :: "slice_params \<Rightarrow> bool" where
  "copyable (Params_static _) \<longleftrightarrow> True"
| "copyable (Params_nvs n) \<longleftrightarrow> nvs_slice_numbers n"
| "copyable (Params_scn19 s) \<longleftrightarrow> scn19_slice_numbers s"
| "copyable (Params_edf e) \<longleftrightarrow> ed_len_over e = 0"
| "copyable (Params_unknown _) \<longleftrightarrow> False"

text \<open>The copies hold just the counted elements.\<close>

fun trunc_params :: "slice_params \<Rightarrow> slice_params" where
  "trunc_params (Params_edf e) = Params_edf (e\<lparr>ed_over := []\<rparr>)"
| "trunc_params p = p"

definition trunc_slice :: "fr_slice \<Rightarrow> fr_slice" where
  "trunc_slice s = s\<lparr>fs_label := take (unat (fs_len_label s)) (fs_label s),
                     fs_sched := take (unat (fs_len_sched s)) (fs_sched s),
                     fs_params := trunc_params (fs_params s)\<rparr>"

definition trunc_ul_dl :: "ul_dl_slice_conf \<Rightarrow> ul_dl_slice_conf" where
  "trunc_ul_dl c = c\<lparr>ud_slices := map trunc_slice (take (unat (ud_len_slices c)) (ud_slices c)),
                     ud_sched_name := take (unat (ud_len_sched_name c)) (ud_sched_name c)\<rparr>"

definition trunc_ind_msg :: "slice_ind_msg \<Rightarrow> slice_ind_msg" where
  "trunc_ind_msg m =
     \<lparr>sm_slice_conf = \<lparr>sl_dl = trunc_ul_dl (sl_dl (sm_slice_conf m)), sl_ul = trunc_ul_dl (sl_ul (sm_slice_conf m))\<rparr>,
      sm_ue_slice_conf = (sm_ue_slice_conf m)
        \<lparr>us_ues := take (unat (us_len_ue_slice (sm_ue_slice_conf m))) (us_ues (sm_ue_slice_conf m))\<rparr>,
      sm_tstamp = sm_tstamp m\<rparr>"

text \<open>The arrays have at least the counted elements.\<close>

fun params_wf :: "slice_params \<Rightarrow> bool" where
  "params_wf (Params_edf e) \<longleftrightarrow> unat (ed_len_over e) \<le> length (ed_over e)"
| "params_wf _ \<longleftrightarrow> True"

definition slice_wf :: "fr_slice \<Rightarrow> bool" where
  "slice_wf s \<longleftrightarrow> unat (fs_len_label s) \<le> length (fs_label s) \<and>
     unat (fs_len_sched s) \<le> length (fs_sched s) \<and> params_wf (fs_params s)"

definition ul_dl_wf :: "ul_dl_slice_conf \<Rightarrow> bool" where
  "ul_dl_wf c \<longleftrightarrow> unat (ud_len_sched_name c) \<le> length (ud_sched_name c) \<and>
     unat (ud_len_slices c) = length (ud_slices c) \<and> (\<forall>s \<in> set (ud_slices c). slice_wf s)"

definition ue_conf_wf :: "ue_slice_conf \<Rightarrow> bool" where
  "ue_conf_wf u \<longleftrightarrow> unat (us_len_ue_slice u) \<le> length (us_ues u)"

definition slice_conf_wf :: "slice_conf \<Rightarrow> bool" where
  "slice_conf_wf c \<longleftrightarrow> ul_dl_wf (sl_dl c) \<and> ul_dl_wf (sl_ul c)"

definition slice_ind_msg_wf :: "slice_ind_msg \<Rightarrow> bool" where
  "slice_ind_msg_wf m \<longleftrightarrow> slice_conf_wf (sm_slice_conf m) \<and> ue_conf_wf (sm_ue_slice_conf m)"

lemma eq_words_self:
  "n \<le> length xs \<Longrightarrow> n \<le> length ys \<Longrightarrow> eq_words xs ys n = Some (take n xs = take n ys)"
  unfolding eq_words_def
  by (subst all_loop_Some [where P = "\<lambda>i. xs ! i = ys ! i"])
    (auto simp: arr_at_def list_eq_iff_nth_eq)

lemma cp_string_ok [simp]: "n \<le> length s \<Longrightarrow> cp_string s n = Some (take n s)"
  by (simp add: cp_string_def copy_array_def)

lemma memcmp_take [simp]: "n \<le> length s \<Longrightarrow> c_memcmp_eq s (take n s) n = Some True"
  by (simp add: c_memcmp_eq_def)

lemma cp_slice_params:
  assumes "params_wf p"
  shows "cp_slice_params p = (if copyable p then Some (trunc_params p) else None)"
proof (cases p)
  case (Params_static s)
  then show ?thesis by (cases s) (simp add: cp_slice_params_def eq_static_slice_def)
next
  case (Params_nvs n)
  then show ?thesis by (cases n) (auto simp: cp_slice_params_def eq_nvs_rate_def eq_nvs_cap_def)
next
  case (Params_scn19 s)
  then show ?thesis
    by (cases s) (auto simp: cp_slice_params_def eq_nvs_rate_def eq_static_slice_def eq_scn19_on_demand_def)
next
  case (Params_edf e)
  show ?thesis
  proof (cases "ed_len_over e = 0")
    case True
    then show ?thesis using Params_edf
      by (cases e) (simp add: cp_slice_params_def eq_edf_slice_def eq_words_def)
  next
    case False
    then have "[0..<unat (ed_len_over e)] = 0 # [1..<unat (ed_len_over e)]"
      by (simp add: upt_rec unat_gt_0)
    with False Params_edf show ?thesis
      by (auto simp: cp_slice_params_def arr_at_def split: Option.bind_splits)
  qed
qed (simp add: cp_slice_params_def)

lemma eq_params_trunc: "copyable p \<Longrightarrow> eq_slice_params p (trunc_params p) = Some True"
proof (cases p)
  case (Params_nvs n)
  then show "copyable p \<Longrightarrow> ?thesis" by (cases n) (simp_all add: eq_nvs_rate_def eq_nvs_cap_def)
next
  case (Params_scn19 s)
  then show "copyable p \<Longrightarrow> ?thesis"
    by (cases s) (simp_all add: eq_nvs_rate_def eq_static_slice_def eq_scn19_on_demand_def)
qed (simp_all add: eq_static_slice_def eq_edf_slice_def eq_words_def)

lemma eq_slice_trunc:
  "slice_wf s \<Longrightarrow> copyable (fs_params s) \<Longrightarrow> eq_slice s (trunc_slice s) = Some True"
  by (simp add: eq_slice_def trunc_slice_def slice_wf_def eq_params_trunc)

lemma cpy_slice:
  "slice_wf s \<Longrightarrow> cpy_slice s = (if copyable (fs_params s) then Some (trunc_slice s) else None)"
proof -
  assume wf: "slice_wf s"
  have "\<lparr>fs_id = fs_id s, fs_len_label = fs_len_label s, fs_label = take (unat (fs_len_label s)) (fs_label s),
         fs_len_sched = fs_len_sched s, fs_sched = take (unat (fs_len_sched s)) (fs_sched s),
         fs_params = trunc_params (fs_params s)\<rparr> = trunc_slice s"
    by (simp add: trunc_slice_def)
  with wf show ?thesis
    by (simp add: cpy_slice_def Let_def slice_wf_def cp_slice_params eq_slice_trunc)
qed

lemma eq_ul_dl_trunc:
  assumes "ul_dl_wf c" and "\<forall>s \<in> set (ud_slices c). copyable (fs_params s)"
  shows "eq_ul_dl_slice_conf c (trunc_ul_dl c) = Some True"
proof -
  have "all_loop (\<lambda>i. arr_at (ud_slices c) i \<bind> (\<lambda>s0. arr_at (map trunc_slice (ud_slices c)) i \<bind> eq_slice s0))
      [0..<unat (ud_len_slices c)] = Some True"
    using assms
    by (subst all_loop_Some [where P = "\<lambda>_. True"]) (auto simp: arr_at_def ul_dl_wf_def eq_slice_trunc)
  then show ?thesis
    using assms(1) by (simp add: eq_ul_dl_slice_conf_def trunc_ul_dl_def ul_dl_wf_def)
qed

lemma cpy_ul_dl:
  assumes "ul_dl_wf c"
  shows "cpy_ul_dl_slice_conf c =
    (if \<forall>s \<in> set (ud_slices c). copyable (fs_params s) then Some (trunc_ul_dl c) else None)"
proof -
  have "copy_each cpy_slice (ud_slices c) (unat (ud_len_slices c)) =
      (if \<forall>s \<in> set (ud_slices c). copyable (fs_params s)
       then Some (map trunc_slice (ud_slices c)) else None)"
    using assms copy_each_if [of "unat (ud_len_slices c)" "ud_slices c" cpy_slice
        "\<lambda>s. copyable (fs_params s)" trunc_slice]
    by (simp add: ul_dl_wf_def cpy_slice)
  moreover have "\<lparr>ud_len_slices = ud_len_slices c, ud_slices = map trunc_slice (ud_slices c),
      ud_len_sched_name = ud_len_sched_name c,
      ud_sched_name = take (unat (ud_len_sched_name c)) (ud_sched_name c)\<rparr> = trunc_ul_dl c"
    using assms by (simp add: trunc_ul_dl_def ul_dl_wf_def)
  ultimately show ?thesis
    using assms eq_ul_dl_trunc [of c]
    by (simp add: cpy_ul_dl_slice_conf_def Let_def) (simp add: ul_dl_wf_def)
qed

lemma cp_ue_slice_conf:
  "ue_conf_wf u \<Longrightarrow> cp_ue_slice_conf u = Some (u\<lparr>us_ues := take (unat (us_len_ue_slice u)) (us_ues u)\<rparr>)"
  using copy_each_if [of "unat (us_len_ue_slice u)" "us_ues u" "\<lambda>a. Some (cp_ue_slice_assoc a)"
      "\<lambda>_. True" "\<lambda>a. a"]
  by (cases u) (simp add: cp_ue_slice_conf_def ue_conf_wf_def cp_ue_slice_assoc_def)

lemma eq_ue_slice_conf_trunc:
  "ue_conf_wf u \<Longrightarrow>
   eq_ue_slice_conf u (u\<lparr>us_ues := take (unat (us_len_ue_slice u)) (us_ues u)\<rparr>) = Some True"
  unfolding eq_ue_slice_conf_def
  by (simp, subst all_loop_Some [where P = "\<lambda>_. True"])
    (auto simp: arr_at_def ue_conf_wf_def eq_ue_slice_assoc_def)

text \<open>C27: \<^verbatim>\<open>cp_slice_ind_msg\<close> copies a well-formed message exactly when no parameter has a NaN, an
  unknown tag or an EDF slice with a positive \<^verbatim>\<open>len_over\<close>; on all other ones it aborts or writes through
  a null pointer.\<close>

theorem cp_slice_ind_msg_iff:
  assumes "slice_ind_msg_wf m"
  shows "cp_slice_ind_msg m =
    (if \<forall>s \<in> set (ud_slices (sl_dl (sm_slice_conf m))) \<union> set (ud_slices (sl_ul (sm_slice_conf m))).
          copyable (fs_params s)
     then Some (trunc_ind_msg m) else None)"
proof (cases "\<forall>s \<in> set (ud_slices (sl_dl (sm_slice_conf m))) \<union> set (ud_slices (sl_ul (sm_slice_conf m))).
    copyable (fs_params s)")
  case True
  note wf = assms [unfolded slice_ind_msg_wf_def slice_conf_wf_def]
  have eq: "eq_ul_dl_slice_conf c (trunc_ul_dl c) = Some True" "cpy_ul_dl_slice_conf c = Some (trunc_ul_dl c)"
    if "c \<in> {sl_dl (sm_slice_conf m), sl_ul (sm_slice_conf m)}" for c
    using that True wf by (auto simp: eq_ul_dl_trunc cpy_ul_dl)
  show ?thesis
    using True wf
    by (simp add: cp_slice_ind_msg_def cp_slice_conf_def eq cp_ue_slice_conf Let_def
        eq_slice_ind_msg_def eq_slice_conf_def eq_ue_slice_conf_trunc trunc_ind_msg_def)
next
  case False
  then show ?thesis
    using assms by (auto simp: cp_slice_ind_msg_def cp_slice_conf_def cpy_ul_dl
        slice_ind_msg_wf_def slice_conf_wf_def)
qed

lemma cp_slice_ind_msg_iff_witness:
  "cp_slice_ind_msg
     \<lparr>sm_slice_conf = \<lparr>sl_dl = \<lparr>ud_len_slices = 1, ud_slices = [\<lparr>fs_id = 1, fs_len_label = 0, fs_label = [],
          fs_len_sched = 0, fs_sched = [], fs_params = Params_nvs (Nvs_capacity 0x7FC00000)\<rparr>],
          ud_len_sched_name = 0, ud_sched_name = []\<rparr>,
        sl_ul = \<lparr>ud_len_slices = 0, ud_slices = [], ud_len_sched_name = 0, ud_sched_name = []\<rparr>\<rparr>,
      sm_ue_slice_conf = \<lparr>us_len_ue_slice = 0, us_ues = []\<rparr>, sm_tstamp = 5\<rparr> = None"
  by (subst cp_slice_ind_msg_iff)
    (simp_all add: slice_ind_msg_wf_def slice_conf_wf_def ul_dl_wf_def slice_wf_def ue_conf_wf_def float_nan_def)

text \<open>Two slices that differ only in their scheduler string count as equal.\<close>

theorem eq_slice_ignores_sched:
  assumes "slice_wf s" and "copyable (fs_params s)"
  shows "eq_slice s ((trunc_slice s)\<lparr>fs_sched := sched\<rparr>) = Some True"
  using assms by (simp add: eq_slice_def trunc_slice_def slice_wf_def eq_params_trunc)

lemma eq_slice_ignores_sched_witness:
  "eq_slice \<lparr>fs_id = 1, fs_len_label = 0, fs_label = [], fs_len_sched = 1, fs_sched = [65],
       fs_params = Params_static \<lparr>st_pos_low = 0, st_pos_high = 3\<rparr>\<rparr>
     \<lparr>fs_id = 1, fs_len_label = 0, fs_label = [], fs_len_sched = 1, fs_sched = [66],
       fs_params = Params_static \<lparr>st_pos_low = 0, st_pos_high = 3\<rparr>\<rparr> = Some True"
  using eq_slice_ignores_sched [of "\<lparr>fs_id = 1, fs_len_label = 0, fs_label = [], fs_len_sched = 1, fs_sched = [65],
       fs_params = Params_static \<lparr>st_pos_low = 0, st_pos_high = 3\<rparr>\<rparr>" "[66]"]
  by (simp add: slice_wf_def trunc_slice_def)

end
