(* ===== verification/SliceSm.thy ===== *)
theory SliceSm
  imports SliceIe begin

text \<open>
  The slice service model, part two: the plain encoder (\<^verbatim>\<open>enc/slice_enc_plain.c\<close>) and decoder
  (\<^verbatim>\<open>dec/slice_dec_plain.c\<close>). The static functions \<^verbatim>\<open>fill_x\<close> of the two files are \<open>enc_fill_x\<close> and
  \<open>dec_fill_x\<close>; the static pointer \<^verbatim>\<open>end\<close> is the argument \<open>e\<close> of the writers that check it. Sizes are
  sums of object sizes, which \<^verbatim>\<open>size_t\<close> holds. Encoding an EDF slice replaces its array, so the
  writers of what contains one return the struct they leave behind.
\<close>

section \<open>Sizes\<close>

definition cal_static :: "static_slice \<Rightarrow> nat" where
  "cal_static _ = 4 + 4"

fun cal_nvs :: "nvs_slice \<Rightarrow> nat option" where
  "cal_nvs (Nvs_rate _) = Some (4 + 4 + 4)"
| "cal_nvs (Nvs_capacity _) = Some (4 + 4)"
| "cal_nvs (Nvs_unknown _) = None"

fun cal_scn19 :: "scn19_slice \<Rightarrow> nat option" where
  "cal_scn19 (Scn19_dynamic _) = Some (4 + 4 + 4)"
| "cal_scn19 (Scn19_fixed _) = Some (4 + 4 + 4)"
| "cal_scn19 (Scn19_on_demand _) = Some (4 + 4 + 4 + 4)"
| "cal_scn19 (Scn19_unknown _) = None"

definition cal_edf :: "edf_slice \<Rightarrow> nat" where
  "cal_edf edf = foldl (\<lambda>sz _. sz + 4) (4 + 4 + 4 + 4) [0..<unat (ed_len_over edf)]"

fun cal_params :: "slice_params \<Rightarrow> nat option" where
  "cal_params (Params_static s) = Some (4 + cal_static s)"
| "cal_params (Params_nvs n) = map_option (\<lambda>sz. 4 + sz) (cal_nvs n)"
| "cal_params (Params_scn19 s) = map_option (\<lambda>sz. 4 + sz) (cal_scn19 s)"
| "cal_params (Params_edf e) = Some (4 + cal_edf e)"
| "cal_params (Params_unknown _) = None"

definition cal_slc :: "nat \<Rightarrow> fr_slice list \<Rightarrow> nat option" where
  "cal_slc len slc =
     for_loop (\<lambda>i total. do {
         s \<leftarrow> arr_at slc i;
         sz_par \<leftarrow> cal_params (fs_params s);
         Some (total + (4 + 4 + unat (fs_len_label s) + 4 + unat (fs_len_sched s) + sz_par))
       }) [0..<len] 0"

definition cal_ul_dl :: "ul_dl_slice_conf \<Rightarrow> nat option" where
  "cal_ul_dl slc = do {
     sz_slice \<leftarrow> cal_slc (unat (ud_len_slices slc)) (ud_slices slc);
     Some (4 + unat (ud_len_sched_name slc) + 4 + sz_slice)
   }"

definition cal_slice_conf :: "slice_conf \<Rightarrow> nat option" where
  "cal_slice_conf slc = do {
     ul \<leftarrow> cal_ul_dl (sl_ul slc);
     dl \<leftarrow> cal_ul_dl (sl_dl slc);
     Some (ul + dl)
   }"

definition cal_ue_slice_assoc :: "ue_slice_assoc \<Rightarrow> nat" where
  "cal_ue_slice_assoc _ = 4 + 4 + 2"

definition cal_ue_slice_conf :: "ue_slice_conf \<Rightarrow> nat option" where
  "cal_ue_slice_conf slc =
     for_loop (\<lambda>i sz. do {
         a \<leftarrow> arr_at (us_ues slc) i;
         Some (sz + cal_ue_slice_assoc a)
       }) [0..<unat (us_len_ue_slice slc)] 4"

definition cal_ind_msg_payload :: "slice_ind_msg \<Rightarrow> nat option" where
  "cal_ind_msg_payload m = do {
     sz_conf \<leftarrow> cal_slice_conf (sm_slice_conf m);
     sz_ues \<leftarrow> cal_ue_slice_conf (sm_ue_slice_conf m);
     Some (sz_conf + sz_ues + 8)
   }"

definition cal_del_slice :: "del_slice_conf \<Rightarrow> nat" where
  "cal_del_slice del = 4 + unat (dl_len_dl del) * 4 + 4 + unat (dl_len_ul del) * 4"

fun cal_ctrl_msg_payload :: "slice_ctrl_msg \<Rightarrow> nat option" where
  "cal_ctrl_msg_payload (Ctrl_add c) = map_option (\<lambda>sz. 4 + sz) (cal_slice_conf c)"
| "cal_ctrl_msg_payload (Ctrl_del d) = Some (4 + cal_del_slice d)"
| "cal_ctrl_msg_payload (Ctrl_ue_assoc u) = map_option (\<lambda>sz. 4 + sz) (cal_ue_slice_conf u)"
| "cal_ctrl_msg_payload (Ctrl_unknown _) = None"

section \<open>The writers\<close>

definition enc_fill_static :: "nat \<Rightarrow> block \<Rightarrow> nat \<Rightarrow> static_slice \<Rightarrow> (block \<times> nat) option" where
  "enc_fill_static e buf it sta = do {
     c_assert (it < e);
     buf \<leftarrow> memcpy_to buf it (le_bytes 4 (st_pos_high sta));
     let it = it + 4;
     let sz = 4;
     buf \<leftarrow> memcpy_to buf it (le_bytes 4 (st_pos_low sta));
     let sz = sz + 4;
     Some (buf, sz)
   }"

definition enc_fill_rate :: "block \<Rightarrow> nat \<Rightarrow> nvs_rate \<Rightarrow> (block \<times> nat) option" where
  "enc_fill_rate buf it nvs = do {
     buf \<leftarrow> memcpy_to buf it (le_bytes 4 (nr_reference nvs));
     let it = it + 4;
     let sz = 4;
     buf \<leftarrow> memcpy_to buf it (le_bytes 4 (nr_required nvs));
     let sz = sz + 4;
     Some (buf, sz)
   }"

definition enc_fill_capacity :: "block \<Rightarrow> nat \<Rightarrow> u32 \<Rightarrow> (block \<times> nat) option" where
  "enc_fill_capacity buf it cap = do {
     buf \<leftarrow> memcpy_to buf it (le_bytes 4 cap);
     let sz = 4;
     Some (buf, sz)
   }"

definition enc_fill_nvs :: "block \<Rightarrow> nat \<Rightarrow> nvs_slice \<Rightarrow> (block \<times> nat) option" where
  "enc_fill_nvs buf it nvs = do {
     buf \<leftarrow> memcpy_to buf it (le_bytes 4 (nvs_conf nvs));
     let it = it + 4;
     let sz = 4;
     (buf, n) \<leftarrow> (case nvs of
         Nvs_rate r \<Rightarrow> enc_fill_rate buf it r
       | Nvs_capacity c \<Rightarrow> enc_fill_capacity buf it c
       | Nvs_unknown _ \<Rightarrow> None);
     Some (buf, sz + n)
   }"

definition enc_fill_on_demand :: "block \<Rightarrow> nat \<Rightarrow> scn19_on_demand \<Rightarrow> (block \<times> nat) option" where
  "enc_fill_on_demand buf it scn = do {
     buf \<leftarrow> memcpy_to buf it (le_bytes 4 (od_log_delta scn));
     let it = it + 4;
     let sz = 4;
     buf \<leftarrow> memcpy_to buf it (le_bytes 4 (od_pct_reserved scn));
     let it = it + 4;
     let sz = sz + 4;
     buf \<leftarrow> memcpy_to buf it (le_bytes 4 (od_tau scn));
     let sz = sz + 4;
     Some (buf, sz)
   }"

definition enc_fill_scn19 :: "nat \<Rightarrow> block \<Rightarrow> nat \<Rightarrow> scn19_slice \<Rightarrow> (block \<times> nat) option" where
  "enc_fill_scn19 e buf it scn = do {
     buf \<leftarrow> memcpy_to buf it (le_bytes 4 (scn19_conf scn));
     let it = it + 4;
     let sz = 4;
     (buf, n) \<leftarrow> (case scn of
         Scn19_dynamic r \<Rightarrow> enc_fill_rate buf it r
       | Scn19_fixed f \<Rightarrow> enc_fill_static e buf it f
       | Scn19_on_demand d \<Rightarrow> enc_fill_on_demand buf it d
       | Scn19_unknown _ \<Rightarrow> None);
     Some (buf, sz + n)
   }"

text \<open>
  The array \<^verbatim>\<open>over\<close> of the struct to encode is replaced by a new one of zeros before it is written.
\<close>

definition enc_fill_edf :: "block \<Rightarrow> nat \<Rightarrow> edf_slice \<Rightarrow> (block \<times> nat \<times> edf_slice) option" where
  "enc_fill_edf buf it edf = do {
     buf \<leftarrow> memcpy_to buf it (le_bytes 4 (ed_deadline edf));
     let it = it + 4;
     let sz = 4;
     buf \<leftarrow> memcpy_to buf it (le_bytes 4 (ed_guaranteed_prbs edf));
     let it = it + 4;
     let sz = sz + 4;
     buf \<leftarrow> memcpy_to buf it (le_bytes 4 (ed_max_replenish edf));
     let it = it + 4;
     let sz = sz + 4;
     buf \<leftarrow> memcpy_to buf it (le_bytes 4 (ed_len_over edf));
     let it = it + 4;
     let sz = sz + 4;
     let edf = (if 0 < ed_len_over edf
                then edf\<lparr>ed_over := replicate (unat (ed_len_over edf)) 0\<rparr> else edf);
     (buf, it, sz) \<leftarrow> fill_each fill_u32 (ed_over edf) (unat (ed_len_over edf)) (buf, it, sz);
     Some (buf, sz, edf)
   }"

definition enc_fill_params ::
  "nat \<Rightarrow> block \<Rightarrow> nat \<Rightarrow> slice_params \<Rightarrow> (block \<times> nat \<times> slice_params) option" where
  "enc_fill_params e buf it par = do {
     buf \<leftarrow> memcpy_to buf it (le_bytes 4 (params_type par));
     let it = it + 4;
     let sz = 4;
     (buf, n, par) \<leftarrow> (case par of
         Params_static s \<Rightarrow> do { (buf, n) \<leftarrow> enc_fill_static e buf it s; Some (buf, n, par) }
       | Params_nvs s \<Rightarrow> do { (buf, n) \<leftarrow> enc_fill_nvs buf it s; Some (buf, n, par) }
       | Params_scn19 s \<Rightarrow> do { (buf, n) \<leftarrow> enc_fill_scn19 e buf it s; Some (buf, n, par) }
       | Params_edf s \<Rightarrow> do { (buf, n, s) \<leftarrow> enc_fill_edf buf it s; Some (buf, n, Params_edf s) }
       | Params_unknown _ \<Rightarrow> None);
     Some (buf, sz + n, par)
   }"

definition enc_fill_slice ::
  "nat \<Rightarrow> block \<Rightarrow> nat \<Rightarrow> fr_slice \<Rightarrow> (block \<times> nat \<times> fr_slice) option" where
  "enc_fill_slice e buf it slc = do {
     c_assert (it < e);
     buf \<leftarrow> memcpy_to buf it (le_bytes 4 (fs_id slc));
     let it = it + 4;
     let sz = 4;
     buf \<leftarrow> memcpy_to buf it (le_bytes 4 (fs_len_label slc));
     let it = it + 4;
     let sz = sz + 4;
     label \<leftarrow> copy_array (fs_label slc) (unat (fs_len_label slc));
     buf \<leftarrow> memcpy_to buf it label;
     let it = it + unat (fs_len_label slc);
     let sz = sz + unat (fs_len_label slc);
     buf \<leftarrow> memcpy_to buf it (le_bytes 4 (fs_len_sched slc));
     let it = it + 4;
     let sz = sz + 4;
     sched \<leftarrow> copy_array (fs_sched slc) (unat (fs_len_sched slc));
     buf \<leftarrow> memcpy_to buf it sched;
     let it = it + unat (fs_len_sched slc);
     let sz = sz + unat (fs_len_sched slc);
     (buf, n, par) \<leftarrow> enc_fill_params e buf it (fs_params slc);
     Some (buf, sz + n, slc\<lparr>fs_params := par\<rparr>)
   }"

definition enc_fill_ul_dl_slice_conf ::
  "nat \<Rightarrow> block \<Rightarrow> nat \<Rightarrow> ul_dl_slice_conf \<Rightarrow> (block \<times> nat \<times> ul_dl_slice_conf) option" where
  "enc_fill_ul_dl_slice_conf e buf it conf = do {
     buf \<leftarrow> memcpy_to buf it (le_bytes 4 (ud_len_sched_name conf));
     let it = it + 4;
     let sz = 4;
     name \<leftarrow> copy_array (ud_sched_name conf) (unat (ud_len_sched_name conf));
     buf \<leftarrow> memcpy_to buf it name;
     let it = it + unat (ud_len_sched_name conf);
     let sz = sz + unat (ud_len_sched_name conf);
     buf \<leftarrow> memcpy_to buf it (le_bytes 4 (ud_len_slices conf));
     let it = it + 4;
     let sz = sz + 4;
     (buf, it, sz, slices) \<leftarrow>
       fill_each_upd (enc_fill_slice e) (unat (ud_len_slices conf)) (buf, it, sz, ud_slices conf);
     Some (buf, sz, conf\<lparr>ud_slices := slices\<rparr>)
   }"

definition enc_fill_slice_conf ::
  "nat \<Rightarrow> block \<Rightarrow> nat \<Rightarrow> slice_conf \<Rightarrow> (block \<times> nat \<times> slice_conf) option" where
  "enc_fill_slice_conf e buf it conf = do {
     (buf, sz, dl) \<leftarrow> enc_fill_ul_dl_slice_conf e buf it (sl_dl conf);
     let it = it + sz;
     (buf, n, ul) \<leftarrow> enc_fill_ul_dl_slice_conf e buf it (sl_ul conf);
     Some (buf, sz + n, \<lparr>sl_dl = dl, sl_ul = ul\<rparr>)
   }"

definition enc_fill_ue_slice_assoc ::
  "nat \<Rightarrow> block \<Rightarrow> nat \<Rightarrow> ue_slice_assoc \<Rightarrow> (block \<times> nat) option" where
  "enc_fill_ue_slice_assoc e buf it assoc = do {
     c_assert (it < e);
     buf \<leftarrow> memcpy_to buf it (le_bytes 4 (ua_dl_id assoc));
     let it = it + 4;
     let sz = 4;
     buf \<leftarrow> memcpy_to buf it (le_bytes 4 (ua_ul_id assoc));
     let it = it + 4;
     let sz = sz + 4;
     buf \<leftarrow> memcpy_to buf it (le_bytes 2 (ua_rnti assoc));
     let sz = sz + 2;
     Some (buf, sz)
   }"

definition enc_fill_ue_slice_conf ::
  "nat \<Rightarrow> block \<Rightarrow> nat \<Rightarrow> ue_slice_conf \<Rightarrow> (block \<times> nat) option" where
  "enc_fill_ue_slice_conf e buf it slc = do {
     buf \<leftarrow> memcpy_to buf it (le_bytes 4 (us_len_ue_slice slc));
     let it = it + 4;
     let sz = 4;
     (buf, it, sz) \<leftarrow>
       fill_each (enc_fill_ue_slice_assoc e) (us_ues slc) (unat (us_len_ue_slice slc)) (buf, it, sz);
     Some (buf, sz)
   }"

definition enc_fill_del_slice_conf :: "block \<Rightarrow> nat \<Rightarrow> del_slice_conf \<Rightarrow> (block \<times> nat) option" where
  "enc_fill_del_slice_conf buf it conf = do {
     buf \<leftarrow> memcpy_to buf it (le_bytes 4 (dl_len_dl conf));
     let it = it + 4;
     let sz = 4;
     (buf, it, sz) \<leftarrow> fill_each fill_u32 (dl_dl conf) (unat (dl_len_dl conf)) (buf, it, sz);
     buf \<leftarrow> memcpy_to buf it (le_bytes 4 (dl_len_ul conf));
     let it = it + 4;
     let sz = sz + 4;
     (buf, it, sz) \<leftarrow> fill_each fill_u32 (dl_ul conf) (unat (dl_len_ul conf)) (buf, it, sz);
     Some (buf, sz)
   }"

text \<open>\<^verbatim>\<open>slice_ctrl_msg_e\<close>.\<close>

fun ctrl_type :: "slice_ctrl_msg \<Rightarrow> u32" where
  "ctrl_type (Ctrl_add _) = 0"
| "ctrl_type (Ctrl_del _) = 1"
| "ctrl_type (Ctrl_ue_assoc _) = 2"
| "ctrl_type (Ctrl_unknown t) = t"

definition enc_fill_slice_ctrl_msg ::
  "nat \<Rightarrow> block \<Rightarrow> nat \<Rightarrow> slice_ctrl_msg \<Rightarrow> (block \<times> nat \<times> slice_ctrl_msg) option" where
  "enc_fill_slice_ctrl_msg e buf it msg = do {
     buf \<leftarrow> memcpy_to buf it (le_bytes 4 (ctrl_type msg));
     let it = it + 4;
     let sz = 4;
     (buf, n, msg) \<leftarrow> (case msg of
         Ctrl_add c \<Rightarrow> do { (buf, n, c) \<leftarrow> enc_fill_slice_conf e buf it c; Some (buf, n, Ctrl_add c) }
       | Ctrl_del d \<Rightarrow> do { (buf, n) \<leftarrow> enc_fill_del_slice_conf buf it d; Some (buf, n, msg) }
       | Ctrl_ue_assoc u \<Rightarrow> do { (buf, n) \<leftarrow> enc_fill_ue_slice_conf e buf it u; Some (buf, n, msg) }
       | Ctrl_unknown _ \<Rightarrow> None);
     Some (buf, sz + n, msg)
   }"

section \<open>The encoders\<close>

definition slice_enc_event_trigger_plain :: "u32 \<Rightarrow> byte_array option" where
  "slice_enc_event_trigger_plain ms = do {
     buf \<leftarrow> memcpy_to (c_malloc 4) 0 (le_bytes 4 ms);
     Some \<lparr>ba_len = 4, ba_buf = buf\<rparr>
   }"

text \<open>The buffers of the headers have the size of a \<^verbatim>\<open>slice_ind_msg_t\<close>, 88 bytes.\<close>

definition slice_enc_ind_hdr_plain :: "u32 \<Rightarrow> byte_array option" where
  "slice_enc_ind_hdr_plain hdr = do {
     buf \<leftarrow> memcpy_to (c_malloc 88) 0 (le_bytes 4 hdr);
     Some \<lparr>ba_len = 4, ba_buf = buf\<rparr>
   }"

definition slice_enc_ctrl_hdr_plain :: "u32 \<Rightarrow> byte_array option" where
  "slice_enc_ctrl_hdr_plain hdr = do {
     buf \<leftarrow> memcpy_to (c_malloc 88) 0 (le_bytes 4 hdr);
     Some \<lparr>ba_len = 4, ba_buf = buf\<rparr>
   }"

text \<open>The result is the byte array and the message the call leaves behind.\<close>

definition slice_enc_ind_msg_plain :: "slice_ind_msg \<Rightarrow> (byte_array \<times> slice_ind_msg) option" where
  "slice_enc_ind_msg_plain m = do {
     sz \<leftarrow> cal_ind_msg_payload m;
     let buf = c_malloc sz;
     let it = 0;
     (buf, pos1, conf) \<leftarrow> enc_fill_slice_conf sz buf it (sm_slice_conf m);
     let it = it + pos1;
     (buf, pos2) \<leftarrow> enc_fill_ue_slice_conf sz buf it (sm_ue_slice_conf m);
     let it = it + pos2;
     buf \<leftarrow> memcpy_to buf it (le_bytes 8 (sm_tstamp m));
     let it = it + 8;
     c_assert (it = sz);
     Some (\<lparr>ba_len = sz, ba_buf = buf\<rparr>, m\<lparr>sm_slice_conf := conf\<rparr>)
   }"

definition slice_enc_ctrl_msg_plain :: "slice_ctrl_msg \<Rightarrow> (byte_array \<times> slice_ctrl_msg) option" where
  "slice_enc_ctrl_msg_plain m = do {
     sz \<leftarrow> cal_ctrl_msg_payload m;
     let buf = c_malloc sz;
     (buf, pos, m) \<leftarrow> enc_fill_slice_ctrl_msg sz buf 0 m;
     c_assert (pos = sz);
     Some (\<lparr>ba_len = sz, ba_buf = buf\<rparr>, m)
   }"

text \<open>Only the diagnostic is encoded, not the answer.\<close>

definition slice_enc_ctrl_out_plain :: "slice_ctrl_out \<Rightarrow> byte_array option" where
  "slice_enc_ctrl_out_plain ctrl = do {
     let len = 4 + unat (co_len_diag ctrl);
     let it = 0;
     buf \<leftarrow> memcpy_to (c_malloc len) it (le_bytes 4 (co_len_diag ctrl));
     let it = it + 4;
     diagnostic \<leftarrow> copy_array (co_diagnostic ctrl) (unat (co_len_diag ctrl));
     buf \<leftarrow> memcpy_to buf it diagnostic;
     let it = it + unat (co_len_diag ctrl);
     c_assert (it = len);
     Some \<lparr>ba_len = len, ba_buf = buf\<rparr>
   }"

section \<open>The readers\<close>

text \<open>\<^verbatim>\<open>it_within_layout\<close>: the offset is inside of the message.\<close>

definition it_within_layout :: "byte list \<Rightarrow> nat \<Rightarrow> bool" where
  "it_within_layout bs it \<longleftrightarrow> 0 \<le> it \<and> it < length bs"

definition dec_fill_static :: "byte list \<Rightarrow> nat \<Rightarrow> (static_slice \<times> nat) option" where
  "dec_fill_static bs it = do {
     c_assert (it_within_layout bs it);
     high \<leftarrow> memcpy_from bs it 4;
     let it = it + 4;
     let sz = 4;
     low \<leftarrow> memcpy_from bs it 4;
     let sz = sz + 4;
     Some (\<lparr>st_pos_low = of_le_bytes low, st_pos_high = of_le_bytes high\<rparr>, sz)
   }"

definition dec_fill_rate :: "byte list \<Rightarrow> nat \<Rightarrow> (nvs_rate \<times> nat) option" where
  "dec_fill_rate bs it = do {
     ref \<leftarrow> memcpy_from bs it 4;
     let it = it + 4;
     let sz = 4;
     req \<leftarrow> memcpy_from bs it 4;
     let sz = sz + 4;
     Some (\<lparr>nr_required = of_le_bytes req, nr_reference = of_le_bytes ref\<rparr>, sz)
   }"

definition dec_fill_capacity :: "byte list \<Rightarrow> nat \<Rightarrow> (u32 \<times> nat) option" where
  "dec_fill_capacity bs it = do {
     pct \<leftarrow> memcpy_from bs it 4;
     let sz = 4;
     Some (of_le_bytes pct, sz)
   }"

definition dec_fill_nvs :: "byte list \<Rightarrow> nat \<Rightarrow> (nvs_slice \<times> nat) option" where
  "dec_fill_nvs bs it = do {
     b \<leftarrow> memcpy_from bs it 4;
     let conf = (of_le_bytes b :: u32);
     let it = it + 4;
     let sz = 4;
     if conf = 0 then do { (r, n) \<leftarrow> dec_fill_rate bs it; Some (Nvs_rate r, sz + n) }
     else if conf = 1 then do { (c, n) \<leftarrow> dec_fill_capacity bs it; Some (Nvs_capacity c, sz + n) }
     else None
   }"

definition dec_fill_on_demand :: "byte list \<Rightarrow> nat \<Rightarrow> (scn19_on_demand \<times> nat) option" where
  "dec_fill_on_demand bs it = do {
     log_delta \<leftarrow> memcpy_from bs it 4;
     let it = it + 4;
     let sz = 4;
     pct \<leftarrow> memcpy_from bs it 4;
     let it = it + 4;
     let sz = sz + 4;
     tau \<leftarrow> memcpy_from bs it 4;
     let sz = sz + 4;
     Some (\<lparr>od_pct_reserved = of_le_bytes pct, od_log_delta = of_le_bytes log_delta,
            od_tau = of_le_bytes tau\<rparr>, sz)
   }"

definition dec_fill_scn19 :: "byte list \<Rightarrow> nat \<Rightarrow> (scn19_slice \<times> nat) option" where
  "dec_fill_scn19 bs it = do {
     b \<leftarrow> memcpy_from bs it 4;
     let conf = (of_le_bytes b :: u32);
     let it = it + 4;
     let sz = 4;
     if conf = 0 then do { (r, n) \<leftarrow> dec_fill_rate bs it; Some (Scn19_dynamic r, sz + n) }
     else if conf = 1 then do { (f, n) \<leftarrow> dec_fill_static bs it; Some (Scn19_fixed f, sz + n) }
     else if conf = 2 then do { (d, n) \<leftarrow> dec_fill_on_demand bs it; Some (Scn19_on_demand d, sz + n) }
     else None
   }"

definition dec_fill_edf :: "byte list \<Rightarrow> nat \<Rightarrow> (edf_slice \<times> nat) option" where
  "dec_fill_edf bs it = do {
     deadline \<leftarrow> memcpy_from bs it 4;
     let it = it + 4;
     let sz = 4;
     prbs \<leftarrow> memcpy_from bs it 4;
     let it = it + 4;
     let sz = sz + 4;
     repl \<leftarrow> memcpy_from bs it 4;
     let it = it + 4;
     let sz = sz + 4;
     b \<leftarrow> memcpy_from bs it 4;
     let len_over = of_le_bytes b;
     let it = it + 4;
     let sz = sz + 4;
     (over, it, sz) \<leftarrow> dec_each (dec_u32 bs) (unat len_over) (it, sz);
     Some (\<lparr>ed_deadline = of_le_bytes deadline, ed_guaranteed_prbs = of_le_bytes prbs,
            ed_max_replenish = of_le_bytes repl, ed_len_over = len_over, ed_over = over\<rparr>, sz)
   }"

definition dec_fill_params :: "byte list \<Rightarrow> nat \<Rightarrow> (slice_params \<times> nat) option" where
  "dec_fill_params bs it = do {
     b \<leftarrow> memcpy_from bs it 4;
     let type = (of_le_bytes b :: u32);
     let it = it + 4;
     let sz = 4;
     if type = 1 then do { (s, n) \<leftarrow> dec_fill_static bs it; Some (Params_static s, sz + n) }
     else if type = 2 then do { (s, n) \<leftarrow> dec_fill_nvs bs it; Some (Params_nvs s, sz + n) }
     else if type = 3 then do { (s, n) \<leftarrow> dec_fill_scn19 bs it; Some (Params_scn19 s, sz + n) }
     else if type = 4 then do { (s, n) \<leftarrow> dec_fill_edf bs it; Some (Params_edf s, sz + n) }
     else None
   }"

text \<open>
  A string of \<open>len > 0\<close> characters is copied into a zeroed array of \<open>len + 1\<close> bytes; for \<open>len = 0\<close> the pointer stays
  \<^verbatim>\<open>NULL\<close>. The sum has 32 bits: for the greatest \<open>len\<close> the array has no byte and copying leaves it.
\<close>

definition dec_string :: "byte list \<Rightarrow> nat \<Rightarrow> u32 \<Rightarrow> byte list option" where
  "dec_string bs it len = do {
     let buf = (if len > 0 then replicate (unat (len + 1)) 0 else []);
     str \<leftarrow> memcpy_from bs it (unat len);
     c_assert (length str \<le> length buf);
     Some (str @ drop (length str) buf)
   }"

definition dec_fill_slice :: "byte list \<Rightarrow> nat \<Rightarrow> (fr_slice \<times> nat) option" where
  "dec_fill_slice bs it = do {
     b \<leftarrow> memcpy_from bs it 4;
     let id = of_le_bytes b;
     let it = it + 4;
     let sz = 4;
     b \<leftarrow> memcpy_from bs it 4;
     let len_label = of_le_bytes b;
     let it = it + 4;
     let sz = sz + 4;
     label \<leftarrow> dec_string bs it len_label;
     let it = it + unat len_label;
     let sz = sz + unat len_label;
     b \<leftarrow> memcpy_from bs it 4;
     let len_sched = of_le_bytes b;
     let it = it + 4;
     let sz = sz + 4;
     sched \<leftarrow> dec_string bs it len_sched;
     let it = it + unat len_sched;
     let sz = sz + unat len_sched;
     (params, n) \<leftarrow> dec_fill_params bs it;
     Some (\<lparr>fs_id = id, fs_len_label = len_label, fs_label = label,
            fs_len_sched = len_sched, fs_sched = sched, fs_params = params\<rparr>, sz + n)
   }"

definition dec_fill_ul_dl_slice_conf :: "byte list \<Rightarrow> nat \<Rightarrow> (ul_dl_slice_conf \<times> nat) option" where
  "dec_fill_ul_dl_slice_conf bs it = do {
     b \<leftarrow> memcpy_from bs it 4;
     let len_sched_name = of_le_bytes b;
     let it = it + 4;
     let sz = 4;
     name \<leftarrow> dec_string bs it len_sched_name;
     let it = it + unat len_sched_name;
     let sz = sz + unat len_sched_name;
     b \<leftarrow> memcpy_from bs it 4;
     let len_slices = of_le_bytes b;
     let it = it + 4;
     let sz = sz + 4;
     (slices, it, sz) \<leftarrow> dec_each (dec_fill_slice bs) (unat len_slices) (it, sz);
     Some (\<lparr>ud_len_slices = len_slices, ud_slices = slices,
            ud_len_sched_name = len_sched_name, ud_sched_name = name\<rparr>, sz)
   }"

definition dec_fill_slice_conf :: "byte list \<Rightarrow> nat \<Rightarrow> (slice_conf \<times> nat) option" where
  "dec_fill_slice_conf bs it = do {
     (dl, sz) \<leftarrow> dec_fill_ul_dl_slice_conf bs it;
     let it = it + sz;
     (ul, n) \<leftarrow> dec_fill_ul_dl_slice_conf bs it;
     Some (\<lparr>sl_dl = dl, sl_ul = ul\<rparr>, sz + n)
   }"

definition dec_fill_ue_slice_assoc :: "byte list \<Rightarrow> nat \<Rightarrow> (ue_slice_assoc \<times> nat) option" where
  "dec_fill_ue_slice_assoc bs it = do {
     dl \<leftarrow> memcpy_from bs it 4;
     let it = it + 4;
     let sz = 4;
     ul \<leftarrow> memcpy_from bs it 4;
     let it = it + 4;
     let sz = sz + 4;
     rnti \<leftarrow> memcpy_from bs it 2;
     let sz = sz + 2;
     Some (\<lparr>ua_dl_id = of_le_bytes dl, ua_ul_id = of_le_bytes ul, ua_rnti = of_le_bytes rnti\<rparr>, sz)
   }"

definition dec_fill_ue_slice_conf :: "byte list \<Rightarrow> nat \<Rightarrow> (ue_slice_conf \<times> nat) option" where
  "dec_fill_ue_slice_conf bs it = do {
     b \<leftarrow> memcpy_from bs it 4;
     let len = of_le_bytes b;
     let it = it + 4;
     let sz = 4;
     (ues, it, sz) \<leftarrow> dec_each (dec_fill_ue_slice_assoc bs) (unat len) (it, sz);
     Some (\<lparr>us_len_ue_slice = len, us_ues = ues\<rparr>, sz)
   }"

definition dec_fill_del_slice :: "byte list \<Rightarrow> nat \<Rightarrow> (del_slice_conf \<times> nat) option" where
  "dec_fill_del_slice bs it = do {
     b \<leftarrow> memcpy_from bs it 4;
     let len_dl = of_le_bytes b;
     let it = it + 4;
     let sz = 4;
     (dl, it, sz) \<leftarrow> dec_each (dec_u32 bs) (unat len_dl) (it, sz);
     b \<leftarrow> memcpy_from bs it 4;
     let len_ul = of_le_bytes b;
     let it = it + 4;
     let sz = sz + 4;
     (ul, it, sz) \<leftarrow> dec_each (dec_u32 bs) (unat len_ul) (it, sz);
     Some (\<lparr>dl_len_dl = len_dl, dl_dl = dl, dl_len_ul = len_ul, dl_ul = ul\<rparr>, sz)
   }"

section \<open>The decoders\<close>

definition slice_dec_event_trigger_plain :: "byte list \<Rightarrow> u32 option" where
  "slice_dec_event_trigger_plain ev_tr = do {
     b \<leftarrow> memcpy_from ev_tr 0 4;
     Some (of_le_bytes b)
   }"

definition slice_dec_ind_hdr_plain :: "byte list \<Rightarrow> u32 option" where
  "slice_dec_ind_hdr_plain hdr = do {
     c_assert (length hdr = 4);
     b \<leftarrow> memcpy_from hdr 0 (length hdr);
     Some (of_le_bytes b)
   }"

definition slice_dec_ctrl_hdr_plain :: "byte list \<Rightarrow> u32 option" where
  "slice_dec_ctrl_hdr_plain hdr = do {
     c_assert (length hdr = 4);
     b \<leftarrow> memcpy_from hdr 0 (length hdr);
     Some (of_le_bytes b)
   }"

definition slice_dec_ind_msg_plain :: "byte list \<Rightarrow> slice_ind_msg option" where
  "slice_dec_ind_msg_plain bs = do {
     let it = 0;
     (conf, sz) \<leftarrow> dec_fill_slice_conf bs it;
     let it = it + sz;
     (ues, sz) \<leftarrow> dec_fill_ue_slice_conf bs it;
     let it = it + sz;
     t \<leftarrow> memcpy_from bs it 8;
     let it = it + 8;
     c_assert (length bs = it);
     Some \<lparr>sm_slice_conf = conf, sm_ue_slice_conf = ues, sm_tstamp = of_le_bytes t\<rparr>
   }"

definition slice_dec_ctrl_msg_plain :: "byte list \<Rightarrow> slice_ctrl_msg option" where
  "slice_dec_ctrl_msg_plain bs = do {
     let it = 0;
     b \<leftarrow> memcpy_from bs it 4;
     let type = (of_le_bytes b :: u32);
     let it = it + 4;
     let sz = 4;
     (ctrl, sz) \<leftarrow>
       (if type = 0 then do { (c, n) \<leftarrow> dec_fill_slice_conf bs it; Some (Ctrl_add c, sz + n) }
        else if type = 1 then do { (d, n) \<leftarrow> dec_fill_del_slice bs it; Some (Ctrl_del d, sz + n) }
        else if type = 2 then do { (u, n) \<leftarrow> dec_fill_ue_slice_conf bs it; Some (Ctrl_ue_assoc u, sz + n) }
        else None);
     c_assert (sz = length bs);
     Some ctrl
   }"

text \<open>The answer of the zeroed result is not set, and the length of the message is not looked at.\<close>

definition slice_dec_ctrl_out_plain :: "byte list \<Rightarrow> slice_ctrl_out option" where
  "slice_dec_ctrl_out_plain bs = do {
     let it = 0;
     b \<leftarrow> memcpy_from bs it 4;
     let len_diag = of_le_bytes b;
     let it = it + 4;
     diagnostic \<leftarrow> (if 0 < len_diag then memcpy_from bs it (unat len_diag) else Some []);
     Some \<lparr>co_ans = 0, co_len_diag = len_diag, co_diagnostic = diagnostic\<rparr>
   }"

section \<open>The wire format\<close>

definition ser_static :: "static_slice \<Rightarrow> byte list" where
  "ser_static s = le_bytes 4 (st_pos_high s) @ le_bytes 4 (st_pos_low s)"

definition ser_rate :: "nvs_rate \<Rightarrow> byte list" where
  "ser_rate r = le_bytes 4 (nr_reference r) @ le_bytes 4 (nr_required r)"

fun ser_nvs :: "nvs_slice \<Rightarrow> byte list" where
  "ser_nvs (Nvs_rate r) = le_bytes 4 (0 :: u32) @ ser_rate r"
| "ser_nvs (Nvs_capacity c) = le_bytes 4 (1 :: u32) @ le_bytes 4 c"
| "ser_nvs (Nvs_unknown _) = []"

definition ser_on_demand :: "scn19_on_demand \<Rightarrow> byte list" where
  "ser_on_demand d = le_bytes 4 (od_log_delta d) @ le_bytes 4 (od_pct_reserved d) @ le_bytes 4 (od_tau d)"

fun ser_scn19 :: "scn19_slice \<Rightarrow> byte list" where
  "ser_scn19 (Scn19_dynamic r) = le_bytes 4 (0 :: u32) @ ser_rate r"
| "ser_scn19 (Scn19_fixed f) = le_bytes 4 (1 :: u32) @ ser_static f"
| "ser_scn19 (Scn19_on_demand d) = le_bytes 4 (2 :: u32) @ ser_on_demand d"
| "ser_scn19 (Scn19_unknown _) = []"

definition ser_words :: "u32 list \<Rightarrow> byte list" where
  "ser_words ws = concat (map (le_bytes 4) ws)"

definition ser_edf :: "edf_slice \<Rightarrow> byte list" where
  "ser_edf e = le_bytes 4 (ed_deadline e) @ le_bytes 4 (ed_guaranteed_prbs e) @
     le_bytes 4 (ed_max_replenish e) @ le_bytes 4 (ed_len_over e) @
     ser_words (take (unat (ed_len_over e)) (ed_over e))"

fun ser_params :: "slice_params \<Rightarrow> byte list" where
  "ser_params (Params_static s) = le_bytes 4 (1 :: u32) @ ser_static s"
| "ser_params (Params_nvs n) = le_bytes 4 (2 :: u32) @ ser_nvs n"
| "ser_params (Params_scn19 s) = le_bytes 4 (3 :: u32) @ ser_scn19 s"
| "ser_params (Params_edf e) = le_bytes 4 (4 :: u32) @ ser_edf e"
| "ser_params (Params_unknown _) = []"

definition ser_slice :: "fr_slice \<Rightarrow> byte list" where
  "ser_slice s = le_bytes 4 (fs_id s) @
     le_bytes 4 (fs_len_label s) @ take (unat (fs_len_label s)) (fs_label s) @
     le_bytes 4 (fs_len_sched s) @ take (unat (fs_len_sched s)) (fs_sched s) @
     ser_params (fs_params s)"

definition ser_ul_dl :: "ul_dl_slice_conf \<Rightarrow> byte list" where
  "ser_ul_dl c = le_bytes 4 (ud_len_sched_name c) @ take (unat (ud_len_sched_name c)) (ud_sched_name c) @
     le_bytes 4 (ud_len_slices c) @ concat (map ser_slice (ud_slices c))"

definition ser_slice_conf :: "slice_conf \<Rightarrow> byte list" where
  "ser_slice_conf c = ser_ul_dl (sl_dl c) @ ser_ul_dl (sl_ul c)"

definition ser_assoc :: "ue_slice_assoc \<Rightarrow> byte list" where
  "ser_assoc a = le_bytes 4 (ua_dl_id a) @ le_bytes 4 (ua_ul_id a) @ le_bytes 2 (ua_rnti a)"

definition ser_ue_conf :: "ue_slice_conf \<Rightarrow> byte list" where
  "ser_ue_conf u = le_bytes 4 (us_len_ue_slice u) @
     concat (map ser_assoc (take (unat (us_len_ue_slice u)) (us_ues u)))"

definition ser_slice_ind_msg :: "slice_ind_msg \<Rightarrow> byte list" where
  "ser_slice_ind_msg m =
     ser_slice_conf (sm_slice_conf m) @ ser_ue_conf (sm_ue_slice_conf m) @ le_bytes 8 (sm_tstamp m)"

definition ser_del :: "del_slice_conf \<Rightarrow> byte list" where
  "ser_del d = le_bytes 4 (dl_len_dl d) @ ser_words (take (unat (dl_len_dl d)) (dl_dl d)) @
     le_bytes 4 (dl_len_ul d) @ ser_words (take (unat (dl_len_ul d)) (dl_ul d))"

fun ser_ctrl_msg :: "slice_ctrl_msg \<Rightarrow> byte list" where
  "ser_ctrl_msg (Ctrl_add c) = le_bytes 4 (0 :: u32) @ ser_slice_conf c"
| "ser_ctrl_msg (Ctrl_del d) = le_bytes 4 (1 :: u32) @ ser_del d"
| "ser_ctrl_msg (Ctrl_ue_assoc u) = le_bytes 4 (2 :: u32) @ ser_ue_conf u"
| "ser_ctrl_msg (Ctrl_unknown _) = []"

section \<open>What encoding leaves behind and what the receiver builds\<close>

fun zap_params :: "slice_params \<Rightarrow> slice_params" where
  "zap_params (Params_edf e) =
     Params_edf (if 0 < ed_len_over e then e\<lparr>ed_over := replicate (unat (ed_len_over e)) 0\<rparr> else e)"
| "zap_params p = p"

definition zap_slice :: "fr_slice \<Rightarrow> fr_slice" where
  "zap_slice s = s\<lparr>fs_params := zap_params (fs_params s)\<rparr>"

definition zap_ul_dl :: "ul_dl_slice_conf \<Rightarrow> ul_dl_slice_conf" where
  "zap_ul_dl c = c\<lparr>ud_slices := map zap_slice (ud_slices c)\<rparr>"

definition zap_slice_conf :: "slice_conf \<Rightarrow> slice_conf" where
  "zap_slice_conf c = \<lparr>sl_dl = zap_ul_dl (sl_dl c), sl_ul = zap_ul_dl (sl_ul c)\<rparr>"

definition zap_ind_msg :: "slice_ind_msg \<Rightarrow> slice_ind_msg" where
  "zap_ind_msg m = m\<lparr>sm_slice_conf := zap_slice_conf (sm_slice_conf m)\<rparr>"

fun zap_ctrl_msg :: "slice_ctrl_msg \<Rightarrow> slice_ctrl_msg" where
  "zap_ctrl_msg (Ctrl_add c) = Ctrl_add (zap_slice_conf c)"
| "zap_ctrl_msg m = m"

fun rcv_params :: "slice_params \<Rightarrow> slice_params" where
  "rcv_params (Params_edf e) = Params_edf (e\<lparr>ed_over := take (unat (ed_len_over e)) (ed_over e)\<rparr>)"
| "rcv_params p = p"

text \<open>A string that is not empty ends with a zero byte.\<close>

definition c_string :: "byte list \<Rightarrow> byte list" where
  "c_string s = (if s = [] then [] else s @ [0])"

definition rcv_slice :: "fr_slice \<Rightarrow> fr_slice" where
  "rcv_slice s = s\<lparr>fs_label := c_string (take (unat (fs_len_label s)) (fs_label s)),
                   fs_sched := c_string (take (unat (fs_len_sched s)) (fs_sched s)),
                   fs_params := rcv_params (fs_params s)\<rparr>"

definition rcv_ul_dl :: "ul_dl_slice_conf \<Rightarrow> ul_dl_slice_conf" where
  "rcv_ul_dl c = c\<lparr>ud_slices := map rcv_slice (ud_slices c),
                   ud_sched_name := c_string (take (unat (ud_len_sched_name c)) (ud_sched_name c))\<rparr>"

definition rcv_slice_conf :: "slice_conf \<Rightarrow> slice_conf" where
  "rcv_slice_conf c = \<lparr>sl_dl = rcv_ul_dl (sl_dl c), sl_ul = rcv_ul_dl (sl_ul c)\<rparr>"

definition rcv_ue_conf :: "ue_slice_conf \<Rightarrow> ue_slice_conf" where
  "rcv_ue_conf u = u\<lparr>us_ues := take (unat (us_len_ue_slice u)) (us_ues u)\<rparr>"

definition rcv_ind_msg :: "slice_ind_msg \<Rightarrow> slice_ind_msg" where
  "rcv_ind_msg m = \<lparr>sm_slice_conf = rcv_slice_conf (sm_slice_conf m),
                    sm_ue_slice_conf = rcv_ue_conf (sm_ue_slice_conf m), sm_tstamp = sm_tstamp m\<rparr>"

definition rcv_del :: "del_slice_conf \<Rightarrow> del_slice_conf" where
  "rcv_del d = d\<lparr>dl_dl := take (unat (dl_len_dl d)) (dl_dl d), dl_ul := take (unat (dl_len_ul d)) (dl_ul d)\<rparr>"

fun rcv_ctrl_msg :: "slice_ctrl_msg \<Rightarrow> slice_ctrl_msg" where
  "rcv_ctrl_msg (Ctrl_add c) = Ctrl_add (rcv_slice_conf c)"
| "rcv_ctrl_msg (Ctrl_del d) = Ctrl_del (rcv_del d)"
| "rcv_ctrl_msg (Ctrl_ue_assoc u) = Ctrl_ue_assoc (rcv_ue_conf u)"
| "rcv_ctrl_msg m = m"

text \<open>The tags are known, the arrays have the counted elements and the size of a string with its last byte fits 32 bits.\<close>

fun nvs_known :: "nvs_slice \<Rightarrow> bool" where
  "nvs_known (Nvs_unknown _) \<longleftrightarrow> False"
| "nvs_known _ \<longleftrightarrow> True"

fun scn19_known :: "scn19_slice \<Rightarrow> bool" where
  "scn19_known (Scn19_unknown _) \<longleftrightarrow> False"
| "scn19_known _ \<longleftrightarrow> True"

definition edf_wf :: "edf_slice \<Rightarrow> bool" where
  "edf_wf e \<longleftrightarrow> unat (ed_len_over e) \<le> length (ed_over e)"

fun params_known :: "slice_params \<Rightarrow> bool" where
  "params_known (Params_static _) \<longleftrightarrow> True"
| "params_known (Params_nvs n) \<longleftrightarrow> nvs_known n"
| "params_known (Params_scn19 s) \<longleftrightarrow> scn19_known s"
| "params_known (Params_edf e) \<longleftrightarrow> edf_wf e"
| "params_known (Params_unknown _) \<longleftrightarrow> False"

definition slice_known :: "fr_slice \<Rightarrow> bool" where
  "slice_known s \<longleftrightarrow> unat (fs_len_label s) \<le> length (fs_label s) \<and>
     unat (fs_len_sched s) \<le> length (fs_sched s) \<and> fs_len_label s \<noteq> - 1 \<and> fs_len_sched s \<noteq> - 1 \<and> params_known (fs_params s)"

definition ul_dl_known :: "ul_dl_slice_conf \<Rightarrow> bool" where
  "ul_dl_known c \<longleftrightarrow> unat (ud_len_sched_name c) \<le> length (ud_sched_name c) \<and> ud_len_sched_name c \<noteq> - 1 \<and>
     unat (ud_len_slices c) = length (ud_slices c) \<and> (\<forall>s \<in> set (ud_slices c). slice_known s)"

definition slice_conf_known :: "slice_conf \<Rightarrow> bool" where
  "slice_conf_known c \<longleftrightarrow> ul_dl_known (sl_dl c) \<and> ul_dl_known (sl_ul c)"

definition ind_msg_known :: "slice_ind_msg \<Rightarrow> bool" where
  "ind_msg_known m \<longleftrightarrow> slice_conf_known (sm_slice_conf m) \<and> ue_conf_wf (sm_ue_slice_conf m)"

definition del_wf :: "del_slice_conf \<Rightarrow> bool" where
  "del_wf d \<longleftrightarrow> unat (dl_len_dl d) \<le> length (dl_dl d) \<and> unat (dl_len_ul d) \<le> length (dl_ul d)"

fun ctrl_msg_known :: "slice_ctrl_msg \<Rightarrow> bool" where
  "ctrl_msg_known (Ctrl_add c) \<longleftrightarrow> slice_conf_known c"
| "ctrl_msg_known (Ctrl_del d) \<longleftrightarrow> del_wf d"
| "ctrl_msg_known (Ctrl_ue_assoc u) \<longleftrightarrow> ue_conf_wf u"
| "ctrl_msg_known (Ctrl_unknown _) \<longleftrightarrow> False"

section \<open>The writers meet their contracts\<close>

lemmas enc_simps = written_next Let_def copy_array_def

lemma length_ser_words [simp]: "length (ser_words ws) = 4 * length ws"
  by (induction ws) (simp_all add: ser_words_def)

interpretation static_w: field_writer ser_static enc_fill_static "\<lambda>_. True"
  by unfold_locales (simp add: enc_fill_static_def ser_static_def enc_simps)

interpretation rate_w: field_writer ser_rate "\<lambda>_. enc_fill_rate" "\<lambda>_. True"
  by unfold_locales (simp add: enc_fill_rate_def ser_rate_def enc_simps)

interpretation nvs_w: field_writer ser_nvs "\<lambda>_. enc_fill_nvs" nvs_known
proof
  fix x it e and buf :: block
  assume "nvs_known x" "it + length (ser_nvs x) \<le> e" "length buf = e"
  then show "enc_fill_nvs buf it x = Some (written buf it (ser_nvs x), length (ser_nvs x))"
    by (cases x) (simp_all add: enc_fill_nvs_def enc_fill_capacity_def enc_simps rate_w.fill_law [where e = e])
qed

interpretation on_demand_w: field_writer ser_on_demand "\<lambda>_. enc_fill_on_demand" "\<lambda>_. True"
  by unfold_locales (simp add: enc_fill_on_demand_def ser_on_demand_def enc_simps)

interpretation scn19_w: field_writer ser_scn19 enc_fill_scn19 scn19_known
proof
  fix x it e and buf :: block
  assume "scn19_known x" "it + length (ser_scn19 x) \<le> e" "length buf = e"
  then show "enc_fill_scn19 e buf it x = Some (written buf it (ser_scn19 x), length (ser_scn19 x))"
    by (cases x) (simp_all add: enc_fill_scn19_def enc_simps static_w.fill_law
        rate_w.fill_law [where e = e] on_demand_w.fill_law [where e = e])
qed

definition zap_edf :: "edf_slice \<Rightarrow> edf_slice" where
  "zap_edf e = (if 0 < ed_len_over e then e\<lparr>ed_over := replicate (unat (ed_len_over e)) 0\<rparr> else e)"

lemma zap_params_edf [simp]: "zap_params (Params_edf e) = Params_edf (zap_edf e)"
  by (simp add: zap_edf_def)

lemma fill_words:
  assumes "n \<le> length ws" and "it + 4 * n \<le> length buf"
  shows "fill_each fill_u32 ws n (buf, it, sz) =
    Some (written buf it (ser_words (take n ws)), it + 4 * n, sz + 4 * n)"
  using u32w.fill_each_ok [of n ws it "length buf" buf sz] assms
  by (simp add: ser_words_def [symmetric])

interpretation edf_w: field_upd_writer ser_edf "\<lambda>_. enc_fill_edf" zap_edf edf_wf
proof
  fix x it e and buf :: block
  assume x: "edf_wf x" "it + length (ser_edf (zap_edf x)) \<le> e" "length buf = e"
  define z where "z = zap_edf x"
  have z: "unat (ed_len_over z) \<le> length (ed_over z)" "ed_len_over z = ed_len_over x"
    "ed_deadline z = ed_deadline x" "ed_guaranteed_prbs z = ed_guaranteed_prbs x"
    "ed_max_replenish z = ed_max_replenish x"
    using x(1) by (auto simp: z_def zap_edf_def edf_wf_def)
  have zap: "(if 0 < ed_len_over x then x\<lparr>ed_over := replicate (unat (ed_len_over x)) 0\<rparr> else x) = z"
    by (simp add: z_def zap_edf_def)
  show "enc_fill_edf buf it x =
      Some (written buf it (ser_edf (zap_edf x)), length (ser_edf (zap_edf x)), zap_edf x)"
    using x(2,3) z unfolding z_def [symmetric] enc_fill_edf_def zap
    by (simp add: ser_edf_def enc_simps fill_words)
qed

interpretation params_w: field_upd_writer ser_params enc_fill_params zap_params params_known
proof
  fix x it e and buf :: block
  assume "params_known x" "it + length (ser_params (zap_params x)) \<le> e" "length buf = e"
  then show "enc_fill_params e buf it x =
      Some (written buf it (ser_params (zap_params x)), length (ser_params (zap_params x)), zap_params x)"
    by (cases x) (simp_all del: zap_params.simps(1) add: enc_fill_params_def enc_simps static_w.fill_law
        nvs_w.fill_law [where e = e] scn19_w.fill_law edf_w.fill_upd_law [where e = e])
qed

interpretation slice_w: field_upd_writer ser_slice enc_fill_slice zap_slice slice_known
proof
  fix x it e and buf :: block
  assume "slice_known x" "it + length (ser_slice (zap_slice x)) \<le> e" "length buf = e"
  then show "enc_fill_slice e buf it x =
      Some (written buf it (ser_slice (zap_slice x)), length (ser_slice (zap_slice x)), zap_slice x)"
    by (simp add: enc_fill_slice_def ser_slice_def zap_slice_def slice_known_def enc_simps
        params_w.fill_upd_law)
qed

interpretation ul_dl_w: field_upd_writer ser_ul_dl enc_fill_ul_dl_slice_conf zap_ul_dl ul_dl_known
proof
  fix x it e and buf :: block
  assume x: "ul_dl_known x" "it + length (ser_ul_dl (zap_ul_dl x)) \<le> e" "length buf = e"
  then show "enc_fill_ul_dl_slice_conf e buf it x =
      Some (written buf it (ser_ul_dl (zap_ul_dl x)), length (ser_ul_dl (zap_ul_dl x)), zap_ul_dl x)"
    by (simp add: enc_fill_ul_dl_slice_conf_def ser_ul_dl_def zap_ul_dl_def ul_dl_known_def enc_simps
        slice_w.fill_each_upd_ok comp_def)
qed

interpretation conf_w: field_upd_writer ser_slice_conf enc_fill_slice_conf zap_slice_conf slice_conf_known
proof
  fix x it e and buf :: block
  assume "slice_conf_known x" "it + length (ser_slice_conf (zap_slice_conf x)) \<le> e" "length buf = e"
  then show "enc_fill_slice_conf e buf it x =
      Some (written buf it (ser_slice_conf (zap_slice_conf x)), length (ser_slice_conf (zap_slice_conf x)),
            zap_slice_conf x)"
    by (simp add: enc_fill_slice_conf_def ser_slice_conf_def zap_slice_conf_def slice_conf_known_def
        enc_simps ul_dl_w.fill_upd_law)
qed

interpretation assoc_w: field_writer ser_assoc enc_fill_ue_slice_assoc "\<lambda>_. True"
  by unfold_locales (simp add: enc_fill_ue_slice_assoc_def ser_assoc_def enc_simps)

interpretation ue_w: field_writer ser_ue_conf enc_fill_ue_slice_conf ue_conf_wf
  by unfold_locales
    (simp add: enc_fill_ue_slice_conf_def ser_ue_conf_def ue_conf_wf_def enc_simps assoc_w.fill_each_ok)

interpretation del_w: field_writer ser_del "\<lambda>_. enc_fill_del_slice_conf" del_wf
  by unfold_locales (simp add: enc_fill_del_slice_conf_def ser_del_def del_wf_def enc_simps fill_words)

interpretation ctrl_w: field_upd_writer ser_ctrl_msg enc_fill_slice_ctrl_msg zap_ctrl_msg ctrl_msg_known
proof
  fix x it e and buf :: block
  assume "ctrl_msg_known x" "it + length (ser_ctrl_msg (zap_ctrl_msg x)) \<le> e" "length buf = e"
  then show "enc_fill_slice_ctrl_msg e buf it x =
      Some (written buf it (ser_ctrl_msg (zap_ctrl_msg x)), length (ser_ctrl_msg (zap_ctrl_msg x)),
            zap_ctrl_msg x)"
    by (cases x) (simp_all add: enc_fill_slice_ctrl_msg_def enc_simps conf_w.fill_upd_law ue_w.fill_law
        del_w.fill_law [where e = e])
qed

section \<open>The readers meet their contracts\<close>

lemmas dec_simps = reads_append reads_word Let_def

lemma dec_words:
  "reads bs it (ser_words ws) \<Longrightarrow>
   dec_each (dec_u32 bs) (length ws) (it, sz) = Some (ws, it + 4 * length ws, sz + 4 * length ws)"
  using u32r.dec_each_ok [of ws bs it "length ws" sz] by (simp add: ser_words_def [symmetric])

lemma dec_counted_words:
  "reads bs it (ser_words (take n ws)) \<Longrightarrow> n \<le> length ws \<Longrightarrow>
   \<forall>sz. dec_each (dec_u32 bs) n (it, sz) = Some (take n ws, it + 4 * n, sz + 4 * n)"
  using dec_words [of bs it "take n ws"] by simp

interpretation static_r: field_reader ser_static dec_fill_static "\<lambda>s. s" "\<lambda>_. True"
proof
  fix x it and bs :: "byte list"
  assume r: "reads bs it (ser_static x)"
  then show "dec_fill_static bs it = Some (x, length (ser_static x))"
    using reads_bound [OF r]
    by (simp add: dec_fill_static_def ser_static_def dec_simps it_within_layout_def)
qed

interpretation rate_r: field_reader ser_rate dec_fill_rate "\<lambda>s. s" "\<lambda>_. True"
  by unfold_locales (simp add: dec_fill_rate_def ser_rate_def dec_simps)

interpretation nvs_r: field_reader ser_nvs dec_fill_nvs "\<lambda>s. s" nvs_known
proof
  fix x it and bs :: "byte list"
  assume "nvs_known x" "reads bs it (ser_nvs x)"
  then show "dec_fill_nvs bs it = Some (x, length (ser_nvs x))"
    by (cases x) (auto simp: dec_fill_nvs_def dec_fill_capacity_def dec_simps dest!: rate_r.dec_dest)
qed

interpretation on_demand_r: field_reader ser_on_demand dec_fill_on_demand "\<lambda>s. s" "\<lambda>_. True"
  by unfold_locales (simp add: dec_fill_on_demand_def ser_on_demand_def dec_simps)

interpretation scn19_r: field_reader ser_scn19 dec_fill_scn19 "\<lambda>s. s" scn19_known
proof
  fix x it and bs :: "byte list"
  assume "scn19_known x" "reads bs it (ser_scn19 x)"
  then show "dec_fill_scn19 bs it = Some (x, length (ser_scn19 x))"
    by (cases x) (auto simp: dec_fill_scn19_def dec_simps
      dest!: rate_r.dec_dest static_r.dec_dest on_demand_r.dec_dest)
qed

definition rcv_edf :: "edf_slice \<Rightarrow> edf_slice" where
  "rcv_edf e = e\<lparr>ed_over := take (unat (ed_len_over e)) (ed_over e)\<rparr>"

interpretation edf_r: field_reader ser_edf dec_fill_edf rcv_edf edf_wf
  by unfold_locales
    (auto simp: dec_fill_edf_def ser_edf_def rcv_edf_def edf_wf_def dec_simps dest!: dec_counted_words)

interpretation params_r: field_reader ser_params dec_fill_params rcv_params params_known
proof
  fix x it and bs :: "byte list"
  assume "params_known x" "reads bs it (ser_params x)"
  then show "dec_fill_params bs it = Some (rcv_params x, length (ser_params x))"
    by (cases x) (auto simp: dec_fill_params_def dec_simps rcv_edf_def
      dest!: static_r.dec_dest nvs_r.dec_dest scn19_r.dec_dest edf_r.dec_dest)
qed

lemma dec_string:
  assumes "len \<noteq> - 1"
  shows "dec_string bs it len = map_option c_string (memcpy_from bs it (unat len))"
proof -
  have "1 + len \<noteq> 0" using assms by (simp add: add_eq_0_iff)
  then have "unat (len + 1) = Suc (unat len)" using unatSuc [of len] by (simp add: add.commute)
  moreover have "drop n (replicate (Suc n) (0 :: byte)) = [0]" for n by (simp only: drop_replicate) simp
  moreover have "len = 0 \<longleftrightarrow> unat len = 0" by (simp add: unat_eq_0)
  ultimately show ?thesis
    by (cases "len = 0") (auto simp: dec_string_def c_string_def memcpy_from_def word_gt_0 simp del: replicate_Suc)
qed

lemma dec_string_wraps: "dec_string bs it (- 1) = None"
proof -
  have "0 < unat (- 1 :: u32)" by (simp add: unat_gt_0)
  then show ?thesis by (auto simp: dec_string_def memcpy_from_def)
qed

interpretation slice_r: field_reader ser_slice dec_fill_slice rcv_slice slice_known
  by unfold_locales
    (auto simp: dec_fill_slice_def ser_slice_def rcv_slice_def slice_known_def dec_simps dec_string reads_array
      dest!: params_r.dec_dest)

interpretation ul_dl_r: field_reader ser_ul_dl dec_fill_ul_dl_slice_conf rcv_ul_dl ul_dl_known
proof
  fix x it and bs :: "byte list"
  assume x: "ul_dl_known x" "reads bs it (ser_ul_dl x)"
  let ?n = "unat (ud_len_sched_name x)"
  from x have "reads bs (8 + (it + ?n)) (concat (map ser_slice (ud_slices x)))"
    by (simp add: ser_ul_dl_def ul_dl_known_def dec_simps)
  from slice_r.dec_each_ok [OF _ this, of _ "8 + ?n"] x
  show "dec_fill_ul_dl_slice_conf bs it = Some (rcv_ul_dl x, length (ser_ul_dl x))"
    by (simp add: dec_fill_ul_dl_slice_conf_def ser_ul_dl_def rcv_ul_dl_def ul_dl_known_def dec_simps dec_string reads_array)
qed

interpretation conf_r: field_reader ser_slice_conf dec_fill_slice_conf rcv_slice_conf slice_conf_known
  by unfold_locales
    (auto simp: dec_fill_slice_conf_def ser_slice_conf_def rcv_slice_conf_def slice_conf_known_def dec_simps
      dest!: ul_dl_r.dec_dest)

interpretation assoc_r: field_reader ser_assoc dec_fill_ue_slice_assoc "\<lambda>a. a" "\<lambda>_. True"
  by unfold_locales (simp add: dec_fill_ue_slice_assoc_def ser_assoc_def dec_simps)

interpretation ue_r: field_reader ser_ue_conf dec_fill_ue_slice_conf rcv_ue_conf ue_conf_wf
proof
  fix x it and bs :: "byte list"
  assume x: "ue_conf_wf x" "reads bs it (ser_ue_conf x)"
  from x have "reads bs (it + 4) (concat (map ser_assoc (take (unat (us_len_ue_slice x)) (us_ues x))))"
    by (simp add: ser_ue_conf_def dec_simps)
  from assoc_r.dec_each_ok [OF _ this, of _ 4] x
  show "dec_fill_ue_slice_conf bs it = Some (rcv_ue_conf x, length (ser_ue_conf x))"
    by (simp add: dec_fill_ue_slice_conf_def ser_ue_conf_def rcv_ue_conf_def ue_conf_wf_def dec_simps)
qed

interpretation del_r: field_reader ser_del dec_fill_del_slice rcv_del del_wf
  by unfold_locales
    (auto simp: dec_fill_del_slice_def ser_del_def rcv_del_def del_wf_def dec_simps dest!: dec_counted_words)

section \<open>The computed sizes are the written ones\<close>

lemma cal_edf: "cal_edf e = 16 + 4 * unat (ed_len_over e)"
proof -
  have "foldl (\<lambda>sz _. sz + 4) a xs = a + 4 * length xs" for a and xs :: "nat list"
    by (induction xs arbitrary: a) auto
  then show ?thesis by (simp add: cal_edf_def)
qed

lemma length_ser_edf: "edf_wf e \<Longrightarrow> length (ser_edf e) = 16 + 4 * unat (ed_len_over e)"
  by (simp add: ser_edf_def edf_wf_def)

lemma zap_edf_wf: "edf_wf e \<Longrightarrow> edf_wf (zap_edf e) \<and> ed_len_over (zap_edf e) = ed_len_over e"
  by (simp add: zap_edf_def edf_wf_def)

lemma cal_params: "params_known p \<Longrightarrow> cal_params p = Some (length (ser_params (zap_params p)))"
proof (cases p)
  case (Params_nvs n)
  then show "params_known p \<Longrightarrow> ?thesis" by (cases n) (simp_all add: ser_rate_def)
next
  case (Params_scn19 s)
  then show "params_known p \<Longrightarrow> ?thesis"
    by (cases s) (simp_all add: ser_rate_def ser_static_def ser_on_demand_def)
next
  case (Params_edf e)
  then show "params_known p \<Longrightarrow> ?thesis"
    using zap_edf_wf [of e] length_ser_edf [of "zap_edf e"] by (simp del: zap_params.simps add: cal_edf)
qed (simp_all add: cal_static_def ser_static_def)

lemma cal_slc:
  assumes "\<forall>s \<in> set slc. slice_known s"
  shows "cal_slc (length slc) slc = Some (length (concat (map (\<lambda>s. ser_slice (zap_slice s)) slc)))"
proof -
  let ?len = "\<lambda>s. length (ser_slice (zap_slice s))"
  have "cal_slc n slc = Some (sum_list (map ?len (take n slc)))" if "n \<le> length slc" for n
    using that
  proof (induction n)
    case 0
    then show ?case by (simp add: cal_slc_def)
  next
    case (Suc n)
    have "slice_known (slc ! n)" using Suc.prems assms by simp
    then show ?case
      using Suc by (simp add: cal_slc_def for_loop_append arr_at_def take_Suc_conv_app_nth
          slice_known_def cal_params ser_slice_def zap_slice_def)
  qed
  from this [of "length slc"] show ?thesis by (simp add: length_concat comp_def)
qed

lemma cal_ul_dl: "ul_dl_known c \<Longrightarrow> cal_ul_dl c = Some (length (ser_ul_dl (zap_ul_dl c)))"
  by (simp add: cal_ul_dl_def ul_dl_known_def cal_slc ser_ul_dl_def zap_ul_dl_def comp_def)

lemma cal_slice_conf:
  "slice_conf_known c \<Longrightarrow> cal_slice_conf c = Some (length (ser_slice_conf (zap_slice_conf c)))"
  by (simp add: cal_slice_conf_def slice_conf_known_def cal_ul_dl ser_slice_conf_def zap_slice_conf_def)

lemma cal_ue_slice_conf: "ue_conf_wf u \<Longrightarrow> cal_ue_slice_conf u = Some (length (ser_ue_conf u))"
proof -
  assume wf: "ue_conf_wf u"
  have "for_loop (\<lambda>i sz. arr_at (us_ues u) i \<bind> (\<lambda>a. Some (sz + cal_ue_slice_assoc a))) [0..<n] 4 =
      Some (4 + length (concat (map ser_assoc (take n (us_ues u)))))" if "n \<le> length (us_ues u)" for n
    using that
    by (induction n) (simp_all add: for_loop_append arr_at_def take_Suc_conv_app_nth cal_ue_slice_assoc_def ser_assoc_def)
  from this [of "unat (us_len_ue_slice u)"] wf show ?thesis
    by (simp add: cal_ue_slice_conf_def ser_ue_conf_def ue_conf_wf_def)
qed

lemma cal_ind_msg_payload:
  "ind_msg_known m \<Longrightarrow> cal_ind_msg_payload m = Some (length (ser_slice_ind_msg (zap_ind_msg m)))"
  by (simp add: cal_ind_msg_payload_def ind_msg_known_def cal_slice_conf cal_ue_slice_conf
      ser_slice_ind_msg_def zap_ind_msg_def)

lemma cal_ctrl_msg_payload:
  "ctrl_msg_known m \<Longrightarrow> cal_ctrl_msg_payload m = Some (length (ser_ctrl_msg (zap_ctrl_msg m)))"
  by (cases m) (simp_all add: cal_slice_conf cal_ue_slice_conf cal_del_slice_def ser_del_def del_wf_def)

section \<open>Properties\<close>

text \<open>The words of the event trigger and the headers survive the trip.\<close>

lemma slice_words_roundtrip:
  "\<exists>ba. slice_enc_event_trigger_plain w = Some ba \<and> (payload ba \<bind> slice_dec_event_trigger_plain) = Some w"
  "\<exists>ba. slice_enc_ind_hdr_plain w = Some ba \<and> (payload ba \<bind> slice_dec_ind_hdr_plain) = Some w"
  "\<exists>ba. slice_enc_ctrl_hdr_plain w = Some ba \<and> (payload ba \<bind> slice_dec_ctrl_hdr_plain) = Some w"
  unfolding slice_enc_event_trigger_plain_def slice_enc_ind_hdr_plain_def slice_enc_ctrl_hdr_plain_def
    slice_dec_event_trigger_plain_def slice_dec_ind_hdr_plain_def slice_dec_ctrl_hdr_plain_def
  by (rule word_roundtrip; simp add: memcpy_from_def)+

lemma zap_known:
  "params_known p \<Longrightarrow> params_known (zap_params p)"
  "slice_known s \<Longrightarrow> slice_known (zap_slice s)"
  "ul_dl_known c \<Longrightarrow> ul_dl_known (zap_ul_dl c)"
  "slice_conf_known d \<Longrightarrow> slice_conf_known (zap_slice_conf d)"
proof -
  show *: "params_known p \<Longrightarrow> params_known (zap_params p)" for p
    using zap_edf_wf by (cases p) (auto simp del: zap_params.simps(1))
  show **: "slice_known s \<Longrightarrow> slice_known (zap_slice s)" for s
    using * by (simp add: slice_known_def zap_slice_def)
  show ***: "ul_dl_known c \<Longrightarrow> ul_dl_known (zap_ul_dl c)" for c
    using ** by (auto simp: ul_dl_known_def zap_ul_dl_def)
  show "slice_conf_known d \<Longrightarrow> slice_conf_known (zap_slice_conf d)"
    using *** by (simp add: slice_conf_known_def zap_slice_conf_def)
qed

lemma written_malloc: "written (c_malloc (length s)) 0 s = map Some s"
  by (rule written_all) simp

lemma slice_enc_ind_msg:
  assumes "ind_msg_known m"
  shows "slice_enc_ind_msg_plain m =
    Some (\<lparr>ba_len = length (ser_slice_ind_msg (zap_ind_msg m)),
           ba_buf = map Some (ser_slice_ind_msg (zap_ind_msg m))\<rparr>, zap_ind_msg m)"
proof -
  let ?z = "zap_ind_msg m"
  let ?s = "ser_slice_ind_msg ?z" and ?a = "ser_slice_conf (zap_slice_conf (sm_slice_conf m))"
    and ?b = "ser_ue_conf (sm_ue_slice_conf m)" and ?c = "le_bytes 8 (sm_tstamp m)"
  have k: "slice_conf_known (sm_slice_conf m)" "ue_conf_wf (sm_ue_slice_conf m)"
    using assms by (simp_all add: ind_msg_known_def)
  have s: "?s = ?a @ ?b @ ?c" by (simp add: ser_slice_ind_msg_def zap_ind_msg_def)
  let ?buf = "c_malloc (length ?s)"
  have "enc_fill_slice_conf (length ?s) ?buf 0 (sm_slice_conf m) =
      Some (written ?buf 0 ?a, length ?a, zap_slice_conf (sm_slice_conf m))"
    using k by (intro conf_w.fill_upd_law) (simp_all add: s)
  moreover have "enc_fill_ue_slice_conf (length ?s) (written ?buf 0 ?a) (length ?a) (sm_ue_slice_conf m) =
      Some (written (written ?buf 0 ?a) (length ?a) ?b, length ?b)"
    using k by (intro ue_w.fill_law) (simp_all add: s)
  moreover have "written (written (written ?buf 0 ?a) (length ?a) ?b) (length ?a + length ?b) ?c = map Some ?s"
    using written_malloc [of ?s] by (simp add: s written_next)
  moreover have "length ?a + length ?b + 8 = length ?s" by (simp add: s)
  moreover have "length (written (written ?buf 0 ?a) (length ?a) ?b) = length ?s" by (simp add: s)
  moreover have "m\<lparr>sm_slice_conf := zap_slice_conf (sm_slice_conf m)\<rparr> = ?z" by (simp add: zap_ind_msg_def)
  ultimately show ?thesis
    by (simp add: slice_enc_ind_msg_plain_def cal_ind_msg_payload [OF assms] Let_def)
qed

text \<open>C12: A slice indication with known tags, arrays that hold their counted elements and strings of less than
  \<open>2 ^ 32 - 1\<close> characters is encoded into exactly the computed number of bytes, and the receiver decodes the message that
  encoding left behind, its strings ended with a zero byte. Encoding replaces the \<^verbatim>\<open>over\<close> array of every EDF slice by zeros.\<close>

theorem slice_ind_msg_roundtrip:
  assumes "ind_msg_known m"
  shows "\<exists>ba bs. slice_enc_ind_msg_plain m = Some (ba, zap_ind_msg m) \<and> payload ba = Some bs \<and>
           bs = ser_slice_ind_msg (zap_ind_msg m) \<and> cal_ind_msg_payload m = Some (length bs) \<and>
           slice_dec_ind_msg_plain bs = Some (rcv_ind_msg (zap_ind_msg m))"
proof -
  let ?z = "zap_ind_msg m" and ?s = "ser_slice_ind_msg (zap_ind_msg m)"
  have k: "slice_conf_known (sm_slice_conf ?z)" "ue_conf_wf (sm_ue_slice_conf ?z)"
    using assms by (simp_all add: ind_msg_known_def zap_ind_msg_def zap_known)
  have r: "reads ?s 0 (ser_slice_conf (sm_slice_conf ?z))"
    "reads ?s (length (ser_slice_conf (sm_slice_conf ?z))) (ser_ue_conf (sm_ue_slice_conf ?z))"
    "memcpy_from ?s (length (ser_slice_conf (sm_slice_conf ?z)) + length (ser_ue_conf (sm_ue_slice_conf ?z))) 8 =
      Some (le_bytes 8 (sm_tstamp ?z))"
    using reads_all [of ?s] unfolding ser_slice_ind_msg_def by (simp_all add: dec_simps)
  have "slice_dec_ind_msg_plain ?s = Some (rcv_ind_msg ?z)"
    using r(3) by (simp add: slice_dec_ind_msg_plain_def Let_def conf_r.dec_law [OF k(1) r(1)]
        ue_r.dec_law [OF k(2) r(2)]) (simp add: ser_slice_ind_msg_def rcv_ind_msg_def)
  then show ?thesis
    using slice_enc_ind_msg [OF assms] payload_all [of ?s] cal_ind_msg_payload [OF assms] by simp
qed

lemma slice_ind_msg_roundtrip_witness:
  "ind_msg_known
     \<lparr>sm_slice_conf = \<lparr>sl_dl = \<lparr>ud_len_slices = 1, ud_slices = [\<lparr>fs_id = 1, fs_len_label = 2, fs_label = [65, 66],
          fs_len_sched = 0, fs_sched = [], fs_params = Params_edf \<lparr>ed_deadline = 1, ed_guaranteed_prbs = 2,
            ed_max_replenish = 3, ed_len_over = 1, ed_over = [7]\<rparr>\<rparr>],
          ud_len_sched_name = 1, ud_sched_name = [67]\<rparr>,
        sl_ul = \<lparr>ud_len_slices = 0, ud_slices = [], ud_len_sched_name = 0, ud_sched_name = []\<rparr>\<rparr>,
      sm_ue_slice_conf = \<lparr>us_len_ue_slice = 0, us_ues = []\<rparr>, sm_tstamp = 5\<rparr> \<and>
   (\<exists>ba bs. slice_enc_ind_msg_plain
     \<lparr>sm_slice_conf = \<lparr>sl_dl = \<lparr>ud_len_slices = 1, ud_slices = [\<lparr>fs_id = 1, fs_len_label = 2, fs_label = [65, 66],
          fs_len_sched = 0, fs_sched = [], fs_params = Params_edf \<lparr>ed_deadline = 1, ed_guaranteed_prbs = 2,
            ed_max_replenish = 3, ed_len_over = 1, ed_over = [7]\<rparr>\<rparr>],
          ud_len_sched_name = 1, ud_sched_name = [67]\<rparr>,
        sl_ul = \<lparr>ud_len_slices = 0, ud_slices = [], ud_len_sched_name = 0, ud_sched_name = []\<rparr>\<rparr>,
      sm_ue_slice_conf = \<lparr>us_len_ue_slice = 0, us_ues = []\<rparr>, sm_tstamp = 5\<rparr> = Some (ba,
     \<lparr>sm_slice_conf = \<lparr>sl_dl = \<lparr>ud_len_slices = 1, ud_slices = [\<lparr>fs_id = 1, fs_len_label = 2, fs_label = [65, 66],
          fs_len_sched = 0, fs_sched = [], fs_params = Params_edf \<lparr>ed_deadline = 1, ed_guaranteed_prbs = 2,
            ed_max_replenish = 3, ed_len_over = 1, ed_over = [0]\<rparr>\<rparr>],
          ud_len_sched_name = 1, ud_sched_name = [67]\<rparr>,
        sl_ul = \<lparr>ud_len_slices = 0, ud_slices = [], ud_len_sched_name = 0, ud_sched_name = []\<rparr>\<rparr>,
      sm_ue_slice_conf = \<lparr>us_len_ue_slice = 0, us_ues = []\<rparr>, sm_tstamp = 5\<rparr>) \<and> payload ba = Some bs)"
  (is "ind_msg_known ?m \<and> _")
proof -
  have k: "ind_msg_known ?m"
    by (simp add: ind_msg_known_def slice_conf_known_def ul_dl_known_def slice_known_def edf_wf_def ue_conf_wf_def)
  show ?thesis
    using slice_ind_msg_roundtrip [OF k] k
    by (auto simp: zap_ind_msg_def zap_slice_conf_def zap_ul_dl_def zap_slice_def zap_edf_def)
qed

lemma slice_enc_ctrl_msg:
  assumes "ctrl_msg_known m"
  shows "slice_enc_ctrl_msg_plain m =
    Some (\<lparr>ba_len = length (ser_ctrl_msg (zap_ctrl_msg m)),
           ba_buf = map Some (ser_ctrl_msg (zap_ctrl_msg m))\<rparr>, zap_ctrl_msg m)"
proof -
  let ?s = "ser_ctrl_msg (zap_ctrl_msg m)"
  have "enc_fill_slice_ctrl_msg (length ?s) (c_malloc (length ?s)) 0 m =
      Some (written (c_malloc (length ?s)) 0 ?s, length ?s, zap_ctrl_msg m)"
    using assms by (intro ctrl_w.fill_upd_law) simp_all
  then show ?thesis
    by (simp add: slice_enc_ctrl_msg_plain_def cal_ctrl_msg_payload [OF assms] Let_def written_malloc)
qed

text \<open>C14: A slice control message (add, delete or associate) with known tags, arrays that hold their counted elements and
  strings of less than \<open>2 ^ 32 - 1\<close> characters is encoded into exactly the computed number of bytes and decoded to the
  message encoding left behind, its strings ended with a zero byte.\<close>

theorem slice_ctrl_msg_roundtrip:
  assumes "ctrl_msg_known m"
  shows "\<exists>ba bs. slice_enc_ctrl_msg_plain m = Some (ba, zap_ctrl_msg m) \<and> payload ba = Some bs \<and>
           bs = ser_ctrl_msg (zap_ctrl_msg m) \<and> cal_ctrl_msg_payload m = Some (length bs) \<and>
           slice_dec_ctrl_msg_plain bs = Some (rcv_ctrl_msg (zap_ctrl_msg m))"
proof -
  let ?z = "zap_ctrl_msg m" and ?s = "ser_ctrl_msg (zap_ctrl_msg m)"
  have "slice_dec_ctrl_msg_plain ?s = Some (rcv_ctrl_msg ?z)"
  proof (cases m)
    case (Ctrl_add c)
    with assms have "slice_conf_known (zap_slice_conf c)" by (simp add: zap_known)
    with Ctrl_add show ?thesis
      using reads_all [of ?s] by (auto simp: slice_dec_ctrl_msg_plain_def dec_simps dest!: conf_r.dec_dest)
  next
    case (Ctrl_del d)
    with assms show ?thesis
      using reads_all [of ?s] by (auto simp: slice_dec_ctrl_msg_plain_def dec_simps dest!: del_r.dec_dest)
  next
    case (Ctrl_ue_assoc u)
    with assms show ?thesis
      using reads_all [of ?s] by (auto simp: slice_dec_ctrl_msg_plain_def dec_simps dest!: ue_r.dec_dest)
  qed (use assms in simp)
  then show ?thesis
    using slice_enc_ctrl_msg [OF assms] payload_all [of ?s] cal_ctrl_msg_payload [OF assms] by simp
qed

lemma slice_ctrl_msg_roundtrip_witness:
  "\<exists>ba bs. slice_enc_ctrl_msg_plain (Ctrl_del \<lparr>dl_len_dl = 1, dl_dl = [7], dl_len_ul = 2, dl_ul = [8, 9]\<rparr>) =
       Some (ba, Ctrl_del \<lparr>dl_len_dl = 1, dl_dl = [7], dl_len_ul = 2, dl_ul = [8, 9]\<rparr>) \<and>
     payload ba = Some bs \<and> length bs = 24 \<and>
     slice_dec_ctrl_msg_plain bs = Some (Ctrl_del \<lparr>dl_len_dl = 1, dl_dl = [7], dl_len_ul = 2, dl_ul = [8, 9]\<rparr>)"
  (is "\<exists>ba bs. _ = Some (ba, ?m) \<and> _")
proof -
  have k: "ctrl_msg_known ?m" by (simp add: del_wf_def)
  have "length (ser_ctrl_msg (zap_ctrl_msg ?m)) = 24" by (simp add: ser_del_def)
  moreover have "zap_ctrl_msg ?m = ?m" "rcv_ctrl_msg ?m = ?m" by (simp_all add: rcv_del_def)
  ultimately show ?thesis using slice_ctrl_msg_roundtrip [OF k] by metis
qed

text \<open>The control outcome loses its answer: whatever it was, the receiver decodes 0, which is
  \<^verbatim>\<open>SLICE_CTRL_OUT_OK\<close>. Only the diagnostic text arrives.\<close>

theorem slice_ctrl_out_loses_answer:
  assumes "unat (co_len_diag c) \<le> length (co_diagnostic c)"
  shows "\<exists>ba bs. slice_enc_ctrl_out_plain c = Some ba \<and> payload ba = Some bs \<and>
           slice_dec_ctrl_out_plain bs = Some \<lparr>co_ans = 0, co_len_diag = co_len_diag c,
             co_diagnostic = take (unat (co_len_diag c)) (co_diagnostic c)\<rparr>"
proof -
  let ?n = "unat (co_len_diag c)"
  let ?d = "take ?n (co_diagnostic c)"
  let ?s = "le_bytes 4 (co_len_diag c) @ ?d"
  have "slice_enc_ctrl_out_plain c = Some \<lparr>ba_len = length ?s, ba_buf = map Some ?s\<rparr>"
    using assms written_malloc [of ?s]
    by (simp add: slice_enc_ctrl_out_plain_def enc_simps)
  moreover have "slice_dec_ctrl_out_plain ?s =
      Some \<lparr>co_ans = 0, co_len_diag = co_len_diag c, co_diagnostic = ?d\<rparr>"
    using reads_all [of ?s] assms
    by (auto simp: slice_dec_ctrl_out_plain_def dec_simps reads_array word_gt_0)
  ultimately show ?thesis using payload_all [of ?s] by blast
qed

lemma slice_ctrl_out_loses_answer_witness:
  "\<exists>ba bs. slice_enc_ctrl_out_plain \<lparr>co_ans = 1, co_len_diag = 1, co_diagnostic = [69]\<rparr> = Some ba \<and>
     payload ba = Some bs \<and>
     slice_dec_ctrl_out_plain bs = Some \<lparr>co_ans = 0, co_len_diag = 1, co_diagnostic = [69]\<rparr>"
  using slice_ctrl_out_loses_answer [of "\<lparr>co_ans = 1, co_len_diag = 1, co_diagnostic = [69]\<rparr>"] by simp

end
