(* ===== verification/BitArray.thy ===== *)
theory BitArray
  imports Prelude begin

text \<open>
  The bit functions of the PHY library (\<^verbatim>\<open>lib/src/phy/utils/bit.c\<close>): unpacking words to arrays with one
  bit per byte and packing them again. An array is a list, a pointer into it a position; reading or
  writing outside of the array, or a shift by the width of the operand, is \<open>None\<close>. The branches for
  vector instructions are not modelled; the code has a scalar branch for each.
\<close>

section \<open>Arrays with one bit per byte\<close>

definition arr_set :: "'a list \<Rightarrow> nat \<Rightarrow> 'a \<Rightarrow> 'a list option" where
  "arr_set xs i v = (if i < length xs then Some (xs[i := v]) else None)"

text \<open>A shift of a 32 bit operand must be smaller than 32.\<close>

definition shr32 :: "u32 \<Rightarrow> nat \<Rightarrow> u32 option" where
  "shr32 v k = (if k < 32 then Some (drop_bit k v) else None)"

definition shl32 :: "u32 \<Rightarrow> nat \<Rightarrow> u32 option" where
  "shl32 v k = (if k < 32 then Some (push_bit k v) else None)"

definition srsran_bit_unpack :: "u32 \<Rightarrow> byte list \<Rightarrow> nat \<Rightarrow> nat \<Rightarrow> (byte list \<times> nat) option" where
  "srsran_bit_unpack value bits pos nof_bits = do {
     bits \<leftarrow> for_loop (\<lambda>i bits. do {
         v \<leftarrow> shr32 value (nof_bits - i - 1);
         arr_set bits (pos + i) (ucast (v AND 1))
       }) [0..<nof_bits] bits;
     Some (bits, pos + nof_bits)
   }"

definition srsran_bit_unpack_lsb :: "u32 \<Rightarrow> byte list \<Rightarrow> nat \<Rightarrow> nat \<Rightarrow> (byte list \<times> nat) option" where
  "srsran_bit_unpack_lsb value bits pos nof_bits = do {
     bits \<leftarrow> for_loop (\<lambda>i bits. do {
         v \<leftarrow> shr32 value (nof_bits - i - 1);
         arr_set bits (pos + (nof_bits - i - 1)) (ucast (v AND 1))
       }) [0..<nof_bits] bits;
     Some (bits, pos + nof_bits)
   }"

definition srsran_bit_pack :: "byte list \<Rightarrow> nat \<Rightarrow> nat \<Rightarrow> (u32 \<times> nat) option" where
  "srsran_bit_pack bits pos nof_bits = do {
     value \<leftarrow> for_loop (\<lambda>i value. do {
         b \<leftarrow> arr_at bits (pos + i);
         v \<leftarrow> shl32 (ucast b) (nof_bits - i - 1);
         Some (value OR v)
       }) [0..<nof_bits] 0;
     Some (value, pos + nof_bits)
   }"

definition srsran_bit_unpack_l :: "u64 \<Rightarrow> byte list \<Rightarrow> nat \<Rightarrow> nat \<Rightarrow> (byte list \<times> nat) option" where
  "srsran_bit_unpack_l value bits pos nof_bits = do {
     bits \<leftarrow> for_loop (\<lambda>i bits. do {
         c_assert (nof_bits - i - 1 < 64);
         arr_set bits (pos + i) (ucast (drop_bit (nof_bits - i - 1) value AND 1))
       }) [0..<nof_bits] bits;
     Some (bits, pos + nof_bits)
   }"

definition srsran_bit_pack_l :: "byte list \<Rightarrow> nat \<Rightarrow> nat \<Rightarrow> (u64 \<times> nat) option" where
  "srsran_bit_pack_l bits pos nof_bits = do {
     value \<leftarrow> for_loop (\<lambda>i value. do {
         b \<leftarrow> arr_at bits (pos + i);
         c_assert (nof_bits - i - 1 < 64);
         Some (value OR push_bit (nof_bits - i - 1) (ucast b))
       }) [0..<nof_bits] 0;
     Some (value, pos + nof_bits)
   }"

definition srsran_bit_unpack_vector :: "byte list \<Rightarrow> byte list \<Rightarrow> nat \<Rightarrow> nat \<Rightarrow> (byte list \<times> nat) option" where
  "srsran_bit_unpack_vector packed unpacked pos nof_bits = do {
     let nbytes = nof_bits div 8;
     (unpacked, pos) \<leftarrow> for_loop (\<lambda>i (unpacked, pos). do {
         b \<leftarrow> arr_at packed i;
         srsran_bit_unpack (ucast b) unpacked pos 8
       }) [0..<nbytes] (unpacked, pos);
     if nof_bits mod 8 \<noteq> 0 then do {
       b \<leftarrow> arr_at packed nbytes;
       srsran_bit_unpack (ucast (drop_bit (8 - nof_bits mod 8) b)) unpacked pos (nof_bits mod 8)
     } else Some (unpacked, pos)
   }"

definition srsran_bit_pack_vector :: "byte list \<Rightarrow> nat \<Rightarrow> byte list \<Rightarrow> nat \<Rightarrow> (byte list \<times> nat) option" where
  "srsran_bit_pack_vector unpacked pos packed nof_bits = do {
     let nbytes = nof_bits div 8;
     (packed, pos) \<leftarrow> for_loop (\<lambda>i (packed, pos). do {
         (v, pos) \<leftarrow> srsran_bit_pack unpacked pos 8;
         packed \<leftarrow> arr_set packed i (ucast v);
         Some (packed, pos)
       }) [0..<nbytes] (packed, pos);
     if nof_bits mod 8 \<noteq> 0 then do {
       (v, pos) \<leftarrow> srsran_bit_pack unpacked pos (nof_bits mod 8);
       packed \<leftarrow> arr_set packed nbytes (ucast v);
       b \<leftarrow> arr_at packed nbytes;
       packed \<leftarrow> arr_set packed nbytes (push_bit (8 - nof_bits mod 8) b);
       Some (packed, pos)
     } else Some (packed, pos)
   }"

definition srsran_bit_diff :: "byte list \<Rightarrow> byte list \<Rightarrow> nat \<Rightarrow> u32 option" where
  "srsran_bit_diff x y nbits =
     for_loop (\<lambda>i errors. do {
         a \<leftarrow> arr_at x i;
         b \<leftarrow> arr_at y i;
         Some (if a \<noteq> b then errors + 1 else errors)
       }) [0..<nbits] 0"

text \<open>Each round of \<^verbatim>\<open>srsran_bit_count\<close> clears the lowest bit, so the word gets smaller.\<close>

lemma word_and_dec_less: "n \<noteq> 0 \<Longrightarrow> unat (n AND (n - 1) :: 'a::len word) < unat n"
proof -
  assume n: "n \<noteq> 0"
  have "n AND (n - 1) \<le> n - 1"
    by (simp add: word_and_le1)
  also have "n - 1 < n" using n by (simp add: word_less_nat_alt unat_minus_one unat_gt_0)
  finally show ?thesis by (simp add: word_less_nat_alt)
qed

function bit_count_loop :: "u32 \<Rightarrow> u32 \<Rightarrow> u32" where
  "bit_count_loop n c = (if n = 0 then c else bit_count_loop (n AND (n - 1)) (c + 1))"
  by auto
termination
  by (relation "measure (\<lambda>(n, c). unat n)") (simp_all add: word_and_dec_less)

declare bit_count_loop.simps [simp del]

definition srsran_bit_count :: "u32 \<Rightarrow> u32" where
  "srsran_bit_count n = bit_count_loop n 0"

section \<open>What unpacking and packing compute\<close>

text \<open>The \<open>n\<close> low bits of a word, the highest first.\<close>

definition bits_of :: "nat \<Rightarrow> 'a::len word \<Rightarrow> bool list" where
  "bits_of n v = map (\<lambda>i. bit v (n - 1 - i)) [0..<n]"

definition bit_byte :: "bool \<Rightarrow> byte" where
  "bit_byte b = (if b then 1 else 0)"

definition byte_bit :: "byte \<Rightarrow> bool" where
  "byte_bit x \<longleftrightarrow> x = 1"

abbreviation is_bits :: "byte list \<Rightarrow> bool" where
  "is_bits xs \<equiv> set xs \<subseteq> {0, 1}"

lemma length_bits_of [simp]: "length (bits_of n v) = n"
  by (simp add: bits_of_def)

lemma byte_bit_bit_byte [simp]: "byte_bit (bit_byte b) = b"
  by (simp add: byte_bit_def bit_byte_def)

lemma bit_byte_byte_bit: "x \<in> {0, 1} \<Longrightarrow> bit_byte (byte_bit x) = x"
  by (auto simp: byte_bit_def bit_byte_def)

lemma is_bits_map_bit_byte [simp]: "is_bits (map bit_byte bs)"
  by (auto simp: bit_byte_def)

text \<open>The number with the given bits, the highest first.\<close>

definition num_of :: "bool list \<Rightarrow> 'a::len word" where
  "num_of bs = foldl (\<lambda>v b. 2 * v OR of_bool b) 0 bs"

lemma num_of_snoc: "num_of (bs @ [b]) = 2 * num_of bs OR of_bool b"
  by (simp add: num_of_def)

lemma num_of_Nil [simp]: "num_of [] = 0"
  by (simp add: num_of_def)

lemma bit_num_of:
  "bit (num_of bs :: 'a::len word) k \<longleftrightarrow> k < LENGTH('a) \<and> k < length bs \<and> bs ! (length bs - 1 - k)"
proof (induction bs arbitrary: k rule: rev_induct)
  case Nil
  then show ?case by simp
next
  case (snoc b bs)
  show ?case
  proof (cases k)
    case 0
    then show ?thesis by (simp add: num_of_snoc bit_or_iff bit_double_iff bit_of_bool_iff)
  next
    case (Suc m)
    then show ?thesis
      by (auto simp: num_of_snoc bit_or_iff bit_double_iff bit_of_bool_iff nth_append snoc.IH)
  qed
qed

lemma num_of_bits_of: "num_of (bits_of n v) = take_bit n (v :: 'a::len word)"
  by (rule bit_word_eqI) (auto simp: bit_num_of bit_take_bit_iff bits_of_def)

lemma bits_of_num_of: "length bs \<le> LENGTH('a) \<Longrightarrow> bits_of (length bs) (num_of bs :: 'a::len word) = bs"
  by (rule nth_equalityI) (auto simp: bits_of_def bit_num_of)

lemma bit_times_2: "bit (v * 2 :: 'a::len word) k \<longleftrightarrow> 0 < k \<and> k < LENGTH('a) \<and> bit v (k - 1)"
  by (auto simp: bit_double_iff mult.commute [of v 2])

lemma nonzero_bit: "(w :: 'a::len word) \<noteq> 0 \<Longrightarrow> \<exists>k. bit w k"
  by (auto intro: ccontr bit_word_eqI [of w 0])

lemma bit_small_nat: "bit (word_of_nat i :: 'a::len word) k \<Longrightarrow> i < 2 ^ m \<Longrightarrow> k < m"
proof (rule ccontr)
  assume a: "bit (word_of_nat i :: 'a word) k" "i < 2 ^ m" "\<not> k < m"
  then have "(2::nat) ^ m \<le> 2 ^ k" by (intro power_increasing) auto
  with a(2) have "i < 2 ^ k" by linarith
  with a(1) show False by (simp add: bit_of_nat_iff bit_nat_def)
qed

text \<open>Filling a part of an array from the left.\<close>

lemma fill_array:
  assumes "pos + n \<le> length xs"
    and "\<And>i ys. i < n \<Longrightarrow> length ys = length xs \<Longrightarrow> f i ys = arr_set ys (pos + i) (g i)"
  shows "for_loop f [0..<n] xs = Some (take pos xs @ map g [0..<n] @ drop (pos + n) xs)"
proof -
  let ?st = "\<lambda>i. take pos xs @ map g [0..<i] @ drop (pos + i) xs"
  have "for_loop f [0..<n] (?st 0) = Some (?st n)"
  proof (rule for_loop_states)
    fix i
    assume i: "i < n"
    have d: "drop (pos + i) xs = xs ! (pos + i) # drop (Suc (pos + i)) xs"
      using i assms(1) by (simp add: Cons_nth_drop_Suc)
    have "(?st i)[pos + i := g i] = ?st (Suc i)"
      using i assms(1) by (simp add: d list_update_append min_def)
    then show "f i (?st i) = Some (?st (Suc i))"
      using i assms by (simp add: arr_set_def)
  qed simp
  then show ?thesis by simp
qed

lemma ucast_and_1: "ucast (drop_bit k v AND 1 :: 'a::len word) = bit_byte (bit v k)"
proof -
  have "drop_bit k v AND 1 = of_bool (bit v k)"
    by (rule bit_word_eqI) (auto simp: bit_simps)
  then show ?thesis by (simp add: bit_byte_def)
qed

lemma srsran_bit_unpack:
  assumes "n \<le> 32" and "pos + n \<le> length bits"
  shows "srsran_bit_unpack v bits pos n =
           Some (take pos bits @ map bit_byte (bits_of n v) @ drop (pos + n) bits, pos + n)"
proof -
  have "for_loop (\<lambda>i bits. shr32 v (n - i - 1) \<bind> (\<lambda>v. arr_set bits (pos + i) (ucast (v AND 1))))
      [0..<n] bits = Some (take pos bits @ map (\<lambda>i. bit_byte (bit v (n - 1 - i))) [0..<n] @ drop (pos + n) bits)"
    using assms by (intro fill_array) (auto simp: shr32_def ucast_and_1 not_less)
  moreover have "map bit_byte (bits_of n v) = map (\<lambda>i. bit_byte (bit v (n - 1 - i))) [0..<n]"
    by (simp add: bits_of_def comp_def)
  ultimately show ?thesis by (simp only: srsran_bit_unpack_def) simp
qed

lemma srsran_bit_pack:
  assumes "n \<le> 32" and "pos + n \<le> length bits" and "is_bits (take n (drop pos bits))"
  shows "srsran_bit_pack bits pos n = Some (num_of (map byte_bit (take n (drop pos bits))), pos + n)"
proof -
  let ?xs = "map byte_bit (take n (drop pos bits))"
  let ?f = "\<lambda>i value. arr_at bits (pos + i) \<bind> (\<lambda>b. shl32 (ucast b) (n - i - 1) \<bind> (\<lambda>v. Some (value OR v)))"
  let ?st = "\<lambda>i. push_bit (n - i) (num_of (take i ?xs)) :: u32"
  have len: "length ?xs = n" using assms(2) by simp
  have "for_loop ?f [0..<n] (?st 0) = Some (?st n)"
  proof (rule for_loop_states)
    fix i
    assume i: "i < n"
    have "bits ! (pos + i) = take n (drop pos bits) ! i" using i assms(2) by simp
    moreover have "take n (drop pos bits) ! i \<in> {0, 1}"
      using i assms(2,3) nth_mem [of i "take n (drop pos bits)"] by auto
    ultimately have b: "ucast (bits ! (pos + i)) = (of_bool (?xs ! i) :: u32)"
      using i assms(2) by (auto simp: byte_bit_def)
    have t: "take (Suc i) ?xs = take i ?xs @ [?xs ! i]"
      using i len by (simp only: take_Suc_conv_app_nth)
    have p: "push_bit (n - i) w = push_bit (n - Suc i) (2 * w)" for w :: u32
      using i by (metis Suc_diff_Suc push_bit_Suc mult.commute)
    show "?f i (?st i) = Some (?st (Suc i))"
      unfolding t num_of_snoc push_bit_or p [symmetric]
      using i assms(1,2) b by (simp add: arr_at_def shl32_def)
  qed simp
  then show ?thesis using len by (simp add: srsran_bit_pack_def)
qed

text \<open>Packing what was unpacked gives the low bits of the word back, and unpacking leaves the rest of the
  array alone.\<close>

theorem bit_pack_unpack:
  assumes "n \<le> 32" and "pos + n \<le> length bits"
  shows "\<exists>bits'. srsran_bit_unpack v bits pos n = Some (bits', pos + n) \<and> length bits' = length bits \<and>
           take pos bits' = take pos bits \<and> drop (pos + n) bits' = drop (pos + n) bits \<and>
           srsran_bit_pack bits' pos n = Some (take_bit n v, pos + n)"
proof -
  let ?b = "take pos bits @ map bit_byte (bits_of n v) @ drop (pos + n) bits"
  have "take n (drop pos ?b) = map bit_byte (bits_of n v)" using assms(2) by simp
  then have "srsran_bit_pack ?b pos n = Some (take_bit n v, pos + n)"
    using assms srsran_bit_pack [of n pos ?b] is_bits_map_bit_byte [of "bits_of n v"]
    by (simp add: comp_def num_of_bits_of)
  then show ?thesis using srsran_bit_unpack [OF assms, of v] assms(2) by simp
qed

lemma bit_pack_unpack_witness:
  "\<exists>bits'. srsran_bit_unpack 5 [9, 9, 9, 9, 9] 1 3 = Some (bits', 4) \<and> length bits' = 5 \<and>
     srsran_bit_pack bits' 1 3 = Some (5, 4)"
  using bit_pack_unpack [of 3 1 "[9, 9, 9, 9, 9]" 5] by (auto simp: take_bit_numeral_numeral)

section \<open>Counting bits\<close>

lemma clear_lowest_bit:
  fixes n :: "'a::len word"
  assumes k: "bit n k" and least: "\<And>j. bit n j \<Longrightarrow> k \<le> j"
  shows "bit (n AND (n - 1)) j \<longleftrightarrow> bit n j \<and> j \<noteq> k"
proof -
  define h where "h = n AND NOT (mask (Suc k))"
  have h: "bit h j \<longleftrightarrow> bit n j \<and> k < j" for j
    unfolding h_def by (auto simp: bit_simps less_Suc_eq_le dest: bit_imp_le_length)
  have kl: "k < LENGTH('a)" using k by (rule bit_imp_le_length)
  define b where "b = (push_bit k 1 :: 'a word)"
  have bk: "bit b j \<longleftrightarrow> j = k" for j
    unfolding b_def using kl by (auto simp: bit_exp_iff)
  have "h AND b = 0"
    by (rule bit_word_eqI) (auto simp: bit_and_iff h bk)
  moreover have "h OR b = n"
  proof (rule bit_word_eqI)
    fix i
    show "bit (h OR b) i \<longleftrightarrow> bit n i"
      using k least [of i] by (auto simp: bit_or_iff h bk)
  qed
  ultimately have "n = h + b" by (simp add: disjunctive_add_eq_or)
  then have "n - 1 = h + mask k" by (simp add: b_def mask_eq_exp_minus_1 push_bit_eq_mult)
  moreover have "h AND mask k = 0"
    by (rule bit_word_eqI) (auto simp: bit_and_iff h bit_mask_iff)
  ultimately have n1: "n - 1 = h OR mask k" by (simp add: disjunctive_add_eq_or)
  show ?thesis
    using least [of j] unfolding n1
    by (auto simp: bit_and_iff bit_or_iff h bit_mask_iff)
qed

lemma finite_bits: "finite {k. bit (n :: 'a::len word) k}"
  by (rule finite_subset [of _ "{..<LENGTH('a)}"]) (auto dest: bit_imp_le_length)

lemma bit_count_loop: "bit_count_loop n c = c + word_of_nat (card {k. bit n k})"
proof (induction n c rule: bit_count_loop.induct)
  case (1 n c)
  show ?case
  proof (cases "n = 0")
    case True
    then show ?thesis by (simp add: bit_count_loop.simps)
  next
    case False
    define k where "k = (LEAST k. bit n k)"
    have "\<exists>k. bit n k" using False by (rule nonzero_bit)
    then have k: "bit n k" "\<And>j. bit n j \<Longrightarrow> k \<le> j"
      unfolding k_def by (auto intro: LeastI_ex Least_le)
    have "{j. bit n j} = insert k {j. bit (n AND (n - 1)) j}"
      using k(1) by (auto simp: clear_lowest_bit [OF k])
    then have "card {j. bit n j} = Suc (card {j. bit (n AND (n - 1)) j})"
      using finite_bits [of "n AND (n - 1)"] clear_lowest_bit [OF k, of k]
      by (metis card_insert_disjoint mem_Collect_eq)
    then show ?thesis
      using False 1 by (subst bit_count_loop.simps) (simp add: add.assoc)
  qed
qed

text \<open>The loop \<^verbatim>\<open>n &= n - 1\<close> of \<^verbatim>\<open>srsran_bit_count\<close> ends on every word, and it counts the ones.\<close>

theorem srsran_bit_count_popcount: "srsran_bit_count n = word_of_nat (card {k. bit n k})"
  by (simp add: srsran_bit_count_def bit_count_loop)

end
