(* ===== verification/Crc.thy ===== *)
theory Crc
  imports BitArray begin

text \<open>
  Cyclic redundancy checks (\<^verbatim>\<open>lib/src/phy/fec/crc.c\<close>, \<^verbatim>\<open>lib/include/srsran/phy/fec/crc.h\<close>): the lookup
  table, the bytewise loop with its rewind for a length that is no multiple of 8, attaching and
  matching. The reference is the bit-serial shift register of 3GPP TS 36.212, 5.1.1.
\<close>

section \<open>The code\<close>

text \<open>\<^verbatim>\<open>srsran_crc_t\<close>. The member \<^verbatim>\<open>srsran_crc_out\<close> is not used by the code.\<close>

record srsran_crc =
  c_table :: "u64 list"
  c_polynom :: u32
  c_order :: nat
  c_crcinit :: u64
  c_crcmask :: u64
  c_crchighbit :: u64

definition gen_crc_table :: "srsran_crc \<Rightarrow> srsran_crc" where
  "gen_crc_table h =
     (let pad = (if c_order h < 8 then 8 - c_order h else 0);
          ord = c_order h + pad - 8;
          polynom = push_bit pad (c_polynom h);
          crchighbit = push_bit pad (ucast (c_crchighbit h)) :: u32;
          entry = (\<lambda>i. let crc = foldl (\<lambda>crc _.
                       (let bit = (crc AND ucast crchighbit \<noteq> 0);
                            crc = push_bit 1 crc
                        in if bit then crc XOR ucast polynom else crc))
                     (push_bit ord (word_of_nat i) :: u64) [0..<8]
                   in drop_bit pad crc AND c_crcmask h)
      in h\<lparr>c_table := map entry [0..<256]\<rparr>)"

definition reversecrcbit :: "u32 \<Rightarrow> nat \<Rightarrow> srsran_crc \<Rightarrow> u64" where
  "reversecrcbit crc nbits h =
     (let crc = foldl (\<lambda>crc _.
                  if 1 AND crc = 1 then drop_bit 1 (crc XOR c_polynom h) else drop_bit 1 crc)
                crc [0..<nbits]
      in ucast crc AND c_crcmask h)"

text \<open>The return value: 0, or -1 for an invalid value, which is set all the same.\<close>

definition srsran_crc_set_init :: "srsran_crc \<Rightarrow> u64 \<Rightarrow> int \<times> srsran_crc" where
  "srsran_crc_set_init h v =
     (let h = h\<lparr>c_crcinit := v\<rparr>
      in if c_crcinit h \<noteq> c_crcinit h AND c_crcmask h then (-1, h) else (0, h))"

definition srsran_crc_init :: "u32 \<Rightarrow> nat \<Rightarrow> int \<times> srsran_crc" where
  "srsran_crc_init crc_poly crc_order =
     (let h = \<lparr>c_table = [], c_polynom = crc_poly, c_order = crc_order, c_crcinit = 0,
               c_crcmask = push_bit 1 (push_bit (crc_order - 1) 1 - 1) OR 1,
               c_crchighbit = push_bit (crc_order - 1) 1\<rparr>;
          (ret, h) = srsran_crc_set_init h (c_crcinit h)
      in if ret \<noteq> 0 then (-1, h) else (0, gen_crc_table h))"

definition srsran_crc_checksum_put_byte :: "srsran_crc \<Rightarrow> byte \<Rightarrow> srsran_crc option" where
  "srsran_crc_checksum_put_byte h byte = do {
     let crc = c_crcinit h;
     let idx = (if 8 < c_order h
                then (drop_bit (c_order h - 8) crc AND 0xFF) XOR ucast byte
                else (push_bit (8 - c_order h) crc AND 0xFF) XOR ucast byte);
     t \<leftarrow> arr_at (c_table h) (unat idx);
     Some (h\<lparr>c_crcinit := push_bit 8 crc XOR t\<rparr>)
   }"

definition srsran_crc_checksum_get :: "srsran_crc \<Rightarrow> u64" where
  "srsran_crc_checksum_get h = c_crcinit h AND c_crcmask h"

definition srsran_crc_checksum :: "srsran_crc \<Rightarrow> byte list \<Rightarrow> nat \<Rightarrow> (u32 \<times> srsran_crc) option" where
  "srsran_crc_checksum h data len = do {
     let (_, h) = srsran_crc_set_init h 0;
     let len8 = len div 8;
     let res8 = len - len8 * 8;
     let a = (if 0 < res8 then 1 else 0);
     h \<leftarrow> for_loop (\<lambda>i h. do {
         byte \<leftarrow> (if i = len8
            then for_loop (\<lambda>k byte. do {
                   x \<leftarrow> arr_at data (8 * i + k);
                   Some (byte OR push_bit (7 - k) x)
                 }) [0..<res8] 0
            else do {
              (v, _) \<leftarrow> srsran_bit_pack data (8 * i) 8;
              Some (ucast (v AND 0xFF))
            });
         srsran_crc_checksum_put_byte h byte
       }) [0..<len8 + a] h;
     let crc = (ucast (srsran_crc_checksum_get h) :: u32);
     let crc = (if a = 1 then ucast (reversecrcbit crc (8 - res8) h) else crc);
     Some (crc, h)
   }"

definition srsran_crc_checksum_byte :: "srsran_crc \<Rightarrow> byte list \<Rightarrow> nat \<Rightarrow> (u32 \<times> srsran_crc) option" where
  "srsran_crc_checksum_byte h data len = do {
     let (_, h) = srsran_crc_set_init h 0;
     h \<leftarrow> for_loop (\<lambda>i h. do {
         b \<leftarrow> arr_at data i;
         srsran_crc_checksum_put_byte h b
       }) [0..<len div 8] h;
     Some (ucast (srsran_crc_checksum_get h), h)
   }"

text \<open>The buffer has \<open>len + order\<close> bits; the checksum is written behind the data.\<close>

definition srsran_crc_attach :: "srsran_crc \<Rightarrow> byte list \<Rightarrow> nat \<Rightarrow> (u32 \<times> byte list \<times> srsran_crc) option" where
  "srsran_crc_attach h data len = do {
     (checksum, h) \<leftarrow> srsran_crc_checksum h data len;
     (data, _) \<leftarrow> srsran_bit_unpack checksum data len (c_order h);
     Some (checksum, data, h)
   }"

definition srsran_crc_attach_byte :: "srsran_crc \<Rightarrow> byte list \<Rightarrow> nat \<Rightarrow> (u32 \<times> byte list \<times> srsran_crc) option" where
  "srsran_crc_attach_byte h data len = do {
     (checksum, h) \<leftarrow> srsran_crc_checksum_byte h data len;
     data \<leftarrow> for_loop (\<lambda>i data.
         arr_set data (len div 8 + (c_order h div 8 - i - 1))
           (ucast (drop_bit (8 * i) (checksum AND push_bit (8 * i) 0xFF))))
       [0..<c_order h div 8] data;
     Some (checksum, data, h)
   }"

definition srsran_crc_match :: "srsran_crc \<Rightarrow> byte list \<Rightarrow> nat \<Rightarrow> (bool \<times> srsran_crc) option" where
  "srsran_crc_match h data len = do {
     (checksum, h) \<leftarrow> srsran_crc_checksum h data (len + c_order h);
     Some (checksum = 0, h)
   }"

definition srsran_crc_match_byte :: "srsran_crc \<Rightarrow> byte list \<Rightarrow> nat \<Rightarrow> (bool \<times> srsran_crc) option" where
  "srsran_crc_match_byte h data len = do {
     (checksum, h) \<leftarrow> srsran_crc_checksum_byte h data (len + c_order h);
     Some (checksum = 0, h)
   }"

section \<open>The reference: a shift register\<close>

text \<open>One step without input, and with an input bit. The register has \<open>n\<close> bits.\<close>

definition lfsr :: "u64 \<Rightarrow> nat \<Rightarrow> u64 \<Rightarrow> u64" where
  "lfsr p n r = take_bit n (push_bit 1 r) XOR (if bit r (n - 1) then take_bit n p else 0)"

definition crc_step :: "u64 \<Rightarrow> nat \<Rightarrow> u64 \<Rightarrow> bool \<Rightarrow> u64" where
  "crc_step p n r b =
     take_bit n (push_bit 1 r) XOR (if bit r (n - 1) \<noteq> b then take_bit n p else 0)"

definition crc_ref :: "u64 \<Rightarrow> nat \<Rightarrow> bool list \<Rightarrow> u64" where
  "crc_ref p n bs = foldl (crc_step p n) 0 bs"

text \<open>Polynomials: odd, and the highest bit is the order.\<close>

definition crc_poly :: "u64 \<Rightarrow> nat \<Rightarrow> bool" where
  "crc_poly p n \<longleftrightarrow> 0 < n \<and> n \<le> 24 \<and> odd p \<and> bit p n \<and> (\<forall>k > n. \<not> bit p k)"

lemma bit_lfsr:
  "n < 64 \<Longrightarrow> bit (lfsr p n r) k \<longleftrightarrow>
     k < n \<and> ((0 < k \<and> bit r (k - 1)) \<noteq> (bit r (n - 1) \<and> bit p k))"
  by (auto simp: lfsr_def bit_xor_iff bit_take_bit_iff bit_times_2)

lemma lfsr_xor: "n < 64 \<Longrightarrow> lfsr p n (a XOR b) = lfsr p n a XOR lfsr p n b"
  by (rule bit_word_eqI) (auto simp: bit_lfsr bit_xor_iff)

lemma lfsr_0 [simp]: "lfsr p n 0 = 0"
  by (simp add: lfsr_def)

lemma funpow_lfsr_xor:
  "n < 64 \<Longrightarrow> (lfsr p n ^^ k) (a XOR b) = (lfsr p n ^^ k) a XOR (lfsr p n ^^ k) b"
  by (induction k) (simp_all add: lfsr_xor)

text \<open>While the top bit is clear a step is a shift.\<close>

lemma lfsr_shift:
  assumes "n < 64" and "\<And>k. bit r k \<Longrightarrow> k + 1 < n"
  shows "lfsr p n r = push_bit 1 r"
proof (rule bit_word_eqI)
  fix k
  assume "k < LENGTH(64)"
  have "\<not> bit r (n - 1)" using assms(2) [of "n - 1"] by (cases "bit r (n - 1)") auto
  then show "bit (lfsr p n r) k \<longleftrightarrow> bit (push_bit 1 r) k"
    using assms(1) assms(2) [of "k - 1"] by (auto simp: bit_lfsr bit_times_2)
qed

lemma funpow_lfsr_shift:
  assumes "n < 64" and "\<And>k. bit r k \<Longrightarrow> k + m < n"
  shows "(lfsr p n ^^ m) r = push_bit m r"
  using assms(2)
proof (induction m)
  case (Suc m)
  have IH: "(lfsr p n ^^ m) r = push_bit m r" using Suc by force
  have "lfsr p n (push_bit m r) = push_bit 1 (push_bit m r)"
  proof (rule lfsr_shift [OF assms(1)])
    fix k
    assume "bit (push_bit m r) k"
    then have "m \<le> k" "bit r (k - m)" by (auto simp: bit_push_bit_iff)
    then show "k + 1 < n" using Suc.prems [of "k - m"] by simp
  qed
  then show ?case by (simp only: funpow.simps o_apply IH push_bit_push_bit) simp
qed simp

text \<open>Feeding a bit is the step without input on a register with the top bit flipped.\<close>

lemma crc_step_lfsr:
  assumes "0 < n" "n < 64"
  shows "crc_step p n r b = lfsr p n (r XOR push_bit (n - 1) (of_bool b))"
  by (rule bit_word_eqI)
    (use assms in \<open>auto simp: crc_step_def bit_lfsr bit_xor_iff bit_take_bit_iff bit_times_2 bit_exp_iff split: if_splits\<close>)

lemma feed_bits:
  assumes "0 < n" "n < 64" "length bs \<le> n"
  shows "foldl (crc_step p n) r bs =
           (lfsr p n ^^ length bs) (r XOR push_bit (n - length bs) (num_of bs))"
  using assms(3)
proof (induction bs rule: rev_induct)
  case Nil
  then show ?case by simp
next
  case (snoc b bs)
  let ?k = "length bs"
  have IH: "foldl (crc_step p n) r bs = (lfsr p n ^^ ?k) (r XOR push_bit (n - ?k) (num_of bs))"
    using snoc by simp
  have top: "(lfsr p n ^^ ?k) (push_bit (n - 1 - ?k) (of_bool b)) = push_bit (n - 1) (of_bool b)"
    using assms snoc.prems
    by (cases b; subst funpow_lfsr_shift) (auto simp: bit_exp_iff push_bit_eq_mult simp flip: power_add)
  have "push_bit (n - ?k) (num_of bs) XOR push_bit (n - 1 - ?k) (of_bool b) =
      push_bit (n - Suc ?k) (num_of (bs @ [b]) :: u64)"
  proof (rule bit_word_eqI)
    fix i
    assume "i < LENGTH(64)"
    show "bit (push_bit (n - ?k) (num_of bs) XOR push_bit (n - 1 - ?k) (of_bool b) :: u64) i \<longleftrightarrow>
        bit (push_bit (n - Suc ?k) (num_of (bs @ [b])) :: u64) i"
      using snoc.prems assms(2)
      by (auto simp: bit_xor_iff bit_push_bit_iff bit_of_bool_iff bit_num_of nth_append Suc_diff_Suc)
  qed
  then have arg: "(r XOR push_bit (n - ?k) (num_of bs)) XOR push_bit (n - 1 - ?k) (of_bool b) =
      r XOR push_bit (n - Suc ?k) (num_of (bs @ [b]))"
    by (simp add: xor.assoc)
  have "foldl (crc_step p n) r (bs @ [b]) = lfsr p n ((lfsr p n ^^ ?k) (r XOR push_bit (n - ?k) (num_of bs)) XOR
      (lfsr p n ^^ ?k) (push_bit (n - 1 - ?k) (of_bool b)))"
    unfolding top by (simp only: foldl_append foldl.simps IH crc_step_lfsr [OF assms(1,2)])
  also have "\<dots> = lfsr p n ((lfsr p n ^^ ?k) (r XOR push_bit (n - Suc ?k) (num_of (bs @ [b]))))"
    by (simp only: funpow_lfsr_xor [OF assms(2), symmetric] arg)
  finally show ?case by simp
qed

section \<open>The table\<close>

lemma foldl_const: "foldl (\<lambda>x _. f x) x [0..<n] = (f ^^ n) x"
  by (induction n) simp_all

text \<open>The loop of the table does not mask its value; the low bits are those of the register.\<close>

definition table_step :: "u64 \<Rightarrow> u64 \<Rightarrow> u64 \<Rightarrow> u64" where
  "table_step p high crc = (if crc AND high \<noteq> 0 then push_bit 1 crc XOR p else push_bit 1 crc)"

lemma table_step_lfsr:
  assumes "0 < n" "n < 64" and "high = push_bit (n - 1) 1"
  shows "take_bit n (table_step p high crc) = lfsr p n (take_bit n crc)"
proof -
  have "crc AND high \<noteq> 0 \<longleftrightarrow> bit crc (n - 1)"
  proof
    assume "crc AND high \<noteq> 0"
    then obtain k where "bit (crc AND high) k" using nonzero_bit by blast
    then show "bit crc (n - 1)" using assms by (auto simp: bit_and_iff bit_exp_iff)
  next
    assume "bit crc (n - 1)"
    then have "bit (crc AND high) (n - 1)" using assms by (auto simp: bit_and_iff bit_exp_iff)
    then show "crc AND high \<noteq> 0" by auto
  qed
  with assms show ?thesis
    by (intro bit_word_eqI) (auto simp: table_step_def bit_lfsr bit_take_bit_iff bit_xor_iff bit_times_2)
qed

lemma table_steps_lfsr:
  assumes "0 < n" "n < 64" and "high = push_bit (n - 1) 1"
  shows "take_bit n ((table_step p high ^^ k) crc) = (lfsr p n ^^ k) (take_bit n crc)"
  by (induction k) (simp_all add: table_step_lfsr [OF assms])

text \<open>A register of less than 8 bits works in the high bits of one with 8.\<close>

lemma lfsr_pad:
  assumes "0 < n" "n + pad < 64"
  shows "lfsr (push_bit pad p) (n + pad) (push_bit pad r) = push_bit pad (lfsr p n r)"
proof (rule bit_word_eqI)
  fix k
  assume "k < LENGTH(64)"
  then show "bit (lfsr (push_bit pad p) (n + pad) (push_bit pad r)) k \<longleftrightarrow> bit (push_bit pad (lfsr p n r)) k"
    using assms by (auto simp: bit_lfsr bit_push_bit_iff)
qed

lemma funpow_lfsr_pad:
  assumes "0 < n" "n + pad < 64"
  shows "(lfsr (push_bit pad p) (n + pad) ^^ k) (push_bit pad r) = push_bit pad ((lfsr p n ^^ k) r)"
  by (induction k) (simp_all add: lfsr_pad [OF assms])

section \<open>The invariant of the CRC object\<close>

definition pad_of :: "nat \<Rightarrow> nat" where
  "pad_of n = (if n < 8 then 8 - n else 0)"

definition table_entry :: "u64 \<Rightarrow> nat \<Rightarrow> nat \<Rightarrow> u64" where
  "table_entry p n i =
     drop_bit (pad_of n) ((lfsr (push_bit (pad_of n) p) (n + pad_of n) ^^ 8)
       (push_bit (n + pad_of n - 8) (word_of_nat i)))"

definition crc_ok :: "u64 \<Rightarrow> nat \<Rightarrow> srsran_crc \<Rightarrow> bool" where
  "crc_ok p n h \<longleftrightarrow> crc_poly p n \<and> c_order h = n \<and> ucast (c_polynom h) = p \<and> c_crcmask h = mask n \<and>
     c_table h = map (table_entry p n) [0..<256]"

lemma gen_crc_table_funpow:
  "gen_crc_table h =
     (let pad = pad_of (c_order h);
          step = table_step (ucast (push_bit pad (c_polynom h)))
                   (ucast (push_bit pad (ucast (c_crchighbit h)) :: u32))
      in h\<lparr>c_table := map (\<lambda>i. drop_bit pad ((step ^^ 8)
             (push_bit (c_order h + pad - 8) (word_of_nat i))) AND c_crcmask h) [0..<256]\<rparr>)"
  unfolding gen_crc_table_def Let_def pad_of_def table_step_def [abs_def]
  by (simp only: foldl_const)

lemma crcmask: "0 < n \<Longrightarrow> push_bit 1 (push_bit (n - 1) 1 - 1) OR 1 = (mask n :: u64)"
proof -
  assume n: "0 < n"
  have "push_bit (n - 1) 1 - 1 = (mask (n - 1) :: u64)"
    by (simp add: mask_eq_exp_minus_1)
  moreover have "push_bit 1 (mask (n - 1)) OR 1 = (mask n :: u64)"
    by (rule bit_word_eqI) (use n in \<open>auto simp: bit_or_iff bit_times_2 bit_mask_iff bit_1_iff\<close>)
  ultimately show ?thesis by metis
qed

lemma crc_init_ok:
  assumes "crc_poly (ucast p) n"
  shows "\<exists>h. srsran_crc_init p n = (0, h) \<and> crc_ok (ucast p) n h"
proof -
  define pad where "pad = pad_of n"
  let ?m = "n + pad"
  have n: "0 < n" "n \<le> 24" "8 \<le> ?m" "?m \<le> 24"
    using assms by (auto simp: crc_poly_def pad_def pad_of_def)
  have hb: "ucast (push_bit pad (ucast (push_bit (n - 1) 1 :: u64)) :: u32) = (push_bit (?m - 1) 1 :: u64)"
    by (rule bit_word_eqI) (use n in \<open>auto simp: bit_ucast_iff bit_push_bit_iff bit_exp_iff\<close>)
  have bits: "\<not> bit p j" if "n < j" for j
    using assms that bit_imp_le_length [of p j] by (auto simp: crc_poly_def bit_ucast_iff)
  have pb: "ucast (push_bit pad p) = (push_bit pad (ucast p) :: u64)"
  proof (rule bit_word_eqI)
    fix k
    assume "k < LENGTH(64)"
    have "k < 32" if "pad \<le> k" "bit p (k - pad)" using bits [of "k - pad"] that n by linarith
    then show "bit (ucast (push_bit pad p) :: u64) k \<longleftrightarrow> bit (push_bit pad (ucast p) :: u64) k"
      using \<open>k < LENGTH(64)\<close> by (auto simp: bit_ucast_iff bit_push_bit_iff)
  qed
  define h where "h = \<lparr>c_table = [], c_polynom = p, c_order = n, c_crcinit = 0,
               c_crcmask = push_bit 1 (push_bit (n - 1) 1 - 1) OR 1,
               c_crchighbit = push_bit (n - 1) 1\<rparr>"
  have mask: "c_crcmask h = mask n" unfolding h_def using crcmask [OF n(1)] by (simp only: srsran_crc.simps)
  have entry: "drop_bit pad ((table_step (push_bit pad (ucast p)) (push_bit (?m - 1) 1) ^^ 8)
      (push_bit (?m - 8) (word_of_nat i))) AND mask n = table_entry (ucast p) n i" if "i < 256" for i
  proof -
    let ?x = "(table_step (push_bit pad (ucast p)) (push_bit (?m - 1) 1) ^^ 8) (push_bit (?m - 8) (word_of_nat i))"
    have "drop_bit pad ?x AND mask n = drop_bit pad (take_bit ?m ?x)"
      by (rule bit_word_eqI) (auto simp: bit_and_iff bit_mask_iff bit_drop_bit_eq bit_take_bit_iff)
    also have "take_bit ?m ?x = (lfsr (push_bit pad (ucast p)) ?m ^^ 8)
        (take_bit ?m (push_bit (?m - 8) (word_of_nat i)))"
      using n by (intro table_steps_lfsr) auto
    also have "take_bit ?m (push_bit (?m - 8) (word_of_nat i)) = (push_bit (?m - 8) (word_of_nat i) :: u64)"
    proof (rule bit_word_eqI)
      fix k
      assume "k < LENGTH(64)"
      then show "bit (take_bit ?m (push_bit (?m - 8) (word_of_nat i)) :: u64) k \<longleftrightarrow>
          bit (push_bit (?m - 8) (word_of_nat i) :: u64) k"
        using n(3) bit_small_nat [of i "k - (?m - 8)" 8, where 'a = 64] that
        by (auto simp: bit_take_bit_iff bit_push_bit_iff)
    qed
    finally show ?thesis by (simp add: table_entry_def pad_def)
  qed
  have h: "c_polynom h = p" "c_order h = n" "c_crchighbit h = push_bit (n - 1) 1" "c_crcinit h = 0"
    by (simp_all only: h_def srsran_crc.simps)
  have "gen_crc_table h = h\<lparr>c_table := map (table_entry (ucast p) n) [0..<256]\<rparr>"
    unfolding gen_crc_table_funpow Let_def h pad_def [symmetric] mask pb hb
    using entry by (metis (mono_tags, lifting) map_eq_conv atLeastLessThan_iff set_upt)
  then have "crc_ok (ucast p) n (gen_crc_table h)"
    using assms mask h by (simp add: crc_ok_def)
  moreover have "srsran_crc_init p n = (0, gen_crc_table h)"
    unfolding srsran_crc_init_def Let_def h_def [symmetric] srsran_crc_set_init_def h
    using h(4) by (cases h) simp
  ultimately show ?thesis by blast
qed

section \<open>One byte\<close>

lemma crc_step_pad:
  assumes "0 < n" "n + pad < 64"
  shows "crc_step (push_bit pad p) (n + pad) (push_bit pad r) b = push_bit pad (crc_step p n r b)"
proof -
  have "push_bit pad r XOR push_bit (n + pad - 1) (of_bool b) = (push_bit pad (r XOR push_bit (n - 1) (of_bool b)))"
    using assms by (simp add: push_bit_xor push_bit_push_bit add.commute)
  then show ?thesis using assms by (simp only: crc_step_lfsr lfsr_pad)
qed

lemma foldl_crc_step_pad:
  assumes "0 < n" "n + pad < 64"
  shows "foldl (crc_step (push_bit pad p) (n + pad)) (push_bit pad r) bs =
           push_bit pad (foldl (crc_step p n) r bs)"
  by (induction bs arbitrary: r) (simp_all add: crc_step_pad [OF assms])

lemma bit_foldl_crc_step:
  assumes "n < 64" and "take_bit n r = r"
  shows "bit (foldl (crc_step p n) r bs) k \<Longrightarrow> k < n"
proof (induction bs rule: rev_induct)
  case Nil
  then have "bit (take_bit n r) k" using assms(2) by simp
  then show ?case by (simp add: bit_take_bit_iff)
next
  case (snoc b bs)
  then show ?case by (auto simp: crc_step_def bit_xor_iff bit_take_bit_iff split: if_splits)
qed

lemma bit_funpow_lfsr: "n < 64 \<Longrightarrow> 0 < j \<Longrightarrow> bit ((lfsr p n ^^ j) r) k \<Longrightarrow> k < n"
  by (cases j) (auto simp: bit_lfsr)

lemma feed_byte:
  assumes "8 \<le> m" "m < 64" and "take_bit m r = r"
  shows "foldl (crc_step p m) r (bits_of 8 (B :: byte)) =
           (lfsr p m ^^ 8) (push_bit (m - 8) (drop_bit (m - 8) r XOR ucast B)) XOR push_bit 8 (take_bit (m - 8) r)"
proof -
  have num: "(num_of (bits_of 8 B) :: u64) = ucast B"
  proof (rule bit_word_eqI)
    fix k
    show "bit (num_of (bits_of 8 B) :: u64) k \<longleftrightarrow> bit (ucast B :: u64) k" if "k < LENGTH(64)"
      using that bit_imp_le_length [of B k]
      by (cases "k < 8") (auto simp: bit_num_of bits_of_def bit_ucast_iff)
  qed
  have split: "r XOR push_bit (m - 8) (ucast B) =
      push_bit (m - 8) (drop_bit (m - 8) r XOR ucast B) XOR take_bit (m - 8) r"
    by (rule bit_word_eqI) (auto simp: bit_xor_iff bit_push_bit_iff bit_drop_bit_eq bit_take_bit_iff)
  have "(lfsr p m ^^ 8) (take_bit (m - 8) r) = push_bit 8 (take_bit (m - 8) r)"
    using assms by (intro funpow_lfsr_shift) (auto simp: bit_take_bit_iff)
  then show ?thesis
    using feed_bits [of m "bits_of 8 B" p r] assms
    by (simp only: length_bits_of num split funpow_lfsr_xor)
qed

lemma put_byte_ok:
  assumes ok: "crc_ok p n h"
  shows "\<exists>h'. srsran_crc_checksum_put_byte h B = Some h' \<and> crc_ok p n h' \<and>
           take_bit n (c_crcinit h') = foldl (crc_step p n) (take_bit n (c_crcinit h)) (bits_of 8 B)"
proof -
  define pad where "pad = pad_of n"
  define crc where "crc = c_crcinit h"
  let ?m = "n + pad"
  let ?R = "push_bit pad (take_bit n crc)"
  have n: "0 < n" "n \<le> 24" "8 \<le> ?m" "?m \<le> 24" and ord: "c_order h = n"
    using ok by (auto simp: crc_ok_def crc_poly_def pad_def pad_of_def)
  define idx where "idx = drop_bit (?m - 8) ?R XOR ucast B"
  have idx: "(if 8 < c_order h then (drop_bit (c_order h - 8) crc AND 0xFF) XOR ucast B
              else (push_bit (8 - c_order h) crc AND 0xFF) XOR ucast B) = idx"
  proof -
    have ff: "(0xFF :: u64) = mask 8" by (simp add: mask_eq_exp_minus_1)
    have "drop_bit (n - 8) crc AND mask 8 = drop_bit (?m - 8) ?R" if "8 < n"
      using that by (intro bit_word_eqI)
        (auto simp: pad_def pad_of_def bit_and_iff bit_mask_iff bit_drop_bit_eq bit_take_bit_iff)
    moreover have "push_bit (8 - n) crc AND mask 8 = drop_bit (?m - 8) ?R" if "\<not> 8 < n"
      using that n by (intro bit_word_eqI)
        (auto simp: pad_def pad_of_def bit_and_iff bit_mask_iff bit_push_bit_iff bit_take_bit_iff)
    ultimately show ?thesis unfolding ord idx_def ff by presburger
  qed
  have bits_idx: "k < 8" if "bit idx k" for k
    using that n by (auto simp: idx_def bit_xor_iff bit_drop_bit_eq bit_push_bit_iff bit_take_bit_iff bit_ucast_iff
        dest: bit_imp_le_length)
  have "idx = take_bit 8 idx"
    by (rule bit_word_eqI) (auto simp: bit_take_bit_iff dest: bits_idx)
  then have "unat idx = take_bit 8 (unat idx)" by (metis unsigned_take_bit_eq)
  then have small: "unat idx < 256" using take_bit_nat_less_exp [of 8 "unat idx"] by simp
  have t: "arr_at (c_table h) (unat idx) = Some (table_entry p n (unat idx))"
    using ok small by (simp add: crc_ok_def arr_at_def)
  have entry: "table_entry p n (unat idx) =
      drop_bit pad ((lfsr (push_bit pad p) ?m ^^ 8) (push_bit (?m - 8) idx))"
    by (simp add: table_entry_def pad_def)
  have R: "take_bit ?m ?R = ?R"
    by (rule bit_word_eqI) (auto simp: bit_take_bit_iff bit_push_bit_iff)
  have "push_bit pad (foldl (crc_step p n) (take_bit n crc) (bits_of 8 B)) =
      (lfsr (push_bit pad p) ?m ^^ 8) (push_bit (?m - 8) idx) XOR push_bit 8 (take_bit (?m - 8) ?R)"
    using feed_byte [of ?m ?R "push_bit pad p" B] foldl_crc_step_pad [of n pad p "take_bit n crc" "bits_of 8 B"] n R
    by (simp add: idx_def)
  then have "drop_bit pad (push_bit pad (foldl (crc_step p n) (take_bit n crc) (bits_of 8 B))) =
      table_entry p n (unat idx) XOR drop_bit pad (push_bit 8 (take_bit (?m - 8) ?R))"
    by (simp add: entry)
  moreover have "take_bit n (push_bit 8 crc XOR table_entry p n (unat idx)) =
     table_entry p n (unat idx) XOR drop_bit pad (push_bit 8 (take_bit (?m - 8) ?R))"
  proof (rule bit_word_eqI)
    fix k
    assume "k < LENGTH(64)"
    have "bit (table_entry p n (unat idx)) k \<Longrightarrow> k < n"
      using bit_funpow_lfsr [of ?m 8 "push_bit pad p" "push_bit (?m - 8) idx" "pad + k"] n
      by (simp add: entry bit_drop_bit_eq)
    moreover have "bit (drop_bit pad (push_bit 8 (take_bit (?m - 8) ?R))) k \<longleftrightarrow> 8 \<le> k \<and> k < n \<and> bit crc (k - 8)"
      using n by (cases "n < 8")
        (auto simp: pad_def pad_of_def bit_drop_bit_eq bit_push_bit_iff bit_take_bit_iff)
    ultimately show "bit (take_bit n (push_bit 8 crc XOR table_entry p n (unat idx))) k \<longleftrightarrow>
        bit (table_entry p n (unat idx) XOR drop_bit pad (push_bit 8 (take_bit (?m - 8) ?R))) k"
      using \<open>k < LENGTH(64)\<close> by (auto simp: bit_take_bit_iff bit_xor_iff bit_push_bit_iff)
  qed
  moreover have "drop_bit pad (push_bit pad (foldl (crc_step p n) (take_bit n crc) (bits_of 8 B))) =
     foldl (crc_step p n) (take_bit n crc) (bits_of 8 B)" (is "_ = ?f")
  proof (rule bit_word_eqI)
    fix k
    assume "k < LENGTH(64)"
    then show "bit (drop_bit pad (push_bit pad ?f)) k \<longleftrightarrow> bit ?f k"
      using bit_foldl_crc_step [of n "take_bit n crc" p "bits_of 8 B" k] n
      by (auto simp: bit_drop_bit_eq bit_push_bit_iff)
  qed
  ultimately have "take_bit n (push_bit 8 crc XOR table_entry p n (unat idx)) =
      foldl (crc_step p n) (take_bit n crc) (bits_of 8 B)"
    by simp
  moreover have "srsran_crc_checksum_put_byte h B =
      Some (h\<lparr>c_crcinit := push_bit 8 crc XOR table_entry p n (unat idx)\<rparr>)"
    unfolding srsran_crc_checksum_put_byte_def Let_def crc_def [symmetric] idx by (simp add: t)
  ultimately show ?thesis
    using ok by (intro exI [of _ "h\<lparr>c_crcinit := push_bit 8 crc XOR table_entry p n (unat idx)\<rparr>"])
      (simp add: crc_ok_def crc_def)
qed

section \<open>The rewind\<close>

definition crc_unstep :: "u32 \<Rightarrow> u32 \<Rightarrow> u32" where
  "crc_unstep p crc = (if 1 AND crc = 1 then drop_bit 1 (crc XOR p) else drop_bit 1 crc)"

lemma one_and_odd: "(1 AND w = 1) \<longleftrightarrow> odd (w :: 'a::len word)"
  by (simp add: one_and_eq odd_iff_mod_2_eq_one)

lemma crc_unstep_lfsr:
  assumes p: "crc_poly (ucast p) n" and r: "take_bit n r = r"
  shows "crc_unstep p (ucast (lfsr (ucast p) n r)) = ucast r"
proof (rule bit_word_eqI)
  fix k
  assume "k < LENGTH(32)"
  have n: "0 < n" "n \<le> 24" using p by (simp_all add: crc_poly_def)
  have pb: "bit p 0" "bit p n"
    using p by (auto simp: crc_poly_def bit_0 [symmetric] bit_ucast_iff)
  have ph: "\<not> bit p k" if "n < k" for k
    using p that bit_imp_le_length [of p k] by (auto simp: crc_poly_def bit_ucast_iff)
  have rb: "\<not> bit r j" if "n \<le> j" for j
    using r that by (metis bit_take_bit_iff not_less)
  let ?t = "ucast (lfsr (ucast p) n r) :: u32"
  have t: "bit ?t k \<longleftrightarrow> k < n \<and> ((0 < k \<and> bit r (k - 1)) \<noteq> (bit r (n - 1) \<and> bit p k))" for k
    using n by (auto simp: bit_ucast_iff bit_lfsr dest: bit_imp_le_length)
  have lsb: "1 AND ?t = 1 \<longleftrightarrow> bit r (n - 1)"
    using t [of 0] n pb(1) by (simp add: one_and_odd bit_0)
  show "bit (crc_unstep p ?t) k \<longleftrightarrow> bit (ucast r :: u32) k"
    using n pb ph [of "Suc k"] rb [of k] t [of "Suc k"] \<open>k < LENGTH(32)\<close>
    by (cases "Suc k" n rule: linorder_cases)
      (auto simp: crc_unstep_def lsb bit_drop_bit_eq bit_xor_iff bit_ucast_iff)
qed

lemma crc_unsteps_lfsr:
  assumes p: "crc_poly (ucast p) n" and r: "take_bit n r = r"
  shows "(crc_unstep p ^^ k) (ucast ((lfsr (ucast p) n ^^ k) r)) = ucast r"
proof (induction k)
  case (Suc k)
  have n: "n < 64" using p by (simp add: crc_poly_def)
  have m: "take_bit n ((lfsr (ucast p) n ^^ k) r) = (lfsr (ucast p) n ^^ k) r"
  proof (cases k)
    case (Suc j)
    then show ?thesis
      using bit_funpow_lfsr [OF n, of k "ucast p" r] by (intro bit_word_eqI) (auto simp: bit_take_bit_iff)
  qed (simp add: r)
  have "(crc_unstep p ^^ Suc k) (ucast ((lfsr (ucast p) n ^^ Suc k) r)) =
      (crc_unstep p ^^ k) (crc_unstep p (ucast (lfsr (ucast p) n ((lfsr (ucast p) n ^^ k) r))))"
    by (subst funpow_Suc_right) (simp only: o_apply funpow.simps(2))
  also have "\<dots> = (crc_unstep p ^^ k) (ucast ((lfsr (ucast p) n ^^ k) r))"
    by (simp only: crc_unstep_lfsr [OF p m])
  finally show ?case using Suc by simp
qed simp

lemma reversecrcbit_lfsr:
  assumes "crc_ok p n h" and r: "take_bit n r = r"
  shows "reversecrcbit (ucast ((lfsr p n ^^ k) r)) k h = r"
proof -
  have ok: "crc_poly (ucast (c_polynom h)) n" "p = ucast (c_polynom h)" "c_crcmask h = mask n" "n \<le> 24"
    using assms(1) by (auto simp: crc_ok_def crc_poly_def)
  have "reversecrcbit (ucast ((lfsr p n ^^ k) r)) k h =
      ucast ((crc_unstep (c_polynom h) ^^ k) (ucast ((lfsr p n ^^ k) r))) AND mask n"
    unfolding reversecrcbit_def Let_def ok(3) crc_unstep_def [abs_def] by (simp only: foldl_const)
  also have "\<dots> = ucast (ucast r :: u32) AND mask n"
    by (simp only: crc_unsteps_lfsr [OF ok(1) r] ok(2))
  also have "\<dots> = take_bit n r"
    by (rule bit_word_eqI) (use ok(4) in \<open>auto simp: bit_ucast_iff bit_take_bit_iff bit_and_iff bit_mask_iff\<close>)
  finally show ?thesis using r by simp
qed

section \<open>The checksum is the shift register\<close>

lemma crc_ok_put_bytes:
  assumes "crc_ok p n h" and "\<And>i. i < m \<Longrightarrow> body i = Some (B i)"
  shows "\<exists>h'. for_loop (\<lambda>i h. body i \<bind> srsran_crc_checksum_put_byte h) [0..<m] h = Some h' \<and>
           crc_ok p n h' \<and>
           take_bit n (c_crcinit h') =
             foldl (crc_step p n) (take_bit n (c_crcinit h)) (concat (map (\<lambda>i. bits_of 8 (B i)) [0..<m]))"
  using assms
proof (induction m)
  case 0
  then show ?case by simp
next
  case (Suc m)
  then obtain h1 where h1: "for_loop (\<lambda>i h. body i \<bind> srsran_crc_checksum_put_byte h) [0..<m] h = Some h1"
    "crc_ok p n h1" "take_bit n (c_crcinit h1) =
       foldl (crc_step p n) (take_bit n (c_crcinit h)) (concat (map (\<lambda>i. bits_of 8 (B i)) [0..<m]))"
    by fastforce
  obtain h2 where "srsran_crc_checksum_put_byte h1 (B m) = Some h2" "crc_ok p n h2"
    "take_bit n (c_crcinit h2) = foldl (crc_step p n) (take_bit n (c_crcinit h1)) (bits_of 8 (B m))"
    using put_byte_ok [OF h1(2), of "B m"] by blast
  with h1 Suc.prems(2) [of m] show ?case by (simp add: for_loop_append)
qed

lemma full_byte:
  assumes "8 * i + 8 \<le> length data" and "is_bits (take 8 (drop (8 * i) data))"
  shows "(srsran_bit_pack data (8 * i) 8 \<bind> (\<lambda>(v, _). Some (ucast (v AND 0xFF)))) =
           Some (num_of (map byte_bit (take 8 (drop (8 * i) data))) :: byte)"
proof -
  let ?bs = "map byte_bit (take 8 (drop (8 * i) data))"
  have ff: "(0xFF :: u32) = mask 8" by (simp add: mask_eq_exp_minus_1)
  have "ucast (num_of ?bs AND 0xFF :: u32) = (num_of ?bs :: byte)"
    unfolding ff by (rule bit_word_eqI) (use assms(1) in \<open>auto simp: bit_ucast_iff bit_and_iff bit_mask_iff bit_num_of\<close>)
  then show ?thesis using assms by (simp add: srsran_bit_pack)
qed

lemma num_of_add_bit:
  assumes "k < length bs" "length bs < 8"
  shows "num_of (take k bs @ replicate (8 - k) False) OR push_bit (7 - k) (of_bool (bs ! k)) =
           (num_of (take (Suc k) bs @ replicate (8 - Suc k) False) :: byte)"
proof (rule bit_word_eqI)
  fix j
  have st: "bit (num_of (take m bs @ replicate (8 - m) False) :: byte) j \<longleftrightarrow> j < 8 \<and> 7 - j < m \<and> bs ! (7 - j)"
    if "m \<le> length bs" for m
    using that assms(2) by (auto simp: bit_num_of nth_append)
  have "bit (push_bit (7 - k) (of_bool (bs ! k)) :: byte) j \<longleftrightarrow> j = 7 - k \<and> bs ! k"
    using assms by (auto simp: bit_push_bit_iff bit_of_bool_iff simp del: push_bit_of_1)
  then show "bit (num_of (take k bs @ replicate (8 - k) False) OR push_bit (7 - k) (of_bool (bs ! k)) :: byte) j \<longleftrightarrow>
      bit (num_of (take (Suc k) bs @ replicate (8 - Suc k) False) :: byte) j"
    if "j < LENGTH(8)"
    unfolding bit_or_iff using st [of k] st [of "Suc k"] assms that
    by (cases "j = 7 - k") (auto simp: less_Suc_eq)
qed

lemma partial_byte:
  assumes "pos + res \<le> length data" and "is_bits (take res (drop pos data))" and "res < 8"
  shows "for_loop (\<lambda>k byte. arr_at data (pos + k) \<bind> (\<lambda>x. Some (byte OR push_bit (7 - k) x))) [0..<res] 0 =
           Some (num_of (map byte_bit (take res (drop pos data)) @ replicate (8 - res) False) :: byte)"
proof -
  define bs where "bs = map byte_bit (take res (drop pos data))"
  let ?f = "\<lambda>k byte. arr_at data (pos + k) \<bind> (\<lambda>x. Some (byte OR push_bit (7 - k) x))"
  let ?st = "\<lambda>k. num_of (take k bs @ replicate (8 - k) False) :: byte"
  have len: "length bs = res" using assms(1) by (simp add: bs_def)
  have "for_loop ?f [0..<res] (?st 0) = Some (?st res)"
  proof (rule for_loop_states)
    fix k
    assume k: "k < res"
    have "data ! (pos + k) = take res (drop pos data) ! k" using k assms(1) by simp
    moreover have "take res (drop pos data) ! k \<in> {0, 1}"
      using k assms(1,2) nth_mem [of k "take res (drop pos data)"] by auto
    ultimately have b: "data ! (pos + k) = of_bool (bs ! k)"
      using k assms(1) by (auto simp: byte_bit_def bs_def)
    have "arr_at data (pos + k) = Some (of_bool (bs ! k))"
      using k assms(1) b by (simp add: arr_at_def)
    then show "?f k (?st k) = Some (?st (Suc k))"
      using num_of_add_bit [of k bs] k len assms(3) by (simp only: Option.bind.bind_lunit)
  qed simp
  moreover have "num_of (replicate 8 False) = (0 :: byte)"
    by (rule bit_word_eqI) (auto simp: bit_num_of)
  ultimately show ?thesis using len by (simp add: bs_def)
qed

lemma concat_bytes:
  "8 * m \<le> length xs \<Longrightarrow> concat (map (\<lambda>i. take 8 (drop (8 * i) xs)) [0..<m]) = take (8 * m) xs"
proof (induction m)
  case (Suc m)
  have "take (8 * Suc m) xs = take (8 * m) xs @ take 8 (drop (8 * m) xs)"
    using take_add [of "8 * m" 8 xs] by (simp add: add.commute)
  then show ?case using Suc by simp
qed simp

lemma crc_step_zero: "0 < n \<Longrightarrow> n < 64 \<Longrightarrow> foldl (crc_step p n) r (replicate z False) = (lfsr p n ^^ z) r"
  by (induction z arbitrary: r) (simp_all add: crc_step_lfsr funpow_swap1)

lemma crc_ref_masked: "n < 64 \<Longrightarrow> take_bit n (crc_ref p n bs) = crc_ref p n bs"
proof (rule bit_word_eqI)
  fix k
  assume "n < 64"
  then show "bit (take_bit n (crc_ref p n bs)) k \<longleftrightarrow> bit (crc_ref p n bs) k"
    using bit_foldl_crc_step [of n 0 p bs k] by (auto simp: bit_take_bit_iff crc_ref_def)
qed

lemma srsran_crc_checksum:
  assumes ok: "crc_ok p n h" and len: "len \<le> length data" and bits: "is_bits (take len data)"
  shows "\<exists>h'. srsran_crc_checksum h data len =
             Some (ucast (crc_ref p n (map byte_bit (take len data))), h') \<and> crc_ok p n h'"
proof -
  define len8 where "len8 = len div 8"
  define res where "res = len - len8 * 8"
  define a where "a = (if 0 < res then 1 else 0 :: nat)"
  define bs where "bs = map byte_bit (take len data)"
  have n: "0 < n" "n \<le> 24" using ok by (auto simp: crc_ok_def crc_poly_def)
  have res: "len = 8 * len8 + res" "res < 8" by (simp_all add: res_def len8_def)
  let ?partial = "\<lambda>i. for_loop (\<lambda>k byte. arr_at data (8 * i + k) \<bind> (\<lambda>x. Some (byte OR push_bit (7 - k) x))) [0..<res] 0"
  let ?full = "\<lambda>i. srsran_bit_pack data (8 * i) 8 \<bind> (\<lambda>(v, _). Some (ucast (v AND 0xFF)))"
  define body where "body = (\<lambda>i. if i = len8 then ?partial i else ?full i)"
  define B where "B = (\<lambda>i. num_of (if i = len8
      then map byte_bit (take res (drop (8 * i) data)) @ replicate (8 - res) False
      else map byte_bit (take 8 (drop (8 * i) data))) :: byte)"
  have sub: "is_bits (take m (drop k data))" if "k + m \<le> len" for m k
  proof -
    have "take m (drop k data) = drop k (take (k + m) data)" by (simp add: drop_take)
    moreover have "set (take (k + m) data) \<subseteq> set (take len data)" using that by (rule set_take_subset_set_take)
    ultimately show ?thesis using bits by (metis order_trans set_drop_subset)
  qed
  have body: "body i = Some (B i)" if "i < len8 + a" for i
  proof (cases "i = len8")
    case True
    then show ?thesis
      using partial_byte [of "8 * i" res data] res len sub [of "8 * i" res] by (simp add: body_def B_def)
  next
    case False
    then have "i < len8" using that by (simp add: a_def split: if_splits)
    then have "8 * i + 8 \<le> len" using res by simp
    with False show ?thesis
      using full_byte [of i data] len sub [of "8 * i" 8] by (simp add: body_def B_def)
  qed
  define h0 where "h0 = h\<lparr>c_crcinit := 0\<rparr>"
  have h0: "crc_ok p n h0" "c_crcinit h0 = 0" using ok by (simp_all add: h0_def crc_ok_def)
  obtain h' where h': "for_loop (\<lambda>i h. body i \<bind> srsran_crc_checksum_put_byte h) [0..<len8 + a] h0 = Some h'"
    "crc_ok p n h'"
    "take_bit n (c_crcinit h') = foldl (crc_step p n) 0 (concat (map (\<lambda>i. bits_of 8 (B i)) [0..<len8 + a]))"
    using crc_ok_put_bytes [OF h0(1), of "len8 + a" body B] body h0(2) by auto
  have full: "concat (map (\<lambda>i. bits_of 8 (B i)) [0..<len8]) = take (8 * len8) bs"
  proof -
    have "bits_of 8 (B i) = take 8 (drop (8 * i) bs)" if "i < len8" for i
    proof -
      have "8 * i + 8 \<le> len" using that res by simp
      then have "length (map byte_bit (take 8 (drop (8 * i) data))) = 8"
        "take 8 (drop (8 * i) bs) = map byte_bit (take 8 (drop (8 * i) data))"
        using len by (auto simp: bs_def take_map drop_map drop_take min_def)
      then show ?thesis
        using that bits_of_num_of [of "map byte_bit (take 8 (drop (8 * i) data))", where 'a = 8]
        by (simp add: B_def)
    qed
    then have "map (\<lambda>i. bits_of 8 (B i)) [0..<len8] = map (\<lambda>i. take 8 (drop (8 * i) bs)) [0..<len8]"
      by simp
    moreover have "8 * len8 \<le> length bs" using res len by (simp add: bs_def)
    ultimately show ?thesis using concat_bytes [of len8 bs] by metis
  qed
  have last: "bits_of 8 (B len8) = drop (8 * len8) bs @ replicate (8 - res) False"
  proof -
    have "drop (8 * len8) bs = map byte_bit (take res (drop (8 * len8) data))"
      using res by (simp add: bs_def drop_map drop_take)
    then show ?thesis
      using bits_of_num_of [of "drop (8 * len8) bs @ replicate (8 - res) False", where 'a = 8] res len
      by (simp add: B_def bs_def)
  qed
  have sum: "take_bit n (c_crcinit h') = (if a = 1 then (lfsr p n ^^ (8 - res)) (crc_ref p n bs) else crc_ref p n bs)"
  proof (cases "a = 1")
    case True
    then have "concat (map (\<lambda>i. bits_of 8 (B i)) [0..<len8 + a]) = bs @ replicate (8 - res) False"
      using full last append_take_drop_id [of "8 * len8" bs] by (simp only: upt_Suc_append One_nat_def add_Suc_right) simp
    with h'(3) have "take_bit n (c_crcinit h') = foldl (crc_step p n) 0 (bs @ replicate (8 - res) False)"
      by (simp only:)
    also have "\<dots> = (lfsr p n ^^ (8 - res)) (crc_ref p n bs)"
      using n by (simp only: foldl_append crc_ref_def) (simp add: crc_step_zero)
    finally show ?thesis using True by simp
  next
    case False
    then have "a = 0" "res = 0" by (auto simp: a_def split: if_splits)
    then have "take (8 * len8) bs = bs" using res len by (simp add: bs_def)
    with \<open>a = 0\<close> h'(3) full show ?thesis by (simp add: crc_ref_def)
  qed
  have get: "srsran_crc_checksum_get h' = take_bit n (c_crcinit h')"
    using h'(2) by (simp add: srsran_crc_checksum_get_def crc_ok_def take_bit_eq_mask)
  have rev: "reversecrcbit (ucast (take_bit n (c_crcinit h'))) (8 - res) h' = crc_ref p n bs" if "a = 1"
    using reversecrcbit_lfsr [OF h'(2) crc_ref_masked [of n p bs], of "8 - res"] n that by (simp add: sum)
  have loop: "for_loop (\<lambda>i h. (if i = len8 then ?partial i else ?full i) \<bind> srsran_crc_checksum_put_byte h)
      [0..<len8 + a] h0 = Some h'"
    using h'(1) by (simp only: body_def)
  have "srsran_crc_checksum h data len = Some (ucast (crc_ref p n bs), h')"
    unfolding srsran_crc_checksum_def srsran_crc_set_init_def Let_def if_distrib [of snd] prod.case
      len8_def [symmetric] res_def [symmetric] a_def [symmetric] h0_def [symmetric]
    using loop rev by (simp add: get sum split: if_splits)
  then show ?thesis using h'(2) by (auto simp: bs_def)
qed

section \<open>The checksum of the code\<close>

text \<open>C8: For every polynomial of order up to 24 the table driven \<^verbatim>\<open>srsran_crc_checksum\<close> of an object made by
  \<^verbatim>\<open>srsran_crc_init\<close> is the value of the bit-serial shift register of the standard after the data bits, for
  every length, also one that is no multiple of 8.\<close>

theorem srsran_crc_checksum_is_lfsr:
  assumes "crc_poly (ucast poly) order" and "len \<le> length data" and "is_bits (take len data)"
  shows "\<exists>h h'. srsran_crc_init poly order = (0, h) \<and>
           srsran_crc_checksum h data len =
             Some (ucast (crc_ref (ucast poly) order (map byte_bit (take len data))), h')"
proof -
  obtain h where h: "srsran_crc_init poly order = (0, h)" "crc_ok (ucast poly) order h"
    using crc_init_ok [OF assms(1)] by blast
  with srsran_crc_checksum [OF h(2) assms(2,3)] show ?thesis by blast
qed

lemma crc_poly_crc24a: "crc_poly (ucast (0x1864CFB :: u32)) 24"
proof -
  have "take_bit 25 (0x1864CFB :: u64) = 0x1864CFB" by (simp add: take_bit_numeral_numeral)
  then have "\<not> bit (0x1864CFB :: u64) k" if "24 < k" for k
    using that by (metis bit_take_bit_iff less_Suc_eq_le not_less numeral_nat(3) eval_nat_numeral(2,3))
  then show ?thesis by (simp add: crc_poly_def)
qed

lemma srsran_crc_checksum_is_lfsr_witness:
  "\<exists>h h'. srsran_crc_init 0x1864CFB 24 = (0, h) \<and>
     srsran_crc_checksum h [1, 0, 1] 3 = Some (ucast (crc_ref 0x1864CFB 24 [True, False, True]), h')"
  using srsran_crc_checksum_is_lfsr [OF crc_poly_crc24a, of 3 "[1, 0, 1]"] by (simp add: byte_bit_def)

section \<open>Attached checksums\<close>

lemma lfsr_zeros [simp]: "(lfsr p n ^^ k) 0 = 0"
  by (induction k) simp_all

lemma crc_ref_self: "0 < n \<Longrightarrow> n < 64 \<Longrightarrow> crc_ref p n (bs @ bits_of n (crc_ref p n bs)) = 0"
  using feed_bits [of n "bits_of n (crc_ref p n bs)" p "crc_ref p n bs"] crc_ref_masked [of n p bs]
  by (simp add: crc_ref_def num_of_bits_of)

lemma foldl_crc_step_xor:
  assumes "n < 64"
  shows "length xs = length ys \<Longrightarrow> foldl (crc_step p n) (a XOR b) (map2 (\<noteq>) xs ys) =
           foldl (crc_step p n) a xs XOR foldl (crc_step p n) b ys"
proof (induction xs ys arbitrary: a b rule: list_induct2)
  case (Cons x xs y ys)
  have "crc_step p n (a XOR b) (x \<noteq> y) = crc_step p n a x XOR crc_step p n b y"
    by (rule bit_word_eqI)
      (auto simp: crc_step_def bit_xor_iff bit_take_bit_iff bit_times_2)
  then show ?case using Cons.IH by simp
qed simp

lemma lfsr_kernel:
  assumes "0 < n" "n < 64" "odd p" "take_bit n r = r" "lfsr p n r = 0"
  shows "r = 0"
proof (rule bit_word_eqI)
  fix k
  have top: "\<not> bit r (n - 1)"
    using bit_lfsr [of n p r 0] assms by (simp add: bit_0)
  have hi: "\<not> bit r j" if "n \<le> j" for j
    using assms(4) that by (metis bit_take_bit_iff not_less)
  show "bit r k \<longleftrightarrow> bit 0 k"
  proof (cases "Suc k < n")
    case True
    then show ?thesis using bit_lfsr [of n p r "Suc k"] assms top by simp
  next
    case False
    then show ?thesis using top hi [of k] by (cases "k = n - 1") auto
  qed
qed

lemma lfsr_masked: "n < 64 \<Longrightarrow> take_bit n ((lfsr p n ^^ k) r) = (lfsr p n ^^ k) r" if "take_bit n r = r"
  using that bit_funpow_lfsr [of n k _ r] by (cases k) (auto intro!: bit_word_eqI simp: bit_take_bit_iff bit_lfsr)

lemma funpow_lfsr_kernel:
  assumes "0 < n" "n < 64" "odd p" "take_bit n r = r"
  shows "(lfsr p n ^^ k) r = 0 \<Longrightarrow> r = 0"
proof (induction k)
  case (Suc k)
  then show ?case using lfsr_kernel [OF assms(1-3)] lfsr_masked [OF assms(4,2)] by simp
qed simp

lemma num_of_zero:
  assumes "length bs \<le> LENGTH('a)" and "num_of bs = (0 :: 'a::len word)"
  shows "\<not> (\<exists>b\<in>set bs. b)"
proof -
  have "bs = replicate (length bs) False"
    using bits_of_num_of [OF assms(1)] assms(2) by (simp add: bits_of_def map_replicate_const)
  then show ?thesis by (metis in_set_replicate)
qed

lemma push_num_of_zero:
  assumes "length e \<le> n" "n \<le> 64" and "push_bit (n - length e) (num_of e) = (0 :: u64)"
  shows "\<not> (\<exists>b\<in>set e. b)"
proof -
  have "num_of e = (0 :: u64)"
  proof (rule bit_word_eqI)
    fix k
    have "bit (push_bit (n - length e) (num_of e) :: u64) (n - length e + k) \<longleftrightarrow> bit (num_of e :: u64) k"
      if "k < length e"
      using that assms(1,2) by (auto simp: bit_push_bit_iff)
    then show "bit (num_of e :: u64) k \<longleftrightarrow> bit (0 :: u64) k"
      using assms(3) by (cases "k < length e") (auto simp: bit_num_of)
  qed
  then show ?thesis using num_of_zero [of e, where 'a = 64] assms by simp
qed

text \<open>A burst of errors not longer than the register is seen.\<close>

lemma crc_ref_burst:
  assumes n: "0 < n" "n < 64" and "odd p" and len: "length e \<le> n" and e: "\<exists>b\<in>set e. b"
  shows "crc_ref p n (replicate i False @ e @ replicate j False) \<noteq> 0"
proof
  assume z: "crc_ref p n (replicate i False @ e @ replicate j False) = 0"
  let ?x = "push_bit (n - length e) (num_of e) :: u64"
  have m: "take_bit n ?x = ?x"
    by (rule bit_word_eqI) (use len n in \<open>auto simp: bit_take_bit_iff bit_push_bit_iff bit_num_of\<close>)
  have "(lfsr p n ^^ j) ((lfsr p n ^^ length e) ?x) = 0"
    using z feed_bits [OF n len, of p 0] n by (simp add: crc_ref_def crc_step_zero)
  then have "?x = 0"
    using funpow_lfsr_kernel [OF n assms(3)] lfsr_masked [OF m n(2)] m by blast
  then show False using push_num_of_zero [OF len] n e by simp
qed

lemma bits_of_ucast: "n \<le> 32 \<Longrightarrow> bits_of n (ucast (c :: u64) :: u32) = bits_of n c"
  by (auto simp: bits_of_def bit_ucast_iff)

lemma ucast_zero_iff: "n \<le> 32 \<Longrightarrow> take_bit n c = c \<Longrightarrow> (ucast (c :: u64) :: u32) = 0 \<longleftrightarrow> c = 0"
proof
  assume a: "n \<le> 32" "take_bit n c = c" "(ucast c :: u32) = 0"
  show "c = 0"
  proof (rule bit_word_eqI)
    fix k
    have "bit c k \<Longrightarrow> k < 32" using a(1,2) by (metis bit_take_bit_iff less_le_trans)
    moreover have "bit (ucast c :: u32) k \<longleftrightarrow> bit (0 :: u32) k" using a(3) by simp
    ultimately show "bit c k \<longleftrightarrow> bit 0 k" by (auto simp: bit_ucast_iff)
  qed
qed simp

lemma srsran_crc_match:
  assumes "crc_ok p n h" and "len + n \<le> length data" and "is_bits (take (len + n) data)"
  shows "\<exists>h'. srsran_crc_match h data len =
           Some (crc_ref p n (map byte_bit (take (len + n) data)) = 0, h') \<and> crc_ok p n h'"
proof -
  have n: "n \<le> 24" "n < 64" "c_order h = n" using assms(1) by (auto simp: crc_ok_def crc_poly_def)
  obtain h' where "srsran_crc_checksum h data (len + n) =
      Some (ucast (crc_ref p n (map byte_bit (take (len + n) data))), h')" "crc_ok p n h'"
    using srsran_crc_checksum [OF assms] by blast
  then show ?thesis
    using n crc_ref_masked [OF n(2)] by (simp add: srsran_crc_match_def ucast_zero_iff [of n])
qed

lemma srsran_crc_attach:
  assumes ok: "crc_ok p n h" and len: "len + n \<le> length data" and bits: "is_bits (take len data)"
  shows "\<exists>h'. srsran_crc_attach h data len =
           Some (ucast (crc_ref p n (map byte_bit (take len data))),
             take len data @ map bit_byte (bits_of n (crc_ref p n (map byte_bit (take len data)))) @
               drop (len + n) data, h') \<and> crc_ok p n h'"
proof -
  have n: "n \<le> 32" using ok by (auto simp: crc_ok_def crc_poly_def)
  obtain h' where h': "srsran_crc_checksum h data len =
      Some (ucast (crc_ref p n (map byte_bit (take len data))), h')" "crc_ok p n h'"
    using srsran_crc_checksum [OF ok _ bits] len by auto
  moreover have "c_order h' = n" using h'(2) by (simp add: crc_ok_def)
  ultimately show ?thesis
    using srsran_bit_unpack [OF n len] n by (simp add: srsran_crc_attach_def bits_of_ucast)
qed

text \<open>C37: After \<^verbatim>\<open>srsran_crc_attach\<close> the check passes, the data is as before and nothing behind the checksum is
  written.\<close>

theorem srsran_crc_attach_match:
  assumes "crc_poly (ucast poly) order" and "len + order \<le> length data" and "is_bits (take len data)"
    and "srsran_crc_init poly order = (0, h)"
  shows "\<exists>checksum data' h' h''. srsran_crc_attach h data len = Some (checksum, data', h') \<and>
           length data' = length data \<and> take len data' = take len data \<and>
           drop (len + order) data' = drop (len + order) data \<and>
           srsran_crc_match h' data' len = Some (True, h'')"
proof -
  let ?bs = "map byte_bit (take len data)"
  let ?crc = "crc_ref (ucast poly) order ?bs"
  let ?d = "take len data @ map bit_byte (bits_of order ?crc) @ drop (len + order) data"
  have ok: "crc_ok (ucast poly) order h" using crc_init_ok [OF assms(1)] assms(4) by auto
  have n: "0 < order" "order < 64" using assms(1) by (auto simp: crc_poly_def)
  obtain h' where h': "srsran_crc_attach h data len = Some (ucast ?crc, ?d, h')" "crc_ok (ucast poly) order h'"
    using srsran_crc_attach [OF ok assms(2,3)] by blast
  have t: "take (len + order) ?d = take len data @ map bit_byte (bits_of order ?crc)"
    using assms(2) by simp
  then have "map byte_bit (take (len + order) ?d) = ?bs @ bits_of order ?crc" by (simp add: comp_def)
  moreover have "is_bits (take (len + order) ?d)"
    unfolding t using assms(3) is_bits_map_bit_byte [of "bits_of order ?crc"] by simp
  ultimately obtain h'' where "srsran_crc_match h' ?d len = Some (True, h'')"
    using srsran_crc_match [OF h'(2), of len ?d] crc_ref_self [OF n] assms(2) by auto
  then show ?thesis using h'(1) assms(2) by (intro exI conjI) auto
qed

lemma srsran_crc_attach_match_witness:
  "\<exists>h checksum data' h' h''. srsran_crc_init 0x1864CFB 24 = (0, h) \<and>
     srsran_crc_attach h (replicate 30 1) 5 = Some (checksum, data', h') \<and>
     srsran_crc_match h' data' 5 = Some (True, h'')"
proof -
  obtain h where "srsran_crc_init 0x1864CFB 24 = (0, h)" using crc_init_ok [OF crc_poly_crc24a] by blast
  then show ?thesis
    using srsran_crc_attach_match [OF crc_poly_crc24a, of 5 "replicate 30 1" h] by force
qed

lemma map2_neq_same: "map2 (\<lambda>x y. x = (\<not> y)) xs xs = replicate (length xs) False"
  by (induction xs) simp_all

lemma map2_neq_none: "length xs = length ys \<Longrightarrow> \<not> (\<exists>b\<in>set (map2 (\<noteq>) xs ys). b) \<Longrightarrow> xs = ys"
  by (induction xs ys rule: list_induct2) auto

lemma is_bits_nth_eq: "is_bits xs \<Longrightarrow> is_bits ys \<Longrightarrow> map byte_bit xs = map byte_bit ys \<Longrightarrow> xs = ys"
  by (metis (no_types, lifting) bit_byte_byte_bit map_idI map_map comp_apply subsetD list.map_cong0)

text \<open>C16: A word that passes the check does not pass it any more when a burst of bits not longer than the order
  of the polynomial is changed, wherever it is.\<close>

theorem srsran_crc_match_burst:
  assumes "crc_poly (ucast poly) order" and "srsran_crc_init poly order = (0, h)"
    and "length (xs @ e @ ys) = len + order" and "is_bits (xs @ e @ ys)" and "is_bits e'"
    and "length e' = length e" and "length e \<le> order" and "e' \<noteq> e"
    and "srsran_crc_match h (xs @ e @ ys) len = Some (True, h')"
  shows "\<exists>h''. srsran_crc_match h' (xs @ e' @ ys) len = Some (False, h'')"
proof -
  let ?p = "ucast poly" and ?b = "map byte_bit"
  have ok: "crc_ok ?p order h" using crc_init_ok [OF assms(1)] assms(2) by auto
  have n: "0 < order" "order < 64" "odd (?p :: u64)" using assms(1) by (auto simp: crc_poly_def)
  obtain h1 where "srsran_crc_match h (xs @ e @ ys) len = Some (crc_ref ?p order (?b (xs @ e @ ys)) = 0, h1)"
    "crc_ok ?p order h1"
    using srsran_crc_match [OF ok, of len "xs @ e @ ys"] assms(3,4) by (auto simp del: map_append)
  then have ok': "crc_ok ?p order h'" and z: "crc_ref ?p order (?b (xs @ e @ ys)) = 0" using assms(9) by auto
  let ?e = "map2 (\<noteq>) (?b e) (?b e')"
  have ne: "\<exists>b\<in>set ?e. b"
  proof (rule ccontr)
    assume "\<not> ?thesis"
    then have "?b e = ?b e'"
      using map2_neq_none [of "?b e" "?b e'"] assms(6) by simp
    then show False using is_bits_nth_eq [of e e'] assms(4,5,8) by simp
  qed
  have m: "map2 (\<noteq>) (?b (xs @ e @ ys)) (?b (xs @ e' @ ys)) =
      replicate (length xs) False @ ?e @ replicate (length ys) False"
    using assms(6) by (simp add: map2_neq_same)
  have "crc_ref ?p order (?b (xs @ e @ ys)) XOR crc_ref ?p order (?b (xs @ e' @ ys)) =
      crc_ref ?p order (replicate (length xs) False @ ?e @ replicate (length ys) False)"
    using foldl_crc_step_xor [OF n(2), of "?b (xs @ e @ ys)" "?b (xs @ e' @ ys)" ?p 0 0] assms(6)
    unfolding m by (simp add: crc_ref_def)
  moreover have "length ?e \<le> order" using assms(6,7) by simp
  ultimately have "crc_ref ?p order (?b (xs @ e' @ ys)) \<noteq> 0"
    using crc_ref_burst [OF n _ ne, of "length xs" "length ys"] z by auto
  moreover have "is_bits (xs @ e' @ ys)" using assms(4,5) by auto
  ultimately show ?thesis
    using srsran_crc_match [OF ok', of len "xs @ e' @ ys"] assms(3,6) by (auto simp del: map_append)
qed

lemma srsran_crc_match_burst_witness:
  "\<exists>h h' h''. srsran_crc_init 0x1864CFB 24 = (0, h) \<and>
     srsran_crc_match h (replicate 6 0 @ [0, 0] @ replicate 20 0) 4 = Some (True, h') \<and>
     srsran_crc_match h' (replicate 6 0 @ [1, 1] @ replicate 20 0) 4 = Some (False, h'')"
proof -
  obtain h where h: "srsran_crc_init 0x1864CFB 24 = (0, h)" "crc_ok (ucast (0x1864CFB :: u32)) 24 h"
    using crc_init_ok [OF crc_poly_crc24a] by blast
  let ?d = "replicate 6 0 @ [0, 0] @ replicate 20 0 :: byte list"
  have b: "map byte_bit ?d = replicate 28 False" by (simp add: byte_bit_def map_replicate_const numeral_eq_Suc)
  have "crc_ref p 24 (replicate 28 False) = 0" for p by (simp add: crc_ref_def crc_step_zero)
  then obtain h' where h': "srsran_crc_match h ?d 4 = Some (True, h')"
    using srsran_crc_match [OF h(2), of 4 ?d] b by auto
  have "\<exists>h''. srsran_crc_match h' (replicate 6 0 @ [1, 1] @ replicate 20 0) 4 = Some (False, h'')"
    by (rule srsran_crc_match_burst [OF crc_poly_crc24a h(1) _ _ _ _ _ _ h']) auto
  with h(1) h' show ?thesis by blast
qed

section \<open>Packed data\<close>

text \<open>On packed bytes the checksum is that of the bits of the bytes, the highest first.\<close>

lemma srsran_crc_checksum_byte:
  assumes "crc_ok p n h" and "m \<le> length data"
  shows "\<exists>h'. srsran_crc_checksum_byte h data (8 * m) =
           Some (ucast (crc_ref p n (concat (map (bits_of 8) (take m data)))), h') \<and> crc_ok p n h'"
proof -
  define h0 where "h0 = h\<lparr>c_crcinit := 0\<rparr>"
  have h0: "crc_ok p n h0" "c_crcinit h0 = 0" using assms(1) by (simp_all add: h0_def crc_ok_def)
  obtain h' where h': "for_loop (\<lambda>i h. arr_at data i \<bind> srsran_crc_checksum_put_byte h) [0..<m] h0 = Some h'"
    "crc_ok p n h'"
    "take_bit n (c_crcinit h') = foldl (crc_step p n) 0 (concat (map (\<lambda>i. bits_of 8 (data ! i)) [0..<m]))"
    using crc_ok_put_bytes [OF h0(1), of m "arr_at data" "\<lambda>i. data ! i"] h0(2) assms(2)
    by (auto simp: arr_at_def)
  have "map (\<lambda>i. bits_of 8 (data ! i)) [0..<m] = map (bits_of 8) (take m data)"
    using assms(2) by (intro nth_equalityI) auto
  moreover have "srsran_crc_checksum_get h' = take_bit n (c_crcinit h')"
    using h'(2) by (simp add: srsran_crc_checksum_get_def crc_ok_def take_bit_eq_mask)
  ultimately have "srsran_crc_checksum_get h' = crc_ref p n (concat (map (bits_of 8) (take m data)))"
    using h'(3) by (simp add: crc_ref_def)
  then have "srsran_crc_checksum_byte h data (8 * m) =
      Some (ucast (crc_ref p n (concat (map (bits_of 8) (take m data)))), h')"
    unfolding srsran_crc_checksum_byte_def srsran_crc_set_init_def Let_def if_distrib [of snd] prod.case
      h0_def [symmetric]
    using h'(1) by (auto split: if_splits)
  with h'(2) show ?thesis by blast
qed

end
