(* ===== verification/PrSequence.thy ===== *)
theory PrSequence
  imports BitArray begin

text \<open>
  The pseudo-random (Gold) sequences of \<^verbatim>\<open>lib/src/phy/common/sequence.c\<close>: the generator that makes 24 bits
  in a step, the starting states that are computed once, the functions that apply a sequence to bits,
  packed bytes, soft bits and floats. A \<^verbatim>\<open>float\<close> is its representation, of which the code flips the
  sign bit. The reference is the recurrence of 3GPP TS 36.211, 7.2. Input and output may be the same
  array: element \<open>i\<close> is read before it is written and not read again.
\<close>

section \<open>The code\<close>

definition sequence_gen_LTE_pr_memless_step_par_x1 :: "u32 \<Rightarrow> u32" where
  "sequence_gen_LTE_pr_memless_step_par_x1 state =
     (let f = state XOR drop_bit 3 state;
          f = push_bit (31 - 24) (f AND (push_bit 24 1 - 1))
      in drop_bit 24 state XOR f)"

definition sequence_gen_LTE_pr_memless_step_x1 :: "u32 \<Rightarrow> u32" where
  "sequence_gen_LTE_pr_memless_step_x1 state =
     (let f = state XOR drop_bit 3 state;
          f = push_bit (31 - 1) (f AND 1)
      in drop_bit 1 state XOR f)"

definition sequence_gen_LTE_pr_memless_step_par_x2 :: "u32 \<Rightarrow> u32" where
  "sequence_gen_LTE_pr_memless_step_par_x2 state =
     (let f = ((state XOR drop_bit 1 state) XOR drop_bit 2 state) XOR drop_bit 3 state;
          f = push_bit (31 - 24) (f AND (push_bit 24 1 - 1))
      in drop_bit 24 state XOR f)"

definition sequence_gen_LTE_pr_memless_step_x2 :: "u32 \<Rightarrow> u32" where
  "sequence_gen_LTE_pr_memless_step_x2 state =
     (let f = ((state XOR drop_bit 1 state) XOR drop_bit 2 state) XOR drop_bit 3 state;
          f = push_bit (31 - 1) (f AND 1)
      in drop_bit 1 state XOR f)"

text \<open>The constructor that runs before \<^verbatim>\<open>main\<close> and the variables it sets.\<close>

definition srsran_lte_pr_pregen :: "u32 \<times> u32 list" where
  "srsran_lte_pr_pregen =
     (foldl (\<lambda>x1 _. sequence_gen_LTE_pr_memless_step_x1 x1) 1 [0..<1600],
      map (\<lambda>i. foldl (\<lambda>x2 _. sequence_gen_LTE_pr_memless_step_x2 x2) (push_bit i 1) [0..<1600]) [0..<31])"

definition sequence_x1_init :: u32 where
  "sequence_x1_init = fst srsran_lte_pr_pregen"

definition sequence_x2_init :: "u32 list" where
  "sequence_x2_init = snd srsran_lte_pr_pregen"

definition sequence_get_x2_init :: "u32 \<Rightarrow> u32" where
  "sequence_get_x2_init seed =
     foldl (\<lambda>x2 i. if drop_bit i seed AND 1 \<noteq> 0 then x2 XOR sequence_x2_init ! i else x2) 0 [0..<31]"

record srsran_sequence_state =
  sq_x1 :: u32
  sq_x2 :: u32

definition srsran_sequence_state_init :: "u32 \<Rightarrow> srsran_sequence_state" where
  "srsran_sequence_state_init seed = \<lparr>sq_x1 = sequence_x1_init, sq_x2 = sequence_get_x2_init seed\<rparr>"

definition step_par :: "srsran_sequence_state \<Rightarrow> srsran_sequence_state" where
  "step_par s = \<lparr>sq_x1 = sequence_gen_LTE_pr_memless_step_par_x1 (sq_x1 s),
                 sq_x2 = sequence_gen_LTE_pr_memless_step_par_x2 (sq_x2 s)\<rparr>"

definition step_one :: "srsran_sequence_state \<Rightarrow> srsran_sequence_state" where
  "step_one s = \<lparr>sq_x1 = sequence_gen_LTE_pr_memless_step_x1 (sq_x1 s),
                 sq_x2 = sequence_gen_LTE_pr_memless_step_x2 (sq_x2 s)\<rparr>"

text \<open>The two loops that every user of the generator has: 24 elements in a round while that many are
  left, then one by one. \<open>par c i j\<close> is what the code does to element \<open>i + j\<close> with bit \<open>j\<close> of \<open>c\<close>,
  \<open>one c i\<close> what it does to element \<open>i\<close> with bit 0.\<close>

function par_loop :: "(u32 \<Rightarrow> nat \<Rightarrow> nat \<Rightarrow> 'a list \<Rightarrow> 'a list option) \<Rightarrow> nat \<Rightarrow> nat \<Rightarrow>
    srsran_sequence_state \<Rightarrow> 'a list \<Rightarrow> (nat \<times> srsran_sequence_state \<times> 'a list) option" where
  "par_loop par bound i s out =
     (if i < bound
      then for_loop (\<lambda>j out. par (sq_x1 s XOR sq_x2 s) i j out) [0..<24] out \<bind>
             (\<lambda>out. par_loop par bound (i + 24) (step_par s) out)
      else Some (i, s, out))"
  by auto
termination
  by (relation "measure (\<lambda>(_, bound, i, _). bound - i)") auto

declare par_loop.simps [simp del]

definition sequence_loop :: "(u32 \<Rightarrow> nat \<Rightarrow> nat \<Rightarrow> 'a list \<Rightarrow> 'a list option) \<Rightarrow>
    (u32 \<Rightarrow> nat \<Rightarrow> 'a list \<Rightarrow> 'a list option) \<Rightarrow> nat \<Rightarrow>
    srsran_sequence_state \<Rightarrow> 'a list \<Rightarrow> (srsran_sequence_state \<times> 'a list) option" where
  "sequence_loop par one len s out = do {
     (i, s, out) \<leftarrow> (if 24 \<le> len then par_loop par (len - 23) 0 s out else Some (0, s, out));
     for_loop (\<lambda>i (s, out). do {
         out \<leftarrow> one (sq_x1 s XOR sq_x2 s) i out;
         Some (step_one s, out)
       }) [i..<len] (s, out)
   }"

definition sequence_gen_LTE_pr :: "byte list \<Rightarrow> nat \<Rightarrow> u32 \<Rightarrow> byte list option" where
  "sequence_gen_LTE_pr pr len seed = map_option snd
     (sequence_loop
       (\<lambda>c n i pr. arr_set pr (n + i) (ucast (drop_bit i c AND 1)))
       (\<lambda>c n pr. arr_set pr n (ucast (c AND 1)))
       len \<lparr>sq_x1 = sequence_x1_init, sq_x2 = sequence_get_x2_init seed\<rparr> pr)"

text \<open>The type \<^verbatim>\<open>float\<close> as its 32 bits.\<close>

definition srsran_sequence_state_gen_f ::
    "srsran_sequence_state \<Rightarrow> u32 \<Rightarrow> u32 list \<Rightarrow> nat \<Rightarrow> (srsran_sequence_state \<times> u32 list) option" where
  "srsran_sequence_state_gen_f s v out len =
     sequence_loop
       (\<lambda>c i j out. arr_set out (i + j) (v XOR (push_bit (31 - j) c AND 0x80000000)))
       (\<lambda>c i out. arr_set out i (v XOR push_bit 31 c))
       len s out"

definition srsran_sequence_state_apply_f ::
    "srsran_sequence_state \<Rightarrow> u32 list \<Rightarrow> u32 list \<Rightarrow> nat \<Rightarrow> (srsran_sequence_state \<times> u32 list) option" where
  "srsran_sequence_state_apply_f s src out len =
     sequence_loop
       (\<lambda>c i j out. arr_at src (i + j) \<bind> (\<lambda>x. arr_set out (i + j) (x XOR (push_bit (31 - j) c AND 0x80000000))))
       (\<lambda>c i out. arr_at src i \<bind> (\<lambda>x. arr_set out i (x XOR push_bit 31 c)))
       len s out"

definition srsran_sequence_state_advance :: "srsran_sequence_state \<Rightarrow> nat \<Rightarrow> srsran_sequence_state option" where
  "srsran_sequence_state_advance s len = map_option fst
     (sequence_loop (\<lambda>c i j out. Some out) (\<lambda>c i out. Some out) len s ([] :: unit list))"

definition srsran_sequence_apply_f :: "u32 list \<Rightarrow> u32 list \<Rightarrow> nat \<Rightarrow> u32 \<Rightarrow> u32 list option" where
  "srsran_sequence_apply_f src out len seed =
     map_option snd (srsran_sequence_state_apply_f (srsran_sequence_state_init seed) src out len)"

text \<open>The table \<^verbatim>\<open>s\<close> of \<^verbatim>\<open>srsran_sequence_apply_s\<close>.\<close>

definition sign_s :: "u16 list" where
  "sign_s = [1, -1]"

definition srsran_sequence_apply_s :: "u16 list \<Rightarrow> u16 list \<Rightarrow> nat \<Rightarrow> u32 \<Rightarrow> u16 list option" where
  "srsran_sequence_apply_s src out len seed = map_option snd
     (sequence_loop
       (\<lambda>c i j out. arr_at src (i + j) \<bind> (\<lambda>x. arr_at sign_s (unat (drop_bit j c AND 1)) \<bind> (\<lambda>y. arr_set out (i + j) (x * y))))
       (\<lambda>c i out. arr_at src i \<bind> (\<lambda>x. arr_at sign_s (unat (c AND 1)) \<bind> (\<lambda>y. arr_set out i (x * y))))
       len \<lparr>sq_x1 = sequence_x1_init, sq_x2 = sequence_get_x2_init seed\<rparr> out)"

definition srsran_sequence_state_apply_c ::
    "srsran_sequence_state \<Rightarrow> u8 list \<Rightarrow> u8 list \<Rightarrow> nat \<Rightarrow> (srsran_sequence_state \<times> u8 list) option" where
  "srsran_sequence_state_apply_c s src out len =
     sequence_loop
       (\<lambda>c i j out. arr_at src (i + j) \<bind> (\<lambda>x. arr_set out (i + j) (x * (if drop_bit j c AND 1 \<noteq> 0 then -1 else 1))))
       (\<lambda>c i out. arr_at src i \<bind> (\<lambda>x. arr_set out i (x * (if c AND 1 \<noteq> 0 then -1 else 1))))
       len s out"

definition srsran_sequence_apply_c :: "u8 list \<Rightarrow> u8 list \<Rightarrow> nat \<Rightarrow> u32 \<Rightarrow> u8 list option" where
  "srsran_sequence_apply_c src out len seed =
     map_option snd (srsran_sequence_state_apply_c (srsran_sequence_state_init seed) src out len)"

definition srsran_sequence_state_apply_bit ::
    "srsran_sequence_state \<Rightarrow> byte list \<Rightarrow> byte list \<Rightarrow> nat \<Rightarrow> (srsran_sequence_state \<times> byte list) option" where
  "srsran_sequence_state_apply_bit s src out len =
     sequence_loop
       (\<lambda>c i j out. arr_at src (i + j) \<bind> (\<lambda>x. arr_set out (i + j) (x XOR ucast (drop_bit j c AND 1))))
       (\<lambda>c i out. arr_at src i \<bind> (\<lambda>x. arr_set out i (x XOR ucast (c AND 1))))
       len s out"

definition srsran_sequence_apply_bit :: "byte list \<Rightarrow> byte list \<Rightarrow> nat \<Rightarrow> u32 \<Rightarrow> byte list option" where
  "srsran_sequence_apply_bit src out len seed =
     map_option snd (srsran_sequence_state_apply_bit (srsran_sequence_state_init seed) src out len)"

section \<open>Twenty-four steps at once\<close>

lemma bit_feedback: "m < 32 \<Longrightarrow> bit (push_bit m (f AND 1) :: u32) k \<longleftrightarrow> k = m \<and> bit f 0"
  by (cases "k = m") (auto simp: bit_push_bit_iff bit_and_iff bit_1_iff simp del: push_bit_and bit_0)

lemma bit_feedback_par:
  "bit (push_bit 7 (f AND 16777215) :: u32) k \<longleftrightarrow> 7 \<le> k \<and> k < 31 \<and> bit f (k - 7)"
proof -
  have "16777215 = (mask 24 :: u32)" by (simp add: mask_eq_exp_minus_1)
  then show ?thesis
    by (simp only:) (auto simp only: bit_push_bit_iff bit_and_iff bit_mask_iff possible_bit_word, simp_all)
qed

lemma bit_step_x1:
  "bit (sequence_gen_LTE_pr_memless_step_x1 s) k \<longleftrightarrow>
     bit s (Suc k) \<noteq> (k = 30 \<and> bit s 0 \<noteq> bit s 3)"
  by (simp add: sequence_gen_LTE_pr_memless_step_x1_def Let_def bit_xor_iff bit_feedback
      bit_drop_bit_eq del: push_bit_and bit_0)

lemma bit_step_x2:
  "bit (sequence_gen_LTE_pr_memless_step_x2 s) k \<longleftrightarrow>
     bit s (Suc k) \<noteq> (k = 30 \<and> (((bit s 0 \<noteq> bit s 1) \<noteq> bit s 2) \<noteq> bit s 3))"
  by (simp add: sequence_gen_LTE_pr_memless_step_x2_def Let_def bit_xor_iff bit_feedback
      bit_drop_bit_eq del: push_bit_and bit_0)

lemma bit_steps_x1:
  "m \<le> 28 \<Longrightarrow> bit ((sequence_gen_LTE_pr_memless_step_x1 ^^ m) s) k \<longleftrightarrow>
     bit s (k + m) \<noteq> (31 - m \<le> k \<and> k < 31 \<and> bit s (k + m - 31) \<noteq> bit s (k + m - 28))"
proof (induction m arbitrary: k)
  case (Suc m)
  have IH: "bit ((sequence_gen_LTE_pr_memless_step_x1 ^^ m) s) j \<longleftrightarrow>
     bit s (j + m) \<noteq> (31 - m \<le> j \<and> j < 31 \<and> bit s (j + m - 31) \<noteq> bit s (j + m - 28))" for j
    using Suc by simp
  show ?case
  proof (cases "k = 30")
    case True
    then show ?thesis
      using Suc.prems by (simp add: bit_step_x1 IH add.commute del: bit_0)
  next
    case False
    then have "k < 31 \<longleftrightarrow> k < 30" "31 - m \<le> Suc k \<longleftrightarrow> 30 - m \<le> k" by auto
    then show ?thesis using False by (cases "k < 30") (simp_all add: bit_step_x1 IH del: bit_0)
  qed
qed auto

lemma bit_steps_x2:
  "m \<le> 28 \<Longrightarrow> bit ((sequence_gen_LTE_pr_memless_step_x2 ^^ m) s) k \<longleftrightarrow>
     bit s (k + m) \<noteq> (31 - m \<le> k \<and> k < 31 \<and>
       (((bit s (k + m - 31) \<noteq> bit s (k + m - 30)) \<noteq> bit s (k + m - 29)) \<noteq> bit s (k + m - 28)))"
proof (induction m arbitrary: k)
  case (Suc m)
  have IH: "bit ((sequence_gen_LTE_pr_memless_step_x2 ^^ m) s) j \<longleftrightarrow>
     bit s (j + m) \<noteq> (31 - m \<le> j \<and> j < 31 \<and>
       (((bit s (j + m - 31) \<noteq> bit s (j + m - 30)) \<noteq> bit s (j + m - 29)) \<noteq> bit s (j + m - 28)))" for j
    using Suc by simp
  show ?case
  proof (cases "k = 30")
    case True
    then show ?thesis
      using Suc.prems by (simp add: bit_step_x2 IH add.commute del: bit_0)
  next
    case False
    then have "k < 31 \<longleftrightarrow> k < 30" "31 - m \<le> Suc k \<longleftrightarrow> 30 - m \<le> k" by auto
    then show ?thesis using False by (cases "k < 30") (simp_all add: bit_step_x2 IH del: bit_0)
  qed
qed auto

lemma step_par_x1: "sequence_gen_LTE_pr_memless_step_par_x1 s = (sequence_gen_LTE_pr_memless_step_x1 ^^ 24) s"
proof (rule bit_word_eqI)
  fix k
  show "bit (sequence_gen_LTE_pr_memless_step_par_x1 s) k \<longleftrightarrow> bit ((sequence_gen_LTE_pr_memless_step_x1 ^^ 24) s) k"
    by (auto simp: bit_steps_x1 sequence_gen_LTE_pr_memless_step_par_x1_def Let_def bit_xor_iff
        bit_feedback_par bit_drop_bit_eq add.commute simp del: push_bit_and)
qed

lemma step_par_x2: "sequence_gen_LTE_pr_memless_step_par_x2 s = (sequence_gen_LTE_pr_memless_step_x2 ^^ 24) s"
proof (rule bit_word_eqI)
  fix k
  show "bit (sequence_gen_LTE_pr_memless_step_par_x2 s) k \<longleftrightarrow> bit ((sequence_gen_LTE_pr_memless_step_x2 ^^ 24) s) k"
  proof (cases "7 \<le> k")
    case True
    then obtain j where "k = j + 7" using le_Suc_ex by (metis add.commute)
    then show ?thesis
      by (auto simp: bit_steps_x2 sequence_gen_LTE_pr_memless_step_par_x2_def Let_def bit_xor_iff
          bit_feedback_par bit_drop_bit_eq ac_simps simp del: push_bit_and)
  next
    case False
    then show ?thesis
      by (simp add: bit_steps_x2 sequence_gen_LTE_pr_memless_step_par_x2_def Let_def bit_xor_iff
          bit_feedback_par bit_drop_bit_eq ac_simps del: push_bit_and)
  qed
qed

lemma step_par: "step_par s = (step_one ^^ 24) s"
proof -
  have "(step_one ^^ m) s = \<lparr>sq_x1 = (sequence_gen_LTE_pr_memless_step_x1 ^^ m) (sq_x1 s),
      sq_x2 = (sequence_gen_LTE_pr_memless_step_x2 ^^ m) (sq_x2 s)\<rparr>" for m
    by (induction m) (simp_all add: step_one_def)
  then show ?thesis by (simp only: step_par_def step_par_x1 step_par_x2)
qed

section \<open>The loops\<close>

text \<open>The bit that goes with element \<open>i\<close>.\<close>

definition keystream :: "srsran_sequence_state \<Rightarrow> nat \<Rightarrow> bool" where
  "keystream s i = bit (sq_x1 ((step_one ^^ i) s) XOR sq_x2 ((step_one ^^ i) s)) 0"

lemma steps_sel:
  "sq_x1 ((step_one ^^ m) s) = (sequence_gen_LTE_pr_memless_step_x1 ^^ m) (sq_x1 s)"
  "sq_x2 ((step_one ^^ m) s) = (sequence_gen_LTE_pr_memless_step_x2 ^^ m) (sq_x2 s)"
  by (induction m) (simp_all add: step_one_def)

lemma keystream_ahead: "j < 24 \<Longrightarrow> bit (sq_x1 s XOR sq_x2 s) j = keystream s j"
  by (simp add: keystream_def steps_sel bit_xor_iff bit_steps_x1 bit_steps_x2 del: bit_0)

lemma funpow_funpow: "(f ^^ m) ((f ^^ n) x) = (f ^^ (n + m)) x"
  by (simp add: funpow_add add.commute [of n m])

lemma keystream_shift: "keystream ((step_one ^^ i) s) j = keystream s (i + j)"
  by (simp only: keystream_def funpow_funpow)

lemma for_loop_cong: "(\<And>i s. i \<in> set is \<Longrightarrow> f i s = g i s) \<Longrightarrow> for_loop f is s = for_loop g is s"
  by (induction "is" arbitrary: s) (auto intro!: Option.bind_cong)

lemma for_loop_shift: "for_loop f [i..<i + n] s = for_loop (\<lambda>j. f (i + j)) [0..<n] s"
proof -
  have "for_loop f (map ((+) i) is) s = for_loop (\<lambda>j. f (i + j)) is s" for "is"
    by (induction "is" arbitrary: s) (auto intro!: Option.bind_cong)
  moreover have "map ((+) i) [0..<n] = [i..<i + n]" by (induction n) simp_all
  ultimately show ?thesis by metis
qed

lemma par_loop:
  assumes par: "\<And>c i j out. j < 24 \<Longrightarrow> par c i j out = upd (i + j) (bit c j) out"
    and i: "i \<le> bound + 23"
  shows "\<exists>i' \<le> bound + 23. i \<le> i' \<and> par_loop par bound i ((step_one ^^ i) s) out =
           (for_loop (\<lambda>k. upd k (keystream s k)) [i..<i'] out \<bind> (\<lambda>out. Some (i', (step_one ^^ i') s, out)))"
  using i
proof (induction "bound - i" arbitrary: i out rule: less_induct)
  case less
  show ?case
  proof (cases "i < bound")
    case False
    then show ?thesis using less.prems by (intro exI [of _ i]) (simp add: par_loop.simps)
  next
    case True
    let ?s = "(step_one ^^ i) s"
    let ?f = "\<lambda>k. upd k (keystream s k)"
    have round: "for_loop (\<lambda>j. par (sq_x1 ?s XOR sq_x2 ?s) i j) [0..<24] out = for_loop ?f [i..<i + 24] out"
      unfolding for_loop_shift by (intro for_loop_cong) (simp add: par keystream_ahead keystream_shift)
    have steps: "step_par ?s = (step_one ^^ (i + 24)) s" by (simp only: step_par funpow_funpow)
    have rest: "\<exists>i' \<le> bound + 23. i + 24 \<le> i' \<and> par_loop par bound (i + 24) ((step_one ^^ (i + 24)) s) out' =
       (for_loop ?f [i + 24..<i'] out' \<bind> (\<lambda>out. Some (i', (step_one ^^ i') s, out)))" for out'
      using True less.hyps [of "i + 24" out'] by simp
    show ?thesis
    proof (cases "for_loop ?f [i..<i + 24] out")
      case None
      then show ?thesis using True round
        by (intro exI [of _ "i + 24"]) (simp add: par_loop.simps)
    next
      case (Some out')
      obtain i' where i': "i' \<le> bound + 23" "i + 24 \<le> i'"
        "par_loop par bound (i + 24) ((step_one ^^ (i + 24)) s) out' =
          (for_loop ?f [i + 24..<i'] out' \<bind> (\<lambda>out. Some (i', (step_one ^^ i') s, out)))"
        using rest [of out'] by blast
      have "[i..<i'] = [i..<i + 24] @ [i + 24..<i']" using i'(2) by (metis le_add1 upt_add_eq_append le_Suc_ex)
      then have "for_loop ?f [i..<i'] out = for_loop ?f [i + 24..<i'] out'"
        using Some by (simp only: for_loop_append Option.bind.bind_lunit)
      then show ?thesis
        using True round Some i' by (intro exI [of _ i']) (simp only: par_loop.simps [of par bound i] if_True steps Option.bind.bind_lunit, simp)
    qed
  qed
qed

lemma one_loop:
  "for_loop (\<lambda>k (s, out). upd k (bit (sq_x1 s XOR sq_x2 s) 0) out \<bind> (\<lambda>out. Some (step_one s, out)))
     [i..<i + n] ((step_one ^^ i) s, out) =
   (for_loop (\<lambda>k. upd k (keystream s k)) [i..<i + n] out \<bind> (\<lambda>out. Some ((step_one ^^ (i + n)) s, out)))"
proof (induction n)
  case (Suc n)
  show ?case
    by (simp only: add_Suc_right upt_Suc_append [OF le_add1] for_loop_append Suc)
      (auto simp: keystream_def bind_assoc split: Option.bind_splits)
qed simp

lemma sequence_loop:
  assumes "\<And>c i j out. j < 24 \<Longrightarrow> par c i j out = upd (i + j) (bit c j) out"
    and "\<And>c i out. one c i out = upd i (bit c 0) out"
  shows "sequence_loop par one len s out =
     (for_loop (\<lambda>k. upd k (keystream s k)) [0..<len] out \<bind> (\<lambda>out. Some ((step_one ^^ len) s, out)))"
proof -
  let ?f = "\<lambda>k. upd k (keystream s k)"
  obtain i where i: "i \<le> len" "(if 24 \<le> len then par_loop par (len - 23) 0 s out else Some (0, s, out)) =
      (for_loop ?f [0..<i] out \<bind> (\<lambda>out. Some (i, (step_one ^^ i) s, out)))"
  proof (cases "24 \<le> len")
    case True
    then show ?thesis using par_loop [of par upd 0 "len - 23" s out] assms(1) that by auto
  next
    case False
    then show ?thesis using that [of 0] by simp
  qed
  obtain n where n: "len = i + n" using i(1) le_Suc_ex by blast
  have "[0..<len] = [0..<i] @ [i..<i + n]" unfolding n by (metis le0 upt_add_eq_append)
  moreover have "sequence_loop par one len s out =
      (for_loop ?f [0..<i] out \<bind> (\<lambda>out. for_loop ?f [i..<len] out \<bind> (\<lambda>out. Some ((step_one ^^ len) s, out))))"
    unfolding sequence_loop_def i(2) assms(2) bind_assoc prod.case Option.bind.bind_lunit
    by (simp only: n one_loop)
  ultimately show ?thesis by (simp only: n for_loop_append bind_assoc)
qed

section \<open>The reference\<close>

text \<open>The two sequences of TS 36.211, 7.2, by their recurrences, and the Gold sequence with \<open>N\<^sub>C = 1600\<close>.\<close>

fun gold_x1 :: "nat \<Rightarrow> bool" where
  "gold_x1 n = (if n < 31 then n = 0 else gold_x1 (n - 31 + 3) \<noteq> gold_x1 (n - 31))"

fun gold_x2 :: "u32 \<Rightarrow> nat \<Rightarrow> bool" where
  "gold_x2 seed n = (if n < 31 then bit seed n
     else ((gold_x2 seed (n - 31 + 3) \<noteq> gold_x2 seed (n - 31 + 2)) \<noteq> gold_x2 seed (n - 31 + 1)) \<noteq> gold_x2 seed (n - 31))"

declare gold_x1.simps [simp del] gold_x2.simps [simp del]

definition gold_c :: "u32 \<Rightarrow> nat \<Rightarrow> bool" where
  "gold_c seed n \<longleftrightarrow> gold_x1 (n + 1600) \<noteq> gold_x2 seed (n + 1600)"

lemma bit31_steps_x1: "\<not> bit s 31 \<Longrightarrow> \<not> bit ((sequence_gen_LTE_pr_memless_step_x1 ^^ m) s) 31"
  by (cases m) (auto simp: bit_step_x1 dest: bit_imp_le_length)

lemma bit31_steps_x2: "\<not> bit s 31 \<Longrightarrow> \<not> bit ((sequence_gen_LTE_pr_memless_step_x2 ^^ m) s) 31"
  by (cases m) (auto simp: bit_step_x2 dest: bit_imp_le_length)

lemma bit_x1_gold: "k < 31 \<Longrightarrow> bit ((sequence_gen_LTE_pr_memless_step_x1 ^^ m) 1) k = gold_x1 (m + k)"
proof (induction m arbitrary: k)
  case 0
  then show ?case by (simp add: gold_x1.simps bit_1_iff)
next
  case (Suc m)
  show ?case
  proof (cases "k = 30")
    case True
    have g: "gold_x1 (31 + m) \<longleftrightarrow> gold_x1 (m + 3) \<noteq> gold_x1 m" by (subst gold_x1.simps) simp
    from True show ?thesis
      using Suc.IH [of 0] Suc.IH [of 3] bit31_steps_x1 [of 1 m]
      by (auto simp: bit_step_x1 bit_1_iff g simp del: bit_0)
  next
    case False
    then show ?thesis using Suc by (simp add: bit_step_x1)
  qed
qed

lemma bit_x2_gold:
  "k < 31 \<Longrightarrow> bit ((sequence_gen_LTE_pr_memless_step_x2 ^^ m) (take_bit 31 seed)) k = gold_x2 seed (m + k)"
proof (induction m arbitrary: k)
  case 0
  then show ?case by (simp add: gold_x2.simps bit_take_bit_iff)
next
  case (Suc m)
  show ?case
  proof (cases "k = 30")
    case True
    have g: "gold_x2 seed (31 + m) \<longleftrightarrow>
        ((gold_x2 seed (m + 3) \<noteq> gold_x2 seed (m + 2)) \<noteq> gold_x2 seed (m + 1)) \<noteq> gold_x2 seed m"
      by (subst gold_x2.simps) (simp add: add.commute)
    from True show ?thesis
      using Suc.IH [of 0] Suc.IH [of 1] Suc.IH [of 2] Suc.IH [of 3] bit31_steps_x2 [of "take_bit 31 seed" m]
      by (auto simp add: bit_step_x2 bit_take_bit_iff g simp del: bit_0)
  next
    case False
    then show ?thesis using Suc by (simp add: bit_step_x2)
  qed
qed

section \<open>The initial states\<close>

lemma step_x2_xor: "sequence_gen_LTE_pr_memless_step_x2 (a XOR b) =
    sequence_gen_LTE_pr_memless_step_x2 a XOR sequence_gen_LTE_pr_memless_step_x2 b"
  by (rule bit_word_eqI) (auto simp: bit_step_x2 bit_xor_iff)

lemma steps_x2_xor: "(sequence_gen_LTE_pr_memless_step_x2 ^^ m) (a XOR b) =
    (sequence_gen_LTE_pr_memless_step_x2 ^^ m) a XOR (sequence_gen_LTE_pr_memless_step_x2 ^^ m) b"
  by (induction m) (simp_all add: step_x2_xor)

lemma steps_x2_0: "(sequence_gen_LTE_pr_memless_step_x2 ^^ m) 0 = 0"
  using steps_x2_xor [of m 0 0] by simp

lemma foldl_steps: "foldl (\<lambda>x _. f x) x [0..<n] = (f ^^ n) x"
  by (induction n) simp_all

lemma sequence_x1_init: "sequence_x1_init = (sequence_gen_LTE_pr_memless_step_x1 ^^ 1600) 1"
  by (simp only: sequence_x1_init_def srsran_lte_pr_pregen_def fst_conv foldl_steps)

lemma sequence_x2_init:
  "i < 31 \<Longrightarrow> sequence_x2_init ! i = (sequence_gen_LTE_pr_memless_step_x2 ^^ 1600) (push_bit i 1)"
  by (simp only: sequence_x2_init_def srsran_lte_pr_pregen_def snd_conv foldl_steps) simp

lemma sequence_get_x2_init:
  "sequence_get_x2_init seed = (sequence_gen_LTE_pr_memless_step_x2 ^^ 1600) (take_bit 31 seed)"
proof -
  let ?g = "\<lambda>x2 i. if drop_bit i seed AND 1 \<noteq> 0 then x2 XOR sequence_x2_init ! i else x2"
  have t: "take_bit (Suc n) seed = (if bit seed n then take_bit n seed XOR push_bit n 1 else take_bit n seed)" for n
    by (rule bit_word_eqI) (auto simp: bit_take_bit_iff bit_xor_iff bit_exp_iff less_Suc_eq)
  have d: "drop_bit n seed AND 1 \<noteq> 0 \<longleftrightarrow> bit seed n" for n
    by (simp add: and_one_eq bit_iff_odd_drop_bit odd_iff_mod_2_eq_one)
  have "n \<le> 31 \<Longrightarrow> foldl ?g 0 [0..<n] = (sequence_gen_LTE_pr_memless_step_x2 ^^ 1600) (take_bit n seed)" for n
  proof (induction n)
    case 0
    then show ?case by (simp add: steps_x2_0)
  next
    case (Suc n)
    then show ?case
      using sequence_x2_init [of n]
      by (simp add: d t steps_x2_xor del: push_bit_of_1)
  qed
  then show ?thesis by (simp add: sequence_get_x2_init_def)
qed

lemma keystream_gold: "keystream \<lparr>sq_x1 = sequence_x1_init, sq_x2 = sequence_get_x2_init seed\<rparr> i = gold_c seed i"
  using bit_x1_gold [of 0 "1600 + i"] bit_x2_gold [of 0 "1600 + i" seed]
  by (simp add: keystream_def steps_sel sequence_x1_init sequence_get_x2_init funpow_funpow bit_xor_iff
      gold_c_def add.commute del: bit_0)

section \<open>Applying a sequence\<close>

lemma drop_and_1: "ucast (drop_bit j c AND 1 :: u32) = bit_byte (bit c j)"
  by (rule ucast_and_1)

text \<open>C10: The bits that \<^verbatim>\<open>sequence_gen_LTE_pr\<close> writes, 24 at a time from precomputed states, are the Gold sequence of
  the standard, defined by its recurrences, for every seed and length; nothing behind them is written.\<close>

theorem sequence_gen_LTE_pr_gold:
  assumes "len \<le> length pr"
  shows "sequence_gen_LTE_pr pr len seed =
           Some (map (\<lambda>n. bit_byte (gold_c seed n)) [0..<len] @ drop len pr)"
proof -
  let ?s = "\<lparr>sq_x1 = sequence_x1_init, sq_x2 = sequence_get_x2_init seed\<rparr>"
  have "for_loop (\<lambda>k pr. arr_set pr k (bit_byte (keystream ?s k))) [0..<len] pr =
      Some (take 0 pr @ map (\<lambda>k. bit_byte (keystream ?s k)) [0..<len] @ drop (0 + len) pr)"
    using assms by (intro fill_array) auto
  then show ?thesis
    unfolding sequence_gen_LTE_pr_def
    by (subst sequence_loop [where upd = "\<lambda>k b pr. arr_set pr k (bit_byte b)"])
      (simp_all add: drop_and_1 drop_and_1 [of 0, simplified] keystream_gold bit_drop_bit_eq)
qed

lemma map_array:
  assumes "n \<le> length src" and "n \<le> length out"
  shows "for_loop (\<lambda>i out. arr_at src i \<bind> (\<lambda>x. arr_set out i (g i x))) [0..<n] out =
           Some (map (\<lambda>i. g i (src ! i)) [0..<n] @ drop n out)"
proof -
  have "for_loop (\<lambda>i out. arr_at src i \<bind> (\<lambda>x. arr_set out i (g i x))) [0..<n] out =
      Some (take 0 out @ map (\<lambda>i. g i (src ! i)) [0..<n] @ drop (0 + n) out)"
    using assms by (intro fill_array) (auto simp: arr_at_def)
  then show ?thesis by simp
qed

lemma state_apply_bit:
  assumes "len \<le> length src" and "len \<le> length out"
  shows "srsran_sequence_state_apply_bit s src out len =
           Some ((step_one ^^ len) s, map (\<lambda>i. src ! i XOR bit_byte (keystream s i)) [0..<len] @ drop len out)"
  unfolding srsran_sequence_state_apply_bit_def
  by (subst sequence_loop [where upd = "\<lambda>k b out. arr_at src k \<bind> (\<lambda>x. arr_set out k (x XOR bit_byte b))"])
    (simp_all add: drop_and_1 drop_and_1 [of 0, simplified] bit_drop_bit_eq map_array assms)

text \<open>Flipping the sign of a float.\<close>

lemma sign_par: "j < 24 \<Longrightarrow> (push_bit (31 - j) c AND 0x80000000 :: u32) = (if bit c j then 0x80000000 else 0)"
  for c :: u32
proof (rule bit_word_eqI)
  fix k
  assume "j < 24"
  have "(0x80000000 :: u32) = push_bit 31 1" by simp
  then have "bit (0x80000000 :: u32) k \<longleftrightarrow> k = 31" by (simp only: bit_push_bit_iff) auto
  then show "bit (push_bit (31 - j) c AND 0x80000000 :: u32) k \<longleftrightarrow> bit (if bit c j then 0x80000000 else 0 :: u32) k"
    using \<open>j < 24\<close> by (auto simp: bit_and_iff bit_push_bit_iff)
qed

lemma sign_one: "(push_bit 31 c :: u32) = (if bit c 0 then 0x80000000 else 0)"
  for c :: u32
proof (rule bit_word_eqI)
  fix k
  have "(0x80000000 :: u32) = push_bit 31 1" by simp
  then have "bit (0x80000000 :: u32) k \<longleftrightarrow> k = 31" by (simp only: bit_push_bit_iff) auto
  then show "bit (push_bit 31 c :: u32) k \<longleftrightarrow> bit (if bit c 0 then 0x80000000 else 0 :: u32) k"
    by (auto simp: bit_push_bit_iff simp del: bit_0 dest: bit_imp_le_length)
qed

definition flip_sign :: "bool \<Rightarrow> u32 \<Rightarrow> u32" where
  "flip_sign b x = (if b then x XOR 0x80000000 else x)"

lemma state_apply_f:
  assumes "len \<le> length src" and "len \<le> length out"
  shows "srsran_sequence_state_apply_f s src out len =
           Some ((step_one ^^ len) s, map (\<lambda>i. flip_sign (keystream s i) (src ! i)) [0..<len] @ drop len out)"
  unfolding srsran_sequence_state_apply_f_def
  by (subst sequence_loop [where upd = "\<lambda>k b out. arr_at src k \<bind> (\<lambda>x. arr_set out k (flip_sign b x))"])
    (simp_all add: sign_par sign_one flip_sign_def map_array assms del: bit_0)

lemma state_gen_f:
  assumes "len \<le> length out"
  shows "srsran_sequence_state_gen_f s v out len =
           Some ((step_one ^^ len) s, map (\<lambda>i. flip_sign (keystream s i) v) [0..<len] @ drop len out)"
proof -
  have "for_loop (\<lambda>k out. arr_set out k (flip_sign (keystream s k) v)) [0..<len] out =
      Some (take 0 out @ map (\<lambda>k. flip_sign (keystream s k) v) [0..<len] @ drop (0 + len) out)"
    using assms by (intro fill_array) auto
  then show ?thesis
    unfolding srsran_sequence_state_gen_f_def
    by (subst sequence_loop [where upd = "\<lambda>k b out. arr_set out k (flip_sign b v)"])
      (simp_all add: sign_par sign_one flip_sign_def del: bit_0)
qed

text \<open>Soft bits change their sign.\<close>

lemma state_apply_c:
  assumes "len \<le> length src" and "len \<le> length out"
  shows "srsran_sequence_state_apply_c s src out len =
           Some ((step_one ^^ len) s, map (\<lambda>i. if keystream s i then - (src ! i) else src ! i) [0..<len] @ drop len out)"
proof -
  have d: "drop_bit n c AND 1 \<noteq> 0 \<longleftrightarrow> bit c n" for n and c :: u32
    by (simp add: and_one_eq bit_iff_odd_drop_bit odd_iff_mod_2_eq_one)
  have z: "c AND 1 \<noteq> 0 \<longleftrightarrow> bit c 0" for c :: u32 using d [of 0 c] by simp
  show ?thesis
    unfolding srsran_sequence_state_apply_c_def d z
    by (subst sequence_loop [where upd = "\<lambda>k b out. arr_at src k \<bind> (\<lambda>x. arr_set out k (x * (if b then -1 else 1)))"])
      (auto simp: map_array assms bit_drop_bit_eq)
qed

lemma sequence_apply_s:
  assumes "len \<le> length src" and "len \<le> length out"
  shows "srsran_sequence_apply_s src out len seed =
           Some (map (\<lambda>i. if gold_c seed i then - (src ! i) else src ! i) [0..<len] @ drop len out)"
proof -
  have d: "arr_at sign_s (unat (drop_bit n c AND 1)) = Some (if bit c n then -1 else 1)" for n and c :: u32
    by (simp add: and_one_eq bit_iff_odd_drop_bit odd_iff_mod_2_eq_one sign_s_def arr_at_def)
  have z: "arr_at sign_s (unat (c AND 1)) = Some (if bit c 0 then -1 else 1)" for c :: u32
    using d [of 0 c] by simp
  show ?thesis
    unfolding srsran_sequence_apply_s_def d z Option.bind.bind_lunit
    by (subst sequence_loop [where upd = "\<lambda>k b out. arr_at src k \<bind> (\<lambda>x. arr_set out k (x * (if b then -1 else 1)))"])
      (auto simp: map_array assms keystream_gold bit_drop_bit_eq)
qed

lemma state_advance: "srsran_sequence_state_advance s len = Some ((step_one ^^ len) s)"
proof -
  have "for_loop (\<lambda>k. Some) is out = Some out" for "is" :: "nat list" and out :: "unit list"
    by (induction "is") simp_all
  then show ?thesis
    unfolding srsran_sequence_state_advance_def
    by (subst sequence_loop [where upd = "\<lambda>k b. Some"]) simp_all
qed

lemma sequence_apply_bit:
  assumes "len \<le> length src" and "len \<le> length out"
  shows "srsran_sequence_apply_bit src out len seed =
           Some (map (\<lambda>i. src ! i XOR bit_byte (gold_c seed i)) [0..<len] @ drop len out)"
  by (simp add: srsran_sequence_apply_bit_def srsran_sequence_state_init_def state_apply_bit assms keystream_gold)

text \<open>C38: \<^verbatim>\<open>srsran_sequence_apply_bit\<close> flips bit \<open>i\<close> of the input exactly where bit \<open>i\<close> of the Gold sequence of the
  standard for the seed is set, for every length, including the bits behind the last round of 24; it writes nothing behind the
  length, and applied to its own result in place it gives the input back.\<close>

theorem sequence_apply_bit_gold:
  assumes "len \<le> length src" and "len \<le> length out"
  shows "\<exists>res. srsran_sequence_apply_bit src out len seed = Some res \<and> length res = length out \<and> drop len res = drop len out \<and>
    (\<forall>i < len. res ! i = src ! i XOR (if gold_c seed i then 1 else 0)) \<and>
    srsran_sequence_apply_bit res res len seed = Some (take len src @ drop len out)"
proof -
  let ?b = "map (\<lambda>i. src ! i XOR bit_byte (gold_c seed i)) [0..<len]"
  let ?res = "?b @ drop len out"
  have "map (\<lambda>i. ?res ! i XOR bit_byte (gold_c seed i)) [0..<len] = take len src"
    using assms(1) by (intro nth_equalityI) (simp_all add: nth_append xor.assoc)
  moreover have "len \<le> length ?res" using assms(2) by simp
  ultimately have "srsran_sequence_apply_bit ?res ?res len seed = Some (take len src @ drop len out)"
    using sequence_apply_bit [of len ?res ?res seed] by simp
  moreover have "\<forall>i < len. ?res ! i = src ! i XOR (if gold_c seed i then 1 else 0)"
    by (simp add: nth_append bit_byte_def)
  ultimately show ?thesis
    using sequence_apply_bit [OF assms, of seed] assms(2) by (intro exI [of _ ?res]) simp
qed

text \<open>An array may be scrambled in parts: the state after the first part, which is the state that
  \<^verbatim>\<open>srsran_sequence_state_advance\<close> computes, continues the sequence, wherever the array is cut relative to the
  rounds of 24.\<close>

theorem sequence_state_apply_bit_split:
  assumes "a + b \<le> length src" and "a + b \<le> length out"
  shows "\<exists>s1 out1. srsran_sequence_state_advance s a = Some s1 \<and>
           srsran_sequence_state_apply_bit s src out a = Some (s1, out1) \<and>
           srsran_sequence_state_apply_bit s src out (a + b) =
             map_option (\<lambda>(s2, rest). (s2, take a out1 @ rest))
               (srsran_sequence_state_apply_bit s1 (drop a src) (drop a out1) b)"
proof -
  have "[0..<a + b] = [0..<a] @ map ((+) a) [0..<b]"
    by (induction b) simp_all
  then show ?thesis
    using assms by (simp add: state_advance state_apply_bit funpow_funpow keystream_shift comp_def add.commute)
qed

lemma sequence_state_apply_bit_split_witness:
  "\<exists>s1 out1. srsran_sequence_state_advance \<lparr>sq_x1 = 1, sq_x2 = 5\<rparr> 30 = Some s1 \<and>
     srsran_sequence_state_apply_bit \<lparr>sq_x1 = 1, sq_x2 = 5\<rparr> (replicate 50 1) (replicate 50 0) 50 =
       map_option (\<lambda>(s2, rest). (s2, take 30 out1 @ rest))
         (srsran_sequence_state_apply_bit s1 (replicate 20 1) (drop 30 out1) 20)"
  using sequence_state_apply_bit_split [of 30 20 "replicate 50 1" "replicate 50 0" "\<lparr>sq_x1 = 1, sq_x2 = 5\<rparr>"]
  by auto

lemma sequence_apply_bit_gold_witness:
  "\<exists>res. srsran_sequence_apply_bit (replicate 30 1) (replicate 31 9) 30 77 = Some res \<and> length res = 31 \<and> drop 30 res = [9] \<and>
     srsran_sequence_apply_bit res res 30 77 = Some (replicate 30 1 @ [9])"
  using sequence_apply_bit_gold [of 30 "replicate 30 1" "replicate 31 9" 77] by auto

lemma sequence_gen_LTE_pr_gold_witness:
  "sequence_gen_LTE_pr (replicate 60 9) 50 77 =
     Some (map (\<lambda>n. bit_byte (gold_c 77 n)) [0..<50] @ replicate 10 9)"
  using sequence_gen_LTE_pr_gold [of 50 "replicate 60 9" 77] by simp

section \<open>Packed bytes\<close>

text \<open>The table of \<^verbatim>\<open>srsran_sequence_apply_packed\<close>, in decimal.\<close>

definition reverse_lut :: "byte list" where
  "reverse_lut =
    [0, 128, 64, 192, 32, 160, 96, 224, 16, 144, 80, 208, 48, 176, 112, 240,
     8, 136, 72, 200, 40, 168, 104, 232, 24, 152, 88, 216, 56, 184, 120, 248,
     4, 132, 68, 196, 36, 164, 100, 228, 20, 148, 84, 212, 52, 180, 116, 244,
     12, 140, 76, 204, 44, 172, 108, 236, 28, 156, 92, 220, 60, 188, 124, 252,
     2, 130, 66, 194, 34, 162, 98, 226, 18, 146, 82, 210, 50, 178, 114, 242,
     10, 138, 74, 202, 42, 170, 106, 234, 26, 154, 90, 218, 58, 186, 122, 250,
     6, 134, 70, 198, 38, 166, 102, 230, 22, 150, 86, 214, 54, 182, 118, 246,
     14, 142, 78, 206, 46, 174, 110, 238, 30, 158, 94, 222, 62, 190, 126, 254,
     1, 129, 65, 193, 33, 161, 97, 225, 17, 145, 81, 209, 49, 177, 113, 241,
     9, 137, 73, 201, 41, 169, 105, 233, 25, 153, 89, 217, 57, 185, 121, 249,
     5, 133, 69, 197, 37, 165, 101, 229, 21, 149, 85, 213, 53, 181, 117, 245,
     13, 141, 77, 205, 45, 173, 109, 237, 29, 157, 93, 221, 61, 189, 125, 253,
     3, 131, 67, 195, 35, 163, 99, 227, 19, 147, 83, 211, 51, 179, 115, 243,
     11, 139, 75, 203, 43, 171, 107, 235, 27, 155, 91, 219, 59, 187, 123, 251,
     7, 135, 71, 199, 39, 167, 103, 231, 23, 151, 87, 215, 55, 183, 119, 247,
     15, 143, 79, 207, 47, 175, 111, 239, 31, 159, 95, 223, 63, 191, 127, 255]"

lemma reverse_lut_all: "map (\<lambda>k. num_of (rev (bits_of 8 (word_of_nat k :: byte)))) [0..<256] = reverse_lut"
  unfolding reverse_lut_def by code_simp

text \<open>The rounds of three bytes, and the bytes that are left. The bound is computed in unsigned 32 bit
  arithmetic. The other preprocessor branch, for a number of parallel bits that is no multiple of 8, is
  not compiled.\<close>

definition packed_byte :: "byte list \<Rightarrow> nat \<Rightarrow> u32 \<times> byte list \<Rightarrow> (u32 \<times> byte list) option" where
  "packed_byte src i = (\<lambda>(c, out). do {
     x \<leftarrow> arr_at src i;
     r \<leftarrow> arr_at reverse_lut (unat (c AND 255));
     out \<leftarrow> arr_set out i (x XOR r);
     Some (drop_bit 8 c, out)
   })"

function packed_loop :: "byte list \<Rightarrow> nat \<Rightarrow> nat \<Rightarrow> srsran_sequence_state \<Rightarrow> byte list \<Rightarrow>
    (nat \<times> srsran_sequence_state \<times> byte list) option" where
  "packed_loop src bound i s out =
     (if i < bound
      then for_loop (\<lambda>j. packed_byte src (i + j)) [0..<3] (sq_x1 s XOR sq_x2 s, out) \<bind>
             (\<lambda>(c, out). packed_loop src bound (i + 3) (step_par s) out)
      else Some (i, s, out))"
  by auto
termination
  by (relation "measure (\<lambda>(_, bound, i, _). bound - i)") auto

declare packed_loop.simps [simp del]

definition srsran_sequence_apply_packed :: "byte list \<Rightarrow> byte list \<Rightarrow> u32 \<Rightarrow> u32 \<Rightarrow> byte list option" where
  "srsran_sequence_apply_packed src out len seed = do {
     let s = \<lparr>sq_x1 = sequence_x1_init, sq_x2 = sequence_get_x2_init seed\<rparr>;
     (i, s, out) \<leftarrow> packed_loop src (unat (len div 8 - 2)) 0 s out;
     (c, out) \<leftarrow> for_loop (packed_byte src) [i..<unat (len div 8)] (sq_x1 s XOR sq_x2 s, out);
     let rem8 = unat (len mod 8);
     if rem8 \<noteq> 0 then do {
       let i = max i (unat (len div 8));
       x \<leftarrow> arr_at src i;
       r \<leftarrow> arr_at reverse_lut (unat ((c AND (push_bit rem8 1 - 1)) AND 255));
       arr_set out i (x XOR r)
     } else Some out
   }"

text \<open>A buffer of fewer than 16 bits: the bound wraps around.\<close>

lemma packed_byte_fits: "packed_byte src i (c, out) = Some (c', out') \<Longrightarrow> i < length out \<and> length out' = length out"
  by (auto simp: packed_byte_def arr_set_def split: Option.bind_splits if_splits)

lemma packed_round_fits:
  "for_loop (\<lambda>j. packed_byte src (i + j)) [0..<n] (c, out) = Some (c', out') \<Longrightarrow>
     length out' = length out \<and> (0 < n \<longrightarrow> i + n \<le> length out)"
proof (induction n arbitrary: c' out')
  case (Suc n)
  then obtain c1 out1 where "for_loop (\<lambda>j. packed_byte src (i + j)) [0..<n] (c, out) = Some (c1, out1)"
    "packed_byte src (i + n) (c1, out1) = Some (c', out')"
    by (auto simp: for_loop_append split: Option.bind_splits)
  with Suc.IH [of c1 out1] packed_byte_fits [of src "i + n" c1 out1 c' out'] show ?case by simp
qed simp

lemma packed_loop_overrun:
  "length out < bound \<Longrightarrow> i \<le> length out \<Longrightarrow> packed_loop src bound i s out = None"
proof (induction "bound - i" arbitrary: i s out rule: less_induct)
  case less
  show ?case
  proof (cases "for_loop (\<lambda>j. packed_byte src (i + j)) [0..<3] (sq_x1 s XOR sq_x2 s, out)")
    case None
    then show ?thesis using less.prems by (simp add: packed_loop.simps)
  next
    case (Some r)
    obtain c' out' where r: "r = (c', out')" by fastforce
    have fits: "length out' = length out" "i + 3 \<le> length out"
      using packed_round_fits [of src i 3 _ out c' out'] Some r by auto
    then have "packed_loop src bound (i + 3) (step_par s) out' = None"
      using less.prems less.hyps [of "i + 3" out'] by simp
    then show ?thesis using less.prems Some r by (simp add: packed_loop.simps [of src bound i])
  qed
qed

lemma sequence_apply_packed_short:
  assumes "unat len < 16" and "length out < 2 ^ 32 - 2"
  shows "srsran_sequence_apply_packed src out len seed = None"
proof -
  have "unat (len div 8 - 2) = (if unat len < 8 then 2 ^ 32 - 2 else 2 ^ 32 - 1)"
  proof -
    have "unat (len div 8) = unat len div 8" by (simp add: unat_div)
    moreover have "unat len div 8 = (if unat len < 8 then 0 else 1)" using assms(1) by auto
    ultimately have "len div 8 = (if unat len < 8 then 0 else 1)"
      by (metis unat_0 unat_1 word_unat_eq_iff)
    then show ?thesis by (simp add: unsigned_minus_1_eq_mask mask_eq_exp_minus_1)
  qed
  then show ?thesis
    using assms(2) packed_loop_overrun [of out "unat (len div 8 - 2)" 0 src]
    by (auto simp: srsran_sequence_apply_packed_def)
qed

text \<open>A buffer of at least 16 bits.\<close>

definition key_byte :: "srsran_sequence_state \<Rightarrow> nat \<Rightarrow> byte" where
  "key_byte s k = num_of (map (\<lambda>b. keystream s (8 * k + b)) [0..<8])"

lemma lut_at: "arr_at reverse_lut (unat (c AND 255)) = Some (num_of (map (bit c) [0..<8]))"
  for c :: u32
proof -
  let ?k = "unat (c AND 255)"
  have m: "(255 :: u32) = mask 8" by (simp add: mask_eq_exp_minus_1)
  have c: "c AND 255 = take_bit 8 c" unfolding m by (simp add: take_bit_eq_mask)
  have k: "?k < 256" unfolding c using take_bit_nat_less_exp [of 8 "unat c"] by (simp add: unsigned_take_bit_eq)
  have b: "bit (ucast (c AND 255) :: byte) j \<longleftrightarrow> bit c j" if "j < 8" for j
    unfolding c using that by (simp add: bit_ucast_iff bit_take_bit_iff)
  have "rev (bits_of 8 (word_of_nat ?k :: byte)) = map (bit c) [0..<8]"
  proof (rule nth_equalityI)
    fix j
    assume "j < length (rev (bits_of 8 (word_of_nat ?k :: byte)))"
    then have j: "j < 8" "7 - (7 - j) = j" by simp_all
    have "[0..<8] ! (7 - j) = 7 - j" by (subst nth_upt) auto
    with j show "rev (bits_of 8 (word_of_nat ?k :: byte)) ! j = map (bit c) [0..<8] ! j"
      by (simp add: bits_of_def rev_nth b del: upt_rec_numeral)
  qed (simp add: bits_of_def)
  moreover have "reverse_lut ! ?k = num_of (rev (bits_of 8 (word_of_nat ?k :: byte)))"
    unfolding reverse_lut_all [symmetric] using k by simp
  moreover have "length reverse_lut = 256" unfolding reverse_lut_all [symmetric] by simp
  ultimately show ?thesis using k by (simp add: arr_at_def)
qed

lemma packed_bytes:
  assumes "\<And>b. b < 8 * n \<Longrightarrow> bit c b = keystream s (8 * i + b)"
    and "i + n \<le> length src" "i + n \<le> length out"
  shows "for_loop (\<lambda>j. packed_byte src (i + j)) [0..<n] (c, map (\<lambda>k. src ! k XOR key_byte s k) [0..<i] @ drop i out) =
           Some (drop_bit (8 * n) c, map (\<lambda>k. src ! k XOR key_byte s k) [0..<i + n] @ drop (i + n) out)"
  using assms
proof (induction n)
  case (Suc n)
  let ?st = "\<lambda>i. map (\<lambda>k. src ! k XOR key_byte s k) [0..<i] @ drop i out"
  have "bit (drop_bit (8 * n) c) b = keystream s (8 * (i + n) + b)" if "b < 8" for b
    using Suc.prems(1) [of "8 * n + b"] that by (simp add: bit_drop_bit_eq add.assoc)
  then have "map (bit (drop_bit (8 * n) c)) [0..<8] = map (\<lambda>b. keystream s (8 * (i + n) + b)) [0..<8]"
    by (intro map_cong) auto
  then have key: "num_of (map (bit (drop_bit (8 * n) c)) [0..<8]) = key_byte s (i + n)"
    by (simp only: key_byte_def)
  have d: "drop (i + n) out = out ! (i + n) # drop (Suc (i + n)) out"
    using Suc.prems(3) by (simp add: Cons_nth_drop_Suc)
  have "(?st (i + n))[i + n := src ! (i + n) XOR key_byte s (i + n)] = ?st (i + Suc n)"
    by (simp add: d list_update_append)
  then show ?case
    using Suc by (simp add: for_loop_append packed_byte_def arr_at_def lut_at [unfolded arr_at_def] key arr_set_def)
qed simp

definition packed_bytes_done :: "srsran_sequence_state \<Rightarrow> byte list \<Rightarrow> byte list \<Rightarrow> nat \<Rightarrow> byte list" where
  "packed_bytes_done s src out i = map (\<lambda>k. src ! k XOR key_byte s k) [0..<i] @ drop i out"

lemma packed_loop:
  assumes "i \<le> nb" "2 \<le> nb" "nb \<le> length src" "nb \<le> length out"
  shows "\<exists>i'. i' \<le> nb \<and> nb \<le> i' + 2 \<and>
           packed_loop src (nb - 2) i ((step_one ^^ (8 * i)) s) (packed_bytes_done s src out i) =
             Some (i', (step_one ^^ (8 * i')) s, packed_bytes_done s src out i')"
  using assms(1)
proof (induction "nb - i" arbitrary: i rule: less_induct)
  case less
  show ?case
  proof (cases "i < nb - 2")
    case False
    then show ?thesis using less.prems by (intro exI [of _ i]) (simp add: packed_loop.simps)
  next
    case True
    let ?s = "(step_one ^^ (8 * i)) s"
    let ?c = "sq_x1 ?s XOR sq_x2 ?s"
    have "bit ?c b = keystream s (8 * i + b)" if "b < 8 * 3" for b
      using that keystream_ahead [of b ?s] by (simp add: keystream_shift)
    then have "for_loop (\<lambda>j. packed_byte src (i + j)) [0..<3] (?c, packed_bytes_done s src out i) =
        Some (drop_bit (8 * 3) ?c, packed_bytes_done s src out (i + 3))"
      unfolding packed_bytes_done_def using True assms by (intro packed_bytes) auto
    moreover have "step_par ?s = (step_one ^^ (8 * (i + 3))) s"
      by (simp add: step_par funpow_funpow)
    moreover obtain i' where "i' \<le> nb" "nb \<le> i' + 2"
      "packed_loop src (nb - 2) (i + 3) ((step_one ^^ (8 * (i + 3))) s) (packed_bytes_done s src out (i + 3)) =
        Some (i', (step_one ^^ (8 * i')) s, packed_bytes_done s src out i')"
      using less.hyps [of "i + 3"] True by fastforce
    ultimately show ?thesis using True by (intro exI [of _ i']) (simp add: packed_loop.simps [of src "nb - 2" i])
  qed
qed

text \<open>The last byte of a length that is no multiple of 8: only its high bits are changed.\<close>

definition last_key :: "srsran_sequence_state \<Rightarrow> nat \<Rightarrow> nat \<Rightarrow> byte" where
  "last_key s k rem = num_of (map (\<lambda>b. b < rem \<and> keystream s (8 * k + b)) [0..<8])"

lemma last_byte:
  fixes c :: u32
  assumes "rem < 8" and "\<And>b. b < rem \<Longrightarrow> bit c b = keystream s (8 * k + b)"
  shows "arr_at reverse_lut (unat ((c AND (push_bit rem 1 - 1)) AND 255)) = Some (last_key s k rem)"
proof -
  have m: "push_bit rem 1 - 1 = (mask rem :: u32)" by (simp add: mask_eq_exp_minus_1)
  have "map (bit (c AND mask rem)) [0..<8] = map (\<lambda>b. b < rem \<and> keystream s (8 * k + b)) [0..<8]"
    using assms by (intro map_cong) (auto simp: bit_and_iff bit_mask_iff)
  then show ?thesis unfolding m by (simp only: lut_at last_key_def)
qed

lemma sequence_apply_packed:
  assumes nb: "nb = unat len div 8" and rem: "rem = unat len mod 8" and "16 \<le> unat len"
    and "nb + (if rem = 0 then 0 else 1) \<le> length src" "nb + (if rem = 0 then 0 else 1) \<le> length out"
    and s: "s = \<lparr>sq_x1 = sequence_x1_init, sq_x2 = sequence_get_x2_init seed\<rparr>"
  shows "srsran_sequence_apply_packed src out len seed =
           Some (let out' = packed_bytes_done s src out nb
                 in if rem = 0 then out' else out'[nb := src ! nb XOR last_key s nb rem])"
proof -
  have nb2: "2 \<le> nb" "nb \<le> length src" "nb \<le> length out" using assms(3-5) nb by auto
  have u: "unat (len div 8) = nb" "unat (len mod 8) = rem" by (simp_all add: nb rem unat_div unat_mod)
  have "(2 :: u32) \<le> len div 8" using nb2(1) u(1) by (simp add: word_le_nat_alt)
  then have bound: "unat (len div 8 - 2) = nb - 2" using u(1) by (simp add: unat_sub)
  obtain i where i: "i \<le> nb" "nb \<le> i + 2"
    "packed_loop src (nb - 2) 0 s out = Some (i, (step_one ^^ (8 * i)) s, packed_bytes_done s src out i)"
    using packed_loop [of 0 nb src out s] nb2 by (auto simp: packed_bytes_done_def)
  obtain n where n: "nb = i + n" "n \<le> 2" using i le_Suc_ex by (metis add_le_cancel_left)
  let ?s = "(step_one ^^ (8 * i)) s"
  let ?c = "sq_x1 ?s XOR sq_x2 ?s"
  have c: "bit ?c b = keystream s (8 * i + b)" if "b < 24" for b
    using that keystream_ahead [of b ?s] by (simp add: keystream_shift)
  have bytes: "for_loop (packed_byte src) [i..<nb] (?c, packed_bytes_done s src out i) =
      Some (drop_bit (8 * n) ?c, packed_bytes_done s src out nb)"
    unfolding n(1) for_loop_shift packed_bytes_done_def
    using c n nb2 by (intro packed_bytes) auto
  have "rem < 8" by (simp add: rem)
  then have last: "arr_at reverse_lut (unat ((drop_bit (8 * n) ?c AND (push_bit rem 1 - 1)) AND 255)) =
      Some (last_key s nb rem)"
  proof (rule last_byte)
    show "bit (drop_bit (8 * n) ?c) b = keystream s (8 * nb + b)" if "b < rem" for b
    proof -
      have "8 * n + b < 24" using n(2) that \<open>rem < 8\<close> by linarith
      then show ?thesis
        using c [of "8 * n + b"] by (simp only: bit_drop_bit_eq o_apply n(1) add_mult_distrib2 add.assoc)
    qed
  qed
  have "length (packed_bytes_done s src out nb) = length out"
    using nb2 by (simp add: packed_bytes_done_def)
  then show ?thesis
    unfolding srsran_sequence_apply_packed_def s [symmetric] Let_def u bound i(3) Option.bind.bind_lunit prod.case bytes last
    using assms(4,5) i(1) by (cases "rem = 0") (auto simp: arr_at_def arr_set_def max_def)
qed

lemma upt8: "b < 8 \<Longrightarrow> [0..<8] ! (7 - b) = 7 - b"
  by (subst nth_upt) auto

lemma bit_key_byte: "b < 8 \<Longrightarrow> bit (key_byte s k) b = keystream s (8 * k + (7 - b))"
  using upt8 [of b] by (simp add: key_byte_def bit_num_of)

lemma bit_last_key: "b < 8 \<Longrightarrow> bit (last_key s k rem) b = (7 - b < rem \<and> keystream s (8 * k + (7 - b)))"
  using upt8 [of b] by (simp add: last_key_def bit_num_of)

text \<open>C18: \<^verbatim>\<open>srsran_sequence_apply_packed\<close> on a length of at least 16 bits flips exactly the bits where the Gold
  sequence is 1, the first bit of the sequence at the most significant bit of the first byte, and leaves the bits
  of the last byte that do not belong to the buffer as they are. On a shorter length the unsigned bound of its
  first loop wraps around, and the loop leaves every buffer below 4 GB.\<close>

theorem srsran_sequence_apply_packed_bits:
  assumes "unat len \<le> 8 * length src" and "length out = length src" and "length src < 2 ^ 32 - 2"
  shows "if unat len < 16 then srsran_sequence_apply_packed src out len seed = None
         else \<exists>out'. srsran_sequence_apply_packed src out len seed = Some out' \<and> length out' = length out \<and>
                (\<forall>n < 8 * length out. bit (out' ! (n div 8)) (7 - n mod 8) \<longleftrightarrow>
                   (if n < unat len then bit (src ! (n div 8)) (7 - n mod 8) \<noteq> gold_c seed n
                    else bit ((if n div 8 = unat len div 8 \<and> unat len mod 8 \<noteq> 0 then src else out) ! (n div 8)) (7 - n mod 8)))"
proof (cases "unat len < 16")
  case True
  then show ?thesis using sequence_apply_packed_short [of len out] assms by simp
next
  case False
  define nb where "nb = unat len div 8"
  define rem where "rem = unat len mod 8"
  define s where "s = \<lparr>sq_x1 = sequence_x1_init, sq_x2 = sequence_get_x2_init seed\<rparr>"
  let ?d = "packed_bytes_done s src out nb"
  let ?o = "if rem = 0 then ?d else ?d[nb := src ! nb XOR last_key s nb rem]"
  have len: "unat len = 8 * nb + rem" "rem < 8" by (simp_all add: nb_def rem_def)
  then have fits: "nb + (if rem = 0 then 0 else 1) \<le> length src" using assms(1) by auto
  then have ok: "srsran_sequence_apply_packed src out len seed = Some ?o"
    using sequence_apply_packed [OF nb_def rem_def _ _ _ s_def] False assms(2) by (simp add: Let_def)
  have l: "length ?d = length out" using fits assms(2) by (simp add: packed_bytes_done_def)
  have d: "?d ! k = (if k < nb then src ! k XOR key_byte s k else out ! k)" if "k < length out" for k
    using that fits assms(2) by (simp add: packed_bytes_done_def nth_append)
  have "bit (?o ! (n div 8)) (7 - n mod 8) \<longleftrightarrow>
      (if n < unat len then bit (src ! (n div 8)) (7 - n mod 8) \<noteq> gold_c seed n
       else bit ((if n div 8 = nb \<and> rem \<noteq> 0 then src else out) ! (n div 8)) (7 - n mod 8))" (is ?bit)
    if n: "n < 8 * length out" for n
  proof -
    have k: "n div 8 < length out" and m: "8 * (n div 8) + n mod 8 = n" "7 - (7 - n mod 8) = n mod 8" "n mod 8 < 8"
      using n by auto
    have key: "bit (key_byte s (n div 8)) (7 - n mod 8) = gold_c seed n"
      using bit_key_byte [of "7 - n mod 8" s "n div 8"] m keystream_gold [of seed n] by (simp add: s_def)
    have last: "bit (last_key s (n div 8) rem) (7 - n mod 8) = (n mod 8 < rem \<and> gold_c seed n)"
      using bit_last_key [of "7 - n mod 8" s "n div 8" rem] m keystream_gold [of seed n] by (simp add: s_def)
    consider "n div 8 < nb" | "n div 8 = nb" | "nb < n div 8" by linarith
    then show ?bit
    proof cases
      case 1
      then have "n < 8 * nb" by linarith
      then show ?thesis using 1 k key by (simp add: d l bit_xor_iff len(1))
    next
      case 2
      then have "n < unat len \<longleftrightarrow> n mod 8 < rem" using m(1) len(1) by linarith
      then show ?thesis using 2 k last l d [of nb] by (auto simp: bit_xor_iff)
    next
      case 3
      then have "\<not> n < unat len" using m(1) len by linarith
      then show ?thesis using 3 k by (simp add: d l)
    qed
  qed
  moreover have "length ?o = length out" using l by simp
  ultimately show ?thesis using False ok unfolding nb_def rem_def by auto
qed

lemma srsran_sequence_apply_packed_bits_witness:
  "srsran_sequence_apply_packed [1, 2, 3] [1, 2, 3] 12 77 = None \<and>
   (\<exists>out'. srsran_sequence_apply_packed [1, 2, 3] [1, 2, 3] 20 77 = Some out' \<and> length out' = 3)"
proof -
  have len: "unat (12 :: u32) < 16" "\<not> unat (20 :: u32) < 16" by simp_all
  have "unat (12 :: u32) \<le> 8 * length [1, 2, 3 :: byte]" "unat (20 :: u32) \<le> 8 * length [1, 2, 3 :: byte]"
    "length [1, 2, 3 :: byte] = length [1, 2, 3 :: byte]" "length [1, 2, 3 :: byte] < 2 ^ 32 - 2" by simp_all
  note short = srsran_sequence_apply_packed_bits [OF this(1,3,4), of 77]
    and full = srsran_sequence_apply_packed_bits [OF this(2-4), of 77]
  have "srsran_sequence_apply_packed [1, 2, 3] [1, 2, 3] 12 77 = None"
    using short unfolding if_P [OF len(1)] .
  moreover obtain out' where "srsran_sequence_apply_packed [1, 2, 3] [1, 2, 3] 20 77 = Some out'"
    "length out' = length [1, 2, 3 :: byte]"
    using full unfolding if_not_P [OF len(2)] by blast
  ultimately show ?thesis by simp
qed

end
