(* ===== verification/CbSegm.thy ===== *)
theory CbSegm
  imports Prelude begin

text \<open>
  Code block segmentation (\<^verbatim>\<open>lib/src/phy/fec/cbsegm.c\<close>) for the turbo code of LTE and the LDPC code of NR:
  the table of the interleaver sizes, the number and the sizes of the code blocks, the lifting size. A division by
  zero is \<open>None\<close>; \<^verbatim>\<open>SRSRAN_ERROR\<close> is -1.
\<close>

section \<open>The code\<close>

definition tc_cb_sizes :: "u32 list" where
  "tc_cb_sizes =
    [40, 48, 56, 64, 72, 80, 88, 96, 104, 112, 120, 128, 136, 144, 152, 160, 168, 176, 184,
     192, 200, 208, 216, 224, 232, 240, 248, 256, 264, 272, 280, 288, 296, 304, 312, 320, 328, 336,
     344, 352, 360, 368, 376, 384, 392, 400, 408, 416, 424, 432, 440, 448, 456, 464, 472, 480, 488,
     496, 504, 512, 528, 544, 560, 576, 592, 608, 624, 640, 656, 672, 688, 704, 720, 736, 752, 768,
     784, 800, 816, 832, 848, 864, 880, 896, 912, 928, 944, 960, 976, 992, 1008, 1024, 1056, 1088, 1120,
     1152, 1184, 1216, 1248, 1280, 1312, 1344, 1376, 1408, 1440, 1472, 1504, 1536, 1568, 1600, 1632, 1664, 1696, 1728,
     1760, 1792, 1824, 1856, 1888, 1920, 1952, 1984, 2016, 2048, 2112, 2176, 2240, 2304, 2368, 2432, 2496, 2560, 2624,
     2688, 2752, 2816, 2880, 2944, 3008, 3072, 3136, 3200, 3264, 3328, 3392, 3456, 3520, 3584, 3648, 3712, 3776, 3840,
     3904, 3968, 4032, 4096, 4160, 4224, 4288, 4352, 4416, 4480, 4544, 4608, 4672, 4736, 4800, 4864, 4928, 4992, 5056,
     5120, 5184, 5248, 5312, 5376, 5440, 5504, 5568, 5632, 5696, 5760, 5824, 5888, 5952, 6016, 6080, 6144]"

definition SRSRAN_CEIL :: "u32 \<Rightarrow> u32 \<Rightarrow> u32" where
  "SRSRAN_CEIL num den = (num + (den - 1)) div den"

record srsran_cbsegm =
  sg_F :: u32
  sg_C :: u32
  sg_K1 :: u32
  sg_K2 :: u32
  sg_K1_idx :: u32
  sg_K2_idx :: u32
  sg_C1 :: u32
  sg_C2 :: u32
  sg_tbs :: u32
  sg_L_tb :: u32
  sg_L_cb :: u32
  sg_Z :: u32

definition cbsegm_zero :: srsran_cbsegm where
  "cbsegm_zero = \<lparr>sg_F = 0, sg_C = 0, sg_K1 = 0, sg_K2 = 0, sg_K1_idx = 0, sg_K2_idx = 0, sg_C1 = 0, sg_C2 = 0,
     sg_tbs = 0, sg_L_tb = 0, sg_L_cb = 0, sg_Z = 0\<rparr>"

definition cbsegm_cb_size :: "u32 \<Rightarrow> u32 \<Rightarrow> u32 \<times> u32" where
  "cbsegm_cb_size B Z =
     (if B \<le> Z then (1, B) else (let C = SRSRAN_CEIL B (Z - 24) in (C, B + 24 * C)))"

function cbindex_loop :: "u32 \<Rightarrow> nat \<Rightarrow> nat" where
  "cbindex_loop long_cb j =
     (if j < 188 \<and> tc_cb_sizes ! j < long_cb then cbindex_loop long_cb (j + 1) else j)"
  by auto
termination
  by (relation "measure (\<lambda>(_, j). 188 - j)") auto

declare cbindex_loop.simps [simp del]

definition srsran_cbsegm_cbindex :: "u32 \<Rightarrow> int" where
  "srsran_cbsegm_cbindex long_cb =
     (let j = cbindex_loop long_cb 0 in if j = 188 then -1 else int j)"

definition srsran_cbsegm_cbsize :: "u32 \<Rightarrow> int" where
  "srsran_cbsegm_cbsize index = (if index < 188 then uint (tc_cb_sizes ! unat index) else -1)"

definition srsran_cbsegm_cbsize_isvalid :: "u32 \<Rightarrow> bool" where
  "srsran_cbsegm_cbsize_isvalid sz = list_ex (\<lambda>i. tc_cb_sizes ! i = sz) [0..<188]"

definition srsran_cbsegm :: "srsran_cbsegm \<Rightarrow> u32 \<Rightarrow> (int \<times> srsran_cbsegm) option" where
  "srsran_cbsegm s tbs =
     (if tbs = 0 then Some (0, cbsegm_zero)
      else do {
        let B = tbs + 24;
        let s = s\<lparr>sg_tbs := tbs\<rparr>;
        let (C, Bp) = cbsegm_cb_size B 6144;
        let s = s\<lparr>sg_C := C\<rparr>;
        c_assert (sg_C s \<noteq> 0);
        let ret = srsran_cbsegm_cbindex ((Bp - 1) div sg_C s + 1);
        if ret = -1 then Some (ret, s)
        else do {
          let idx1 = (word_of_int ret :: u32);
          let ret = srsran_cbsegm_cbsize idx1;
          if ret = -1 then Some (ret, s)
          else do {
            let s = s\<lparr>sg_K1 := word_of_int ret, sg_K1_idx := idx1\<rparr>;
            let ret = (if 0 < idx1 then srsran_cbsegm_cbsize (idx1 - 1) else ret);
            if ret = -1 then Some (ret, s)
            else do {
              s \<leftarrow> (if sg_C s = 1 then Some (s\<lparr>sg_K2 := 0, sg_K2_idx := 0, sg_C2 := 0, sg_C1 := 1\<rparr>)
                   else do {
                     let s = s\<lparr>sg_K2 := word_of_int ret, sg_K2_idx := idx1 - 1\<rparr>;
                     c_assert (sg_K1 s - sg_K2 s \<noteq> 0);
                     let s = s\<lparr>sg_C2 := (sg_C s * sg_K1 s - Bp) div (sg_K1 s - sg_K2 s)\<rparr>;
                     Some (s\<lparr>sg_C1 := sg_C s - sg_C2 s\<rparr>)
                   });
              let s = s\<lparr>sg_L_tb := 24, sg_L_cb := 24\<rparr>;
              let s = s\<lparr>sg_F := sg_C1 s * sg_K1 s + sg_C2 s * sg_K2 s - Bp\<rparr>;
              Some (0, s)
            }
          }
        }
      })"

text \<open>The lifting sizes of LDPC codes: the table of \<^verbatim>\<open>lib/src/phy/fec/ldpc/base_graph.c\<close>, 255 for a size that is
  none, and \<^verbatim>\<open>get_ls_index\<close> of its header.\<close>

definition LSindex :: "byte list" where
  "LSindex =
    [255, 255, 0, 1, 0, 2, 1, 3, 0, 4, 2, 5, 1, 6, 3, 7, 0, 255, 4, 255, 2, 255, 5, 255, 1, 255, 6, 255, 3, 255, 7, 255,
     0, 255, 255, 255, 4, 255, 255, 255, 2, 255, 255, 255, 5, 255, 255, 255, 1, 255, 255, 255, 6, 255, 255, 255, 3, 255, 255, 255, 7, 255, 255, 255,
     0, 255, 255, 255, 255, 255, 255, 255, 4, 255, 255, 255, 255, 255, 255, 255, 2, 255, 255, 255, 255, 255, 255, 255, 5, 255, 255, 255, 255, 255, 255, 255,
     1, 255, 255, 255, 255, 255, 255, 255, 6, 255, 255, 255, 255, 255, 255, 255, 3, 255, 255, 255, 255, 255, 255, 255, 7, 255, 255, 255, 255, 255, 255, 255,
     0, 255, 255, 255, 255, 255, 255, 255, 255, 255, 255, 255, 255, 255, 255, 255, 4, 255, 255, 255, 255, 255, 255, 255, 255, 255, 255, 255, 255, 255, 255, 255,
     2, 255, 255, 255, 255, 255, 255, 255, 255, 255, 255, 255, 255, 255, 255, 255, 5, 255, 255, 255, 255, 255, 255, 255, 255, 255, 255, 255, 255, 255, 255, 255,
     1, 255, 255, 255, 255, 255, 255, 255, 255, 255, 255, 255, 255, 255, 255, 255, 6, 255, 255, 255, 255, 255, 255, 255, 255, 255, 255, 255, 255, 255, 255, 255,
     3, 255, 255, 255, 255, 255, 255, 255, 255, 255, 255, 255, 255, 255, 255, 255, 7, 255, 255, 255, 255, 255, 255, 255, 255, 255, 255, 255, 255, 255, 255, 255,
     0, 255, 255, 255, 255, 255, 255, 255, 255, 255, 255, 255, 255, 255, 255, 255, 255, 255, 255, 255, 255, 255, 255, 255, 255, 255, 255, 255, 255, 255, 255, 255,
     4, 255, 255, 255, 255, 255, 255, 255, 255, 255, 255, 255, 255, 255, 255, 255, 255, 255, 255, 255, 255, 255, 255, 255, 255, 255, 255, 255, 255, 255, 255, 255,
     2, 255, 255, 255, 255, 255, 255, 255, 255, 255, 255, 255, 255, 255, 255, 255, 255, 255, 255, 255, 255, 255, 255, 255, 255, 255, 255, 255, 255, 255, 255, 255,
     5, 255, 255, 255, 255, 255, 255, 255, 255, 255, 255, 255, 255, 255, 255, 255, 255, 255, 255, 255, 255, 255, 255, 255, 255, 255, 255, 255, 255, 255, 255, 255,
     1]"

datatype srsran_basegraph = BG1 | BG2

definition get_ls_index :: "u16 \<Rightarrow> byte" where
  "get_ls_index ls = (if ls \<le> 384 then LSindex ! unat ls else 255)"

text \<open>The return value, \<^verbatim>\<open>Z_c\<close> and \<^verbatim>\<open>i_ls\<close>. The counter has 16 bits.\<close>

function select_ls_loop :: "u16 \<Rightarrow> u32 \<Rightarrow> byte \<Rightarrow> int \<times> u32 \<times> byte" where
  "select_ls_loop Z Z_c i_ls =
     (if Z \<le> 384
      then (let i = get_ls_index Z
            in if i \<noteq> 255 then (0, ucast Z, i) else select_ls_loop (Z + 1) Z_c i_ls)
      else (-1, Z_c, i_ls))"
  by auto
termination
proof (relation "measure (\<lambda>(Z, _, _). 385 - unat Z)")
  fix Z :: u16
  assume "Z \<le> 384"
  then show "((Z + 1, Z_c, i_ls), Z, Z_c, i_ls) \<in> measure (\<lambda>(Z, _, _). 385 - unat Z)" for Z_c :: u32 and i_ls :: byte
    by (simp add: word_le_nat_alt unat_word_ariths)
qed auto

declare select_ls_loop.simps [simp del]

definition cbsegm_ldpc_select_ls :: "u32 \<Rightarrow> u32 \<Rightarrow> u32 \<Rightarrow> byte \<Rightarrow> int \<times> u32 \<times> byte" where
  "cbsegm_ldpc_select_ls Kp K_b Z_c i_ls =
     (if 384 < SRSRAN_CEIL Kp K_b then (-1, Z_c, i_ls)
      else select_ls_loop (ucast (SRSRAN_CEIL Kp K_b)) Z_c i_ls)"

definition srsran_cbsegm_ldpc_L :: "u32 \<Rightarrow> u32" where
  "srsran_cbsegm_ldpc_L tbs = (if tbs \<le> 3824 then 16 else 24)"

text \<open>A null pointer for the result is \<open>None\<close> in the argument; \<^verbatim>\<open>SRSRAN_ERROR_INVALID_INPUTS\<close> is -2.\<close>

definition srsran_cbsegm_ldpc ::
    "srsran_cbsegm option \<Rightarrow> srsran_basegraph \<Rightarrow> u32 \<Rightarrow> (int \<times> srsran_cbsegm option) option" where
  "srsran_cbsegm_ldpc sp bg tbs =
     (case sp of None \<Rightarrow> Some (-2, None)
      | Some s \<Rightarrow>
        if tbs = 0 then Some (0, Some cbsegm_zero)
        else do {
          let L = srsran_cbsegm_ldpc_L tbs;
          let K_cb = (if bg = BG1 then 8448 else 3840);
          let B = tbs + L;
          let (C, Bp) = cbsegm_cb_size B K_cb;
          c_assert (C \<noteq> 0);
          let Kp = Bp div C;
          let K_b = (if bg = BG2
                     then (if 640 < B then 10 else if 560 < B then 9 else if 192 < B then 8 else 6)
                     else 22);
          let (ret, Z_c, i_ls) = cbsegm_ldpc_select_ls Kp K_b 0 0;
          if ret < 0 then Some (-1, Some s)
          else do {
            let K = Z_c * (if bg = BG1 then 22 else 10);
            Some (0, Some (s\<lparr>sg_tbs := tbs, sg_L_tb := L, sg_L_cb := (if 1 < C then 24 else 0), sg_C := C,
              sg_F := K * C, sg_C1 := C, sg_K1 := K, sg_K1_idx := ucast i_ls, sg_Z := Z_c,
              sg_C2 := 0, sg_K2 := 0, sg_K2_idx := 0\<rparr>))
          }
        })"

definition srsran_cbsegm_ldpc_bg1 :: "srsran_cbsegm option \<Rightarrow> u32 \<Rightarrow> (int \<times> srsran_cbsegm option) option" where
  "srsran_cbsegm_ldpc_bg1 s tbs = srsran_cbsegm_ldpc s BG1 tbs"

definition srsran_cbsegm_ldpc_bg2 :: "srsran_cbsegm option \<Rightarrow> u32 \<Rightarrow> (int \<times> srsran_cbsegm option) option" where
  "srsran_cbsegm_ldpc_bg2 s tbs = srsran_cbsegm_ldpc s BG2 tbs"

section \<open>The table of sizes\<close>

lemma tc_cb_sizes_sorted: "sorted_wrt (<) tc_cb_sizes"
  unfolding tc_cb_sizes_def by (simp add: sorted_wrt1 sorted_wrt2 [OF transp_on_less] del: sorted_wrt.simps(2))

lemma tc_cb_sizes_facts: "length tc_cb_sizes = 188" "tc_cb_sizes ! 0 = 40" "tc_cb_sizes ! 187 = 6144"
  unfolding tc_cb_sizes_def by simp_all

lemma cbindex_loop:
  assumes "j \<le> 188"
  shows "j \<le> cbindex_loop l j \<and> cbindex_loop l j \<le> 188 \<and>
    (\<forall>k. j \<le> k \<and> k < cbindex_loop l j \<longrightarrow> tc_cb_sizes ! k < l) \<and>
    (cbindex_loop l j < 188 \<longrightarrow> l \<le> tc_cb_sizes ! cbindex_loop l j)"
  using assms
proof (induction l j rule: cbindex_loop.induct)
  case (1 l j)
  show ?case
  proof (cases "j < 188 \<and> tc_cb_sizes ! j < l")
    case True
    then have e: "cbindex_loop l j = cbindex_loop l (j + 1)" by (simp add: cbindex_loop.simps [of l j])
    have IH: "j + 1 \<le> cbindex_loop l (j + 1)" "cbindex_loop l (j + 1) \<le> 188"
      "\<forall>k. j + 1 \<le> k \<and> k < cbindex_loop l (j + 1) \<longrightarrow> tc_cb_sizes ! k < l"
      "cbindex_loop l (j + 1) < 188 \<longrightarrow> l \<le> tc_cb_sizes ! cbindex_loop l (j + 1)"
      using 1(1) True by auto
    have "tc_cb_sizes ! k < l" if "j \<le> k" "k < cbindex_loop l (j + 1)" for k
      using that IH(3) True by (cases "k = j") auto
    then show ?thesis using e IH by auto
  next
    case False
    then show ?thesis using 1(2) by (auto simp: cbindex_loop.simps [of l j])
  qed
qed

text \<open>The index is that of the least size that holds the block.\<close>

lemma cbindex_least:
  assumes "unat l \<le> 6144"
  obtains j where "j < 188" "srsran_cbsegm_cbindex l = int j" "unat l \<le> unat (tc_cb_sizes ! j)"
    "\<And>k. k < j \<Longrightarrow> unat (tc_cb_sizes ! k) < unat l"
proof -
  let ?j = "cbindex_loop l 0"
  have c: "?j \<le> 188" "\<And>k. k < ?j \<Longrightarrow> tc_cb_sizes ! k < l" "?j < 188 \<Longrightarrow> l \<le> tc_cb_sizes ! ?j"
    using cbindex_loop [of 0 l] by auto
  have "?j \<noteq> 188"
  proof
    assume "?j = 188"
    then have "(6144 :: u32) < l" using c(2) [of 187] by (simp add: tc_cb_sizes_facts)
    then show False using assms by (simp add: word_less_nat_alt)
  qed
  then show ?thesis
    using c by (intro that [of ?j]) (auto simp: srsran_cbsegm_cbindex_def word_le_nat_alt word_less_nat_alt)
qed

lemma cbsize: "j < 188 \<Longrightarrow> srsran_cbsegm_cbsize (word_of_nat j) = int (unat (tc_cb_sizes ! j))"
proof -
  assume j: "j < 188"
  then have u: "unat (word_of_nat j :: u32) = j" by (simp add: unat_of_nat)
  then have "(word_of_nat j :: u32) < 188" using j by (simp add: word_less_nat_alt)
  then show ?thesis by (simp add: srsran_cbsegm_cbsize_def u)
qed

lemma tc_cb_sizes_mono: "i < j \<Longrightarrow> j < 188 \<Longrightarrow> unat (tc_cb_sizes ! i) < unat (tc_cb_sizes ! j)"
  using sorted_wrt_nth_less [OF tc_cb_sizes_sorted, of i j] by (simp add: tc_cb_sizes_facts word_less_nat_alt)

lemma tc_cb_sizes_range: "j < 188 \<Longrightarrow> 40 \<le> unat (tc_cb_sizes ! j) \<and> unat (tc_cb_sizes ! j) \<le> 6144"
  using tc_cb_sizes_mono [of 0 j] tc_cb_sizes_mono [of j 187] tc_cb_sizes_facts
  by (cases "j = 0"; cases "j = 187") auto

text \<open>The number of code blocks and their total size.\<close>

lemma cb_size:
  assumes B: "unat B \<le> 2 ^ 31 + 24" and Z: "3840 \<le> unat Z" "unat Z \<le> 8448"
    and e: "cbsegm_cb_size B Z = (C, Bp)" and "0 < unat B"
  shows "unat C = (if unat B \<le> unat Z then 1 else (unat B + (unat Z - 25)) div (unat Z - 24))"
    "unat Bp = unat B + (if unat B \<le> unat Z then 0 else 24 * unat C)"
    "unat B \<le> unat C * (unat Z - 24) + (if unat B \<le> unat Z then 24 else 0)"
    "unat C * (unat Z - 24) < unat B + (unat Z - 24)" "0 < unat C"
proof -
  let ?m = "unat Z - 24"
  have "unat C = (if unat B \<le> unat Z then 1 else (unat B + (unat Z - 25)) div ?m) \<and>
    unat Bp = unat B + (if unat B \<le> unat Z then 0 else 24 * unat C)"
  proof (cases "unat B \<le> unat Z")
    case True
    then show ?thesis using e by (auto simp: cbsegm_cb_size_def word_le_nat_alt)
  next
    case False
    then have C: "C = SRSRAN_CEIL B (Z - 24)" and Bp: "Bp = B + 24 * C"
      using e by (auto simp: cbsegm_cb_size_def Let_def word_le_nat_alt)
    have "(24 :: u32) \<le> Z" using Z by (simp add: word_le_nat_alt)
    then have z: "unat (Z - 24) = ?m" by (simp add: unat_sub)
    have "(1 :: u32) \<le> Z - 24" using Z z by (simp add: word_le_nat_alt)
    then have "unat (Z - 24 - 1) = unat Z - 25" using z by (simp only: unat_sub) simp
    then have "unat (B + (Z - 24 - 1)) = unat B + (unat Z - 25)"
      using B Z by (simp add: unat_word_ariths)
    then have c: "unat C = (unat B + (unat Z - 25)) div ?m"
      by (simp only: C SRSRAN_CEIL_def unat_div z)
    have "unat C * 3816 \<le> unat C * ?m" using Z by (intro mult_le_mono) auto
    also have "\<dots> \<le> unat B + (unat Z - 25)" unfolding c by (rule div_times_less_eq_dividend)
    finally have "24 * unat C < 2 ^ 31 - 2 ^ 15" using B Z by simp
    then have "unat Bp = unat B + 24 * unat C" using B by (simp add: Bp unat_word_ariths)
    then show ?thesis using False c by simp
  qed
  then show C: "unat C = (if unat B \<le> unat Z then 1 else (unat B + (unat Z - 25)) div ?m)"
    and "unat Bp = unat B + (if unat B \<le> unat Z then 0 else 24 * unat C)" by auto
  have m: "unat B + (unat Z - 25) = (unat B - 1) + ?m" using \<open>0 < unat B\<close> Z by simp
  have d: "(unat B + (unat Z - 25)) div ?m = (unat B - 1) div ?m + 1"
    unfolding m by (rule div_add_self2) (use Z in simp)
  have "(unat B - 1) mod ?m < ?m" using Z by simp
  then have "unat B \<le> ((unat B - 1) div ?m + 1) * ?m"
    using div_mult_mod_eq [of "unat B - 1" ?m] Z unfolding add_mult_distrib by linarith
  then show "unat B \<le> unat C * ?m + (if unat B \<le> unat Z then 24 else 0)" using C d by auto
  have "(unat B - 1) div ?m * ?m \<le> unat B - 1" by (rule div_times_less_eq_dividend)
  then have "((unat B - 1) div ?m + 1) * ?m < unat B + ?m" using \<open>0 < unat B\<close> unfolding add_mult_distrib by linarith
  then show "unat C * ?m < unat B + ?m" using C d \<open>0 < unat B\<close> by auto
  show "0 < unat C" using C d by (auto split: if_splits)
qed

section \<open>Segmentation for the turbo code\<close>

lemma srsran_cbsegm_eval:
  assumes e: "cbsegm_cb_size (tbs + 24) 6144 = (C, Bp)" and "tbs \<noteq> 0" "C \<noteq> 0" and j: "j < 188"
    and i: "srsran_cbsegm_cbindex ((Bp - 1) div C + 1) = int j" and j0: "C \<noteq> 1 \<Longrightarrow> 0 < j"
  shows "srsran_cbsegm s tbs = Some (0,
       let K1 = tc_cb_sizes ! j; K2 = (if C = 1 then 0 else tc_cb_sizes ! (j - 1));
           C2 = (if C = 1 then 0 else (C * K1 - Bp) div (K1 - K2));
           C1 = C - C2
       in s\<lparr>sg_tbs := tbs, sg_C := C, sg_K1 := K1, sg_K1_idx := word_of_nat j, sg_K2 := K2,
            sg_K2_idx := (if C = 1 then 0 else word_of_nat j - 1), sg_C2 := C2, sg_C1 := C1,
            sg_L_tb := 24, sg_L_cb := 24, sg_F := C1 * K1 + C2 * K2 - Bp\<rparr>)"
proof -
  have u: "unat (word_of_nat j :: u32) = j" using j by (simp add: unat_of_nat)
  have gt: "0 < (word_of_nat j :: u32) \<longleftrightarrow> 0 < j" using u by (simp add: word_less_nat_alt)
  have pred: "(word_of_nat j :: u32) - 1 = word_of_nat (j - 1)" if "0 < j" using that by (simp add: of_nat_diff)
  have K: "tc_cb_sizes ! j - tc_cb_sizes ! (j - 1) \<noteq> 0" if "0 < j"
    using tc_cb_sizes_mono [of "j - 1" j] j that by auto
  have w: "word_of_int (int (unat x)) = x" for x :: u32 by simp
  have w'': "word_of_nat (unat x) = x" for x :: u32 by simp
  have w': "word_of_int (int k) = (word_of_nat k :: u32)" for k by simp
  have pos: "int k \<noteq> -1" for k by simp
  have size: "srsran_cbsegm_cbsize (word_of_nat j) = int (unat (tc_cb_sizes ! j))" using j by (rule cbsize)
  have size': "(if 0 < j then srsran_cbsegm_cbsize ((word_of_nat j :: u32) - 1) else int (unat (tc_cb_sizes ! j))) =
      int (unat (if 0 < j then tc_cb_sizes ! (j - 1) else tc_cb_sizes ! j))"
  proof (cases "0 < j")
    case True
    have "j - 1 < 188" using j by simp
    then show ?thesis using True by (simp only: pred if_True cbsize)
  qed simp
  note run = srsran_cbsegm.simps c_assert_bind if_True assms(2,3) i pos size size' gt if_False w w'
    not_False_eq_True Option.bind.bind_lunit not_True_eq_False
  show ?thesis
  proof (cases "C = 1")
    case True
    with i have i: "srsran_cbsegm_cbindex ((Bp - 1) div 1 + 1) = int j" by simp
    show ?thesis
      unfolding srsran_cbsegm_def e Let_def prod.case if_not_P [OF \<open>tbs \<noteq> 0\<close>] True
      by (cases s) (simp only: run i one_neq_zero, simp)
  next
    case False
    then have p: "0 < j" "tc_cb_sizes ! j - tc_cb_sizes ! (j - 1) \<noteq> 0" using j0 K by blast+
    have "srsran_cbsegm_cbsize (word_of_nat j - 1) = int (unat (tc_cb_sizes ! (j - 1)))"
      using size' p(1) by (simp only: if_True)
    with p show ?thesis
      unfolding srsran_cbsegm_def e Let_def prod.case if_not_P [OF \<open>tbs \<noteq> 0\<close>]
      by (cases s) (simp only: run False w'')
  qed
qed

text \<open>For a transport block of up to \<open>2 ^ 31\<close> bits no error path is taken; the sizes as natural numbers.\<close>

lemma srsran_cbsegm_sizes:
  assumes tbs: "0 < unat tbs" "unat tbs \<le> 2 ^ 31"
  obtains C Bp j where "cbsegm_cb_size (tbs + 24) 6144 = (C, Bp)" "C \<noteq> 0" "j < 188"
    "srsran_cbsegm_cbindex ((Bp - 1) div C + 1) = int j"
    "unat Bp \<le> unat C * unat (tc_cb_sizes ! j)" "\<And>k. k < j \<Longrightarrow> unat C * unat (tc_cb_sizes ! k) < unat Bp"
    "unat C * 6144 < 2 ^ 32" "C \<noteq> 1 \<Longrightarrow> 0 < j"
    "unat Bp = unat tbs + 24 + (if unat C = 1 then 0 else 24 * unat C)"
    "unat C = 1 \<longleftrightarrow> unat tbs + 24 \<le> 6144"
    "1 < unat C \<Longrightarrow> (unat C - 1) * 6120 < unat tbs + 24 \<and> unat tbs + 24 \<le> unat C * 6120"
proof -
  obtain C Bp where e: "cbsegm_cb_size (tbs + 24) 6144 = (C, Bp)" by fastforce
  have B: "unat (tbs + 24) = unat tbs + 24" using tbs by (simp add: unat_word_ariths)
  have u6144: "unat (6144 :: u32) = 6144" by simp
  have "unat tbs + 24 \<le> 2 ^ 31 + 24" "(3840 :: nat) \<le> 6144" "(6144 :: nat) \<le> 8448" "0 < unat tbs + 24"
    using tbs by simp_all
  note cb = cb_size [of "tbs + 24" 6144 C Bp, unfolded B u6144, OF this(1-3) e this(4), simplified]
  let ?n = "(unat Bp - 1) div unat C + 1"
  have one: "unat C = 1 \<longleftrightarrow> unat tbs + 24 \<le> 6144" using cb(1,3) by (auto split: if_splits)
  have Bp: "0 < unat Bp" "unat Bp \<le> unat C * 6144" using cb tbs by (auto split: if_splits)
  have C: "0 < unat C" "C \<noteq> 0" using cb by (auto simp: unat_gt_0)
  have le_n: "unat Bp \<le> unat C * m \<longleftrightarrow> ?n \<le> m" for m
  proof -
    have "unat Bp \<le> unat C * m \<longleftrightarrow> unat Bp - 1 < m * unat C" using Bp(1) by (auto simp: mult.commute)
    then show ?thesis using div_less_iff_less_mult [OF C(1), of "unat Bp - 1" m] by auto
  qed
  have small: "?n \<le> 6144" using le_n [of 6144] Bp(2) by simp
  have q: "unat ((Bp - 1) div C + 1) = ?n"
  proof -
    have "Bp \<noteq> 0" using Bp(1) by (simp add: unat_gt_0)
    then have "unat (Bp - 1) = unat Bp - 1" by (rule unat_minus_one)
    then have "unat ((Bp - 1) div C) = (unat Bp - 1) div unat C" by (simp only: unat_div)
    then show ?thesis using small by (simp add: unat_word_ariths)
  qed
  have small': "unat ((Bp - 1) div C + 1) \<le> 6144" using small by (simp only: q)
  obtain j where j: "j < 188" "srsran_cbsegm_cbindex ((Bp - 1) div C + 1) = int j"
    "?n \<le> unat (tc_cb_sizes ! j)" "\<And>k. k < j \<Longrightarrow> unat (tc_cb_sizes ! k) < ?n"
    by (rule cbindex_least [OF small']) (auto simp only: q)
  have j0: "0 < j" if "C \<noteq> 1"
  proof -
    have "unat C \<noteq> 1" using that by (metis unat_1 word_unat_eq_iff)
    then have "unat C * 40 < unat Bp" using cb one by auto
    then have "\<not> ?n \<le> 40" using le_n [of 40] by simp
    then show ?thesis using j(3) tc_cb_sizes_facts(2) by (cases "j = 0") auto
  qed
  show ?thesis
  proof (rule that [OF e C(2) j(1,2)])
    show "unat Bp \<le> unat C * unat (tc_cb_sizes ! j)" using le_n j(3) by blast
    show "unat C * unat (tc_cb_sizes ! k) < unat Bp" if "k < j" for k
      using le_n [of "unat (tc_cb_sizes ! k)"] j(4) [OF that] by linarith
    show "unat C * 6144 < 2 ^ 32" using cb(4) tbs by simp
    show "unat Bp = unat tbs + 24 + (if unat C = 1 then 0 else 24 * unat C)" using cb(2) one by simp
    show "(unat C - 1) * 6120 < unat tbs + 24 \<and> unat tbs + 24 \<le> unat C * 6120" if "1 < unat C"
      using cb(3,4) one that by (auto simp: diff_mult_distrib)
  qed (use j0 one in auto)
qed

lemma partition_words:
  fixes C K1 K2 Bp :: u32
  assumes K: "unat K2 < unat K1" and c: "unat C * unat K1 < 2 ^ 32"
    and b: "unat C * unat K2 < unat Bp" "unat Bp \<le> unat C * unat K1"
  defines "C2 \<equiv> (C * K1 - Bp) div (K1 - K2)"
  shows "unat (C - C2) + unat C2 = unat C" "0 < unat (C - C2)"
    "unat (C - C2) * unat K1 + unat C2 * unat K2 = unat Bp + unat ((C - C2) * K1 + C2 * K2 - Bp)"
    "unat ((C - C2) * K1 + C2 * K2 - Bp) < unat K1 - unat K2"
proof -
  let ?d = "unat K1 - unat K2"
  have ck: "unat (C * K1) = unat C * unat K1" using c by (simp add: unat_word_ariths)
  have n: "unat (C * K1 - Bp) = unat C * unat K1 - unat Bp"
    using b(2) ck by (simp add: unat_sub word_le_nat_alt)
  have d: "unat (K1 - K2) = ?d" using K by (simp add: unat_sub word_le_nat_alt)
  have c2: "unat C2 = (unat C * unat K1 - unat Bp) div ?d" by (simp only: C2_def unat_div n d)
  have Cd: "unat C * unat K1 = unat C * unat K2 + unat C * ?d"
    using K by (simp add: add_mult_distrib2 [symmetric])
  have "unat C * unat K1 - unat Bp < unat C * ?d" using b Cd by linarith
  then have lt: "unat C2 < unat C" unfolding c2 using K by (simp add: div_less_iff_less_mult)
  have c1: "unat (C - C2) = unat C - unat C2" using lt by (simp add: unat_sub word_le_nat_alt)
  show "unat (C - C2) + unat C2 = unat C" "0 < unat (C - C2)" using lt c1 by simp_all
  have "unat C * unat K1 = unat (C - C2) * unat K1 + unat C2 * unat K1"
    using lt c1 by (simp add: add_mult_distrib [symmetric])
  also have "unat C2 * unat K1 = unat C2 * unat K2 + unat C2 * ?d"
    using K by (simp add: add_mult_distrib2 [symmetric])
  finally have sum: "unat C * unat K1 = (unat (C - C2) * unat K1 + unat C2 * unat K2) + unat C2 * ?d" by simp
  have dm: "unat C2 * ?d + (unat C * unat K1 - unat Bp) mod ?d = unat C * unat K1 - unat Bp"
    unfolding c2 by (rule div_mult_mod_eq)
  have m: "(unat C * unat K1 - unat Bp) mod ?d < ?d" using K by simp
  have ge: "unat Bp \<le> unat (C - C2) * unat K1 + unat C2 * unat K2"
    using sum dm b(2) by linarith
  have le: "unat (C - C2) * unat K1 + unat C2 * unat K2 < 2 ^ 32" using sum c by linarith
  then have "unat ((C - C2) * K1) = unat (C - C2) * unat K1" "unat (C2 * K2) = unat C2 * unat K2"
    by (simp_all add: unat_word_ariths)
  then have "unat ((C - C2) * K1 + C2 * K2) = unat (C - C2) * unat K1 + unat C2 * unat K2"
    using le by (simp only: unat_word_ariths) simp
  then have F: "unat ((C - C2) * K1 + C2 * K2 - Bp) = unat (C - C2) * unat K1 + unat C2 * unat K2 - unat Bp"
    using ge by (simp add: unat_sub word_le_nat_alt)
  then show "unat (C - C2) * unat K1 + unat C2 * unat K2 = unat Bp + unat ((C - C2) * K1 + C2 * K2 - Bp)"
    using ge by simp
  show "unat ((C - C2) * K1 + C2 * K2 - Bp) < ?d"
    unfolding F using sum dm m b(2) by linarith
qed

text \<open>C21: \<^verbatim>\<open>srsran_cbsegm\<close> succeeds on every transport block of up to \<open>2 ^ 31\<close> bits, without overflow: the code blocks
  hold the transport block, its CRC, a CRC for each block when there are several, and the filler bits \<open>F\<close>; their number is
  the least for which blocks of 6144 bits do; the sizes are \<open>K1\<close> and its predecessor \<open>K2\<close> in the table, and there are fewer
  filler bits than a step of the table.\<close>

theorem srsran_cbsegm_partition:
  assumes tbs: "0 < unat tbs" "unat tbs \<le> 2 ^ 31"
  shows "\<exists>s'. srsran_cbsegm s tbs = Some (0, s') \<and> sg_tbs s' = tbs \<and>
    unat (sg_C1 s') + unat (sg_C2 s') = unat (sg_C s') \<and>
    unat (sg_C1 s') * unat (sg_K1 s') + unat (sg_C2 s') * unat (sg_K2 s') =
      unat tbs + 24 + (if unat (sg_C s') = 1 then 0 else 24 * unat (sg_C s')) + unat (sg_F s') \<and>
    (unat (sg_C s') = 1 \<longleftrightarrow> unat tbs + 24 \<le> 6144) \<and>
    (1 < unat (sg_C s') \<longrightarrow> (unat (sg_C s') - 1) * 6120 < unat tbs + 24 \<and> unat tbs + 24 \<le> unat (sg_C s') * 6120) \<and>
    (\<exists>j < 188. sg_K1 s' = tc_cb_sizes ! j \<and> unat (sg_K1_idx s') = j \<and>
       (sg_C s' = 1 \<longrightarrow> sg_K2 s' = 0 \<and> (\<forall>k < j. unat (tc_cb_sizes ! k) < unat tbs + 24)) \<and>
       (sg_C s' \<noteq> 1 \<longrightarrow> 0 < j \<and> sg_K2 s' = tc_cb_sizes ! (j - 1) \<and> unat (sg_K2_idx s') = j - 1 \<and>
          0 < unat (sg_C1 s') \<and> unat (sg_F s') < unat (sg_K1 s') - unat (sg_K2 s')))"
proof -
  obtain C Bp j where e: "cbsegm_cb_size (tbs + 24) 6144 = (C, Bp)" "C \<noteq> 0" and j: "j < 188"
    "srsran_cbsegm_cbindex ((Bp - 1) div C + 1) = int j"
    and Bp: "unat Bp \<le> unat C * unat (tc_cb_sizes ! j)" "\<And>k. k < j \<Longrightarrow> unat C * unat (tc_cb_sizes ! k) < unat Bp"
    and C: "unat C * 6144 < 2 ^ 32" "C \<noteq> 1 \<Longrightarrow> 0 < j"
    and sizes: "unat Bp = unat tbs + 24 + (if unat C = 1 then 0 else 24 * unat C)"
    "unat C = 1 \<longleftrightarrow> unat tbs + 24 \<le> 6144"
    "1 < unat C \<Longrightarrow> (unat C - 1) * 6120 < unat tbs + 24 \<and> unat tbs + 24 \<le> unat C * 6120"
    by (rule srsran_cbsegm_sizes [OF tbs]) (rule that, assumption+)
  have "tbs \<noteq> 0" using tbs(1) by (auto simp: unat_gt_0)
  then obtain s' where run: "srsran_cbsegm s tbs = Some (0, s')"
    and sel: "sg_tbs s' = tbs" "sg_C s' = C" "sg_K1 s' = tc_cb_sizes ! j" "sg_K1_idx s' = word_of_nat j"
    "sg_K2 s' = (if C = 1 then 0 else tc_cb_sizes ! (j - 1))"
    "sg_K2_idx s' = (if C = 1 then 0 else word_of_nat j - 1)"
    and C2: "sg_C2 s' = (if C = 1 then 0 else (C * sg_K1 s' - Bp) div (sg_K1 s' - sg_K2 s'))"
    and C1: "sg_C1 s' = C - sg_C2 s'" "sg_F s' = sg_C1 s' * sg_K1 s' + sg_C2 s' * sg_K2 s' - Bp"
    using srsran_cbsegm_eval [OF e(1) _ e(2) j C(2), of s] by (simp add: Let_def)
  have idx: "unat (word_of_nat j :: u32) = j" using j by (simp add: unat_of_nat)
  show ?thesis
  proof (cases "C = 1")
    case True
    have Bp1: "unat Bp \<le> unat (tc_cb_sizes ! j)" "\<And>k. k < j \<Longrightarrow> unat (tc_cb_sizes ! k) < unat tbs + 24"
      "unat Bp = unat tbs + 24" "unat tbs + 24 \<le> 6144"
      using Bp sizes True by auto
    have F: "unat (tc_cb_sizes ! j) = unat Bp + unat (tc_cb_sizes ! j - Bp)"
      using Bp1(1) by (simp add: unat_sub word_le_nat_alt)
    show ?thesis
      by (rule exI [of _ s'], intro conjI exI [of _ j] run sel(1))
        (use True j(1) idx Bp1 F sel C2 C1 in simp_all)
  next
    case False
    then have n1: "unat C \<noteq> 1" by (metis unat_1 word_unat_eq_iff)
    have "unat C \<noteq> 0" using e(2) by (simp add: unat_eq_zero)
    then have Cg1: "1 < unat C" using n1 by linarith
    have j0: "0 < j" using C(2) False by simp
    then have K: "unat (tc_cb_sizes ! (j - 1)) < unat (tc_cb_sizes ! j)" using tc_cb_sizes_mono [of "j - 1" j] j(1) by simp
    have "unat C * unat (tc_cb_sizes ! j) \<le> unat C * 6144" using tc_cb_sizes_range [OF j(1)] by simp
    then have c: "unat C * unat (tc_cb_sizes ! j) < 2 ^ 32" using C(1) by linarith
    have "unat C * unat (tc_cb_sizes ! (j - 1)) < unat Bp" using Bp(2) j0 by simp
    note part = partition_words [OF K c this Bp(1)]
    have idx': "unat ((word_of_nat j :: u32) - 1) = j - 1"
      using j0 idx by (subst unat_minus_one) (auto simp: unat_gt_0)
    have part: "unat (sg_C1 s') + unat (sg_C2 s') = unat C" "0 < unat (sg_C1 s')"
      "unat (sg_C1 s') * unat (sg_K1 s') + unat (sg_C2 s') * unat (sg_K2 s') = unat Bp + unat (sg_F s')"
      "unat (sg_F s') < unat (sg_K1 s') - unat (sg_K2 s')"
      using part False unfolding C1 C2 sel by simp_all
    show ?thesis
      by (rule exI [of _ s'], intro conjI exI [of _ j] run sel(1))
        (use False j(1) j0 idx idx' n1 sizes(1,2) sizes(3) [OF Cg1] part sel in simp_all)
  qed
qed

theorem srsran_cbsegm_partition_witness:
  "\<exists>s'. srsran_cbsegm cbsegm_zero 6200 = Some (0, s') \<and> unat (sg_C1 s') + unat (sg_C2 s') = 2 \<and>
     unat (sg_C1 s') * unat (sg_K1 s') + unat (sg_C2 s') * unat (sg_K2 s') = 6272 + unat (sg_F s')"
proof -
  obtain s' where s: "srsran_cbsegm cbsegm_zero 6200 = Some (0, s')"
    "unat (sg_C1 s') + unat (sg_C2 s') = unat (sg_C s')"
    "unat (sg_C1 s') * unat (sg_K1 s') + unat (sg_C2 s') * unat (sg_K2 s') =
      6224 + (if unat (sg_C s') = 1 then 0 else 24 * unat (sg_C s')) + unat (sg_F s')"
    "unat (sg_C s') \<noteq> 1" "1 < unat (sg_C s') \<longrightarrow> (unat (sg_C s') - 1) * 6120 < 6224"
    "0 < unat (sg_C1 s')"
    using srsran_cbsegm_partition [of 6200 cbsegm_zero] by auto
  then have "unat (sg_C s') = 2" by linarith
  then show ?thesis using s by auto
qed

section \<open>Segmentation for LDPC codes\<close>

lemma LSindex_facts: "length LSindex = 385" "LSindex ! 384 = 1"
  unfolding LSindex_def by simp_all

text \<open>The loop finds the least lifting size from its start.\<close>

lemma select_ls_loop:
  assumes "unat Z \<le> 384"
  shows "\<exists>z. unat Z \<le> z \<and> z \<le> 384 \<and> LSindex ! z \<noteq> 255 \<and> (\<forall>k. unat Z \<le> k \<and> k < z \<longrightarrow> LSindex ! k = 255) \<and>
           select_ls_loop Z Z_c i_ls = (0, word_of_nat z, LSindex ! z)"
  using assms
proof (induction "384 - unat Z" arbitrary: Z)
  case 0
  then have z: "unat Z = 384" by simp
  then have "Z \<le> 384" by (simp add: word_le_nat_alt)
  then show ?case
    using z LSindex_facts
    by (intro exI [of _ 384]) (auto simp: select_ls_loop.simps get_ls_index_def word_unat_eq_iff unat_ucast_up)
next
  case (Suc d)
  then have lt: "unat Z < 384" and le: "Z \<le> 384" by (simp_all add: word_le_nat_alt)
  show ?case
  proof (cases "LSindex ! unat Z = 255")
    case False
    have "(ucast Z :: u32) = word_of_nat (unat Z)" by simp
    then show ?thesis
      using False lt le by (intro exI [of _ "unat Z"]) (auto simp: select_ls_loop.simps get_ls_index_def)
  next
    case True
    have u: "unat (Z + 1) = unat Z + 1" using lt by (simp add: unat_word_ariths)
    then have d: "d = 384 - unat (Z + 1)" "unat (Z + 1) \<le> 384" using Suc.hyps(2) lt by simp_all
    obtain z where z: "unat Z + 1 \<le> z" "z \<le> 384" "LSindex ! z \<noteq> 255"
      "\<forall>k. unat Z + 1 \<le> k \<and> k < z \<longrightarrow> LSindex ! k = 255"
      "select_ls_loop (Z + 1) Z_c i_ls = (0, word_of_nat z, LSindex ! z)"
      using Suc.hyps(1) [OF d] unfolding u by blast
    have "LSindex ! k = 255" if "unat Z \<le> k" "k < z" for k
      using that z(4) True by (cases "k = unat Z") auto
    then show ?thesis
      using z True le by (intro exI [of _ z]) (auto simp: select_ls_loop.simps [of Z] get_ls_index_def)
  qed
qed

lemma select_ls:
  assumes "0 < unat K_b" "unat K_b \<le> 22" "unat Kp \<le> 384 * unat K_b"
  shows "\<exists>z. unat Kp \<le> z * unat K_b \<and> z \<le> 384 \<and> LSindex ! z \<noteq> 255 \<and>
           (\<forall>k < z. LSindex ! k \<noteq> 255 \<longrightarrow> k * unat K_b < unat Kp) \<and>
           cbsegm_ldpc_select_ls Kp K_b Z_c i_ls = (0, word_of_nat z, LSindex ! z)"
proof -
  let ?b = "unat K_b"
  let ?c = "(unat Kp + (?b - 1)) div ?b"
  have "K_b \<noteq> 0" using assms(1) by (simp add: unat_gt_0)
  then have "unat (K_b - 1) = ?b - 1" by (rule unat_minus_one)
  moreover have "unat Kp + (?b - 1) < 2 ^ 32"
  proof -
    have "unat Kp + (unat K_b - 1) \<le> 384 * 22 + 22" using assms(2,3) by linarith
    then show ?thesis by simp
  qed
  ultimately have "unat (Kp + (K_b - 1)) = unat Kp + (?b - 1)" by (simp add: unat_word_ariths)
  then have c: "unat (SRSRAN_CEIL Kp K_b) = ?c" by (simp only: SRSRAN_CEIL_def unat_div)
  have le_c: "?c \<le> k \<longleftrightarrow> unat Kp \<le> k * ?b" for k
  proof -
    have "?c \<le> k \<longleftrightarrow> unat Kp + (?b - 1) < (k + 1) * ?b"
      using div_less_iff_less_mult [OF assms(1), of "unat Kp + (?b - 1)" "k + 1"] by auto
    then show ?thesis using assms(1) by auto
  qed
  have small: "?c \<le> 384" using assms(3) le_c [of 384] by simp
  have u: "unat (ucast (SRSRAN_CEIL Kp K_b) :: u16) = ?c"
    using small c by (simp add: unsigned_ucast_eq take_bit_nat_eq_self)
  obtain z where z: "?c \<le> z" "z \<le> 384" "LSindex ! z \<noteq> 255" "\<forall>k. ?c \<le> k \<and> k < z \<longrightarrow> LSindex ! k = 255"
    "select_ls_loop (ucast (SRSRAN_CEIL Kp K_b)) Z_c i_ls = (0, word_of_nat z, LSindex ! z)"
    using select_ls_loop [of "ucast (SRSRAN_CEIL Kp K_b)" Z_c i_ls] small unfolding u by auto
  moreover have "\<not> (384 :: u32) < SRSRAN_CEIL Kp K_b" using small c by (simp add: word_less_nat_alt)
  moreover have "k * ?b < unat Kp" if "k < z" "LSindex ! k \<noteq> 255" for k
  proof -
    have "\<not> ?c \<le> k" using z(4) that by blast
    then show ?thesis using le_c [of k] by simp
  qed
  ultimately show ?thesis using le_c [of z] by (intro exI [of _ z]) (auto simp: cbsegm_ldpc_select_ls_def)
qed

text \<open>On every transport block of up to \<open>2 ^ 31\<close> bits the result is the least lifting size for which a block holds
  \<open>B' div C\<close> bits; \<open>F\<close> is the total size of the blocks.\<close>

lemma srsran_cbsegm_ldpc_lifting:
  assumes "0 < unat tbs" "unat tbs \<le> 2 ^ 31" and bg: "K_cb = (if bg = BG1 then 8448 else 3840)"
    and e: "cbsegm_cb_size (tbs + srsran_cbsegm_ldpc_L tbs) K_cb = (C, Bp)"
  shows "\<exists>s' z K_b. srsran_cbsegm_ldpc (Some s) bg tbs = Some (0, Some s') \<and> C \<noteq> 0 \<and> sg_C s' = C \<and> sg_C1 s' = C \<and>
    sg_C2 s' = 0 \<and> z \<le> 384 \<and> LSindex ! z \<noteq> 255 \<and> sg_Z s' = word_of_nat z \<and>
    sg_K1_idx s' = ucast (LSindex ! z) \<and> sg_K1 s' = word_of_nat z * (if bg = BG1 then 22 else 10) \<and>
    sg_F s' = sg_K1 s' * C \<and> K_b \<in> (if bg = BG1 then {22} else {6, 8, 9, 10}) \<and>
    unat (Bp div C) \<le> z * K_b \<and> (\<forall>k < z. LSindex ! k \<noteq> 255 \<longrightarrow> k * K_b < unat (Bp div C))"
proof -
  let ?L = "srsran_cbsegm_ldpc_L tbs" and ?B = "tbs + srsran_cbsegm_ldpc_L tbs"
  define K_b :: u32 where "K_b = (if bg = BG2
      then (if 640 < ?B then 10 else if 560 < ?B then 9 else if 192 < ?B then 8 else 6) else 22)"
  have L: "unat ?L \<le> 24" by (simp add: srsran_cbsegm_ldpc_L_def)
  then have B: "unat ?B = unat tbs + unat ?L" using assms(2) by (simp add: unat_word_ariths)
  have uK: "unat K_cb = (if bg = BG1 then 8448 else 3840)" by (simp add: bg)
  have "unat ?B \<le> 2 ^ 31 + 24" "3840 \<le> unat K_cb" "unat K_cb \<le> 8448" "0 < unat ?B"
    using B L assms(1,2) uK by auto
  note cb = cb_size [OF this(1-3) e this(4)]
  have C: "C \<noteq> 0" using cb(5) by (auto simp: unat_gt_0)
  have "unat Bp \<le> unat C * unat K_cb"
    using cb(1-3) uK by (auto simp: diff_mult_distrib2 split: if_splits)
  then have Kp: "unat (Bp div C) \<le> unat K_cb"
    unfolding unat_div using cb(5) by (metis div_le_mono nonzero_mult_div_cancel_left less_irrefl)
  have K_b: "0 < unat K_b" "unat K_b \<le> 22" "unat K_b \<in> (if bg = BG1 then {22} else {6, 8, 9, 10})"
    by (auto simp: K_b_def split: srsran_basegraph.splits) (cases bg; simp)+
  have small: "unat (Bp div C) \<le> 384 * unat K_b"
  proof (cases "bg = BG1")
    case True
    then show ?thesis using Kp uK by (simp add: K_b_def)
  next
    case False
    then have bg2: "bg = BG2" by (cases bg) auto
    show ?thesis
    proof (cases "640 < ?B")
      case True
      then show ?thesis using Kp uK False bg2 by (simp add: K_b_def)
    next
      case False
      then have "unat ?B \<le> 640" by (simp add: word_less_nat_alt)
      then have "unat (Bp div C) \<le> 640" using cb(1,2) uK bg2 by (simp add: unat_div)
      moreover have "6 \<le> unat K_b" using K_b(3) bg2 by auto
      ultimately show ?thesis by linarith
    qed
  qed
  obtain z where z: "unat (Bp div C) \<le> z * unat K_b" "z \<le> 384" "LSindex ! z \<noteq> 255"
    "\<forall>k < z. LSindex ! k \<noteq> 255 \<longrightarrow> k * unat K_b < unat (Bp div C)"
    "cbsegm_ldpc_select_ls (Bp div C) K_b 0 0 = (0, word_of_nat z, LSindex ! z)"
    using select_ls [OF K_b(1,2) small] by blast
  have "tbs \<noteq> 0" using assms(1) by (auto simp: unat_gt_0)
  then have "srsran_cbsegm_ldpc (Some s) bg tbs =
      Some (0, Some (s\<lparr>sg_tbs := tbs, sg_L_tb := ?L, sg_L_cb := (if 1 < C then 24 else 0), sg_C := C,
        sg_F := word_of_nat z * (if bg = BG1 then 22 else 10) * C, sg_C1 := C,
        sg_K1 := word_of_nat z * (if bg = BG1 then 22 else 10), sg_K1_idx := ucast (LSindex ! z),
        sg_Z := word_of_nat z, sg_C2 := 0, sg_K2 := 0, sg_K2_idx := 0\<rparr>))"
    using C by (simp only: srsran_cbsegm_ldpc_def option.case Let_def if_False bg [symmetric] e prod.case
        c_assert_bind K_b_def [symmetric] z(5) if_True) simp
  then show ?thesis
    using C z(1-4) K_b(3) by (intro exI conjI) (assumption, auto)
qed

text \<open>When \<open>B'\<close> is no multiple of \<open>C\<close> the blocks may be too small: for 15417 bits and base graph 1 there are two blocks of
  7744 bits for 15489 bits. The transport block sizes of TS 38.214 avoid this; the function does not check it.\<close>

lemma ldpc_short_witness:
  "case srsran_cbsegm_ldpc_bg1 (Some cbsegm_zero) 15417 of
     Some (r, Some s) \<Rightarrow> r = 0 \<and> sg_C s = 2 \<and> sg_K1 s = 7744 \<and> sg_C s * sg_K1 s < 15417 + 24 + 24 * sg_C s
   | _ \<Rightarrow> False"
  by code_simp

end
