(* ===== verification/TcInterl.thy ===== *)
theory TcInterl
  imports CbSegm Crc begin

text \<open>
  The internal interleaver of the turbo code (\<^verbatim>\<open>lib/src/phy/fec/turbo/tc_interl_lte.c\<close>) and the turbo encoder
  (\<^verbatim>\<open>lib/src/phy/fec/turbo/turbocoder.c\<close>).
\<close>

section \<open>The interleaver\<close>

definition f1_list :: "u32 list" where
  "f1_list =
    [3, 7, 19, 7, 7, 11, 5, 11, 7, 41, 103, 15, 9, 17, 9, 21, 101, 21, 57, 23, 13,
     27, 11, 27, 85, 29, 33, 15, 17, 33, 103, 19, 19, 37, 19, 21, 21, 115, 193, 21, 133, 81,
     45, 23, 243, 151, 155, 25, 51, 47, 91, 29, 29, 247, 29, 89, 91, 157, 55, 31, 17, 35, 227,
     65, 19, 37, 41, 39, 185, 43, 21, 155, 79, 139, 23, 217, 25, 17, 127, 25, 239, 17, 137, 215,
     29, 15, 147, 29, 59, 65, 55, 31, 17, 171, 67, 35, 19, 39, 19, 199, 21, 211, 21, 43, 149,
     45, 49, 71, 13, 17, 25, 183, 55, 127, 27, 29, 29, 57, 45, 31, 59, 185, 113, 31, 17, 171,
     209, 253, 367, 265, 181, 39, 27, 127, 143, 43, 29, 45, 157, 47, 13, 111, 443, 51, 51, 451, 257,
     57, 313, 271, 179, 331, 363, 375, 127, 31, 33, 43, 33, 477, 35, 233, 357, 337, 37, 71, 71, 37,
     39, 127, 39, 39, 31, 113, 41, 251, 43, 21, 43, 45, 45, 161, 89, 323, 47, 23, 47, 263]"

definition f2_list :: "u32 list" where
  "f2_list =
    [10, 12, 42, 16, 18, 20, 22, 24, 26, 84, 90, 32, 34, 108, 38, 120, 84, 44, 46, 48, 50,
     52, 36, 56, 58, 60, 62, 32, 198, 68, 210, 36, 74, 76, 78, 120, 82, 84, 86, 44, 90, 46,
     94, 48, 98, 40, 102, 52, 106, 72, 110, 168, 114, 58, 118, 180, 122, 62, 84, 64, 66, 68, 420,
     96, 74, 76, 234, 80, 82, 252, 86, 44, 120, 92, 94, 48, 98, 80, 102, 52, 106, 48, 110, 112,
     114, 58, 118, 60, 122, 124, 84, 64, 66, 204, 140, 72, 74, 76, 78, 240, 82, 252, 86, 88, 60,
     92, 846, 48, 28, 80, 102, 104, 954, 96, 110, 112, 114, 116, 354, 120, 610, 124, 420, 64, 66, 136,
     420, 216, 444, 456, 468, 80, 164, 504, 172, 88, 300, 92, 188, 96, 28, 240, 204, 104, 212, 192, 220,
     336, 228, 232, 236, 120, 244, 248, 168, 64, 130, 264, 134, 408, 138, 280, 142, 480, 146, 444, 120, 152,
     462, 234, 158, 80, 96, 902, 166, 336, 170, 86, 174, 176, 178, 120, 182, 184, 186, 94, 190, 480]"

text \<open>The parameters: \<open>f1\<close> has no factor in common with the size, and every prime factor of the size divides \<open>f2\<close>.\<close>

lemma interleaver_table:
  "list_all (\<lambda>(k, a, b). gcd a k = 1 \<and> b * b * b * b * b * b * b mod k = 0)
     (zip (map uint tc_cb_sizes) (zip (map uint f1_list) (map uint f2_list)))"
  unfolding tc_cb_sizes_def f1_list_def f2_list_def by code_simp

record srsran_tc_interl =
  ti_forward :: "u16 list"
  ti_reverse :: "u16 list"
  ti_max_long_cb :: nat

text \<open>The macros \<^verbatim>\<open>deinter\<close> and \<^verbatim>\<open>inter\<close>; a division by zero is \<open>None\<close>.\<close>

definition deinter :: "nat \<Rightarrow> nat \<Rightarrow> nat \<Rightarrow> nat option" where
  "deinter long_cb x win = do {
     c_assert (win \<noteq> 0);
     c_assert (long_cb div win \<noteq> 0);
     Some (x mod (long_cb div win) * win + x div (long_cb div win))
   }"

definition inter :: "nat \<Rightarrow> nat \<Rightarrow> nat \<Rightarrow> nat option" where
  "inter long_cb x win = do {
     c_assert (win \<noteq> 0);
     Some (x mod win * (long_cb div win) + x div win)
   }"

text \<open>The permutation, in the unsigned 64 bit arithmetic of the code.\<close>

definition qpp :: "u32 \<Rightarrow> u32 \<Rightarrow> nat \<Rightarrow> nat \<Rightarrow> nat" where
  "qpp f1 f2 long_cb i =
     (let i = (word_of_nat i :: u64)
      in unat ((ucast f1 * i + ucast f2 * i * i) mod word_of_nat long_cb))"

definition srsran_tc_interl_LTE_gen_interl :: "srsran_tc_interl \<Rightarrow> nat \<Rightarrow> nat \<Rightarrow> (int \<times> srsran_tc_interl) option" where
  "srsran_tc_interl_LTE_gen_interl h long_cb interl_win =
     (if ti_max_long_cb h < long_cb then Some (-1, h)
      else do {
        let cb_table_idx = srsran_cbsegm_cbindex (word_of_nat long_cb);
        if cb_table_idx = -1 then Some (-1, h)
        else do {
          f1 \<leftarrow> arr_at f1_list (nat cb_table_idx);
          f2 \<leftarrow> arr_at f2_list (nat cb_table_idx);
          forward \<leftarrow> arr_set (ti_forward h) 0 0;
          reverse \<leftarrow> arr_set (ti_reverse h) 0 0;
          (forward, reverse) \<leftarrow> for_loop (\<lambda>i (forward, reverse). do {
              let j = qpp f1 f2 long_cb i;
              forward \<leftarrow> arr_set forward i (word_of_nat j);
              reverse \<leftarrow> arr_set reverse j (word_of_nat i);
              Some (forward, reverse)
            }) [1..<long_cb] (forward, reverse);
          (forward, reverse) \<leftarrow>
            (if interl_win \<noteq> 1
             then do {
               c_assert (long_cb \<le> length forward \<and> long_cb \<le> length reverse);
               let f = take long_cb forward;
               let r = take long_cb reverse;
               for_loop (\<lambda>i (forward, reverse). do {
                   k \<leftarrow> inter long_cb i interl_win;
                   x \<leftarrow> arr_at f k;
                   x \<leftarrow> deinter long_cb (unat x) interl_win;
                   forward \<leftarrow> arr_set forward i (word_of_nat x);
                   y \<leftarrow> arr_at r k;
                   y \<leftarrow> deinter long_cb (unat y) interl_win;
                   reverse \<leftarrow> arr_set reverse i (word_of_nat y);
                   Some (forward, reverse)
                 }) [0..<long_cb] (forward, reverse)
             }
             else Some (forward, reverse));
          Some (0, h\<lparr>ti_forward := forward, ti_reverse := reverse\<rparr>)
        }
      })"

definition srsran_tc_interl_LTE_gen :: "srsran_tc_interl \<Rightarrow> nat \<Rightarrow> (int \<times> srsran_tc_interl) option" where
  "srsran_tc_interl_LTE_gen h long_cb = srsran_tc_interl_LTE_gen_interl h long_cb 1"

section \<open>Quadratic permutations\<close>

lemma nilpotent_shift_coprime:
  fixes a b k :: int
  assumes "coprime a k" and "k dvd b ^ m" and "0 < m"
  shows "coprime (a + b * x) k"
proof (rule coprimeI)
  fix d
  assume d: "d dvd a + b * x" "d dvd k"
  have "d dvd b ^ m * x ^ m" using d(2) assms(2) by (metis dvd_mult2 dvd_trans)
  then have bx: "d dvd (b * x) ^ m" by (simp add: power_mult_distrib)
  have "a - - (b * x) dvd a ^ m - (- (b * x)) ^ m"
    by (simp only: power_diff_sumr2 dvd_triv_left)
  then have "d dvd a ^ m - (- (b * x)) ^ m" using d(1) by (metis dvd_trans minus_minus diff_minus_eq_add)
  moreover have "d dvd (- (b * x)) ^ m" using bx by (cases "even m") auto
  ultimately have "d dvd a ^ m" by (metis dvd_diffD1 dvd_add_right_iff diff_add_cancel)
  moreover have "coprime (a ^ m) k" using assms(1) by simp
  ultimately show "is_unit d" using d(2) coprime_common_divisor by blast
qed

lemma qpp_inj:
  fixes a b k :: int
  assumes "coprime a k" and "k dvd b ^ m" "0 < m" and "0 < k"
  shows "inj_on (\<lambda>i. (a * i + b * i * i) mod k) {0..<k}"
proof (rule inj_onI)
  fix i j
  assume ij: "i \<in> {0..<k}" "j \<in> {0..<k}" and e: "(a * i + b * i * i) mod k = (a * j + b * j * j) mod k"
  have "k dvd (a * i + b * i * i) - (a * j + b * j * j)" using e by (simp add: mod_eq_dvd_iff)
  also have "(a * i + b * i * i) - (a * j + b * j * j) = (i - j) * (a + b * (i + j))" by (simp add: algebra_simps)
  finally have "k dvd i - j"
    using nilpotent_shift_coprime [OF assms(1-3)] by (metis coprime_commute coprime_dvd_mult_left_iff)
  then have "i mod k = j mod k" by (simp add: mod_eq_dvd_iff)
  then show "i = j" using ij by simp
qed

lemma lists_facts: "length f1_list = 188" "length f2_list = 188"
  "list_all (\<lambda>x. x < 1024) f1_list" "list_all (\<lambda>x. x < 1024) f2_list"
  unfolding f1_list_def f2_list_def by simp_all

lemma qpp_nat:
  assumes "unat f1 < 1024" "unat f2 < 1024" "0 < k" "k \<le> 6144" "i < k"
  shows "qpp f1 f2 k i = (unat f1 * i + unat f2 * i * i) mod k"
proof -
  let ?x = "unat f1 * i + unat f2 * i * i"
  have u: "(ucast w :: u64) = word_of_nat (unat w)" for w :: u32
    by simp
  have "unat f1 * i \<le> 1024 * 6144" using assms by (intro mult_le_mono) auto
  moreover have "unat f2 * i * i \<le> 1024 * 6144 * 6144" using assms by (intro mult_le_mono) auto
  ultimately have small: "?x < 2 ^ 64" by simp
  have "qpp f1 f2 k i = unat (word_of_nat ?x mod word_of_nat k :: u64)"
    unfolding qpp_def Let_def u by (simp only: of_nat_add of_nat_mult)
  also have "\<dots> = ?x mod k"
    using small assms(4) by (simp only: unat_mod unat_of_nat) simp
  finally show ?thesis .
qed

lemma table_row:
  assumes "j < 188"
  shows "coprime (int (unat (f1_list ! j))) (int (unat (tc_cb_sizes ! j)))"
    "int (unat (tc_cb_sizes ! j)) dvd int (unat (f2_list ! j)) ^ 7"
    "unat (f1_list ! j) < 1024" "unat (f2_list ! j) < 1024"
proof -
  let ?a = "int (unat (f1_list ! j))" and ?b = "int (unat (f2_list ! j))" and ?k = "int (unat (tc_cb_sizes ! j))"
  have "gcd ?a ?k = 1 \<and> ?b * ?b * ?b * ?b * ?b * ?b * ?b mod ?k = 0"
    using interleaver_table assms by (simp add: list_all_length tc_cb_sizes_facts lists_facts)
  then show "coprime ?a ?k" "?k dvd ?b ^ 7"
    by (auto simp: coprime_iff_gcd_eq_1 dvd_eq_mod_eq_0 power_numeral_reduce mult.assoc numeral_eq_Suc)
  show "unat (f1_list ! j) < 1024" "unat (f2_list ! j) < 1024"
    using lists_facts assms by (auto simp: list_all_length word_less_nat_alt)
qed

lemma qpp_permutes:
  assumes "j < 188"
  defines "k \<equiv> unat (tc_cb_sizes ! j)" and "p \<equiv> qpp (f1_list ! j) (f2_list ! j) (unat (tc_cb_sizes ! j))"
  shows "inj_on p {..<k}" "\<And>i. i < k \<Longrightarrow> p i < k" "p 0 = 0"
proof -
  have k: "0 < k" "k \<le> 6144" using tc_cb_sizes_range [OF assms(1)] by (simp_all add: k_def)
  let ?f = "\<lambda>i. (int (unat (f1_list ! j)) * i + int (unat (f2_list ! j)) * i * i) mod int k"
  have q: "int (p i) = ?f (int i)" if "i < k" for i
    using qpp_nat [OF table_row(3,4) [OF assms(1)] k that] by (simp add: p_def k_def zmod_int)
  have inj: "inj_on ?f {0..<int k}"
    unfolding k_def
  proof (rule qpp_inj [OF table_row(1,2) [OF assms(1)]])
    show "0 < int (unat (tc_cb_sizes ! j))" using k by (simp only: k_def of_nat_0_less_iff)
  qed simp
  show "inj_on p {..<k}"
  proof (rule inj_onI)
    fix x y
    assume "x \<in> {..<k}" "y \<in> {..<k}" "p x = p y"
    then have "?f (int x) = ?f (int y)" "int x \<in> {0..<int k}" "int y \<in> {0..<int k}" using q by (metis lessThan_iff, auto)
    then show "x = y" using inj_onD [OF inj] by (metis of_nat_eq_iff)
  qed
  show "p i < k" if "i < k" for i
    using qpp_nat [OF table_row(3,4) [OF assms(1)] k that] k by (simp add: p_def k_def)
  show "p 0 = 0"
    using qpp_nat [OF table_row(3,4) [OF assms(1)] k k(1)] by (simp add: p_def k_def)
qed

section \<open>The two arrays\<close>

lemma cbindex_table: "j < 188 \<Longrightarrow> srsran_cbsegm_cbindex (tc_cb_sizes ! j) = int j"
proof -
  assume j: "j < 188"
  obtain i where i: "i < 188" "srsran_cbsegm_cbindex (tc_cb_sizes ! j) = int i"
    "unat (tc_cb_sizes ! j) \<le> unat (tc_cb_sizes ! i)" "\<And>k. k < i \<Longrightarrow> unat (tc_cb_sizes ! k) < unat (tc_cb_sizes ! j)"
    using cbindex_least tc_cb_sizes_range [OF j] by blast
  then have "i = j" using tc_cb_sizes_mono [of i j] j by (cases i j rule: linorder_cases) auto
  then show ?thesis using i(2) by simp
qed

lemma interleaver_loop:
  assumes inj: "inj_on p {..<k}" "\<And>i. i < k \<Longrightarrow> p i < k" "p 0 = 0" and k: "0 < k" "k \<le> 2 ^ 16"
    and len: "k \<le> length f" "k \<le> length r"
  shows "\<exists>f' r'. for_loop (\<lambda>i (f, r). arr_set f i (word_of_nat (p i)) \<bind> (\<lambda>f.
             arr_set r (p i) (word_of_nat i) \<bind> (\<lambda>r. Some (f, r)))) [1..<k] (f[0 := 0], r[0 := 0]) = Some (f', r') \<and>
           length f' = length f \<and> length r' = length r \<and> drop k f' = drop k f \<and>
           (\<forall>i < k. f' ! i = (word_of_nat (p i) :: u16)) \<and> (\<forall>i < k. r' ! p i = (word_of_nat i :: u16))"
proof -
  let ?P = "\<lambda>n (f', r'). length f' = length f \<and> length r' = length r \<and> drop k f' = drop k f \<and>
     (\<forall>i < n. f' ! i = (word_of_nat (p i) :: u16)) \<and> (\<forall>i < n. r' ! p i = (word_of_nat i :: u16))"
  have pos: "0 < length f" "0 < length r" using k len by linarith+
  have "\<exists>s. for_loop (\<lambda>i (f, r). arr_set f i (word_of_nat (p i)) \<bind> (\<lambda>f.
             arr_set r (p i) (word_of_nat i) \<bind> (\<lambda>r. Some (f, r)))) [1..<k] (f[0 := 0], r[0 := 0]) = Some s \<and> ?P k s"
  proof (rule for_loop_inv [where P = ?P])
    fix i s
    assume i: "1 \<le> i" "i < k" and P: "?P i s"
    obtain f1 r1 where s: "s = (f1, r1)" by fastforce
    have "p i \<noteq> p m" if "m < i" for m using inj(1) that i by (auto dest!: inj_onD)
    then have "?P (Suc i) (f1[i := word_of_nat (p i)], r1[p i := word_of_nat i])"
      using P i inj(2) [OF i(2)] len by (auto simp: s less_Suc_eq nth_list_update)
    then show "\<exists>s'. (case s of (f, r) \<Rightarrow> arr_set f i (word_of_nat (p i)) \<bind> (\<lambda>f.
             arr_set r (p i) (word_of_nat i) \<bind> (\<lambda>r. Some (f, r)))) = Some s' \<and> ?P (Suc i) s'"
      using P i inj(2) [OF i(2)] len by (intro exI [of _ "(f1[i := word_of_nat (p i)], r1[p i := word_of_nat i])"])
        (auto simp: s arr_set_def)
  qed (use k len inj(3) pos in auto)
  then show ?thesis by auto
qed

lemma tc_interl_gen:
  assumes j: "j < 188" and K: "K = unat (tc_cb_sizes ! j)" and "K \<le> ti_max_long_cb h"
    and "K \<le> length (ti_forward h)" "K \<le> length (ti_reverse h)"
  shows "\<exists>h'. srsran_tc_interl_LTE_gen h K = Some (0, h') \<and>
    ti_max_long_cb h' = ti_max_long_cb h \<and> length (ti_forward h') = length (ti_forward h) \<and>
    length (ti_reverse h') = length (ti_reverse h) \<and>
    (\<forall>i < K. unat (ti_forward h' ! i) = (unat (f1_list ! j) * i + unat (f2_list ! j) * i * i) mod K) \<and>
    (\<forall>i < K. unat (ti_forward h' ! i) < K \<and> unat (ti_reverse h' ! unat (ti_forward h' ! i)) = i) \<and>
    (\<forall>i < K. unat (ti_reverse h' ! i) < K \<and> unat (ti_forward h' ! unat (ti_reverse h' ! i)) = i)"
proof -
  let ?p = "qpp (f1_list ! j) (f2_list ! j) K"
  note perm = qpp_permutes [OF j, folded K]
  have k: "0 < K" "K \<le> 6144" using tc_cb_sizes_range [OF j] K by simp_all
  obtain f r where loop: "for_loop (\<lambda>i (f, r). arr_set f i (word_of_nat (?p i)) \<bind> (\<lambda>f.
             arr_set r (?p i) (word_of_nat i) \<bind> (\<lambda>r. Some (f, r)))) [1..<K]
           ((ti_forward h)[0 := 0], (ti_reverse h)[0 := 0]) = Some (f, r)"
    and len: "length f = length (ti_forward h)" "length r = length (ti_reverse h)"
    and f: "\<And>i. i < K \<Longrightarrow> f ! i = word_of_nat (?p i)" and r: "\<And>i. i < K \<Longrightarrow> r ! ?p i = word_of_nat i"
    using interleaver_loop [OF perm k(1) _ assms(4,5)] k by auto
  have "word_of_nat K = tc_cb_sizes ! j" by (simp add: K)
  then have idx: "srsran_cbsegm_cbindex (word_of_nat K) = int j" using cbindex_table [OF j] by simp
  have at: "arr_at f1_list j = Some (f1_list ! j)" "arr_at f2_list j = Some (f2_list ! j)"
    "arr_set (ti_forward h) 0 0 = Some ((ti_forward h)[0 := 0])" "arr_set (ti_reverse h) 0 0 = Some ((ti_reverse h)[0 := 0])"
    using j assms(4,5) k lists_facts by (auto simp: arr_at_def arr_set_def)
  have gen: "srsran_tc_interl_LTE_gen h K = Some (0, h\<lparr>ti_forward := f, ti_reverse := r\<rparr>)"
    using assms(3) loop by (simp add: srsran_tc_interl_LTE_gen_def srsran_tc_interl_LTE_gen_interl_def idx at Let_def)
  have u: "unat (word_of_nat n :: u16) = n" if "n < K" for n
    using that k by (simp add: unat_of_nat)
  have fwd: "unat (f ! i) = ?p i" "?p i < K" "unat (r ! ?p i) = i" if "i < K" for i
    using f [OF that] r [OF that] u [OF perm(2) [OF that]] u [OF that] perm(2) [OF that] by simp_all
  have "?p ` {..<K} = {..<K}" using perm(1,2) by (intro endo_inj_surj) auto
  then have surj: "\<exists>m < K. ?p m = i" if "i < K" for i using that by (metis imageE lessThan_iff)
  have rev: "unat (r ! i) < K \<and> unat (f ! unat (r ! i)) = i" if "i < K" for i
    using surj [OF that] fwd by auto
  have a: "\<forall>i < K. unat (f ! i) = (unat (f1_list ! j) * i + unat (f2_list ! j) * i * i) mod K"
    using fwd(1) qpp_nat [OF table_row(3,4) [OF j] k] by simp
  have b: "\<forall>i < K. unat (f ! i) < K \<and> unat (r ! unat (f ! i)) = i"
    using fwd by simp
  have c: "\<forall>i < K. unat (r ! i) < K \<and> unat (f ! unat (r ! i)) = i"
    using rev by blast
  have "ti_forward (h\<lparr>ti_forward := f, ti_reverse := r\<rparr>) = f" "ti_reverse (h\<lparr>ti_forward := f, ti_reverse := r\<rparr>) = r"
    "ti_max_long_cb (h\<lparr>ti_forward := f, ti_reverse := r\<rparr>) = ti_max_long_cb h"
    by simp_all
  then show ?thesis using gen a b c len by metis
qed

text \<open>C23: For every size of the table \<^verbatim>\<open>srsran_tc_interl_LTE_gen\<close> fills the two arrays with the permutation of
  TS 36.212, 5.1.3.2.3, and its inverse: each is the inverse of the other, and their entries are below the size.\<close>

theorem srsran_tc_interl_LTE_gen_permutation:
  assumes j: "j < 188" and K: "K = unat (tc_cb_sizes ! j)" and "K \<le> ti_max_long_cb h"
    and "K \<le> length (ti_forward h)" "K \<le> length (ti_reverse h)"
  shows "\<exists>h'. srsran_tc_interl_LTE_gen h K = Some (0, h') \<and>
    (\<forall>i < K. unat (ti_forward h' ! i) = (unat (f1_list ! j) * i + unat (f2_list ! j) * i * i) mod K) \<and>
    (\<forall>i < K. unat (ti_forward h' ! i) < K \<and> unat (ti_reverse h' ! unat (ti_forward h' ! i)) = i) \<and>
    (\<forall>i < K. unat (ti_reverse h' ! i) < K \<and> unat (ti_forward h' ! unat (ti_reverse h' ! i)) = i)"
  using tc_interl_gen [OF assms] by blast

lemma srsran_tc_interl_LTE_gen_permutation_witness:
  "\<exists>h'. srsran_tc_interl_LTE_gen \<lparr>ti_forward = replicate 40 0, ti_reverse = replicate 40 0, ti_max_long_cb = 40\<rparr> 40 =
     Some (0, h') \<and> (\<forall>i < 40. unat (ti_forward h' ! i) = (3 * i + 10 * i * i) mod 40)"
proof -
  have j: "unat (tc_cb_sizes ! 0) = 40" "unat (f1_list ! 0) = 3" "unat (f2_list ! 0) = 10"
    by (simp_all add: tc_cb_sizes_def f1_list_def f2_list_def)
  show ?thesis
    using srsran_tc_interl_LTE_gen_permutation
      [of 0 40 "\<lparr>ti_forward = replicate 40 0, ti_reverse = replicate 40 0, ti_max_long_cb = 40\<rparr>"] j by auto
qed

text \<open>A size that is not in the table is not refused: \<^verbatim>\<open>srsran_cbsegm_cbindex\<close> rounds it up, and the parameters of the
  next size make no permutation of it.\<close>

lemma interleaver_invalid_size:
  "case srsran_tc_interl_LTE_gen \<lparr>ti_forward = replicate 6 0, ti_reverse = replicate 6 9, ti_max_long_cb = 6\<rparr> 6 of
     Some (r, h) \<Rightarrow> r = 0 \<and> ti_forward h ! 2 = 4 \<and> ti_forward h ! 5 = 1 \<and> ti_forward h ! 1 = 1
   | None \<Rightarrow> False"
  by code_simp

end
