(* ===== verification/BitInterleaver.thy ===== *)
theory BitInterleaver
  imports BitArray begin

text \<open>
  The bit interleaver over packed bytes (\<^verbatim>\<open>srsran_bit_interleaver_*\<close> in \<^verbatim>\<open>lib/src/phy/utils/bit.c\<close>), with
  its tables and the scalar path of \<^verbatim>\<open>srsran_bit_interleaver_run\<close>.
\<close>

record srsran_bit_interleaver =
  bi_interleaver :: "u16 list"
  bi_byte_idx :: "u16 list"
  bi_bit_mask :: "byte list"
  bi_nof_bits :: nat

definition bit_masks :: "byte list" where
  "bit_masks = [0x80, 0x40, 0x20, 0x10, 0x8, 0x4, 0x2, 0x1]"

definition srsran_bit_interleaver_init :: "u16 list \<Rightarrow> nat \<Rightarrow> srsran_bit_interleaver option" where
  "srsran_bit_interleaver_init interleaver nof_bits = do {
     c_assert (nof_bits \<le> length interleaver);
     Some \<lparr>bi_interleaver = map (\<lambda>i. interleaver ! i) [0..<nof_bits],
           bi_byte_idx = map (\<lambda>i. interleaver ! i div 8) [0..<nof_bits],
           bi_bit_mask = map (\<lambda>i. bit_masks ! unat (interleaver ! i mod 8)) [0..<nof_bits],
           bi_nof_bits = nof_bits\<rparr>
   }"

text \<open>One bit through the mask table; the position in the interleaver is an unsigned difference.\<close>

definition interleaver_bit :: "srsran_bit_interleaver \<Rightarrow> byte list \<Rightarrow> nat \<Rightarrow> bool option" where
  "interleaver_bit q input p = do {
     ip \<leftarrow> arr_at (bi_interleaver q) p;
     x \<leftarrow> arr_at input (unat (ip div 8));
     m \<leftarrow> arr_at bit_masks (unat (ip mod 8));
     Some (x AND m \<noteq> 0)
   }"

definition put_bit :: "byte list \<Rightarrow> nat \<Rightarrow> nat \<Rightarrow> bool \<Rightarrow> byte list option" where
  "put_bit output i j b = do {
     x \<leftarrow> arr_at output i;
     m \<leftarrow> arr_at bit_masks j;
     arr_set output i (if b then x OR m else x AND NOT m)
   }"

definition srsran_bit_interleaver_run ::
    "srsran_bit_interleaver \<Rightarrow> byte list \<Rightarrow> byte list \<Rightarrow> nat \<Rightarrow> byte list option" where
  "srsran_bit_interleaver_run q input output w_offset = do {
     let nof = bi_nof_bits q;
     (st, w_offset_p, output) \<leftarrow>
       (if w_offset < 8 \<and> 0 < w_offset
        then do {
          output \<leftarrow> for_loop (\<lambda>j output. do {
              b \<leftarrow> interleaver_bit q input j;
              put_bit output 0 (j + w_offset) b
            }) [0..<8 - w_offset] output;
          Some (1, 8 - w_offset, output)
        }
        else Some (0, 0, output));
     output \<leftarrow> for_loop (\<lambda>k output. do {
         out \<leftarrow> for_loop (\<lambda>j out. do {
             x \<leftarrow> arr_at (bi_byte_idx q) (8 * k - w_offset_p + j);
             x \<leftarrow> arr_at input (unat x);
             m \<leftarrow> arr_at (bi_bit_mask q) (8 * k - w_offset_p + j);
             mo \<leftarrow> arr_at bit_masks j;
             Some (out OR (if x AND m \<noteq> 0 then mo else 0))
           }) [0..<8] 0;
         arr_set output k out
       }) [st..<nof div 8] output;
     output \<leftarrow> for_loop (\<lambda>j output. do {
         c_assert (w_offset \<le> nof div 8 * 8 + j);
         b \<leftarrow> interleaver_bit q input (nof div 8 * 8 + j - w_offset);
         put_bit output (nof div 8) j b
       }) [0..<nof mod 8] output;
     for_loop (\<lambda>j output. do {
         c_assert (w_offset \<le> nof div 8 * 8 + j);
         b \<leftarrow> interleaver_bit q input (nof div 8 * 8 + j - w_offset);
         put_bit output (nof div 8) j b
       }) [0..<w_offset] output
   }"

section \<open>Whole bytes\<close>

text \<open>Bit \<open>n\<close> of a packed array, the first bit the highest of the first byte.\<close>

definition packed_bit :: "byte list \<Rightarrow> nat \<Rightarrow> bool" where
  "packed_bit xs n = bit (xs ! (n div 8)) (7 - n mod 8)"

lemma bit_masks_at: "j < 8 \<Longrightarrow> arr_at bit_masks j = Some (push_bit (7 - j) 1)"
proof -
  have "\<forall>j < 8. arr_at bit_masks j = Some (push_bit (7 - j) 1)" by code_simp
  then show "j < 8 \<Longrightarrow> arr_at bit_masks j = Some (push_bit (7 - j) 1)" by blast
qed

lemma and_mask_bit: "n < 8 \<Longrightarrow> (x AND push_bit n 1 \<noteq> 0) \<longleftrightarrow> bit x n"
  for x :: byte
proof
  show "bit x n" if "x AND push_bit n 1 \<noteq> 0"
    using nonzero_bit [OF that] by (auto simp: bit_and_iff bit_exp_iff)
  show "x AND push_bit n 1 \<noteq> 0" if "bit x n" "n < 8"
  proof
    assume "x AND push_bit n 1 = 0"
    then have "bit (x AND push_bit n 1) n \<longleftrightarrow> bit (0 :: byte) n" by simp
    then show False using that by (simp add: bit_and_iff bit_exp_iff)
  qed
qed

lemma gather_byte:
  assumes "\<And>j. j < 8 \<Longrightarrow> body j = Some (b j)"
  shows "for_loop (\<lambda>j out. body j \<bind> (\<lambda>c. arr_at bit_masks j \<bind> (\<lambda>mo. Some (out OR (if c then mo else 0))))) [0..<8] 0 =
           Some (num_of (map b [0..<8]) :: byte)"
proof -
  let ?f = "\<lambda>j out. body j \<bind> (\<lambda>c. arr_at bit_masks j \<bind> (\<lambda>mo. Some (out OR (if c then mo else 0))))"
  let ?st = "\<lambda>j. num_of (map b [0..<j] @ replicate (8 - j) False) :: byte"
  have st: "bit (?st j) i \<longleftrightarrow> i < 8 \<and> 7 - i < j \<and> b (7 - i)" if "j \<le> 8" for i j
    using that by (auto simp: bit_num_of nth_append)
  have "for_loop ?f [0..<8] (?st 0) = Some (?st 8)"
  proof (rule for_loop_states)
    fix j :: nat
    assume j: "j < 8"
    have "?st j OR (if b j then push_bit (7 - j) 1 else 0) = ?st (Suc j)"
    proof (rule bit_word_eqI)
      fix i
      assume "i < LENGTH(8)"
      then show "bit (?st j OR (if b j then push_bit (7 - j) 1 else 0)) i \<longleftrightarrow> bit (?st (Suc j)) i"
        using st [of j i] st [of "Suc j" i] j by (auto simp: bit_or_iff bit_exp_iff less_Suc_eq)
    qed
    then show "?f j (?st j) = Some (?st (Suc j))"
      using j by (simp only: assms bit_masks_at Option.bind.bind_lunit)
  qed simp
  moreover have "?st 0 = 0" by (rule bit_word_eqI) (auto simp: bit_num_of)
  moreover have "?st 8 = num_of (map b [0..<8])" by simp
  ultimately show ?thesis by (simp only:)
qed

lemma packed_bit_num_of: "k < 8 \<Longrightarrow> bit (num_of (map b [0..<8]) :: byte) (7 - k) \<longleftrightarrow> b k"
  by (auto simp: bit_num_of)

lemma interleaver_read:
  assumes q: "srsran_bit_interleaver_init p n = Some q" and i: "i < n" and p: "unat (p ! i) < 8 * length input"
  shows "(arr_at (bi_byte_idx q) i \<bind> (\<lambda>x. arr_at input (unat x) \<bind> (\<lambda>x.
      arr_at (bi_bit_mask q) i \<bind> (\<lambda>m. Some (x AND m \<noteq> 0))))) = Some (packed_bit input (unat (p ! i)))"
proof -
  have u: "unat (p ! i div 8) = unat (p ! i) div 8" "unat (p ! i mod 8) = unat (p ! i) mod 8"
    by (simp_all add: unat_div unat_mod)
  have m: "bit_masks ! (unat (p ! i) mod 8) = push_bit (7 - unat (p ! i) mod 8) 1"
    using bit_masks_at [of "unat (p ! i) mod 8"] by (simp add: arr_at_def split: if_splits)
  have x: "unat (p ! i) div 8 < length input" using p by simp
  have "arr_at (bi_byte_idx q) i = Some (p ! i div 8)" "arr_at (bi_bit_mask q) i = Some (bit_masks ! unat (p ! i mod 8))"
    "arr_at input (unat (p ! i div 8)) = Some (input ! (unat (p ! i) div 8))"
    using q i x by (auto simp: srsran_bit_interleaver_init_def arr_at_def u split: if_splits)
  moreover have "7 - unat (p ! i) mod 8 < 8" by simp
  ultimately show ?thesis
    by (simp only: Option.bind.bind_lunit u(2) m and_mask_bit packed_bit_def)
qed

lemma srsran_bit_interleaver_run:
  assumes q: "srsran_bit_interleaver_init p n = Some q" and n: "n mod 8 = 0"
    and p: "\<And>i. i < n \<Longrightarrow> unat (p ! i) < 8 * length input" and len: "n \<le> 8 * length output"
  shows "\<exists>out. srsran_bit_interleaver_run q input output 0 = Some out \<and> length out = length output \<and>
           (\<forall>i < n. packed_bit out i = packed_bit input (unat (p ! i)))"
proof -
  have nof: "bi_nof_bits q = n"
    using q by (auto simp: srsran_bit_interleaver_init_def split: if_splits)
  have n8: "8 * (n div 8) = n" using n by auto
  let ?b = "\<lambda>k j. packed_bit input (unat (p ! (8 * k + j)))"
  have bit: "(arr_at (bi_byte_idx q) (8 * k + j) \<bind> (\<lambda>x. arr_at input (unat x) \<bind> (\<lambda>x.
      arr_at (bi_bit_mask q) (8 * k + j) \<bind> (\<lambda>m. Some (x AND m \<noteq> 0))))) = Some (?b k j)"
    if "k < n div 8" "j < 8" for k j
  proof (rule interleaver_read [OF q])
    show "8 * k + j < n" using that n8 by linarith
    then show "unat (p ! (8 * k + j)) < 8 * length input" by (rule p)
  qed
  define V where "V = (\<lambda>k. num_of (map (?b k) [0..<8]) :: byte)"
  define G where "G = (\<lambda>k. for_loop (\<lambda>j out. arr_at (bi_byte_idx q) (8 * k + j) \<bind> (\<lambda>x. arr_at input (unat x) \<bind> (\<lambda>x.
        arr_at (bi_bit_mask q) (8 * k + j) \<bind> (\<lambda>m. arr_at bit_masks j \<bind> (\<lambda>mo.
        Some (out OR (if x AND m \<noteq> 0 then mo else 0))))))) [0..<8] 0)"
  have G: "G k = Some (V k)" if "k < n div 8" for k
    unfolding G_def V_def
    using gather_byte [of "\<lambda>j. arr_at (bi_byte_idx q) (8 * k + j) \<bind> (\<lambda>x. arr_at input (unat x) \<bind> (\<lambda>x.
      arr_at (bi_bit_mask q) (8 * k + j) \<bind> (\<lambda>m. Some (x AND m \<noteq> 0))))" "?b k"] bit [OF that]
    by (simp only: bind_assoc Option.bind.bind_lunit)
  let ?out = "map V [0..<n div 8] @ drop (n div 8) output"
  have "for_loop (\<lambda>k output. G k \<bind> arr_set output k) [0..<n div 8] output =
      Some (take 0 output @ map V [0..<n div 8] @ drop (0 + n div 8) output)"
    using len by (intro fill_array) (auto simp: G)
  then have run: "srsran_bit_interleaver_run q input output 0 = Some ?out"
    unfolding srsran_bit_interleaver_run_def nof n Let_def G_def
    by (simp only: minus_nat.diff_0 less_irrefl if_False Option.bind.bind_lunit prod.case upt_0 for_loop.simps
        take_0 append_Nil add_0 simp_thms)
  have "packed_bit ?out i = packed_bit input (unat (p ! i))" if "i < n" for i
  proof -
    have "i div 8 < n div 8" using that n8 by linarith
    then have "?out ! (i div 8) = V (i div 8)" by (simp add: nth_append)
    then have "packed_bit ?out i = ?b (i div 8) (i mod 8)"
      unfolding packed_bit_def V_def by (simp only: packed_bit_num_of mod_less_divisor zero_less_numeral)
    then show ?thesis by simp
  qed
  then show ?thesis using run len by (intro exI [of _ ?out]) simp
qed

end
