(* ===== verification/TurboCoder.thy ===== *)
theory TurboCoder
  imports TcInterl BitInterleaver begin

text \<open>
  The turbo encoder (\<^verbatim>\<open>lib/src/phy/fec/turbo/turbocoder.c\<close>): the encoder on arrays with one bit per byte,
  the tables for the encoder on packed bytes, and that encoder, which also computes and inserts the checksums.
  The reference is the pair of recursive convolutional codes of 3GPP TS 36.212, 5.1.3.2.
\<close>

section \<open>The code\<close>

text \<open>The three registers of a constituent encoder; the step that the code writes out at every use: the new
  registers and the output.\<close>

type_synonym regs = "byte \<times> byte \<times> byte"

definition rsc_step :: "regs \<Rightarrow> byte \<Rightarrow> regs \<times> byte" where
  "rsc_step = (\<lambda>(reg_0, reg_1, reg_2) bit.
     let inp = bit XOR (reg_2 XOR reg_1);
         out = reg_2 XOR (reg_0 XOR inp)
     in ((inp, reg_0, reg_1), out))"

text \<open>\<^verbatim>\<open>tcod_lut\<close>, with pairs of the next state and the output, \<^verbatim>\<open>tcod_per_fw\<close> and \<^verbatim>\<open>tcod_interleavers\<close>.\<close>

record tcod_tables =
  tt_lut :: "(byte \<times> byte) list list"
  tt_per_fw :: "u16 list list"
  tt_interleavers :: "srsran_bit_interleaver list"

definition state_regs :: "byte \<Rightarrow> regs" where
  "state_regs state = (drop_bit 2 (state AND 4), drop_bit 1 (state AND 2), state AND 1)"

definition regs_state :: "regs \<Rightarrow> byte" where
  "regs_state = (\<lambda>(reg_0, reg_1, reg_2). ((push_bit 2 reg_0 OR push_bit 1 reg_1) OR reg_2) mod 8)"

definition lut_entry :: "byte \<Rightarrow> byte \<Rightarrow> byte \<times> byte" where
  "lut_entry state data =
     (let (regs, output) = foldl (\<lambda>(regs, output) i.
            (let bit = (if data AND push_bit (7 - i) 1 \<noteq> 0 then 1 else 0);
                 (regs, out) = rsc_step regs bit
             in (regs, output OR push_bit (7 - i) out)))
          (state_regs state, 0) [0..<8]
      in (regs_state regs, output))"

text \<open>The two arrays of the interleaver are fresh memory with the contents \<open>fwd0\<close> and \<open>rev0\<close>. An error of the
  interleaver, on which the function returns early, is \<open>None\<close>.\<close>

definition srsran_tcod_gentable :: "u16 list \<Rightarrow> u16 list \<Rightarrow> tcod_tables option" where
  "srsran_tcod_gentable fwd0 rev0 = do {
     let interl = \<lparr>ti_forward = fwd0, ti_reverse = rev0, ti_max_long_cb = 6144\<rparr>;
     (interl, per_fw, ils) \<leftarrow> for_loop (\<lambda>len (interl, per_fw, ils). do {
         let long_cb = nat (srsran_cbsegm_cbsize (word_of_nat len));
         (r, interl) \<leftarrow> srsran_tc_interl_LTE_gen interl long_cb;
         c_assert (r = 0);
         c_assert (long_cb \<le> length (ti_forward interl));
         let row = map (\<lambda>i. ti_forward interl ! i) [0..<long_cb] @ replicate (6144 - long_cb) 0;
         il \<leftarrow> srsran_bit_interleaver_init row long_cb;
         Some (interl, per_fw @ [row], ils @ [il])
       }) [0..<188] (interl, [], []);
     Some \<lparr>tt_lut = map (\<lambda>state. map (\<lambda>data. lut_entry (word_of_nat state) (word_of_nat data)) [0..<256]) [0..<8],
           tt_per_fw = per_fw, tt_interleavers = ils\<rparr>
   }"

text \<open>\<^verbatim>\<open>SRSRAN_TX_NULL\<close> marks a filler bit.\<close>

definition TX_NULL :: byte where
  "TX_NULL = 100"

text \<open>The tail of one constituent encoder: three steps with the fed back bit as the input.\<close>

definition tail_coder :: "regs \<Rightarrow> nat \<Rightarrow> byte list \<Rightarrow> (regs \<times> nat \<times> byte list) option" where
  "tail_coder regs k output =
     for_loop (\<lambda>j (regs, k, output). do {
         let (reg_0, reg_1, reg_2) = regs;
         let bit = reg_2 XOR reg_1;
         output \<leftarrow> arr_set output k bit;
         let (regs, out) = rsc_step regs bit;
         output \<leftarrow> arr_set output (k + 1) out;
         Some (regs, k + 2, output)
       }) [0..<3] (regs, k, output)"

text \<open>The body of the loop of \<^verbatim>\<open>srsran_tcod_encode\<close>: bit \<open>i\<close> and its two parity bits.\<close>

definition tcod_body :: "byte list \<Rightarrow> u16 list \<Rightarrow> nat \<Rightarrow> regs \<times> regs \<times> byte list \<Rightarrow> (regs \<times> regs \<times> byte list) option" where
  "tcod_body input per i = (\<lambda>(regs1, regs2, output). do {
     x \<leftarrow> arr_at input i;
     output \<leftarrow> arr_set output (3 * i) x;
     let (regs1, out) = rsc_step regs1 (if x = TX_NULL then 0 else x);
     output \<leftarrow> arr_set output (3 * i + 1) (if x = TX_NULL then TX_NULL else out);
     p \<leftarrow> arr_at per i;
     y \<leftarrow> arr_at input (unat p);
     let (regs2, out) = rsc_step regs2 (if y = TX_NULL then 0 else y);
     output \<leftarrow> arr_set output (3 * i + 2) out;
     Some (regs1, regs2, output)
   })"

definition srsran_tcod_encode ::
    "tcod_tables \<Rightarrow> nat \<Rightarrow> byte list \<Rightarrow> byte list \<Rightarrow> nat \<Rightarrow> (int \<times> byte list) option" where
  "srsran_tcod_encode T max_long_cb input output long_cb =
     (if max_long_cb < long_cb then Some (-1, output)
      else do {
        let longcb_idx = srsran_cbsegm_cbindex (word_of_nat long_cb);
        if longcb_idx < 0 then Some (-1, output)
        else do {
          per \<leftarrow> arr_at (tt_per_fw T) (nat longcb_idx);
          (regs1, regs2, output) \<leftarrow> for_loop (tcod_body input per) [0..<long_cb] ((0, 0, 0), (0, 0, 0), output);
          (regs1, k, output) \<leftarrow> tail_coder regs1 (3 * long_cb) output;
          (regs2, k, output) \<leftarrow> tail_coder regs2 k output;
          Some (0, output)
        }
      })"

text \<open>Encoding a byte at position \<open>i\<close> of the parity array.\<close>

definition lut_encode :: "tcod_tables \<Rightarrow> byte \<Rightarrow> byte \<Rightarrow> nat \<Rightarrow> byte list \<Rightarrow> (byte \<times> byte list) option" where
  "lut_encode T state x i parity = do {
     row \<leftarrow> arr_at (tt_lut T) (unat state);
     (next_state, out) \<leftarrow> arr_at row (unat x);
     parity \<leftarrow> arr_set parity i out;
     Some (next_state, parity)
   }"

text \<open>The bytes of a checksum, inserted behind the data and encoded; \<open>cb\<close> is the CRC of the code block when it is
  fed with them.\<close>

definition crc_bytes :: "tcod_tables \<Rightarrow> u32 \<Rightarrow> nat \<Rightarrow> nat \<Rightarrow> srsran_crc option \<times> byte \<times> byte list \<times> byte list \<Rightarrow>
    (srsran_crc option \<times> byte \<times> byte list \<times> byte list) option" where
  "crc_bytes T checksum order start =
     for_loop (\<lambda>i (cb, state, input, parity). do {
         let mask_shift = 8 * (order div 8 - i - 1);
         let idx = start + i;
         let x = ucast (drop_bit mask_shift checksum AND 0xff);
         cb \<leftarrow> (case cb of None \<Rightarrow> Some None | Some cb \<Rightarrow> map_option Some (srsran_crc_checksum_put_byte cb x));
         input \<leftarrow> arr_set input idx x;
         (state, parity) \<leftarrow> lut_encode T state x idx parity;
         Some (cb, state, input, parity)
       }) [0..<order div 8]"

text \<open>The first constituent encoder of \<^verbatim>\<open>srsran_tcod_encode_lut\<close>: the data bytes, the checksum of the transport
  block in its last code block, and the checksum of the code block. The number of data bytes is computed in
  unsigned 32 bit arithmetic.\<close>

definition lut_first :: "tcod_tables \<Rightarrow> srsran_crc \<Rightarrow> srsran_crc option \<Rightarrow> byte list \<Rightarrow> byte list \<Rightarrow> u32 \<Rightarrow> bool \<Rightarrow>
    (srsran_crc \<times> srsran_crc option \<times> byte \<times> byte list \<times> byte list) option" where
  "lut_first T crc_tb crc_cb input parity long_cb last_cb = do {
     let cb_order = (case crc_cb of None \<Rightarrow> 0 | Some cb \<Rightarrow> c_order cb);
     let block_size_nocrc = unat ((long_cb - word_of_nat cb_order - (if last_cb then word_of_nat (c_order crc_tb) else 0)) div 8);
     (crc_tb, crc_cb, state0, parity) \<leftarrow> for_loop (\<lambda>i (crc_tb, crc_cb, state0, parity). do {
         x \<leftarrow> arr_at input i;
         crc_tb \<leftarrow> srsran_crc_checksum_put_byte crc_tb x;
         crc_cb \<leftarrow> (case crc_cb of None \<Rightarrow> Some None | Some cb \<Rightarrow> map_option Some (srsran_crc_checksum_put_byte cb x));
         (state0, parity) \<leftarrow> lut_encode T state0 x i parity;
         Some (crc_tb, crc_cb, state0, parity)
       }) [0..<block_size_nocrc] (crc_tb, crc_cb, 0, parity);
     (crc_cb, state0, input, parity) \<leftarrow>
       (if last_cb
        then crc_bytes T (ucast (srsran_crc_checksum_get crc_tb)) (c_order crc_tb) block_size_nocrc (crc_cb, state0, input, parity)
        else Some (crc_cb, state0, input, parity));
     case crc_cb of
       None \<Rightarrow> Some (crc_tb, None, state0, input, parity)
     | Some cb \<Rightarrow> do {
         (_, state0, input, parity) \<leftarrow> crc_bytes T (ucast (srsran_crc_checksum_get cb)) (c_order cb)
           (unat ((long_cb - word_of_nat (c_order cb)) div 8)) (None, state0, input, parity);
         Some (crc_tb, Some cb, state0, input, parity)
       }
   }"

text \<open>The second constituent encoder, whose output starts behind four tail bits.\<close>

definition lut_second :: "tcod_tables \<Rightarrow> byte list \<Rightarrow> byte list \<Rightarrow> nat \<Rightarrow> (byte \<times> byte list) option" where
  "lut_second T temp parity nbytes =
     for_loop (\<lambda>i (state1, parity). do {
         x \<leftarrow> arr_at temp i;
         row \<leftarrow> arr_at (tt_lut T) (unat state1);
         (next_state, out) \<leftarrow> arr_at row (unat x);
         z \<leftarrow> arr_at parity (nbytes + i);
         parity \<leftarrow> arr_set parity (nbytes + i) (z OR drop_bit 4 (out AND 0xf0));
         parity \<leftarrow> arr_set parity (nbytes + i + 1) (push_bit 4 (out AND 0xf));
         Some (next_state, parity)
       }) [0..<nbytes] (0, parity)"

text \<open>The twelve tail bits and their place in the three streams.\<close>

definition lut_tail :: "byte \<Rightarrow> byte \<Rightarrow> byte list option" where
  "lut_tail state0 state1 = do {
     (_, k, tail) \<leftarrow> tail_coder (state_regs state0) 0 (replicate 12 0);
     (_, k, tail) \<leftarrow> tail_coder (state_regs state1) k tail;
     Some tail
   }"

definition tailv :: "byte list \<Rightarrow> nat \<Rightarrow> byte option" where
  "tailv tail j = do {
     v \<leftarrow> those (map (\<lambda>i. arr_at tail (3 * i + j)) [0..<4]);
     (x, _) \<leftarrow> srsran_bit_pack v 0 4;
     Some (ucast x)
   }"

definition srsran_tcod_encode_lut :: "tcod_tables \<Rightarrow> srsran_crc \<Rightarrow> srsran_crc option \<Rightarrow> byte list \<Rightarrow> byte list \<Rightarrow>
    byte list \<Rightarrow> u32 \<Rightarrow> bool \<Rightarrow> (int \<times> srsran_crc \<times> srsran_crc option \<times> byte list \<times> byte list \<times> byte list) option" where
  "srsran_tcod_encode_lut T crc_tb crc_cb input parity temp cblen_idx last_cb =
     (if cblen_idx < 188
      then do {
        let long_cb = (word_of_int (srsran_cbsegm_cbsize cblen_idx) :: u32);
        if long_cb mod 8 \<noteq> 0 then Some (-1, crc_tb, crc_cb, input, parity, temp)
        else do {
          let crc_cb = map_option (\<lambda>cb. snd (srsran_crc_set_init cb 0)) crc_cb;
          let nbytes = unat (long_cb div 8);
          (crc_tb, crc_cb, state0, input, parity) \<leftarrow> lut_first T crc_tb crc_cb input parity long_cb last_cb;
          parity \<leftarrow> arr_set parity nbytes 0;
          il \<leftarrow> arr_at (tt_interleavers T) (unat cblen_idx);
          temp \<leftarrow> srsran_bit_interleaver_run il input temp 0;
          (state1, parity) \<leftarrow> lut_second T temp parity nbytes;
          tail \<leftarrow> lut_tail state0 state1;
          x \<leftarrow> tailv tail 0;
          input \<leftarrow> arr_set input nbytes (push_bit 4 x);
          x \<leftarrow> tailv tail 1;
          z \<leftarrow> arr_at parity nbytes;
          parity \<leftarrow> arr_set parity nbytes (z OR push_bit 4 x);
          x \<leftarrow> tailv tail 2;
          z \<leftarrow> arr_at parity (2 * nbytes);
          parity \<leftarrow> arr_set parity (2 * nbytes) (z OR (x AND 0xf));
          Some (3 * uint long_cb + 12, crc_tb, crc_cb, input, parity, temp)
        }
      }
      else Some (-1, crc_tb, crc_cb, input, parity, temp))"

section \<open>The reference: the constituent encoder\<close>

text \<open>The content of the shift register with the feedback polynomial \<open>1 + D\<^sup>2 + D\<^sup>3\<close>, and the parity with
  \<open>1 + D + D\<^sup>3\<close>.\<close>

fun rsc_w :: "(nat \<Rightarrow> bool) \<Rightarrow> nat \<Rightarrow> bool" where
  "rsc_w x n = (x n \<noteq> ((if 2 \<le> n then rsc_w x (n - 2) else False) \<noteq> (if 3 \<le> n then rsc_w x (n - 3) else False)))"

declare rsc_w.simps [simp del]

definition delayed :: "nat \<Rightarrow> (nat \<Rightarrow> bool) \<Rightarrow> nat \<Rightarrow> bool" where
  "delayed k w n \<longleftrightarrow> (if k \<le> n then w (n - k) else False)"

definition rsc_z :: "(nat \<Rightarrow> bool) \<Rightarrow> nat \<Rightarrow> bool" where
  "rsc_z x n \<longleftrightarrow> rsc_w x n \<noteq> (delayed 1 (rsc_w x) n \<noteq> delayed 3 (rsc_w x) n)"

text \<open>The tail: the inputs that empty the register, each with its parity.\<close>

definition rsc_tail :: "(nat \<Rightarrow> bool) \<Rightarrow> nat \<Rightarrow> bool list" where
  "rsc_tail x n =
     (let a = delayed 1 (rsc_w x) n; b = delayed 2 (rsc_w x) n; c = delayed 3 (rsc_w x) n
      in [c \<noteq> b, c \<noteq> a, b \<noteq> a, b, a, a])"

section \<open>Steps of the encoder\<close>

lemma bit_byte_xor: "bit_byte a XOR bit_byte b = bit_byte (a \<noteq> b)"
  by (cases a; cases b) (simp_all add: bit_byte_def)

definition regs_of :: "bool \<times> bool \<times> bool \<Rightarrow> regs" where
  "regs_of = (\<lambda>(a, b, c). (bit_byte a, bit_byte b, bit_byte c))"

definition rsc_state :: "(nat \<Rightarrow> bool) \<Rightarrow> nat \<Rightarrow> bool \<times> bool \<times> bool" where
  "rsc_state x n = (delayed 1 (rsc_w x) n, delayed 2 (rsc_w x) n, delayed 3 (rsc_w x) n)"

lemma delayed_Suc: "delayed (Suc k) w (Suc n) = delayed k w n" "delayed 0 w n = w n"
  by (simp_all add: delayed_def)

lemma rsc_step_state: "rsc_step (regs_of (rsc_state x n)) (bit_byte (x n)) =
    (regs_of (rsc_state x (Suc n)), bit_byte (rsc_z x n))"
proof -
  have w: "rsc_w x n \<longleftrightarrow> x n \<noteq> (delayed 3 (rsc_w x) n \<noteq> delayed 2 (rsc_w x) n)"
    by (subst rsc_w.simps) (auto simp: delayed_def)
  have "rsc_state x (Suc n) = (rsc_w x n, delayed 1 (rsc_w x) n, delayed 2 (rsc_w x) n)"
    using delayed_Suc(1) [of 0 "rsc_w x" n] delayed_Suc(1) [of 1 "rsc_w x" n] delayed_Suc(1) [of 2 "rsc_w x" n]
    by (simp add: rsc_state_def numeral_eq_Suc delayed_Suc)
  moreover have "(x n \<noteq> (delayed 3 (rsc_w x) n \<noteq> delayed 2 (rsc_w x) n)) = rsc_w x n" using w by simp
  moreover have "(delayed 3 (rsc_w x) n \<noteq> (delayed 1 (rsc_w x) n \<noteq> rsc_w x n)) = rsc_z x n"
    by (auto simp: rsc_z_def)
  ultimately show ?thesis
    by (simp only: rsc_step_def regs_of_def rsc_state_def prod.case Let_def bit_byte_xor)
qed

lemma rsc_state_0: "regs_of (rsc_state x 0) = (0, 0, 0)"
  by (simp add: rsc_state_def regs_of_def delayed_def bit_byte_def)

lemma tail_coder:
  assumes "k + 6 \<le> length out"
  shows "tail_coder (regs_of (rsc_state x n)) k out =
           Some ((0, 0, 0), k + 6, take k out @ map bit_byte (rsc_tail x n) @ drop (k + 6) out)"
proof -
  obtain a b c where s: "rsc_state x n = (a, b, c)" by (metis prod_cases3)
  then have d: "delayed 1 (rsc_w x) n = a" "delayed 2 (rsc_w x) n = b" "delayed 3 (rsc_w x) n = c"
    by (simp_all add: rsc_state_def)
  have z: "(0 :: byte) = bit_byte False" by (simp add: bit_byte_def)
  have step: "rsc_step (bit_byte a, bit_byte b, bit_byte c) (bit_byte (c = (\<not> b))) = ((bit_byte False, bit_byte a, bit_byte b), bit_byte (c = (\<not> a)))" for a b c
    by (simp only: rsc_step_def prod.case Let_def bit_byte_xor) auto
  have u: "[0..<3] = [0, 1, 2]" by (simp add: upt_rec)
  have step0: "rsc_step (bit_byte False, bit_byte False, bit_byte a) (bit_byte a) =
      ((bit_byte False, bit_byte False, bit_byte False), bit_byte a)" for a
    by (simp only: rsc_step_def prod.case Let_def bit_byte_xor) auto
  have upd: "out[k := v0, Suc k := v1, Suc (Suc k) := v2, Suc (Suc (Suc k)) := v3, Suc (Suc (Suc (Suc k))) := v4,
        Suc (Suc (Suc (Suc (Suc k)))) := v5] = take k out @ v0 # v1 # v2 # v3 # v4 # v5 # drop (k + 6) out"
    for v0 v1 v2 v3 v4 v5
    using assms by (intro nth_equalityI) (auto simp: nth_list_update nth_append nth_Cons' split: if_splits)
  show ?thesis
    unfolding tail_coder_def s u regs_of_def prod.case rsc_tail_def d Let_def
    using assms
    by (simp add: bit_byte_xor step arr_set_def) (simp add: z bit_byte_xor step step0 arr_set_def upd)
qed

section \<open>The tables\<close>

definition cb_len :: "nat \<Rightarrow> nat" where
  "cb_len j = unat (tc_cb_sizes ! j)"

definition qpp_index :: "nat \<Rightarrow> nat \<Rightarrow> nat" where
  "qpp_index j i = (unat (f1_list ! j) * i + unat (f2_list ! j) * i * i) mod cb_len j"

definition tables_ok :: "nat \<Rightarrow> u16 list list \<Rightarrow> srsran_bit_interleaver list \<Rightarrow> bool" where
  "tables_ok n per ils \<longleftrightarrow> length per = n \<and> length ils = n \<and>
     (\<forall>j < n. cb_len j \<le> length (per ! j) \<and> (\<forall>i < cb_len j. unat (per ! j ! i) = qpp_index j i) \<and>
        srsran_bit_interleaver_init (per ! j) (cb_len j) = Some (ils ! j))"

lemma cb_len: "j < 188 \<Longrightarrow> 40 \<le> cb_len j \<and> cb_len j \<le> 6144"
  using tc_cb_sizes_range by (simp add: cb_len_def)

lemma qpp_index_less: "j < 188 \<Longrightarrow> qpp_index j i < cb_len j"
  using cb_len [of j] by (simp add: qpp_index_def)

lemma srsran_tcod_gentable:
  assumes len: "length fwd0 = 6144" "length rev0 = 6144"
  shows "\<exists>T. srsran_tcod_gentable fwd0 rev0 = Some T \<and> tables_ok 188 (tt_per_fw T) (tt_interleavers T) \<and>
           tt_lut T = map (\<lambda>state. map (\<lambda>data. lut_entry (word_of_nat state) (word_of_nat data)) [0..<256]) [0..<8]"
proof -
  let ?body = "\<lambda>len (interl, per_fw, ils). do {
         let long_cb = nat (srsran_cbsegm_cbsize (word_of_nat len));
         (r, interl) \<leftarrow> srsran_tc_interl_LTE_gen interl long_cb;
         c_assert (r = 0);
         c_assert (long_cb \<le> length (ti_forward interl));
         let row = map (\<lambda>i. ti_forward interl ! i) [0..<long_cb] @ replicate (6144 - long_cb) 0;
         il \<leftarrow> srsran_bit_interleaver_init row long_cb;
         Some (interl, per_fw @ [row], ils @ [il])
       }"
  let ?P = "\<lambda>n (h :: srsran_tc_interl, per, ils). length (ti_forward h) = 6144 \<and> length (ti_reverse h) = 6144 \<and> ti_max_long_cb h = 6144 \<and>
     tables_ok n per ils"
  have "\<exists>s. for_loop ?body [0..<188] (\<lparr>ti_forward = fwd0, ti_reverse = rev0, ti_max_long_cb = 6144\<rparr>, [], []) = Some s \<and> ?P 188 s"
  proof (rule for_loop_inv [where P = ?P])
    fix j s
    assume j: "j < 188" and P: "?P j s"
    obtain h per ils where s: "s = (h, per, ils)" by (metis prod_cases3)
    have K: "nat (srsran_cbsegm_cbsize (word_of_nat j)) = cb_len j"
      using cbsize [OF j] by (simp only: cb_len_def nat_int)
    obtain h' where h': "srsran_tc_interl_LTE_gen h (cb_len j) = Some (0, h')" "ti_max_long_cb h' = ti_max_long_cb h"
      "length (ti_forward h') = length (ti_forward h)" "length (ti_reverse h') = length (ti_reverse h)"
      "\<forall>i < cb_len j. unat (ti_forward h' ! i) = qpp_index j i"
      using tc_interl_gen [OF j, of "cb_len j" h] cb_len [OF j] P by (auto simp: s cb_len_def qpp_index_def)
    define row where "row = map (\<lambda>i. ti_forward h' ! i) [0..<cb_len j] @ replicate (6144 - cb_len j) 0"
    have row: "cb_len j \<le> length row" "\<forall>i < cb_len j. unat (row ! i) = qpp_index j i"
      using h'(5) by (auto simp: row_def nth_append)
    then obtain il where il: "srsran_bit_interleaver_init row (cb_len j) = Some il"
      by (auto simp: srsran_bit_interleaver_init_def)
    have "tables_ok (Suc j) (per @ [row]) (ils @ [il])"
      using P row il by (auto simp: s tables_ok_def nth_append less_Suc_eq)
    then have "?P (Suc j) (h', per @ [row], ils @ [il])" using P h' by (simp add: s)
    moreover have "?body j s = Some (h', per @ [row], ils @ [il])"
      using P h' il cb_len [OF j] by (simp add: s K Let_def row_def)
    ultimately show "\<exists>s'. ?body j s = Some s' \<and> ?P (Suc j) s'" by blast
  qed (use len in \<open>simp_all add: tables_ok_def\<close>)
  then obtain h per ils where "for_loop ?body [0..<188]
      (\<lparr>ti_forward = fwd0, ti_reverse = rev0, ti_max_long_cb = 6144\<rparr>, [], []) = Some (h, per, ils)" "tables_ok 188 per ils"
    by auto
  then show ?thesis
    unfolding srsran_tcod_gentable_def Let_def by (simp only: Option.bind.bind_lunit prod.case) simp
qed

section \<open>The encoder on bits\<close>

definition tcod_out :: "byte list \<Rightarrow> byte list \<Rightarrow> nat \<Rightarrow> nat \<Rightarrow> byte list \<Rightarrow> bool" where
  "tcod_out input output j n out \<longleftrightarrow> length out = length output \<and> drop (3 * cb_len j) out = drop (3 * cb_len j) output \<and>
     (\<forall>i < n. out ! (3 * i) = input ! i \<and>
        out ! (3 * i + 1) = bit_byte (rsc_z (\<lambda>k. byte_bit (input ! k)) i) \<and>
        out ! (3 * i + 2) = bit_byte (rsc_z (\<lambda>k. byte_bit (input ! qpp_index j k)) i))"

lemma tcod_body:
  assumes "i < length input" "i < length per" "unat (per ! i) < length input" "3 * i + 2 < length out"
    and in1: "input ! i = bit_byte b1" "input ! i \<noteq> TX_NULL"
    and in2: "input ! unat (per ! i) = bit_byte b2" "input ! unat (per ! i) \<noteq> TX_NULL"
    and s1: "rsc_step r1 (bit_byte b1) = (r1', z1)" and s2: "rsc_step r2 (bit_byte b2) = (r2', z2)"
  shows "tcod_body input per i (r1, r2, out) =
           Some (r1', r2', out[3 * i := input ! i, 3 * i + 1 := z1, 3 * i + 2 := z2])"
proof -
  have at: "arr_at input i = Some (input ! i)" "arr_at per i = Some (per ! i)"
    "arr_at input (unat (per ! i)) = Some (input ! unat (per ! i))"
    using assms(1-3) by (simp_all add: arr_at_def)
  have s: "rsc_step r1 (input ! i) = (r1', z1)" "rsc_step r2 (input ! unat (per ! i)) = (r2', z2)"
    using in1(1) in2(1) s1 s2 by simp_all
  show ?thesis
    unfolding tcod_body_def prod.case at Option.bind.bind_lunit if_not_P [OF in1(2)] if_not_P [OF in2(2)] Let_def s
    using assms(4) by (simp add: arr_set_def)
qed

lemma thirds: "3 * m + a = 3 * i + b \<Longrightarrow> a < 3 \<Longrightarrow> b < 3 \<Longrightarrow> m = i \<and> a = (b :: nat)"
proof -
  assume a: "3 * m + a = 3 * i + b" "a < 3" "b < 3"
  have "m = (3 * m + a) div 3" "i = (3 * i + b) div 3" using a by simp_all
  then have "m = i" using a(1) by metis
  then show ?thesis using a(1) by simp
qed

lemma tcod_out_Suc:
  assumes out: "tcod_out input output j i out" and i: "i < cb_len j" and fits: "3 * i + 2 < length output"
  shows "tcod_out input output j (Suc i) (out[3 * i := input ! i,
     3 * i + 1 := bit_byte (rsc_z (\<lambda>k. byte_bit (input ! k)) i),
     3 * i + 2 := bit_byte (rsc_z (\<lambda>k. byte_bit (input ! qpp_index j k)) i)])" (is "tcod_out _ _ _ _ ?out")
proof -
  have lo: "length out = length output" using out by (simp add: tcod_out_def)
  have old: "?out ! (3 * m + a) = out ! (3 * m + a)" if "m < i" "a < 3" for m a
    using that thirds [of m a i 0] thirds [of m a i 1] thirds [of m a i 2] by (simp add: nth_list_update)
  have new: "?out ! (3 * i) = input ! i" "?out ! (3 * i + 1) = bit_byte (rsc_z (\<lambda>k. byte_bit (input ! k)) i)"
    "?out ! (3 * i + 2) = bit_byte (rsc_z (\<lambda>k. byte_bit (input ! qpp_index j k)) i)"
    using fits lo by simp_all
  have d: "drop (3 * cb_len j) ?out = drop (3 * cb_len j) output" using out i by (simp add: tcod_out_def)
  show ?thesis
    unfolding tcod_out_def
  proof (intro conjI allI impI)
    show "?out ! (3 * m) = input ! m" if "m < Suc i" for m
      using that new(1) old [of m 0] out by (cases "m = i") (auto simp: tcod_out_def)
    show "?out ! (3 * m + 1) = bit_byte (rsc_z (\<lambda>k. byte_bit (input ! k)) m)" if "m < Suc i" for m
      using that new(2) old [of m 1] out by (cases "m = i") (auto simp: tcod_out_def)
    show "?out ! (3 * m + 2) = bit_byte (rsc_z (\<lambda>k. byte_bit (input ! qpp_index j k)) m)" if "m < Suc i" for m
      using that new(3) old [of m 2] out by (cases "m = i") (auto simp: tcod_out_def)
  qed (use d lo in simp_all)
qed

lemma tables_row:
  assumes "tables_ok n per ils" and "j < n"
  shows "cb_len j \<le> length (per ! j)" "i < cb_len j \<Longrightarrow> unat (per ! j ! i) = qpp_index j i" "length per = n"
    "srsran_bit_interleaver_init (per ! j) (cb_len j) = Some (ils ! j)" "length ils = n"
  using assms unfolding tables_ok_def by blast+

lemma is_bit_at:
  assumes "is_bits (take n xs)" and "i < n" "n \<le> length xs"
  shows "xs ! i = bit_byte (byte_bit (xs ! i)) \<and> xs ! i \<noteq> TX_NULL"
proof -
  have "i < length (take n xs)" using assms(2,3) by simp
  then have "take n xs ! i \<in> {0, 1}" using subsetD [OF assms(1) nth_mem] by blast
  then have "xs ! i \<in> {0, 1}" using assms(2) by simp
  then show ?thesis using bit_byte_byte_bit [of "xs ! i"] by (auto simp: TX_NULL_def)
qed

lemma tcod_loop:
  assumes T: "tables_ok 188 (tt_per_fw T) (tt_interleavers T)" and j: "j < 188"
    and input: "cb_len j \<le> length input" "is_bits (take (cb_len j) input)" and fits: "3 * cb_len j + 12 \<le> length output"
    and x1: "x1 = (\<lambda>k. byte_bit (input ! k))" and x2: "x2 = (\<lambda>k. byte_bit (input ! qpp_index j k))"
  shows "\<exists>out. for_loop (tcod_body input (tt_per_fw T ! j)) [0..<cb_len j] ((0, 0, 0), (0, 0, 0), output) =
      Some (regs_of (rsc_state x1 (cb_len j)), regs_of (rsc_state x2 (cb_len j)), out) \<and> tcod_out input output j (cb_len j) out"
proof -
  let ?K = "cb_len j" and ?per = "tt_per_fw T ! j"
  let ?body = "tcod_body input (tt_per_fw T ! j)"
  let ?P = "\<lambda>i (r1, r2, out). r1 = regs_of (rsc_state x1 i) \<and> r2 = regs_of (rsc_state x2 i) \<and> tcod_out input output j i out"
  note per = tables_row [OF T j]
  note bit = is_bit_at [OF input(2) _ input(1)]
  have q: "qpp_index j i < ?K" for i by (rule qpp_index_less [OF j])
  have "\<exists>s. for_loop ?body [0..<?K] ((0, 0, 0), (0, 0, 0), output) = Some s \<and> ?P ?K s"
  proof (rule for_loop_inv [where P = ?P])
    fix i s
    assume i: "i < ?K" and P: "?P i s"
    obtain out where s: "s = (regs_of (rsc_state x1 i), regs_of (rsc_state x2 i), out)" and out: "tcod_out input output j i out"
      using P by (cases s) simp
    let ?out = "out[3 * i := input ! i, 3 * i + 1 := bit_byte (rsc_z x1 i), 3 * i + 2 := bit_byte (rsc_z x2 i)]"
    have lo: "length out = length output" using out by (simp add: tcod_out_def)
    have "3 * i + 2 < length output" using i fits by linarith
    then have "tcod_out input output j (Suc i) ?out"
      unfolding x1 x2 using tcod_out_Suc [OF out i] by simp
    moreover have "?body i s = Some (regs_of (rsc_state x1 (Suc i)), regs_of (rsc_state x2 (Suc i)), ?out)"
      unfolding s
    proof (rule tcod_body [OF _ _ _ _ _ _ _ _ rsc_step_state rsc_step_state])
      show "input ! i = bit_byte (x1 i)" "input ! i \<noteq> TX_NULL" using bit [OF i] by (auto simp: x1)
      show "input ! unat (?per ! i) = bit_byte (x2 i)" "input ! unat (?per ! i) \<noteq> TX_NULL"
        using bit [OF q, of i] per(2) [OF i] by (auto simp: x2)
    qed (use i input(1) per(1,2) q [of i] lo fits in simp_all)
    ultimately show "\<exists>s'. ?body i s = Some s' \<and> ?P (Suc i) s'" by (intro exI conjI) (assumption, simp)
  qed (simp_all add: rsc_state_0 tcod_out_def)
  then show ?thesis by auto
qed

lemma splice_tails:
  assumes "length t1 = 6" "length t2 = 6" "n + 12 \<le> length out"
  shows "take (n + 6) (take n out @ t1 @ drop (n + 6) out) @ t2 @ drop (n + 6 + 6) (take n out @ t1 @ drop (n + 6) out) =
           take n out @ t1 @ t2 @ drop (n + 12) out"
    "length (take n out @ t1 @ t2 @ drop (n + 12) out) = length out"
    "i < n \<Longrightarrow> (take n out @ t1 @ t2 @ drop (n + 12) out) ! i = out ! i"
    "take 12 (drop n (take n out @ t1 @ t2 @ drop (n + 12) out)) = t1 @ t2"
    "drop (n + 12) (take n out @ t1 @ t2 @ drop (n + 12) out) = drop 12 (drop n out)"
  using assms by (simp_all add: nth_append add.commute)

lemma srsran_tcod_encode:
  assumes T: "tables_ok 188 (tt_per_fw T) (tt_interleavers T)" and j: "j < 188" and "cb_len j \<le> max_cb"
    and input: "cb_len j \<le> length input" "is_bits (take (cb_len j) input)" and fits: "3 * cb_len j + 12 \<le> length output"
    and x1: "x1 = (\<lambda>k. byte_bit (input ! k))" and x2: "x2 = (\<lambda>k. byte_bit (input ! qpp_index j k))"
  shows "\<exists>out. srsran_tcod_encode T max_cb input output (cb_len j) = Some (0, out) \<and> length out = length output \<and>
    (\<forall>i < cb_len j. out ! (3 * i) = input ! i \<and> out ! (3 * i + 1) = bit_byte (rsc_z x1 i) \<and>
       out ! (3 * i + 2) = bit_byte (rsc_z x2 i)) \<and>
    take 12 (drop (3 * cb_len j) out) = map bit_byte (rsc_tail x1 (cb_len j) @ rsc_tail x2 (cb_len j)) \<and>
    drop (3 * cb_len j + 12) out = drop (3 * cb_len j + 12) output"
proof -
  let ?K = "cb_len j" and ?per = "tt_per_fw T ! j"
  have per: "length (tt_per_fw T) = 188" using tables_row(3) [OF T j] .
  obtain out where loop: "for_loop (tcod_body input ?per) [0..<?K] ((0, 0, 0), (0, 0, 0), output) =
      Some (regs_of (rsc_state x1 ?K), regs_of (rsc_state x2 ?K), out)" and out: "tcod_out input output j ?K out"
    using tcod_loop [OF T j input fits x1 x2] by blast
  have lo: "length out = length output" using out by (simp add: tcod_out_def)
  let ?t1 = "map bit_byte (rsc_tail x1 ?K)" and ?t2 = "map bit_byte (rsc_tail x2 ?K)"
  let ?o1 = "take (3 * ?K) out @ ?t1 @ drop (3 * ?K + 6) out"
  let ?o2 = "take (3 * ?K + 6) ?o1 @ ?t2 @ drop (3 * ?K + 6 + 6) ?o1"
  have lt: "length (rsc_tail x n) = 6" for x n by (simp add: rsc_tail_def Let_def)
  have t1: "tail_coder (regs_of (rsc_state x1 ?K)) (3 * ?K) out = Some ((0, 0, 0), 3 * ?K + 6, ?o1)"
    using fits lo by (intro tail_coder) simp
  have t2: "tail_coder (regs_of (rsc_state x2 ?K)) (3 * ?K + 6) ?o1 = Some ((0, 0, 0), 3 * ?K + 6 + 6, ?o2)"
    using fits lo lt by (intro tail_coder) simp
  have l6: "length ?t1 = 6" "length ?t2 = 6" "3 * ?K + 12 \<le> length out" using fits lo lt by simp_all
  note o2 = splice_tails [OF l6]
  have idx: "srsran_cbsegm_cbindex (word_of_nat ?K) = int j" using cbindex_table [OF j] by (simp add: cb_len_def)
  have row: "arr_at (tt_per_fw T) j = Some ?per" using j per by (simp add: arr_at_def)
  have "srsran_tcod_encode T max_cb input output ?K = Some (0, ?o2)"
    unfolding srsran_tcod_encode_def Let_def idx
    using assms(3) loop t1 t2 by (simp add: row Let_def)
  moreover have "length ?o2 = length output" by (simp only: o2(1,2) lo)
  moreover have "\<forall>i < ?K. ?o2 ! (3 * i) = input ! i \<and> ?o2 ! (3 * i + 1) = bit_byte (rsc_z x1 i) \<and>
       ?o2 ! (3 * i + 2) = bit_byte (rsc_z x2 i)"
  proof (intro allI impI)
    fix i
    assume i: "i < ?K"
    then have "3 * i < 3 * ?K" "3 * i + 1 < 3 * ?K" "3 * i + 2 < 3 * ?K" by linarith+
    then show "?o2 ! (3 * i) = input ! i \<and> ?o2 ! (3 * i + 1) = bit_byte (rsc_z x1 i) \<and>
       ?o2 ! (3 * i + 2) = bit_byte (rsc_z x2 i)"
      unfolding o2(1) using o2(3) out i by (simp only: tcod_out_def x1 x2)
  qed
  moreover have "take 12 (drop (3 * ?K) ?o2) = map bit_byte (rsc_tail x1 ?K @ rsc_tail x2 ?K)"
    by (simp only: o2(1,4) map_append)
  moreover have "drop (3 * ?K + 12) ?o2 = drop (3 * ?K + 12) output"
  proof -
    have "drop (3 * ?K) out = drop (3 * ?K) output" using out by (simp only: tcod_out_def)
    then have "drop 12 (drop (3 * ?K) out) = drop (3 * ?K + 12) output" by (simp add: add.commute)
    then show ?thesis by (simp only: o2(1,5))
  qed
  ultimately show ?thesis by blast
qed

section \<open>The table of the encoder\<close>

definition state_code :: "bool \<times> bool \<times> bool \<Rightarrow> byte" where
  "state_code s = regs_state (regs_of s)"

lemma state_regs_code: "state_regs (state_code s) = regs_of s"
  by (cases s) (auto simp: state_code_def regs_of_def regs_state_def state_regs_def bit_byte_def)

lemma state_code_small: "unat (state_code s) < 8"
  by (cases s) (auto simp: state_code_def regs_of_def regs_state_def bit_byte_def)

definition rsc_byte :: "(nat \<Rightarrow> bool) \<Rightarrow> nat \<Rightarrow> byte" where
  "rsc_byte x i = num_of (map (\<lambda>m. rsc_z x (8 * i + m)) [0..<8])"

lemma or_bit_num_of:
  assumes "i < 8"
  shows "num_of (map b [0..<i] @ replicate (8 - i) False) OR push_bit (7 - i) (bit_byte (b i)) =
           (num_of (map b [0..<Suc i] @ replicate (8 - Suc i) False) :: byte)"
proof (rule bit_word_eqI)
  fix k
  assume k: "k < LENGTH(8)"
  have st: "bit (num_of (map b [0..<j] @ replicate (8 - j) False) :: byte) k \<longleftrightarrow> 7 - k < j \<and> b (7 - k)" if "j \<le> 8" for j
    using that k by (auto simp: bit_num_of nth_append)
  have "bit (push_bit (7 - i) (bit_byte (b i)) :: byte) k \<longleftrightarrow> k = 7 - i \<and> b i"
    using k assms by (auto simp: bit_byte_def bit_push_bit_iff bit_1_iff simp del: push_bit_of_1)
  then show "bit (num_of (map b [0..<i] @ replicate (8 - i) False) OR push_bit (7 - i) (bit_byte (b i))) k \<longleftrightarrow>
      bit (num_of (map b [0..<Suc i] @ replicate (8 - Suc i) False) :: byte) k"
    unfolding bit_or_iff using st [of i] st [of "Suc i"] assms k by (cases "k = 7 - i") auto
qed

lemma foldl_states: "(\<And>i. i < n \<Longrightarrow> f (st i) i = st (Suc i)) \<Longrightarrow> foldl f (st 0) [0..<n] = st n"
  by (induction n) simp_all

lemma lut_entry:
  assumes "\<And>i. i < 8 \<Longrightarrow> bit data (7 - i) = x (8 * n + i)"
  shows "lut_entry (state_code (rsc_state x (8 * n))) data = (state_code (rsc_state x (8 * Suc n)), rsc_byte x n)"
proof -
  let ?f = "\<lambda>(regs, output) i.
            (let bit = (if data AND push_bit (7 - i) 1 \<noteq> 0 then 1 else 0);
                 (regs, out) = rsc_step regs bit
             in (regs, output OR push_bit (7 - i) out))"
  define st where "st = (\<lambda>i. (regs_of (rsc_state x (8 * n + i)),
     num_of (map (\<lambda>m. rsc_z x (8 * n + m)) [0..<i] @ replicate (8 - i) False) :: byte))"
  have "?f (st i) i = st (Suc i)" if "i < 8" for i
  proof -
    have "(if data AND push_bit (7 - i) 1 \<noteq> 0 then 1 else 0) = bit_byte (x (8 * n + i))"
      using assms [OF that] and_mask_bit [of "7 - i" data] by (simp add: bit_byte_def)
    then show ?thesis
      using or_bit_num_of [OF that, of "\<lambda>m. rsc_z x (8 * n + m)"]
      by (simp only: st_def prod.case Let_def rsc_step_state add_Suc_right)
  qed
  then have "foldl ?f (st 0) [0..<8] = st 8" by (rule foldl_states)
  moreover have "(num_of (map (\<lambda>m. rsc_z x (8 * n + m)) [0..<0] @ replicate (8 - 0) False) :: byte) = 0"
    by (rule bit_word_eqI) (auto simp: bit_num_of)
  ultimately have "foldl ?f (regs_of (rsc_state x (8 * n)), 0) [0..<8] = (regs_of (rsc_state x (8 * Suc n)), rsc_byte x n)"
    by (simp only: st_def rsc_byte_def add_0_right) (simp add: add.commute)
  then show ?thesis
    by (simp only: lut_entry_def state_regs_code Let_def prod.case state_code_def [symmetric])
qed

definition lut_ok :: "(byte \<times> byte) list list \<Rightarrow> bool" where
  "lut_ok lut \<longleftrightarrow> lut = map (\<lambda>state. map (\<lambda>data. lut_entry (word_of_nat state) (word_of_nat data)) [0..<256]) [0..<8]"

lemma lut_lookup:
  fixes data :: byte
  assumes "lut_ok lut" and "\<And>i. i < 8 \<Longrightarrow> bit data (7 - i) = x (8 * n + i)"
  shows "(arr_at lut (unat (state_code (rsc_state x (8 * n)))) \<bind> (\<lambda>row. arr_at row (unat data))) =
           Some (state_code (rsc_state x (8 * Suc n)), rsc_byte x n)"
proof -
  let ?s = "state_code (rsc_state x (8 * n))"
  have "unat data < 2 ^ LENGTH(8)" by (rule unsigned_less)
  then have d: "unat data < 256" by simp
  moreover have "[0..<8] ! unat ?s = unat ?s" "[0..<256] ! unat data = unat data"
    using state_code_small d by (subst nth_upt; simp)+
  ultimately have "(arr_at lut (unat ?s) \<bind> (\<lambda>row. arr_at row (unat data))) = Some (lut_entry ?s data)"
    using assms(1) state_code_small [of "rsc_state x (8 * n)"]
    by (simp add: lut_ok_def arr_at_def del: upt_rec_numeral)
  then show ?thesis using lut_entry [of data x n] assms(2) by simp
qed

section \<open>The first encoder on bytes\<close>

lemma packed_bit_at: "m < 8 \<Longrightarrow> packed_bit xs (8 * i + m) = bit (xs ! i) (7 - m)"
  by (simp add: packed_bit_def)

lemma lut_encode:
  assumes "lut_ok (tt_lut T)" and "i < length parity"
    and "\<And>m. m < 8 \<Longrightarrow> bit b (7 - m) = x (8 * i + m)"
  shows "lut_encode T (state_code (rsc_state x (8 * i))) b i parity =
           Some (state_code (rsc_state x (8 * Suc i)), parity[i := rsc_byte x i])"
  using lut_lookup [OF assms(1,3)] assms(2)
  by (auto simp: lut_encode_def arr_set_def split: Option.bind_splits)

text \<open>The state and the outputs depend on the bits before.\<close>

lemma rsc_w_cong: "(\<And>k. k \<le> n \<Longrightarrow> x k = y k) \<Longrightarrow> rsc_w x n = rsc_w y n"
proof (induction n rule: less_induct)
  case (less n)
  then show ?case by (subst (1 2) rsc_w.simps) auto
qed

lemma rsc_state_cong: "(\<And>k. k < n \<Longrightarrow> x k = y k) \<Longrightarrow> rsc_state x n = rsc_state y n"
  using rsc_w_cong [of "n - 1" x y] rsc_w_cong [of "n - 2" x y] rsc_w_cong [of "n - 3" x y]
  by (auto simp: rsc_state_def delayed_def)

lemma rsc_z_cong:
  assumes "\<And>k. k \<le> n \<Longrightarrow> x k = y k"
  shows "rsc_z x n = rsc_z y n"
proof -
  have "rsc_w x m = rsc_w y m" if "m \<le> n" for m using rsc_w_cong [of m x y] assms that by simp
  then show ?thesis by (simp add: rsc_z_def delayed_def)
qed

lemma rsc_byte_cong: "(\<And>k. k < 8 * Suc i \<Longrightarrow> x k = y k) \<Longrightarrow> rsc_byte x i = rsc_byte y i"
  unfolding rsc_byte_def by (intro arg_cong [where f = num_of] map_cong refl rsc_z_cong) auto

definition enc_inv :: "nat \<Rightarrow> byte list \<Rightarrow> byte \<Rightarrow> byte list \<Rightarrow> bool" where
  "enc_inv i input state parity \<longleftrightarrow> state = state_code (rsc_state (packed_bit input) (8 * i)) \<and>
     (\<forall>k < i. parity ! k = rsc_byte (packed_bit input) k)"

lemma enc_step:
  assumes "lut_ok (tt_lut T)" "enc_inv i input state parity" "i < length parity"
  shows "\<exists>state' parity'. lut_encode T state (input ! i) i parity = Some (state', parity') \<and>
           enc_inv (Suc i) input state' parity' \<and> length parity' = length parity \<and>
           drop (Suc i) parity' = drop (Suc i) parity"
proof -
  have "lut_encode T state (input ! i) i parity =
      Some (state_code (rsc_state (packed_bit input) (8 * Suc i)), parity[i := rsc_byte (packed_bit input) i])"
    using lut_encode [OF assms(1,3), of "input ! i" "packed_bit input"] assms(2) packed_bit_at [of _ input i]
    by (simp add: enc_inv_def)
  then show ?thesis
    using assms(2,3) by (auto simp: enc_inv_def nth_list_update)
qed

lemma packed_bit_update: "k < 8 * idx \<Longrightarrow> packed_bit (input[idx := v]) k = packed_bit input k"
proof -
  assume "k < 8 * idx"
  then have "k div 8 \<noteq> idx" by (metis div_less_iff_less_mult less_irrefl mult.commute zero_less_numeral)
  then show ?thesis by (simp add: packed_bit_def)
qed

lemma enc_update:
  assumes "enc_inv i input state parity" "i \<le> idx"
  shows "enc_inv i (input[idx := v]) state parity"
proof -
  have eq: "packed_bit (input[idx := v]) k = packed_bit input k" if "k < 8 * i" for k
    using that assms(2) by (intro packed_bit_update) simp
  have "rsc_byte (packed_bit (input[idx := v])) k = rsc_byte (packed_bit input) k" if "k < i" for k
    using that by (intro rsc_byte_cong eq) simp
  moreover have "rsc_state (packed_bit (input[idx := v])) (8 * i) = rsc_state (packed_bit input) (8 * i)"
    by (intro rsc_state_cong eq)
  ultimately show ?thesis using assms(1) by (simp add: enc_inv_def)
qed

text \<open>A checksum object that has been fed with bytes.\<close>

definition bytes_bits :: "byte list \<Rightarrow> bool list" where
  "bytes_bits xs = concat (map (bits_of 8) xs)"

definition crc_fed :: "u64 \<Rightarrow> nat \<Rightarrow> srsran_crc \<Rightarrow> byte list \<Rightarrow> srsran_crc \<Rightarrow> bool" where
  "crc_fed p n h bs h' \<longleftrightarrow> crc_ok p n h' \<and>
     take_bit n (c_crcinit h') = foldl (crc_step p n) (take_bit n (c_crcinit h)) (bytes_bits bs)"

definition crc_fed_opt :: "u64 \<Rightarrow> nat \<Rightarrow> srsran_crc option \<Rightarrow> byte list \<Rightarrow> srsran_crc option \<Rightarrow> bool" where
  "crc_fed_opt p n cb bs cb' \<longleftrightarrow>
     (case cb of None \<Rightarrow> cb' = None | Some h \<Rightarrow> (\<exists>h'. cb' = Some h' \<and> crc_fed p n h bs h'))"

lemma crc_fed_snoc:
  assumes "crc_fed p n h bs h'"
  shows "\<exists>h''. srsran_crc_checksum_put_byte h' b = Some h'' \<and> crc_fed p n h (bs @ [b]) h''"
proof -
  obtain h'' where "srsran_crc_checksum_put_byte h' b = Some h''" "crc_ok p n h''"
    "take_bit n (c_crcinit h'') = foldl (crc_step p n) (take_bit n (c_crcinit h')) (bits_of 8 b)"
    using put_byte_ok [of p n h' b] assms by (auto simp: crc_fed_def)
  with assms show ?thesis by (auto simp: crc_fed_def bytes_bits_def)
qed

lemma crc_fed_opt_snoc:
  assumes "crc_fed_opt p n cb bs cb'"
  shows "\<exists>cb''. (case cb' of None \<Rightarrow> Some None | Some h \<Rightarrow> map_option Some (srsran_crc_checksum_put_byte h b)) = Some cb'' \<and>
           crc_fed_opt p n cb (bs @ [b]) cb''"
  using assms crc_fed_snoc [of p n _ bs _ b]
  by (cases cb) (fastforce simp: crc_fed_opt_def)+

lemma crc_fed_opt_refl: "(case cb of None \<Rightarrow> True | Some h \<Rightarrow> crc_ok p n h) \<Longrightarrow> crc_fed_opt p n cb [] cb"
  by (auto simp: crc_fed_opt_def crc_fed_def bytes_bits_def split: option.splits)

text \<open>The data bytes.\<close>

lemma data_loop:
  assumes lut: "lut_ok (tt_lut T)" and nb: "nb \<le> length input" "nb \<le> length parity"
    and crc: "crc_ok pt nt tb" "case cb of None \<Rightarrow> True | Some h \<Rightarrow> crc_ok pc nc h"
  shows "\<exists>tb' cb' state parity'. for_loop (\<lambda>i (crc_tb, crc_cb, state0, parity). do {
         x \<leftarrow> arr_at input i;
         crc_tb \<leftarrow> srsran_crc_checksum_put_byte crc_tb x;
         crc_cb \<leftarrow> (case crc_cb of None \<Rightarrow> Some None | Some cb \<Rightarrow> map_option Some (srsran_crc_checksum_put_byte cb x));
         (state0, parity) \<leftarrow> lut_encode T state0 x i parity;
         Some (crc_tb, crc_cb, state0, parity)
       }) [0..<nb] (tb, cb, 0, parity) = Some (tb', cb', state, parity') \<and>
     crc_fed pt nt tb (take nb input) tb' \<and> crc_fed_opt pc nc cb (take nb input) cb' \<and>
     enc_inv nb input state parity' \<and> length parity' = length parity \<and> drop nb parity' = drop nb parity"
proof -
  let ?body = "\<lambda>i (crc_tb, crc_cb, state0, parity). do {
         x \<leftarrow> arr_at input i;
         crc_tb \<leftarrow> srsran_crc_checksum_put_byte crc_tb x;
         crc_cb \<leftarrow> (case crc_cb of None \<Rightarrow> Some None | Some cb \<Rightarrow> map_option Some (srsran_crc_checksum_put_byte cb x));
         (state0, parity) \<leftarrow> lut_encode T state0 x i parity;
         Some (crc_tb, crc_cb, state0, parity)
       }"
  let ?P = "\<lambda>i (tb', cb', state, parity'). crc_fed pt nt tb (take i input) tb' \<and> crc_fed_opt pc nc cb (take i input) cb' \<and>
     enc_inv i input state parity' \<and> length parity' = length parity \<and> drop i parity' = drop i parity"
  have "\<exists>s. for_loop ?body [0..<nb] (tb, cb, 0, parity) = Some s \<and> ?P nb s"
  proof (rule for_loop_inv [where P = ?P])
    fix i s
    assume i: "i < nb" and P: "?P i s"
    obtain tb1 cb1 state1 parity1 where s: "s = (tb1, cb1, state1, parity1)" by (metis prod_cases4)
    have p: "crc_fed pt nt tb (take i input) tb1" "crc_fed_opt pc nc cb (take i input) cb1"
      "enc_inv i input state1 parity1" "length parity1 = length parity" "drop i parity1 = drop i parity"
      using P by (simp_all add: s)
    have x: "arr_at input i = Some (input ! i)" and t: "take (Suc i) input = take i input @ [input ! i]"
      using i nb by (simp_all add: arr_at_def take_Suc_conv_app_nth)
    obtain tb2 where tb2: "srsran_crc_checksum_put_byte tb1 (input ! i) = Some tb2" "crc_fed pt nt tb (take (Suc i) input) tb2"
      using crc_fed_snoc [OF p(1)] unfolding t by blast
    obtain cb2 where cb2: "(case cb1 of None \<Rightarrow> Some None | Some h \<Rightarrow> map_option Some (srsran_crc_checksum_put_byte h (input ! i))) = Some cb2"
      "crc_fed_opt pc nc cb (take (Suc i) input) cb2"
      using crc_fed_opt_snoc [OF p(2)] unfolding t by blast
    have "i < length parity1" using i nb p(4) by simp
    then obtain state2 parity2 where st2: "lut_encode T state1 (input ! i) i parity1 = Some (state2, parity2)"
      "enc_inv (Suc i) input state2 parity2" "length parity2 = length parity1" "drop (Suc i) parity2 = drop (Suc i) parity1"
      using enc_step [OF lut p(3)] by blast
    have "drop (Suc i) parity1 = drop (Suc i) parity" using p(5) by (metis drop_drop plus_1_eq_Suc)
    then have "?P (Suc i) (tb2, cb2, state2, parity2)" using tb2 cb2 st2 p by simp
    moreover have "?body i s = Some (tb2, cb2, state2, parity2)"
      by (simp only: s prod.case x tb2(1) cb2(1) st2(1) Option.bind.bind_lunit)
    ultimately show "\<exists>s'. ?body i s = Some s' \<and> ?P (Suc i) s'" by blast
  next
    have "state_code (rsc_state x 0) = 0" for x
      by (simp add: state_code_def rsc_state_0 regs_state_def)
    then show "?P 0 (tb, cb, 0, parity)"
      using crc crc_fed_opt_refl [of pc nc cb] by (simp add: crc_fed_def bytes_bits_def enc_inv_def)
  qed simp
  then show ?thesis by auto
qed

text \<open>The bytes of a checksum.\<close>

definition checksum_bytes :: "u32 \<Rightarrow> nat \<Rightarrow> byte list" where
  "checksum_bytes c order = map (\<lambda>i. ucast (drop_bit (8 * (order div 8 - i - 1)) c AND 0xff)) [0..<order div 8]"

lemma length_checksum_bytes [simp]: "length (checksum_bytes c order) = order div 8"
  by (simp add: checksum_bytes_def)

lemma length_bytes_bits [simp]: "length (bytes_bits xs) = 8 * length xs"
  by (induction xs) (simp_all add: bytes_bits_def)

lemma bytes_bits_nth: "i < 8 * length xs \<Longrightarrow> bytes_bits xs ! i = packed_bit xs i"
proof (induction xs arbitrary: i)
  case (Cons x xs)
  show ?case
  proof (cases "i < 8")
    case True
    then have "i div 8 = 0" "i mod 8 = i" by simp_all
    then show ?thesis using True by (simp add: bytes_bits_def packed_bit_def nth_append bits_of_def)
  next
    case False
    then have "i div 8 = Suc ((i - 8) div 8)" "i mod 8 = (i - 8) mod 8"
      by (simp_all add: le_div_geq le_mod_geq)
    then show ?thesis
      using False Cons by (simp add: bytes_bits_def packed_bit_def nth_append)
  qed
qed simp

lemma bytes_bits_packed: "bytes_bits xs = map (packed_bit xs) [0..<8 * length xs]"
  by (rule nth_equalityI) (simp_all add: bytes_bits_nth)

lemma bytes_bits_append: "bytes_bits (xs @ ys) = bytes_bits xs @ bytes_bits ys"
  by (simp add: bytes_bits_def)

lemma byte_pos:
  assumes "b < a" "r < (8 :: nat)"
  shows "8 * (a - b - 1) + (7 - r) = 8 * a - 1 - (8 * b + r)"
proof -
  obtain d where "a = b + 1 + d" using assms(1) less_imp_Suc_add by fastforce
  then show ?thesis using assms(2) by simp
qed

lemma bit_checksum_bytes:
  assumes "b < n div 8" "r < 8"
  shows "bit (checksum_bytes c n ! b) (7 - r) \<longleftrightarrow> bit c (8 * (n div 8 - b - 1) + (7 - r))"
proof -
  have ff: "(0xff :: u32) = mask 8" by (simp add: mask_eq_exp_minus_1)
  have "checksum_bytes c n ! b = ucast (drop_bit (8 * (n div 8 - b - 1)) c AND mask 8)"
    using assms(1) unfolding ff [symmetric] by (simp add: checksum_bytes_def)
  moreover have "7 - r < 8" by simp
  ultimately show ?thesis
    by (simp only: bit_ucast_iff bit_and_iff bit_drop_bit_eq bit_mask_iff o_apply) (auto dest: bit_imp_le_length)
qed

lemma bytes_bits_checksum:
  assumes "n mod 8 = 0" "n \<le> 32"
  shows "bytes_bits (checksum_bytes (ucast (c :: u64)) n) = bits_of n c"
proof (rule nth_equalityI)
  have n8: "8 * (n div 8) = n" using assms(1) by auto
  show "length (bytes_bits (checksum_bytes (ucast c) n)) = length (bits_of n c)"
    using n8 by simp
  fix i
  assume "i < length (bytes_bits (checksum_bytes (ucast c) n))"
  then have i: "i < n" using n8 by simp
  then have "i < n div 8 * 8" using n8 by linarith
  then have b: "i div 8 < n div 8" by (rule less_mult_imp_div_less)
  have r: "i mod 8 < 8" by simp
  have pos: "8 * (n div 8 - i div 8 - 1) + (7 - i mod 8) = n - 1 - i"
    using byte_pos [OF b r] by (simp only: n8 mult_div_mod_eq)
  have "i < 8 * length (checksum_bytes (ucast c) n)" using i n8 by simp
  then have "bytes_bits (checksum_bytes (ucast c) n) ! i = bit (ucast c :: u32) (n - 1 - i)"
    by (simp only: bytes_bits_nth packed_bit_def bit_checksum_bytes [OF b r] pos)
  also have "\<dots> = bit c (n - 1 - i)"
    using i assms(2) by (auto simp: bit_ucast_iff)
  finally show "bytes_bits (checksum_bytes (ucast c) n) ! i = bits_of n c ! i"
    using i by (simp add: bits_of_def)
qed

lemma crc_bytes:
  assumes lut: "lut_ok (tt_lut T)" and inv: "enc_inv start input state parity"
    and len: "start + order div 8 \<le> length input" "start + order div 8 \<le> length parity"
    and cb: "case cb of None \<Rightarrow> True | Some h \<Rightarrow> crc_ok p n h"
  shows "\<exists>cb' state' input' parity'. crc_bytes T c order start (cb, state, input, parity) = Some (cb', state', input', parity') \<and>
    input' = take start input @ checksum_bytes c order @ drop (start + order div 8) input \<and>
    crc_fed_opt p n cb (checksum_bytes c order) cb' \<and>
    enc_inv (start + order div 8) input' state' parity' \<and> length parity' = length parity \<and>
    drop (start + order div 8) parity' = drop (start + order div 8) parity"
proof -
  let ?cs = "checksum_bytes c order"
  let ?body = "\<lambda>i (cb, state, input, parity). do {
         let mask_shift = 8 * (order div 8 - i - 1);
         let idx = start + i;
         let x = ucast (drop_bit mask_shift c AND 0xff);
         cb \<leftarrow> (case cb of None \<Rightarrow> Some None | Some cb \<Rightarrow> map_option Some (srsran_crc_checksum_put_byte cb x));
         input \<leftarrow> arr_set input idx x;
         (state, parity) \<leftarrow> lut_encode T state x idx parity;
         Some (cb, state, input, parity)
       }"
  let ?P = "\<lambda>i (cb', state', input', parity'). input' = take start input @ take i ?cs @ drop (start + i) input \<and>
     crc_fed_opt p n cb (take i ?cs) cb' \<and> enc_inv (start + i) input' state' parity' \<and>
     length parity' = length parity \<and> drop (start + i) parity' = drop (start + i) parity"
  have "\<exists>s. for_loop ?body [0..<order div 8] (cb, state, input, parity) = Some s \<and> ?P (order div 8) s"
  proof (rule for_loop_inv [where P = ?P])
    fix i s
    assume i: "i < order div 8" and P: "?P i s"
    obtain cb1 state1 input1 parity1 where s: "s = (cb1, state1, input1, parity1)" by (metis prod_cases4)
    have p: "input1 = take start input @ take i ?cs @ drop (start + i) input" "crc_fed_opt p n cb (take i ?cs) cb1"
      "enc_inv (start + i) input1 state1 parity1" "length parity1 = length parity" "drop (start + i) parity1 = drop (start + i) parity"
      using P unfolding s prod.case by blast+
    define x where "x = ?cs ! i"
    have x: "ucast (drop_bit (8 * (order div 8 - i - 1)) c AND 0xff) = x"
      using i by (simp add: x_def checksum_bytes_def)
    have t: "take (Suc i) ?cs = take i ?cs @ [x]" using i by (simp add: x_def take_Suc_conv_app_nth)
    obtain cb2 where cb2: "(case cb1 of None \<Rightarrow> Some None | Some h \<Rightarrow> map_option Some (srsran_crc_checksum_put_byte h x)) = Some cb2"
      "crc_fed_opt p n cb (take (Suc i) ?cs) cb2"
      using crc_fed_opt_snoc [OF p(2)] unfolding t by blast
    have li: "length input1 = length input" using p(1) i len(1) by simp
    have d: "drop (start + i) input = input ! (start + i) # drop (Suc (start + i)) input"
      using i len(1) by (simp add: Cons_nth_drop_Suc)
    have upd: "input1[start + i := x] = take start input @ take (Suc i) ?cs @ drop (start + Suc i) input"
      using i len(1) by (simp add: p(1) t d list_update_append)
    have inv1: "enc_inv (start + i) (input1[start + i := x]) state1 parity1" using p(3) by (rule enc_update) simp
    have "start + i < length parity1" using i len(2) p(4) by simp
    then obtain state2 parity2 where st2: "lut_encode T state1 (input1[start + i := x] ! (start + i)) (start + i) parity1 = Some (state2, parity2)"
      "enc_inv (Suc (start + i)) (input1[start + i := x]) state2 parity2" "length parity2 = length parity1"
      "drop (Suc (start + i)) parity2 = drop (Suc (start + i)) parity1"
      using enc_step [OF lut inv1] by blast
    have at: "input1[start + i := x] ! (start + i) = x" and set: "arr_set input1 (start + i) x = Some (input1[start + i := x])"
      using i len(1) li by (simp_all add: arr_set_def)
    have "drop (Suc (start + i)) parity1 = drop (Suc (start + i)) parity" using p(5) by (metis drop_drop plus_1_eq_Suc)
    then have "?P (Suc i) (cb2, state2, input1[start + i := x], parity2)" using cb2 st2 p(4) upd by simp
    moreover have "?body i s = Some (cb2, state2, input1[start + i := x], parity2)"
      using st2(1) unfolding at by (simp only: s prod.case Let_def x cb2(1) set Option.bind.bind_lunit)
    ultimately show "\<exists>s'. ?body i s = Some s' \<and> ?P (Suc i) s'" by blast
  next
    show "?P 0 (cb, state, input, parity)" using inv crc_fed_opt_refl [of p n cb] cb by simp
  qed simp
  then show ?thesis by (auto simp: crc_bytes_def)
qed

lemma crc_self:
  assumes "0 < n" "n < 64" "take_bit n r = r"
  shows "foldl (crc_step p n) r (bits_of n r) = 0"
  using feed_bits [of n "bits_of n r" p r] assms by (simp add: num_of_bits_of)

lemma crc_fed_get: "crc_fed p n h bs h' \<Longrightarrow>
    srsran_crc_checksum_get h' = foldl (crc_step p n) (take_bit n (c_crcinit h)) (bytes_bits bs) \<and>
    take_bit n (srsran_crc_checksum_get h') = srsran_crc_checksum_get h' \<and> c_order h' = n \<and> 0 < n \<and> n \<le> 24"
proof -
  assume fed: "crc_fed p n h bs h'"
  then have "srsran_crc_checksum_get h' = take_bit n (c_crcinit h')" "c_order h' = n" "0 < n" "n \<le> 24"
    by (auto simp: crc_fed_def crc_ok_def crc_poly_def srsran_crc_checksum_get_def take_bit_eq_mask [symmetric])
  moreover have "take_bit n (c_crcinit h') = foldl (crc_step p n) (take_bit n (c_crcinit h)) (bytes_bits bs)"
    using fed by (simp add: crc_fed_def)
  ultimately show ?thesis by (metis min.idem take_bit_take_bit)
qed

text \<open>After its own checksum the register is zero.\<close>

lemma crc_fed_checksum_zero:
  assumes "crc_fed p n h bs h'" and "n mod 8 = 0"
  shows "foldl (crc_step p n) (take_bit n (c_crcinit h))
           (bytes_bits (bs @ checksum_bytes (ucast (srsran_crc_checksum_get h')) n)) = 0"
proof -
  let ?r = "srsran_crc_checksum_get h'"
  have r: "?r = foldl (crc_step p n) (take_bit n (c_crcinit h)) (bytes_bits bs)" "take_bit n ?r = ?r" "0 < n" "n \<le> 24"
    using crc_fed_get [OF assms(1)] by blast+
  then have "bytes_bits (checksum_bytes (ucast ?r) n) = bits_of n ?r" using assms(2) by (intro bytes_bits_checksum) auto
  then show ?thesis using crc_self [of n ?r p] r by (simp add: bytes_bits_append)
qed

lemma block_size:
  fixes long_cb :: u32
  assumes "a + b \<le> unat long_cb"
  shows "unat ((long_cb - word_of_nat a - word_of_nat b) div 8) = (unat long_cb - a - b) div 8"
proof -
  have "unat long_cb < 2 ^ LENGTH(32)" by (rule unsigned_less)
  then have l: "unat long_cb < 2 ^ 32" by simp
  have "unat (word_of_nat a :: u32) = a" "unat (word_of_nat b :: u32) = b"
    using assms l by (simp_all add: unat_of_nat)
  then have "unat (long_cb - word_of_nat a - word_of_nat b) = unat long_cb - a - b"
    using assms by (simp add: unat_sub word_le_nat_alt)
  then show ?thesis by (simp add: unat_div)
qed

lemma insert_part:
  assumes "ys = take n xs @ c @ drop (n + m) xs" "length c = m" "n + m \<le> length xs"
  shows "length ys = length xs" "take n ys = take n xs" "take (n + m) ys = take n xs @ c" "drop (n + m) ys = drop (n + m) xs"
  using assms by simp_all

lemma crc_fed_opt_trans:
  "crc_fed_opt p n cb xs cb1 \<Longrightarrow> crc_fed_opt p n cb1 ys cb2 \<Longrightarrow> crc_fed_opt p n cb (xs @ ys) cb2"
  by (cases cb) (auto simp: crc_fed_opt_def crc_fed_def bytes_bits_append)

text \<open>The first encoder runs over the data with the checksums in place, and both registers are zero behind their
  checksum.\<close>

lemma lut_first:
  assumes lut: "lut_ok (tt_lut T)"
    and crc: "crc_ok pt nt tb" "nt mod 8 = 0" "case cb of None \<Rightarrow> True | Some h \<Rightarrow> crc_ok pc nc h" "nc mod 8 = 0"
    and K: "K = unat long_cb" "K mod 8 = 0"
    and fits: "(if cb = None then 0 else nc) + (if last_cb then nt else 0) \<le> K"
    and len: "K div 8 \<le> length input" "K div 8 \<le> length parity"
  shows "\<exists>tb' cb' state input' parity'. lut_first T tb cb input parity long_cb last_cb = Some (tb', cb', state, input', parity') \<and>
    enc_inv (K div 8) input' state parity' \<and> length input' = length input \<and> length parity' = length parity \<and>
    drop (K div 8) input' = drop (K div 8) input \<and> drop (K div 8) parity' = drop (K div 8) parity \<and>
    (\<forall>h. cb = Some h \<longrightarrow> foldl (crc_step pc nc) (take_bit nc (c_crcinit h)) (bytes_bits (take (K div 8) input')) = 0) \<and>
    (\<exists>nb. nb = (K - (if cb = None then 0 else nc) - (if last_cb then nt else 0)) div 8 \<and> take nb input' = take nb input \<and>
       (last_cb \<longrightarrow> foldl (crc_step pt nt) (take_bit nt (c_crcinit tb)) (bytes_bits (take (nb + nt div 8) input')) = 0))"
proof -
  define ncb where "ncb = (if cb = None then 0 else nc)"
  define ntb where "ntb = (if last_cb then nt else 0)"
  define nb where "nb = (K - ncb - ntb) div 8"
  have d8: "8 * (K div 8) = K" "8 * (nc div 8) = nc" "8 * (nt div 8) = nt" using K(2) crc(2,4) by auto
  then have d8': "8 * (ncb div 8) = ncb" "8 * (ntb div 8) = ntb" by (simp_all add: ncb_def ntb_def)
  have "K - ncb - ntb = 8 * (K div 8 - ncb div 8 - ntb div 8)" using d8 d8' by (simp add: diff_mult_distrib2)
  then have nb: "nb = K div 8 - ncb div 8 - ntb div 8" by (simp add: nb_def)
  have le: "ncb div 8 + ntb div 8 \<le> K div 8"
    using fits d8 d8' unfolding ncb_def [symmetric] ntb_def [symmetric] by linarith
  have sum: "nb + ntb div 8 + ncb div 8 = K div 8" using nb le by simp
  have order: "(case cb of None \<Rightarrow> 0 | Some cb \<Rightarrow> c_order cb) = ncb" "c_order tb = nt"
    using crc(1,3) by (auto simp: ncb_def crc_ok_def split: option.splits)
  have size: "unat ((long_cb - word_of_nat ncb - (if last_cb then word_of_nat nt else 0)) div 8) = nb"
    using block_size [of ncb ntb long_cb] fits unfolding nb_def K(1) ncb_def [symmetric] ntb_def [symmetric]
    by (simp add: ntb_def split: if_splits)
  have l1: "nb \<le> length input" "nb \<le> length parity" using len sum by linarith+
  obtain tb1 cb1 state1 parity1 where
    loop: "for_loop (\<lambda>i (crc_tb, crc_cb, state0, parity). do {
         x \<leftarrow> arr_at input i;
         crc_tb \<leftarrow> srsran_crc_checksum_put_byte crc_tb x;
         crc_cb \<leftarrow> (case crc_cb of None \<Rightarrow> Some None | Some cb \<Rightarrow> map_option Some (srsran_crc_checksum_put_byte cb x));
         (state0, parity) \<leftarrow> lut_encode T state0 x i parity;
         Some (crc_tb, crc_cb, state0, parity)
       }) [0..<nb] (tb, cb, 0, parity) = Some (tb1, cb1, state1, parity1)"
    and p1: "crc_fed pt nt tb (take nb input) tb1" "crc_fed_opt pc nc cb (take nb input) cb1"
    "enc_inv nb input state1 parity1" "length parity1 = length parity" "drop nb parity1 = drop nb parity"
    using data_loop [OF lut l1 crc(1,3)] by blast
  have cb1: "case cb1 of None \<Rightarrow> True | Some h \<Rightarrow> crc_ok pc nc h"
    using p1(2) by (cases cb) (auto simp: crc_fed_opt_def crc_fed_def)
  let ?cs = "checksum_bytes (ucast (srsran_crc_checksum_get tb1)) nt"
  obtain cb2 state2 input2 parity2 where
    step2: "(if last_cb then crc_bytes T (ucast (srsran_crc_checksum_get tb1)) (c_order tb1) nb (cb1, state1, input, parity1)
       else Some (cb1, state1, input, parity1)) = Some (cb2, state2, input2, parity2)"
    and i2: "input2 = take nb input @ (if last_cb then ?cs else []) @ drop (nb + ntb div 8) input"
    and p2: "crc_fed_opt pc nc cb (take nb input @ (if last_cb then ?cs else [])) cb2"
    "enc_inv (nb + ntb div 8) input2 state2 parity2" "length parity2 = length parity"
    "drop (nb + ntb div 8) parity2 = drop (nb + ntb div 8) parity"
  proof (cases last_cb)
    case False
    then show ?thesis using that [of cb1 state1 input parity1] p1 by (simp add: ntb_def)
  next
    case True
    then have ntb: "ntb div 8 = nt div 8" by (simp add: ntb_def)
    have l: "nb + nt div 8 \<le> length input" "nb + nt div 8 \<le> length parity1"
      using len sum ntb p1(4) by linarith+
    have o: "c_order tb1 = nt" using crc_fed_get [OF p1(1)] by blast
    obtain cb2 state2 input2 parity2 where
      b: "crc_bytes T (ucast (srsran_crc_checksum_get tb1)) nt nb (cb1, state1, input, parity1) = Some (cb2, state2, input2, parity2)"
      "input2 = take nb input @ ?cs @ drop (nb + nt div 8) input" "crc_fed_opt pc nc cb1 ?cs cb2"
      "enc_inv (nb + nt div 8) input2 state2 parity2" "length parity2 = length parity1"
      "drop (nb + nt div 8) parity2 = drop (nb + nt div 8) parity1"
      using crc_bytes [OF lut p1(3) l cb1, of "ucast (srsran_crc_checksum_get tb1)"] by blast
    have "drop (nb + nt div 8) parity1 = drop (nb + nt div 8) parity"
      using p1(5) by (metis add.commute drop_drop)
    then show ?thesis
      using that [of cb2 state2 input2 parity2] True b o p1(4) crc_fed_opt_trans [OF p1(2) b(3)] by (simp add: ntb)
  qed
  let ?ins = "if last_cb then ?cs else []"
  have lins: "length ?ins = ntb div 8" by (simp add: ntb_def)
  have i2l: "length input2 = length input" "take nb input2 = take nb input"
    "take (nb + ntb div 8) input2 = take nb input @ ?ins"
    "drop (nb + ntb div 8) input2 = drop (nb + ntb div 8) input"
    using insert_part [OF i2 lins] len sum by linarith+
  have zero_tb: "foldl (crc_step pt nt) (take_bit nt (c_crcinit tb)) (bytes_bits (take (nb + nt div 8) input2)) = 0" if last_cb
    using crc_fed_checksum_zero [OF p1(1) crc(2)] that i2l(3) by (simp add: ntb_def)
  have nbe: "nb = (K - (if cb = None then 0 else nc) - (if last_cb then nt else 0)) div 8"
    by (simp add: nb_def ncb_def ntb_def)
  show ?thesis
  proof (cases cb)
    case None
    then have c2: "cb2 = None" using p2(1) by (simp add: crc_fed_opt_def)
    have k: "nb + ntb div 8 = K div 8" using sum None by (simp add: ncb_def)
    have "lut_first T tb cb input parity long_cb last_cb = Some (tb1, None, state2, input2, parity2)"
      unfolding lut_first_def Let_def order size loop Option.bind.bind_lunit prod.case step2 c2 by simp
    then show ?thesis
      using p2 i2l zero_tb nbe None unfolding k by auto
  next
    case (Some h)
    then obtain h2 where c2: "cb2 = Some h2" and fed: "crc_fed pc nc h (take nb input @ ?ins) h2"
      using p2(1) by (auto simp: crc_fed_opt_def)
    have ncb: "ncb = nc" using Some by (simp add: ncb_def)
    let ?c2 = "checksum_bytes (ucast (srsran_crc_checksum_get h2)) nc"
    have l: "nb + ntb div 8 + nc div 8 \<le> length input2" "nb + ntb div 8 + nc div 8 \<le> length parity2"
      using sum len i2l(1) p2(3) ncb by simp_all
    have o: "c_order h2 = nc" using crc_fed_get [OF fed] by blast
    have "nc \<le> K" using fits Some by auto
    have "K = 8 * (nb + ntb div 8 + nc div 8)" by (simp only: sum [unfolded ncb] d8(1))
    then have "K = 8 * (nb + ntb div 8) + nc" by (simp only: distrib_left d8(2))
    then have "K - nc = 8 * (nb + ntb div 8)" by simp
    then have "(K - nc) div 8 = nb + ntb div 8" by simp
    then have start: "unat ((long_cb - word_of_nat nc) div 8) = nb + ntb div 8"
      using block_size [of nc 0 long_cb] \<open>nc \<le> K\<close> K(1) by simp
    obtain state3 input3 parity3 where
      b: "crc_bytes T (ucast (srsran_crc_checksum_get h2)) nc (nb + ntb div 8) (None, state2, input2, parity2) = Some (None, state3, input3, parity3)"
      "input3 = take (nb + ntb div 8) input2 @ ?c2 @ drop (nb + ntb div 8 + nc div 8) input2"
      "enc_inv (nb + ntb div 8 + nc div 8) input3 state3 parity3" "length parity3 = length parity2"
      "drop (nb + ntb div 8 + nc div 8) parity3 = drop (nb + ntb div 8 + nc div 8) parity2"
      using crc_bytes [OF lut p2(2) l, where cb = None and c = "ucast (srsran_crc_checksum_get h2)"]
      by (auto simp: crc_fed_opt_def)
    have k: "nb + ntb div 8 + nc div 8 = K div 8" using sum ncb by simp
    have run: "lut_first T tb cb input parity long_cb last_cb = Some (tb1, Some h2, state3, input3, parity3)"
      unfolding lut_first_def Let_def order size loop Option.bind.bind_lunit prod.case step2 c2 option.case o start b(1) ..
    note ip = insert_part [OF b(2) length_checksum_bytes l(1)]
    have t3: "take (K div 8) input3 = take nb input @ ?ins @ ?c2"
      using ip(3) unfolding k i2l(3) by simp
    have z: "foldl (crc_step pc nc) (take_bit nc (c_crcinit h)) (bytes_bits (take (K div 8) input3)) = 0"
      unfolding t3 using crc_fed_checksum_zero [OF fed crc(4)] by simp
    have "take (nb + ntb div 8) input3 = take (nb + ntb div 8) input2" by (rule ip(2))
    then have t: "take nb input3 = take nb input" "take (nb + ntb div 8) input3 = take (nb + ntb div 8) input2"
      using i2l(2) by (metis add_leD1 le_refl min.absorb1 take_take, simp)
    have "drop (K div 8) parity3 = drop (K div 8) parity"
      using b(5) p2(4) k by (metis add.commute drop_drop)
    moreover have "drop (K div 8) input3 = drop (K div 8) input"
    proof -
      have "drop (K div 8) input3 = drop (K div 8) input2" using ip(4) unfolding k .
      also have "\<dots> = drop (K div 8) input" using i2l(4) k by (metis add.commute drop_drop)
      finally show ?thesis .
    qed
    moreover have "length input3 = length input" using ip(1) i2l(1) by simp
    moreover have "last_cb \<longrightarrow> foldl (crc_step pt nt) (take_bit nt (c_crcinit tb)) (bytes_bits (take (nb + nt div 8) input3)) = 0"
      using zero_tb t(2) by (cases last_cb) (simp_all add: ntb_def)
    ultimately show ?thesis
      using run b(3,4) p2(3) z t(1) nbe Some k by auto
  qed
qed

section \<open>The second encoder and the tail\<close>

lemma nibbles:
  fixes z out :: byte
  shows "bit (z OR drop_bit 4 (out AND 0xf0)) k \<longleftrightarrow> bit z k \<or> (k < 4 \<and> bit out (k + 4))"
    and "bit (push_bit 4 (out AND 0xf)) k \<longleftrightarrow> 4 \<le> k \<and> k < 8 \<and> bit out (k - 4)"
proof -
  have f0: "(0xf0 :: byte) = push_bit 4 (mask 4)" and f: "(0xf :: byte) = mask 4"
    by (simp_all add: mask_eq_exp_minus_1)
  show "bit (z OR drop_bit 4 (out AND 0xf0)) k \<longleftrightarrow> bit z k \<or> (k < 4 \<and> bit out (k + 4))"
    unfolding f0 by (auto simp: bit_or_iff bit_and_iff bit_drop_bit_eq bit_push_bit_iff bit_mask_iff add.commute dest: bit_imp_le_length)
  show "bit (push_bit 4 (out AND 0xf)) k \<longleftrightarrow> 4 \<le> k \<and> k < 8 \<and> bit out (k - 4)"
    unfolding f by (auto simp: bit_and_iff bit_push_bit_iff bit_mask_iff simp del: push_bit_and)
qed

definition second_inv :: "(nat \<Rightarrow> bool) \<Rightarrow> nat \<Rightarrow> byte list \<Rightarrow> nat \<Rightarrow> byte \<Rightarrow> byte list \<Rightarrow> bool" where
  "second_inv x nb parity0 i state parity \<longleftrightarrow> state = state_code (rsc_state x (8 * i)) \<and>
     length parity = length parity0 \<and> take nb parity = take nb parity0 \<and>
     (\<forall>m < 4. \<not> packed_bit parity (8 * nb + m)) \<and>
     (\<forall>m. 4 \<le> m \<and> m < 8 \<longrightarrow> \<not> packed_bit parity (8 * (nb + i) + m)) \<and>
     (\<forall>n < 8 * i. packed_bit parity (8 * nb + 4 + n) = rsc_z x n)"

lemma bit_rsc_byte: "m < 8 \<Longrightarrow> bit (rsc_byte x i) (7 - m) \<longleftrightarrow> rsc_z x (8 * i + m)"
  unfolding rsc_byte_def by (rule packed_bit_num_of)

lemma second_step:
  assumes inv: "second_inv x nb parity0 i state parity" and len: "nb + i + 1 < length parity"
  shows "second_inv x nb parity0 (Suc i) (state_code (rsc_state x (8 * Suc i)))
     (parity[nb + i := parity ! (nb + i) OR drop_bit 4 (rsc_byte x i AND 0xf0),
             nb + i + 1 := push_bit 4 (rsc_byte x i AND 0xf)])" (is "second_inv _ _ _ _ _ ?p")
proof -
  have at: "?p ! (nb + i) = parity ! (nb + i) OR drop_bit 4 (rsc_byte x i AND 0xf0)"
    "?p ! (nb + i + 1) = push_bit 4 (rsc_byte x i AND 0xf)"
    "\<And>k. k < nb + i \<Longrightarrow> ?p ! k = parity ! k"
    using len by simp_all
  have old: "packed_bit ?p (8 * b + m) = packed_bit parity (8 * b + m)" if "b < nb + i" "m < 8" for b m
    using at(3) [OF that(1)] that(2) by (simp add: packed_bit_at)
  have hi: "packed_bit ?p (8 * (nb + i) + m) = packed_bit parity (8 * (nb + i) + m)" if "m < 4" for m
  proof -
    have "\<not> 7 - m < 4" using that by simp
    then show ?thesis using that by (simp only: packed_bit_at at(1) nibbles) (simp add: packed_bit_at)
  qed
  have lo: "packed_bit ?p (8 * (nb + i) + (4 + m)) = rsc_z x (8 * i + m)" if "m < 4" for m
  proof -
    have z: "\<not> packed_bit parity (8 * (nb + i) + (4 + m))" using inv that by (simp add: second_inv_def)
    have "7 - (4 + m) < 4" "7 - (4 + m) + 4 = 7 - m" "4 + m < 8" "m < 8" using that by simp_all
    then show ?thesis
      using z by (simp only: packed_bit_at at(1) nibbles bit_rsc_byte simp_thms)
  qed
  have next_hi: "packed_bit ?p (8 * (nb + i + 1) + m) = rsc_z x (8 * i + (4 + m))" if "m < 4" for m
  proof -
    have "4 \<le> 7 - m" "7 - m < 8" "7 - m - 4 = 7 - (4 + m)" "m < 8" "4 + m < 8" using that by simp_all
    then show ?thesis by (simp only: packed_bit_at at(2) nibbles bit_rsc_byte simp_thms)
  qed
  have next_lo: "\<not> packed_bit ?p (8 * (nb + i + 1) + m)" if "4 \<le> m" "m < 8" for m
  proof -
    have "\<not> 4 \<le> 7 - m" using that by simp
    then show ?thesis using that by (simp only: packed_bit_at at(2) nibbles simp_thms)
  qed
  have bits: "packed_bit ?p (8 * nb + 4 + n) = rsc_z x n" if n: "n < 8 * Suc i" for n
  proof -
    consider "n < 8 * i" | m where "n = 8 * i + m" "m < 4" | m where "n = 8 * i + (4 + m)" "m < 4"
    proof -
      have "n < 8 * i \<or> (\<exists>m < 4. n = 8 * i + m) \<or> (\<exists>m < 4. n = 8 * i + (4 + m))" using n by presburger
      then show ?thesis using that by blast
    qed
    then show ?thesis
    proof cases
      case 1
      have same: "packed_bit ?p k = packed_bit parity k" if "k < 8 * (nb + i) + 4" for k
      proof (cases "k < 8 * (nb + i)")
        case True
        then have "k div 8 < nb + i" by (simp add: div_less_iff_less_mult mult.commute)
        then show ?thesis using old [of "k div 8" "k mod 8"] by simp
      next
        case False
        then obtain m where "k = 8 * (nb + i) + m" by (metis not_less le_Suc_ex)
        then show ?thesis using hi [of m] that by simp
      qed
      show ?thesis using same [of "8 * nb + 4 + n"] 1 inv by (simp add: second_inv_def)
    next
      case 2
      then show ?thesis using lo [of m] by (simp add: algebra_simps)
    next
      case 3
      then show ?thesis using next_hi [of m] by (simp add: algebra_simps)
    qed
  qed
  have "packed_bit ?p (8 * nb + m) = packed_bit parity (8 * nb + m)" if "m < 4" for m
    using old [of nb m] hi [of m] that by (cases i) auto
  then show ?thesis
    using inv next_lo bits by (simp add: second_inv_def)
qed

lemma lut_second:
  assumes lut: "lut_ok (tt_lut T)" and temp: "nb \<le> length temp" "\<And>i. i < 8 * nb \<Longrightarrow> packed_bit temp i = x i"
    and parity: "2 * nb + 1 \<le> length parity" "parity ! nb = 0"
  shows "\<exists>state parity'. lut_second T temp parity nb = Some (state, parity') \<and> second_inv x nb parity nb state parity'"
proof -
  let ?body = "\<lambda>i (state1, parity). do {
         x \<leftarrow> arr_at temp i;
         row \<leftarrow> arr_at (tt_lut T) (unat state1);
         (next_state, out) \<leftarrow> arr_at row (unat x);
         z \<leftarrow> arr_at parity (nb + i);
         parity \<leftarrow> arr_set parity (nb + i) (z OR drop_bit 4 (out AND 0xf0));
         parity \<leftarrow> arr_set parity (nb + i + 1) (push_bit 4 (out AND 0xf));
         Some (next_state, parity)
       }"
  let ?P = "\<lambda>i (state, parity'). second_inv x nb parity i state parity'"
  have "\<exists>s. for_loop ?body [0..<nb] (0, parity) = Some s \<and> ?P nb s"
  proof (rule for_loop_inv [where P = ?P])
    fix i s
    assume i: "i < nb" and P: "?P i s"
    obtain state1 parity1 where s: "s = (state1, parity1)" by fastforce
    have inv: "second_inv x nb parity i state1 parity1" using P by (simp add: s)
    then have st: "state1 = state_code (rsc_state x (8 * i))" and l: "length parity1 = length parity"
      by (simp_all add: second_inv_def)
    have len: "nb + i + 1 < length parity1" using i parity(1) l by linarith
    have "bit (temp ! i) (7 - m) = x (8 * i + m)" if "m < 8" for m
    proof -
      have "8 * i + m < 8 * nb" using i that by linarith
      then show ?thesis using temp(2) packed_bit_at [OF that, of temp i] by simp
    qed
    then have look: "(arr_at (tt_lut T) (unat state1) \<bind> (\<lambda>row. arr_at row (unat (temp ! i)))) =
        Some (state_code (rsc_state x (8 * Suc i)), rsc_byte x i)"
      unfolding st by (rule lut_lookup [OF lut])
    then obtain row where row: "arr_at (tt_lut T) (unat state1) = Some row"
      "arr_at row (unat (temp ! i)) = Some (state_code (rsc_state x (8 * Suc i)), rsc_byte x i)"
      by (auto split: Option.bind_splits)
    have at: "arr_at temp i = Some (temp ! i)" "arr_at parity1 (nb + i) = Some (parity1 ! (nb + i))"
      using i temp(1) len by (simp_all add: arr_at_def)
    have "?body i s = Some (state_code (rsc_state x (8 * Suc i)),
        parity1[nb + i := parity1 ! (nb + i) OR drop_bit 4 (rsc_byte x i AND 0xf0), nb + i + 1 := push_bit 4 (rsc_byte x i AND 0xf)])"
      unfolding s prod.case at row Option.bind.bind_lunit using len by (simp add: arr_set_def)
    then show "\<exists>s'. ?body i s = Some s' \<and> ?P (Suc i) s'"
      using second_step [OF inv len] by (intro exI conjI) (assumption, simp)
  next
    have "state_code (rsc_state x 0) = 0" by (simp add: state_code_def rsc_state_0 regs_state_def)
    moreover have "\<not> packed_bit parity (8 * nb + m)" if "m < 8" for m
      using parity(2) that by (simp add: packed_bit_at)
    ultimately show "?P 0 (0, parity)" by (simp add: second_inv_def)
  qed simp
  then show ?thesis by (auto simp: lut_second_def)
qed

lemma lut_tail:
  "lut_tail (state_code (rsc_state x1 n)) (state_code (rsc_state x2 n)) =
     Some (map bit_byte (rsc_tail x1 n @ rsc_tail x2 n))"
proof -
  have l: "length (rsc_tail x n) = 6" for x by (simp add: rsc_tail_def Let_def)
  have "tail_coder (regs_of (rsc_state x1 n)) 0 (replicate 12 0) =
      Some ((0, 0, 0), 0 + 6, take 0 (replicate 12 0) @ map bit_byte (rsc_tail x1 n) @ drop (0 + 6) (replicate 12 0))"
    by (rule tail_coder) simp
  then have t1: "tail_coder (regs_of (rsc_state x1 n)) 0 (replicate 12 0) =
      Some ((0, 0, 0), 6, map bit_byte (rsc_tail x1 n) @ replicate 6 0)"
    by simp
  have "tail_coder (regs_of (rsc_state x2 n)) 6 (map bit_byte (rsc_tail x1 n) @ replicate 6 0) =
      Some ((0, 0, 0), 6 + 6, take 6 (map bit_byte (rsc_tail x1 n) @ replicate 6 0) @ map bit_byte (rsc_tail x2 n) @
        drop (6 + 6) (map bit_byte (rsc_tail x1 n) @ replicate 6 0))"
    by (rule tail_coder) (simp add: l)
  then show ?thesis
    unfolding lut_tail_def state_regs_code t1 Option.bind.bind_lunit prod.case by (simp add: l)
qed

text \<open>Every third bit of the tail goes to the same stream.\<close>

lemma tailv:
  assumes "length tail = 12" "j < 3"
  shows "tailv (map bit_byte tail) j = Some (num_of (map (\<lambda>i. tail ! (3 * i + j)) [0..<4]))"
proof -
  let ?v = "map (\<lambda>i. bit_byte (tail ! (3 * i + j))) [0..<4]"
  have "those (map (\<lambda>i. arr_at (map bit_byte tail) (3 * i + j)) [0..<4]) = Some ?v"
    using assms by (simp add: arr_at_def upt_rec)
  moreover have "map byte_bit (take 4 (drop 0 ?v)) = map (\<lambda>i. tail ! (3 * i + j)) [0..<4]"
    by (simp add: upt_rec)
  moreover have "srsran_bit_pack ?v 0 4 = Some (num_of (map byte_bit (take 4 (drop 0 ?v))), 0 + 4)"
    by (rule srsran_bit_pack) (auto simp: bit_byte_def)
  moreover have "ucast (num_of bs :: u32) = (num_of bs :: byte)" if "length bs = 4" for bs
    by (rule bit_word_eqI) (use that in \<open>auto simp: bit_ucast_iff bit_num_of\<close>)
  ultimately show ?thesis by (simp add: tailv_def comp_def del: upt_rec_numeral)
qed

lemma bit_num_of_4: "i < 4 \<Longrightarrow> bit (num_of (map b [0..<4]) :: byte) (3 - i) \<longleftrightarrow> b i"
  "bit (num_of (map b [0..<4]) :: byte) k \<Longrightarrow> k < 4"
  by (auto simp: bit_num_of)

section \<open>The encoder on bytes and the encoder on bits\<close>

definition stream_bit :: "bool list \<Rightarrow> nat \<Rightarrow> (nat \<Rightarrow> bool) \<Rightarrow> nat \<Rightarrow> nat \<Rightarrow> bool" where
  "stream_bit tail j x K n = (if n < K then x n else tail ! (3 * (n - K) + j))"

lemma packed_bit_nth_eq: "xs ! (n div 8) = ys ! (n div 8) \<Longrightarrow> packed_bit xs n = packed_bit ys n"
  by (simp add: packed_bit_def)

lemma packed_bit_take: "take m xs = take m ys \<Longrightarrow> n < 8 * m \<Longrightarrow> packed_bit xs n = packed_bit ys n"
proof (rule packed_bit_nth_eq)
  assume a: "take m xs = take m ys" "n < 8 * m"
  then have "n div 8 < m" by (simp add: div_less_iff_less_mult mult.commute)
  then show "xs ! (n div 8) = ys ! (n div 8)" using a(1) by (metis nth_take)
qed

text \<open>Placing the tail bits.\<close>

lemma place_tail_0:
  assumes "nb < length input" and v: "v = num_of (map (\<lambda>i. tail ! (3 * i)) [0..<4])" and n: "n < 8 * nb + 4"
  shows "packed_bit (input[nb := push_bit 4 v]) n = stream_bit tail 0 (packed_bit input) (8 * nb) n"
proof (cases "n < 8 * nb")
  case True
  then show ?thesis using packed_bit_update [OF True] by (simp add: stream_bit_def)
next
  case False
  then obtain i where i: "n = 8 * nb + i" "i < 4" using n by (metis add_less_cancel_left not_less le_Suc_ex)
  have "bit v (3 - i) \<longleftrightarrow> tail ! (3 * i)" unfolding v using bit_num_of_4(1) [OF i(2)] .
  moreover have "bit (push_bit 4 v) (7 - i) \<longleftrightarrow> bit v (3 - i)" using i(2) by (auto simp: bit_push_bit_iff)
  ultimately show ?thesis using i assms(1) by (simp add: packed_bit_at stream_bit_def)
qed

lemma place_tail_1:
  assumes inv: "second_inv x2 nb parity0 nb state parity" and len: "2 * nb < length parity" "0 < nb"
    and first: "\<And>k. k < nb \<Longrightarrow> parity0 ! k = rsc_byte x1 k"
    and v1: "v1 = num_of (map (\<lambda>i. tail ! (3 * i + 1)) [0..<4])" and v2: "v2 = num_of (map (\<lambda>i. tail ! (3 * i + 2)) [0..<4])"
  defines "p1 \<equiv> parity[nb := parity ! nb OR push_bit 4 v1]"
  defines "p2 \<equiv> p1[2 * nb := p1 ! (2 * nb) OR (v2 AND 0xf)]"
  shows "n < 8 * nb + 4 \<Longrightarrow> packed_bit p2 n = stream_bit tail 1 (rsc_z x1) (8 * nb) n"
    and "n < 8 * nb + 4 \<Longrightarrow> packed_bit p2 (8 * nb + 4 + n) = stream_bit tail 2 (rsc_z x2) (8 * nb) n"
proof -
  have ne: "nb \<noteq> 2 * nb" using len(2) by simp
  have at: "p2 ! nb = parity ! nb OR push_bit 4 v1" "p2 ! (2 * nb) = parity ! (2 * nb) OR (v2 AND 0xf)"
    using len ne by (simp_all add: p1_def p2_def)
  have other: "packed_bit p2 n = packed_bit parity n" if "n div 8 \<noteq> nb" "n div 8 \<noteq> 2 * nb" for n
    using that by (intro packed_bit_nth_eq) (simp add: p1_def p2_def)
  have f: "(0xf :: byte) = mask 4" by (simp add: mask_eq_exp_minus_1)
  have hi: "packed_bit p2 (8 * nb + i) \<longleftrightarrow> tail ! (3 * i + 1)" if "i < 4" for i
  proof -
    have "\<not> bit (parity ! nb) (7 - i)" using inv that packed_bit_at [of i parity nb] by (simp add: second_inv_def)
    moreover have "bit (push_bit 4 v1) (7 - i) \<longleftrightarrow> bit v1 (3 - i)" using that by (auto simp: bit_push_bit_iff)
    moreover have "bit v1 (3 - i) \<longleftrightarrow> tail ! (3 * i + 1)" unfolding v1 using bit_num_of_4(1) [OF that] .
    ultimately show ?thesis using that by (simp add: packed_bit_at at(1) bit_or_iff)
  qed
  have lo: "packed_bit p2 (8 * nb + (4 + i)) = packed_bit parity (8 * nb + (4 + i))" if "i < 4" for i
  proof -
    have "\<not> 4 \<le> 7 - (4 + i)" "4 + i < 8" using that by simp_all
    then show ?thesis by (simp only: packed_bit_at at(1) bit_or_iff bit_push_bit_iff simp_thms)
  qed
  have hi2: "packed_bit p2 (8 * (2 * nb) + i) = packed_bit parity (8 * (2 * nb) + i)" if "i < 4" for i
  proof -
    have "\<not> 7 - i < 4" "i < 8" using that by simp_all
    then show ?thesis by (simp only: packed_bit_at at(2) f bit_or_iff bit_and_iff bit_mask_iff simp_thms)
  qed
  have lo2: "packed_bit p2 (8 * (2 * nb) + (4 + i)) \<longleftrightarrow> tail ! (3 * i + 2)" if "i < 4" for i
  proof -
    have "\<not> packed_bit parity (8 * (nb + nb) + (4 + i))" using inv that by (simp add: second_inv_def)
    then have "\<not> bit (parity ! (2 * nb)) (7 - (4 + i))" using that packed_bit_at [of "4 + i" parity "2 * nb"] by (simp add: mult_2)
    moreover have "bit v2 (3 - i) \<longleftrightarrow> tail ! (3 * i + 2)" unfolding v2 using bit_num_of_4(1) [OF that] .
    moreover have "7 - (4 + i) = 3 - i" "3 - i < 4" "4 + i < 8" "3 - i < LENGTH(8)" using that by simp_all
    ultimately show ?thesis
      by (simp only: packed_bit_at at(2) f bit_or_iff bit_and_iff bit_mask_iff possible_bit_word simp_thms)
  qed
  show "packed_bit p2 n = stream_bit tail 1 (rsc_z x1) (8 * nb) n" if n: "n < 8 * nb + 4"
  proof (cases "n < 8 * nb")
    case True
    then have d: "n div 8 < nb" by (simp add: div_less_iff_less_mult mult.commute)
    have "take nb parity = take nb parity0" using inv by (simp add: second_inv_def)
    then have "packed_bit parity n = packed_bit parity0 n" using True by (rule packed_bit_take)
    moreover have "packed_bit p2 n = packed_bit parity n" using d len(2) by (intro other) linarith+
    ultimately have "packed_bit p2 n = packed_bit parity0 n" by simp
    also have "\<dots> = rsc_z x1 n"
      using first [OF d] bit_rsc_byte [of "n mod 8" x1 "n div 8"] by (simp add: packed_bit_def)
    finally show ?thesis using True by (simp add: stream_bit_def)
  next
    case False
    then obtain i where "n = 8 * nb + i" "i < 4" using n by (metis add_less_cancel_left not_less le_Suc_ex)
    then show ?thesis using hi [of i] by (simp add: stream_bit_def)
  qed
  show "packed_bit p2 (8 * nb + 4 + n) = stream_bit tail 2 (rsc_z x2) (8 * nb) n" if n: "n < 8 * nb + 4"
  proof (cases "n < 8 * nb")
    case True
    have "packed_bit p2 (8 * nb + 4 + n) = packed_bit parity (8 * nb + 4 + n)"
    proof -
      consider "n < 4" | "4 \<le> n" "8 * nb + 4 + n < 8 * (2 * nb)" | "8 * (2 * nb) \<le> 8 * nb + 4 + n" by linarith
      then show ?thesis
      proof cases
        case 1
        then show ?thesis using lo [of n] by (simp add: add.assoc)
      next
        case 2
        let ?k = "8 * nb + 4 + n"
        have "?k div 8 < 2 * nb" using 2(2) by (simp add: div_less_iff_less_mult mult.commute)
        moreover have "nb + 1 \<le> ?k div 8" using 2(1) by (simp add: less_eq_div_iff_mult_less_eq)
        ultimately show ?thesis by (intro other) linarith+
      next
        case 3
        then obtain i where i: "8 * nb + 4 + n = 8 * (2 * nb) + i" using le_Suc_ex by blast
        then have "i < 4" using True by linarith
        then show ?thesis using hi2 [of i] unfolding i by simp
      qed
    qed
    also have "\<dots> = rsc_z x2 n" using inv True by (simp add: second_inv_def)
    finally show ?thesis using True by (simp add: stream_bit_def)
  next
    case False
    then obtain i where i: "n = 8 * nb + i" "i < 4" using n by (metis add_less_cancel_left not_less le_Suc_ex)
    then have "8 * nb + 4 + n = 8 * (2 * nb) + (4 + i)" by simp
    then show ?thesis using lo2 [OF i(2)] i by (simp only: stream_bit_def) simp
  qed
qed

lemma set_init_ok:
  assumes "crc_ok p n h"
  shows "crc_ok p n (snd (srsran_crc_set_init h 0)) \<and> c_crcinit (snd (srsran_crc_set_init h 0)) = 0"
  using assms by (simp add: srsran_crc_set_init_def Let_def crc_ok_def)

lemma srsran_tcod_encode_lut_run:
  assumes T: "tables_ok 188 (tt_per_fw T) (tt_interleavers T)" "lut_ok (tt_lut T)" and j: "j < 188"
    and crc: "crc_ok pt nt tb" "nt mod 8 = 0" "case cb of None \<Rightarrow> True | Some h \<Rightarrow> crc_ok pc nc h" "nc mod 8 = 0"
    and fits: "(if cb = None then 0 else nc) + (if last_cb then nt else 0) \<le> cb_len j"
    and nb: "nb = cb_len j div 8" "8 * nb = cb_len j"
    and len: "nb < length input" "2 * nb < length parity" "nb \<le> length temp"
  shows "\<exists>tb' cb' input' parity' temp'.
    srsran_tcod_encode_lut T tb cb input parity temp (word_of_nat j) last_cb =
      Some (3 * int (cb_len j) + 12, tb', cb', input', parity', temp') \<and>
    length input' = length input \<and>
    take ((cb_len j - (if cb = None then 0 else nc) - (if last_cb then nt else 0)) div 8) input' =
      take ((cb_len j - (if cb = None then 0 else nc) - (if last_cb then nt else 0)) div 8) input \<and>
    (cb \<noteq> None \<longrightarrow> crc_ref pc nc (bytes_bits (take nb input')) = 0) \<and>
    (let x1 = packed_bit input'; x2 = (\<lambda>i. packed_bit input' (qpp_index j i));
         tail = rsc_tail x1 (cb_len j) @ rsc_tail x2 (cb_len j)
     in \<forall>n < cb_len j + 4.
          packed_bit input' n = stream_bit tail 0 x1 (cb_len j) n \<and>
          packed_bit parity' n = stream_bit tail 1 (rsc_z x1) (cb_len j) n \<and>
          packed_bit parity' (cb_len j + 4 + n) = stream_bit tail 2 (rsc_z x2) (cb_len j) n)"
proof -
  let ?K = "cb_len j"
  let ?long = "tc_cb_sizes ! j"
  define cb0 where "cb0 = map_option (\<lambda>cb. snd (srsran_crc_set_init cb 0)) cb"
  have cb0: "case cb0 of None \<Rightarrow> True | Some h \<Rightarrow> crc_ok pc nc h" "cb0 = None \<longleftrightarrow> cb = None"
    "\<And>h. cb0 = Some h \<Longrightarrow> take_bit nc (c_crcinit h) = 0"
    using crc(3) set_init_ok by (auto simp: cb0_def split: option.splits)
  have K: "?K = unat ?long" "?K mod 8 = 0" using nb(2) by (simp_all only: cb_len_def) (metis mod_mult_self1_is_0)
  have pos: "0 < nb" using cb_len [OF j] nb(2) by linarith
  have idx: "unat (word_of_nat j :: u32) = j" using j by (simp add: unat_of_nat)
  then have lt: "(word_of_nat j :: u32) < 188" using j by (simp add: word_less_nat_alt)
  have size: "(word_of_int (srsran_cbsegm_cbsize (word_of_nat j)) :: u32) = ?long"
    unfolding cbsize [OF j] by simp
  have mod0: "?long mod 8 = 0" using K by (simp add: word_unat_eq_iff unat_mod)
  have nbytes: "unat (?long div 8) = nb" using K(1) nb(1) by (simp add: unat_div)
  have l8: "?K div 8 \<le> length input" "?K div 8 \<le> length parity" using len nb(1) by linarith+
  have fits0: "(if cb0 = None then 0 else nc) + (if last_cb then nt else 0) \<le> ?K" using fits cb0(2) by simp
  obtain tb' cb' state1 input1 parity1 where
    first: "lut_first T tb cb0 input parity ?long last_cb = Some (tb', cb', state1, input1, parity1)"
    and f: "enc_inv nb input1 state1 parity1" "length input1 = length input" "length parity1 = length parity"
    and z: "\<And>h. cb0 = Some h \<Longrightarrow> foldl (crc_step pc nc) (take_bit nc (c_crcinit h)) (bytes_bits (take nb input1)) = 0"
    and same: "take ((?K - (if cb0 = None then 0 else nc) - (if last_cb then nt else 0)) div 8) input1 =
      take ((?K - (if cb0 = None then 0 else nc) - (if last_cb then nt else 0)) div 8) input"
    using lut_first [OF T(2) crc(1,2) cb0(1) crc(4) K fits0 l8] unfolding nb(1) [symmetric] by blast
  let ?x1 = "packed_bit input1" and ?x2 = "\<lambda>i. packed_bit input1 (qpp_index j i)"
  let ?tail = "rsc_tail ?x1 ?K @ rsc_tail ?x2 ?K"
  let ?par2 = "parity1[nb := 0]"
  have lt12: "length ?tail = 12" by (simp add: rsc_tail_def Let_def)
  have set: "arr_set parity1 nb 0 = Some ?par2" using len(2) f(3) by (simp add: arr_set_def)
  have il: "arr_at (tt_interleavers T) j = Some (tt_interleavers T ! j)"
    using tables_row(5) [OF T(1) j] j by (simp add: arr_at_def)
  obtain temp' where temp': "srsran_bit_interleaver_run (tt_interleavers T ! j) input1 temp 0 = Some temp'"
    "length temp' = length temp" "\<And>i. i < ?K \<Longrightarrow> packed_bit temp' i = packed_bit input1 (unat (tt_per_fw T ! j ! i))"
  proof -
    have "unat (tt_per_fw T ! j ! i) < 8 * length input1" if "i < ?K" for i
      using tables_row(2) [OF T(1) j that] qpp_index_less [OF j, of i] len(1) nb(2) f(2) by simp
    moreover have "?K \<le> 8 * length temp" using len(3) nb(2) by linarith
    ultimately show ?thesis
      using srsran_bit_interleaver_run [OF tables_row(4) [OF T(1) j] K(2), of input1 temp] that by blast
  qed
  have x2: "packed_bit temp' i = ?x2 i" if "i < 8 * nb" for i
    using temp'(3) [of i] tables_row(2) [OF T(1) j, of i] that nb(2) by simp
  have "nb \<le> length temp'" "2 * nb + 1 \<le> length ?par2" "?par2 ! nb = 0"
    using temp'(2) len f(3) by simp_all
  then obtain state2 parity3 where second: "lut_second T temp' ?par2 nb = Some (state2, parity3)"
    "second_inv ?x2 nb ?par2 nb state2 parity3"
    using lut_second [OF T(2) _ x2] by blast
  have st: "state1 = state_code (rsc_state ?x1 ?K)" "state2 = state_code (rsc_state ?x2 ?K)"
    using f(1) second(2) nb(2) by (simp_all add: enc_inv_def second_inv_def)
  let ?v = "\<lambda>k. num_of (map (\<lambda>i. ?tail ! (3 * i + k)) [0..<4]) :: byte"
  have tails: "lut_tail state1 state2 = Some (map bit_byte ?tail)" unfolding st by (rule lut_tail)
  have v: "tailv (map bit_byte ?tail) 0 = Some (?v 0)" "tailv (map bit_byte ?tail) 1 = Some (?v 1)"
    "tailv (map bit_byte ?tail) 2 = Some (?v 2)"
    by (rule tailv [OF lt12]; simp)+
  let ?in = "input1[nb := push_bit 4 (?v 0)]"
  let ?p1 = "parity3[nb := parity3 ! nb OR push_bit 4 (?v 1)]"
  let ?p2 = "?p1[2 * nb := ?p1 ! (2 * nb) OR (?v 2 AND 0xf)]"
  have l3: "length parity3 = length parity" using second(2) f(3) by (simp add: second_inv_def)
  have puts: "arr_set input1 nb (push_bit 4 (?v 0)) = Some ?in" "arr_at parity3 nb = Some (parity3 ! nb)"
    "arr_set parity3 nb (parity3 ! nb OR push_bit 4 (?v 1)) = Some ?p1"
    "arr_at ?p1 (2 * nb) = Some (?p1 ! (2 * nb))"
    "arr_set ?p1 (2 * nb) (?p1 ! (2 * nb) OR (?v 2 AND 0xf)) = Some ?p2"
    using len f(2) l3 by (simp_all add: arr_set_def arr_at_def)
  have run: "srsran_tcod_encode_lut T tb cb input parity temp (word_of_nat j) last_cb =
      Some (3 * uint ?long + 12, tb', cb', ?in, ?p2, temp')"
    unfolding srsran_tcod_encode_lut_def if_P [OF lt] Let_def size mod0 nbytes cb0_def [symmetric] first
      Option.bind.bind_lunit prod.case set idx il temp'(1) second(1) tails v puts
    by simp
  let ?y1 = "packed_bit ?in" and ?y2 = "\<lambda>i. packed_bit ?in (qpp_index j i)"
  have y1: "?y1 n = ?x1 n" if "n < ?K" for n using that nb(2) packed_bit_update [of n nb] by simp
  have y2: "?y2 = ?x2" using y1 [OF qpp_index_less [OF j]] by (simp add: fun_eq_iff)
  have zc: "rsc_z ?y1 n = rsc_z ?x1 n" if "n < ?K" for n using y1 that by (intro rsc_z_cong) simp
  have "rsc_state ?y1 ?K = rsc_state ?x1 ?K" by (intro rsc_state_cong y1)
  then have tc: "rsc_tail ?y1 ?K = rsc_tail ?x1 ?K" by (simp add: rsc_tail_def rsc_state_def)
  have first_bytes: "?par2 ! k = rsc_byte ?x1 k" if "k < nb" for k using f(1) that by (simp add: enc_inv_def)
  have l2: "2 * nb < length parity3" using len(2) l3 by simp
  have s0: "packed_bit ?in n = stream_bit ?tail 0 ?y1 ?K n" if "n < ?K + 4" for n
  proof -
    have "packed_bit ?in n = stream_bit ?tail 0 ?x1 (8 * nb) n"
      by (rule place_tail_0) (use len(1) f(2) that nb(2) in simp_all)
    then show ?thesis using y1 nb(2) by (simp add: stream_bit_def)
  qed
  have s1: "packed_bit ?p2 n = stream_bit ?tail 1 (rsc_z ?y1) ?K n" if "n < ?K + 4" for n
  proof -
    have "packed_bit ?p2 n = stream_bit ?tail 1 (rsc_z ?x1) (8 * nb) n"
      by (rule place_tail_1(1) [OF second(2) l2 pos first_bytes refl refl]) (use that nb(2) in simp_all)
    then show ?thesis using zc nb(2) by (simp add: stream_bit_def)
  qed
  have s2: "packed_bit ?p2 (?K + 4 + n) = stream_bit ?tail 2 (rsc_z ?y2) ?K n" if "n < ?K + 4" for n
  proof -
    have "packed_bit ?p2 (8 * nb + 4 + n) = stream_bit ?tail 2 (rsc_z ?x2) (8 * nb) n"
      by (rule place_tail_1(2) [OF second(2) l2 pos first_bytes refl refl]) (use that nb(2) in simp_all)
    then show ?thesis using nb(2) y2 by simp
  qed
  have tk: "take n ?in = take n input1" if "n \<le> nb" for n using that by simp
  have chk: "crc_ref pc nc (bytes_bits (take nb ?in)) = 0" if "cb \<noteq> None"
  proof -
    have "cb0 \<noteq> None" using that cb0(2) by simp
    then obtain h where h: "cb0 = Some h" by blast
    then show ?thesis using z [OF h] cb0(3) [OF h] by (simp add: tk crc_ref_def)
  qed
  let ?m = "(?K - (if cb = None then 0 else nc) - (if last_cb then nt else 0)) div 8"
  have "?m \<le> nb" unfolding nb(1) by (intro div_le_mono) simp
  then have keep: "take ?m ?in = take ?m input" using same cb0(2) tk by simp
  have tails: "rsc_tail ?y1 ?K @ rsc_tail ?y2 ?K = ?tail" by (simp only: tc y2)
  have len3: "3 * uint ?long = 3 * int ?K" using K(1) by simp
  have len_in: "length ?in = length input" using f(2) by simp
  have run': "srsran_tcod_encode_lut T tb cb input parity temp (word_of_nat j) last_cb =
      Some (3 * int ?K + 12, tb', cb', ?in, ?p2, temp')" using run by (simp only: len3)
  show ?thesis
    by (rule exI [of _ tb'], rule exI [of _ cb'], rule exI [of _ ?in], rule exI [of _ ?p2], rule exI [of _ temp'],
      unfold Let_def tails, intro conjI impI allI run' len_in keep chk s0 s1 s2)
qed

section \<open>The encoder\<close>

lemma tables_of:
  assumes "length fwd0 = 6144" "length rev0 = 6144" and "srsran_tcod_gentable fwd0 rev0 = Some T"
  shows "tables_ok 188 (tt_per_fw T) (tt_interleavers T)" "lut_ok (tt_lut T)"
  using srsran_tcod_gentable [OF assms(1,2)] assms(3) by (simp_all add: lut_ok_def del: upt_rec_numeral)

lemma tables_exist: "\<exists>T. srsran_tcod_gentable (replicate 6144 0) (replicate 6144 0) = Some T"
  using srsran_tcod_gentable [of "replicate 6144 0" "replicate 6144 0"] by (simp only: length_replicate) blast

lemma cb_len_mod8: "j < 188 \<Longrightarrow> cb_len j mod 8 = 0"
proof -
  have "list_all (\<lambda>w. unat w mod 8 = 0) tc_cb_sizes" unfolding tc_cb_sizes_def by simp
  then show "j < 188 \<Longrightarrow> cb_len j mod 8 = 0" by (simp add: list_all_length tc_cb_sizes_facts cb_len_def)
qed

text \<open>C13: With the tables that \<^verbatim>\<open>srsran_tcod_gentable\<close> makes, \<^verbatim>\<open>srsran_tcod_encode\<close> writes for every bit of a
  block the bit, the parity of the first encoder of TS 36.212 and the parity of the second, which reads the block in the
  order of the interleaver; then the twelve bits that empty the two registers, and nothing behind them.\<close>

theorem srsran_tcod_encode_reference:
  assumes "length fwd0 = 6144" "length rev0 = 6144" and "srsran_tcod_gentable fwd0 rev0 = Some T"
    and "j < 188" "K = unat (tc_cb_sizes ! j)" "K \<le> max_cb"
    and "K \<le> length input" "is_bits (take K input)" "3 * K + 12 \<le> length output"
    and x1: "x1 = (\<lambda>k. byte_bit (input ! k))"
    and x2: "x2 = (\<lambda>k. byte_bit (input ! ((unat (f1_list ! j) * k + unat (f2_list ! j) * k * k) mod K)))"
  shows "\<exists>out. srsran_tcod_encode T max_cb input output K = Some (0, out) \<and> length out = length output \<and>
    (\<forall>i < K. out ! (3 * i) = input ! i \<and> out ! (3 * i + 1) = bit_byte (rsc_z x1 i) \<and>
       out ! (3 * i + 2) = bit_byte (rsc_z x2 i)) \<and>
    take 12 (drop (3 * K) out) = map bit_byte (rsc_tail x1 K @ rsc_tail x2 K) \<and>
    drop (3 * K + 12) out = drop (3 * K + 12) output"
proof -
  have K: "K = cb_len j" using assms(5) by (simp add: cb_len_def)
  show ?thesis
    using srsran_tcod_encode [OF tables_of(1) [OF assms(1-3)] assms(4) _ _ _ _ x1 x2 [unfolded K, folded qpp_index_def]]
      assms(6-9) unfolding K by blast
qed

theorem srsran_tcod_encode_reference_witness:
  "\<exists>T out. srsran_tcod_gentable (replicate 6144 0) (replicate 6144 0) = Some T \<and>
     srsran_tcod_encode T 6144 (replicate 40 1) (replicate 140 7) 40 = Some (0, out) \<and> out ! 0 = 1 \<and>
     drop 132 out = replicate 8 7"
proof -
  obtain T where T: "srsran_tcod_gentable (replicate 6144 0) (replicate 6144 0) = Some T" using tables_exist by blast
  have K: "(40 :: nat) = unat (tc_cb_sizes ! 0)" by (simp add: tc_cb_sizes_facts)
  obtain out where "srsran_tcod_encode T 6144 (replicate 40 1) (replicate 140 7) 40 = Some (0, out)"
    "\<forall>i < 40. out ! (3 * i) = replicate 40 1 ! i" "drop (3 * 40 + 12) out = drop (3 * 40 + 12) (replicate 140 7)"
    using srsran_tcod_encode_reference [OF _ _ T _ K _ _ _ _ refl refl, of 6144 "replicate 40 1" "replicate 140 7"]
    by (simp only: length_replicate) (auto simp del: drop_replicate)
  moreover from this(2) have "out ! 0 = 1" by (auto dest: spec [of _ 0])
  ultimately show ?thesis using T by (intro exI [of _ T] exI [of _ out]) simp
qed

text \<open>C6: The encoder on bytes, with its lookup table, the checksums put in on the way and the interleaver of packed
  bits, does the same as the encoder on bits: it leaves the data in the block as it is, fills in the checksums, so that
  the block with its own checksum has the remainder 0, and its three streams, packed into \<^verbatim>\<open>input\<close> and
  \<^verbatim>\<open>parity\<close> with the tails, are the three streams that \<^verbatim>\<open>srsran_tcod_encode\<close> writes for the bits of
  the filled block.\<close>

theorem srsran_tcod_encode_lut_equiv:
  assumes "length fwd0 = 6144" "length rev0 = 6144" and "srsran_tcod_gentable fwd0 rev0 = Some T"
    and "j < 188" "K = unat (tc_cb_sizes ! j)"
    and "crc_ok pt nt tb" "nt mod 8 = 0" and "\<forall>h. cb = Some h \<longrightarrow> crc_ok pc nc h" "nc mod 8 = 0"
    and "(if cb = None then 0 else nc) + (if last_cb then nt else 0) \<le> K"
    and "K div 8 < length input" "2 * (K div 8) < length parity" "K div 8 \<le> length temp" "3 * K + 12 \<le> length dst"
  shows "\<exists>tb' cb' input' parity' temp' out.
    srsran_tcod_encode_lut T tb cb input parity temp (word_of_nat j) last_cb =
      Some (3 * int K + 12, tb', cb', input', parity', temp') \<and>
    length input' = length input \<and>
    (let m = (K - (if cb = None then 0 else nc) - (if last_cb then nt else 0)) div 8 in take m input' = take m input) \<and>
    (cb \<noteq> None \<longrightarrow> crc_ref pc nc (bytes_bits (take (K div 8) input')) = 0) \<and>
    srsran_tcod_encode T 6144 (map (\<lambda>n. bit_byte (packed_bit input' n)) [0..<K]) dst K = Some (0, out) \<and>
    (\<forall>n < K + 4. out ! (3 * n) = bit_byte (packed_bit input' n) \<and> out ! (3 * n + 1) = bit_byte (packed_bit parity' n) \<and>
       out ! (3 * n + 2) = bit_byte (packed_bit parity' (K + 4 + n)))"
proof -
  have K: "K = cb_len j" using assms(5) by (simp add: cb_len_def)
  note T = tables_of [OF assms(1-3)]
  have m8: "8 * (cb_len j div 8) = cb_len j" using cb_len_mod8 [OF assms(4)] by (simp add: mod_eq_0_iff_dvd)
  have cb: "case cb of None \<Rightarrow> True | Some h \<Rightarrow> crc_ok pc nc h" using assms(8) by (simp split: option.split)
  obtain tb' cb' input' parity' temp' where run:
    "srsran_tcod_encode_lut T tb cb input parity temp (word_of_nat j) last_cb =
      Some (3 * int K + 12, tb', cb', input', parity', temp')" "length input' = length input"
    "take ((K - (if cb = None then 0 else nc) - (if last_cb then nt else 0)) div 8) input' =
       take ((K - (if cb = None then 0 else nc) - (if last_cb then nt else 0)) div 8) input"
    "cb \<noteq> None \<longrightarrow> crc_ref pc nc (bytes_bits (take (K div 8) input')) = 0"
    and streams: "let x1 = packed_bit input'; x2 = (\<lambda>i. packed_bit input' (qpp_index j i));
         tail = rsc_tail x1 K @ rsc_tail x2 K
     in \<forall>n < K + 4. packed_bit input' n = stream_bit tail 0 x1 K n \<and>
          packed_bit parity' n = stream_bit tail 1 (rsc_z x1) K n \<and>
          packed_bit parity' (K + 4 + n) = stream_bit tail 2 (rsc_z x2) K n"
    using srsran_tcod_encode_lut_run [OF T assms(4,6,7) cb assms(9) assms(10) [unfolded K] refl m8 assms(11-13) [unfolded K]]
    unfolding K by blast
  let ?bits = "map (\<lambda>n. bit_byte (packed_bit input' n)) [0..<K]"
  let ?x1 = "packed_bit input'" and ?x2 = "\<lambda>i. packed_bit input' (qpp_index j i)"
  define y1 where "y1 = (\<lambda>k. byte_bit (?bits ! k))"
  define y2 where "y2 = (\<lambda>k. byte_bit (?bits ! qpp_index j k))"
  have y1: "y1 n = ?x1 n" if "n < K" for n using that by (simp add: y1_def)
  have y2: "y2 = ?x2" using qpp_index_less [OF assms(4)] by (simp add: y2_def K fun_eq_iff)
  have z: "rsc_z y1 n = rsc_z ?x1 n" if "n < K" for n using that y1 by (intro rsc_z_cong) simp
  have "rsc_state y1 K = rsc_state ?x1 K" by (intro rsc_state_cong y1)
  then have tail1: "rsc_tail y1 K = rsc_tail ?x1 K" by (simp add: rsc_tail_def rsc_state_def)
  let ?tail = "rsc_tail ?x1 K @ rsc_tail ?x2 K"
  have bits: "is_bits ?bits" by (auto simp: bit_byte_def)
  obtain out where out: "srsran_tcod_encode T 6144 ?bits dst K = Some (0, out)" "length out = length dst"
    "\<forall>i < K. out ! (3 * i) = ?bits ! i \<and> out ! (3 * i + 1) = bit_byte (rsc_z y1 i) \<and> out ! (3 * i + 2) = bit_byte (rsc_z y2 i)"
    "take 12 (drop (3 * K) out) = map bit_byte ?tail"
    using srsran_tcod_encode [OF T(1) assms(4), of 6144 ?bits dst y1 y2] cb_len [OF assms(4)] bits assms(14)
    unfolding K [symmetric] tail1 y2 [symmetric] by (auto simp: y1_def y2_def)
  have tail_at: "out ! (3 * n + k) = bit_byte (?tail ! (3 * (n - K) + k))" if "K \<le> n" "n < K + 4" "k < 3" for n k
  proof -
    have i: "3 * (n - K) + k < 12" using that by linarith
    have "take 12 (drop (3 * K) out) ! (3 * (n - K) + k) = out ! (3 * K + (3 * (n - K) + k))"
      using i out(2) assms(14) by simp
    also have "3 * K + (3 * (n - K) + k) = 3 * n + k" using that by linarith
    finally have "out ! (3 * n + k) = map bit_byte ?tail ! (3 * (n - K) + k)" by (simp only: out(4))
    moreover have "length ?tail = 12" by (simp add: rsc_tail_def Let_def)
    ultimately show ?thesis using i by (simp only: nth_map)
  qed
  have "out ! (3 * n) = bit_byte (packed_bit input' n) \<and> out ! (3 * n + 1) = bit_byte (packed_bit parity' n) \<and>
       out ! (3 * n + 2) = bit_byte (packed_bit parity' (K + 4 + n))" if n: "n < K + 4" for n
  proof -
    have s: "packed_bit input' n = stream_bit ?tail 0 ?x1 K n" "packed_bit parity' n = stream_bit ?tail 1 (rsc_z ?x1) K n"
      "packed_bit parity' (K + 4 + n) = stream_bit ?tail 2 (rsc_z ?x2) K n"
      using streams n unfolding Let_def by blast+
    show ?thesis
    proof (cases "n < K")
      case True
      then show ?thesis using s out(3) z y2 by (simp add: stream_bit_def)
    next
      case False
      then show ?thesis using s tail_at [of n 0] tail_at [of n 1] tail_at [of n 2] n by (simp add: stream_bit_def)
    qed
  qed
  then show ?thesis using run out(1) unfolding Let_def by blast
qed

theorem srsran_tcod_encode_lut_equiv_witness:
  "\<exists>T tb r out. srsran_tcod_gentable (replicate 6144 0) (replicate 6144 0) = Some T \<and>
     srsran_crc_init 0x1864CFB 24 = (0, tb) \<and>
     srsran_tcod_encode_lut T tb None [1, 2, 3, 4, 5, 6] (replicate 11 0) (replicate 5 0) 0 False = Some (132, r) \<and>
     srsran_tcod_encode T 6144 (map (\<lambda>n. bit_byte (packed_bit [1, 2, 3, 4, 5] n)) [0..<40]) (replicate 132 0) 40 = Some (0, out)"
proof -
  obtain T where T: "srsran_tcod_gentable (replicate 6144 0) (replicate 6144 0) = Some T" using tables_exist by blast
  obtain tb where tb: "srsran_crc_init 0x1864CFB 24 = (0, tb)" "crc_ok (ucast (0x1864CFB :: u32)) 24 tb"
    using crc_init_ok [OF crc_poly_crc24a] by blast
  have K: "(40 :: nat) = unat (tc_cb_sizes ! 0)" by (simp add: tc_cb_sizes_facts)
  let ?in = "[1, 2, 3, 4, 5, 6 :: byte]"
  obtain tb' cb' input' parity' temp' out where r:
    "srsran_tcod_encode_lut T tb None ?in (replicate 11 0) (replicate 5 0) (word_of_nat 0) False =
       Some (3 * int 40 + 12, tb', cb', input', parity', temp')"
    "length input' = length ?in" "take (40 div 8) input' = take (40 div 8) ?in"
    "srsran_tcod_encode T 6144 (map (\<lambda>n. bit_byte (packed_bit input' n)) [0..<40]) (replicate 132 0) 40 = Some (0, out)"
    using srsran_tcod_encode_lut_equiv [OF _ _ T _ K tb(2), where cb = None and nc = 0 and last_cb = False and input = ?in
      and parity = "replicate 11 0" and temp = "replicate 5 0" and dst = "replicate 132 0"]
    by (simp only: length_replicate) (auto simp: Let_def simp del: upt_rec_numeral)
  have "packed_bit input' n = packed_bit [1, 2, 3, 4, 5] n" if "n < 40" for n
    using packed_bit_take [OF r(3), of n] packed_bit_take [of 5 ?in "[1, 2, 3, 4, 5]" n] that by simp
  then have same: "map (\<lambda>n. bit_byte (packed_bit input' n)) [0..<40] = map (\<lambda>n. bit_byte (packed_bit [1, 2, 3, 4, 5] n)) [0..<40]"
    by (intro map_cong refl) (simp del: upt_rec_numeral)
  show ?thesis
    by (rule exI [of _ T], rule exI [of _ tb], rule exI, rule exI [of _ out], intro conjI T tb(1) r(4) [unfolded same])
      (use r(1) in simp)
qed

end
