(* ===== verification/RbTree.thy ===== *)
theory RbTree
  imports Prelude
begin

text \<open>
  The associative container \<^verbatim>\<open>util/alg_ds/ds/assoc_container/assoc_rb_tree.c\<close>, a red-black tree with parent pointers
  and a dummy node in the place of every leaf. Nodes live in a heap, a partial function from addresses; \<^verbatim>\<open>NULL\<close> is
  the address \<open>0\<close>. Following a pointer to no node, and a failed \<^verbatim>\<open>assert\<close>, is \<open>None\<close>. A loop that might not end on
  a malformed heap is a partial function. Keys are copied by value; a value is a pointer that the container stores.
\<close>

section \<open>Nodes and the tree\<close>

type_synonym ref = nat

abbreviation NULL :: ref where "NULL \<equiv> 0"

datatype assoc_color = ASSOC_BLACK | ASSOC_RED

record ('k, 'v) assoc_node =
  n_key :: "'k option"
  n_value :: "'v option"
  n_parent :: ref
  n_left :: ref
  n_right :: ref
  n_color :: assoc_color

text \<open>The comparison \<^verbatim>\<open>comp\<close> is a field of the tree; \<^verbatim>\<open>free_func\<close> is given to the function that calls it.\<close>

record ('k, 'v) assoc_rb_tree =
  t_heap :: "ref \<Rightarrow> ('k, 'v) assoc_node option"
  t_dummy :: ref
  t_root :: ref
  t_comp :: "'k \<Rightarrow> 'k \<Rightarrow> int"
  t_size :: nat
  t_key_sz :: nat

definition get :: "(('k, 'v) assoc_node \<Rightarrow> 'f) \<Rightarrow> ('k, 'v) assoc_rb_tree \<Rightarrow> ref \<Rightarrow> 'f option" where
  "get f t p = map_option f (t_heap t p)"

definition put :: "(('k, 'v) assoc_node \<Rightarrow> ('k, 'v) assoc_node) \<Rightarrow> ('k, 'v) assoc_rb_tree \<Rightarrow> ref \<Rightarrow> ('k, 'v) assoc_rb_tree option" where
  "put g t p = (case t_heap t p of None \<Rightarrow> None | Some n \<Rightarrow> Some (t\<lparr>t_heap := (t_heap t)(p \<mapsto> g n)\<rparr>))"

abbreviation "set_parent q \<equiv> n_parent_update (\<lambda>_. q)"
abbreviation "set_left q \<equiv> n_left_update (\<lambda>_. q)"
abbreviation "set_right q \<equiv> n_right_update (\<lambda>_. q)"
abbreviation "set_color c \<equiv> n_color_update (\<lambda>_. c)"

text \<open>\<^verbatim>\<open>malloc\<close> gives an address that is in use nowhere, not \<^verbatim>\<open>NULL\<close>; it is an argument.\<close>

definition init_node :: "'k option \<Rightarrow> 'v option \<Rightarrow> ('k, 'v) assoc_node" where
  "init_node key val =
     \<lparr>n_key = key, n_value = val, n_parent = NULL, n_left = NULL, n_right = NULL, n_color = ASSOC_RED\<rparr>"

definition create_node_rb_tree :: "('k, 'v) assoc_rb_tree \<Rightarrow> ref \<Rightarrow> 'k \<Rightarrow> 'v option \<Rightarrow> ('k, 'v) assoc_rb_tree option" where
  "create_node_rb_tree t x key val = do {
     c_assert (x \<noteq> NULL \<and> t_heap t x = None);
     let t = t\<lparr>t_heap := (t_heap t)(x \<mapsto> init_node (Some key) val)\<rparr>;
     t \<leftarrow> put (set_parent (t_dummy t)) t x;
     t \<leftarrow> put (set_left (t_dummy t)) t x;
     put (set_right (t_dummy t)) t x
   }"

definition free_node_rb_tree :: "('k, 'v) assoc_rb_tree \<Rightarrow> ref \<Rightarrow> ('k, 'v) assoc_rb_tree option" where
  "free_node_rb_tree t n = do {
     c_assert (n \<noteq> NULL \<and> t_heap t n \<noteq> None);
     Some (t\<lparr>t_heap := (t_heap t)(n := None)\<rparr>)
   }"

definition assoc_rb_tree_init :: "ref \<Rightarrow> nat \<Rightarrow> ('k \<Rightarrow> 'k \<Rightarrow> int) \<Rightarrow> ('k, 'v) assoc_rb_tree option" where
  "assoc_rb_tree_init d key_sz comp_func = do {
     c_assert (0 < key_sz \<and> d \<noteq> NULL);
     Some \<lparr>t_heap = [d \<mapsto> set_color ASSOC_BLACK (init_node None None)], t_dummy = d, t_root = d, t_comp = comp_func,
           t_size = 0, t_key_sz = key_sz\<rparr>
   }"

text \<open>Freeing: the nodes in the order in which the recursion reaches them, with the keys and values that are handed
  to \<^verbatim>\<open>free_func\<close>.\<close>

partial_function (option) depth_first_search_free ::
    "('k, 'v) assoc_rb_tree \<Rightarrow> ref \<Rightarrow> (('k option \<times> 'v option) list \<times> ('k, 'v) assoc_rb_tree) option" where
  "depth_first_search_free t node = do {
     c_assert (node \<noteq> NULL);
     if node \<noteq> t_dummy t
     then do {
       l \<leftarrow> get n_left t node;
       (fs, t) \<leftarrow> depth_first_search_free t l;
       r \<leftarrow> get n_right t node;
       (gs, t) \<leftarrow> depth_first_search_free t r;
       k \<leftarrow> get n_key t node;
       v \<leftarrow> get n_value t node;
       t \<leftarrow> free_node_rb_tree t node;
       Some (fs @ gs @ [(k, v)], t)
     }
     else Some ([], t)
   }"

definition assoc_rb_tree_free :: "('k, 'v) assoc_rb_tree \<Rightarrow> (('k option \<times> 'v option) list \<times> ('k, 'v) assoc_rb_tree) option" where
  "assoc_rb_tree_free t = do {
     (fs, t) \<leftarrow> depth_first_search_free t (t_root t);
     c_assert (t_heap t (t_dummy t) \<noteq> None);
     Some (fs, t\<lparr>t_heap := (t_heap t)(t_dummy t := None)\<rparr>)
   }"

section \<open>Rotations\<close>

definition left_rotate :: "('k, 'v) assoc_rb_tree \<Rightarrow> ref \<Rightarrow> ('k, 'v) assoc_rb_tree option" where
  "left_rotate t x_node = do {
     c_assert (x_node \<noteq> NULL);
     y_node \<leftarrow> get n_right t x_node;
     c_assert (y_node \<noteq> t_dummy t);
     yl \<leftarrow> get n_left t y_node;
     t \<leftarrow> put (set_right yl) t x_node;
     yl \<leftarrow> get n_left t y_node;
     t \<leftarrow> (if yl \<noteq> t_dummy t then put (set_parent x_node) t yl else Some t);
     xp \<leftarrow> get n_parent t x_node;
     t \<leftarrow> put (set_parent xp) t y_node;
     xp \<leftarrow> get n_parent t x_node;
     t \<leftarrow> (if xp = t_dummy t then Some (t\<lparr>t_root := y_node\<rparr>)
          else do {
            xpl \<leftarrow> get n_left t xp;
            if x_node = xpl then put (set_left y_node) t xp else put (set_right y_node) t xp
          });
     t \<leftarrow> put (set_left x_node) t y_node;
     put (set_parent y_node) t x_node
   }"

definition right_rotate :: "('k, 'v) assoc_rb_tree \<Rightarrow> ref \<Rightarrow> ('k, 'v) assoc_rb_tree option" where
  "right_rotate t x_node = do {
     c_assert (x_node \<noteq> NULL);
     y_node \<leftarrow> get n_left t x_node;
     c_assert (y_node \<noteq> t_dummy t);
     yr \<leftarrow> get n_right t y_node;
     t \<leftarrow> put (set_left yr) t x_node;
     yr \<leftarrow> get n_right t y_node;
     t \<leftarrow> (if yr \<noteq> t_dummy t then put (set_parent x_node) t yr else Some t);
     xp \<leftarrow> get n_parent t x_node;
     t \<leftarrow> put (set_parent xp) t y_node;
     xp \<leftarrow> get n_parent t x_node;
     t \<leftarrow> (if xp = t_dummy t then Some (t\<lparr>t_root := y_node\<rparr>)
          else do {
            xpl \<leftarrow> get n_left t xp;
            if xpl = x_node then put (set_left y_node) t xp else put (set_right y_node) t xp
          });
     t \<leftarrow> put (set_right x_node) t y_node;
     put (set_parent y_node) t x_node
   }"

section \<open>Insertion\<close>

partial_function (option) insert_fixup :: "('k, 'v) assoc_rb_tree \<Rightarrow> ref \<Rightarrow> ('k, 'v) assoc_rb_tree option" where
  "insert_fixup t z_node = do {
     zp \<leftarrow> get n_parent t z_node;
     zpc \<leftarrow> get n_color t zp;
     if zpc = ASSOC_RED
     then do {
       let parent = zp;
       grand_parent \<leftarrow> get n_parent t parent;
       gl \<leftarrow> get n_left t grand_parent;
       if parent = gl
       then do {
         uncle \<leftarrow> get n_right t grand_parent;
         uc \<leftarrow> get n_color t uncle;
         if uc = ASSOC_RED
         then do {
           t \<leftarrow> put (set_color ASSOC_BLACK) t parent;
           t \<leftarrow> put (set_color ASSOC_BLACK) t uncle;
           t \<leftarrow> put (set_color ASSOC_RED) t grand_parent;
           insert_fixup t grand_parent
         }
         else do {
           pr \<leftarrow> get n_right t parent;
           (t, z_node, parent) \<leftarrow>
             (if z_node = pr
              then do {
                let z_node = parent;
                t \<leftarrow> left_rotate t z_node;
                parent \<leftarrow> get n_parent t z_node;
                Some (t, z_node, parent)
              }
              else Some (t, z_node, parent));
           t \<leftarrow> put (set_color ASSOC_BLACK) t parent;
           t \<leftarrow> put (set_color ASSOC_RED) t grand_parent;
           t \<leftarrow> right_rotate t grand_parent;
           insert_fixup t z_node
         }
       }
       else do {
         uncle \<leftarrow> get n_left t grand_parent;
         uc \<leftarrow> get n_color t uncle;
         if uc = ASSOC_RED
         then do {
           t \<leftarrow> put (set_color ASSOC_BLACK) t parent;
           t \<leftarrow> put (set_color ASSOC_BLACK) t uncle;
           t \<leftarrow> put (set_color ASSOC_RED) t grand_parent;
           insert_fixup t grand_parent
         }
         else do {
           pl \<leftarrow> get n_left t parent;
           (t, z_node, parent) \<leftarrow>
             (if z_node = pl
              then do {
                let z_node = parent;
                t \<leftarrow> right_rotate t z_node;
                parent \<leftarrow> get n_parent t z_node;
                Some (t, z_node, parent)
              }
              else Some (t, z_node, parent));
           t \<leftarrow> put (set_color ASSOC_BLACK) t parent;
           t \<leftarrow> put (set_color ASSOC_RED) t grand_parent;
           t \<leftarrow> left_rotate t grand_parent;
           insert_fixup t z_node
         }
       }
     }
     else put (set_color ASSOC_BLACK) t (t_root t)
   }"

text \<open>The loop that finds the leaf: the parent of the new node.\<close>

partial_function (option) insert_descend :: "('k, 'v) assoc_rb_tree \<Rightarrow> ref \<Rightarrow> ref \<Rightarrow> ref \<Rightarrow> ref option" where
  "insert_descend t z_node x_node y_node =
     (if x_node \<noteq> t_dummy t
      then do {
        let y_node = x_node;
        zk \<leftarrow> get n_key t z_node;
        xk \<leftarrow> get n_key t x_node;
        zk \<leftarrow> zk;
        xk \<leftarrow> xk;
        x_node \<leftarrow> (if t_comp t zk xk = 1 then get n_left t x_node else get n_right t x_node);
        insert_descend t z_node x_node y_node
      }
      else Some y_node)"

definition assoc_rb_tree_insert ::
    "('k, 'v) assoc_rb_tree \<Rightarrow> ref \<Rightarrow> 'k \<Rightarrow> nat \<Rightarrow> 'v option \<Rightarrow> ('k, 'v) assoc_rb_tree option" where
  "assoc_rb_tree_insert t z_node key key_sz val = do {
     c_assert (t_key_sz t = key_sz);
     t \<leftarrow> create_node_rb_tree t z_node key val;
     c_assert (z_node \<noteq> t_dummy t);
     c_assert (get n_parent t z_node = Some (t_dummy t) \<and> get n_left t z_node = Some (t_dummy t));
     c_assert (get n_right t z_node = Some (t_dummy t) \<and> get n_color t z_node = Some ASSOC_RED);
     y_node \<leftarrow> insert_descend t z_node (t_root t) (t_dummy t);
     t \<leftarrow> put (set_parent y_node) t z_node;
     t \<leftarrow> (if y_node = t_dummy t then Some (t\<lparr>t_root := z_node\<rparr>)
          else do {
            yk \<leftarrow> get n_key t y_node;
            yk \<leftarrow> yk;
            if t_comp t key yk = 1 then put (set_left z_node) t y_node else put (set_right z_node) t y_node
          });
     t \<leftarrow> insert_fixup t z_node;
     Some (t\<lparr>t_size := t_size t + 1\<rparr>)
   }"

section \<open>Removal\<close>

partial_function (option) delete_fixup :: "('k, 'v) assoc_rb_tree \<Rightarrow> ref \<Rightarrow> ('k, 'v) assoc_rb_tree option" where
  "delete_fixup t x_node = do {
     xc \<leftarrow> get n_color t x_node;
     if x_node \<noteq> t_root t \<and> xc = ASSOC_BLACK
     then do {
       xp \<leftarrow> get n_parent t x_node;
       xpl \<leftarrow> get n_left t xp;
       if x_node = xpl
       then do {
         w_node \<leftarrow> get n_right t xp;
         wc \<leftarrow> get n_color t w_node;
         (t, w_node) \<leftarrow>
           (if wc = ASSOC_RED
            then do {
              t \<leftarrow> put (set_color ASSOC_BLACK) t w_node;
              xp \<leftarrow> get n_parent t x_node;
              t \<leftarrow> put (set_color ASSOC_RED) t xp;
              xp \<leftarrow> get n_parent t x_node;
              t \<leftarrow> left_rotate t xp;
              xp \<leftarrow> get n_parent t x_node;
              w_node \<leftarrow> get n_right t xp;
              Some (t, w_node)
            }
            else Some (t, w_node));
         wc \<leftarrow> get n_color t w_node;
         c_assert (wc = ASSOC_BLACK);
         wl \<leftarrow> get n_left t w_node;
         wlc \<leftarrow> get n_color t wl;
         wr \<leftarrow> get n_right t w_node;
         wrc \<leftarrow> get n_color t wr;
         if wlc = ASSOC_BLACK \<and> wrc = ASSOC_BLACK
         then do {
           t \<leftarrow> put (set_color ASSOC_RED) t w_node;
           x_node \<leftarrow> get n_parent t x_node;
           delete_fixup t x_node
         }
         else do {
           (t, w_node) \<leftarrow>
             (if wrc = ASSOC_BLACK
              then do {
                c_assert (wlc = ASSOC_RED);
                t \<leftarrow> put (set_color ASSOC_BLACK) t wl;
                t \<leftarrow> put (set_color ASSOC_RED) t w_node;
                t \<leftarrow> right_rotate t w_node;
                xp \<leftarrow> get n_parent t x_node;
                w_node \<leftarrow> get n_right t xp;
                Some (t, w_node)
              }
              else Some (t, w_node));
           wc \<leftarrow> get n_color t w_node;
           c_assert (wc = ASSOC_BLACK);
           wr \<leftarrow> get n_right t w_node;
           wrc \<leftarrow> get n_color t wr;
           c_assert (wrc = ASSOC_RED);
           xp \<leftarrow> get n_parent t x_node;
           xpc \<leftarrow> get n_color t xp;
           t \<leftarrow> put (set_color xpc) t w_node;
           t \<leftarrow> put (set_color ASSOC_BLACK) t xp;
           t \<leftarrow> put (set_color ASSOC_BLACK) t wr;
           xp \<leftarrow> get n_parent t x_node;
           t \<leftarrow> left_rotate t xp;
           delete_fixup t (t_root t)
         }
       }
       else do {
         w_node \<leftarrow> get n_left t xp;
         wc \<leftarrow> get n_color t w_node;
         (t, w_node) \<leftarrow>
           (if wc = ASSOC_RED
            then do {
              t \<leftarrow> put (set_color ASSOC_BLACK) t w_node;
              xp \<leftarrow> get n_parent t x_node;
              t \<leftarrow> put (set_color ASSOC_RED) t xp;
              xp \<leftarrow> get n_parent t x_node;
              t \<leftarrow> right_rotate t xp;
              xp \<leftarrow> get n_parent t x_node;
              w_node \<leftarrow> get n_left t xp;
              Some (t, w_node)
            }
            else Some (t, w_node));
         wc \<leftarrow> get n_color t w_node;
         c_assert (wc = ASSOC_BLACK);
         wl \<leftarrow> get n_left t w_node;
         wlc \<leftarrow> get n_color t wl;
         wr \<leftarrow> get n_right t w_node;
         wrc \<leftarrow> get n_color t wr;
         if wlc = ASSOC_BLACK \<and> wrc = ASSOC_BLACK
         then do {
           t \<leftarrow> put (set_color ASSOC_RED) t w_node;
           x_node \<leftarrow> get n_parent t x_node;
           delete_fixup t x_node
         }
         else do {
           (t, w_node) \<leftarrow>
             (if wlc = ASSOC_BLACK
              then do {
                c_assert (wrc = ASSOC_RED);
                t \<leftarrow> put (set_color ASSOC_BLACK) t wr;
                t \<leftarrow> put (set_color ASSOC_RED) t w_node;
                t \<leftarrow> left_rotate t w_node;
                xp \<leftarrow> get n_parent t x_node;
                w_node \<leftarrow> get n_left t xp;
                Some (t, w_node)
              }
              else Some (t, w_node));
           wc \<leftarrow> get n_color t w_node;
           c_assert (wc = ASSOC_BLACK);
           wl \<leftarrow> get n_left t w_node;
           wlc \<leftarrow> get n_color t wl;
           c_assert (wlc = ASSOC_RED);
           xp \<leftarrow> get n_parent t x_node;
           xpc \<leftarrow> get n_color t xp;
           t \<leftarrow> put (set_color xpc) t w_node;
           t \<leftarrow> put (set_color ASSOC_BLACK) t xp;
           t \<leftarrow> put (set_color ASSOC_BLACK) t wl;
           xp \<leftarrow> get n_parent t x_node;
           t \<leftarrow> right_rotate t xp;
           delete_fixup t (t_root t)
         }
       }
     }
     else put (set_color ASSOC_BLACK) t x_node
   }"

definition transplant :: "('k, 'v) assoc_rb_tree \<Rightarrow> ref \<Rightarrow> ref \<Rightarrow> ('k, 'v) assoc_rb_tree option" where
  "transplant t u_node v_node = do {
     c_assert (u_node \<noteq> t_dummy t);
     up \<leftarrow> get n_parent t u_node;
     t \<leftarrow> (if up = t_dummy t then Some (t\<lparr>t_root := v_node\<rparr>)
          else do {
            upl \<leftarrow> get n_left t up;
            if u_node = upl then put (set_left v_node) t up else put (set_right v_node) t up
          });
     up \<leftarrow> get n_parent t u_node;
     put (set_parent up) t v_node
   }"

partial_function (option) minimum_loop :: "('k, 'v) assoc_rb_tree \<Rightarrow> ref \<Rightarrow> ref option" where
  "minimum_loop t x_node = do {
     l \<leftarrow> get n_left t x_node;
     if l \<noteq> t_dummy t then minimum_loop t l else Some x_node
   }"

definition minimum :: "('k, 'v) assoc_rb_tree \<Rightarrow> ref \<Rightarrow> ref option" where
  "minimum t x_node = (if x_node = t_dummy t then Some (t_dummy t) else minimum_loop t x_node)"

partial_function (option) find_rb_tree :: "('k, 'v) assoc_rb_tree \<Rightarrow> ref \<Rightarrow> 'k \<Rightarrow> ref option" where
  "find_rb_tree t node key = do {
     c_assert (node \<noteq> NULL);
     if node \<noteq> t_dummy t
     then do {
       nk \<leftarrow> get n_key t node;
       nk \<leftarrow> nk;
       let rc = t_comp t key nk;
       if rc = 1 then get n_left t node \<bind> (\<lambda>node. find_rb_tree t node key)
       else if rc = - 1 then get n_right t node \<bind> (\<lambda>node. find_rb_tree t node key)
       else do {
         c_assert (rc = 0);
         Some node
       }
     }
     else Some node
   }"

definition assoc_rb_tree_extract :: "('k, 'v) assoc_rb_tree \<Rightarrow> 'k \<Rightarrow> ('v option \<times> ('k, 'v) assoc_rb_tree) option" where
  "assoc_rb_tree_extract t key = do {
     z_node \<leftarrow> find_rb_tree t (t_root t) key;
     c_assert (z_node \<noteq> t_dummy t);
     original_color \<leftarrow> get n_color t z_node;
     zl \<leftarrow> get n_left t z_node;
     zr \<leftarrow> get n_right t z_node;
     (t, x_node, original_color) \<leftarrow>
       (if zl = t_dummy t
        then do {
          t \<leftarrow> transplant t z_node zr;
          Some (t, zr, original_color)
        }
        else if zr = t_dummy t
        then do {
          t \<leftarrow> transplant t z_node zl;
          Some (t, zl, original_color)
        }
        else do {
          y_node \<leftarrow> minimum t zr;
          original_color \<leftarrow> get n_color t y_node;
          x_node \<leftarrow> get n_right t y_node;
          yp \<leftarrow> get n_parent t y_node;
          t \<leftarrow> (if yp = z_node then put (set_parent y_node) t x_node
               else do {
                 yr \<leftarrow> get n_right t y_node;
                 t \<leftarrow> transplant t y_node yr;
                 zr \<leftarrow> get n_right t z_node;
                 t \<leftarrow> put (set_right zr) t y_node;
                 put (set_parent y_node) t zr
               });
          t \<leftarrow> transplant t z_node y_node;
          zl \<leftarrow> get n_left t z_node;
          t \<leftarrow> put (set_left zl) t y_node;
          t \<leftarrow> put (set_parent y_node) t zl;
          zc \<leftarrow> get n_color t z_node;
          t \<leftarrow> put (set_color zc) t y_node;
          Some (t, x_node, original_color)
        });
     val \<leftarrow> get n_value t z_node;
     t \<leftarrow> free_node_rb_tree t z_node;
     t \<leftarrow> (if original_color = ASSOC_BLACK then delete_fixup t x_node else Some t);
     c_assert (t_size t \<noteq> 0);
     Some (val, t\<lparr>t_size := t_size t - 1\<rparr>)
   }"

section \<open>Iterators\<close>

definition assoc_rb_tree_front :: "('k, 'v) assoc_rb_tree \<Rightarrow> ref option" where
  "assoc_rb_tree_front t = minimum t (t_root t)"

partial_function (option) climb :: "('k, 'v) assoc_rb_tree \<Rightarrow> ref \<Rightarrow> ref \<Rightarrow> ref option" where
  "climb t node p =
     (if p \<noteq> t_dummy t
      then do {
        pl \<leftarrow> get n_left t p;
        if pl \<noteq> node
        then do {
          let node = p;
          p \<leftarrow> get n_parent t node;
          climb t node p
        }
        else Some p
      }
      else Some p)"

definition assoc_rb_tree_next :: "('k, 'v) assoc_rb_tree \<Rightarrow> ref \<Rightarrow> ref option" where
  "assoc_rb_tree_next t it = do {
     c_assert (it \<noteq> NULL);
     c_assert (it \<noteq> t_dummy t);
     r \<leftarrow> get n_right t it;
     if r \<noteq> t_dummy t then minimum t r
     else do {
       p \<leftarrow> get n_parent t it;
       climb t it p
     }
   }"

definition assoc_rb_tree_end :: "('k, 'v) assoc_rb_tree \<Rightarrow> ref" where
  "assoc_rb_tree_end t = t_dummy t"

definition assoc_rb_tree_key :: "('k, 'v) assoc_rb_tree \<Rightarrow> ref \<Rightarrow> 'k option" where
  "assoc_rb_tree_key t it = do {
     c_assert (it \<noteq> t_dummy t);
     k \<leftarrow> get n_key t it;
     k
   }"

definition assoc_rb_tree_value :: "('k, 'v) assoc_rb_tree \<Rightarrow> ref \<Rightarrow> 'v option option" where
  "assoc_rb_tree_value t it = do {
     c_assert (it \<noteq> t_dummy t);
     get n_value t it
   }"

definition assoc_rb_tree_size :: "('k, 'v) assoc_rb_tree \<Rightarrow> nat" where
  "assoc_rb_tree_size t = t_size t"

text \<open>\<^verbatim>\<open>find_if_rb_tree\<close> of \<^verbatim>\<open>alg/find.c\<close>.\<close>

partial_function (option) find_if_rb_tree ::
    "('k, 'v) assoc_rb_tree \<Rightarrow> ref \<Rightarrow> ref \<Rightarrow> 'a \<Rightarrow> ('a \<Rightarrow> 'k \<Rightarrow> bool) \<Rightarrow> ref option" where
  "find_if_rb_tree t start_it end_it val f =
     (if start_it \<noteq> end_it
      then do {
        k \<leftarrow> assoc_rb_tree_key t start_it;
        if f val k then Some start_it
        else do {
          start_it \<leftarrow> assoc_rb_tree_next t start_it;
          find_if_rb_tree t start_it end_it val f
        }
      }
      else Some start_it)"

end
