(* ===== verification/RbShape.thy ===== *)
theory RbShape
  imports RbTree begin

text \<open>
  Trees as values: what the heap of \<^verbatim>\<open>assoc_rb_tree.c\<close> represents. Every node carries its address. A context is the
  path from a subtree up to the root, with the siblings; \<open>plug\<close> puts a subtree back. The operations work below a
  context, so one lemma about reading, one about colours and one about rotations are enough for all loops.
\<close>

section \<open>Trees and contexts\<close>

datatype side = Lft | Rgt

fun other :: "side \<Rightarrow> side" where
  "other Lft = Rgt"
| "other Rgt = Lft"

lemma other_other [simp]: "other (other s) = s" by (cases s) simp_all
lemma other_neq [simp]: "other s \<noteq> s" "s \<noteq> other s" by (cases s; simp)+

type_synonym ('k, 'v) entry = "ref \<times> 'k \<times> 'v option"

datatype ('k, 'v) rbt = Lf | Nd "('k, 'v) rbt" assoc_color "('k, 'v) entry" "('k, 'v) rbt"

text \<open>A node seen from a side: its child there, and the other one.\<close>

fun node :: "side \<Rightarrow> ('k, 'v) rbt \<Rightarrow> assoc_color \<Rightarrow> ('k, 'v) entry \<Rightarrow> ('k, 'v) rbt \<Rightarrow> ('k, 'v) rbt" where
  "node Lft a c e b = Nd a c e b"
| "node Rgt a c e b = Nd b c e a"

type_synonym ('k, 'v) ctx = "(side \<times> assoc_color \<times> ('k, 'v) entry \<times> ('k, 'v) rbt) list"

fun plug :: "('k, 'v) ctx \<Rightarrow> ('k, 'v) rbt \<Rightarrow> ('k, 'v) rbt" where
  "plug [] T = T"
| "plug ((s, c, e, u) # C) T = plug C (node s T c e u)"

fun col :: "('k, 'v) rbt \<Rightarrow> assoc_color" where
  "col Lf = ASSOC_BLACK"
| "col (Nd l c e r) = c"

fun entries :: "('k, 'v) rbt \<Rightarrow> ('k, 'v) entry list" where
  "entries Lf = []"
| "entries (Nd l c e r) = entries l @ e # entries r"

definition refs :: "('k, 'v) rbt \<Rightarrow> ref list" where
  "refs T = map fst (entries T)"

lemma refs_simps [simp]:
  "refs Lf = []" "refs (Nd l c e r) = refs l @ fst e # refs r"
  by (simp_all add: refs_def)

lemma set_refs_node [simp]: "set (refs (node s a c e b)) = insert (fst e) (set (refs a) \<union> set (refs b))"
  by (cases s) auto

lemma distinct_refs_node [simp]:
  "distinct (refs (node s a c e b)) \<longleftrightarrow>
     distinct (refs a) \<and> distinct (refs b) \<and> set (refs a) \<inter> set (refs b) = {} \<and> fst e \<notin> set (refs a) \<and> fst e \<notin> set (refs b)"
  by (cases s) auto

lemma col_node [simp]: "col (node s a c e b) = c"
  by (cases s) simp_all

fun crefs :: "('k, 'v) ctx \<Rightarrow> ref set" where
  "crefs [] = {}"
| "crefs ((s, c, e, u) # C) = insert (fst e) (set (refs u) \<union> crefs C)"

lemma set_refs_plug [simp]: "set (refs (plug C T)) = crefs C \<union> set (refs T)"
  by (induction C T rule: plug.induct) auto

fun cdistinct :: "('k, 'v) ctx \<Rightarrow> bool" where
  "cdistinct [] \<longleftrightarrow> True"
| "cdistinct ((s, c, e, u) # C) \<longleftrightarrow> cdistinct C \<and> distinct (refs u) \<and> fst e \<notin> set (refs u) \<and> fst e \<notin> crefs C \<and>
     set (refs u) \<inter> crefs C = {}"

lemma distinct_refs_plug [simp]:
  "distinct (refs (plug C T)) \<longleftrightarrow> cdistinct C \<and> distinct (refs T) \<and> set (refs T) \<inter> crefs C = {}"
  by (induction C T rule: plug.induct) auto

text \<open>The entries of a plugged tree: those before and after the hole.\<close>

fun before :: "('k, 'v) ctx \<Rightarrow> ('k, 'v) entry list" where
  "before [] = []"
| "before ((s, c, e, u) # C) = before C @ (case s of Lft \<Rightarrow> [] | Rgt \<Rightarrow> entries u @ [e])"

fun after :: "('k, 'v) ctx \<Rightarrow> ('k, 'v) entry list" where
  "after [] = []"
| "after ((s, c, e, u) # C) = (case s of Lft \<Rightarrow> e # entries u | Rgt \<Rightarrow> []) @ after C"

lemma entries_plug: "entries (plug C T) = before C @ entries T @ after C"
  by (induction C T rule: plug.induct) (auto split: side.split elim: node.elims)

lemma plug_append [simp]: "plug (C @ D) T = plug D (plug C T)"
  by (induction C T rule: plug.induct) simp_all

section \<open>The heap of a tree\<close>

fun addr :: "ref \<Rightarrow> ('k, 'v) rbt \<Rightarrow> ref" where
  "addr d Lf = d"
| "addr d (Nd l c e r) = fst e"

lemma addr_node [simp]: "addr d (node s a c e b) = fst e"
  by (cases s) simp_all

definition node_of :: "ref \<Rightarrow> ref \<Rightarrow> ('k, 'v) rbt \<Rightarrow> assoc_color \<Rightarrow> ('k, 'v) entry \<Rightarrow> ('k, 'v) rbt \<Rightarrow> ('k, 'v) assoc_node" where
  "node_of d p l c e r = \<lparr>n_key = Some (fst (snd e)), n_value = snd (snd e), n_parent = p, n_left = addr d l,
     n_right = addr d r, n_color = c\<rparr>"

fun rep :: "(ref \<Rightarrow> ('k, 'v) assoc_node option) \<Rightarrow> ref \<Rightarrow> ref \<Rightarrow> ('k, 'v) rbt \<Rightarrow> bool" where
  "rep h d p Lf \<longleftrightarrow> True"
| "rep h d p (Nd l c e r) \<longleftrightarrow> h (fst e) = Some (node_of d p l c e r) \<and> rep h d (fst e) l \<and> rep h d (fst e) r"

fun cpar :: "ref \<Rightarrow> ('k, 'v) ctx \<Rightarrow> ref" where
  "cpar d [] = d"
| "cpar d ((s, c, e, u) # C) = fst e"

text \<open>The context around a hole that holds the pointer \<open>p\<close>.\<close>

definition frame_node :: "ref \<Rightarrow> ref \<Rightarrow> side \<Rightarrow> ref \<Rightarrow> assoc_color \<Rightarrow> ('k, 'v) entry \<Rightarrow> ('k, 'v) rbt \<Rightarrow> ('k, 'v) assoc_node" where
  "frame_node d q s p c e u = \<lparr>n_key = Some (fst (snd e)), n_value = snd (snd e), n_parent = q,
     n_left = (if s = Lft then p else addr d u), n_right = (if s = Rgt then p else addr d u), n_color = c\<rparr>"

fun crep :: "(ref \<Rightarrow> ('k, 'v) assoc_node option) \<Rightarrow> ref \<Rightarrow> ref \<Rightarrow> ('k, 'v) ctx \<Rightarrow> ref \<Rightarrow> bool" where
  "crep h d root [] p \<longleftrightarrow> root = p"
| "crep h d root ((s, c, e, u) # C) p \<longleftrightarrow> h (fst e) = Some (frame_node d (cpar d C) s p c e u) \<and> rep h d (fst e) u \<and>
     crep h d root C (fst e)"

lemma rep_node:
  "rep h d p (node s a c e b) \<longleftrightarrow> h (fst e) = Some (frame_node d p s (addr d a) c e b) \<and> rep h d (fst e) a \<and> rep h d (fst e) b"
  by (cases s) (auto simp: node_of_def frame_node_def)

lemma rep_plug: "rep h d d (plug C T) \<and> root = addr d (plug C T) \<longleftrightarrow> crep h d root C (addr d T) \<and> rep h d (cpar d C) T"
  by (induction C T rule: plug.induct) (auto simp: rep_node)

lemma rep_upd [simp]: "q \<notin> set (refs T) \<Longrightarrow> rep (h(q := n)) d p T = rep h d p T"
  by (induction T arbitrary: p) auto

lemma crep_upd [simp]: "q \<notin> crefs C \<Longrightarrow> crep (h(q := n)) d root C p = crep h d root C p"
  by (induction h d root C p rule: crep.induct) auto

text \<open>The heap of a tree: its nodes and the dummy, whose colour is black and which has no key.\<close>

definition heap_tree :: "('k, 'v) assoc_rb_tree \<Rightarrow> ('k, 'v) rbt \<Rightarrow> bool" where
  "heap_tree t T \<longleftrightarrow> rep (t_heap t) (t_dummy t) (t_dummy t) T \<and> t_root t = addr (t_dummy t) T \<and> distinct (refs T) \<and>
     t_dummy t \<notin> set (refs T) \<and> NULL \<notin> set (refs T) \<and> t_dummy t \<noteq> NULL \<and>
     dom (t_heap t) = insert (t_dummy t) (set (refs T)) \<and>
     get n_color t (t_dummy t) = Some ASSOC_BLACK \<and> get n_key t (t_dummy t) = Some None"

lemma heap_tree_plug:
  "heap_tree t (plug C T) \<longleftrightarrow> crep (t_heap t) (t_dummy t) (t_root t) C (addr (t_dummy t) T) \<and>
     rep (t_heap t) (t_dummy t) (cpar (t_dummy t) C) T \<and> cdistinct C \<and> distinct (refs T) \<and> set (refs T) \<inter> crefs C = {} \<and>
     t_dummy t \<notin> crefs C \<and> t_dummy t \<notin> set (refs T) \<and> NULL \<notin> crefs C \<and> NULL \<notin> set (refs T) \<and> t_dummy t \<noteq> NULL \<and>
     dom (t_heap t) = insert (t_dummy t) (crefs C \<union> set (refs T)) \<and>
     get n_color t (t_dummy t) = Some ASSOC_BLACK \<and> get n_key t (t_dummy t) = Some None"
  using rep_plug [of "t_heap t" "t_dummy t" C T "t_root t"] by (auto simp: heap_tree_def)

text \<open>What an operation that only changes colours and links leaves alone.\<close>

definition same_rest :: "('k, 'v) assoc_rb_tree \<Rightarrow> ('k, 'v) assoc_rb_tree \<Rightarrow> bool" where
  "same_rest t t' \<longleftrightarrow> t_dummy t' = t_dummy t \<and> t_comp t' = t_comp t \<and> t_size t' = t_size t \<and> t_key_sz t' = t_key_sz t \<and>
     t_heap t' (t_dummy t) = t_heap t (t_dummy t)"

lemma same_rest_refl [simp]: "same_rest t t" by (simp add: same_rest_def)
lemma same_rest_trans: "same_rest t t' \<Longrightarrow> same_rest t' t'' \<Longrightarrow> same_rest t t''" by (simp add: same_rest_def)

section \<open>Reading\<close>

definition get_child :: "side \<Rightarrow> ('k, 'v) assoc_rb_tree \<Rightarrow> ref \<Rightarrow> ref option" where
  "get_child s = (case s of Lft \<Rightarrow> get n_left | Rgt \<Rightarrow> get n_right)"

definition put_child :: "side \<Rightarrow> ref \<Rightarrow> ('k, 'v) assoc_rb_tree \<Rightarrow> ref \<Rightarrow> ('k, 'v) assoc_rb_tree option" where
  "put_child s q = (case s of Lft \<Rightarrow> put (set_left q) | Rgt \<Rightarrow> put (set_right q))"

lemma child_simps:
  "get_child Lft = get n_left" "get_child Rgt = get n_right" "put_child Lft q = put (set_left q)" "put_child Rgt q = put (set_right q)"
  by (simp_all add: get_child_def put_child_def)

lemma heap_node:
  assumes "heap_tree t (plug C (node s a c e b))"
  shows "t_heap t (fst e) = Some (frame_node (t_dummy t) (cpar (t_dummy t) C) s (addr (t_dummy t) a) c e b)"
    and "fst e \<noteq> t_dummy t" "fst e \<noteq> NULL"
  using assms by (auto simp: heap_tree_plug rep_node)

lemma read_node:
  assumes "heap_tree t (plug C (node s a c e b))"
  shows "get_child s t (fst e) = Some (addr (t_dummy t) a)" "get_child (other s) t (fst e) = Some (addr (t_dummy t) b)"
    "get n_parent t (fst e) = Some (cpar (t_dummy t) C)" "get n_color t (fst e) = Some c"
    "get n_key t (fst e) = Some (Some (fst (snd e)))" "get n_value t (fst e) = Some (snd (snd e))"
  using heap_node(1) [OF assms] by (cases s; simp add: child_simps get_def frame_node_def)+

lemma read_color: "heap_tree t (plug C T) \<Longrightarrow> get n_color t (addr (t_dummy t) T) = Some (col T)"
  using read_node(4) [of t C Lft] by (cases T) (auto simp: heap_tree_plug)

lemma read_parent: "heap_tree t (plug C T) \<Longrightarrow> T \<noteq> Lf \<Longrightarrow> get n_parent t (addr (t_dummy t) T) = Some (cpar (t_dummy t) C)"
  using read_node(3) [of t C Lft] by (cases T) auto

lemma addr_dummy: "heap_tree t (plug C T) \<Longrightarrow> addr (t_dummy t) T = t_dummy t \<longleftrightarrow> T = Lf"
  by (cases T) (auto simp: heap_tree_plug)

text \<open>Different nodes have different addresses.\<close>

lemma addr_eq_child:
  assumes "heap_tree t (plug C (node s a c e b))"
  shows "a \<noteq> Lf \<Longrightarrow> addr (t_dummy t) a \<noteq> addr (t_dummy t) b" "addr (t_dummy t) a \<noteq> fst e"
  using assms by (cases a; cases b; auto simp: heap_tree_plug)+

section \<open>Changing a colour\<close>

definition recolor :: "assoc_color \<Rightarrow> ('k, 'v) rbt \<Rightarrow> ('k, 'v) rbt" where
  "recolor c T = (case T of Lf \<Rightarrow> Lf | Nd l _ e r \<Rightarrow> Nd l c e r)"

lemma recolor_simps [simp]: "recolor c Lf = Lf" "recolor c (Nd l c' e r) = Nd l c e r" "recolor c (node s a c' e b) = node s a c e b"
  by (cases s; simp add: recolor_def)+

lemma put_color:
  assumes "heap_tree t (plug C (node s a c e b))"
  shows "\<exists>t'. put (set_color c') t (fst e) = Some t' \<and> heap_tree t' (plug C (node s a c' e b)) \<and> same_rest t t' \<and> t_root t' = t_root t"
proof -
  note n = heap_node [OF assms]
  let ?t = "t\<lparr>t_heap := (t_heap t)(fst e \<mapsto> set_color c' (frame_node (t_dummy t) (cpar (t_dummy t) C) s (addr (t_dummy t) a) c e b))\<rparr>"
  have "heap_tree ?t (plug C (node s a c' e b))"
    using assms n by (auto simp: heap_tree_plug rep_node get_def frame_node_def)
  then show ?thesis using n by (auto simp: put_def same_rest_def)
qed

section \<open>Links\<close>

lemma rep_cong: "(\<And>q. q \<in> set (refs T) \<Longrightarrow> h' q = h q) \<Longrightarrow> rep h' d p T = rep h d p T"
  by (induction T arbitrary: p) auto

lemma crep_cong: "(\<And>q. q \<in> crefs C \<Longrightarrow> h' q = h q) \<Longrightarrow> crep h' d root C p = crep h d root C p"
proof (induction C arbitrary: p)
  case (Cons fr C)
  then show ?case using rep_cong [of "snd (snd (snd fr))" h' h] by (cases fr) auto
qed simp

text \<open>The pointer in the hole of a context is replaced: the code looks whether the node is the left child of its parent.\<close>

definition relink :: "('k, 'v) assoc_rb_tree \<Rightarrow> ref \<Rightarrow> ref \<Rightarrow> ref \<Rightarrow> ('k, 'v) assoc_rb_tree option" where
  "relink t x y xp =
     (if xp = t_dummy t then Some (t\<lparr>t_root := y\<rparr>)
      else do {
        xpl \<leftarrow> get n_left t xp;
        if x = xpl then put (set_left y) t xp else put (set_right y) t xp
      })"

lemma relink:
  assumes "crep (t_heap t) d (t_root t) C x" and "d = t_dummy t" "d \<notin> crefs C" "x \<noteq> d" "x \<notin> crefs C" "cdistinct C"
  shows "\<exists>h' r. relink t x y (cpar d C) = Some (t\<lparr>t_heap := h', t_root := r\<rparr>) \<and> crep h' d r C y \<and>
    (\<forall>q. q \<notin> crefs C \<longrightarrow> h' q = t_heap t q) \<and> dom h' = dom (t_heap t)"
proof (cases C)
  case Nil
  then show ?thesis using assms by (auto simp: relink_def intro: exI [of _ "t_heap t"])
next
  case (Cons fr D)
  then obtain s c e u where C: "C = (s, c, e, u) # D" by (cases fr) auto
  have e: "t_heap t (fst e) = Some (frame_node d (cpar d D) s x c e u)" "fst e \<noteq> d" "addr d u \<noteq> x"
    using assms unfolding C by (auto simp: C) (cases u; auto)
  let ?h = "(t_heap t)(fst e \<mapsto> frame_node d (cpar d D) s y c e u)"
  have "crep ?h d (t_root t) C y" using assms unfolding C by auto
  moreover have "relink t x y (cpar d C) = Some (t\<lparr>t_heap := ?h, t_root := t_root t\<rparr>)"
    using e assms(2) unfolding C by (cases s) (auto simp: relink_def get_def put_def frame_node_def)
  moreover have "dom ?h = dom (t_heap t)" using e(1) by auto
  moreover have "\<forall>q. q \<notin> crefs C \<longrightarrow> ?h q = t_heap t q" by (simp add: C)
  ultimately show ?thesis by blast
qed

lemma reparent:
  assumes "rep h d p T" and "distinct (refs T)" and "T \<noteq> Lf"
  shows "\<exists>n. h (addr d T) = Some n \<and> rep (h(addr d T \<mapsto> set_parent q n)) d q T"
  using assms by (cases T) (auto simp: node_of_def)

section \<open>Rotations\<close>

definition rotate_at :: "side \<Rightarrow> ('k, 'v) assoc_rb_tree \<Rightarrow> ref \<Rightarrow> ('k, 'v) assoc_rb_tree option" where
  "rotate_at s t x = do {
     c_assert (x \<noteq> NULL);
     y \<leftarrow> get_child (other s) t x;
     c_assert (y \<noteq> t_dummy t);
     yc \<leftarrow> get_child s t y;
     t \<leftarrow> put_child (other s) yc t x;
     yc \<leftarrow> get_child s t y;
     t \<leftarrow> (if yc \<noteq> t_dummy t then put (set_parent x) t yc else Some t);
     xp \<leftarrow> get n_parent t x;
     t \<leftarrow> put (set_parent xp) t y;
     xp \<leftarrow> get n_parent t x;
     t \<leftarrow> (if xp = t_dummy t then Some (t\<lparr>t_root := y\<rparr>)
          else do {
            xpl \<leftarrow> get n_left t xp;
            if x = xpl then put (set_left y) t xp else put (set_right y) t xp
          });
     t \<leftarrow> put_child s x t y;
     put (set_parent y) t x
   }"

lemma rotate_sides: "left_rotate = rotate_at Lft" "right_rotate = rotate_at Rgt"
  by (simp_all add: fun_eq_iff left_rotate_def right_rotate_def rotate_at_def child_simps eq_commute cong: if_cong)

lemma rotate_at:
  assumes T: "heap_tree t (plug C (node s a c e (node s b c' e' g)))"
  shows "\<exists>t'. rotate_at s t (fst e) = Some t' \<and> heap_tree t' (plug C (node s (node s a c e b) c' e' g)) \<and> same_rest t t'"
proof -
  let ?d = "t_dummy t" and ?x = "fst e" and ?y = "fst e'"
  note n = T [unfolded heap_tree_plug rep_node]
  have D: "?x \<noteq> ?y" "?x \<noteq> ?d" "?y \<noteq> ?d" "?x \<notin> set (refs b)" "?y \<notin> set (refs b)" "?d \<notin> set (refs b)"
    "?x \<notin> crefs C" "?y \<notin> crefs C" "?d \<notin> crefs C" "set (refs b) \<inter> crefs C = {}" "cdistinct C" "?x \<noteq> NULL"
    and hx: "t_heap t ?x = Some (frame_node ?d (cpar ?d C) s (addr ?d a) c e (node s b c' e' g))"
    and hy: "t_heap t ?y = Some (frame_node ?d ?x s (addr ?d b) c' e' g)"
    and reps: "rep (t_heap t) ?d ?x a" "rep (t_heap t) ?d ?y b" "rep (t_heap t) ?d ?y g"
    and cr: "crep (t_heap t) ?d (t_root t) C ?x"
    using n by auto
  have dag: "q \<notin> set (refs b) \<and> q \<noteq> ?x \<and> q \<noteq> ?y \<and> q \<notin> crefs C" if "q \<in> set (refs a) \<union> set (refs g)" for q using that n by auto
  have db: "q \<noteq> ?x \<and> q \<noteq> ?y \<and> q \<notin> crefs C" if "q \<in> set (refs b)" for q using that n by auto
  have dC: "q \<notin> set (refs b) \<and> q \<noteq> ?x \<and> q \<noteq> ?y" if "q \<in> crefs C" for q using that n by auto
  let ?h1 = "(t_heap t)(?x \<mapsto> frame_node ?d (cpar ?d C) s (addr ?d a) c e b)"
  obtain h2 where h2: "(if addr ?d b \<noteq> ?d then put (set_parent ?x) (t\<lparr>t_heap := ?h1\<rparr>) (addr ?d b) else Some (t\<lparr>t_heap := ?h1\<rparr>)) =
      Some (t\<lparr>t_heap := h2\<rparr>)" "rep h2 ?d ?x b" "\<And>q. q \<notin> set (refs b) \<Longrightarrow> h2 q = ?h1 q" "dom h2 = dom ?h1"
  proof (cases "b = Lf")
    case True
    then show thesis using that [of ?h1] by simp
  next
    case False
    have "rep ?h1 ?d ?y b" using reps(2) D(4) by simp
    then obtain m where m: "?h1 (addr ?d b) = Some m" "rep (?h1(addr ?d b \<mapsto> set_parent ?x m)) ?d ?x b"
      using reparent [of ?h1 ?d ?y b ?x] n False by auto
    have b: "addr ?d b \<in> set (refs b)" "addr ?d b \<noteq> ?d" using False D(6) by (cases b; auto)+
    have hb: "t_heap t (addr ?d b) = Some m" using m(1) b D(4) by (auto split: if_splits)
    show thesis
    proof (rule that [of "?h1(addr ?d b \<mapsto> set_parent ?x m)"])
      show "dom (?h1(addr ?d b \<mapsto> set_parent ?x m)) = dom ?h1" using hb by auto
    qed (use m b in \<open>auto simp: put_def\<close>)
  qed
  let ?ny = "frame_node ?d (cpar ?d C) s (addr ?d b) c' e' g"
  have hy2: "h2 ?y = Some (frame_node ?d ?x s (addr ?d b) c' e' g)" "h2 ?x = ?h1 ?x" using h2(3) D hy by simp_all
  let ?h3 = "h2(?y \<mapsto> ?ny)"
  have cr3: "crep (t_heap (t\<lparr>t_heap := ?h3\<rparr>)) ?d (t_root (t\<lparr>t_heap := ?h3\<rparr>)) C ?x"
    using cr h2(3) dC by (subst crep_cong [of _ _ "t_heap t"]) auto
  obtain h4 r where h4: "relink (t\<lparr>t_heap := ?h3\<rparr>) ?x ?y (cpar ?d C) = Some (t\<lparr>t_heap := h4, t_root := r\<rparr>)"
    "crep h4 ?d r C ?y" "\<And>q. q \<notin> crefs C \<Longrightarrow> h4 q = ?h3 q" "dom h4 = dom ?h3"
    using relink [OF cr3 _ D(9,2,7,11), of ?y] by (auto simp del: fun_upd_apply)
  let ?h6 = "h4(?y \<mapsto> frame_node ?d (cpar ?d C) s ?x c' e' g, ?x \<mapsto> frame_node ?d ?y s (addr ?d a) c e b)"
  have eqs: "?h6 q = t_heap t q" if "q \<notin> crefs C" "q \<noteq> ?x" "q \<noteq> ?y" "q \<notin> set (refs b)" for q
    using that h4(3) h2(3) by simp
  have "rotate_at s t ?x = Some (t\<lparr>t_heap := ?h6, t_root := r\<rparr>)"
  proof -
    have c: "get_child (other s) t ?x = Some ?y" "get_child s t ?y = Some (addr ?d b)"
      "put_child (other s) (addr ?d b) t ?x = Some (t\<lparr>t_heap := ?h1\<rparr>)"
      "get_child s (t\<lparr>t_heap := ?h1\<rparr>) ?y = Some (addr ?d b)"
      "get n_parent (t\<lparr>t_heap := h2\<rparr>) ?x = Some (cpar ?d C)" "get n_parent (t\<lparr>t_heap := ?h3\<rparr>) ?x = Some (cpar ?d C)"
      "put (set_parent (cpar ?d C)) (t\<lparr>t_heap := h2\<rparr>) ?y = Some (t\<lparr>t_heap := ?h3\<rparr>)"
      "put_child s ?x (t\<lparr>t_heap := h4, t_root := r\<rparr>) ?y = Some (t\<lparr>t_heap := h4(?y \<mapsto> frame_node ?d (cpar ?d C) s ?x c' e' g), t_root := r\<rparr>)"
      "put (set_parent ?y) (t\<lparr>t_heap := h4(?y \<mapsto> frame_node ?d (cpar ?d C) s ?x c' e' g), t_root := r\<rparr>) ?x =
         Some (t\<lparr>t_heap := ?h6, t_root := r\<rparr>)"
      using hx hy hy2 D h4(3) by (cases s; auto simp: get_def put_def child_simps frame_node_def)+
    show ?thesis
      unfolding rotate_at_def c Option.bind.bind_lunit c_assert_bind assoc_rb_tree.simps
      using h2(1) h4(1) c D by (simp add: relink_def)
  qed
  moreover have "heap_tree (t\<lparr>t_heap := ?h6, t_root := r\<rparr>) (plug C (node s (node s a c e b) c' e' g))"
  proof -
    have "crep ?h6 ?d r C ?y" using h4(2) D by simp
    moreover have "rep ?h6 ?d ?x a" "rep ?h6 ?d ?y g" 
      using reps dag eqs by (subst rep_cong [of _ _ "t_heap t"]; simp del: fun_upd_apply)+
    moreover have "rep ?h6 ?d ?x b" using h2(2) h4(3) db by (subst rep_cong [of _ _ h2]) auto
    moreover have "?h6 ?d = t_heap t ?d" using eqs D by auto
    moreover have "dom ?h6 = dom (t_heap t)" using h4(4) h2(4) hx hy by auto
    ultimately show ?thesis using n by (auto simp: heap_tree_plug rep_node get_def frame_node_def)
  qed
  ultimately show ?thesis using eqs [of ?d] D by (auto simp: same_rest_def)
qed

end
