(* ===== verification/RbInsert.thy ===== *)
theory RbInsert
  imports RbShape Comparator begin

text \<open>
  The red-black invariants, for trees and for contexts, and the insertion of \<^verbatim>\<open>assoc_rb_tree.c\<close>.
\<close>

section \<open>The invariants\<close>

fun bh :: "('k, 'v) rbt \<Rightarrow> nat" where
  "bh Lf = 0"
| "bh (Nd l c e r) = bh l + (if c = ASSOC_BLACK then 1 else 0)"

fun invh :: "('k, 'v) rbt \<Rightarrow> bool" where
  "invh Lf \<longleftrightarrow> True"
| "invh (Nd l c e r) \<longleftrightarrow> bh l = bh r \<and> invh l \<and> invh r"

fun invc :: "('k, 'v) rbt \<Rightarrow> bool" where
  "invc Lf \<longleftrightarrow> True"
| "invc (Nd l c e r) \<longleftrightarrow> (c = ASSOC_RED \<longrightarrow> col l = ASSOC_BLACK \<and> col r = ASSOC_BLACK) \<and> invc l \<and> invc r"

definition is_rbt :: "('k, 'v) rbt \<Rightarrow> bool" where
  "is_rbt T \<longleftrightarrow> invh T \<and> invc T \<and> col T = ASSOC_BLACK"

text \<open>What a context asks of the tree in its hole: the black height, and the colour of its root.\<close>

fun cinvh :: "('k, 'v) ctx \<Rightarrow> nat \<Rightarrow> bool" where
  "cinvh [] n \<longleftrightarrow> True"
| "cinvh ((s, c, e, u) # C) n \<longleftrightarrow> bh u = n \<and> invh u \<and> cinvh C (n + (if c = ASSOC_BLACK then 1 else 0))"

fun cinvc :: "('k, 'v) ctx \<Rightarrow> assoc_color \<Rightarrow> bool" where
  "cinvc [] k \<longleftrightarrow> k = ASSOC_BLACK"
| "cinvc ((s, c, e, u) # C) k \<longleftrightarrow> invc u \<and> (c = ASSOC_RED \<longrightarrow> k = ASSOC_BLACK \<and> col u = ASSOC_BLACK) \<and> cinvc C c"

lemma neq_color [simp]: "c \<noteq> ASSOC_BLACK \<longleftrightarrow> c = ASSOC_RED" "c \<noteq> ASSOC_RED \<longleftrightarrow> c = ASSOC_BLACK" by (cases c; simp)+

lemma invh_node [simp]: "invh (node s a c e b) \<longleftrightarrow> bh a = bh b \<and> invh a \<and> invh b" by (cases s) auto
lemma bh_node: "bh a = bh b \<Longrightarrow> bh (node s a c e b) = bh a + (if c = ASSOC_BLACK then 1 else 0)" by (cases s) auto
lemma invc_node [simp]:
  "invc (node s a c e b) \<longleftrightarrow> (c = ASSOC_RED \<longrightarrow> col a = ASSOC_BLACK \<and> col b = ASSOC_BLACK) \<and> invc a \<and> invc b"
  by (cases s) auto

lemma invh_plug: "invh (plug C T) \<longleftrightarrow> invh T \<and> cinvh C (bh T)"
  by (induction C T rule: plug.induct) (auto simp: bh_node)

lemma invc_plug: "invc (plug C T) \<and> col (plug C T) = ASSOC_BLACK \<longleftrightarrow> invc T \<and> cinvc C (col T)"
  by (induction C T rule: plug.induct) auto

lemma is_rbt_plug: "is_rbt (plug C T) \<longleftrightarrow> invh T \<and> invc T \<and> cinvh C (bh T) \<and> cinvc C (col T)"
  using invh_plug [of C T] invc_plug [of C T] by (auto simp: is_rbt_def)

lemma cinvc_black: "cinvc C k \<Longrightarrow> cinvc C ASSOC_BLACK"
  by (cases C) auto

lemma bh_recolor_black: "bh (recolor ASSOC_BLACK T) = bh T + (if col T = ASSOC_RED then 1 else 0)"
  by (cases T) auto

lemma inv_recolor [simp]: "invh (recolor c T) = invh T" "invc T \<Longrightarrow> invc (recolor ASSOC_BLACK T)"
  "entries (recolor c T) = entries T"
  by (cases T; simp)+

lemma col_recolor [simp]: "col (recolor ASSOC_BLACK T) = ASSOC_BLACK" by (cases T) auto

lemma node_other: "node (other s) a c e b = node s b c e a" by (cases s) simp_all

lemma entries_node: "entries (node s a c e b) = (case s of Lft \<Rightarrow> entries a @ e # entries b | Rgt \<Rightarrow> entries b @ e # entries a)"
  by (cases s) simp_all

text \<open>A nonempty tree as a node.\<close>

lemma node_cases:
  assumes "T \<noteq> Lf"
  obtains a c e b where "T = node s a c e b"
  using assms by (cases s; cases T) auto

section \<open>Repairing after an insertion\<close>

definition insert_step :: "side \<Rightarrow> ('k, 'v) assoc_rb_tree \<Rightarrow> ref \<Rightarrow> ref \<Rightarrow> ref \<Rightarrow> ('k, 'v) assoc_rb_tree option" where
  "insert_step s t z_node parent grand_parent = do {
     uncle \<leftarrow> get_child (other s) t grand_parent;
     uc \<leftarrow> get n_color t uncle;
     if uc = ASSOC_RED
     then do {
       t \<leftarrow> put (set_color ASSOC_BLACK) t parent;
       t \<leftarrow> put (set_color ASSOC_BLACK) t uncle;
       t \<leftarrow> put (set_color ASSOC_RED) t grand_parent;
       insert_fixup t grand_parent
     }
     else do {
       pr \<leftarrow> get_child (other s) t parent;
       (t, z_node, parent) \<leftarrow>
         (if z_node = pr
          then do {
            let z_node = parent;
            t \<leftarrow> rotate_at s t z_node;
            parent \<leftarrow> get n_parent t z_node;
            Some (t, z_node, parent)
          }
          else Some (t, z_node, parent));
       t \<leftarrow> put (set_color ASSOC_BLACK) t parent;
       t \<leftarrow> put (set_color ASSOC_RED) t grand_parent;
       t \<leftarrow> rotate_at (other s) t grand_parent;
       insert_fixup t z_node
     }
   }"

lemma insert_fixup_step:
  "insert_fixup t z_node = do {
     zp \<leftarrow> get n_parent t z_node;
     zpc \<leftarrow> get n_color t zp;
     if zpc = ASSOC_RED
     then do {
       gp \<leftarrow> get n_parent t zp;
       gl \<leftarrow> get n_left t gp;
       insert_step (if zp = gl then Lft else Rgt) t z_node zp gp
     }
     else put (set_color ASSOC_BLACK) t (t_root t)
   }"
  by (subst insert_fixup.simps)
    (auto simp: insert_step_def child_simps rotate_sides Let_def intro!: Option.bind_cong [OF refl])

lemma paint_root:
  assumes "heap_tree t T" and "T \<noteq> Lf"
  shows "\<exists>t'. put (set_color ASSOC_BLACK) t (t_root t) = Some t' \<and> heap_tree t' (recolor ASSOC_BLACK T) \<and> same_rest t t'"
proof -
  obtain a c e b where T: "T = node Lft a c e b" using node_cases [OF assms(2)] .
  have "t_root t = fst e" using assms(1) by (simp add: T heap_tree_def)
  then show ?thesis using put_color [of t "[]" Lft a c e b ASSOC_BLACK] assms(1) by (auto simp: T)
qed

text \<open>The loop ends when the parent is black or the dummy.\<close>

lemma insert_fixup_stop:
  assumes "heap_tree t (plug C (node s a c e b))" and "\<And>s' c' e' u D. C = (s', c', e', u) # D \<Longrightarrow> c' = ASSOC_BLACK"
  shows "\<exists>t'. insert_fixup t (fst e) = Some t' \<and> heap_tree t' (recolor ASSOC_BLACK (plug C (node s a c e b))) \<and> same_rest t t'"
proof -
  have p: "get n_parent t (fst e) = Some (cpar (t_dummy t) C)" using read_node(3) [OF assms(1)] .
  have "get n_color t (cpar (t_dummy t) C) = Some ASSOC_BLACK"
  proof (cases C)
    case Nil
    then show ?thesis using assms(1) by (simp add: heap_tree_def)
  next
    case (Cons fr D)
    obtain s' c' e' u where C: "C = (s', c', e', u) # D" using Cons by (cases fr) auto
    then have "c' = ASSOC_BLACK" using assms(2) by blast
    then show ?thesis using assms(1) read_node(4) [of t D s' "node s a c e b" c' e' u] by (simp add: C)
  qed
  moreover have "plug C (node s a c e b) \<noteq> Lf" using set_refs_plug [of C "node s a c e b"] by (metis empty_iff insertI1 refs_simps(1) set_empty set_refs_node Un_iff)
  ultimately show ?thesis using paint_root [OF assms(1)] p by (subst insert_fixup_step) simp
qed

text \<open>A red uncle: colours are exchanged, and the loop goes on at the grandparent.\<close>

lemma insert_step_red:
  assumes T: "heap_tree t (plug ((s', ASSOC_RED, p, u) # (s, ASSOC_BLACK, g, v) # E) Z)" and v: "col v = ASSOC_RED"
  shows "\<exists>t'. insert_step s t z (fst p) (fst g) = insert_fixup t' (fst g) \<and> same_rest t t' \<and>
    heap_tree t' (plug E (node s (node s' Z ASSOC_BLACK p u) ASSOC_RED g (recolor ASSOC_BLACK v)))"
proof -
  let ?d = "t_dummy t"
  obtain va ve vb where v': "v = node s va ASSOC_RED ve vb"
    using v node_cases [of v s] by (metis assoc_color.distinct(1) col.simps(1) col_node)
  have T0: "heap_tree t (plug E (node s (node s' Z ASSOC_RED p u) ASSOC_BLACK g v))" using T by simp
  have u: "get_child (other s) t (fst g) = Some (fst ve)" using read_node(2) [OF T0] by (simp add: v')
  have T0': "heap_tree t (plug ((other s, ASSOC_BLACK, g, node s' Z ASSOC_RED p u) # E) v)"
    using T0 by (simp add: node_other)
  have uc: "get n_color t (fst ve) = Some ASSOC_RED" using read_color [OF T0'] by (simp add: v')
  obtain t1 where t1: "put (set_color ASSOC_BLACK) t (fst p) = Some t1" "same_rest t t1"
    "heap_tree t1 (plug ((s, ASSOC_BLACK, g, v) # E) (node s' Z ASSOC_BLACK p u))"
    using put_color [of t "(s, ASSOC_BLACK, g, v) # E" s' Z ASSOC_RED p u ASSOC_BLACK] T by auto
  then have "heap_tree t1 (plug ((other s, ASSOC_BLACK, g, node s' Z ASSOC_BLACK p u) # E) v)"
    by (simp add: node_other)
  then obtain t2 where t2: "put (set_color ASSOC_BLACK) t1 (fst ve) = Some t2" "same_rest t1 t2"
    "heap_tree t2 (plug ((other s, ASSOC_BLACK, g, node s' Z ASSOC_BLACK p u) # E) (recolor ASSOC_BLACK v))"
    using put_color [of t1 "(other s, ASSOC_BLACK, g, node s' Z ASSOC_BLACK p u) # E" s va ASSOC_RED ve vb ASSOC_BLACK] by (auto simp: v')
  then obtain t3 where t3: "put (set_color ASSOC_RED) t2 (fst g) = Some t3" "same_rest t2 t3"
    "heap_tree t3 (plug E (node s (node s' Z ASSOC_BLACK p u) ASSOC_RED g (recolor ASSOC_BLACK v)))"
    using put_color [of t2 E "other s" "recolor ASSOC_BLACK v" ASSOC_BLACK g "node s' Z ASSOC_BLACK p u" ASSOC_RED]
    by (auto simp: node_other)
  show ?thesis
    using u uc t1(1) t2(1) t3 same_rest_trans [OF t1(2) same_rest_trans [OF t2(2) t3(2)]]
    by (auto simp: insert_step_def)
qed

text \<open>A black uncle: when the node is an inner grandchild its parent is rotated first; then the grandparent is.\<close>

lemma insert_outer:
  assumes T: "heap_tree t (plug ((s, ASSOC_RED, p, u) # (s, ASSOC_BLACK, g, v) # E) Z)"
  shows "\<exists>t'. put (set_color ASSOC_BLACK) t (fst p) \<bind> (\<lambda>t. put (set_color ASSOC_RED) t (fst g) \<bind> (\<lambda>t. rotate_at (other s) t (fst g))) = Some t' \<and>
    same_rest t t' \<and> heap_tree t' (plug E (node s Z ASSOC_BLACK p (node s u ASSOC_RED g v)))"
proof -
  obtain t1 where t1: "put (set_color ASSOC_BLACK) t (fst p) = Some t1" "same_rest t t1"
    "heap_tree t1 (plug E (node s (node s Z ASSOC_BLACK p u) ASSOC_BLACK g v))"
    using put_color [of t "(s, ASSOC_BLACK, g, v) # E" s Z ASSOC_RED p u ASSOC_BLACK] T by auto
  then obtain t2 where t2: "put (set_color ASSOC_RED) t1 (fst g) = Some t2" "same_rest t1 t2"
    "heap_tree t2 (plug E (node s (node s Z ASSOC_BLACK p u) ASSOC_RED g v))"
    using put_color [of t1 E s _ ASSOC_BLACK g v ASSOC_RED] by auto
  then have "heap_tree t2 (plug E (node (other s) v ASSOC_RED g (node (other s) u ASSOC_BLACK p Z)))" by (simp add: node_other)
  from rotate_at [OF this] obtain t3 where t3: "rotate_at (other s) t2 (fst g) = Some t3" "same_rest t2 t3"
    "heap_tree t3 (plug E (node s Z ASSOC_BLACK p (node s u ASSOC_RED g v)))"
    by (auto simp: node_other)
  then show ?thesis using t1(1) t2(1) same_rest_trans [OF t1(2) same_rest_trans [OF t2(2) t3(2)]] by auto
qed

lemma insert_step_black:
  assumes T: "heap_tree t (plug ((s', ASSOC_RED, p, u) # (s, ASSOC_BLACK, g, v) # E) Z)" and v: "col v = ASSOC_BLACK"
    and Z: "Z = node s a ASSOC_RED z b"
  shows "\<exists>t' z'. insert_step s t (fst z) (fst p) (fst g) = insert_fixup t' (fst z') \<and> same_rest t t' \<and>
    (if s' = s then z' = z \<and> heap_tree t' (plug E (node s Z ASSOC_BLACK p (node s u ASSOC_RED g v)))
     else z' = p \<and> heap_tree t' (plug E (node s (node s u ASSOC_RED p a) ASSOC_BLACK z (node s b ASSOC_RED g v))))"
proof -
  let ?d = "t_dummy t"
  have T0: "heap_tree t (plug E (node s (node s' Z ASSOC_RED p u) ASSOC_BLACK g v))" using T by simp
  have T0': "heap_tree t (plug ((other s, ASSOC_BLACK, g, node s' Z ASSOC_RED p u) # E) v)" using T0 by (simp add: node_other)
  have uc: "get_child (other s) t (fst g) = Some (addr ?d v)" "get n_color t (addr ?d v) = Some ASSOC_BLACK"
    using read_node(2) [OF T0] read_color [OF T0'] v by simp_all
  have P: "heap_tree t (plug ((s, ASSOC_BLACK, g, v) # E) (node s' Z ASSOC_RED p u))" using T by simp
  show ?thesis
  proof (cases "s' = s")
    case True
    have "get_child (other s) t (fst p) = Some (addr ?d u)" "addr ?d u \<noteq> fst z"
      using read_node(2) [OF P] addr_eq_child(1) [OF P] True Z by (auto simp: eq_commute [of "fst z"]) (cases s; simp)
    moreover obtain t' where "put (set_color ASSOC_BLACK) t (fst p) \<bind> (\<lambda>t. put (set_color ASSOC_RED) t (fst g) \<bind> (\<lambda>t. rotate_at (other s) t (fst g))) = Some t'"
      "same_rest t t'" "heap_tree t' (plug E (node s Z ASSOC_BLACK p (node s u ASSOC_RED g v)))"
      using insert_outer T True by blast
    ultimately show ?thesis
      using uc True by (intro exI [of _ t'] exI [of _ z]) (auto simp: insert_step_def split: Option.bind_splits)
  next
    case False
    then have s': "s' = other s" by (cases s; cases s') auto
    have "get_child (other s) t (fst p) = Some (fst z)" using read_node(1) [OF P] s' Z by simp
    moreover have "heap_tree t (plug ((s, ASSOC_BLACK, g, v) # E) (node s u ASSOC_RED p (node s a ASSOC_RED z b)))"
      using P by (simp add: s' node_other Z)
    from rotate_at [OF this] obtain t1 where t1: "rotate_at s t (fst p) = Some t1" "same_rest t t1"
      "heap_tree t1 (plug ((s, ASSOC_RED, z, b) # (s, ASSOC_BLACK, g, v) # E) (node s u ASSOC_RED p a))"
      by auto
    moreover have "get n_parent t1 (fst p) = Some (fst z)" using read_node(3) [OF t1(3)] by simp
    moreover obtain t' where t': "put (set_color ASSOC_BLACK) t1 (fst z) \<bind> (\<lambda>t. put (set_color ASSOC_RED) t (fst g) \<bind> (\<lambda>t. rotate_at (other s) t (fst g))) = Some t'"
      "same_rest t1 t'" "heap_tree t' (plug E (node s (node s u ASSOC_RED p a) ASSOC_BLACK z (node s b ASSOC_RED g v)))"
      using insert_outer [OF t1(3)] by blast
    ultimately show ?thesis
      using uc False same_rest_trans [OF t1(2) t'(2)]
      by (intro exI [of _ t'] exI [of _ p]) (auto simp: insert_step_def split: Option.bind_splits)
  qed
qed

section \<open>The loop\<close>

lemma insert_fixup:
  assumes "heap_tree t (plug C (Nd l ASSOC_RED z r))" and "invh (plug C (Nd l ASSOC_RED z r))" and "cinvc C ASSOC_BLACK"
    and "invc (Nd l ASSOC_RED z r)"
  shows "\<exists>t' T'. insert_fixup t (fst z) = Some t' \<and> heap_tree t' T' \<and> is_rbt T' \<and>
    entries T' = entries (plug C (Nd l ASSOC_RED z r)) \<and> same_rest t t'"
  using assms
proof (induction C arbitrary: t l z r rule: length_induct)
  case (1 C)
  let ?Z = "Nd l ASSOC_RED z r"
  show ?case
  proof (cases "\<exists>s' p u D. C = (s', ASSOC_RED, p, u) # D")
    case False
    have "\<exists>t'. insert_fixup t (fst z) = Some t' \<and> heap_tree t' (recolor ASSOC_BLACK (plug C (node Lft l ASSOC_RED z r))) \<and> same_rest t t'"
      using False 1(2) by (intro insert_fixup_stop) auto
    moreover have "invc (plug C ?Z)"
    proof (cases C)
      case (Cons fr D)
      then have "cinvc C ASSOC_RED" using False 1(4) by (cases fr) auto
      then show ?thesis using invc_plug [of C ?Z] 1(5) by simp
    qed (use 1(5) in simp)
    ultimately show ?thesis
      using 1(3) by (auto simp: is_rbt_def intro!: exI [of _ "recolor ASSOC_BLACK (plug C ?Z)"])
  next
    case True
    then obtain s' p u D where C': "C = (s', ASSOC_RED, p, u) # D" by blast
    with 1(4) have "cinvc D ASSOC_RED" by simp
    then obtain s g v E where D: "D = (s, ASSOC_BLACK, g, v) # E" by (cases D) auto
    note C = C' [unfolded D]
    have T: "heap_tree t (plug ((s', ASSOC_RED, p, u) # (s, ASSOC_BLACK, g, v) # E) ?Z)" using 1(2) by (simp add: C)
    have inv: "invh ?Z" "bh u = bh l" "invh u" "bh v = bh l" "invh v" "cinvh E (Suc (bh l))" "cinvc E ASSOC_BLACK"
      "invc u" "col u = ASSOC_BLACK" "invc v" "invc ?Z"
      using 1(3-5) by (auto simp: C invh_plug simp del: plug.simps)
    have run: "insert_fixup t (fst z) = insert_step s t (fst z) (fst p) (fst g)"
    proof -
      have "get n_parent t (fst z) = Some (fst p)" "get n_color t (fst p) = Some ASSOC_RED" "get n_parent t (fst p) = Some (fst g)"
        using read_parent [OF T] read_node(3,4) [of t "(s, ASSOC_BLACK, g, v) # E" s' ?Z ASSOC_RED p u] T by simp_all
      moreover have "heap_tree t (plug E (node s (node s' ?Z ASSOC_RED p u) ASSOC_BLACK g v))" using T by simp
      from read_node(1,2) [OF this] addr_eq_child(1) [OF this] have
        "get n_left t (fst g) = Some (if s = Lft then fst p else addr (t_dummy t) v)" "fst p \<noteq> addr (t_dummy t) v"
        by (cases s; cases s'; simp add: child_simps)+
      ultimately show ?thesis by (subst insert_fixup_step) (cases s; simp)
    qed
    show ?thesis
    proof (cases "col v")
      case ASSOC_RED
      obtain t' where t': "insert_step s t (fst z) (fst p) (fst g) = insert_fixup t' (fst g)" "same_rest t t'"
        "heap_tree t' (plug E (node s (node s' ?Z ASSOC_BLACK p u) ASSOC_RED g (recolor ASSOC_BLACK v)))"
        using insert_step_red [OF T ASSOC_RED] by blast
      let ?T = "node s (node s' ?Z ASSOC_BLACK p u) ASSOC_RED g (recolor ASSOC_BLACK v)"
      obtain l' r' where G: "?T = Nd l' ASSOC_RED g r'" by (cases s) auto
      have "invh (plug E ?T)" "invc ?T" using inv ASSOC_RED by (auto simp: invh_plug bh_node bh_recolor_black)
      then obtain t'' T' where "insert_fixup t' (fst g) = Some t''" "heap_tree t'' T'" "is_rbt T'"
        "entries T' = entries (plug E ?T)" "same_rest t' t''"
        using 1(1) [rule_format, of E t' l' g r'] t'(3) inv(7) unfolding G by (auto simp: C)
      moreover have "entries (plug E ?T) = entries (plug C ?Z)"
        by (cases s; cases s'; simp add: C entries_plug entries_node)
      ultimately show ?thesis using run t'(1) same_rest_trans [OF t'(2)] by (intro exI [of _ t''] exI [of _ T']) simp
    next
      case ASSOC_BLACK
      obtain a b where Z: "?Z = node s a ASSOC_RED z b" by (cases s) auto
      obtain t' z' where st: "insert_step s t (fst z) (fst p) (fst g) = insert_fixup t' (fst z')" "same_rest t t'"
        and t': "if s' = s then z' = z \<and> heap_tree t' (plug E (node s ?Z ASSOC_BLACK p (node s u ASSOC_RED g v)))
         else z' = p \<and> heap_tree t' (plug E (node s (node s u ASSOC_RED p a) ASSOC_BLACK z (node s b ASSOC_RED g v)))"
        using insert_step_black [OF T ASSOC_BLACK Z] by blast
      let ?T = "if s' = s then node s ?Z ASSOC_BLACK p (node s u ASSOC_RED g v)
         else node s (node s u ASSOC_RED p a) ASSOC_BLACK z (node s b ASSOC_RED g v)"
      have ab: "bh a = bh l" "bh b = bh l" "invh a" "invh b" "invc a" "invc b" "col a = ASSOC_BLACK" "col b = ASSOC_BLACK"
        using inv(1,11) Z by (cases s; auto)+
      have e: "entries (plug E ?T) = entries (plug C ?Z)"
        using Z by (cases s; cases s'; auto simp: C entries_plug entries_node)
      have "is_rbt (plug E ?T)" using inv ab ASSOC_BLACK by (auto simp: is_rbt_plug bh_node)
      moreover have "\<exists>t''. insert_fixup t' (fst z') = Some t'' \<and> heap_tree t'' (recolor ASSOC_BLACK (plug E ?T)) \<and> same_rest t' t''"
      proof (cases "s' = s")
        case True
        then have "heap_tree t' (plug ((s, ASSOC_BLACK, p, node s u ASSOC_RED g v) # E) (node s a ASSOC_RED z b))"
          using t' by (simp add: Z)
        from insert_fixup_stop [OF this] show ?thesis using True t' by (auto simp: Z)
      next
        case False
        then have "heap_tree t' (plug ((s, ASSOC_BLACK, z, node s b ASSOC_RED g v) # E) (node s u ASSOC_RED p a))"
          using t' by simp
        from insert_fixup_stop [OF this] show ?thesis using False t' by auto
      qed
      ultimately show ?thesis
        using run st e same_rest_trans [OF st(2)]
        by (auto simp: is_rbt_def simp del: plug.simps intro!: exI [of _ "recolor ASSOC_BLACK (plug E ?T)"])
    qed
  qed
qed

section \<open>The leaf\<close>

fun descend :: "('k \<Rightarrow> 'k \<Rightarrow> int) \<Rightarrow> 'k \<Rightarrow> ('k, 'v) ctx \<Rightarrow> ('k, 'v) rbt \<Rightarrow> ('k, 'v) ctx" where
  "descend cmp k C Lf = C"
| "descend cmp k C (Nd l c e r) =
     (if cmp k (fst (snd e)) = 1 then descend cmp k ((Lft, c, e, r) # C) l else descend cmp k ((Rgt, c, e, l) # C) r)"

lemma plug_descend: "plug (descend cmp k C T) Lf = plug C T"
  by (induction cmp k C T rule: descend.induct) auto

definition head_side :: "('k \<Rightarrow> 'k \<Rightarrow> int) \<Rightarrow> 'k \<Rightarrow> ('k, 'v) ctx \<Rightarrow> bool" where
  "head_side cmp k C \<longleftrightarrow> (\<forall>s c e u D. C = (s, c, e, u) # D \<longrightarrow> (s = Lft \<longleftrightarrow> cmp k (fst (snd e)) = 1))"

lemma head_side_descend: "head_side cmp k C \<Longrightarrow> head_side cmp k (descend cmp k C T)"
  by (induction cmp k C T rule: descend.induct) (auto simp: head_side_def)

lemma insert_descend:
  assumes "rep (t_heap t) (t_dummy t) (cpar (t_dummy t) C) T" and "t_dummy t \<notin> set (refs T)" and "get n_key t z = Some (Some k)"
  shows "insert_descend t z (addr (t_dummy t) T) (cpar (t_dummy t) C) = Some (cpar (t_dummy t) (descend (t_comp t) k C T))"
  using assms
proof (induction T arbitrary: C)
  case Lf
  then show ?case by (subst insert_descend.simps) simp
next
  case (Nd l c e r)
  have "t_heap t (fst e) = Some (node_of (t_dummy t) (cpar (t_dummy t) C) l c e r)" "fst e \<noteq> t_dummy t" using Nd.prems by auto
  then have "insert_descend t z (fst e) (cpar (t_dummy t) C) =
      insert_descend t z (if t_comp t k (fst (snd e)) = 1 then addr (t_dummy t) l else addr (t_dummy t) r) (fst e)"
    using Nd.prems(3) by (subst insert_descend.simps) (auto simp: get_def node_of_def)
  then show ?case
    using Nd.IH(1) [of "(Lft, c, e, r) # C"] Nd.IH(2) [of "(Rgt, c, e, l) # C"] Nd.prems by simp
qed

section \<open>Insertion\<close>

text \<open>A tree in the heap that satisfies the red-black invariants and counts its nodes.\<close>

definition tree_wf :: "('k, 'v) assoc_rb_tree \<Rightarrow> ('k, 'v) rbt \<Rightarrow> bool" where
  "tree_wf t T \<longleftrightarrow> heap_tree t T \<and> is_rbt T \<and> t_size t = length (entries T)"

definition same_type :: "('k, 'v) assoc_rb_tree \<Rightarrow> ('k, 'v) assoc_rb_tree \<Rightarrow> bool" where
  "same_type t t' \<longleftrightarrow> t_dummy t' = t_dummy t \<and> t_comp t' = t_comp t \<and> t_key_sz t' = t_key_sz t"

lemma tree_wf_init:
  assumes "0 < key_sz" and "d \<noteq> NULL"
  shows "\<exists>t. assoc_rb_tree_init d key_sz cmp = Some t \<and> tree_wf t Lf \<and> t_dummy t = d \<and> t_comp t = cmp \<and> t_key_sz t = key_sz"
  using assms by (auto simp: assoc_rb_tree_init_def tree_wf_def heap_tree_def is_rbt_def get_def init_node_def)

lemma create_node:
  assumes "z \<noteq> NULL" and "t_heap t z = None"
  shows "create_node_rb_tree t z k v =
    Some (t\<lparr>t_heap := (t_heap t)(z \<mapsto> \<lparr>n_key = Some k, n_value = v, n_parent = t_dummy t, n_left = t_dummy t, n_right = t_dummy t,
      n_color = ASSOC_RED\<rparr>)\<rparr>)"
  using assms by (auto simp: create_node_rb_tree_def put_def init_node_def)

text \<open>The new node is put in the place of the leaf.\<close>

lemma link_leaf:
  assumes T: "heap_tree t (plug C Lf)" and z: "z \<noteq> NULL" "t_heap t z = None"
    and h: "h = (t_heap t)(z \<mapsto> \<lparr>n_key = Some k, n_value = v, n_parent = cpar (t_dummy t) C, n_left = t_dummy t,
      n_right = t_dummy t, n_color = ASSOC_RED\<rparr>)" and head: "head_side (t_comp t) k C"
  shows "\<exists>t'. (if cpar (t_dummy t) C = t_dummy t then Some (t\<lparr>t_heap := h, t_root := z\<rparr>)
      else do {
        yk \<leftarrow> get n_key (t\<lparr>t_heap := h\<rparr>) (cpar (t_dummy t) C);
        yk \<leftarrow> yk;
        if t_comp t k yk = 1 then put (set_left z) (t\<lparr>t_heap := h\<rparr>) (cpar (t_dummy t) C)
        else put (set_right z) (t\<lparr>t_heap := h\<rparr>) (cpar (t_dummy t) C)
      }) = Some t' \<and>
    heap_tree t' (plug C (Nd Lf ASSOC_RED (z, k, v) Lf)) \<and> same_rest t t'"
proof -
  let ?d = "t_dummy t"
  note n = T [unfolded heap_tree_plug]
  have new: "z \<notin> crefs C" "z \<noteq> ?d" using n z(2) by auto
  show ?thesis
  proof (cases C)
    case Nil
    then show ?thesis using n z new by (auto simp: h heap_tree_def node_of_def get_def same_rest_def)
  next
    case (Cons fr D)
    then obtain s c e u where C: "C = (s, c, e, u) # D" by (cases fr) auto
    let ?h = "h(fst e \<mapsto> frame_node ?d (cpar ?d D) s z c e u)"
    have e: "t_heap t (fst e) = Some (frame_node ?d (cpar ?d D) s ?d c e u)" "fst e \<noteq> ?d" "fst e \<noteq> z"
      using n new by (auto simp: C)
    have s: "s = Lft \<longleftrightarrow> t_comp t k (fst (snd e)) = 1" using head unfolding C head_side_def by blast
    have "heap_tree (t\<lparr>t_heap := ?h\<rparr>) (plug C (Nd Lf ASSOC_RED (z, k, v) Lf))"
      using n z new e unfolding C by (auto simp: h C heap_tree_plug rep_node node_of_def get_def)
    moreover have "get n_key (t\<lparr>t_heap := h\<rparr>) (fst e) = Some (Some (fst (snd e)))"
      using e by (simp add: h get_def frame_node_def)
    moreover have "(if s = Lft then put (set_left z) (t\<lparr>t_heap := h\<rparr>) (fst e) else put (set_right z) (t\<lparr>t_heap := h\<rparr>) (fst e)) =
        Some (t\<lparr>t_heap := ?h\<rparr>)"
      using e by (cases s) (auto simp: h put_def frame_node_def)
    ultimately show ?thesis
      using s e new by (auto simp: C h same_rest_def)
  qed
qed

lemma assoc_rb_tree_insert:
  assumes wf: "tree_wf t T" and z: "z \<noteq> NULL" "t_heap t z = None" and sz: "key_sz = t_key_sz t"
    and C: "C = descend (t_comp t) k [] T"
  shows "\<exists>t' T'. assoc_rb_tree_insert t z k key_sz v = Some t' \<and> tree_wf t' T' \<and> same_type t t' \<and>
    entries T' = before C @ (z, k, v) # after C"
proof -
  let ?d = "t_dummy t"
  have T: "heap_tree t T" "is_rbt T" "t_size t = length (entries T)" using wf by (simp_all add: tree_wf_def)
  have pl: "plug C Lf = T" using plug_descend [of "t_comp t" k "[]" T] by (simp add: C)
  have d: "z \<noteq> ?d" "z \<notin> set (refs T)" using T(1) z by (auto simp: heap_tree_def)
  let ?n = "\<lparr>n_key = Some k, n_value = v, n_parent = ?d, n_left = ?d, n_right = ?d, n_color = ASSOC_RED\<rparr>"
  let ?t1 = "t\<lparr>t_heap := (t_heap t)(z \<mapsto> ?n)\<rparr>"
  let ?h = "(t_heap t)(z \<mapsto> \<lparr>n_key = Some k, n_value = v, n_parent = cpar ?d C, n_left = ?d, n_right = ?d, n_color = ASSOC_RED\<rparr>)"
  have desc: "insert_descend ?t1 z (t_root t) ?d = Some (cpar ?d C)"
    using insert_descend [of ?t1 "[]" T z k] T(1) d by (simp add: heap_tree_def get_def C)
  have put: "put (set_parent (cpar ?d C)) ?t1 z = Some (t\<lparr>t_heap := ?h\<rparr>)" by (simp add: put_def)
  have head: "head_side (t_comp t) k C" unfolding C by (rule head_side_descend) (simp add: head_side_def)
  have "heap_tree t (plug C Lf)" using T(1) by (simp add: pl)
  from link_leaf [OF this z refl head] obtain t2 where t2: "(if cpar ?d C = ?d then Some (t\<lparr>t_heap := ?h, t_root := z\<rparr>)
      else do {
        yk \<leftarrow> get n_key (t\<lparr>t_heap := ?h\<rparr>) (cpar ?d C);
        yk \<leftarrow> yk;
        if t_comp t k yk = 1 then put (set_left z) (t\<lparr>t_heap := ?h\<rparr>) (cpar ?d C)
        else put (set_right z) (t\<lparr>t_heap := ?h\<rparr>) (cpar ?d C)
      }) = Some t2"
    "heap_tree t2 (plug C (Nd Lf ASSOC_RED (z, k, v) Lf))" "same_rest t t2"
    by blast
  have inv: "invh (plug C (Nd Lf ASSOC_RED (z, k, v) Lf))" "cinvc C ASSOC_BLACK"
    using T(2) is_rbt_plug [of C Lf] by (simp_all add: pl invh_plug)
  obtain t3 T' where t3: "insert_fixup t2 z = Some t3" "heap_tree t3 T'" "is_rbt T'"
    "entries T' = entries (plug C (Nd Lf ASSOC_RED (z, k, v) Lf))" "same_rest t2 t3"
    using insert_fixup [OF t2(2) inv] by auto
  have e: "entries T' = before C @ (z, k, v) # after C" "entries T = before C @ after C"
    using t3(4) pl by (auto simp: entries_plug simp flip: pl)
  have "assoc_rb_tree_insert t z k key_sz v = Some (t3\<lparr>t_size := t_size t3 + 1\<rparr>)"
  proof -
    have g: "get n_parent ?t1 z = Some ?d" "get n_left ?t1 z = Some ?d" "get n_right ?t1 z = Some ?d" "get n_color ?t1 z = Some ASSOC_RED"
      by (simp_all add: get_def)
    have r: "t_dummy ?t1 = ?d" "t_root ?t1 = t_root t" "t_dummy (t\<lparr>t_heap := ?h\<rparr>) = ?d" "t_comp (t\<lparr>t_heap := ?h\<rparr>) = t_comp t"
      by simp_all
    show ?thesis
      unfolding assoc_rb_tree_insert_def create_node [OF z] sz c_assert_bind if_P [OF refl] Option.bind.bind_lunit
      by (simp only: r g d(1) desc put t2(1) t3(1) Option.bind.bind_lunit c_assert_bind simp_thms if_True)
  qed
  moreover have "tree_wf (t3\<lparr>t_size := t_size t3 + 1\<rparr>) T'"
    using t3(2,3,5) t2(3) T(3) e by (simp add: tree_wf_def heap_tree_def same_rest_def get_def)
  ultimately show ?thesis using e t2(3) t3(5) by (auto simp: same_type_def same_rest_def)
qed

end
