(* ===== verification/RbDelete.thy ===== *)
theory RbDelete
  imports RbInsert begin

text \<open>
  The removal of \<^verbatim>\<open>assoc_rb_tree.c\<close>: the repair of the black height, the search, and the surgery.
\<close>

section \<open>The step of the repair, seen from a side\<close>

definition delete_tail :: "side \<Rightarrow> ('k, 'v) assoc_rb_tree \<Rightarrow> ref \<Rightarrow> ref \<Rightarrow> ('k, 'v) assoc_rb_tree option" where
  "delete_tail s t x w = do {
     wc \<leftarrow> get n_color t w;
     c_assert (wc = ASSOC_BLACK);
     wf \<leftarrow> get_child (other s) t w;
     wfc \<leftarrow> get n_color t wf;
     c_assert (wfc = ASSOC_RED);
     xp \<leftarrow> get n_parent t x;
     xpc \<leftarrow> get n_color t xp;
     t \<leftarrow> put (set_color xpc) t w;
     t \<leftarrow> put (set_color ASSOC_BLACK) t xp;
     t \<leftarrow> put (set_color ASSOC_BLACK) t wf;
     xp \<leftarrow> get n_parent t x;
     t \<leftarrow> rotate_at s t xp;
     delete_fixup t (t_root t)
   }"

definition delete_step2 :: "side \<Rightarrow> ('k, 'v) assoc_rb_tree \<Rightarrow> ref \<Rightarrow> ref \<Rightarrow> ('k, 'v) assoc_rb_tree option" where
  "delete_step2 s t x w = do {
     wc \<leftarrow> get n_color t w;
     c_assert (wc = ASSOC_BLACK);
     wl \<leftarrow> get n_left t w;
     wlc \<leftarrow> get n_color t wl;
     wr \<leftarrow> get n_right t w;
     wrc \<leftarrow> get n_color t wr;
     if wlc = ASSOC_BLACK \<and> wrc = ASSOC_BLACK
     then do {
       t \<leftarrow> put (set_color ASSOC_RED) t w;
       x \<leftarrow> get n_parent t x;
       delete_fixup t x
     }
     else do {
       (t, w) \<leftarrow>
         (if (if s = Lft then wrc else wlc) = ASSOC_BLACK
          then do {
            c_assert ((if s = Lft then wlc else wrc) = ASSOC_RED);
            t \<leftarrow> put (set_color ASSOC_BLACK) t (if s = Lft then wl else wr);
            t \<leftarrow> put (set_color ASSOC_RED) t w;
            t \<leftarrow> rotate_at (other s) t w;
            xp \<leftarrow> get n_parent t x;
            w \<leftarrow> get_child (other s) t xp;
            Some (t, w)
          }
          else Some (t, w));
       delete_tail s t x w
     }
   }"

definition delete_step :: "side \<Rightarrow> ('k, 'v) assoc_rb_tree \<Rightarrow> ref \<Rightarrow> ref \<Rightarrow> ('k, 'v) assoc_rb_tree option" where
  "delete_step s t x xp = do {
     w \<leftarrow> get_child (other s) t xp;
     wc \<leftarrow> get n_color t w;
     (t, w) \<leftarrow>
       (if wc = ASSOC_RED
        then do {
          t \<leftarrow> put (set_color ASSOC_BLACK) t w;
          xp \<leftarrow> get n_parent t x;
          t \<leftarrow> put (set_color ASSOC_RED) t xp;
          xp \<leftarrow> get n_parent t x;
          t \<leftarrow> rotate_at s t xp;
          xp \<leftarrow> get n_parent t x;
          w \<leftarrow> get_child (other s) t xp;
          Some (t, w)
        }
        else Some (t, w));
     delete_step2 s t x w
   }"

lemma delete_fixup_step:
  "delete_fixup t x = do {
     xc \<leftarrow> get n_color t x;
     if x \<noteq> t_root t \<and> xc = ASSOC_BLACK
     then do {
       xp \<leftarrow> get n_parent t x;
       xpl \<leftarrow> get n_left t xp;
       delete_step (if x = xpl then Lft else Rgt) t x xp
     }
     else put (set_color ASSOC_BLACK) t x
   }"
  by (subst delete_fixup.simps)
    (auto simp: delete_step_def delete_step2_def delete_tail_def child_simps rotate_sides Let_def intro!: Option.bind_cong [OF refl])

section \<open>The position of the repair\<close>

text \<open>The subtree may be empty: then the parent is found in the dummy.\<close>

definition at_hole :: "('k, 'v) assoc_rb_tree \<Rightarrow> ('k, 'v) ctx \<Rightarrow> ('k, 'v) rbt \<Rightarrow> bool" where
  "at_hole t C T \<longleftrightarrow> heap_tree t (plug C T) \<and> get n_parent t (addr (t_dummy t) T) = Some (cpar (t_dummy t) C)"

lemma at_hole_nonempty: "heap_tree t (plug C (Nd l c e r)) \<Longrightarrow> at_hole t C (Nd l c e r)"
  using read_parent [of t C "Nd l c e r"] by (simp add: at_hole_def)

lemma at_hole_node: "heap_tree t (plug C (node s a c e b)) \<Longrightarrow> at_hole t C (node s a c e b)"
  using read_node(3) [of t C s a c e b] by (simp add: at_hole_def)

lemma at_hole_same:
  assumes "at_hole t C T" and "same_rest t t'" and "heap_tree t' (plug C' T)" and "cpar (t_dummy t) C' = cpar (t_dummy t) C"
  shows "at_hole t' C' T"
proof (cases T)
  case Lf
  then show ?thesis using assms by (simp add: at_hole_def same_rest_def get_def)
qed (use at_hole_nonempty assms in auto)

lemma at_hole_upd_ctx:
  assumes "at_hole t ((s, c, e, w) # D) T" and "same_rest t t'" and "heap_tree t' (plug D' (node s T c' e w'))"
  shows "at_hole t' ((s, c', e, w') # D') T"
  using at_hole_same [OF assms(1,2), of "(s, c', e, w') # D'"] assms(3) by simp

lemma hole_reads:
  assumes "at_hole t ((s, c, e, w) # D) T"
  shows "get n_parent t (addr (t_dummy t) T) = Some (fst e)" "get_child (other s) t (fst e) = Some (addr (t_dummy t) w)"
    "get n_color t (fst e) = Some c" "get n_color t (addr (t_dummy t) w) = Some (col w)"
    "get n_color t (addr (t_dummy t) T) = Some (col T)" "heap_tree t (plug D (node s T c e w))"
    "heap_tree t (plug ((other s, c, e, T) # D) w)"
proof -
  show a: "heap_tree t (plug D (node s T c e w))" "heap_tree t (plug ((other s, c, e, T) # D) w)"
    using assms by (simp_all add: at_hole_def node_other)
  show "get_child (other s) t (fst e) = Some (addr (t_dummy t) w)" "get n_color t (fst e) = Some c"
    using read_node(2,4) [OF a(1)] by simp_all
  show "get n_color t (addr (t_dummy t) w) = Some (col w)" using read_color [OF a(2)] .
  show "get n_parent t (addr (t_dummy t) T) = Some (fst e)" "get n_color t (addr (t_dummy t) T) = Some (col T)"
    using assms read_color [of t "(s, c, e, w) # D" T] by (simp_all add: at_hole_def)
qed

section \<open>The cases\<close>

text \<open>Case 1: a red sibling is rotated up.\<close>

lemma delete_case1:
  assumes x: "at_hole t ((s, ASSOC_BLACK, e, w) # D) T" and w: "w = node s a ASSOC_RED f b"
  shows "\<exists>t'. delete_step s t (addr (t_dummy t) T) (fst e) = delete_step2 s t' (addr (t_dummy t') T) (addr (t_dummy t') a) \<and>
    same_rest t t' \<and> at_hole t' ((s, ASSOC_RED, e, a) # (s, ASSOC_BLACK, f, b) # D) T"
proof -
  note r = hole_reads [OF x]
  obtain t1 where t1: "put (set_color ASSOC_BLACK) t (fst f) = Some t1" "same_rest t t1"
    "heap_tree t1 (plug D (node s T ASSOC_BLACK e (node s a ASSOC_BLACK f b)))"
    using put_color [of t "(other s, ASSOC_BLACK, e, T) # D" s a ASSOC_RED f b ASSOC_BLACK] r(7) by (auto simp: w node_other)
  have x1: "at_hole t1 ((s, ASSOC_BLACK, e, node s a ASSOC_BLACK f b) # D) T"
    using at_hole_upd_ctx [OF x t1(2,3)] .
  obtain t2 where t2: "put (set_color ASSOC_RED) t1 (fst e) = Some t2" "same_rest t1 t2"
    "heap_tree t2 (plug D (node s T ASSOC_RED e (node s a ASSOC_BLACK f b)))"
    using put_color [OF t1(3), of ASSOC_RED] by blast
  have x2: "at_hole t2 ((s, ASSOC_RED, e, node s a ASSOC_BLACK f b) # D) T"
    using at_hole_upd_ctx [OF x1 t2(2,3)] .
  obtain t3 where t3: "rotate_at s t2 (fst e) = Some t3" "same_rest t2 t3"
    "heap_tree t3 (plug D (node s (node s T ASSOC_RED e a) ASSOC_BLACK f b))"
    using rotate_at [OF t2(3)] by blast
  have x3: "at_hole t3 ((s, ASSOC_RED, e, a) # (s, ASSOC_BLACK, f, b) # D) T"
    using at_hole_upd_ctx [OF x2 t3(2), of "(s, ASSOC_BLACK, f, b) # D"] t3(3) by simp
  have d: "t_dummy t1 = t_dummy t" "t_dummy t2 = t_dummy t" "t_dummy t3 = t_dummy t"
    using t1(2) t2(2) t3(2) by (simp_all add: same_rest_def)
  show ?thesis
    using r(1-4) t1(1) t2(1) t3(1) hole_reads(1) [OF x1] hole_reads(1) [OF x2] hole_reads(1,2) [OF x3] x3 d
      same_rest_trans [OF t1(2) same_rest_trans [OF t2(2) t3(2)]]
    by (intro exI [of _ t3]) (simp add: delete_step_def w)
qed

text \<open>The children of the sibling.\<close>

lemma sibling_reads:
  assumes x: "at_hole t ((s, c, e, node s a k f b) # D) T"
  shows "get n_left t (fst f) = Some (if s = Lft then addr (t_dummy t) a else addr (t_dummy t) b)"
    "get n_right t (fst f) = Some (if s = Lft then addr (t_dummy t) b else addr (t_dummy t) a)"
    "get_child (other s) t (fst f) = Some (addr (t_dummy t) b)" "get n_color t (fst f) = Some k"
    "get n_color t (addr (t_dummy t) a) = Some (col a)" "get n_color t (addr (t_dummy t) b) = Some (col b)"
    "heap_tree t (plug ((other s, c, e, T) # D) (node s a k f b))"
proof -
  show w: "heap_tree t (plug ((other s, c, e, T) # D) (node s a k f b))" using hole_reads(7) [OF x] .
  show "get n_left t (fst f) = Some (if s = Lft then addr (t_dummy t) a else addr (t_dummy t) b)"
    "get n_right t (fst f) = Some (if s = Lft then addr (t_dummy t) b else addr (t_dummy t) a)"
    "get_child (other s) t (fst f) = Some (addr (t_dummy t) b)" "get n_color t (fst f) = Some k"
    using read_node(1,2,4) [OF w] by (cases s; simp add: child_simps)+
  show "get n_color t (addr (t_dummy t) a) = Some (col a)"
    using read_color [of t "(s, k, f, b) # (other s, c, e, T) # D" a] w by simp
  show "get n_color t (addr (t_dummy t) b) = Some (col b)"
    using read_color [of t "(other s, k, f, a) # (other s, c, e, T) # D" b] w by (simp add: node_other)
qed

text \<open>Case 2: both children of the sibling are black; it becomes red.\<close>

lemma delete_case2:
  assumes x: "at_hole t ((s, c, e, node s a ASSOC_BLACK f b) # D) T" and "col a = ASSOC_BLACK" "col b = ASSOC_BLACK"
  shows "\<exists>t'. delete_step2 s t (addr (t_dummy t) T) (fst f) = delete_fixup t' (fst e) \<and> same_rest t t' \<and>
    heap_tree t' (plug D (node s T c e (node s a ASSOC_RED f b)))"
proof -
  note r = sibling_reads [OF x]
  obtain t1 where t1: "put (set_color ASSOC_RED) t (fst f) = Some t1" "same_rest t t1"
    "heap_tree t1 (plug D (node s T c e (node s a ASSOC_RED f b)))"
    using put_color [OF r(7), of ASSOC_RED] by (auto simp: node_other)
  have "get n_parent t1 (addr (t_dummy t) T) = Some (fst e)"
    using hole_reads(1) [OF at_hole_upd_ctx [OF x t1(2,3)]] t1(2) by (simp add: same_rest_def)
  then show ?thesis using r assms(2,3) t1 by (cases s) (auto simp: delete_step2_def)
qed

text \<open>Case 4: the far child of the sibling is red; the parent is rotated and the loop is left at the root.\<close>

lemma delete_case4:
  assumes x: "at_hole t ((s, c, e, node s a ASSOC_BLACK f b) # D) T" and "col b = ASSOC_RED"
  shows "\<exists>t'. delete_tail s t (addr (t_dummy t) T) (fst f) = delete_fixup t' (t_root t') \<and> same_rest t t' \<and>
    heap_tree t' (plug D (node s (node s T ASSOC_BLACK e a) c f (recolor ASSOC_BLACK b)))"
proof -
  note r = sibling_reads [OF x] and h = hole_reads [OF x]
  obtain ba be bb where b: "b = node s ba ASSOC_RED be bb"
    using assms(2) node_cases [of b s] by (metis assoc_color.distinct(1) col.simps(1) col_node)
  obtain t1 where t1: "put (set_color c) t (fst f) = Some t1" "same_rest t t1"
    "heap_tree t1 (plug D (node s T c e (node s a c f b)))"
    using put_color [OF r(7), of c] by (auto simp: node_other)
  note x1 = at_hole_upd_ctx [OF x t1(2,3)]
  obtain t2 where t2: "put (set_color ASSOC_BLACK) t1 (fst e) = Some t2" "same_rest t1 t2"
    "heap_tree t2 (plug D (node s T ASSOC_BLACK e (node s a c f b)))"
    using put_color [OF t1(3), of ASSOC_BLACK] by blast
  note x2 = at_hole_upd_ctx [OF x1 t2(2,3)]
  have "heap_tree t2 (plug ((other s, c, f, a) # (other s, ASSOC_BLACK, e, T) # D) b)" using t2(3) by (simp add: node_other)
  then obtain t3 where t3: "put (set_color ASSOC_BLACK) t2 (fst be) = Some t3" "same_rest t2 t3"
    "heap_tree t3 (plug D (node s T ASSOC_BLACK e (node s a c f (recolor ASSOC_BLACK b))))"
    using put_color [of t2 "(other s, c, f, a) # (other s, ASSOC_BLACK, e, T) # D" s ba ASSOC_RED be bb ASSOC_BLACK]
    by (auto simp: node_other b)
  note x3 = at_hole_upd_ctx [OF x2 t3(2,3)]
  obtain t4 where t4: "rotate_at s t3 (fst e) = Some t4" "same_rest t3 t4"
    "heap_tree t4 (plug D (node s (node s T ASSOC_BLACK e a) c f (recolor ASSOC_BLACK b)))"
    using rotate_at [OF t3(3)] by blast
  have d: "t_dummy t3 = t_dummy t" using t1(2) t2(2) t3(2) by (simp add: same_rest_def)
  show ?thesis
    using r h(1,3) t1(1) t2(1) t3(1) t4 hole_reads(1) [OF x3] d assms(2)
      same_rest_trans [OF t1(2) same_rest_trans [OF t2(2) same_rest_trans [OF t3(2) t4(2)]]]
    by (intro exI [of _ t4]) (simp add: delete_tail_def b)
qed

text \<open>Case 3: the near child of the sibling is red; the sibling is rotated.\<close>

lemma delete_case3:
  assumes x: "at_hole t ((s, c, e, node s a ASSOC_BLACK f b) # D) T" and "col b = ASSOC_BLACK"
    and a: "a = node s a1 ASSOC_RED ae a2"
  shows "\<exists>t'. delete_step2 s t (addr (t_dummy t) T) (fst f) = delete_tail s t' (addr (t_dummy t') T) (fst ae) \<and> same_rest t t' \<and>
    at_hole t' ((s, c, e, node s a1 ASSOC_BLACK ae (node s a2 ASSOC_RED f b)) # D) T"
proof -
  note r = sibling_reads [OF x]
  have "heap_tree t (plug ((s, ASSOC_BLACK, f, b) # (other s, c, e, T) # D) a)" using r(7) by simp
  then obtain t1 where t1: "put (set_color ASSOC_BLACK) t (fst ae) = Some t1" "same_rest t t1"
    "heap_tree t1 (plug D (node s T c e (node s (recolor ASSOC_BLACK a) ASSOC_BLACK f b)))"
    using put_color [of t "(s, ASSOC_BLACK, f, b) # (other s, c, e, T) # D" s a1 ASSOC_RED ae a2 ASSOC_BLACK]
    by (auto simp: node_other a)
  note x1 = at_hole_upd_ctx [OF x t1(2,3)]
  obtain t2 where t2: "put (set_color ASSOC_RED) t1 (fst f) = Some t2" "same_rest t1 t2"
    "heap_tree t2 (plug D (node s T c e (node s (recolor ASSOC_BLACK a) ASSOC_RED f b)))"
    using put_color [OF sibling_reads(7) [OF x1], of ASSOC_RED] by (auto simp: node_other)
  note x2 = at_hole_upd_ctx [OF x1 t2(2,3)]
  have "heap_tree t2 (plug ((other s, c, e, T) # D) (node (other s) b ASSOC_RED f (node (other s) a2 ASSOC_BLACK ae a1)))"
    using sibling_reads(7) [OF x2] by (simp add: node_other a)
  from rotate_at [OF this] obtain t3 where t3: "rotate_at (other s) t2 (fst f) = Some t3" "same_rest t2 t3"
    "heap_tree t3 (plug D (node s T c e (node s a1 ASSOC_BLACK ae (node s a2 ASSOC_RED f b))))"
    by (auto simp: node_other)
  note x3 = at_hole_upd_ctx [OF x2 t3(2,3)]
  have d: "t_dummy t3 = t_dummy t" using t1(2) t2(2) t3(2) by (simp add: same_rest_def)
  show ?thesis
    using r assms(2) t1(1) t2(1) t3(1) hole_reads(1,2) [OF x3] x3 d
      same_rest_trans [OF t1(2) same_rest_trans [OF t2(2) t3(2)]]
    by (intro exI [of _ t3]) (cases s; simp add: delete_step2_def a)
qed

section \<open>The loop of the repair\<close>

lemma addr_plug: "addr d (plug (fr # D) T) \<in> crefs (fr # D)"
proof (induction D arbitrary: fr T)
  case Nil
  then show ?case by (cases fr) simp
next
  case (Cons fr' D)
  obtain s c e u where "fr = (s, c, e, u)" by (cases fr)
  then show ?case using Cons [of fr' "node s T c e u"] by auto
qed

lemma delete_fixup_stop:
  assumes "heap_tree t (plug C T)" and "C = [] \<or> col T = ASSOC_RED"
  shows "\<exists>t'. delete_fixup t (addr (t_dummy t) T) = Some t' \<and> heap_tree t' (plug C (recolor ASSOC_BLACK T)) \<and> same_rest t t'"
proof (cases T)
  case Lf
  obtain n where n: "t_heap t (t_dummy t) = Some n" "n_color n = ASSOC_BLACK"
    using assms(1) by (auto simp: heap_tree_plug get_def)
  then have "set_color ASSOC_BLACK n = n" by (cases n) simp
  then have "(t_heap t)(t_dummy t \<mapsto> set_color ASSOC_BLACK n) = t_heap t" using n(1) by auto
  then have "put (set_color ASSOC_BLACK) t (t_dummy t) = Some t" using n(1) by (simp add: put_def)
  then show ?thesis
    using n assms Lf by (subst delete_fixup_step) (auto simp: get_def heap_tree_def)
next
  case (Nd l c e r)
  have c: "get n_color t (fst e) = Some c" using read_color [OF assms(1)] Nd by simp
  have "C = [] \<Longrightarrow> t_root t = fst e" using assms(1) Nd by (simp add: heap_tree_def)
  moreover obtain t' where "put (set_color ASSOC_BLACK) t (fst e) = Some t'" "heap_tree t' (plug C (Nd l ASSOC_BLACK e r))" "same_rest t t'"
    using put_color [of t C Lft l c e r ASSOC_BLACK] assms(1) Nd by auto
  ultimately show ?thesis using c assms(2) Nd by (subst delete_fixup_step) auto
qed

lemma delete_fixup_enter:
  assumes x: "at_hole t ((s, c, e, w) # D) T" and "w \<noteq> Lf" and "col T = ASSOC_BLACK"
  shows "delete_fixup t (addr (t_dummy t) T) = delete_step s t (addr (t_dummy t) T) (fst e)"
proof -
  note h = hole_reads [OF x]
  let ?C = "(s, c, e, w) # D"
  have H: "heap_tree t (plug ?C T)" using x by (simp add: at_hole_def)
  have "t_root t = addr (t_dummy t) (plug ?C T)" using H by (simp add: heap_tree_def)
  then have r: "t_root t \<in> crefs ?C" using addr_plug [of "t_dummy t" "(s, c, e, w)" D T] by simp
  have "addr (t_dummy t) T \<notin> crefs ?C" using H [unfolded heap_tree_plug] by (cases T) auto
  then have "addr (t_dummy t) T \<noteq> t_root t" using r by metis
  moreover have "get n_left t (fst e) = Some (if s = Lft then addr (t_dummy t) T else addr (t_dummy t) w)"
    using read_node(1,2) [OF h(6)] by (cases s) (simp_all add: child_simps)
  moreover have "heap_tree t (plug D (node (other s) w c e T))" using h(6) by (simp add: node_other)
  from addr_eq_child(1) [OF this assms(2)] have "addr (t_dummy t) T \<noteq> addr (t_dummy t) w" by simp
  ultimately show ?thesis using h(1,5) assms(3) by (subst delete_fixup_step) (cases s; simp)
qed

definition hole_inv :: "('k, 'v) ctx \<Rightarrow> ('k, 'v) rbt \<Rightarrow> bool" where
  "hole_inv C T \<longleftrightarrow> invh T \<and> invc (recolor ASSOC_BLACK T) \<and> cinvh C (Suc (bh T)) \<and> cinvc C ASSOC_BLACK"

definition repaired :: "('k, 'v) assoc_rb_tree \<Rightarrow> ('k, 'v) rbt \<Rightarrow> ('k, 'v) assoc_rb_tree option \<Rightarrow> bool" where
  "repaired t T r \<longleftrightarrow> (\<exists>t' T'. r = Some t' \<and> heap_tree t' T' \<and> is_rbt T' \<and> entries T' = entries T \<and> same_rest t t')"

lemma repaired_trans: "same_rest t t' \<Longrightarrow> repaired t' T' r \<Longrightarrow> entries T' = entries T \<Longrightarrow> repaired t T r"
  unfolding repaired_def using same_rest_trans by metis

lemma invc_recolor_black: "col T = ASSOC_BLACK \<Longrightarrow> recolor ASSOC_BLACK T = T"
  by (cases T) auto

lemma repaired_stop:
  assumes "heap_tree t (plug C T)" and "hole_inv C T" and "C = [] \<or> col T = ASSOC_RED"
  shows "repaired t (plug C T) (delete_fixup t (addr (t_dummy t) T))"
proof -
  have "is_rbt (plug C (recolor ASSOC_BLACK T))"
    using assms(2,3) is_rbt_plug [of C "recolor ASSOC_BLACK T"] is_rbt_def [of "recolor ASSOC_BLACK T"]
    by (cases "C = []") (auto simp: hole_inv_def bh_recolor_black)
  then show ?thesis
    using delete_fixup_stop [OF assms(1,3)]
    by (auto simp: repaired_def entries_plug intro!: exI [of _ "plug C (recolor ASSOC_BLACK T)"])
qed

text \<open>A black sibling: after case 2 the repair goes on at the parent, unless that is red.\<close>

lemma repaired_black:
  assumes x: "at_hole t ((s, c, e, node s a ASSOC_BLACK f b) # D) T" and inv: "hole_inv ((s, c, e, node s a ASSOC_BLACK f b) # D) T"
    and col: "col T = ASSOC_BLACK"
    and up: "\<And>t' T'. c = ASSOC_BLACK \<Longrightarrow> at_hole t' D T' \<Longrightarrow> hole_inv D T' \<Longrightarrow> repaired t' (plug D T') (delete_fixup t' (addr (t_dummy t') T'))"
  shows "repaired t (plug D (node s T c e (node s a ASSOC_BLACK f b))) (delete_step2 s t (addr (t_dummy t) T) (fst f))"
proof -
  have ab: "bh a = bh T" "bh b = bh T" "invh a" "invh b" "invc a" "invc b" "invh T" "invc T" "cinvc D c"
    "cinvh D (Suc (bh T) + (if c = ASSOC_BLACK then 1 else 0))"
    using inv col by (auto simp: hole_inv_def bh_node invc_recolor_black)
  show ?thesis
  proof (cases "col a = ASSOC_BLACK \<and> col b = ASSOC_BLACK")
    case True
    then obtain t' where t': "delete_step2 s t (addr (t_dummy t) T) (fst f) = delete_fixup t' (fst e)" "same_rest t t'"
      "heap_tree t' (plug D (node s T c e (node s a ASSOC_RED f b)))"
      using delete_case2 [OF x] by blast
    let ?T = "node s T c e (node s a ASSOC_RED f b)"
    have "hole_inv D ?T"
      using ab True col cinvc_black [of D c] by (cases c) (auto simp: hole_inv_def bh_node)
    moreover have "at_hole t' D ?T" using at_hole_node [OF t'(3)] .
    ultimately have "repaired t' (plug D ?T) (delete_fixup t' (addr (t_dummy t') ?T))"
      using up [of t' ?T] repaired_stop [of t' D ?T] t'(3) by (cases c) simp_all
    then show ?thesis using t' by (auto intro: repaired_trans simp: entries_plug entries_node split: side.split)
  next
    case False
    have far: "repaired t0 (plug D (node s T c e (node s a' ASSOC_BLACK f' b'))) (delete_tail s t0 (addr (t_dummy t0) T) (fst f'))"
      if x0: "at_hole t0 ((s, c, e, node s a' ASSOC_BLACK f' b') # D) T" and cb: "col b' = ASSOC_RED"
        and i: "bh a' = bh T" "bh b' = bh T" "invh a'" "invh b'" "invc a'" "invc b'" for t0 a' f' b'
    proof -
      obtain t' where t': "delete_tail s t0 (addr (t_dummy t0) T) (fst f') = delete_fixup t' (t_root t')" "same_rest t0 t'"
        "heap_tree t' (plug D (node s (node s T ASSOC_BLACK e a') c f' (recolor ASSOC_BLACK b')))"
        using delete_case4 [OF x0 cb] by blast
      let ?T = "plug D (node s (node s T ASSOC_BLACK e a') c f' (recolor ASSOC_BLACK b'))"
      have rbt: "is_rbt ?T" using i cb ab by (auto simp: is_rbt_plug bh_node bh_recolor_black)
      have root: "t_root t' = addr (t_dummy t') ?T" using t'(3) by (simp add: heap_tree_def)
      have "col ?T = ASSOC_BLACK" using rbt by (simp add: is_rbt_def)
      then have "\<exists>t''. delete_fixup t' (t_root t') = Some t'' \<and> heap_tree t'' ?T \<and> same_rest t' t''"
        using delete_fixup_stop [of t' "[]" ?T] t'(3) by (simp add: root invc_recolor_black)
      then have "repaired t' ?T (delete_fixup t' (t_root t'))" using rbt by (auto simp: repaired_def)
      then show ?thesis using t' by (auto intro: repaired_trans simp: entries_plug entries_node split: side.split)
    qed
    show ?thesis
    proof (cases "col b")
      case ASSOC_RED
      then have "delete_step2 s t (addr (t_dummy t) T) (fst f) = delete_tail s t (addr (t_dummy t) T) (fst f)"
        using sibling_reads [OF x] by (cases s) (simp_all add: delete_step2_def)
      then show ?thesis using far [OF x ASSOC_RED] ab by simp
    next
      case ASSOC_BLACK
      then have "col a = ASSOC_RED" using False by simp
      then obtain a1 ae a2 where a: "a = node s a1 ASSOC_RED ae a2"
        using node_cases [of a s] by (metis assoc_color.distinct(1) col.simps(1) col_node)
      obtain t' where t': "delete_step2 s t (addr (t_dummy t) T) (fst f) = delete_tail s t' (addr (t_dummy t') T) (fst ae)"
        "same_rest t t'" "at_hole t' ((s, c, e, node s a1 ASSOC_BLACK ae (node s a2 ASSOC_RED f b)) # D) T"
        using delete_case3 [OF x ASSOC_BLACK a] by blast
      have "repaired t' (plug D (node s T c e (node s a1 ASSOC_BLACK ae (node s a2 ASSOC_RED f b))))
          (delete_tail s t' (addr (t_dummy t') T) (fst ae))"
        using ab ASSOC_BLACK by (intro far [OF t'(3)]) (auto simp: a bh_node)
      then show ?thesis using t' by (auto intro: repaired_trans simp: a entries_plug entries_node split: side.split)
    qed
  qed
qed

lemma delete_fixup:
  assumes "at_hole t C T" and "hole_inv C T"
  shows "repaired t (plug C T) (delete_fixup t (addr (t_dummy t) T))"
  using assms
proof (induction C arbitrary: t T rule: length_induct)
  case (1 C)
  note x = 1(2) and inv = 1(3)
  have H: "heap_tree t (plug C T)" using x by (simp add: at_hole_def)
  show ?case
  proof (cases "C = [] \<or> col T = ASSOC_RED")
    case True
    then show ?thesis by (rule repaired_stop [OF H inv])
  next
    case False
    then obtain s c e w D where C: "C = (s, c, e, w) # D" by (cases C) auto
    have col: "col T = ASSOC_BLACK" using False by simp
    have w: "bh w = Suc (bh T)" "invh w" "invc w" "c = ASSOC_RED \<longrightarrow> col w = ASSOC_BLACK" "cinvc D c"
      "cinvh D (Suc (bh T) + (if c = ASSOC_BLACK then 1 else 0))"
      using inv by (auto simp: C hole_inv_def)
    then obtain a k f b where f: "w = node s a k f b" using node_cases [of w s] by (metis bh.simps(1) nat.distinct(1))
    have enter: "delete_fixup t (addr (t_dummy t) T) = delete_step s t (addr (t_dummy t) T) (fst e)"
      using delete_fixup_enter [of t s c e w D T] x w(1) col by (cases w) (auto simp: C)
    have up: "repaired t' (plug D T') (delete_fixup t' (addr (t_dummy t') T'))" if "at_hole t' D T'" "hole_inv D T'" for t' T'
      using 1(1) that by (simp add: C)
    show ?thesis
    proof (cases k)
      case ASSOC_BLACK
      have "delete_step s t (addr (t_dummy t) T) (fst e) = delete_step2 s t (addr (t_dummy t) T) (fst f)"
        using hole_reads [OF x [unfolded C]] by (simp add: delete_step_def f ASSOC_BLACK)
      then show ?thesis
        using repaired_black [OF x [unfolded C f ASSOC_BLACK] inv [unfolded C f ASSOC_BLACK] col up] enter
        by (simp add: C f ASSOC_BLACK)
    next
      case ASSOC_RED
      then have c: "c = ASSOC_BLACK" "col a = ASSOC_BLACK" "col b = ASSOC_BLACK" using w(3,4) by (auto simp: f)
      have ab: "bh a = Suc (bh T)" "bh b = Suc (bh T)" "invh a" "invh b" "invc a" "invc b"
        using w(1-3) by (auto simp: f ASSOC_RED bh_node)
      obtain t' where t': "delete_step s t (addr (t_dummy t) T) (fst e) = delete_step2 s t' (addr (t_dummy t') T) (addr (t_dummy t') a)"
        "same_rest t t'" "at_hole t' ((s, ASSOC_RED, e, a) # (s, ASSOC_BLACK, f, b) # D) T"
        using delete_case1 x f ASSOC_RED c(1) unfolding C by blast
      obtain a1 ae a2 where a: "a = node s a1 ASSOC_BLACK ae a2"
        using ab(1) c(2) node_cases [of a s] by (metis bh.simps(1) nat.distinct(1) col_node)
      let ?C = "(s, ASSOC_RED, e, a) # (s, ASSOC_BLACK, f, b) # D"
      have "hole_inv ?C T" using inv w c ab col by (auto simp: hole_inv_def)
      then have "repaired t' (plug ((s, ASSOC_BLACK, f, b) # D) (node s T ASSOC_RED e a)) (delete_step2 s t' (addr (t_dummy t') T) (fst ae))"
        using repaired_black [OF t'(3) [unfolded a] _ col] by (simp add: a)
      then show ?thesis
        using enter t' by (auto intro: repaired_trans simp: C f a entries_plug entries_node split: side.split)
    qed
  qed
qed

section \<open>Transplanting\<close>

lemma crep_append:
  "crep h d root (D @ C) (addr d T) \<and> rep h d (cpar d (D @ C)) T \<longleftrightarrow>
   crep h d root C (addr d (plug D T)) \<and> rep h d (cpar d C) (plug D T)"
  by (induction D T rule: plug.induct) (auto simp: rep_node)

lemma transplant_relink:
  "transplant t u v = do {
     c_assert (u \<noteq> t_dummy t);
     up \<leftarrow> get n_parent t u;
     t \<leftarrow> relink t u v up;
     up \<leftarrow> get n_parent t u;
     put (set_parent up) t v
   }"
  by (simp add: transplant_def relink_def)

lemma transplant:
  assumes cr: "crep (t_heap t) d (t_root t) C u" and d: "d = t_dummy t" "d \<notin> crefs C" "u \<noteq> d" "u \<notin> crefs C" "cdistinct C"
    and u: "get n_parent t u = Some (cpar d C)"
    and V: "rep (t_heap t) d p V" "distinct (refs V)" "set (refs V) \<inter> crefs C = {}" "d \<notin> set (refs V)" "u \<notin> set (refs V)"
    and n: "t_heap t (addr d V) = Some n"
  shows "\<exists>h' r. transplant t u (addr d V) = Some (t\<lparr>t_heap := h', t_root := r\<rparr>) \<and> crep h' d r C (addr d V) \<and>
    rep h' d (cpar d C) V \<and> h' (addr d V) = Some (set_parent (cpar d C) n) \<and>
    (\<forall>q. q \<notin> crefs C \<longrightarrow> q \<noteq> addr d V \<longrightarrow> h' q = t_heap t q) \<and> dom h' = dom (t_heap t)"
proof -
  obtain h r where h: "relink t u (addr d V) (cpar d C) = Some (t\<lparr>t_heap := h, t_root := r\<rparr>)" "crep h d r C (addr d V)"
    "\<And>q. q \<notin> crefs C \<Longrightarrow> h q = t_heap t q" "dom h = dom (t_heap t)"
    using relink [OF cr d] by blast
  have v: "addr d V \<notin> crefs C" "addr d V \<noteq> u" using V(3,4,5) d(2,3) by (cases V; auto)+
  have hn: "h (addr d V) = Some n" "h u = t_heap t u" using h(3) v n d(4) by simp_all
  let ?h = "h(addr d V \<mapsto> set_parent (cpar d C) n)"
  have "rep h d p V" using V(1,3) h(3) by (subst rep_cong [of _ _ "t_heap t"]) auto
  then have "rep ?h d (cpar d C) V"
    using reparent [of h d p V "cpar d C"] V(2) hn(1) by (cases "V = Lf") auto
  moreover have "crep ?h d r C (addr d V)" using h(2) v by simp
  moreover have "transplant t u (addr d V) = Some (t\<lparr>t_heap := ?h, t_root := r\<rparr>)"
    using h(1) u hn d(1,3) by (auto simp: transplant_relink get_def put_def)
  moreover have "dom ?h = dom (t_heap t)" using h(4) n by auto
  ultimately show ?thesis using h(3) by (intro exI [of _ ?h] exI [of _ r]) auto
qed

section \<open>The search\<close>

fun search :: "('k \<Rightarrow> 'k \<Rightarrow> int) \<Rightarrow> 'k \<Rightarrow> ('k, 'v) ctx \<Rightarrow> ('k, 'v) rbt \<Rightarrow> ('k, 'v) ctx \<times> ('k, 'v) rbt" where
  "search cmp k C Lf = (C, Lf)"
| "search cmp k C (Nd l c e r) =
     (if cmp k (fst (snd e)) = 1 then search cmp k ((Lft, c, e, r) # C) l
      else if cmp k (fst (snd e)) = - 1 then search cmp k ((Rgt, c, e, l) # C) r
      else (C, Nd l c e r))"

lemma plug_search: "search cmp k C T = (C', T') \<Longrightarrow> plug C' T' = plug C T"
  by (induction cmp k C T rule: search.induct) (auto split: if_splits)

lemma search_hit: "search cmp k C T = (C', Nd l c e r) \<Longrightarrow> cmp k (fst (snd e)) \<noteq> 1 \<and> cmp k (fst (snd e)) \<noteq> - 1"
  by (induction cmp k C T rule: search.induct) (auto split: if_splits)

lemma find_rb_tree:
  assumes "heap_tree t (plug C T)" and "\<forall>e \<in> set (entries T). t_comp t k (fst (snd e)) \<in> {-1, 0, 1}"
  shows "find_rb_tree t (addr (t_dummy t) T) k = Some (addr (t_dummy t) (snd (search (t_comp t) k C T)))"
  using assms
proof (induction T arbitrary: C)
  case Lf
  then show ?case by (subst find_rb_tree.simps) (simp add: heap_tree_plug)
next
  case (Nd l c e r)
  have H: "heap_tree t (plug C (node Lft l c e r))" using Nd.prems by simp
  note n = heap_node(2,3) [OF H] read_node [OF H]
  have l: "t_comp t k (fst (snd e)) = 1 \<Longrightarrow> ?case"
    using Nd.IH(1) [of "(Lft, c, e, r) # C"] Nd.prems n by (subst find_rb_tree.simps) (auto simp: child_simps)
  have r: "t_comp t k (fst (snd e)) = - 1 \<Longrightarrow> ?case"
    using Nd.IH(2) [of "(Rgt, c, e, l) # C"] Nd.prems n by (subst find_rb_tree.simps) (auto simp: child_simps)
  have "t_comp t k (fst (snd e)) = 0 \<Longrightarrow> ?case"
    using n by (subst find_rb_tree.simps) (auto simp: child_simps)
  moreover have "t_comp t k (fst (snd e)) \<in> {-1, 0, 1}" using Nd.prems(2) by simp
  ultimately show ?case using l r by blast
qed

section \<open>The least node\<close>

lemma before_append [simp]: "before (C @ D) = before D @ before C"
  by (induction C rule: before.induct) simp_all

lemma after_append [simp]: "after (C @ D) = after C @ after D"
  by (induction C rule: after.induct) simp_all

fun least :: "('k, 'v) ctx \<Rightarrow> ('k, 'v) rbt \<Rightarrow> ('k, 'v) ctx \<times> ('k, 'v) rbt" where
  "least C Lf = (C, Lf)"
| "least C (Nd l c e r) = (if l = Lf then (C, Nd l c e r) else least ((Lft, c, e, r) # C) l)"

lemma least_spec:
  "T \<noteq> Lf \<Longrightarrow> \<exists>D c e r. least C T = (D @ C, Nd Lf c e r) \<and> plug D (Nd Lf c e r) = T \<and> before D = []"
proof (induction C T rule: least.induct)
  case (2 C l c e r)
  show ?case
  proof (cases "l = Lf")
    case True
    then show ?thesis by (intro exI [of _ "[]"]) simp
  next
    case False
    then obtain D c' e' r' where "least ((Lft, c, e, r) # C) l = (D @ (Lft, c, e, r) # C, Nd Lf c' e' r')"
      "plug D (Nd Lf c' e' r') = l" "before D = []"
      using 2 by blast
    then show ?thesis
      using False by (intro exI [of _ "D @ [(Lft, c, e, r)]"] exI [of _ c'] exI [of _ e'] exI [of _ r']) auto
  qed
qed simp

lemma minimum_loop:
  assumes "rep (t_heap t) (t_dummy t) p T" and "t_dummy t \<notin> set (refs T)" and "T \<noteq> Lf"
  shows "minimum_loop t (addr (t_dummy t) T) = Some (addr (t_dummy t) (snd (least C T)))"
  using assms
proof (induction T arbitrary: p C)
  case (Nd l c e r)
  then have n: "get n_left t (fst e) = Some (addr (t_dummy t) l)" by (simp add: get_def node_of_def)
  show ?case
  proof (cases "l = Lf")
    case True
    then show ?thesis using n by (subst minimum_loop.simps) simp
  next
    case False
    then have "addr (t_dummy t) l \<noteq> t_dummy t" using Nd.prems by (cases l) auto
    then show ?thesis using n False Nd.IH(1) [of "fst e" "(Lft, c, e, r) # C"] Nd.prems by (subst minimum_loop.simps) simp
  qed
qed simp

lemma minimum:
  assumes "rep (t_heap t) (t_dummy t) p T" and "t_dummy t \<notin> set (refs T)"
  shows "minimum t (addr (t_dummy t) T) = Some (addr (t_dummy t) (snd (least C T)))"
proof (cases T)
  case Lf
  then show ?thesis by (simp add: minimum_def)
next
  case (Nd l c e r)
  then have "addr (t_dummy t) T \<noteq> t_dummy t" using assms(2) by auto
  then show ?thesis using minimum_loop [OF assms] Nd by (simp add: minimum_def)
qed

section \<open>The surgery\<close>

text \<open>A node with an empty child on one side: the other child takes its place.\<close>

lemma splice_one:
  assumes T: "heap_tree t (plug C (node s Lf c z V))"
  shows "\<exists>t'. transplant t (fst z) (addr (t_dummy t) V) \<bind> (\<lambda>t. free_node_rb_tree t (fst z)) = Some t' \<and> at_hole t' C V \<and>
    same_type t t' \<and> t_size t' = t_size t \<and>
    (\<exists>t1. transplant t (fst z) (addr (t_dummy t) V) = Some t1 \<and> get n_value t1 (fst z) = Some (snd (snd z)))"
proof -
  let ?d = "t_dummy t"
  note n = T [unfolded heap_tree_plug rep_node]
  obtain m where m: "t_heap t (addr ?d V) = Some m"
  proof (cases V)
    case Lf
    then show ?thesis using that n by (auto simp: get_def)
  next
    case (Nd l k e r)
    then show ?thesis using that n by auto
  qed
  have "crep (t_heap t) ?d (t_root t) C (fst z)" using n by simp
  then obtain h r where h: "transplant t (fst z) (addr ?d V) = Some (t\<lparr>t_heap := h, t_root := r\<rparr>)" "crep h ?d r C (addr ?d V)"
    "rep h ?d (cpar ?d C) V" "h (addr ?d V) = Some (set_parent (cpar ?d C) m)"
    "\<And>q. q \<notin> crefs C \<Longrightarrow> q \<noteq> addr ?d V \<Longrightarrow> h q = t_heap t q" "dom h = dom (t_heap t)"
    using transplant [of t ?d C "fst z" "fst z" V m] read_node(3) [OF T] n m by auto
  have z: "fst z \<notin> crefs C" "fst z \<noteq> addr ?d V" "fst z \<noteq> ?d" "fst z \<notin> set (refs V)" using n by (cases V; auto)+
  have hz: "h (fst z) = t_heap t (fst z)" using h(5) z by blast
  let ?t = "t\<lparr>t_heap := h(fst z := None), t_root := r\<rparr>"
  have free: "free_node_rb_tree (t\<lparr>t_heap := h, t_root := r\<rparr>) (fst z) = Some ?t"
    using n hz by (auto simp: free_node_rb_tree_def)
  have dummy: "get n_color ?t ?d = Some ASSOC_BLACK \<and> get n_key ?t ?d = Some None"
  proof (cases "V = Lf")
    case True
    then have "n_color m = ASSOC_BLACK" "n_key m = None" using n m by (simp_all add: get_def)
    then show ?thesis using h(4) z True by (simp add: get_def)
  next
    case False
    then have "h ?d = t_heap t ?d" using n by (intro h(5)) (cases V; auto)+
    then show ?thesis using n z by (simp add: get_def)
  qed
  have "heap_tree ?t (plug C V)"
    using n h z dummy by (auto simp: heap_tree_plug)
  moreover have "get n_parent ?t (addr ?d V) = Some (cpar ?d C)" using h(4) z by (simp add: get_def)
  moreover have "get n_value (t\<lparr>t_heap := h, t_root := r\<rparr>) (fst z) = Some (snd (snd z))"
    using read_node(6) [OF T] hz by (simp add: get_def)
  ultimately show ?thesis using h(1) free by (simp add: at_hole_def same_type_def)
qed

text \<open>A node with two children: the least node of its right subtree is cut out there.\<close>

definition cut_least :: "('k, 'v) assoc_rb_tree \<Rightarrow> ref \<Rightarrow> ref \<Rightarrow> ref \<Rightarrow> ref \<Rightarrow> ('k, 'v) assoc_rb_tree option" where
  "cut_least t z y x yp =
     (if yp = z then put (set_parent y) t x
      else do {
        yr \<leftarrow> get n_right t y;
        t \<leftarrow> transplant t y yr;
        zr \<leftarrow> get n_right t z;
        t \<leftarrow> put (set_right zr) t y;
        put (set_parent y) t zr
      })"

definition cut_state :: "('k, 'v) assoc_rb_tree \<Rightarrow> ('k, 'v) ctx \<Rightarrow> ('k, 'v) rbt \<Rightarrow> assoc_color \<Rightarrow> ('k, 'v) entry \<Rightarrow> ('k, 'v) ctx \<Rightarrow>
    assoc_color \<Rightarrow> ('k, 'v) entry \<Rightarrow> ('k, 'v) rbt \<Rightarrow> bool" where
  "cut_state t C l c z D k y V \<longleftrightarrow> (let d = t_dummy t in
     crep (t_heap t) d (t_root t) C (fst z) \<and> rep (t_heap t) d (fst z) l \<and>
     get n_parent t (fst z) = Some (cpar d C) \<and> get n_left t (fst z) = Some (addr d l) \<and> get n_color t (fst z) = Some c \<and>
     get n_value t (fst z) = Some (snd (snd z)) \<and>
     (\<exists>p. t_heap t (fst y) = Some (node_of d p Lf k y (plug D V))) \<and> rep (t_heap t) d (fst y) (plug D V) \<and>
     get n_parent t (addr d V) = Some (cpar d (D @ [(Rgt, c, y, l)])) \<and>
     get n_color t d = Some ASSOC_BLACK \<and> get n_key t d = Some None)"

lemma crefs_append [simp]: "crefs (C @ D) = crefs C \<union> crefs D"
  by (induction C rule: crefs.induct) auto

lemma cut_least:
  assumes T: "heap_tree t (plug C (Nd l c z (plug D (Nd Lf k y V))))"
  shows "\<exists>t'. cut_least t (fst z) (fst y) (addr (t_dummy t) V) (cpar (t_dummy t) (D @ [(Rgt, c, z, l)])) = Some t' \<and>
    cut_state t' C l c z D k y V \<and> same_type t t' \<and> t_size t' = t_size t \<and> dom (t_heap t') = dom (t_heap t)"
proof -
  let ?d = "t_dummy t"
  note n = T [unfolded heap_tree_plug, simplified]
  have z: "t_heap t (fst z) = Some (node_of ?d (cpar ?d C) l c z (plug D (Nd Lf k y V)))" using n by simp
  have yt: "heap_tree t (plug (D @ (Rgt, c, z, l) # C) (node Lft Lf k y V))" using T by simp
  have y: "t_heap t (fst y) = Some (node_of ?d (cpar ?d (D @ (Rgt, c, z, l) # C)) Lf k y V)"
    using heap_node(1) [OF yt] by (simp add: frame_node_def node_of_def)
  obtain m where m: "t_heap t (addr ?d V) = Some m"
  proof (cases V)
    case Lf
    then show ?thesis using that n by (auto simp: get_def)
  next
    case (Nd l' k' e' r')
    have "fst e' \<in> dom (t_heap t)" using n by (simp add: Nd)
    then show ?thesis using that Nd by auto
  qed
  have cp: "cpar ?d (D @ [(Rgt, c, z, l)]) = cpar ?d (D @ (Rgt, c, z, l) # C)" by (cases D) auto
  show ?thesis
  proof (cases D)
    case Nil
    let ?h = "(t_heap t)(addr ?d V \<mapsto> set_parent (fst y) m)"
    have ne: "addr ?d V \<noteq> fst z" "addr ?d V \<noteq> fst y" "addr ?d V \<notin> crefs C" "addr ?d V \<notin> set (refs l)"
      "addr ?d V \<noteq> ?d \<longleftrightarrow> V \<noteq> Lf" using n unfolding Nil by (cases V; auto)+
    have V: "rep ?h ?d (fst y) V" using reparent [of "t_heap t" ?d "fst y" V "fst y"] n m unfolding Nil by (cases "V = Lf") auto
    have dummy: "n_color m = ASSOC_BLACK \<and> n_key m = None" if "V = Lf" using n m that by (auto simp: get_def)
    have "cut_state (t\<lparr>t_heap := ?h\<rparr>) C l c z D k y V"
      using n z y m ne V dummy unfolding Nil by (auto simp: cut_state_def Let_def get_def node_of_def)
    moreover have "dom ?h = dom (t_heap t)" using m by auto
    moreover have "cut_least t (fst z) (fst y) (addr ?d V) (fst z) = Some (t\<lparr>t_heap := ?h\<rparr>)" using m by (simp add: cut_least_def put_def)
    ultimately show ?thesis by (auto simp: Nil same_type_def)
  next
    case (Cons fr D')
    let ?E = "D @ (Rgt, c, z, l) # C" and ?w = "addr ?d (plug D V)"
    note ny = yt [unfolded heap_tree_plug node.simps, simplified]
    have w: "?w \<in> crefs D" using addr_plug [of ?d fr D' V] by (simp add: Cons)
    have v: "addr ?d V = ?d \<or> addr ?d V \<in> set (refs V)" by (cases V) auto
    have dis: "crefs D \<inter> crefs C = {}" "crefs D \<inter> set (refs l) = {}" "fst z \<notin> crefs D" "fst y \<notin> crefs D" "?d \<notin> crefs D"
      "set (refs V) \<inter> crefs D = {}" "set (refs V) \<inter> crefs C = {}" "set (refs V) \<inter> set (refs l) = {}" "fst z \<notin> set (refs V)"
      "fst y \<notin> set (refs V)" "?d \<notin> set (refs V)"
      using n by blast+
    have out: "?d \<notin> crefs C" "?d \<notin> set (refs l)" "fst z \<noteq> ?d" "fst y \<noteq> ?d" "fst y \<notin> crefs C" "fst y \<notin> set (refs l)" "fst y \<noteq> fst z"
      using n by (simp_all add: eq_commute)
    have ne: "q \<noteq> q'" if "q \<in> A" "q' \<notin> A" for q q' :: ref and A using that by auto
    have sep: "?w \<noteq> fst y" "?w \<noteq> fst z" "?w \<noteq> ?d"
      using ne [OF w dis(4)] ne [OF w dis(3)] ne [OF w dis(5)] .
    have sepw: "?w \<notin> crefs C" "?w \<notin> set (refs l)" using w dis(1,2) by blast+
    have "fst y \<noteq> ?d" using out(4) .
    have sepv: "addr ?d V \<noteq> ?w" "addr ?d V \<noteq> fst y"
    proof -
      have "q \<noteq> ?w" if "q = ?d \<or> q \<in> set (refs V)" for q using that w dis(5,6) by auto
      then show "addr ?d V \<noteq> ?w" using v by blast
      have "q \<noteq> fst y" if "q = ?d \<or> q \<in> set (refs V)" for q using that out(4) dis(10) by auto
      then show "addr ?d V \<noteq> fst y" using v by blast
    qed
    have E: "crefs ?E = crefs D \<union> insert (fst z) (set (refs l) \<union> crefs C)" by simp
    have sepE: "addr ?d V \<notin> crefs ?E" "fst y \<notin> crefs ?E"
    proof -
      have "q \<notin> crefs ?E" if "q = ?d \<or> q \<in> set (refs V)" for q
        unfolding E using that dis out(1-3) by auto
      then show "addr ?d V \<notin> crefs ?E" using v by blast
      show "fst y \<notin> crefs ?E" unfolding E using dis(4) out by simp
    qed
    have "get n_parent t (fst y) = Some (cpar ?d ?E)" using y by (simp add: get_def node_of_def)
    then obtain h r where h: "transplant t (fst y) (addr ?d V) = Some (t\<lparr>t_heap := h, t_root := r\<rparr>)"
      "crep h ?d r ?E (addr ?d V)" "rep h ?d (cpar ?d ?E) V" "h (addr ?d V) = Some (set_parent (cpar ?d ?E) m)"
      "\<And>q. q \<notin> crefs ?E \<Longrightarrow> q \<noteq> addr ?d V \<Longrightarrow> h q = t_heap t q" "dom h = dom (t_heap t)"
      using transplant [of t ?d ?E "fst y" "fst y" V m] ny m by auto
    have "crep h ?d r ((Rgt, c, z, l) # C) ?w" "rep h ?d (fst z) (plug D V)"
      using crep_append [of h ?d r D "(Rgt, c, z, l) # C" V] h(2,3) by simp_all
    then have hz: "h (fst z) = Some (frame_node ?d (cpar ?d C) Rgt ?w c z l)" "rep h ?d (fst z) l" "crep h ?d r C (fst z)"
      "rep h ?d (fst z) (plug D V)"
      by simp_all
    have hy: "h (fst y) = Some (node_of ?d (cpar ?d ?E) Lf k y V)" using h(5) [OF sepE(2)] sepv(2) y by simp
    let ?h2 = "h(fst y \<mapsto> node_of ?d (cpar ?d ?E) Lf k y (plug D V))"
    have "fst y \<notin> set (refs (plug D V))" "distinct (refs (plug D V))" "plug D V \<noteq> Lf" using n w by (auto simp: Cons)
    then obtain wn where wn: "?h2 ?w = Some wn" "rep (?h2(?w \<mapsto> set_parent (fst y) wn)) ?d (fst y) (plug D V)"
      using reparent [of ?h2 ?d "fst z" "plug D V" "fst y"] hz(4) by auto
    let ?h3 = "?h2(?w \<mapsto> set_parent (fst y) wn)"
    let ?t = "t\<lparr>t_heap := ?h3, t_root := r\<rparr>"
    have dummy: "get n_color ?t ?d = Some ASSOC_BLACK \<and> get n_key ?t ?d = Some None"
    proof (cases "V = Lf")
      case True
      then have "n_color m = ASSOC_BLACK" "n_key m = None" "h ?d = Some (set_parent (cpar ?d ?E) m)"
        using n m h(4) by (simp_all add: get_def)
      then show ?thesis using sep(3) out(4) by (simp add: get_def)
    next
      case False
      then have "?d \<noteq> addr ?d V" using dis(11) by (cases V) auto
      moreover have "?d \<notin> crefs ?E" unfolding E using dis(5) out(1-3) by simp
      ultimately have "h ?d = t_heap t ?d" using h(5) by simp
      then show ?thesis using n sep(3) out(4) by (simp add: get_def)
    qed
    have "rep ?h3 ?d (fst z) l" using hz(2) out(6) sepw(2) by simp
    moreover have "crep ?h3 ?d r C (fst z)" using hz(3) out(5) sepw(1) by simp
    moreover have "cpar ?d (D @ [(Rgt, c, y, l)]) = cpar ?d ?E" by (cases fr) (simp add: Cons)
    ultimately have "cut_state ?t C l c z D k y V"
      using hz(1) sep sepv out(7) wn(2) h(4) dummy cp by (simp add: cut_state_def Let_def get_def node_of_def frame_node_def)
    moreover have "cut_least t (fst z) (fst y) (addr ?d V) (cpar ?d ?E) = Some ?t"
    proof -
      have "cpar ?d ?E \<noteq> fst z" using n by (cases fr) (auto simp: Cons)
      moreover have "get n_right t (fst y) = Some (addr ?d V)" using y by (simp add: get_def node_of_def)
      moreover have "get n_right (t\<lparr>t_heap := h, t_root := r\<rparr>) (fst z) = Some ?w"
        using hz(1) by (simp add: get_def frame_node_def)
      moreover have "put (set_right ?w) (t\<lparr>t_heap := h, t_root := r\<rparr>) (fst y) = Some (t\<lparr>t_heap := ?h2, t_root := r\<rparr>)"
        using hy by (simp add: put_def node_of_def)
      moreover have "put (set_parent (fst y)) (t\<lparr>t_heap := ?h2, t_root := r\<rparr>) ?w = Some ?t"
        using wn(1) by (simp add: put_def del: fun_upd_apply)
      ultimately show ?thesis using h(1) by (simp add: cut_least_def del: fun_upd_apply)
    qed
    moreover have "dom ?h3 = dom (t_heap t)" using h(6) hy wn(1) sep(1) by auto
    ultimately show ?thesis by (auto simp: cp same_type_def)
  qed
qed

text \<open>The node that was cut out takes the place of the one to remove.\<close>

definition replace_node :: "('k, 'v) assoc_rb_tree \<Rightarrow> ref \<Rightarrow> ref \<Rightarrow> ('k, 'v) assoc_rb_tree option" where
  "replace_node t z y = do {
     t \<leftarrow> transplant t z y;
     zl \<leftarrow> get n_left t z;
     t \<leftarrow> put (set_left zl) t y;
     t \<leftarrow> put (set_parent y) t zl;
     zc \<leftarrow> get n_color t z;
     put (set_color zc) t y
   }"

lemma replace_node:
  assumes T: "heap_tree t0 (plug C (Nd l c0 z (plug D (Nd Lf k y V))))" and l: "l \<noteq> Lf"
    and t: "cut_state t C l c z D k y V" "t_dummy t = t_dummy t0" "dom (t_heap t) = dom (t_heap t0)"
  shows "\<exists>t1 t2. replace_node t (fst z) (fst y) = Some t1 \<and> get n_value t1 (fst z) = Some (snd (snd z)) \<and>
    free_node_rb_tree t1 (fst z) = Some t2 \<and> at_hole t2 (D @ (Rgt, c, y, l) # C) V \<and> same_type t t2 \<and> t_size t2 = t_size t"
proof -
  let ?d = "t_dummy t"
  let ?R = "plug D V"
  note n = T [unfolded heap_tree_plug t(2) [symmetric], simplified]
  note s = t(1) [unfolded cut_state_def Let_def]
  obtain p where y: "t_heap t (fst y) = Some (node_of ?d p Lf k y ?R)" using s by blast
  have R: "rep (t_heap t) ?d (fst y) ?R" "rep (t_heap t) ?d (fst z) l" "crep (t_heap t) ?d (t_root t) C (fst z)"
    "get n_parent t (fst z) = Some (cpar ?d C)"
    using s by simp_all
  have dC: "?d \<notin> crefs C" "fst z \<noteq> ?d" "fst y \<noteq> ?d" "fst z \<noteq> fst y" "fst z \<notin> crefs C" "fst y \<notin> crefs C" "cdistinct C" "distinct (refs l)"
    "distinct (refs V)" "cdistinct D" "fst y \<notin> set (refs V)" "fst y \<notin> crefs D" "fst z \<notin> set (refs V)" "fst z \<notin> crefs D"
    "?d \<notin> set (refs V)" "?d \<notin> crefs D" "?d \<notin> set (refs l)" "fst z \<notin> set (refs l)" "fst y \<notin> set (refs l)"
    using n by (simp_all add: eq_commute)
  have disj: "set (refs ?R) \<inter> crefs C = {}" "set (refs l) \<inter> crefs C = {}" "set (refs ?R) \<inter> set (refs l) = {}" "set (refs V) \<inter> crefs D = {}"
    using n by auto
  have refR: "distinct (refs ?R)" "fst y \<notin> set (refs ?R)" "fst z \<notin> set (refs ?R)" "?d \<notin> set (refs ?R)"
    using dC disj by simp_all
  let ?Y = "Nd Lf k y ?R"
  obtain h r where h: "transplant t (fst z) (fst y) = Some (t\<lparr>t_heap := h, t_root := r\<rparr>)" "crep h ?d r C (fst y)"
    "rep h ?d (cpar ?d C) ?Y" "\<And>q. q \<notin> crefs C \<Longrightarrow> q \<noteq> fst y \<Longrightarrow> h q = t_heap t q" "dom h = dom (t_heap t)"
  proof -
    have "rep (t_heap t) ?d p ?Y" "distinct (refs ?Y)" "set (refs ?Y) \<inter> crefs C = {}" "?d \<notin> set (refs ?Y)" "fst z \<notin> set (refs ?Y)"
      using y R(1) refR disj(1) dC by (simp_all del: set_refs_plug distinct_refs_plug)
    from transplant [OF R(3) refl dC(1,2,5,7) R(4) this, of "node_of ?d p Lf k y ?R"] y that show thesis by auto
  qed
  have hz: "h (fst z) = t_heap t (fst z)" using h(4) dC by blast
  have hy: "h (fst y) = Some (node_of ?d (cpar ?d C) Lf k y ?R)" "rep h ?d (fst y) ?R" using h(3) by simp_all
  have hl: "rep h ?d (fst z) l"
    using R(2) h(4) disj(2) dC(19) by (subst rep_cong [of _ _ "t_heap t"]) auto
  obtain ln where ln: "h (addr ?d l) = Some ln" "rep (h(addr ?d l \<mapsto> set_parent (fst y) ln)) ?d (fst y) l"
    using reparent [OF hl dC(8) l] by blast
  have a: "addr ?d l \<in> set (refs l)" using l by (cases l) auto
  then have al: "addr ?d l \<noteq> fst y" "addr ?d l \<noteq> fst z" "addr ?d l \<noteq> ?d" "addr ?d l \<notin> crefs C" "addr ?d l \<notin> set (refs ?R)"
    using dC disj by auto
  let ?h = "h(fst y \<mapsto> node_of ?d (cpar ?d C) l c y ?R, addr ?d l \<mapsto> set_parent (fst y) ln)"
  let ?t1 = "t\<lparr>t_heap := ?h, t_root := r\<rparr>"
  obtain zn where zn: "h (fst z) = Some zn" "n_left zn = addr ?d l" "n_color zn = c"
    using s hz by (auto simp: get_def)
  have run: "replace_node t (fst z) (fst y) = Some ?t1"
    unfolding replace_node_def h(1) Option.bind.bind_lunit
    using hy(1) ln(1) al dC(4) by (simp add: get_def put_def zn node_of_def fun_upd_twist)
  let ?t2 = "t\<lparr>t_heap := ?h(fst z := None), t_root := r\<rparr>"
  have "\<exists>m. t_heap t (fst z) = Some m" using s by (auto simp: get_def)
  then have free: "free_node_rb_tree ?t1 (fst z) = Some ?t2"
    using n hz al dC(4) by (auto simp: free_node_rb_tree_def)
  have val: "get n_value ?t1 (fst z) = Some (snd (snd z))" using s hz al dC(4) by (simp add: get_def)
  have hd: "?h ?d = t_heap t ?d" using h(4) dC al by simp
  have "crep (?h(fst z := None)) ?d r C (fst y)" using h(2) dC al by simp
  moreover have "rep (?h(fst z := None)) ?d (fst y) ?R" using hy(2) refR al by simp
  moreover have "rep (?h(fst z := None)) ?d (fst y) l"
  proof -
    have "rep (h(addr ?d l \<mapsto> set_parent (fst y) ln, fst y \<mapsto> node_of ?d (cpar ?d C) l c y ?R, fst z := None)) ?d (fst y) l"
      using ln(2) dC(18,19) by simp
    then show ?thesis using al by (simp add: fun_upd_twist)
  qed
  moreover have "dom (?h(fst z := None)) = insert ?d (crefs C \<union> set (refs (Nd l c y ?R)))"
    using n h(5) t(2,3) a dC disj al by auto
  moreover have "get n_color ?t2 ?d = Some ASSOC_BLACK \<and> get n_key ?t2 ?d = Some None"
    using s hd dC by (simp add: get_def)
  ultimately have tree: "heap_tree ?t2 (plug C (Nd l c y ?R))"
    using n dC disj refR al by (simp add: heap_tree_plug)
  have "get n_parent ?t2 (addr ?d V) = Some (cpar ?d (D @ (Rgt, c, y, l) # C))"
  proof (cases V)
    case Lf
    have "get n_parent t (addr ?d V) = Some (cpar ?d (D @ [(Rgt, c, y, l)]))" using s by blast
    moreover have "cpar ?d (D @ [(Rgt, c, y, l)]) = cpar ?d (D @ (Rgt, c, y, l) # C)" by (cases D) auto
    ultimately show ?thesis using hd dC(2) by (simp add: Lf get_def)
  next
    case (Nd l' k' e' r')
    then show ?thesis using read_parent [of ?t2 "D @ (Rgt, c, y, l) # C" V] tree by simp
  qed
  then show ?thesis using tree run free val by (auto simp: at_hole_def same_type_def)
qed

section \<open>Removal\<close>

text \<open>The invariants after a node with an empty child is gone.\<close>

lemma removed:
  assumes "is_rbt (plug C (node s Lf k y V))"
  shows "if k = ASSOC_BLACK then hole_inv C V else is_rbt (plug C V)"
  using assms cinvc_black [of C] by (auto simp: is_rbt_plug hole_inv_def bh_node)

lemma ctx_entry: "cinvh (D @ (s, c, z, l) # C) n = cinvh (D @ (s, c, y, l) # C) n" "cinvc (D @ (s, c, z, l) # C) q = cinvc (D @ (s, c, y, l) # C) q"
  by (induction D arbitrary: n q) auto

text \<open>What is left to do once the node is out and freed.\<close>

lemma finish_extract:
  assumes "at_hole t C V" and "if k = ASSOC_BLACK then hole_inv C V else is_rbt (plug C V)"
  shows "repaired t (plug C V) (if k = ASSOC_BLACK then delete_fixup t (addr (t_dummy t) V) else Some t)"
  using assms delete_fixup [of t C V] by (auto simp: at_hole_def repaired_def)

lemma extract_unfold:
  "assoc_rb_tree_extract t key = do {
     z_node \<leftarrow> find_rb_tree t (t_root t) key;
     c_assert (z_node \<noteq> t_dummy t);
     c \<leftarrow> get n_color t z_node;
     zl \<leftarrow> get n_left t z_node;
     zr \<leftarrow> get n_right t z_node;
     (t, x_node, c) \<leftarrow>
       (if zl = t_dummy t
        then do {
          t \<leftarrow> transplant t z_node zr;
          Some (t, zr, c)
        }
        else if zr = t_dummy t
        then do {
          t \<leftarrow> transplant t z_node zl;
          Some (t, zl, c)
        }
        else do {
          y_node \<leftarrow> minimum t zr;
          original_color \<leftarrow> get n_color t y_node;
          x_node \<leftarrow> get n_right t y_node;
          yp \<leftarrow> get n_parent t y_node;
          t \<leftarrow> cut_least t z_node y_node x_node yp;
          t \<leftarrow> replace_node t z_node y_node;
          Some (t, x_node, original_color)
        });
     val \<leftarrow> get n_value t z_node;
     t \<leftarrow> free_node_rb_tree t z_node;
     t \<leftarrow> (if c = ASSOC_BLACK then delete_fixup t x_node else Some t);
     c_assert (t_size t \<noteq> 0);
     Some (val, t\<lparr>t_size := t_size t - 1\<rparr>)
   }"
  unfolding assoc_rb_tree_extract_def cut_least_def replace_node_def Option.bind_assoc by (rule refl)

lemma assoc_rb_tree_extract:
  assumes wf: "tree_wf t T" and cmp: "\<forall>e \<in> set (entries T). t_comp t k (fst (snd e)) \<in> {-1, 0, 1}"
    and hit: "search (t_comp t) k [] T = (C, Nd l c z r)"
  shows "\<exists>t' T'. assoc_rb_tree_extract t k = Some (snd (snd z), t') \<and> tree_wf t' T' \<and> same_type t t' \<and>
    entries T' = before C @ entries l @ entries r @ after C"
proof -
  let ?d = "t_dummy t"
  have T: "plug C (Nd l c z r) = T" using plug_search [OF hit] by simp
  have H: "heap_tree t (plug C (node Lft l c z r))" and rbt: "is_rbt T" and size: "t_size t = length (entries T)"
    using wf T by (simp_all add: tree_wf_def)
  have root: "addr ?d T = t_root t" using H by (simp add: T heap_tree_def)
  have find: "find_rb_tree t (t_root t) k = Some (fst z)"
    using find_rb_tree [of t "[]" T k] H cmp root hit by (simp add: T)
  note n = heap_node [OF H] read_node [OF H]
  have kids: "addr ?d l = ?d \<longleftrightarrow> l = Lf" "addr ?d r = ?d \<longleftrightarrow> r = Lf"
    using H [unfolded heap_tree_plug] by (cases l; cases r; auto)+
  have "\<exists>t1 t2 oc V C'. (if addr ?d l = ?d
        then do {
          t \<leftarrow> transplant t (fst z) (addr ?d r);
          Some (t, addr ?d r, c)
        }
        else if addr ?d r = ?d
        then do {
          t \<leftarrow> transplant t (fst z) (addr ?d l);
          Some (t, addr ?d l, c)
        }
        else do {
          y_node \<leftarrow> minimum t (addr ?d r);
          original_color \<leftarrow> get n_color t y_node;
          x_node \<leftarrow> get n_right t y_node;
          yp \<leftarrow> get n_parent t y_node;
          t \<leftarrow> cut_least t (fst z) y_node x_node yp;
          t \<leftarrow> replace_node t (fst z) y_node;
          Some (t, x_node, original_color)
        }) = Some (t1, addr (t_dummy t2) V, oc) \<and> get n_value t1 (fst z) = Some (snd (snd z)) \<and>
      free_node_rb_tree t1 (fst z) = Some t2 \<and> at_hole t2 C' V \<and> same_type t t2 \<and> t_size t2 = t_size t \<and>
      (if oc = ASSOC_BLACK then hole_inv C' V else is_rbt (plug C' V)) \<and>
      entries (plug C' V) = before C @ entries l @ entries r @ after C"
  proof (cases "l = Lf \<or> r = Lf")
    case True
    then obtain s V where V: "node Lft l c z r = node s Lf c z V" "l = Lf \<and> V = r \<or> l \<noteq> Lf \<and> V = l"
      by (metis node.simps)
    have one: "heap_tree t (plug C (node s Lf c z V))" using H V(1) by metis
    from splice_one [OF this] obtain t1 t2 where t1: "transplant t (fst z) (addr ?d V) = Some t1" "free_node_rb_tree t1 (fst z) = Some t2"
      "at_hole t2 C V" "same_type t t2" "t_size t2 = t_size t" "get n_value t1 (fst z) = Some (snd (snd z))"
      by auto
    have "is_rbt (plug C (node s Lf c z V))" using rbt T V(1) by simp
    from removed [OF this] show ?thesis
      using t1 V(2) True kids by (intro exI [of _ t1] exI [of _ t2] exI [of _ c] exI [of _ V] exI [of _ C])
        (auto simp: same_type_def entries_plug)
  next
    case False
    then obtain D k' y V where m: "least [] r = (D, Nd Lf k' y V)" "plug D (Nd Lf k' y V) = r" "before D = []"
      using least_spec [of r "[]"] by auto
    have two: "heap_tree t (plug C (Nd l c z (plug D (Nd Lf k' y V))))" using H m(2) by simp
    let ?E = "D @ (Rgt, c, z, l) # C"
    have yt: "heap_tree t (plug ?E (node Lft Lf k' y V))" using two by simp
    have min: "minimum t (addr ?d r) = Some (fst y)"
      using minimum [of t "fst z" r "[]"] H m(1) by (simp add: heap_tree_plug)
    have cp: "cpar ?d (D @ [(Rgt, c, z, l)]) = cpar ?d ?E" by (cases D) auto
    obtain t1 where t1: "cut_least t (fst z) (fst y) (addr ?d V) (cpar ?d ?E) = Some t1" "cut_state t1 C l c z D k' y V"
      "same_type t t1" "t_size t1 = t_size t" "dom (t_heap t1) = dom (t_heap t)"
      using cut_least [OF two] cp by auto
    obtain t2 t3 where t2: "replace_node t1 (fst z) (fst y) = Some t2" "get n_value t2 (fst z) = Some (snd (snd z))"
      "free_node_rb_tree t2 (fst z) = Some t3" "at_hole t3 (D @ (Rgt, c, y, l) # C) V" "same_type t1 t3" "t_size t3 = t_size t1"
      using replace_node [OF two _ t1(2)] False t1(3,5) by (auto simp: same_type_def)
    have "is_rbt (plug ?E (node Lft Lf k' y V))" using rbt T m(2) by simp
    from removed [OF this] have "if k' = ASSOC_BLACK then hole_inv (D @ (Rgt, c, y, l) # C) V else is_rbt (plug (D @ (Rgt, c, y, l) # C) V)"
      by (cases k') (simp_all add: hole_inv_def is_rbt_plug ctx_entry [where z = z and y = y] del: plug_append)
    moreover have "entries (plug (D @ (Rgt, c, y, l) # C) V) = before C @ entries l @ entries r @ after C"
      using m(3) by (simp add: entries_plug flip: m(2))
    ultimately show ?thesis
      using False kids min read_node [OF yt] t1 t2
      by (intro exI [of _ t2] exI [of _ t3] exI [of _ k'] exI [of _ V] exI [of _ "D @ (Rgt, c, y, l) # C"])
        (auto simp: child_simps same_type_def)
  qed
  then obtain t1 t2 oc V C' where st: "(if addr ?d l = ?d
        then do {
          t \<leftarrow> transplant t (fst z) (addr ?d r);
          Some (t, addr ?d r, c)
        }
        else if addr ?d r = ?d
        then do {
          t \<leftarrow> transplant t (fst z) (addr ?d l);
          Some (t, addr ?d l, c)
        }
        else do {
          y_node \<leftarrow> minimum t (addr ?d r);
          original_color \<leftarrow> get n_color t y_node;
          x_node \<leftarrow> get n_right t y_node;
          yp \<leftarrow> get n_parent t y_node;
          t \<leftarrow> cut_least t (fst z) y_node x_node yp;
          t \<leftarrow> replace_node t (fst z) y_node;
          Some (t, x_node, original_color)
        }) = Some (t1, addr (t_dummy t2) V, oc)" "get n_value t1 (fst z) = Some (snd (snd z))"
      "free_node_rb_tree t1 (fst z) = Some t2" "at_hole t2 C' V" "same_type t t2" "t_size t2 = t_size t"
      "if oc = ASSOC_BLACK then hole_inv C' V else is_rbt (plug C' V)"
      "entries (plug C' V) = before C @ entries l @ entries r @ after C"
    by blast
  obtain t3 T' where t3: "(if oc = ASSOC_BLACK then delete_fixup t2 (addr (t_dummy t2) V) else Some t2) = Some t3"
    "heap_tree t3 T'" "is_rbt T'" "entries T' = entries (plug C' V)" "same_rest t2 t3"
    using finish_extract [OF st(4,7)] unfolding repaired_def by blast
  have e: "entries T = before C @ entries l @ z # entries r @ after C" using T by (auto simp: entries_plug simp flip: T)
  have sz: "t_size t3 = length (entries T)" using t3(5) st(6) size by (simp add: same_rest_def)
  have "assoc_rb_tree_extract t k = Some (snd (snd z), t3\<lparr>t_size := t_size t3 - 1\<rparr>)"
  proof -
    have g: "get n_color t (fst z) = Some c" "get n_left t (fst z) = Some (addr ?d l)" "get n_right t (fst z) = Some (addr ?d r)"
      using n by (simp_all add: child_simps)
    have "t_size t3 \<noteq> 0" using sz e by simp
    then show ?thesis
      unfolding extract_unfold find g Option.bind.bind_lunit st(1) prod.case st(2,3) t3(1) using n(2) by simp
  qed
  moreover have "tree_wf (t3\<lparr>t_size := t_size t3 - 1\<rparr>) T'"
    using t3 st(8) sz e by (simp add: tree_wf_def heap_tree_def get_def)
  moreover have "same_type t (t3\<lparr>t_size := t_size t3 - 1\<rparr>)"
    using st(5) t3(5) by (simp add: same_type_def same_rest_def)
  ultimately show ?thesis using t3(4) st(8) by auto
qed

end
