(* ===== verification/RbMap.thy ===== *)
theory RbMap
  imports RbDelete E2apTypes "HOL-Library.Multiset" begin

text \<open>
  What the tree of \<^verbatim>\<open>assoc_rb_tree.c\<close> is for its clients: a list of keys and values in the order of the comparison,
  through which the iterators walk. The comparison returns \<open>1\<close> for a key that comes before the other one.
\<close>

section \<open>Iterators\<close>

definition first_ref :: "ref \<Rightarrow> ('k, 'v) entry list \<Rightarrow> ref" where
  "first_ref d xs = (case xs of [] \<Rightarrow> d | e # _ \<Rightarrow> fst e)"

lemma first_ref_simps [simp]: "first_ref d [] = d" "first_ref d (e # xs) = fst e"
  by (simp_all add: first_ref_def)

lemma minimum_first:
  assumes "rep (t_heap t) (t_dummy t) p T" and "t_dummy t \<notin> set (refs T)"
  shows "minimum t (addr (t_dummy t) T) = Some (first_ref (t_dummy t) (entries T))"
proof (cases "T = Lf")
  case True
  then show ?thesis by (simp add: minimum_def)
next
  case False
  then obtain D c e r where "least [] T = (D, Nd Lf c e r)" "plug D (Nd Lf c e r) = T" "before D = []"
    using least_spec [of T "[]"] by auto
  then have "entries T = e # entries r @ after D" using entries_plug [of D "Nd Lf c e r"] by simp
  then show ?thesis using minimum [OF assms, of "[]"] \<open>least [] T = _\<close> by simp
qed

lemma assoc_rb_tree_front:
  "heap_tree t T \<Longrightarrow> assoc_rb_tree_front t = Some (first_ref (t_dummy t) (entries T))"
  using minimum_first [of t "t_dummy t" T] by (simp add: assoc_rb_tree_front_def heap_tree_def)

lemma climb:
  assumes "heap_tree t (plug C T)" and "T \<noteq> Lf"
  shows "climb t (addr (t_dummy t) T) (cpar (t_dummy t) C) = Some (first_ref (t_dummy t) (after C))"
  using assms
proof (induction C arbitrary: T)
  case Nil
  then show ?case by (subst climb.simps) simp
next
  case (Cons fr C)
  obtain s c e u where fr: "fr = (s, c, e, u)" by (cases fr)
  have H: "heap_tree t (plug C (node s T c e u))" using Cons.prems by (simp add: fr)
  note r = read_node [OF H] heap_node(2) [OF H] addr_eq_child(1) [OF H Cons.prems(2)]
  show ?case
  proof (cases s)
    case Lft
    then show ?thesis using r by (subst climb.simps) (simp add: fr child_simps)
  next
    case Rgt
    have "climb t (fst e) (cpar (t_dummy t) C) = Some (first_ref (t_dummy t) (after C))"
      using Cons.IH [OF H] by (cases s) auto
    then show ?thesis using r Rgt by (subst climb.simps) (auto simp: fr child_simps)
  qed
qed

lemma assoc_rb_tree_next:
  assumes "heap_tree t (plug C (Nd l c e r))"
  shows "assoc_rb_tree_next t (fst e) = Some (first_ref (t_dummy t) (entries r @ after C))"
proof -
  have H: "heap_tree t (plug C (node Lft l c e r))" using assms by simp
  note n = heap_node(2,3) [OF H] read_node [OF H]
  have r: "rep (t_heap t) (t_dummy t) (fst e) r" "t_dummy t \<notin> set (refs r)" using assms by (auto simp: heap_tree_plug)
  show ?thesis
  proof (cases "r = Lf")
    case True
    have "climb t (fst e) (cpar (t_dummy t) C) = Some (first_ref (t_dummy t) (after C))"
      using climb [OF assms] by simp
    then show ?thesis using n True by (simp add: assoc_rb_tree_next_def child_simps)
  next
    case False
    then have a: "addr (t_dummy t) r \<noteq> t_dummy t" and e: "entries r \<noteq> []" using r(2) by (cases r; simp; force)+
    from e have "first_ref (t_dummy t) (entries r @ after C) = first_ref (t_dummy t) (entries r)"
      by (cases "entries r") simp_all
    then show ?thesis using n a minimum_first [OF r] by (simp add: assoc_rb_tree_next_def child_simps)
  qed
qed

text \<open>Every entry is a node.\<close>

lemma entry_node:
  assumes "entries T = xs @ e # ys"
  shows "\<exists>C l c r. T = plug C (Nd l c e r) \<and> entries r @ after C = ys"
  using assms
proof (induction T arbitrary: xs ys)
  case (Nd l c x r)
  from Nd.prems have "entries l @ x # entries r = xs @ e # ys" by simp
  then consider us where "entries l = xs @ e # us" "ys = us @ x # entries r" | "entries l = xs" "x = e" "ys = entries r"
    | us where "xs = entries l @ x # us" "entries r = us @ e # ys"
    by (auto simp: append_eq_append_conv2 append_eq_Cons_conv Cons_eq_append_conv)
  then show ?case
  proof cases
    case 1
    then obtain C l' c' r' where "l = plug C (Nd l' c' e r')" "entries r' @ after C = us" using Nd.IH(1) by blast
    then show ?thesis using 1 by (intro exI [of _ "C @ [(Lft, c, x, r)]"]) auto
  next
    case 2
    then show ?thesis by (intro exI [of _ "[]"]) auto
  next
    case 3
    then obtain C l' c' r' where "r = plug C (Nd l' c' e r')" "entries r' @ after C = ys" using Nd.IH(2) by blast
    then show ?thesis using 3 by (intro exI [of _ "C @ [(Rgt, c, x, l)]"]) auto
  qed
qed simp

lemma iterator:
  assumes "heap_tree t T" and "entries T = xs @ e # ys"
  shows "assoc_rb_tree_next t (fst e) = Some (first_ref (t_dummy t) ys)"
    "assoc_rb_tree_key t (fst e) = Some (fst (snd e))" "assoc_rb_tree_value t (fst e) = Some (snd (snd e))"
    "fst e \<noteq> assoc_rb_tree_end t"
proof -
  obtain C l c r where T: "T = plug C (Nd l c e r)" "entries r @ after C = ys" using entry_node [OF assms(2)] by blast
  then have H: "heap_tree t (plug C (node Lft l c e r))" using assms(1) by simp
  show "assoc_rb_tree_next t (fst e) = Some (first_ref (t_dummy t) ys)"
    using assoc_rb_tree_next [of t C l c e r] H T(2) by simp
  show "assoc_rb_tree_key t (fst e) = Some (fst (snd e))" "assoc_rb_tree_value t (fst e) = Some (snd (snd e))"
    "fst e \<noteq> assoc_rb_tree_end t"
    using heap_node [OF H] read_node [OF H]
    by (simp_all add: assoc_rb_tree_key_def assoc_rb_tree_value_def assoc_rb_tree_end_def)
qed

text \<open>The search with a predicate walks from an iterator to the first entry that satisfies it.\<close>

lemma find_if_rb_tree:
  assumes "heap_tree t T" and "entries T = xs @ ys"
  shows "find_if_rb_tree t (first_ref (t_dummy t) ys) (assoc_rb_tree_end t) x f =
    Some (first_ref (t_dummy t) (dropWhile (\<lambda>e. \<not> f x (fst (snd e))) ys))"
  using assms(2)
proof (induction ys arbitrary: xs)
  case Nil
  then show ?case by (subst find_if_rb_tree.simps) (simp add: assoc_rb_tree_end_def)
next
  case (Cons e ys)
  note i = iterator [OF assms(1) Cons.prems]
  have "find_if_rb_tree t (first_ref (t_dummy t) ys) (assoc_rb_tree_end t) x f =
      Some (first_ref (t_dummy t) (dropWhile (\<lambda>e. \<not> f x (fst (snd e))) ys))"
    using Cons.IH [of "xs @ [e]"] Cons.prems by simp
  then show ?case using i by (subst find_if_rb_tree.simps) simp
qed

lemma find_if_front:
  assumes "heap_tree t T"
  shows "(assoc_rb_tree_front t \<bind> (\<lambda>it. find_if_rb_tree t it (assoc_rb_tree_end t) x f)) =
    Some (first_ref (t_dummy t) (dropWhile (\<lambda>e. \<not> f x (fst (snd e))) (entries T)))"
  using assoc_rb_tree_front [OF assms] find_if_rb_tree [OF assms, of "[]" "entries T" x f] by simp

section \<open>Freeing\<close>

fun calls :: "('k, 'v) rbt \<Rightarrow> ('k option \<times> 'v option) list" where
  "calls Lf = []"
| "calls (Nd l c e r) = calls l @ calls r @ [(Some (fst (snd e)), snd (snd e))]"

lemma depth_first_search_free:
  assumes "rep (t_heap t) (t_dummy t) p T" and "distinct (refs T)" "t_dummy t \<notin> set (refs T)" "NULL \<notin> set (refs T)" "t_dummy t \<noteq> NULL"
  shows "depth_first_search_free t (addr (t_dummy t) T) = Some (calls T, t\<lparr>t_heap := t_heap t |` (- set (refs T))\<rparr>)"
  using assms
proof (induction T arbitrary: t p)
  case Lf
  have "t_heap t |` UNIV = t_heap t" by (simp add: restrict_map_def)
  then show ?case using Lf by (subst depth_first_search_free.simps) simp
next
  case (Nd l c e r)
  let ?d = "t_dummy t"
  let ?t1 = "t\<lparr>t_heap := t_heap t |` (- set (refs l))\<rparr>"
  let ?t2 = "t\<lparr>t_heap := t_heap t |` (- set (refs l) - set (refs r))\<rparr>"
  have e: "t_heap t (fst e) = Some (node_of ?d p l c e r)" "fst e \<noteq> NULL" "fst e \<noteq> ?d" "fst e \<notin> set (refs l)" "fst e \<notin> set (refs r)"
    using Nd.prems by auto
  have l: "depth_first_search_free t (addr ?d l) = Some (calls l, ?t1)" using Nd.IH(1) [of t "fst e"] Nd.prems by simp
  have dis: "set (refs l) \<inter> set (refs r) = {}" using Nd.prems(2) by simp
  have "rep (t_heap ?t1) ?d (fst e) r"
    using Nd.prems(1) dis by (subst rep_cong [of _ _ "t_heap t"]) (auto simp: restrict_map_def)
  then have r: "depth_first_search_free ?t1 (addr ?d r) = Some (calls r, ?t2)"
    using Nd.IH(2) [of ?t1 "fst e"] Nd.prems by (simp add: restrict_restrict Int_commute Diff_eq)
  have f: "t_heap ?t2 (fst e) = Some (node_of ?d p l c e r)" "t_heap ?t1 (fst e) = Some (node_of ?d p l c e r)"
    using e by (simp_all add: restrict_map_def)
  have "(t_heap t |` (- set (refs l) - set (refs r)))(fst e := None) = t_heap t |` (- set (refs (Nd l c e r)))"
    by (auto simp: restrict_map_def fun_eq_iff)
  then have free: "free_node_rb_tree ?t2 (fst e) = Some (t\<lparr>t_heap := t_heap t |` (- set (refs (Nd l c e r)))\<rparr>)"
    using e f(1) by (simp add: free_node_rb_tree_def del: refs_simps)
  have g: "get n_left t (fst e) = Some (addr ?d l)" "get n_right ?t1 (fst e) = Some (addr ?d r)"
    "get n_key ?t2 (fst e) = Some (Some (fst (snd e)))" "get n_value ?t2 (fst e) = Some (snd (snd e))"
    using e(1) f by (simp_all add: get_def node_of_def del: assoc_rb_tree.simps)
  show ?case
    using e(2,3) g l r free by (subst depth_first_search_free.simps) (simp del: refs_simps)
qed

lemma assoc_rb_tree_free:
  assumes "heap_tree t T"
  shows "assoc_rb_tree_free t = Some (calls T, t\<lparr>t_heap := Map.empty\<rparr>)"
proof -
  let ?d = "t_dummy t"
  let ?t = "t\<lparr>t_heap := t_heap t |` (- set (refs T))\<rparr>"
  have H: "rep (t_heap t) ?d ?d T" "t_root t = addr ?d T" "distinct (refs T)" "?d \<notin> set (refs T)" "NULL \<notin> set (refs T)" "?d \<noteq> NULL"
    "dom (t_heap t) = insert ?d (set (refs T))"
    using assms by (simp_all add: heap_tree_def)
  have free: "depth_first_search_free t (t_root t) = Some (calls T, ?t)"
    using depth_first_search_free [OF H(1,3-6)] H(2) by simp
  have "(t_heap t |` (- set (refs T)))(?d := None) = Map.empty"
    using H(7) by (auto simp: restrict_map_def fun_eq_iff domIff)
  moreover have "t_heap ?t ?d \<noteq> None"
    using H(4,7) by (auto simp: restrict_map_def domIff)
  ultimately show ?thesis using free by (simp add: assoc_rb_tree_free_def)
qed

lemma mset_calls: "mset (calls T) = mset (map (\<lambda>e. (Some (fst (snd e)), snd (snd e))) (entries T))"
  by (induction T) simp_all

section \<open>The height\<close>

fun height :: "('k, 'v) rbt \<Rightarrow> nat" where
  "height Lf = 0"
| "height (Nd l c e r) = 1 + max (height l) (height r)"

lemma height_bh: "invh T \<Longrightarrow> invc T \<Longrightarrow> height T \<le> 2 * bh T + (if col T = ASSOC_RED then 1 else 0)"
proof (induction T)
  case (Nd l c e r)
  then show ?case by (cases c) (auto split: if_splits)
qed simp

lemma bh_size: "invh T \<Longrightarrow> 2 ^ bh T \<le> length (entries T) + 1"
proof (induction T)
  case (Nd l c e r)
  then have "(2 :: nat) ^ bh l \<le> length (entries l) + 1" "(2 :: nat) ^ bh l \<le> length (entries r) + 1" by auto
  then show ?case by simp
qed simp

lemma height_bound:
  assumes "is_rbt T"
  shows "2 ^ height T \<le> (length (entries T) + 1) ^ 2"
proof -
  have i: "invh T" "invc T" "col T = ASSOC_BLACK" using assms by (simp_all add: is_rbt_def)
  have "(2 :: nat) ^ height T \<le> 2 ^ (2 * bh T)" using height_bh [OF i(1,2)] i(3) by (intro power_increasing) simp_all
  also have "\<dots> = (2 ^ bh T) ^ 2" by (simp add: power_mult mult.commute)
  also have "\<dots> \<le> (length (entries T) + 1) ^ 2" by (rule power_mono [OF bh_size [OF i(1)]]) simp
  finally show ?thesis .
qed

section \<open>The order\<close>

text \<open>The comparison of an ordered container: a contract on the keys, with results \<open>-1\<close>, \<open>0\<close> and \<open>1\<close> only.\<close>

definition sorted_keys :: "('a \<Rightarrow> bool) \<Rightarrow> ('a \<Rightarrow> 'a \<Rightarrow> int) \<Rightarrow> ('a \<times> 'v) list \<Rightarrow> bool" where
  "sorted_keys valid cmp xs \<longleftrightarrow> sorted_wrt (\<lambda>a b. cmp (fst b) (fst a) \<noteq> 1) xs \<and> (\<forall>a \<in> set xs. valid (fst a))"

definition insort_key :: "('a \<Rightarrow> 'a \<Rightarrow> int) \<Rightarrow> 'a \<Rightarrow> 'v \<Rightarrow> ('a \<times> 'v) list \<Rightarrow> ('a \<times> 'v) list" where
  "insort_key cmp k v xs = takeWhile (\<lambda>e. cmp k (fst e) \<noteq> 1) xs @ (k, v) # dropWhile (\<lambda>e. cmp k (fst e) \<noteq> 1) xs"

text \<open>The contents of a tree that satisfies the red-black invariants.\<close>

definition tree_holds :: "('k, 'v) assoc_rb_tree \<Rightarrow> ('k \<times> 'v option) list \<Rightarrow> bool" where
  "tree_holds t xs \<longleftrightarrow> (\<exists>T. tree_wf t T \<and> map snd (entries T) = xs)"

locale three_way = comparator +
  assumes three: "valid x \<Longrightarrow> valid y \<Longrightarrow> cmp x y \<in> {-1, 0, 1}"
begin

lemma gt_trans:
  assumes "valid k" "valid x" "valid y" "cmp y x \<noteq> 1" "cmp k x = 1"
  shows "cmp k y = 1"
proof -
  have "cmp y x \<le> 0" using three [OF assms(3,2)] assms(4) by auto
  moreover have "cmp x k < 0" using anti [OF assms(1,2)] assms(5) by simp
  ultimately have "\<not> cmp k y \<le> 0"
    using less_trans [of y k x] trans_law [OF assms(1,3,2)] assms by auto
  then show ?thesis using three [OF assms(1,3)] by auto
qed

text \<open>The contents below a context: keys in order, and the insertion point of a key.\<close>

lemma sorted_append:
  "sorted_keys valid cmp (xs @ ys) \<longleftrightarrow> sorted_keys valid cmp xs \<and> sorted_keys valid cmp ys \<and> (\<forall>a \<in> set xs. \<forall>b \<in> set ys. cmp (fst b) (fst a) \<noteq> 1)"
  by (auto simp: sorted_keys_def sorted_wrt_append)

lemma sorted_Cons:
  "sorted_keys valid cmp (x # ys) \<longleftrightarrow> valid (fst x) \<and> sorted_keys valid cmp ys \<and> (\<forall>b \<in> set ys. cmp (fst b) (fst x) \<noteq> 1)"
  by (auto simp: sorted_keys_def)

lemma sorted_node:
  assumes "sorted_keys valid cmp (map snd (entries (Nd l c e r)))"
  shows "sorted_keys valid cmp (map snd (entries l))" "sorted_keys valid cmp (map snd (entries r))"
    "x \<in> set (entries l) \<Longrightarrow> cmp (fst (snd e)) (fst (snd x)) \<noteq> 1" "x \<in> set (entries r) \<Longrightarrow> cmp (fst (snd x)) (fst (snd e)) \<noteq> 1"
    "x \<in> set (entries l) \<Longrightarrow> valid (fst (snd x))" "x \<in> set (entries r) \<Longrightarrow> valid (fst (snd x))" "valid (fst (snd e))"
proof -
  show "sorted_keys valid cmp (map snd (entries l))" "sorted_keys valid cmp (map snd (entries r))"
    "x \<in> set (entries l) \<Longrightarrow> cmp (fst (snd e)) (fst (snd x)) \<noteq> 1" "x \<in> set (entries r) \<Longrightarrow> cmp (fst (snd x)) (fst (snd e)) \<noteq> 1"
    using assms by (auto simp: sorted_append sorted_Cons)
  show "x \<in> set (entries l) \<Longrightarrow> valid (fst (snd x))" "x \<in> set (entries r) \<Longrightarrow> valid (fst (snd x))" "valid (fst (snd e))"
    using assms by (auto simp: sorted_keys_def)
qed

lemma descend_split:
  assumes "sorted_keys valid cmp (map snd (entries T))" and "valid k"
  shows "before (descend cmp k C T) = before C @ takeWhile (\<lambda>e. cmp k (fst (snd e)) \<noteq> 1) (entries T)"
    and "after (descend cmp k C T) = dropWhile (\<lambda>e. cmp k (fst (snd e)) \<noteq> 1) (entries T) @ after C"
  using assms(1)
proof (induction T arbitrary: C)
  case (Nd l c e r)
  let ?P = "\<lambda>e. cmp k (fst (snd e)) \<noteq> 1"
  {
    case 1
    note s = sorted_node [OF 1]
    have "\<not> ?P e \<or> (\<forall>x \<in> set (entries l). ?P x)"
      using gt_trans [OF assms(2) s(5,7) s(3)] by blast
    then show ?case
      using 1 Nd.IH(1) [of "(Lft, c, e, r) # C"] Nd.IH(3) [of "(Rgt, c, e, l) # C"]
      by (auto simp: sorted_append sorted_Cons takeWhile_append)
  next
    case 2
    note s = sorted_node [OF 2]
    have "\<not> ?P e \<or> (\<forall>x \<in> set (entries l). ?P x)"
      using gt_trans [OF assms(2) s(5,7) s(3)] by blast
    then show ?case
      using 2 Nd.IH(2) [of "(Lft, c, e, r) # C"] Nd.IH(4) [of "(Rgt, c, e, l) # C"]
      by (auto simp: sorted_append sorted_Cons dropWhile_append)
  }
qed simp_all

lemma sorted_insort_key:
  assumes "sorted_keys valid cmp xs" and "valid k"
  shows "sorted_keys valid cmp (insort_key cmp k v xs)"
proof -
  let ?P = "\<lambda>e. cmp k (fst e) \<noteq> 1"
  have s: "sorted_keys valid cmp (takeWhile ?P xs)" "sorted_keys valid cmp (dropWhile ?P xs)"
    "\<forall>a \<in> set (takeWhile ?P xs). \<forall>b \<in> set (dropWhile ?P xs). cmp (fst b) (fst a) \<noteq> 1"
    using assms(1) sorted_append [of "takeWhile ?P xs" "dropWhile ?P xs"] by simp_all
  have "cmp (fst b) k \<noteq> 1" if b: "b \<in> set (dropWhile ?P xs)" for b
  proof -
    obtain x ys where d: "dropWhile ?P xs = x # ys" using b by (cases "dropWhile ?P xs") auto
    have "\<not> ?P x" using hd_dropWhile [of ?P xs] d by simp
    then have "cmp k (fst b) = 1"
      using s(2) b gt_trans [OF assms(2), of "fst x" "fst b"] unfolding d by (auto simp: sorted_Cons sorted_keys_def)
    then show ?thesis using s(2) b anti [OF assms(2), of "fst b"] by (auto simp: sorted_keys_def)
  qed
  moreover have "\<forall>a \<in> set (takeWhile ?P xs). ?P a" by (auto dest: set_takeWhileD)
  ultimately show ?thesis using s assms(2) by (auto simp: insort_key_def sorted_append sorted_Cons)
qed

text \<open>The search finds a key if one compares as equal.\<close>

lemma search_miss:
  assumes "sorted_keys valid cmp (map snd (entries T))" and "valid k" and "snd (search cmp k C T) = Lf"
  shows "\<forall>e \<in> set (entries T). cmp k (fst (snd e)) \<noteq> 0"
  using assms(1,3)
proof (induction T arbitrary: C)
  case (Nd l c e r)
  note s = sorted_node [OF Nd.prems(1)]
  consider "cmp k (fst (snd e)) = 1" | "cmp k (fst (snd e)) = - 1"
    using Nd.prems(2) by (auto split: if_splits)
  then show ?case
  proof cases
    case 1
    then have "cmp k (fst (snd x)) = 1" if "x \<in> set (entries r)" for x
      using gt_trans [OF assms(2) s(7) s(6) s(4)] that by simp
    moreover have "\<forall>x \<in> set (entries l). cmp k (fst (snd x)) \<noteq> 0"
      using Nd.IH(1) [OF s(1)] Nd.prems(2) 1 by simp
    ultimately show ?thesis using 1 by auto
  next
    case 2
    have "cmp k (fst (snd x)) < 0" if x: "x \<in> set (entries l)" for x
    proof -
      have "cmp (fst (snd x)) (fst (snd e)) \<noteq> - 1" 
        using s(3) [OF x] anti [OF s(5) [OF x] s(7)] by auto
      then have "cmp (fst (snd e)) (fst (snd x)) \<le> 0"
        using three [OF s(7) s(5) [OF x]] s(3) [OF x] by auto
      then show ?thesis using less_trans [OF assms(2) s(7) s(5) [OF x]] 2 by simp
    qed
    moreover have "\<forall>x \<in> set (entries r). cmp k (fst (snd x)) \<noteq> 0"
      using Nd.IH(2) [OF s(2)] Nd.prems(2) 2 by simp
    ultimately show ?thesis using 2 by fastforce
  qed
qed simp

lemma key_range:
  "sorted_keys valid cmp (map snd es) \<Longrightarrow> valid k \<Longrightarrow> \<forall>e \<in> set es. cmp k (fst (snd e)) \<in> {-1, 0, 1}"
  using three by (simp add: sorted_keys_def)

lemma insert_holds:
  assumes "tree_holds t xs" and "t_comp t = cmp" and "sorted_keys valid cmp xs" and "valid k" and "z \<noteq> NULL" and "t_heap t z = None"
  shows "\<exists>t'. assoc_rb_tree_insert t z k (t_key_sz t) v = Some t' \<and> tree_holds t' (insort_key cmp k v xs) \<and> same_type t t'"
proof -
  obtain T where T: "tree_wf t T" "map snd (entries T) = xs" using assms(1) by (auto simp: tree_holds_def)
  from assoc_rb_tree_insert [OF T(1) assms(5,6) refl refl, of k v]
  obtain t' T' where t': "assoc_rb_tree_insert t z k (t_key_sz t) v = Some t'" "tree_wf t' T'" "same_type t t'"
    "entries T' = before (descend cmp k [] T) @ (z, k, v) # after (descend cmp k [] T)"
    using assms(2) by blast
  let ?P = "\<lambda>e. cmp k (fst (snd e)) \<noteq> 1"
  have "map snd (takeWhile ?P (entries T)) = takeWhile (\<lambda>e. cmp k (fst e) \<noteq> 1) xs"
    "map snd (dropWhile ?P (entries T)) = dropWhile (\<lambda>e. cmp k (fst e) \<noteq> 1) xs"
    unfolding T(2) [symmetric] takeWhile_map dropWhile_map comp_def by (rule refl)+
  moreover have "sorted_keys valid cmp (map snd (entries T))" using assms(3) T(2) by simp
  note descend_split [OF this assms(4), of "[]"]
  ultimately have "map snd (entries T') = insort_key cmp k v xs"
    by (simp only: t'(4) insort_key_def before.simps after.simps append_Nil append_Nil2 map_append list.map snd_conv)
  then show ?thesis using t' by (auto simp: tree_holds_def)
qed

lemma extract_holds:
  assumes "tree_holds t xs" and "t_comp t = cmp" and "sorted_keys valid cmp xs" and "valid k"
    and "\<exists>e \<in> set xs. cmp k (fst e) = 0"
  shows "\<exists>ys k' v zs t'. xs = ys @ (k', v) # zs \<and> cmp k k' = 0 \<and> assoc_rb_tree_extract t k = Some (v, t') \<and>
    tree_holds t' (ys @ zs) \<and> same_type t t'"
proof -
  obtain T where T: "tree_wf t T" "map snd (entries T) = xs" using assms(1) by (auto simp: tree_holds_def)
  have range: "\<forall>e \<in> set (entries T). t_comp t k (fst (snd e)) \<in> {-1, 0, 1}"
    using key_range [OF _ assms(4), of "entries T"] assms(2,3) T(2) by simp
  have "\<exists>e \<in> set (entries T). cmp k (fst (snd e)) = 0" using assms(5) by (simp flip: T(2))
  then have "snd (search cmp k [] T) \<noteq> Lf" using search_miss [of T k "[]"] assms(3,4) T(2) by auto
  then obtain C l c z r where hit: "search (t_comp t) k [] T = (C, Nd l c z r)"
    using assms(2) by (cases "search cmp k [] T"; cases "snd (search cmp k [] T)") auto
  have p: "plug C (Nd l c z r) = T" using plug_search [OF hit] by simp
  from assoc_rb_tree_extract [OF T(1) range hit] obtain t' T' where t': "assoc_rb_tree_extract t k = Some (snd (snd z), t')"
    "tree_wf t' T'" "same_type t t'" "entries T' = before C @ entries l @ entries r @ after C"
    by blast
  have e: "entries T = before C @ entries l @ z # entries r @ after C" using entries_plug [of C "Nd l c z r"] p by simp
  have "z \<in> set (entries T)" using e by simp
  then have "cmp k (fst (snd z)) = 0" using search_hit [OF hit] range assms(2) by auto
  then show ?thesis
    using t' T(2) e
    by (intro exI [of _ "map snd (before C @ entries l)"] exI [of _ "fst (snd z)"] exI [of _ "snd (snd z)"]
        exI [of _ "map snd (entries r @ after C)"] exI [of _ t']) (auto simp: tree_holds_def)
qed

lemma extract_miss:
  assumes "tree_holds t xs" and "t_comp t = cmp" and "sorted_keys valid cmp xs" and "valid k"
    and "\<forall>e \<in> set xs. cmp k (fst e) \<noteq> 0"
  shows "assoc_rb_tree_extract t k = None"
proof -
  obtain T where T: "tree_wf t T" "map snd (entries T) = xs" using assms(1) by (auto simp: tree_holds_def)
  have range: "\<forall>e \<in> set (entries T). t_comp t k (fst (snd e)) \<in> {-1, 0, 1}"
    using key_range [OF _ assms(4), of "entries T"] assms(2,3) T(2) by simp
  have ne: "cmp k (fst (snd e)) \<noteq> 0" if "e \<in> set (entries T)" for e using that assms(5) T(2) by auto
  obtain C U where U: "search cmp k [] T = (C, U)" by (cases "search cmp k [] T")
  have "U = Lf"
  proof (cases U)
    case (Nd l c z r)
    then have hit: "search cmp k [] T = (C, Nd l c z r)" using U by simp
    have "entries T = before C @ entries l @ z # entries r @ after C"
      using entries_plug [of C "Nd l c z r"] plug_search [OF hit] by simp
    then have "z \<in> set (entries T)" by simp
    then show ?thesis using search_hit [OF hit] range ne assms(2) by fastforce
  qed
  then have "find_rb_tree t (t_root t) k = Some (t_dummy t)"
    using find_rb_tree [of t "[]" T k] range T(1) U assms(2) by (simp add: tree_wf_def heap_tree_def)
  then show ?thesis by (simp add: assoc_rb_tree_extract_def c_assert_def)
qed

lemma sorted_remove: "sorted_keys valid cmp (xs @ x # ys) \<Longrightarrow> sorted_keys valid cmp (xs @ ys)"
  by (simp add: sorted_append sorted_Cons)

end

text \<open>The comparison functions with which the containers are made.\<close>

interpretation ran_func3: three_way "\<lambda>_. True" cmp_ran_func_id eq_ran_func_id
  by unfold_locales (simp add: cmp_ran_func_id_def)

interpretation fd3: three_way "\<lambda>fd. 0 < fd" "\<lambda>a b. the (cmp_fd a b)" "\<lambda>a b. eq_fd a b = Some True"
  by unfold_locales (simp add: cmp_fd_def)

interpretation ric_gen3: three_way "\<lambda>_. True" cmp_ric_gen_id eq_ric_gen_id
  by unfold_locales (simp add: cmp_ric_gen_id_def)

interpretation mono3: three_way mono_node "\<lambda>a b. the (cmp_global_e2_node_id a b)" "eq_global_e2_node_id False"
  by unfold_locales (auto simp: cmp_mono_key cmp3_def)

interpretation split3: three_way split_node "\<lambda>a b. the (cmp_global_e2_node_id a b)" "eq_global_e2_node_id False"
  by unfold_locales (auto simp: cmp_split_key cmp3_def)


section \<open>A concrete tree\<close>

text \<open>The service models of a plugin, under their identifiers.\<close>

lemmas rb_loops = depth_first_search_free.simps insert_fixup.simps insert_descend.simps delete_fixup.simps
  minimum_loop.simps find_rb_tree.simps climb.simps find_if_rb_tree.simps

declare rb_loops [code]

definition sm_ds1 :: "(u16, string) assoc_rb_tree option" where
  "sm_ds1 = do {
     t \<leftarrow> assoc_rb_tree_init 1 2 cmp_ran_func_id;
     assoc_rb_tree_insert t 2 143 2 (Some ''rlc'')
   }"

definition sm_ds2 :: "(u16, string) assoc_rb_tree option" where
  "sm_ds2 = do {
     t \<leftarrow> sm_ds1;
     assoc_rb_tree_insert t 3 142 2 (Some ''mac'')
   }"

lemma sm_ds1: "\<exists>t. sm_ds1 = Some t \<and> tree_holds t [(143, Some ''rlc'')] \<and> t_comp t = cmp_ran_func_id \<and> t_key_sz t = 2"
proof -
  obtain t :: "(u16, string) assoc_rb_tree" where t: "assoc_rb_tree_init 1 2 cmp_ran_func_id = Some t" "tree_wf t Lf" "t_dummy t = 1"
    "t_comp t = cmp_ran_func_id" "t_key_sz t = 2"
    using tree_wf_init [of 2 1 cmp_ran_func_id] by auto
  have "dom (t_heap t) = {1}" using t(2,3) by (simp add: tree_wf_def heap_tree_def)
  then have "2 \<notin> dom (t_heap t)" by simp
  then have "t_heap t 2 = None" by (simp add: domIff)
  moreover have "tree_holds t []" using t(2) by (auto simp: tree_holds_def)
  ultimately show ?thesis
    using ran_func3.insert_holds [of t "[]" 2 143 "Some ''rlc''"] t
    by (auto simp: sm_ds1_def insort_key_def sorted_keys_def same_type_def)
qed

lemma sm_ds2:
  "\<exists>t. sm_ds2 = Some t \<and> tree_holds t [(142, Some ''mac''), (143, Some ''rlc'')] \<and> t_comp t = cmp_ran_func_id \<and> t_key_sz t = 2"
proof -
  obtain t where t: "sm_ds1 = Some t" "tree_holds t [(143, Some ''rlc'')]" "t_comp t = cmp_ran_func_id" "t_key_sz t = 2"
    using sm_ds1 by blast
  have "map_option (\<lambda>t. t_heap t 3) sm_ds1 = Some None" by code_simp
  then have "t_heap t 3 = None" unfolding t(1) by simp
  then show ?thesis
    using ran_func3.insert_holds [of t _ 3 142 "Some ''mac''", OF t(2)] t(3,4) unfolding sm_ds2_def t(1)
    by (auto simp: insort_key_def sorted_keys_def same_type_def cmp_ran_func_id_def)
qed

lemma sm_ds_sorted: "sorted_keys (\<lambda>_. True) cmp_ran_func_id [(142, Some ''mac''), (143, Some ''rlc'')]"
  by (simp add: sorted_keys_def cmp_ran_func_id_def)

section \<open>Properties\<close>

text \<open>C1: Inserting into an ordered red-black tree returns, keeps the red-black invariants (colours, black height and
  the count of the nodes are part of \<open>tree_holds\<close>), and puts the entry behind the last one that the comparison does
  not order after the new key; the contents stay in order.\<close>

theorem assoc_rb_tree_insert_refines:
  assumes "three_way valid (t_comp t) same" and "tree_holds t xs" and "sorted_keys valid (t_comp t) xs" and "valid k"
    and "z \<noteq> NULL" and "t_heap t z = None"
  shows "\<exists>t'. assoc_rb_tree_insert t z k (t_key_sz t) v = Some t' \<and> tree_holds t' (insort_key (t_comp t) k v xs) \<and>
    sorted_keys valid (t_comp t) (insort_key (t_comp t) k v xs) \<and> same_type t t'"
  using three_way.insert_holds [OF assms(1,2) refl assms(3-6)] three_way.sorted_insort_key [OF assms(1,3,4)] by blast

lemma assoc_rb_tree_insert_refines_witness:
  "\<exists>t t'. sm_ds2 = Some t \<and> assoc_rb_tree_insert t 4 140 2 (Some ''kpm'') = Some t' \<and>
     tree_holds t' [(140, Some ''kpm''), (142, Some ''mac''), (143, Some ''rlc'')]"
proof -
  obtain t where t: "sm_ds2 = Some t" "tree_holds t [(142, Some ''mac''), (143, Some ''rlc'')]" "t_comp t = cmp_ran_func_id"
    "t_key_sz t = 2"
    using sm_ds2 by blast
  have "map_option (\<lambda>t. t_heap t 4) sm_ds2 = Some None" by code_simp
  then have f: "t_heap t 4 = None" unfolding t(1) by simp
  have "three_way (\<lambda>_. True) (t_comp t) eq_ran_func_id" "sorted_keys (\<lambda>_. True) (t_comp t) [(142, Some ''mac''), (143, Some ''rlc'')]"
    using ran_func3.three_way_axioms sm_ds_sorted t(3) by simp_all
  from assoc_rb_tree_insert_refines [OF this(1) t(2) this(2), of 4 140 "Some ''kpm''"] show ?thesis
    using f t(3,4) unfolding t(1) by (auto simp: insort_key_def cmp_ran_func_id_def)
qed

text \<open>C2: Removing a key of an ordered red-black tree returns the value of an entry with an equal key, takes exactly that
  entry out and keeps the red-black invariants and the order; when no key is equal the assertion stops the program.\<close>

theorem assoc_rb_tree_extract_refines:
  assumes "three_way valid (t_comp t) same" and "tree_holds t xs" and "sorted_keys valid (t_comp t) xs" and "valid k"
  shows "if \<exists>e \<in> set xs. same k (fst e)
    then \<exists>ys k' v zs t'. xs = ys @ (k', v) # zs \<and> same k k' \<and> assoc_rb_tree_extract t k = Some (v, t') \<and>
      tree_holds t' (ys @ zs) \<and> sorted_keys valid (t_comp t) (ys @ zs) \<and> same_type t t'
    else assoc_rb_tree_extract t k = None"
proof -
  have z: "t_comp t k (fst e) = 0 \<longleftrightarrow> same k (fst e)" if "e \<in> set xs" for e
    using comparator.zero [OF three_way.axioms(1) [OF assms(1)] assms(4)] assms(3) that by (simp add: sorted_keys_def)
  show ?thesis
  proof (cases "\<exists>e \<in> set xs. same k (fst e)")
    case True
    then have "\<exists>e \<in> set xs. t_comp t k (fst e) = 0" using z by blast
    from three_way.extract_holds [OF assms(1,2) refl assms(3,4) this] obtain ys k' v zs t' where
      e: "xs = ys @ (k', v) # zs" "t_comp t k k' = 0" "assoc_rb_tree_extract t k = Some (v, t')" "tree_holds t' (ys @ zs)" "same_type t t'"
      by blast
    then have "same k k'" "sorted_keys valid (t_comp t) (ys @ zs)"
      using z [of "(k', v)"] three_way.sorted_remove [OF assms(1), of ys "(k', v)" zs] assms(3) by simp_all
    then show ?thesis unfolding if_P [OF True] using e by blast
  next
    case False
    then show ?thesis
      using three_way.extract_miss [OF assms(1,2) refl assms(3,4)] z by (simp only: if_False) blast
  qed
qed

lemma assoc_rb_tree_extract_refines_witness:
  "\<exists>t t'. sm_ds2 = Some t \<and> assoc_rb_tree_extract t 143 = Some (Some ''rlc'', t') \<and> tree_holds t' [(142, Some ''mac'')] \<and>
     assoc_rb_tree_extract t 144 = None"
proof -
  obtain t where t: "sm_ds2 = Some t" "tree_holds t [(142, Some ''mac''), (143, Some ''rlc'')]" "t_comp t = cmp_ran_func_id"
    using sm_ds2 by blast
  have p: "three_way (\<lambda>_. True) (t_comp t) eq_ran_func_id" "sorted_keys (\<lambda>_. True) (t_comp t) [(142, Some ''mac''), (143, Some ''rlc'')]"
    using ran_func3.three_way_axioms sm_ds_sorted t(3) by simp_all
  note x = assoc_rb_tree_extract_refines [OF p(1) t(2) p(2), of 143] assoc_rb_tree_extract_refines [OF p(1) t(2) p(2), of 144]
  have "\<exists>t'. assoc_rb_tree_extract t 143 = Some (Some ''rlc'', t') \<and> tree_holds t' [(142, Some ''mac'')]"
    using x(1) by (auto simp: eq_ran_func_id_def Cons_eq_append_conv)
  moreover have "assoc_rb_tree_extract t 144 = None" using x(2) by (simp add: eq_ran_func_id_def)
  ultimately show ?thesis using t(1) by blast
qed

text \<open>C15: The iterators walk over all entries of a tree in order: from the front, every step leads to the next one, and the
  last step to the end.\<close>

theorem assoc_rb_tree_iteration:
  assumes "tree_holds t xs"
  shows "\<exists>its. length its = length xs \<and> distinct its \<and>
    assoc_rb_tree_front t = Some ((its @ [assoc_rb_tree_end t]) ! 0) \<and>
    (\<forall>i < length xs. its ! i \<noteq> assoc_rb_tree_end t \<and>
       assoc_rb_tree_key t (its ! i) = Some (fst (xs ! i)) \<and> assoc_rb_tree_value t (its ! i) = Some (snd (xs ! i)) \<and>
       assoc_rb_tree_next t (its ! i) = Some ((its @ [assoc_rb_tree_end t]) ! Suc i))"
proof -
  obtain T where T: "heap_tree t T" "map snd (entries T) = xs" using assms by (auto simp: tree_holds_def tree_wf_def)
  have f: "first_ref (t_dummy t) es = (map fst es @ [assoc_rb_tree_end t]) ! 0" for es :: "('a, 'b) entry list"
    by (cases es) (simp_all add: assoc_rb_tree_end_def)
  have "assoc_rb_tree_next t (refs T ! i) = Some ((refs T @ [assoc_rb_tree_end t]) ! Suc i)"
    "assoc_rb_tree_key t (refs T ! i) = Some (fst (xs ! i))" "assoc_rb_tree_value t (refs T ! i) = Some (snd (xs ! i))"
    "refs T ! i \<noteq> assoc_rb_tree_end t" if i: "i < length xs" for i
  proof -
    have l: "i < length (entries T)" using i T(2) by auto
    note it = iterator [OF T(1) id_take_nth_drop [OF l]]
    have r: "refs T ! i = fst (entries T ! i)" using l by (simp add: refs_def)
    have "(refs T @ [assoc_rb_tree_end t]) ! Suc i = (map fst (drop (Suc i) (entries T)) @ [assoc_rb_tree_end t]) ! 0"
      using l by (auto simp: refs_def nth_append)
    then show "assoc_rb_tree_next t (refs T ! i) = Some ((refs T @ [assoc_rb_tree_end t]) ! Suc i)"
      using it(1) r f by simp
    show "assoc_rb_tree_key t (refs T ! i) = Some (fst (xs ! i))" "assoc_rb_tree_value t (refs T ! i) = Some (snd (xs ! i))"
      "refs T ! i \<noteq> assoc_rb_tree_end t"
      using it(2-4) r l T(2) by auto
  qed
  moreover have "length (refs T) = length xs" "distinct (refs T)" using T by (auto simp: refs_def heap_tree_def)
  moreover have "assoc_rb_tree_front t = Some ((refs T @ [assoc_rb_tree_end t]) ! 0)"
    using assoc_rb_tree_front [OF T(1)] f by (simp add: refs_def)
  ultimately show ?thesis by (intro exI [of _ "refs T"]) blast
qed

lemma assoc_rb_tree_iteration_witness:
  "\<exists>t a b. sm_ds2 = Some t \<and> assoc_rb_tree_front t = Some a \<and> assoc_rb_tree_key t a = Some 142 \<and> assoc_rb_tree_next t a = Some b \<and>
     assoc_rb_tree_key t b = Some 143 \<and> assoc_rb_tree_next t b = Some (assoc_rb_tree_end t)"
proof -
  obtain t where t: "sm_ds2 = Some t" "tree_holds t [(142, Some ''mac''), (143, Some ''rlc'')]" using sm_ds2 by blast
  show ?thesis
    using assoc_rb_tree_iteration [OF t(2)] t(1) by (auto simp: length_Suc_conv less_Suc_eq all_conj_distrib)
qed

text \<open>C40: Searching a tree with a predicate from the front returns the iterator of the first entry whose key satisfies it,
  or the end when there is none.\<close>

theorem find_if_rb_tree_first:
  assumes "tree_holds t xs"
  shows "\<exists>it. (assoc_rb_tree_front t \<bind> (\<lambda>first. find_if_rb_tree t first (assoc_rb_tree_end t) x f)) = Some it \<and>
    (case find (\<lambda>e. f x (fst e)) xs of
       None \<Rightarrow> it = assoc_rb_tree_end t
     | Some e \<Rightarrow> assoc_rb_tree_key t it = Some (fst e) \<and> assoc_rb_tree_value t it = Some (snd e))"
proof -
  obtain T where T: "heap_tree t T" "map snd (entries T) = xs" using assms by (auto simp: tree_holds_def tree_wf_def)
  let ?d = "dropWhile (\<lambda>e. \<not> f x (fst (snd e))) (entries T)"
  have case_head: "(case map snd es of [] \<Rightarrow> None | e # _ \<Rightarrow> Some e) = (case es of [] \<Rightarrow> None | e # _ \<Rightarrow> Some (snd e))"
    for es :: "('a, 'b) entry list"
    by (cases es) simp_all
  have "dropWhile (\<lambda>e. \<not> f x (fst e)) xs = map snd ?d" unfolding T(2) [symmetric] dropWhile_map comp_def by (rule refl)
  then have find: "find (\<lambda>e. f x (fst e)) xs = (case ?d of [] \<Rightarrow> None | e # _ \<Rightarrow> Some (snd e))"
    by (simp only: find_dropWhile comp_def case_head)
  note front = find_if_front [OF T(1), of x f]
  have split: "entries T = takeWhile (\<lambda>e. \<not> f x (fst (snd e))) (entries T) @ ?d" by simp
  obtain D where D: "?d = D" by blast
  show ?thesis
  proof (cases D)
    case Nil
    then show ?thesis using front find unfolding D by (simp add: assoc_rb_tree_end_def)
  next
    case (Cons e es)
    then have "entries T = takeWhile (\<lambda>e. \<not> f x (fst (snd e))) (entries T) @ e # es" using split unfolding D by simp
    from iterator [OF T(1) this] show ?thesis using front find unfolding D Cons by simp
  qed
qed

lemma find_if_rb_tree_first_witness:
  "\<exists>t it. sm_ds2 = Some t \<and> (assoc_rb_tree_front t \<bind> (\<lambda>first. find_if_rb_tree t first (assoc_rb_tree_end t) 143 eq_ran_func_id)) = Some it \<and>
     assoc_rb_tree_value t it = Some (Some ''rlc'')"
proof -
  obtain t where t: "sm_ds2 = Some t" "tree_holds t [(142, Some ''mac''), (143, Some ''rlc'')]" using sm_ds2 by blast
  show ?thesis
    using find_if_rb_tree_first [OF t(2), of 143 eq_ran_func_id] t(1) by (auto simp: eq_ran_func_id_def)
qed

text \<open>C25: Freeing a tree hands every entry to the function that frees it, exactly once, and gives all nodes and the dummy back
  to the heap.\<close>

theorem assoc_rb_tree_free_all:
  assumes "tree_holds t xs"
  shows "\<exists>fs. assoc_rb_tree_free t = Some (fs, t\<lparr>t_heap := Map.empty\<rparr>) \<and>
    mset fs = mset (map (\<lambda>e. (Some (fst e), snd e)) xs)"
proof -
  obtain T where T: "heap_tree t T" "map snd (entries T) = xs" using assms by (auto simp: tree_holds_def tree_wf_def)
  have "map (\<lambda>e. (Some (fst e), snd e)) xs = map (\<lambda>e. (Some (fst (snd e)), snd (snd e))) (entries T)"
    unfolding T(2) [symmetric] by simp
  then show ?thesis using assoc_rb_tree_free [OF T(1)] mset_calls [of T] by simp
qed

lemma assoc_rb_tree_free_all_witness:
  "\<exists>t fs. sm_ds2 = Some t \<and> assoc_rb_tree_free t = Some (fs, t\<lparr>t_heap := Map.empty\<rparr>) \<and>
     mset fs = {#(Some 142, Some ''mac''), (Some 143, Some ''rlc'')#}"
proof -
  obtain t where t: "sm_ds2 = Some t" "tree_holds t [(142, Some ''mac''), (143, Some ''rlc'')]" using sm_ds2 by blast
  show ?thesis using assoc_rb_tree_free_all [OF t(2)] t(1) by auto
qed

text \<open>The trees that the operations build, and the ways down from a node, by a link to the left or to the right in each step.\<close>

inductive rb_built :: "('k \<Rightarrow> bool) \<Rightarrow> ('k \<Rightarrow> 'k \<Rightarrow> int) \<Rightarrow> nat \<Rightarrow> ('k, 'v) assoc_rb_tree \<Rightarrow> bool" for valid cmp sz where
  built_init: "\<lbrakk>d \<noteq> NULL; assoc_rb_tree_init d sz cmp = Some t\<rbrakk> \<Longrightarrow> rb_built valid cmp sz t"
| built_insert: "\<lbrakk>rb_built valid cmp sz t; valid k; z \<noteq> NULL; t_heap t z = None; assoc_rb_tree_insert t z k sz v = Some t'\<rbrakk>
    \<Longrightarrow> rb_built valid cmp sz t'"
| built_extract: "\<lbrakk>rb_built valid cmp sz t; valid k; assoc_rb_tree_extract t k = Some (v, t')\<rbrakk> \<Longrightarrow> rb_built valid cmp sz t'"

inductive descends :: "('k, 'v) assoc_rb_tree \<Rightarrow> ref \<Rightarrow> nat \<Rightarrow> bool" for t where
  descends_0: "descends t x 0"
| descends_Suc: "\<lbrakk>x \<noteq> t_dummy t; t_heap t x = Some nd; y = n_left nd \<or> y = n_right nd; descends t y n\<rbrakk> \<Longrightarrow> descends t x (Suc n)"

inductive_cases descends_SucE: "descends t x (Suc n)"

lemma rb_built_holds:
  fixes t :: "('k, 'v) assoc_rb_tree"
  assumes "three_way valid cmp same" and "rb_built valid cmp sz t"
  shows "\<exists>xs. tree_holds t xs \<and> sorted_keys valid cmp xs \<and> t_comp t = cmp \<and> t_key_sz t = sz"
  using assms(2)
proof induction
  case (built_init d t)
  then have sz: "0 < sz" by (auto simp: assoc_rb_tree_init_def split: if_splits)
  obtain t0 :: "('k, 'v) assoc_rb_tree" where "assoc_rb_tree_init d sz cmp = Some t0" "tree_wf t0 Lf" "t_comp t0 = cmp" "t_key_sz t0 = sz"
    using tree_wf_init [OF sz built_init(1)] by blast
  then have "tree_wf t Lf" "t_comp t = cmp" "t_key_sz t = sz" using built_init(2) by simp_all
  then show ?case by (intro exI [of _ "[]"]) (auto simp: tree_holds_def sorted_keys_def)
next
  case (built_insert t k z v t')
  then obtain xs where xs: "tree_holds t xs" "sorted_keys valid cmp xs" "t_comp t = cmp" "t_key_sz t = sz" by blast
  from three_way.insert_holds [OF assms(1) xs(1,3,2) built_insert.hyps(2-4), of v] built_insert.hyps(5) xs(4)
  have "tree_holds t' (insort_key cmp k v xs)" "same_type t t'" by auto
  then show ?case
    using three_way.sorted_insort_key [OF assms(1) xs(2) built_insert.hyps(2), of v] xs(3,4) by (auto simp: same_type_def)
next
  case (built_extract t k v t')
  then obtain xs where xs: "tree_holds t xs" "sorted_keys valid cmp xs" "t_comp t = cmp" "t_key_sz t = sz" by blast
  have "\<exists>e \<in> set xs. cmp k (fst e) = 0"
    using three_way.extract_miss [OF assms(1) xs(1,3,2) built_extract.hyps(2)] built_extract.hyps(3) by (metis option.distinct(1))
  from three_way.extract_holds [OF assms(1) xs(1,3,2) built_extract.hyps(2) this] built_extract.hyps(3)
  obtain ys k' zs where e: "xs = ys @ (k', v) # zs" "tree_holds t' (ys @ zs)" "same_type t t'" by auto
  then show ?case
    using three_way.sorted_remove [OF assms(1), of ys "(k', v)" zs] xs(2-4) by (auto simp: same_type_def)
qed

lemma descends_height:
  "rep (t_heap t) (t_dummy t) p T \<Longrightarrow> t_dummy t \<notin> set (refs T) \<Longrightarrow> descends t (addr (t_dummy t) T) n \<Longrightarrow> n \<le> height T"
proof (induction T arbitrary: p n)
  case Lf
  then show ?case by (cases n) (auto elim: descends_SucE)
next
  case (Nd l c e r)
  show ?case
  proof (cases n)
    case (Suc m)
    then have "descends t (addr (t_dummy t) l) m \<or> descends t (addr (t_dummy t) r) m"
      using Nd.prems(1,3) by (auto simp: node_of_def elim!: descends_SucE)
    then have "m \<le> height l \<or> m \<le> height r" using Nd.IH Nd.prems(1,2) by (auto simp del: height.simps)
    then show ?thesis using Suc by auto
  qed simp
qed

text \<open>C33: A tree that the operations have built from the empty one, in whatever order entries were inserted and removed, stays
  balanced: a way down from the root along the links visits at most twice the binary logarithm of \<open>n + 1\<close> nodes, where \<open>n\<close>
  is the number of entries. This bounds the loops of the search and of the insertion.\<close>

theorem assoc_rb_tree_depth:
  assumes "three_way valid cmp same" and "rb_built valid cmp sz t" and "descends t (t_root t) n"
  shows "2 ^ n \<le> (assoc_rb_tree_size t + 1) ^ 2"
proof -
  obtain T where T: "tree_wf t T" using rb_built_holds [OF assms(1,2)] by (auto simp: tree_holds_def)
  then have h: "rep (t_heap t) (t_dummy t) (t_dummy t) T" "t_dummy t \<notin> set (refs T)" "t_root t = addr (t_dummy t) T"
    by (simp_all add: tree_wf_def heap_tree_def)
  have "n \<le> height T" using descends_height [OF h(1,2)] assms(3) h(3) by simp
  then have "(2 :: nat) ^ n \<le> 2 ^ height T" by (intro power_increasing) simp_all
  also have "\<dots> \<le> (assoc_rb_tree_size t + 1) ^ 2"
    using T height_bound [of T] by (simp add: tree_wf_def assoc_rb_tree_size_def)
  finally show ?thesis .
qed

lemma assoc_rb_tree_depth_witness:
  "\<exists>t. sm_ds2 = Some t \<and> rb_built (\<lambda>_. True) cmp_ran_func_id 2 t \<and> descends t (t_root t) 2 \<and>
     (2 :: nat) ^ 2 \<le> (assoc_rb_tree_size t + 1) ^ 2"
proof -
  obtain t1 where t1: "sm_ds1 = Some t1" using sm_ds1 by blast
  obtain t2 where t2: "sm_ds2 = Some t2" using sm_ds2 by blast
  obtain t0 where t0: "assoc_rb_tree_init 1 2 cmp_ran_func_id = Some t0" "assoc_rb_tree_insert t0 2 143 2 (Some ''rlc'') = Some t1"
    using t1 by (auto simp: sm_ds1_def bind_eq_Some_conv)
  have i: "assoc_rb_tree_insert t1 3 142 2 (Some ''mac'') = Some t2" using t2 by (simp add: sm_ds2_def t1)
  have "map_option (\<lambda>t. t_heap t 2) (assoc_rb_tree_init 1 2 cmp_ran_func_id :: (u16, string) assoc_rb_tree option) = Some None"
    "map_option (\<lambda>t. t_heap t 3) sm_ds1 = Some None"
    by code_simp+
  then have "t_heap t0 2 = None" "t_heap t1 3 = None" by (simp_all add: t0(1) t1 del: One_nat_def)
  then have b: "rb_built (\<lambda>_. True) cmp_ran_func_id 2 t2"
    using built_insert [OF built_insert [OF built_init [OF _ t0(1)] TrueI _ _ t0(2)] TrueI _ _ i] by simp
  have "map_option (\<lambda>t. (t_root t, t_dummy t, map_option n_left (t_heap t 2), t_heap t 3 = None)) sm_ds2 = Some (2, 1, Some 3, False)"
    by code_simp
  then obtain n2 n3 where n: "t_root t2 = 2" "t_dummy t2 = 1" "t_heap t2 2 = Some n2" "n_left n2 = 3" "t_heap t2 3 = Some n3"
    unfolding t2 by auto
  have "descends t2 3 (Suc 0)" by (rule descends_Suc [OF _ n(5) disjI1 [OF refl] descends_0]) (simp add: n(2))
  then have "descends t2 (t_root t2) 2"
    using descends_Suc [of 2 t2 n2 3 "Suc 0"] n by (simp add: numeral_2_eq_2)
  then show ?thesis using assoc_rb_tree_depth [OF ran_func3.three_way_axioms b, of 2] t2 b by blast
qed

end
