(* ===== verification/PendingEvent.thy ===== *)
theory PendingEvent
  imports RbMap begin

text \<open>
  The events that wait for a timer: \<^verbatim>\<open>lib/pending_events.c\<close>, \<^verbatim>\<open>lib/pending_event_ric.c\<close> and the events of
  \<^verbatim>\<open>xApp/pending_event_xapp.h\<close>, with the comparisons that order them in the containers.
\<close>

section \<open>The code\<close>

datatype pending_event =
    SETUP_REQUEST_PENDING_EVENT
  | SUBSCRIPTION_REQUEST_PENDING_EVENT
  | SUBSCRIPTION_DELETE_REQUEST_PENDING_EVENT
  | CONTROL_REQUEST_PENDING_EVENT
  | E42_SETUP_REQUEST_PENDING_EVENT
  | E42_RIC_SUBSCRIPTION_REQUEST_PENDING_EVENT
  | RIC_SUBSCRIPTION_DELETE_REQUEST_PENDING_EVENT
  | E42_RIC_SUBSCRIPTION_DELETE_REQUEST_PENDING_EVENT
  | E42_RIC_CONTROL_REQUEST_PENDING_EVENT

fun pending_val :: "pending_event \<Rightarrow> nat" where
  "pending_val SETUP_REQUEST_PENDING_EVENT = 0"
| "pending_val SUBSCRIPTION_REQUEST_PENDING_EVENT = 1"
| "pending_val SUBSCRIPTION_DELETE_REQUEST_PENDING_EVENT = 2"
| "pending_val CONTROL_REQUEST_PENDING_EVENT = 3"
| "pending_val E42_SETUP_REQUEST_PENDING_EVENT = 4"
| "pending_val E42_RIC_SUBSCRIPTION_REQUEST_PENDING_EVENT = 5"
| "pending_val RIC_SUBSCRIPTION_DELETE_REQUEST_PENDING_EVENT = 6"
| "pending_val E42_RIC_SUBSCRIPTION_DELETE_REQUEST_PENDING_EVENT = 7"
| "pending_val E42_RIC_CONTROL_REQUEST_PENDING_EVENT = 8"

definition cmp_pending_event :: "pending_event \<Rightarrow> pending_event \<Rightarrow> int" where
  "cmp_pending_event ev1 ev2 =
     (if pending_val ev1 < pending_val ev2 then 1 else if ev1 = ev2 then 0 else - 1)"

text \<open>It returns true or stops the program.\<close>

definition valid_pending_event :: "pending_event \<Rightarrow> bool option" where
  "valid_pending_event ev = do {
     c_assert (ev = SETUP_REQUEST_PENDING_EVENT \<or> ev = SUBSCRIPTION_REQUEST_PENDING_EVENT \<or>
       ev = SUBSCRIPTION_DELETE_REQUEST_PENDING_EVENT \<or> ev = E42_SETUP_REQUEST_PENDING_EVENT);
     Some True
   }"

record pending_event_ric =
  pr_ev :: pending_event
  pr_id :: ric_gen_id

definition cmp_pending_event_ric :: "pending_event_ric \<Rightarrow> pending_event_ric \<Rightarrow> int" where
  "cmp_pending_event_ric p1 p2 =
     (let cmp_ev = cmp_pending_event (pr_ev p1) (pr_ev p2)
      in if cmp_ev \<noteq> 0 then cmp_ev else cmp_ric_gen_id (pr_id p1) (pr_id p2))"

record pending_event_xapp =
  px_ev :: pending_event
  px_id :: ric_gen_id
  px_wait_ms :: int

definition eq_pending_event_xapp :: "pending_event_xapp \<Rightarrow> pending_event_xapp \<Rightarrow> bool" where
  "eq_pending_event_xapp m0 m1 =
     (if px_ev m0 \<noteq> px_ev m1 then False
      else if eq_ric_gen_id (px_id m0) (px_id m1) = False then False
      else True)"

section \<open>The comparisons\<close>

lemma pending_val_inject [simp]: "pending_val a = pending_val b \<longleftrightarrow> a = b"
  by (cases a; cases b; simp)

lemma three_way_key:
  fixes key :: "'a \<Rightarrow> 'b :: linorder"
  assumes "\<And>a b. cmp a b = cmp3 (key b) (key a)" and "\<And>a b. same a b \<longleftrightarrow> key a = key b"
  shows "three_way (\<lambda>_. True) cmp same"
proof unfold_locales
  show "cmp y x = - cmp x y" for x y by (simp add: assms(1) cmp3_anti [of "key x"])
  show "cmp x z \<le> 0" if "cmp x y \<le> 0" "cmp y z \<le> 0" for x y z using that by (auto simp: assms(1) cmp3_simps)
  show "cmp x y = 0 \<longleftrightarrow> same x y" for x y by (auto simp: assms cmp3_simps)
  show "cmp x y \<in> {-1, 0, 1}" for x y by (simp add: assms(1) cmp3_def)
qed

lemma cmp_pending_event_key: "cmp_pending_event a b = cmp3 (pending_val b) (pending_val a)"
  by (auto simp: cmp_pending_event_def cmp3_def)

interpretation pend3: three_way "\<lambda>_. True" cmp_pending_event "(=)"
  by (rule three_way_key [where key = pending_val]) (simp_all add: cmp_pending_event_key)

lemma cmp_pending_event_ric_key:
  "cmp_pending_event_ric a b = cmp3 (pending_val (pr_ev b), ric_gen_key (pr_id b)) (pending_val (pr_ev a), ric_gen_key (pr_id a))"
  unfolding then_cmp_lex [symmetric]
  by (simp add: cmp_pending_event_ric_def cmp_pending_event_key cmp_ric_gen_key then_cmp_def Let_def)

lemma eq_ric_gen_id_iff [simp]: "eq_ric_gen_id a b \<longleftrightarrow> a = b"
  by (cases a; cases b) (auto simp: eq_ric_gen_id_def)

lemma ric_gen_key_inject [simp]: "ric_gen_key a = ric_gen_key b \<longleftrightarrow> a = b"
  by (cases a; cases b) (auto simp: ric_gen_key_def)

interpretation pend_ric3: three_way "\<lambda>_. True" cmp_pending_event_ric "(=)"
  by (rule three_way_key [where key = "\<lambda>p. (pending_val (pr_ev p), ric_gen_key (pr_id p))"])
    (auto simp: cmp_pending_event_ric_key intro: pending_event_ric.equality)

text \<open>The events of an xApp are ordered by \<^verbatim>\<open>cmp_pending_event\<close>, which reads only their first member.\<close>

definition cmp_xapp_ev :: "pending_event_xapp \<Rightarrow> pending_event_xapp \<Rightarrow> int" where
  "cmp_xapp_ev p1 p2 = cmp_pending_event (px_ev p1) (px_ev p2)"

interpretation pend_xapp3: three_way "\<lambda>_. True" cmp_xapp_ev "\<lambda>a b. px_ev a = px_ev b"
  by (rule three_way_key [where key = "\<lambda>p. pending_val (px_ev p)"]) (simp_all add: cmp_xapp_ev_def cmp_pending_event_key)

end
