(* ===== verification/BiMap.thy ===== *)
theory BiMap
  imports PendingEvent begin

text \<open>
  The bidirectional map \<^verbatim>\<open>util/alg_ds/ds/assoc_container/bimap.c\<close>: two red-black trees, from the first key to the second
  and back, and the searches of \<^verbatim>\<open>alg/find.c\<close> through its iterators. What it holds is a relation.
\<close>

section \<open>The code\<close>

record ('a, 'b) bi_map =
  b_left :: "('a, 'b) assoc_rb_tree"
  b_right :: "('b, 'a) assoc_rb_tree"

definition bi_map_init :: "ref \<Rightarrow> ref \<Rightarrow> nat \<Rightarrow> nat \<Rightarrow> ('a \<Rightarrow> 'a \<Rightarrow> int) \<Rightarrow> ('b \<Rightarrow> 'b \<Rightarrow> int) \<Rightarrow> ('a, 'b) bi_map option" where
  "bi_map_init d1 d2 key_sz1 key_sz2 cmp1 cmp2 = do {
     c_assert (key_sz1 > 0);
     c_assert (key_sz2 > 0);
     l \<leftarrow> assoc_rb_tree_init d1 key_sz1 cmp1;
     r \<leftarrow> assoc_rb_tree_init d2 key_sz2 cmp2;
     Some \<lparr>b_left = l, b_right = r\<rparr>
   }"

definition bi_map_free :: "('a, 'b) bi_map \<Rightarrow> (('a option \<times> 'b option) list \<times> ('b option \<times> 'a option) list \<times> ('a, 'b) bi_map) option" where
  "bi_map_free m = do {
     (fs, l) \<leftarrow> assoc_rb_tree_free (b_left m);
     (gs, r) \<leftarrow> assoc_rb_tree_free (b_right m);
     Some (fs, gs, \<lparr>b_left = l, b_right = r\<rparr>)
   }"

text \<open>The two addresses are those of the new nodes.\<close>

definition bi_map_insert :: "('a, 'b) bi_map \<Rightarrow> ref \<Rightarrow> ref \<Rightarrow> 'a \<Rightarrow> nat \<Rightarrow> 'b \<Rightarrow> nat \<Rightarrow> ('a, 'b) bi_map option" where
  "bi_map_insert m z1 z2 key1 key_sz1 key2 key_sz2 = do {
     c_assert (key_sz1 > 0);
     c_assert (key_sz2 > 0);
     l \<leftarrow> assoc_rb_tree_insert (b_left m) z1 key1 key_sz1 (Some key2);
     let m = m\<lparr>b_left := l\<rparr>;
     r \<leftarrow> assoc_rb_tree_insert (b_right m) z2 key2 key_sz2 (Some key1);
     Some (m\<lparr>b_right := r\<rparr>)
   }"

text \<open>\<^verbatim>\<open>bi_map_extract_left\<close> compares \<^verbatim>\<open>key2\<close>, a key of the right tree, with the comparison of the left one.
  \<open>cast\<close> is what such an object is when it is read as a left key, if it can be read so.\<close>

definition bi_map_extract_left :: "('b \<Rightarrow> 'a option) \<Rightarrow> ('a, 'b) bi_map \<Rightarrow> 'a \<Rightarrow> nat \<Rightarrow> ('b \<times> ('a, 'b) bi_map) option" where
  "bi_map_extract_left cast m key1 key1_sz = do {
     c_assert (key1_sz = t_key_sz (b_left m));
     (key2, l) \<leftarrow> assoc_rb_tree_extract (b_left m) key1;
     let m = m\<lparr>b_left := l\<rparr>;
     key2 \<leftarrow> key2;
     (key3, r) \<leftarrow> assoc_rb_tree_extract (b_right m) key2;
     let m = m\<lparr>b_right := r\<rparr>;
     key3 \<leftarrow> key3;
     key2_left \<leftarrow> cast key2;
     let cmp = t_comp (b_left m) key2_left key3;
     c_assert (cmp = 0);
     let sz_1 = assoc_rb_tree_size (b_left m);
     let sz_2 = assoc_rb_tree_size (b_right m);
     c_assert (sz_1 = sz_2);
     Some (key2, m)
   }"

definition bi_map_extract_right :: "('a, 'b) bi_map \<Rightarrow> 'b \<Rightarrow> nat \<Rightarrow> ('a \<times> ('a, 'b) bi_map) option" where
  "bi_map_extract_right m key2 key2_sz = do {
     c_assert (key2_sz = t_key_sz (b_right m));
     (key1, r) \<leftarrow> assoc_rb_tree_extract (b_right m) key2;
     let m = m\<lparr>b_right := r\<rparr>;
     key1 \<leftarrow> key1;
     (key3, l) \<leftarrow> assoc_rb_tree_extract (b_left m) key1;
     let m = m\<lparr>b_left := l\<rparr>;
     key3 \<leftarrow> key3;
     let cmp = t_comp (b_right m) key2 key3;
     c_assert (cmp = 0);
     let sz_1 = assoc_rb_tree_size (b_left m);
     let sz_2 = assoc_rb_tree_size (b_right m);
     c_assert (sz_1 = sz_2);
     Some (key1, m)
   }"

definition bi_map_size :: "('a, 'b) bi_map \<Rightarrow> nat option" where
  "bi_map_size m = do {
     let cap = assoc_rb_tree_size (b_left m);
     c_assert (cap = assoc_rb_tree_size (b_right m));
     Some cap
   }"

definition bi_map_front_left :: "('a, 'b) bi_map \<Rightarrow> ref option" where
  "bi_map_front_left m = assoc_rb_tree_front (b_left m)"

definition bi_map_next_left :: "('a, 'b) bi_map \<Rightarrow> ref \<Rightarrow> ref option" where
  "bi_map_next_left m it = assoc_rb_tree_next (b_left m) it"

text \<open>It is the front.\<close>

definition bi_map_end_left :: "('a, 'b) bi_map \<Rightarrow> ref option" where
  "bi_map_end_left m = assoc_rb_tree_front (b_left m)"

definition bi_map_front_right :: "('a, 'b) bi_map \<Rightarrow> ref option" where
  "bi_map_front_right m = assoc_rb_tree_front (b_right m)"

definition bi_map_next_right :: "('a, 'b) bi_map \<Rightarrow> ref \<Rightarrow> ref option" where
  "bi_map_next_right m it = assoc_rb_tree_next (b_right m) it"

definition bi_map_end_right :: "('a, 'b) bi_map \<Rightarrow> ref" where
  "bi_map_end_right m = assoc_rb_tree_end (b_right m)"

definition bi_map_value_left :: "('a, 'b) bi_map \<Rightarrow> ref \<Rightarrow> 'b option option" where
  "bi_map_value_left m it = assoc_rb_tree_value (b_left m) it"

definition bi_map_value_right :: "('a, 'b) bi_map \<Rightarrow> ref \<Rightarrow> 'a option option" where
  "bi_map_value_right m it = assoc_rb_tree_value (b_right m) it"

partial_function (option) find_if_bi_map_left ::
    "('a, 'b) bi_map \<Rightarrow> ref \<Rightarrow> ref \<Rightarrow> 'x \<Rightarrow> ('x \<Rightarrow> 'a \<Rightarrow> bool) \<Rightarrow> ref option" where
  "find_if_bi_map_left m start_it end_it val f =
     (if start_it \<noteq> end_it
      then do {
        k \<leftarrow> assoc_rb_tree_key (b_left m) start_it;
        if f val k then Some start_it
        else do {
          start_it \<leftarrow> bi_map_next_left m start_it;
          find_if_bi_map_left m start_it end_it val f
        }
      }
      else Some start_it)"

text \<open>This one gives the predicate the node to which the iterator points, not its key.\<close>

partial_function (option) find_if_bi_map_right ::
    "('a, 'b) bi_map \<Rightarrow> ref \<Rightarrow> ref \<Rightarrow> 'x \<Rightarrow> ('x \<Rightarrow> ('b, 'a) assoc_node \<Rightarrow> bool) \<Rightarrow> ref option" where
  "find_if_bi_map_right m start_it end_it val f =
     (if start_it \<noteq> end_it
      then do {
        n \<leftarrow> t_heap (b_right m) start_it;
        if f val n then Some start_it
        else do {
          start_it \<leftarrow> bi_map_next_right m start_it;
          find_if_bi_map_right m start_it end_it val f
        }
      }
      else Some start_it)"

section \<open>The relation\<close>

abbreviation "pairs ps \<equiv> map (\<lambda>p. (fst p, Some (snd p))) ps"

text \<open>A tree that holds a relation from keys to values.\<close>

definition tree_rel :: "('k \<Rightarrow> bool) \<Rightarrow> ('k \<Rightarrow> 'k \<Rightarrow> int) \<Rightarrow> nat \<Rightarrow> ('k, 'v) assoc_rb_tree \<Rightarrow> ('k \<times> 'v) set \<Rightarrow> bool" where
  "tree_rel valid cmp sz t X \<longleftrightarrow> t_comp t = cmp \<and> t_key_sz t = sz \<and> 0 < sz \<and>
     (\<exists>ps. tree_holds t (pairs ps) \<and> sorted_keys valid cmp (pairs ps) \<and> distinct ps \<and> set ps = X)"

lemma tree_holds_size: "tree_holds t xs \<Longrightarrow> assoc_rb_tree_size t = length xs"
  by (auto simp: tree_holds_def tree_wf_def assoc_rb_tree_size_def)

lemma tree_rel_size: "tree_rel valid cmp sz t X \<Longrightarrow> assoc_rb_tree_size t = card X"
  by (auto simp: tree_rel_def distinct_card dest: tree_holds_size)

lemma tree_rel_valid: "tree_rel valid cmp sz t X \<Longrightarrow> p \<in> X \<Longrightarrow> valid (fst p)"
  by (auto simp: tree_rel_def sorted_keys_def)

lemma tree_rel_finite: "tree_rel valid cmp sz t X \<Longrightarrow> finite X"
  by (auto simp: tree_rel_def)

lemma tree_rel_init:
  assumes "0 < sz" and "d \<noteq> NULL"
  shows "\<exists>t. assoc_rb_tree_init d sz cmp = Some t \<and> tree_rel valid cmp sz t {}"
proof -
  obtain t :: "('a, 'b) assoc_rb_tree" where t: "assoc_rb_tree_init d sz cmp = Some t" "tree_wf t Lf" "t_comp t = cmp" "t_key_sz t = sz"
    using tree_wf_init [OF assms] by blast
  have "tree_holds t (pairs ([] :: ('a \<times> 'b) list))" using t(2) by (auto simp: tree_holds_def)
  then show ?thesis using t assms(1) by (auto simp: tree_rel_def sorted_keys_def)
qed

text \<open>The search with a predicate finds some entry if there is one.\<close>

lemma tree_rel_find:
  assumes "tree_rel valid cmp sz t X"
  obtains (hit) it p where "(assoc_rb_tree_front t \<bind> (\<lambda>first. find_if_rb_tree t first (assoc_rb_tree_end t) x f)) = Some it"
    "p \<in> X" "f x (fst p)" "it \<noteq> assoc_rb_tree_end t" "assoc_rb_tree_value t it = Some (Some (snd p))" "assoc_rb_tree_key t it = Some (fst p)"
  | (miss) "(assoc_rb_tree_front t \<bind> (\<lambda>first. find_if_rb_tree t first (assoc_rb_tree_end t) x f)) = Some (assoc_rb_tree_end t)"
    "\<forall>p \<in> X. \<not> f x (fst p)"
proof -
  obtain ps where ps: "tree_holds t (pairs ps)" "set ps = X" using assms by (auto simp: tree_rel_def)
  obtain T where T: "heap_tree t T" "map snd (entries T) = pairs ps" using ps(1) by (auto simp: tree_holds_def tree_wf_def)
  let ?P = "\<lambda>e. \<not> f x (fst (snd e))"
  have run: "(assoc_rb_tree_front t \<bind> (\<lambda>first. find_if_rb_tree t first (assoc_rb_tree_end t) x f)) =
      Some (first_ref (t_dummy t) (dropWhile ?P (entries T)))"
    by (rule find_if_front [OF T(1)])
  have mem: "snd ` set (entries T) = (\<lambda>p. (fst p, Some (snd p))) ` X"
    using arg_cong [OF T(2), of set] ps(2) by simp
  obtain D where D: "dropWhile ?P (entries T) = D" by blast
  show ?thesis
  proof (cases D)
    case Nil
    then have "\<forall>e \<in> set (entries T). ?P e" using D by (simp add: dropWhile_eq_Nil_conv)
    then have "\<forall>q \<in> snd ` set (entries T). \<not> f x (fst q)" by simp
    then have "\<forall>p \<in> X. \<not> f x (fst p)" unfolding mem by simp
    moreover have "first_ref (t_dummy t) D = assoc_rb_tree_end t" using Nil by (simp add: assoc_rb_tree_end_def)
    ultimately show ?thesis using run miss unfolding D by simp
  next
    case (Cons e es)
    have "\<not> ?P e" using hd_dropWhile [of ?P "entries T"] D Cons by simp
    have split: "entries T = takeWhile ?P (entries T) @ e # es" using takeWhile_dropWhile_id [of ?P "entries T"] unfolding D Cons by simp
    then have "snd e \<in> snd ` set (entries T)" by (metis image_eqI in_set_conv_decomp)
    then obtain p where p: "p \<in> X" "snd e = (fst p, Some (snd p))" unfolding mem by blast
    note it = iterator [OF T(1) split]
    have "first_ref (t_dummy t) D = fst e" by (simp add: Cons)
    then show ?thesis using hit [of "fst e" p] run it p \<open>\<not> ?P e\<close> unfolding D by simp
  qed
qed

text \<open>An insertion into one tree, and a removal from it.\<close>

lemma insort_pairs: "\<exists>rs. insort_key cmp a (Some b) (pairs ps) = pairs rs \<and> mset rs = add_mset (a, b) (mset ps)"
proof -
  let ?P = "\<lambda>p. cmp a (fst p) \<noteq> 1"
  have "insort_key cmp a (Some b) (pairs ps) = pairs (takeWhile ?P ps @ (a, b) # dropWhile ?P ps)"
    by (simp add: insort_key_def takeWhile_map dropWhile_map comp_def)
  moreover have "mset (takeWhile ?P ps) + mset (dropWhile ?P ps) = mset ps" by (simp flip: mset_append)
  then have "mset (takeWhile ?P ps @ (a, b) # dropWhile ?P ps) = add_mset (a, b) (mset ps)" by simp
  ultimately show ?thesis by blast
qed

lemma mset_add_new:
  assumes "mset rs = add_mset x (mset ps)" and "distinct ps" and "x \<notin> set ps"
  shows "distinct rs" "set rs = insert x (set ps)"
proof -
  have "mset rs = mset (x # ps)" using assms(1) by simp
  then show "distinct rs" "set rs = insert x (set ps)"
    using assms(2,3) mset_eq_imp_distinct_iff [of rs "x # ps"] mset_eq_setD [of rs "x # ps"] by auto
qed

context three_way
begin

lemma rel_insert:
  assumes "tree_rel valid cmp sz t X" and "valid k" and "(k, v) \<notin> X" and "z \<noteq> NULL" and "t_heap t z = None"
  shows "\<exists>t'. assoc_rb_tree_insert t z k sz (Some v) = Some t' \<and> tree_rel valid cmp sz t' (insert (k, v) X)"
proof -
  obtain ps where ps: "t_comp t = cmp" "t_key_sz t = sz" "0 < sz" "tree_holds t (pairs ps)" "sorted_keys valid cmp (pairs ps)"
    "distinct ps" "set ps = X"
    using assms(1) by (auto simp: tree_rel_def)
  obtain rs where rs: "insort_key cmp k (Some v) (pairs ps) = pairs rs" "mset rs = add_mset (k, v) (mset ps)"
    using insort_pairs [of cmp k v ps] by blast
  obtain t' where t': "assoc_rb_tree_insert t z k sz (Some v) = Some t'" "tree_holds t' (pairs rs)" "same_type t t'"
    using insert_holds [OF ps(4,1,5) assms(2,4,5), of "Some v"] ps(2) rs(1) by auto
  have "sorted_keys valid cmp (pairs rs)" using sorted_insort_key [OF ps(5) assms(2), of "Some v"] rs(1) by simp
  then have "tree_rel valid cmp sz t' (insert (k, v) X)"
    using t' ps mset_add_new [OF rs(2) ps(6)] assms(3) unfolding tree_rel_def same_type_def by auto
  then show ?thesis using t'(1) by blast
qed

lemma rel_extract:
  assumes "tree_rel valid cmp sz t X" and "valid k" and "p \<in> X" and "same k (fst p)"
  shows "\<exists>k' v t'. (k', v) \<in> X \<and> same k k' \<and> assoc_rb_tree_extract t k = Some (Some v, t') \<and>
    tree_rel valid cmp sz t' (X - {(k', v)})"
proof -
  obtain ps where ps: "t_comp t = cmp" "t_key_sz t = sz" "0 < sz" "tree_holds t (pairs ps)" "sorted_keys valid cmp (pairs ps)"
    "distinct ps" "set ps = X"
    using assms(1) by (auto simp: tree_rel_def)
  have "cmp k (fst p) = 0" using zero [OF assms(2) tree_rel_valid [OF assms(1,3)]] assms(4) by simp
  then have "\<exists>e \<in> set (pairs ps). cmp k (fst e) = 0" using assms(3) ps(7) by auto
  from extract_holds [OF ps(4,1,5) assms(2) this] obtain ys k' w zs t' where
    t': "pairs ps = ys @ (k', w) # zs" "cmp k k' = 0" "assoc_rb_tree_extract t k = Some (w, t')" "tree_holds t' (ys @ zs)" "same_type t t'"
    by blast
  from t'(1) obtain us q vs where us: "ps = us @ q # vs" "ys = pairs us" "(k', w) = (fst q, Some (snd q))" "zs = pairs vs"
    by (auto simp: map_eq_append_conv map_eq_Cons_conv)
  have "distinct (us @ vs)" "set (us @ vs) = X - {q}" "q \<in> X" using ps(6,7) us(1) by auto
  moreover have "sorted_keys valid cmp (pairs (us @ vs))" using sorted_remove [of "pairs us" "(k', w)" "pairs vs"] ps(5) us by simp
  moreover have "same k k'" using t'(2) zero [OF assms(2), of k'] tree_rel_valid [OF assms(1), of q] \<open>q \<in> X\<close> us(3) by simp
  ultimately show ?thesis
    using t' us ps(1-3) unfolding tree_rel_def same_type_def
    by (intro exI [of _ k'] exI [of _ "snd q"] exI [of _ t'] conjI) (auto intro!: exI [of _ "us @ vs"])
qed

lemma rel_extract_miss:
  assumes "tree_rel valid cmp sz t X" and "valid k" and "\<forall>p \<in> X. \<not> same k (fst p)"
  shows "assoc_rb_tree_extract t k = None"
proof -
  obtain ps where ps: "t_comp t = cmp" "tree_holds t (pairs ps)" "sorted_keys valid cmp (pairs ps)" "set ps = X"
    using assms(1) by (auto simp: tree_rel_def)
  have "cmp k (fst p) \<noteq> 0" if "p \<in> X" for p using zero [OF assms(2) tree_rel_valid [OF assms(1) that]] assms(3) that by blast
  then have "\<forall>e \<in> set (pairs ps). cmp k (fst e) \<noteq> 0" using ps(4) by auto
  then show ?thesis by (rule extract_miss [OF ps(2,1,3) assms(2)])
qed

end

section \<open>The map\<close>

definition bi_rel :: "('a \<Rightarrow> bool) \<Rightarrow> ('a \<Rightarrow> 'a \<Rightarrow> int) \<Rightarrow> nat \<Rightarrow> ('b \<Rightarrow> bool) \<Rightarrow> ('b \<Rightarrow> 'b \<Rightarrow> int) \<Rightarrow> nat \<Rightarrow> ('a, 'b) bi_map \<Rightarrow>
    ('a \<times> 'b) set \<Rightarrow> bool" where
  "bi_rel valid1 cmp1 sz1 valid2 cmp2 sz2 m P \<longleftrightarrow>
     tree_rel valid1 cmp1 sz1 (b_left m) P \<and> tree_rel valid2 cmp2 sz2 (b_right m) (converse P)"

text \<open>No two entries have the same first key, and none of them the same second key.\<close>

definition left_unique :: "('a \<Rightarrow> 'a \<Rightarrow> bool) \<Rightarrow> ('a \<times> 'b) set \<Rightarrow> bool" where
  "left_unique same P \<longleftrightarrow> (\<forall>p \<in> P. \<forall>q \<in> P. same (fst p) (fst q) \<longrightarrow> p = q)"

definition right_unique :: "('b \<Rightarrow> 'b \<Rightarrow> bool) \<Rightarrow> ('a \<times> 'b) set \<Rightarrow> bool" where
  "right_unique same P \<longleftrightarrow> left_unique same (converse P)"

lemma left_uniqueD:
  assumes "left_unique same P" and "(a, b) \<in> P" and "(a', b') \<in> P" and "same a a'"
  shows "a' = a" "b' = b"
proof -
  have "(a, b) = (a', b')" using assms unfolding left_unique_def by (metis fst_conv)
  then show "a' = a" "b' = b" by simp_all
qed

lemma right_uniqueD:
  assumes "right_unique same P" and "(a, b) \<in> P" and "(a', b') \<in> P" and "same b b'"
  shows "b' = b" "a' = a"
  using left_uniqueD [of same "converse P" b a b' a'] assms by (simp_all add: right_unique_def)

lemma bi_rel_init:
  assumes "0 < sz1" and "0 < sz2" and "d1 \<noteq> NULL" and "d2 \<noteq> NULL"
  shows "\<exists>m. bi_map_init d1 d2 sz1 sz2 cmp1 cmp2 = Some m \<and> bi_rel valid1 cmp1 sz1 valid2 cmp2 sz2 m {}"
proof -
  obtain l :: "('a, 'b) assoc_rb_tree" and r :: "('b, 'a) assoc_rb_tree" where
    "assoc_rb_tree_init d1 sz1 cmp1 = Some l" "tree_rel valid1 cmp1 sz1 l {}"
    "assoc_rb_tree_init d2 sz2 cmp2 = Some r" "tree_rel valid2 cmp2 sz2 r {}"
    using tree_rel_init [OF assms(1,3)] tree_rel_init [OF assms(2,4)] by blast
  then show ?thesis using assms(1,2) by (simp add: bi_map_init_def bi_rel_def)
qed

lemma bi_map_size_rel: "bi_rel valid1 cmp1 sz1 valid2 cmp2 sz2 m P \<Longrightarrow> bi_map_size m = Some (card P)"
  by (auto simp: bi_rel_def bi_map_size_def card_inverse dest!: tree_rel_size)

locale bi_order = l: three_way valid1 cmp1 same1 + r: three_way valid2 cmp2 same2
  for valid1 :: "'a \<Rightarrow> bool" and cmp1 same1 and valid2 :: "'b \<Rightarrow> bool" and cmp2 same2
begin

lemma bi_map_insert:
  assumes "bi_rel valid1 cmp1 sz1 valid2 cmp2 sz2 m P" and "valid1 a" and "valid2 b" and "(a, b) \<notin> P"
    and "z1 \<noteq> NULL" and "t_heap (b_left m) z1 = None" and "z2 \<noteq> NULL" and "t_heap (b_right m) z2 = None"
  shows "\<exists>m'. bi_map_insert m z1 z2 a sz1 b sz2 = Some m' \<and> bi_rel valid1 cmp1 sz1 valid2 cmp2 sz2 m' (insert (a, b) P)"
proof -
  have P: "tree_rel valid1 cmp1 sz1 (b_left m) P" "tree_rel valid2 cmp2 sz2 (b_right m) (converse P)" "(b, a) \<notin> converse P"
    using assms(1,4) by (simp_all add: bi_rel_def)
  have sz: "0 < sz1" "0 < sz2" using P by (simp_all add: tree_rel_def)
  obtain l r where lr: "assoc_rb_tree_insert (b_left m) z1 a sz1 (Some b) = Some l" "tree_rel valid1 cmp1 sz1 l (insert (a, b) P)"
    "assoc_rb_tree_insert (b_right m) z2 b sz2 (Some a) = Some r" "tree_rel valid2 cmp2 sz2 r (insert (b, a) (converse P))"
    using l.rel_insert [OF P(1) assms(2,4-6)] r.rel_insert [OF P(2) assms(3) P(3) assms(7,8)] by blast
  have "converse (insert (a, b) P) = insert (b, a) (converse P)" by auto
  then show ?thesis using lr sz by (simp add: bi_map_insert_def bi_rel_def)
qed

lemma bi_map_extract_right:
  assumes "bi_rel valid1 cmp1 sz1 valid2 cmp2 sz2 m P" and "left_unique same1 P" and "valid2 b" and "p \<in> P" and "same2 b (snd p)"
  shows "\<exists>a b' m'. (a, b') \<in> P \<and> same2 b b' \<and> bi_map_extract_right m b sz2 = Some (a, m') \<and>
    bi_rel valid1 cmp1 sz1 valid2 cmp2 sz2 m' (P - {(a, b')})"
proof -
  have P: "tree_rel valid1 cmp1 sz1 (b_left m) P" "tree_rel valid2 cmp2 sz2 (b_right m) (converse P)"
    using assms(1) by (simp_all add: bi_rel_def)
  have sz: "t_key_sz (b_right m) = sz2" "t_comp (b_right m) = cmp2" using P(2) by (simp_all add: tree_rel_def)
  have "prod.swap p \<in> converse P" "same2 b (fst (prod.swap p))" using assms(4,5) by (cases p; simp)+
  from r.rel_extract [OF P(2) assms(3) this] obtain b' a r' where
    r: "(b', a) \<in> converse P" "same2 b b'" "assoc_rb_tree_extract (b_right m) b = Some (Some a, r')"
    "tree_rel valid2 cmp2 sz2 r' (converse P - {(b', a)})"
    by blast
  have a: "(a, b') \<in> P" "valid1 a" "valid2 b'" using r(1) tree_rel_valid [OF P(1), of "(a, b')"] tree_rel_valid [OF P(2), of "(b', a)"] by auto
  have "same1 a a" using l.zero [OF a(2,2)] l.anti [OF a(2,2)] by simp
  then obtain a' c l' where l: "(a', c) \<in> P" "same1 a a'" "assoc_rb_tree_extract (b_left m) a = Some (Some c, l')"
    "tree_rel valid1 cmp1 sz1 l' (P - {(a', c)})"
    using l.rel_extract [OF P(1) a(2,1)] by auto
  have c: "a' = a" "c = b'" using left_uniqueD [OF assms(2) a(1) l(1,2)] by simp_all
  have "cmp2 b b' = 0" using r.zero [OF assms(3) a(3)] r(2) by simp
  moreover have "converse (P - {(a, b')}) = converse P - {(b', a)}" by auto
  moreover have "assoc_rb_tree_size l' = assoc_rb_tree_size r'"
    using tree_rel_size [OF l(4)] tree_rel_size [OF r(4)] c calculation(2) card_inverse [of "P - {(a, b')}"] by simp
  moreover have "t_comp r' = cmp2" using r(4) by (simp add: tree_rel_def)
  ultimately show ?thesis
    using l r a(1) c sz
    by (intro exI [of _ a] exI [of _ b'] exI [of _ "m\<lparr>b_right := r', b_left := l'\<rparr>"])
      (simp add: bi_map_extract_right_def bi_rel_def)
qed

lemma bi_map_extract_right_miss:
  assumes "bi_rel valid1 cmp1 sz1 valid2 cmp2 sz2 m P" and "valid2 b" and "\<forall>p \<in> P. \<not> same2 b (snd p)"
  shows "bi_map_extract_right m b sz2 = None"
proof -
  have "tree_rel valid2 cmp2 sz2 (b_right m) (converse P)" using assms(1) by (simp add: bi_rel_def)
  moreover have "\<forall>p \<in> converse P. \<not> same2 b (fst p)" using assms(3) by auto
  ultimately have "assoc_rb_tree_extract (b_right m) b = None" using r.rel_extract_miss assms(2) by blast
  then show ?thesis by (simp add: bi_map_extract_right_def c_assert_def)
qed

text \<open>From the left the operation depends on what the comparison reads.\<close>

lemma bi_map_extract_left:
  assumes "bi_rel valid1 cmp1 sz1 valid2 cmp2 sz2 m P" and "right_unique same2 P" and "valid1 a" and "p \<in> P" and "same1 a (fst p)"
  shows "\<exists>a' b. (a', b) \<in> P \<and> same1 a a' \<and>
    (case cast b of
       None \<Rightarrow> bi_map_extract_left cast m a sz1 = None
     | Some x \<Rightarrow>
         if cmp1 x a' = 0
         then \<exists>m'. bi_map_extract_left cast m a sz1 = Some (b, m') \<and> bi_rel valid1 cmp1 sz1 valid2 cmp2 sz2 m' (P - {(a', b)})
         else bi_map_extract_left cast m a sz1 = None)"
proof -
  have P: "tree_rel valid1 cmp1 sz1 (b_left m) P" "tree_rel valid2 cmp2 sz2 (b_right m) (converse P)"
    using assms(1) by (simp_all add: bi_rel_def)
  have sz: "t_key_sz (b_left m) = sz1" "t_comp (b_left m) = cmp1" using P(1) by (simp_all add: tree_rel_def)
  from l.rel_extract [OF P(1) assms(3-5)] obtain a' b l' where
    l: "(a', b) \<in> P" "same1 a a'" "assoc_rb_tree_extract (b_left m) a = Some (Some b, l')"
    "tree_rel valid1 cmp1 sz1 l' (P - {(a', b)})"
    by blast
  have b: "(b, a') \<in> converse P" "valid2 b" using l(1) tree_rel_valid [OF P(2), of "(b, a')"] by auto
  have "same2 b b" using r.zero [OF b(2,2)] r.anti [OF b(2,2)] by simp
  then obtain b' c r' where r: "(b', c) \<in> converse P" "same2 b b'" "assoc_rb_tree_extract (b_right m) b = Some (Some c, r')"
    "tree_rel valid2 cmp2 sz2 r' (converse P - {(b', c)})"
    using r.rel_extract [OF P(2) b(2,1)] by auto
  have c: "b' = b" "c = a'" using right_uniqueD [OF assms(2) l(1) _ r(2)] r(1) by simp_all
  have conv: "converse (P - {(a', b)}) = converse P - {(b, a')}" by auto
  then have "assoc_rb_tree_size l' = assoc_rb_tree_size r'"
    using tree_rel_size [OF l(4)] tree_rel_size [OF r(4)] c card_inverse [of "P - {(a', b)}"] by simp
  moreover have "t_comp l' = cmp1" using l(4) by (simp add: tree_rel_def)
  ultimately have "bi_map_extract_left cast m a sz1 = (case cast b of None \<Rightarrow> None
      | Some x \<Rightarrow> if cmp1 x a' = 0 then Some (b, m\<lparr>b_left := l', b_right := r'\<rparr>) else None)"
    using l r c sz by (simp add: bi_map_extract_left_def c_assert_def split: option.split)
  then show ?thesis
    using l r c conv
    by (intro exI [of _ a'] exI [of _ b]) (auto simp: bi_rel_def split: option.split)
qed

text \<open>Without the uniqueness: the pair that is found on the right may be another one with the same second key.\<close>

lemma bi_map_extract_left_found:
  assumes "bi_rel valid1 cmp1 sz1 valid2 cmp2 sz2 m P" and "valid1 a" and "p \<in> P" and "same1 a (fst p)"
    and "bi_map_extract_left cast m a sz1 = Some (k, m')"
  shows "\<exists>a' c b b'. (a', b) \<in> P \<and> same1 a a' \<and> (c, b') \<in> P \<and> same2 b b' \<and> (\<exists>x. cast b = Some x \<and> cmp1 x c = 0)"
proof -
  have P: "tree_rel valid1 cmp1 sz1 (b_left m) P" "tree_rel valid2 cmp2 sz2 (b_right m) (converse P)"
    using assms(1) by (simp_all add: bi_rel_def)
  from l.rel_extract [OF P(1) assms(2-4)] obtain a' b l' where
    l: "(a', b) \<in> P" "same1 a a'" "assoc_rb_tree_extract (b_left m) a = Some (Some b, l')" "t_comp l' = cmp1"
    by (auto simp: tree_rel_def)
  have b: "(b, a') \<in> converse P" "valid2 b" using l(1) tree_rel_valid [OF P(2), of "(b, a')"] by auto
  have "same2 b b" using r.zero [OF b(2,2)] r.anti [OF b(2,2)] by simp
  then obtain b' c r' where r: "(b', c) \<in> converse P" "same2 b b'" "assoc_rb_tree_extract (b_right m) b = Some (Some c, r')"
    using r.rel_extract [OF P(2) b(2,1)] by auto
  have "\<exists>x. cast b = Some x \<and> cmp1 x c = 0"
    using assms(5) l(3,4) r(3) by (auto simp: bi_map_extract_left_def c_assert_def bind_eq_Some_conv split: if_splits)
  then show ?thesis using l(1,2) r(1,2) by blast
qed

end

section \<open>The searches\<close>

text \<open>The left search compares with the end of the iterators; with \<open>bi_map_end_left\<close> it stops where it starts.\<close>

lemma find_if_bi_map_left_rb:
  "find_if_bi_map_left m start_it end_it x f = find_if_rb_tree (b_left m) start_it end_it x f" if "heap_tree (b_left m) T"
    "entries T = xs @ ys" "start_it = first_ref (t_dummy (b_left m)) ys" "end_it = assoc_rb_tree_end (b_left m)"
  using that(2,3)
proof (induction ys arbitrary: xs start_it)
  case Nil
  then show ?case
    using that(4) by (simp add: find_if_bi_map_left.simps find_if_rb_tree.simps assoc_rb_tree_end_def)
next
  case (Cons e ys)
  note i = iterator [OF that(1) Cons.prems(1)]
  have "find_if_bi_map_left m (first_ref (t_dummy (b_left m)) ys) end_it x f =
      find_if_rb_tree (b_left m) (first_ref (t_dummy (b_left m)) ys) end_it x f"
    using Cons.IH [of "xs @ [e]"] Cons.prems(1) by simp
  then show ?case
    using i Cons.prems(2) that(4)
    by (subst find_if_bi_map_left.simps, subst find_if_rb_tree.simps) (simp add: bi_map_next_left_def)
qed

lemma find_if_bi_map_left_end: "bi_map_front_left m = Some it \<Longrightarrow> bi_map_end_left m = Some e \<Longrightarrow> find_if_bi_map_left m it e x f = Some it"
  by (simp add: bi_map_front_left_def bi_map_end_left_def find_if_bi_map_left.simps)

section \<open>Properties\<close>

text \<open>C19: Removing from the right takes one pair with an equal second key out of both trees and returns its first key; the two
  trees stay inverse to each other, ordered and of the same size. Without such a pair the assertion fails.\<close>

theorem bi_map_extract_right_refines:
  assumes "three_way valid1 cmp1 same1" and "three_way valid2 cmp2 same2" and "bi_rel valid1 cmp1 sz1 valid2 cmp2 sz2 m P"
    and "left_unique same1 P" and "valid2 b"
  shows "if \<exists>p \<in> P. same2 b (snd p)
    then \<exists>a b' m'. (a, b') \<in> P \<and> same2 b b' \<and> bi_map_extract_right m b sz2 = Some (a, m') \<and>
      bi_rel valid1 cmp1 sz1 valid2 cmp2 sz2 m' (P - {(a, b')})
    else bi_map_extract_right m b sz2 = None"
proof -
  note o = bi_order.intro [OF assms(1,2)]
  show ?thesis
    using bi_order.bi_map_extract_right [OF o assms(3-5)] bi_order.bi_map_extract_right_miss [OF o assms(3,5)]
    by (cases "\<exists>p \<in> P. same2 b (snd p)") auto
qed

text \<open>Removing from the left compares the removed second key, an object of another type, with the comparison of the first
  keys: it works exactly when that object, read as a first key, happens to compare as equal to the first key.\<close>

theorem bi_map_extract_left_cast:
  assumes "three_way valid1 cmp1 same1" and "three_way valid2 cmp2 same2" and "bi_rel valid1 cmp1 sz1 valid2 cmp2 sz2 m P"
    and "right_unique same2 P" and "valid1 a" and "p \<in> P" and "same1 a (fst p)"
  shows "\<exists>a' b. (a', b) \<in> P \<and> same1 a a' \<and>
    (case cast b of
       None \<Rightarrow> bi_map_extract_left cast m a sz1 = None
     | Some x \<Rightarrow>
         if cmp1 x a' = 0
         then \<exists>m'. bi_map_extract_left cast m a sz1 = Some (b, m') \<and> bi_rel valid1 cmp1 sz1 valid2 cmp2 sz2 m' (P - {(a', b)})
         else bi_map_extract_left cast m a sz1 = None)"
  by (rule bi_order.bi_map_extract_left [OF bi_order.intro [OF assms(1,2)] assms(3-7)])

end
