(* ===== verification/PendingXapp.thy ===== *)
theory PendingXapp
  imports BiMap begin

text \<open>
  The pending events of an xApp, \<^verbatim>\<open>xApp/pending_event_xapp.c\<close>: timers and the requests they guard, in a bidirectional map.
  Every operation holds the mutex from its beginning, so each is one step.
\<close>

section \<open>The code\<close>

type_synonym pending_event_xapp_ds = "(int, pending_event_xapp) bi_map"

abbreviation "FD_SZ \<equiv> (4 :: nat)"
abbreviation "PENDING_XAPP_SZ \<equiv> (16 :: nat)"

abbreviation cmp_fd_key :: "int \<Rightarrow> int \<Rightarrow> int" where
  "cmp_fd_key a b \<equiv> the (cmp_fd a b)"

definition init_pending_events :: "ref \<Rightarrow> ref \<Rightarrow> pending_event_xapp_ds option" where
  "init_pending_events d1 d2 = bi_map_init d1 d2 FD_SZ PENDING_XAPP_SZ cmp_fd_key cmp_xapp_ev"

text \<open>The functions that free the entries of the two trees check the keys.\<close>

definition free_fd :: "int option \<times> 'v option \<Rightarrow> unit option" where
  "free_fd kv = do {
     fd \<leftarrow> fst kv;
     v \<leftarrow> snd kv;
     c_assert (fd > 0)
   }"

definition free_pending_ev :: "pending_event_xapp option \<times> 'v option \<Rightarrow> unit option" where
  "free_pending_ev kv = do {
     ev \<leftarrow> fst kv;
     v \<leftarrow> snd kv;
     ok \<leftarrow> valid_pending_event (px_ev ev);
     c_assert ok
   }"

definition free_pending_events :: "pending_event_xapp_ds \<Rightarrow> pending_event_xapp_ds option" where
  "free_pending_events p = do {
     (fs, gs, p) \<leftarrow> bi_map_free p;
     c_assert (\<forall>kv \<in> set fs. free_fd kv \<noteq> None);
     c_assert (\<forall>kv \<in> set gs. free_pending_ev kv \<noteq> None);
     Some p
   }"

definition add_pending_event :: "pending_event_xapp_ds \<Rightarrow> ref \<Rightarrow> ref \<Rightarrow> int \<Rightarrow> pending_event_xapp \<Rightarrow> pending_event_xapp_ds option" where
  "add_pending_event p z1 z2 fd ev = do {
     c_assert (fd > 0);
     bi_map_insert p z1 z2 fd FD_SZ ev PENDING_XAPP_SZ
   }"

definition eq_int :: "int \<Rightarrow> int \<Rightarrow> bool" where
  "eq_int m0 m1 \<longleftrightarrow> m0 = m1"

definition find_pending_event_fd :: "pending_event_xapp_ds \<Rightarrow> int \<Rightarrow> bool option" where
  "find_pending_event_fd p fd = do {
     c_assert (fd > 0);
     let map_l = b_left p;
     it \<leftarrow> assoc_rb_tree_front map_l;
     let end_it = assoc_rb_tree_end map_l;
     it \<leftarrow> find_if_rb_tree map_l it end_it fd eq_int;
     Some (it \<noteq> end_it)
   }"

text \<open>\<open>as_ev\<close> is what a node is when it is read as an event: the bytes of its pointer to the key, and so on.\<close>

definition find_pending_event_ev ::
    "((pending_event_xapp, int) assoc_node \<Rightarrow> pending_event_xapp) \<Rightarrow> pending_event_xapp_ds \<Rightarrow> pending_event_xapp \<Rightarrow> bool option" where
  "find_pending_event_ev as_ev p ev = do {
     it \<leftarrow> bi_map_front_right p;
     let end_it = bi_map_end_right p;
     it \<leftarrow> find_if_bi_map_right p it end_it ev (\<lambda>m0 m1. eq_pending_event_xapp m0 (as_ev m1));
     Some (it \<noteq> end_it)
   }"

definition rm_pending_event_ev :: "pending_event_xapp_ds \<Rightarrow> pending_event_xapp \<Rightarrow> (int \<times> pending_event_xapp_ds) option" where
  "rm_pending_event_ev p ev = do {
     sz \<leftarrow> bi_map_size p;
     (fd, p) \<leftarrow> bi_map_extract_right p ev PENDING_XAPP_SZ;
     sz' \<leftarrow> bi_map_size p;
     c_assert (sz = sz' + 1);
     c_assert (fd > 0);
     Some (fd, p)
   }"

text \<open>An event that is read as a file descriptor is its first member; \<^verbatim>\<open>cmp_fd\<close> stops on \<open>0\<close>.\<close>

definition ev_as_fd :: "pending_event_xapp \<Rightarrow> int option" where
  "ev_as_fd ev = (let fd = int (pending_val (px_ev ev)) in if fd > 0 then Some fd else None)"

definition rm_pending_event_fd :: "pending_event_xapp_ds \<Rightarrow> int \<Rightarrow> pending_event_xapp_ds option" where
  "rm_pending_event_fd p fd = do {
     c_assert (fd > 0);
     (ev, p) \<leftarrow> bi_map_extract_left ev_as_fd p fd FD_SZ;
     Some p
   }"

section \<open>What is pending\<close>

definition pending_rel :: "pending_event_xapp_ds \<Rightarrow> (int \<times> pending_event_xapp) set \<Rightarrow> bool" where
  "pending_rel p P \<longleftrightarrow> bi_rel (\<lambda>fd. 0 < fd) cmp_fd_key FD_SZ (\<lambda>_. True) cmp_xapp_ev PENDING_XAPP_SZ p P \<and> inj_on fst P"

lemma eq_fd_pos: "0 < a \<Longrightarrow> 0 < b \<Longrightarrow> eq_fd a b = Some True \<longleftrightarrow> a = b"
  by (simp add: eq_fd_def)

lemma left_unique_fd:
  assumes "inj_on fst P" and "\<And>p. p \<in> P \<Longrightarrow> 0 < fst p"
  shows "left_unique (\<lambda>a b. eq_fd a b = Some True) P"
  using assms by (auto simp: left_unique_def eq_fd_pos inj_on_def)

lemma pending_relD:
  assumes "pending_rel p P"
  shows "left_unique (\<lambda>a b. eq_fd a b = Some True) P" "finite P" "q \<in> P \<Longrightarrow> 0 < fst q"
proof -
  have t: "tree_rel (\<lambda>fd. 0 < fd) cmp_fd_key FD_SZ (b_left p) P" and i: "inj_on fst P"
    using assms by (simp_all add: pending_rel_def bi_rel_def)
  show "q \<in> P \<Longrightarrow> 0 < fst q" "finite P" using tree_rel_valid [OF t] tree_rel_finite [OF t] by auto
  show "left_unique (\<lambda>a b. eq_fd a b = Some True) P" using left_unique_fd [OF i] tree_rel_valid [OF t] by auto
qed

interpretation pend_map: bi_order "\<lambda>fd. 0 < fd" cmp_fd_key "\<lambda>a b. eq_fd a b = Some True" "\<lambda>_. True" cmp_xapp_ev "\<lambda>a b. px_ev a = px_ev b"
  ..

lemma init_pending: "d1 \<noteq> NULL \<Longrightarrow> d2 \<noteq> NULL \<Longrightarrow> \<exists>p. init_pending_events d1 d2 = Some p \<and> pending_rel p {}"
  using bi_rel_init [of FD_SZ PENDING_XAPP_SZ d1 d2 cmp_fd_key cmp_xapp_ev] by (auto simp: init_pending_events_def pending_rel_def)

lemma add_pending:
  assumes "pending_rel p P" and "0 < fd" and "fd \<notin> fst ` P" and "z1 \<noteq> NULL" and "t_heap (b_left p) z1 = None" and "z2 \<noteq> NULL"
    and "t_heap (b_right p) z2 = None"
  shows "\<exists>p'. add_pending_event p z1 z2 fd ev = Some p' \<and> pending_rel p' (insert (fd, ev) P)"
proof -
  have "(fd, ev) \<notin> P" using assms(3) by force
  from pend_map.bi_map_insert [OF _ assms(2) _ this assms(4-7)] assms(1,2,3) show ?thesis
    by (auto simp: add_pending_event_def pending_rel_def image_iff)
qed

lemma find_pending_fd:
  assumes "pending_rel p P" and "0 < fd"
  shows "find_pending_event_fd p fd = Some (fd \<in> fst ` P)"
proof -
  have t: "tree_rel (\<lambda>fd. 0 < fd) cmp_fd_key FD_SZ (b_left p) P" using assms by (simp add: pending_rel_def bi_rel_def)
  have run: "find_pending_event_fd p fd = ((assoc_rb_tree_front (b_left p) \<bind>
      (\<lambda>first. find_if_rb_tree (b_left p) first (assoc_rb_tree_end (b_left p)) fd eq_int)) \<bind>
      (\<lambda>it. Some (it \<noteq> assoc_rb_tree_end (b_left p))))"
    using assms(2) by (simp add: find_pending_event_fd_def Let_def Option.bind_assoc)
  show ?thesis
    by (rule tree_rel_find [OF t, of fd eq_int]) (unfold run, auto simp: eq_int_def image_iff)
qed

lemma rm_pending_ev:
  assumes "pending_rel p P" and "q \<in> P" and "px_ev (snd q) = px_ev ev"
  shows "\<exists>fd ev' p'. (fd, ev') \<in> P \<and> px_ev ev' = px_ev ev \<and> rm_pending_event_ev p ev = Some (fd, p') \<and>
    pending_rel p' (P - {(fd, ev')})"
proof -
  have b: "bi_rel (\<lambda>fd. 0 < fd) cmp_fd_key FD_SZ (\<lambda>_. True) cmp_xapp_ev PENDING_XAPP_SZ p P" and i: "inj_on fst P"
    using assms(1) by (simp_all add: pending_rel_def)
  from pend_map.bi_map_extract_right [OF b pending_relD(1) [OF assms(1)] TrueI assms(2), of ev] assms(3)
  obtain fd ev' p' where e: "(fd, ev') \<in> P" "px_ev ev = px_ev ev'" "bi_map_extract_right p ev PENDING_XAPP_SZ = Some (fd, p')"
    "bi_rel (\<lambda>fd. 0 < fd) cmp_fd_key FD_SZ (\<lambda>_. True) cmp_xapp_ev PENDING_XAPP_SZ p' (P - {(fd, ev')})"
    by auto
  have "0 < fd" "finite P" using pending_relD [OF assms(1)] e(1) by auto
  moreover have "card P = card (P - {(fd, ev')}) + 1" using card.remove [OF \<open>finite P\<close> e(1)] by simp
  ultimately have "rm_pending_event_ev p ev = Some (fd, p')"
    using e(3) bi_map_size_rel [OF b] bi_map_size_rel [OF e(4)] by (simp add: rm_pending_event_ev_def)
  then show ?thesis using e i by (auto simp: pending_rel_def intro: inj_on_subset)
qed

lemma rm_pending_ev_miss:
  assumes "pending_rel p P" and "\<forall>q \<in> P. px_ev (snd q) \<noteq> px_ev ev"
  shows "rm_pending_event_ev p ev = None"
proof -
  have "\<forall>q \<in> P. px_ev ev \<noteq> px_ev (snd q)" using assms(2) by metis
  then have "bi_map_extract_right p ev PENDING_XAPP_SZ = None"
    using pend_map.bi_map_extract_right_miss [of FD_SZ PENDING_XAPP_SZ p P ev] assms(1) by (simp add: pending_rel_def)
  then show ?thesis by (simp add: rm_pending_event_ev_def bind_eq_None_conv)
qed

section \<open>A concrete map\<close>

text \<open>Two subscription requests wait for their responses, the second one with another identifier.\<close>

definition sub_ev :: "u32 \<Rightarrow> pending_event_xapp" where
  "sub_ev req = \<lparr>px_ev = E42_RIC_SUBSCRIPTION_REQUEST_PENDING_EVENT,
     px_id = \<lparr>ric_req_id = req, ric_inst_id = 0, ran_func_id = 142\<rparr>, px_wait_ms = 3000\<rparr>"

definition pending1 :: "pending_event_xapp_ds option" where
  "pending1 = do {
     p \<leftarrow> init_pending_events 1 1;
     add_pending_event p 2 2 7 (sub_ev 1)
   }"

definition pending2 :: "pending_event_xapp_ds option" where
  "pending2 = do {
     p \<leftarrow> pending1;
     add_pending_event p 3 3 9 (sub_ev 2)
   }"

lemma pending1: "\<exists>p. pending1 = Some p \<and> pending_rel p {(7, sub_ev 1)}"
proof -
  obtain p where p: "init_pending_events 1 1 = Some p" "pending_rel p {}" using init_pending by force
  have "map_option (\<lambda>p. (t_heap (b_left p) 2, t_heap (b_right p) 2)) (init_pending_events 1 1) = Some (None, None)" by code_simp
  then have "t_heap (b_left p) 2 = None" "t_heap (b_right p) 2 = None" unfolding p(1) by simp_all
  from add_pending [OF p(2), of 7 2 2 "sub_ev 1"] this p(1) show ?thesis by (simp add: pending1_def)
qed

lemma pending2: "\<exists>p. pending2 = Some p \<and> pending_rel p {(7, sub_ev 1), (9, sub_ev 2)}"
proof -
  obtain p where p: "pending1 = Some p" "pending_rel p {(7, sub_ev 1)}" using pending1 by blast
  have "map_option (\<lambda>p. (t_heap (b_left p) 3, t_heap (b_right p) 3)) pending1 = Some (None, None)" by code_simp
  then have "t_heap (b_left p) 3 = None" "t_heap (b_right p) 3 = None" unfolding p(1) by simp_all
  from add_pending [OF p(2), of 9 3 3 "sub_ev 2"] this p(1) show ?thesis
    unfolding pending2_def p(1) by (simp add: insert_commute)
qed

text \<open>The response to the second one takes out the timer of the first.\<close>

lemma rm_pending_event_ev_wrong_timer: "map_option fst (pending2 \<bind> (\<lambda>p. rm_pending_event_ev p (sub_ev 2))) = Some 7"
  by code_simp

section \<open>Properties\<close>

text \<open>Each kind of event is pending at most once.\<close>

lemma rm_pending_fd_once:
  assumes "pending_rel p P" and "(fd, ev) \<in> P" and "inj_on (\<lambda>q. px_ev (snd q)) P"
  shows "rm_pending_event_fd p fd \<noteq> None \<longleftrightarrow> fd = int (pending_val (px_ev ev))"
proof -
  have b: "bi_rel (\<lambda>fd. 0 < fd) cmp_fd_key FD_SZ (\<lambda>_. True) cmp_xapp_ev PENDING_XAPP_SZ p P" and i: "inj_on fst P"
    using assms(1) by (simp_all add: pending_rel_def)
  have fd: "0 < fd" using pending_relD(3) [OF assms(1,2)] by simp
  have "right_unique (\<lambda>a b. px_ev a = px_ev b) P"
    using assms(3) unfolding right_unique_def left_unique_def inj_on_def by fastforce
  from pend_map.bi_map_extract_left [OF b this fd assms(2), of ev_as_fd] fd obtain fd' ev' where
    e: "(fd', ev') \<in> P" "eq_fd fd fd' = Some True" "case ev_as_fd ev' of
       None \<Rightarrow> bi_map_extract_left ev_as_fd p fd FD_SZ = None
     | Some x \<Rightarrow>
         if cmp_fd_key x fd' = 0
         then \<exists>m'. bi_map_extract_left ev_as_fd p fd FD_SZ = Some (ev', m') \<and>
           bi_rel (\<lambda>fd. 0 < fd) cmp_fd_key FD_SZ (\<lambda>_. True) cmp_xapp_ev PENDING_XAPP_SZ m' (P - {(fd', ev')})
         else bi_map_extract_left ev_as_fd p fd FD_SZ = None"
    by (auto simp: eq_fd_pos)
  have "fd' = fd" using e(2) fd by (auto simp: eq_fd_def split: if_splits)
  then have "ev' = ev" using i e(1) assms(2) by (force simp: inj_on_def)
  then show ?thesis
    using e(3) fd \<open>fd' = fd\<close>
    by (auto simp: rm_pending_event_fd_def ev_as_fd_def cmp_fd_def Let_def split: if_splits)
qed

text \<open>C34: \<^verbatim>\<open>rm_pending_event_fd\<close> stops the program on a pending timer, unless a timer of the same kind of event happens to
  have the number of this kind as its file descriptor: the comparison for file descriptors is applied to the event. When each
  kind is pending at most once, it returns exactly for the timer whose own descriptor is the number of its kind.\<close>

theorem rm_pending_event_fd_stops:
  assumes "pending_rel p P" and "(fd, ev) \<in> P"
  shows "(rm_pending_event_fd p fd \<noteq> None \<longrightarrow> (\<exists>q \<in> P. px_ev (snd q) = px_ev ev \<and> fst q = int (pending_val (px_ev ev)))) \<and>
    (inj_on (\<lambda>q. px_ev (snd q)) P \<longrightarrow> (rm_pending_event_fd p fd \<noteq> None \<longleftrightarrow> fd = int (pending_val (px_ev ev))))"
proof -
  have b: "bi_rel (\<lambda>fd. 0 < fd) cmp_fd_key FD_SZ (\<lambda>_. True) cmp_xapp_ev PENDING_XAPP_SZ p P" and i: "inj_on fst P"
    using assms(1) by (simp_all add: pending_rel_def)
  have fd: "0 < fd" using pending_relD(3) [OF assms(1,2)] by simp
  have "\<exists>q \<in> P. px_ev (snd q) = px_ev ev \<and> fst q = int (pending_val (px_ev ev))" if some: "rm_pending_event_fd p fd \<noteq> None"
  proof -
    obtain k p' where k: "bi_map_extract_left ev_as_fd p fd FD_SZ = Some (k, p')"
      using some by (auto simp: rm_pending_event_fd_def bind_eq_Some_conv split: if_splits)
    have "eq_fd fd (fst (fd, ev)) = Some True" using fd by (simp add: eq_fd_pos)
    from pend_map.bi_map_extract_left_found [OF b fd assms(2) this k] obtain fd' c e e' x where
      f: "(fd', e) \<in> P" "eq_fd fd fd' = Some True" "(c, e') \<in> P" "px_ev e = px_ev e'" "ev_as_fd e = Some x" "cmp_fd_key x c = 0"
      by blast
    have pos: "0 < fd'" "0 < c" using pending_relD(3) [OF assms(1)] f(1,3) by force+
    then have "fd' = fd" using f(2) fd by (simp add: eq_fd_pos)
    then have "e = ev" using inj_onD [OF i _ f(1) assms(2)] by simp
    moreover have "x = int (pending_val (px_ev e))" "0 < x" using f(5) by (auto simp: ev_as_fd_def Let_def split: if_splits)
    moreover have "x = c" using f(6) pos(2) \<open>0 < x\<close> by (auto simp: cmp_fd_def split: if_splits)
    ultimately show ?thesis using f(3,4) by (intro bexI [of _ "(c, e')"]) simp_all
  qed
  moreover have "rm_pending_event_fd p fd \<noteq> None \<longleftrightarrow> fd = int (pending_val (px_ev ev))" if "inj_on (\<lambda>q. px_ev (snd q)) P"
    using rm_pending_fd_once [OF assms that] .
  ultimately show ?thesis by blast
qed

lemma rm_pending_event_fd_stops_witness:
  "\<exists>p. pending1 = Some p \<and> rm_pending_event_fd p 7 = None"
proof -
  obtain p where p: "pending1 = Some p" "pending_rel p {(7, sub_ev 1)}" using pending1 by blast
  have "rm_pending_event_fd p 7 = None"
    using rm_pending_event_fd_stops [OF p(2), of 7 "sub_ev 1"] by (simp add: sub_ev_def)
  then show ?thesis using p(1) by blast
qed

text \<open>C39: \<^verbatim>\<open>rm_pending_event_ev\<close> takes out one timer that guards a request of the same kind; the identifier of the
  request does not count. Without a request of that kind it stops the program.\<close>

theorem rm_pending_event_ev_kind:
  assumes "pending_rel p P"
  shows "if \<exists>q \<in> P. px_ev (snd q) = px_ev ev
    then \<exists>fd ev' p'. (fd, ev') \<in> P \<and> px_ev ev' = px_ev ev \<and> rm_pending_event_ev p ev = Some (fd, p') \<and>
      pending_rel p' (P - {(fd, ev')})
    else rm_pending_event_ev p ev = None"
  using rm_pending_ev [OF assms] rm_pending_ev_miss [OF assms] by auto


lemma rm_pending_event_ev_kind_witness:
  "\<exists>p fd p'. pending2 = Some p \<and> rm_pending_event_ev p (sub_ev 2) = Some (fd, p') \<and> fd \<in> {7, 9}"
proof -
  obtain p where p: "pending2 = Some p" "pending_rel p {(7, sub_ev 1), (9, sub_ev 2)}" using pending2 by blast
  show ?thesis using rm_pending_event_ev_kind [OF p(2), of "sub_ev 2"] p(1) by auto
qed

text \<open>The bidirectional map itself, on these events.\<close>

lemma bi_map_extract_right_refines_witness:
  "\<exists>p p'. pending1 = Some p \<and> bi_map_extract_right p (sub_ev 5) PENDING_XAPP_SZ = Some (7, p') \<and> pending_rel p' {} \<and>
     bi_map_extract_right p (sub_ev 5\<lparr>px_ev := E42_SETUP_REQUEST_PENDING_EVENT\<rparr>) PENDING_XAPP_SZ = None"
proof -
  obtain p where p: "pending1 = Some p" "pending_rel p {(7, sub_ev 1)}" using pending1 by blast
  have b: "bi_rel (\<lambda>fd. 0 < fd) cmp_fd_key FD_SZ (\<lambda>_. True) cmp_xapp_ev PENDING_XAPP_SZ p {(7, sub_ev 1)}"
    using p(2) by (simp add: pending_rel_def)
  note r = bi_map_extract_right_refines [OF fd3.three_way_axioms pend_xapp3.three_way_axioms b pending_relD(1) [OF p(2)] TrueI]
  show ?thesis
    using r [of "sub_ev 5"] r [of "sub_ev 5\<lparr>px_ev := E42_SETUP_REQUEST_PENDING_EVENT\<rparr>"] p(1)
    by (auto simp: sub_ev_def pending_rel_def)
qed

lemma bi_map_extract_left_cast_witness:
  "\<exists>p. pending1 = Some p \<and> bi_map_extract_left ev_as_fd p 7 FD_SZ = None \<and>
     bi_map_extract_left (\<lambda>_. Some 7) p 7 FD_SZ \<noteq> None"
proof -
  obtain p where p: "pending1 = Some p" "pending_rel p {(7, sub_ev 1)}" using pending1 by blast
  have b: "bi_rel (\<lambda>fd. 0 < fd) cmp_fd_key FD_SZ (\<lambda>_. True) cmp_xapp_ev PENDING_XAPP_SZ p {(7, sub_ev 1)}"
    using p(2) by (simp add: pending_rel_def)
  have u: "right_unique (\<lambda>a b. px_ev a = px_ev b) {(7 :: int, sub_ev 1)}" by (auto simp: right_unique_def left_unique_def)
  note l = bi_map_extract_left_cast [OF fd3.three_way_axioms pend_xapp3.three_way_axioms b u, of 7 "(7, sub_ev 1)"]
  show ?thesis
    using l [of ev_as_fd] l [of "\<lambda>_. Some 7"] p(1) by (auto simp: eq_fd_def ev_as_fd_def sub_ev_def cmp_fd_def)
qed

end
