(* ===== verification/E2apMsg.thy ===== *)
theory E2apMsg
  imports PendingXapp begin

text \<open>
  The messages of the E2 application protocol that an E2 agent reads and writes (\<^verbatim>\<open>lib/ap/type_defs.h\<close> and
  \<^verbatim>\<open>lib/ap/e2ap_types\<close>), and the data that it exchanges with its service models (\<^verbatim>\<open>sm/sm_proc_data.h\<close>). A byte array
  is the list of its bytes, an optional member an option.
\<close>

section \<open>Information elements\<close>

datatype ric_subseq_action_type = RIC_SUBS_REQ_CONTINUE | RIC_SUBS_REQ_HALT

record ric_subsequent_action =
  sa_type :: ric_subseq_action_type
  sa_time_to_wait_ms :: "u32 option"

datatype ric_action_type = RIC_ACT_REPORT | RIC_ACT_INSERT | RIC_ACT_POLICY

record ric_action =
  ra_id :: u8
  ra_type :: ric_action_type
  ra_definition :: "byte list option"
  ra_subseq_action :: "ric_subsequent_action option"

record ran_function =
  rf_def :: "byte list"
  rf_id :: u16
  rf_rev :: u16
  rf_oid :: "byte list option"

section \<open>Messages\<close>

record ric_subscription_request =
  sr_ric_id :: ric_gen_id
  sr_event_trigger :: "byte list"
  sr_action :: "ric_action list"

text \<open>Of lists that are empty in every message of the program only the length is kept.\<close>

record ric_subscription_response =
  sp_ric_id :: ric_gen_id
  sp_admitted :: "u8 list"
  sp_len_na :: nat

datatype ric_indication_type = RIC_IND_REPORT | RIC_IND_INSERT

record ric_indication =
  ri_ric_id :: ric_gen_id
  ri_action_id :: u8
  ri_sn :: "u16 option"
  ri_type :: ric_indication_type
  ri_hdr :: "byte list"
  ri_msg :: "byte list"
  ri_call_process_id :: "byte list option"

datatype ric_control_ack_req = RIC_CONTROL_REQUEST_NO_ACK | RIC_CONTROL_REQUEST_ACK | RIC_CONTROL_REQUEST_NACK

record ric_control_request =
  cr_ric_id :: ric_gen_id
  cr_call_process_id :: "byte list option"
  cr_hdr :: "byte list"
  cr_msg :: "byte list"
  cr_ack_req :: "ric_control_ack_req option"

datatype ric_control_status = RIC_CONTROL_STATUS_SUCCESS | RIC_CONTROL_STATUS_REJECTED | RIC_CONTROL_STATUS_FAILED

record ric_control_acknowledge =
  ca_ric_id :: ric_gen_id
  ca_call_process_id :: "byte list option"
  ca_status :: ric_control_status
  ca_control_outcome :: "byte list option"

record e2_setup_request =
  su_id :: global_e2_node_id
  su_ran_func_item :: "ran_function list"
  su_len_ccu :: nat

record e2_setup_response =
  ss_plmn :: plmn
  ss_near_ric_id :: u32
  ss_accepted :: "u16 list"
  ss_len_rej :: nat
  ss_len_ccual :: nat

text \<open>The union with its tag. Of the types that the agent does not read, or answers by stopping, only the tag is kept.\<close>

datatype e2ap_msg =
    RIC_SUBSCRIPTION_REQUEST ric_subscription_request
  | RIC_SUBSCRIPTION_RESPONSE ric_subscription_response
  | RIC_SUBSCRIPTION_FAILURE
  | RIC_SUBSCRIPTION_DELETE_REQUEST ric_gen_id
  | RIC_SUBSCRIPTION_DELETE_RESPONSE ric_gen_id
  | RIC_SUBSCRIPTION_DELETE_FAILURE
  | RIC_INDICATION ric_indication
  | RIC_CONTROL_REQUEST ric_control_request
  | RIC_CONTROL_ACKNOWLEDGE ric_control_acknowledge
  | RIC_CONTROL_FAILURE
  | E2AP_ERROR_INDICATION
  | E2_SETUP_REQUEST e2_setup_request
  | E2_SETUP_RESPONSE e2_setup_response
  | E2_SETUP_FAILURE
  | E2AP_RESET_REQUEST
  | E2AP_RESET_RESPONSE
  | RIC_SERVICE_UPDATE
  | RIC_SERVICE_UPDATE_ACKNOWLEDGE
  | RIC_SERVICE_UPDATE_FAILURE
  | RIC_SERVICE_QUERY
  | E2_NODE_CONFIGURATION_UPDATE
  | E2_NODE_CONFIGURATION_UPDATE_ACKNOWLEDGE
  | E2_NODE_CONFIGURATION_UPDATE_FAILURE
  | E2_CONNECTION_UPDATE
  | E2_CONNECTION_UPDATE_ACKNOWLEDGE
  | E2_CONNECTION_UPDATE_FAILURE
  | E42_SETUP_REQUEST
  | E42_SETUP_RESPONSE
  | E42_RIC_SUBSCRIPTION_REQUEST
  | E42_RIC_SUBSCRIPTION_DELETE_REQUEST
  | E42_RIC_CONTROL_REQUEST
  | NONE_E2_MSG_TYPE

section \<open>Service models\<close>

record sm_subs_data =
  sd_event_trigger :: "byte list"
  sd_action_def :: "byte list option"

record sm_ind_data =
  si_ind_hdr :: "byte list"
  si_ind_msg :: "byte list"
  si_call_process_id :: "byte list option"

record sm_ctrl_req_data =
  sc_ctrl_hdr :: "byte list"
  sc_ctrl_msg :: "byte list"

text \<open>A service model is a shared object with four procedures. They read and write the RAN behind it, whose state is of
  any type \<open>'w\<close>.\<close>

record 'w sm_agent =
  on_subscription :: "'w \<Rightarrow> sm_subs_data \<Rightarrow> u32 \<times> 'w"
  on_indication :: "'w \<Rightarrow> sm_ind_data \<times> 'w"
  on_control :: "'w \<Rightarrow> sm_ctrl_req_data \<Rightarrow> byte list \<times> 'w"
  on_e2_setup :: "'w \<Rightarrow> byte list \<times> 'w"
  sm_ran_func_id :: u16

end
