(* ===== verification/E2Agent.thy ===== *)
theory E2Agent
  imports E2apMsg begin

text \<open>
  The E2 agent of a base station: \<^verbatim>\<open>agent/e2_agent.c\<close> with its event loop, the message handlers of
  \<^verbatim>\<open>agent/msg_handler_agent.c\<close>, the service models of \<^verbatim>\<open>agent/plugin_agent.c\<close>, the timers and sockets of
  \<^verbatim>\<open>agent/asio_agent.c\<close> and \<^verbatim>\<open>agent/not_handler_agent.c\<close>. A failed assertion is \<open>None\<close>. What the operating
  system gives (the ready file descriptor, a received message, a new timer, memory) is an argument of each step. Messages
  go in and out as values: the codec between them and the bytes on the socket is not part of this theory.
\<close>

section \<open>Timers and sockets\<close>

text \<open>The file descriptors that epoll watches; seconds and nanoseconds of the first expiration and of the interval of
  each timer.\<close>

record asio_agent =
  io_fds :: "int set"
  io_timers :: "int \<Rightarrow> ((int \<times> int) \<times> (int \<times> int)) option"

definition init_asio_agent :: asio_agent where
  "init_asio_agent = \<lparr>io_fds = {}, io_timers = Map.empty\<rparr>"

text \<open>epoll rejects a file descriptor that it watches already.\<close>

definition add_fd_asio_agent :: "asio_agent \<Rightarrow> int \<Rightarrow> asio_agent option" where
  "add_fd_asio_agent io fd = do {
     c_assert (fd \<notin> io_fds io);
     Some (io\<lparr>io_fds := insert fd (io_fds io)\<rparr>)
   }"

definition rm_fd_asio_agent :: "asio_agent \<Rightarrow> int \<Rightarrow> asio_agent option" where
  "rm_fd_asio_agent io fd = do {
     c_assert (fd \<in> io_fds io);
     Some (io\<lparr>io_fds := io_fds io - {fd}, io_timers := (io_timers io)(fd := None)\<rparr>)
   }"

definition timer_spec :: "int \<Rightarrow> int \<times> int" where
  "timer_spec ms = (ms div 1000, (ms * 1000000) mod 1000000000)"

definition create_timer_ms_asio_agent :: "asio_agent \<Rightarrow> int \<Rightarrow> int \<Rightarrow> int \<Rightarrow> (int \<times> asio_agent) option" where
  "create_timer_ms_asio_agent io tfd initial_ms interval_ms = do {
     c_assert (initial_ms > - 1);
     c_assert (interval_ms > - 1);
     c_assert (tfd \<noteq> - 1);
     let it_value = timer_spec initial_ms;
     let it_interval = timer_spec interval_ms;
     let io = io\<lparr>io_timers := (io_timers io)(tfd \<mapsto> (it_value, it_interval))\<rparr>;
     io \<leftarrow> add_fd_asio_agent io tfd;
     Some (tfd, io)
   }"

text \<open>The result of epoll: an error, nothing within the timeout, or a file descriptor with its error flag.\<close>

datatype epoll_result = Epoll_error | Epoll_timeout | Epoll_ready bool int

definition event_asio_agent :: "epoll_result \<Rightarrow> int option" where
  "event_asio_agent r = (case r of
       Epoll_error \<Rightarrow> None
     | Epoll_timeout \<Rightarrow> Some (- 1)
     | Epoll_ready err fd \<Rightarrow> do {
         c_assert (\<not> err);
         Some fd
       })"

section \<open>The state\<close>

record 'w ind_event =
  ie_ric_id :: ric_gen_id
  ie_sm :: "'w sm_agent option"
  ie_action_id :: u8

definition cmp_ind_event :: "'w ind_event \<Rightarrow> 'w ind_event \<Rightarrow> int" where
  "cmp_ind_event m0 m1 = cmp_ric_gen_id (ie_ric_id m0) (ie_ric_id m1)"

abbreviation "IND_EVENT_SZ \<equiv> (24 :: nat)"
abbreviation "PENDING_EVENT_SZ \<equiv> (4 :: nat)"
abbreviation "RAN_FUNC_SZ \<equiv> (2 :: nat)"

text \<open>\<open>ag_ran\<close> is the state of the RAN behind the service models, \<open>ag_sent\<close> what has been sent, the oldest message first.\<close>

record 'w e2_agent =
  ag_ep_fd :: int
  ag_io :: asio_agent
  ag_sm_ds :: "(u16, 'w sm_agent) assoc_rb_tree"
  ag_ind_event :: "(int, 'w ind_event) bi_map"
  ag_pending :: "(int, pending_event) bi_map"
  ag_global_e2_node_id :: global_e2_node_id
  ag_stop_token :: bool
  ag_agent_stopped :: bool
  ag_ran :: 'w
  ag_sent :: "e2ap_msg list"

definition e2ap_send_bytes_agent :: "'w e2_agent \<Rightarrow> e2ap_msg \<Rightarrow> 'w e2_agent" where
  "e2ap_send_bytes_agent ag m = ag\<lparr>ag_sent := ag_sent ag @ [m]\<rparr>"

section \<open>Service models\<close>

definition load_plugin_ag :: "(u16, 'w sm_agent) assoc_rb_tree \<Rightarrow> ref \<Rightarrow> 'w sm_agent \<Rightarrow> (u16, 'w sm_agent) assoc_rb_tree option" where
  "load_plugin_ag sm_ds z sm = assoc_rb_tree_insert sm_ds z (sm_ran_func_id sm) RAN_FUNC_SZ (Some sm)"

fun load_all_pugin_ag ::
    "(u16, 'w sm_agent) assoc_rb_tree \<Rightarrow> (ref \<times> 'w sm_agent) list \<Rightarrow> (u16, 'w sm_agent) assoc_rb_tree option" where
  "load_all_pugin_ag sm_ds [] = Some sm_ds"
| "load_all_pugin_ag sm_ds ((z, sm) # files) = do {
     sm_ds \<leftarrow> load_plugin_ag sm_ds z sm;
     load_all_pugin_ag sm_ds files
   }"

definition init_plugin_ag :: "ref \<Rightarrow> (ref \<times> 'w sm_agent) list \<Rightarrow> (u16, 'w sm_agent) assoc_rb_tree option" where
  "init_plugin_ag d files = do {
     sm_ds \<leftarrow> assoc_rb_tree_init d RAN_FUNC_SZ cmp_ran_func_id;
     load_all_pugin_ag sm_ds files
   }"

definition sm_plugin_ag :: "(u16, 'w sm_agent) assoc_rb_tree \<Rightarrow> u16 \<Rightarrow> 'w sm_agent option" where
  "sm_plugin_ag sm_ds key = do {
     c_assert (key > 0);
     start_it \<leftarrow> assoc_rb_tree_front sm_ds;
     let end_it = assoc_rb_tree_end sm_ds;
     it \<leftarrow> find_if_rb_tree sm_ds start_it end_it key eq_ran_func_id;
     c_assert (it \<noteq> end_it);
     sm \<leftarrow> assoc_rb_tree_value sm_ds it;
     sm \<leftarrow> sm;
     c_assert (sm_ran_func_id sm = key);
     Some sm
   }"

definition size_plugin_ag :: "(u16, 'w sm_agent) assoc_rb_tree \<Rightarrow> nat" where
  "size_plugin_ag sm_ds = assoc_rb_tree_size sm_ds"

section \<open>The setup request\<close>

fun setup_loop :: "(u16, 'w sm_agent) assoc_rb_tree \<Rightarrow> nat \<Rightarrow> ref \<Rightarrow> 'w \<Rightarrow> (ran_function list \<times> ref \<times> 'w) option" where
  "setup_loop sm_ds 0 it w = Some ([], it, w)"
| "setup_loop sm_ds (Suc n) it w = do {
     sm \<leftarrow> assoc_rb_tree_value sm_ds it;
     sm \<leftarrow> sm;
     key \<leftarrow> assoc_rb_tree_key sm_ds it;
     c_assert (sm_ran_func_id sm = key);
     let (ran_fun_def, w) = on_e2_setup sm w;
     let rf = \<lparr>rf_def = ran_fun_def, rf_id = sm_ran_func_id sm, rf_rev = 0, rf_oid = None\<rparr>;
     it \<leftarrow> assoc_rb_tree_next sm_ds it;
     (rfs, it, w) \<leftarrow> setup_loop sm_ds n it w;
     Some (rf # rfs, it, w)
   }"

definition generate_setup_request :: "'w e2_agent \<Rightarrow> (e2_setup_request \<times> 'w e2_agent) option" where
  "generate_setup_request ag = do {
     let len_rf = assoc_rb_tree_size (ag_sm_ds ag);
     c_assert (len_rf > 0);
     it \<leftarrow> assoc_rb_tree_front (ag_sm_ds ag);
     (ran_func, it, w) \<leftarrow> setup_loop (ag_sm_ds ag) len_rf it (ag_ran ag);
     c_assert (it = assoc_rb_tree_end (ag_sm_ds ag));
     Some (\<lparr>su_id = ag_global_e2_node_id ag, su_ran_func_item = ran_func, su_len_ccu = 0\<rparr>, ag\<lparr>ag_ran := w\<rparr>)
   }"

section \<open>Indications\<close>

text \<open>For the optional call process identifier the code allocates the size of its length, 8 bytes, and writes a structure of
  16 bytes there: out of bounds.\<close>

definition generate_indication :: "sm_ind_data \<Rightarrow> 'w ind_event \<Rightarrow> ric_indication option" where
  "generate_indication data i_ev = do {
     let ind = \<lparr>ri_ric_id = ie_ric_id i_ev, ri_action_id = ie_action_id i_ev, ri_sn = None, ri_type = RIC_IND_REPORT,
                ri_hdr = si_ind_hdr data, ri_msg = si_ind_msg data, ri_call_process_id = None\<rparr>;
     c_assert (si_call_process_id data = None);
     Some ind
   }"

section \<open>Message handlers\<close>

text \<open>What the operating system gives to a step: the ready file descriptor, the message that a receive returns, the next timer,
  the addresses of the two nodes of a new entry, and the number of bytes that a read returns.\<close>

datatype sctp_msg = SCTP_MSG_PAYLOAD e2ap_msg | SCTP_MSG_NOTIFICATION

record stimulus =
  st_ready :: epoll_result
  st_recv :: sctp_msg
  st_tfd :: int
  st_z1 :: ref
  st_z2 :: ref
  st_read :: int

definition check_valid_msg_type :: "e2ap_msg \<Rightarrow> bool" where
  "check_valid_msg_type m = (case m of
       RIC_SUBSCRIPTION_REQUEST _ \<Rightarrow> True
     | RIC_SUBSCRIPTION_DELETE_REQUEST _ \<Rightarrow> True
     | RIC_CONTROL_REQUEST _ \<Rightarrow> True
     | E2AP_ERROR_INDICATION \<Rightarrow> True
     | E2_SETUP_RESPONSE _ \<Rightarrow> True
     | E2_SETUP_FAILURE \<Rightarrow> True
     | E2AP_RESET_REQUEST \<Rightarrow> True
     | E2AP_RESET_RESPONSE \<Rightarrow> True
     | RIC_SERVICE_UPDATE_ACKNOWLEDGE \<Rightarrow> True
     | RIC_SERVICE_UPDATE_FAILURE \<Rightarrow> True
     | RIC_SERVICE_QUERY \<Rightarrow> True
     | E2_NODE_CONFIGURATION_UPDATE_ACKNOWLEDGE \<Rightarrow> True
     | E2_NODE_CONFIGURATION_UPDATE_FAILURE \<Rightarrow> True
     | E2_CONNECTION_UPDATE \<Rightarrow> True
     | _ \<Rightarrow> False)"

definition supported_ric_subscription_request :: "ric_subscription_request \<Rightarrow> ric_action option" where
  "supported_ric_subscription_request sr = do {
     c_assert (length (sr_action sr) = 1);
     let action = sr_action sr ! 0;
     c_assert (ra_type action = RIC_ACT_REPORT);
     Some action
   }"

definition generate_sm_subs_data :: "ric_subscription_request \<Rightarrow> ric_action \<Rightarrow> sm_subs_data" where
  "generate_sm_subs_data sr action =
     \<lparr>sd_event_trigger = sr_event_trigger sr,
      sd_action_def = (case ra_definition action of None \<Rightarrow> None | Some d \<Rightarrow> Some d)\<rparr>"

definition generate_subscription_response :: "ric_gen_id \<Rightarrow> u8 \<Rightarrow> ric_subscription_response" where
  "generate_subscription_response ric_id ric_act_id = \<lparr>sp_ric_id = ric_id, sp_admitted = [ric_act_id], sp_len_na = 0\<rparr>"

definition e2ap_handle_subscription_request_agent ::
    "'w e2_agent \<Rightarrow> stimulus \<Rightarrow> ric_subscription_request \<Rightarrow> (e2ap_msg \<times> 'w e2_agent) option" where
  "e2ap_handle_subscription_request_agent ag st sr = do {
     action \<leftarrow> supported_ric_subscription_request sr;
     let data = generate_sm_subs_data sr action;
     let fid = ran_func_id (sr_ric_id sr);
     sm \<leftarrow> sm_plugin_ag (ag_sm_ds ag) fid;
     let (ms, w) = on_subscription sm (ag_ran ag) data;
     let ag = ag\<lparr>ag_ran := w\<rparr>;
     (fd_timer, io) \<leftarrow> create_timer_ms_asio_agent (ag_io ag) (st_tfd st) (uint ms) (uint ms);
     let ag = ag\<lparr>ag_io := io\<rparr>;
     let ev = \<lparr>ie_ric_id = sr_ric_id sr, ie_sm = Some sm, ie_action_id = ra_id action\<rparr>;
     m \<leftarrow> bi_map_insert (ag_ind_event ag) (st_z1 st) (st_z2 st) fd_timer FD_SZ ev IND_EVENT_SZ;
     let ag = ag\<lparr>ag_ind_event := m\<rparr>;
     Some (RIC_SUBSCRIPTION_RESPONSE (generate_subscription_response (sr_ric_id sr) (ra_id action)), ag)
   }"

definition stop_ind_event :: "'w e2_agent \<Rightarrow> ric_gen_id \<Rightarrow> 'w e2_agent option" where
  "stop_ind_event ag ric_id = do {
     let tmp = \<lparr>ie_ric_id = ric_id, ie_sm = None, ie_action_id = 0\<rparr>;
     (fd, m) \<leftarrow> bi_map_extract_right (ag_ind_event ag) tmp IND_EVENT_SZ;
     let ag = ag\<lparr>ag_ind_event := m\<rparr>;
     c_assert (fd > 0);
     io \<leftarrow> rm_fd_asio_agent (ag_io ag) fd;
     Some (ag\<lparr>ag_io := io\<rparr>)
   }"

definition e2ap_handle_subscription_delete_request_agent ::
    "'w e2_agent \<Rightarrow> ric_gen_id \<Rightarrow> (e2ap_msg \<times> 'w e2_agent) option" where
  "e2ap_handle_subscription_delete_request_agent ag ric_id = do {
     ag \<leftarrow> stop_ind_event ag ric_id;
     Some (RIC_SUBSCRIPTION_DELETE_RESPONSE ric_id, ag)
   }"

definition ba_from_ctrl_out :: "byte list \<Rightarrow> byte list option" where
  "ba_from_ctrl_out data = (if length data > 0 then Some data else None)"

definition e2ap_handle_control_request_agent :: "'w e2_agent \<Rightarrow> ric_control_request \<Rightarrow> (e2ap_msg \<times> 'w e2_agent) option" where
  "e2ap_handle_control_request_agent ag ctrl_req = do {
     c_assert (cr_ack_req ctrl_req = Some RIC_CONTROL_REQUEST_ACK);
     let data = \<lparr>sc_ctrl_hdr = cr_hdr ctrl_req, sc_ctrl_msg = cr_msg ctrl_req\<rparr>;
     let fid = ran_func_id (cr_ric_id ctrl_req);
     sm \<leftarrow> sm_plugin_ag (ag_sm_ds ag) fid;
     let (ctrl_ans, w) = on_control sm (ag_ran ag) data;
     let ag = ag\<lparr>ag_ran := w\<rparr>;
     Some (RIC_CONTROL_ACKNOWLEDGE \<lparr>ca_ric_id = cr_ric_id ctrl_req, ca_call_process_id = None,
             ca_status = RIC_CONTROL_STATUS_SUCCESS, ca_control_outcome = ba_from_ctrl_out ctrl_ans\<rparr>, ag)
   }"

definition stop_pending_event :: "'w e2_agent \<Rightarrow> pending_event \<Rightarrow> 'w e2_agent option" where
  "stop_pending_event ag event = do {
     (fd, m) \<leftarrow> bi_map_extract_right (ag_pending ag) event PENDING_EVENT_SZ;
     let ag = ag\<lparr>ag_pending := m\<rparr>;
     c_assert (fd > 0);
     io \<leftarrow> rm_fd_asio_agent (ag_io ag) fd;
     Some (ag\<lparr>ag_io := io\<rparr>)
   }"

definition e2ap_handle_setup_response_agent :: "'w e2_agent \<Rightarrow> (e2ap_msg \<times> 'w e2_agent) option" where
  "e2ap_handle_setup_response_agent ag = do {
     ag \<leftarrow> stop_pending_event ag SETUP_REQUEST_PENDING_EVENT;
     Some (NONE_E2_MSG_TYPE, ag)
   }"

text \<open>The handlers of all other valid types consist of a failing assertion.\<close>

definition e2ap_msg_handle_agent :: "'w e2_agent \<Rightarrow> stimulus \<Rightarrow> e2ap_msg \<Rightarrow> (e2ap_msg \<times> 'w e2_agent) option" where
  "e2ap_msg_handle_agent ag st msg = do {
     c_assert (check_valid_msg_type msg);
     case msg of
       RIC_SUBSCRIPTION_REQUEST sr \<Rightarrow> e2ap_handle_subscription_request_agent ag st sr
     | RIC_SUBSCRIPTION_DELETE_REQUEST ric_id \<Rightarrow> e2ap_handle_subscription_delete_request_agent ag ric_id
     | RIC_CONTROL_REQUEST cr \<Rightarrow> e2ap_handle_control_request_agent ag cr
     | E2_SETUP_RESPONSE _ \<Rightarrow> e2ap_handle_setup_response_agent ag
     | _ \<Rightarrow> None
   }"

definition notification_handle_ag :: "'w e2_agent \<Rightarrow> stimulus \<Rightarrow> 'w e2_agent option" where
  "notification_handle_ag ag st = do {
     let ev = SETUP_REQUEST_PENDING_EVENT;
     let wait_ms = 3000;
     (fd_timer, io) \<leftarrow> create_timer_ms_asio_agent (ag_io ag) (st_tfd st) wait_ms wait_ms;
     let ag = ag\<lparr>ag_io := io\<rparr>;
     m \<leftarrow> bi_map_insert (ag_pending ag) (st_z1 st) (st_z2 st) fd_timer FD_SZ ev PENDING_EVENT_SZ;
     Some (ag\<lparr>ag_pending := m\<rparr>)
   }"

section \<open>The event loop\<close>

datatype 'w async_event =
    CHECK_STOP_TOKEN_EVENT
  | SCTP_CONNECTION_SHUTDOWN_EVENT
  | SCTP_MSG_ARRIVED_EVENT e2ap_msg
  | INDICATION_EVENT "'w ind_event"
  | PENDING_EVENT pending_event

definition net_pkt :: "'w e2_agent \<Rightarrow> int \<Rightarrow> bool option" where
  "net_pkt ag fd = do {
     c_assert (fd > 0);
     Some (fd = ag_ep_fd ag)
   }"

abbreviation eq_fd_key :: "int \<Rightarrow> int \<Rightarrow> bool" where
  "eq_fd_key a b \<equiv> the (eq_fd a b)"

definition ind_fd :: "'w e2_agent \<Rightarrow> int \<Rightarrow> ref option" where
  "ind_fd ag fd = do {
     c_assert (fd > 0);
     start_it \<leftarrow> assoc_rb_tree_front (b_left (ag_ind_event ag));
     let end_it = assoc_rb_tree_end (b_left (ag_ind_event ag));
     find_if_rb_tree (b_left (ag_ind_event ag)) start_it end_it fd eq_fd_key
   }"

definition ind_event_of :: "'w e2_agent \<Rightarrow> int \<Rightarrow> 'w ind_event option option" where
  "ind_event_of ag fd = do {
     it \<leftarrow> ind_fd ag fd;
     let end_it = assoc_rb_tree_end (b_left (ag_ind_event ag));
     if it \<noteq> end_it then assoc_rb_tree_value (b_left (ag_ind_event ag)) it else Some None
   }"

definition pend_event :: "'w e2_agent \<Rightarrow> int \<Rightarrow> pending_event option option" where
  "pend_event ag fd = do {
     c_assert (fd > 0);
     sz \<leftarrow> bi_map_size (ag_pending ag);
     c_assert (sz = 1);
     start_it \<leftarrow> assoc_rb_tree_front (b_left (ag_pending ag));
     let end_it = assoc_rb_tree_end (b_left (ag_pending ag));
     it \<leftarrow> find_if_rb_tree (b_left (ag_pending ag)) start_it end_it fd eq_fd_key;
     c_assert (it \<noteq> end_it);
     assoc_rb_tree_value (b_left (ag_pending ag)) it
   }"

definition consume_fd :: "int \<Rightarrow> int \<Rightarrow> unit option" where
  "consume_fd bytes fd = do {
     c_assert (fd > 0);
     c_assert (bytes = 8)
   }"

definition next_async_event_agent :: "'w e2_agent \<Rightarrow> stimulus \<Rightarrow> (int \<times> 'w async_event) option" where
  "next_async_event_agent ag st = do {
     fd \<leftarrow> event_asio_agent (st_ready st);
     if fd = - 1 then Some (fd, CHECK_STOP_TOKEN_EVENT)
     else do {
       net \<leftarrow> net_pkt ag fd;
       if net then
         (case st_recv st of
            SCTP_MSG_NOTIFICATION \<Rightarrow> Some (fd, SCTP_CONNECTION_SHUTDOWN_EVENT)
          | SCTP_MSG_PAYLOAD m \<Rightarrow> Some (fd, SCTP_MSG_ARRIVED_EVENT m))
       else do {
         i_ev \<leftarrow> ind_event_of ag fd;
         case i_ev of
           Some ev \<Rightarrow> Some (fd, INDICATION_EVENT ev)
         | None \<Rightarrow> do {
             p_ev \<leftarrow> pend_event ag fd;
             ev \<leftarrow> p_ev;
             Some (fd, PENDING_EVENT ev)
           }
       }
     }
   }"

text \<open>One round of the loop.\<close>

definition e2_event_step :: "'w e2_agent \<Rightarrow> stimulus \<Rightarrow> 'w e2_agent option" where
  "e2_event_step ag st = do {
     (fd, e) \<leftarrow> next_async_event_agent ag st;
     case e of
       SCTP_MSG_ARRIVED_EVENT msg \<Rightarrow> do {
         (ans, ag) \<leftarrow> e2ap_msg_handle_agent ag st msg;
         Some (if ans \<noteq> NONE_E2_MSG_TYPE then e2ap_send_bytes_agent ag ans else ag)
       }
     | INDICATION_EVENT i_ev \<Rightarrow> do {
         sm \<leftarrow> ie_sm i_ev;
         let (data, w) = on_indication sm (ag_ran ag);
         let ag = ag\<lparr>ag_ran := w\<rparr>;
         ind \<leftarrow> generate_indication data i_ev;
         let ag = e2ap_send_bytes_agent ag (RIC_INDICATION ind);
         consume_fd (st_read st) fd;
         Some ag
       }
     | PENDING_EVENT p_ev \<Rightarrow> do {
         c_assert (p_ev = SETUP_REQUEST_PENDING_EVENT);
         (sr, ag) \<leftarrow> generate_setup_request ag;
         let ag = e2ap_send_bytes_agent ag (E2_SETUP_REQUEST sr);
         consume_fd (st_read st) fd;
         Some ag
       }
     | SCTP_CONNECTION_SHUTDOWN_EVENT \<Rightarrow> notification_handle_ag ag st
     | CHECK_STOP_TOKEN_EVENT \<Rightarrow> Some ag
   }"

text \<open>The loop, on the rounds that it makes before another thread sets the stop token.\<close>

fun e2_event_loop_agent :: "'w e2_agent \<Rightarrow> stimulus list \<Rightarrow> 'w e2_agent option" where
  "e2_event_loop_agent ag [] = Some (ag\<lparr>ag_stop_token := True, ag_agent_stopped := True\<rparr>)"
| "e2_event_loop_agent ag (st # sts) = do {
     ag \<leftarrow> e2_event_step ag st;
     e2_event_loop_agent ag sts
   }"

section \<open>Start and end\<close>

definition init_pending_events_ag :: "ref \<Rightarrow> ref \<Rightarrow> (int, pending_event) bi_map option" where
  "init_pending_events_ag d1 d2 = bi_map_init d1 d2 FD_SZ PENDING_EVENT_SZ cmp_fd_key cmp_pending_event"

definition init_indication_event :: "ref \<Rightarrow> ref \<Rightarrow> (int, 'w ind_event) bi_map option" where
  "init_indication_event d1 d2 = bi_map_init d1 d2 FD_SZ IND_EVENT_SZ cmp_fd_key cmp_ind_event"

definition e2_init_agent ::
    "int \<Rightarrow> int \<Rightarrow> global_e2_node_id \<Rightarrow> ref \<Rightarrow> (ref \<times> 'w sm_agent) list \<Rightarrow> ref \<Rightarrow> ref \<Rightarrow> ref \<Rightarrow> ref \<Rightarrow> 'w \<Rightarrow> 'w e2_agent option" where
  "e2_init_agent port sock_fd ge2nid d_sm files d_p1 d_p2 d_i1 d_i2 w = do {
     c_assert (port > 0 \<and> port < 65535);
     c_assert (sock_fd \<noteq> - 1);
     let io = init_asio_agent;
     io \<leftarrow> add_fd_asio_agent io sock_fd;
     sm_ds \<leftarrow> init_plugin_ag d_sm files;
     pending \<leftarrow> init_pending_events_ag d_p1 d_p2;
     ind \<leftarrow> init_indication_event d_i1 d_i2;
     Some \<lparr>ag_ep_fd = sock_fd, ag_io = io, ag_sm_ds = sm_ds, ag_ind_event = ind, ag_pending = pending,
           ag_global_e2_node_id = ge2nid, ag_stop_token = False, ag_agent_stopped = False, ag_ran = w, ag_sent = []\<rparr>
   }"

text \<open>The start, up to the loop.\<close>

definition e2_start_agent :: "'w e2_agent \<Rightarrow> stimulus \<Rightarrow> 'w e2_agent option" where
  "e2_start_agent ag st = do {
     (sr, ag) \<leftarrow> generate_setup_request ag;
     let ag = e2ap_send_bytes_agent ag (E2_SETUP_REQUEST sr);
     let ev = SETUP_REQUEST_PENDING_EVENT;
     let wait_ms = 3000;
     (fd_timer, io) \<leftarrow> create_timer_ms_asio_agent (ag_io ag) (st_tfd st) wait_ms wait_ms;
     let ag = ag\<lparr>ag_io := io\<rparr>;
     m \<leftarrow> bi_map_insert (ag_pending ag) (st_z1 st) (st_z2 st) fd_timer FD_SZ ev PENDING_EVENT_SZ;
     Some (ag\<lparr>ag_pending := m\<rparr>)
   }"

definition free_pending_ev_ag :: "pending_event option \<times> 'v option \<Rightarrow> unit option" where
  "free_pending_ev_ag kv = do {
     ev \<leftarrow> fst kv;
     v \<leftarrow> snd kv;
     ok \<leftarrow> valid_pending_event ev;
     c_assert ok
   }"

definition free_entry :: "'k option \<times> 'v option \<Rightarrow> unit option" where
  "free_entry kv = do {
     k \<leftarrow> fst kv;
     v \<leftarrow> snd kv;
     Some ()
   }"

definition e2_free_agent :: "'w e2_agent \<Rightarrow> unit option" where
  "e2_free_agent ag = do {
     c_assert (ag_agent_stopped ag);
     (fs, _) \<leftarrow> assoc_rb_tree_free (ag_sm_ds ag);
     c_assert (\<forall>kv \<in> set fs. free_entry kv \<noteq> None);
     (fs, gs, _) \<leftarrow> bi_map_free (ag_pending ag);
     c_assert (\<forall>kv \<in> set fs. free_fd kv \<noteq> None);
     c_assert (\<forall>kv \<in> set gs. free_pending_ev_ag kv \<noteq> None);
     (fs, gs, _) \<leftarrow> bi_map_free (ag_ind_event ag);
     c_assert (\<forall>kv \<in> set fs. free_entry kv \<noteq> None);
     c_assert (\<forall>kv \<in> set gs. free_entry kv \<noteq> None)
   }"

end
