(* ===== verification/E2Ric.thy ===== *)
theory E2Ric
  imports E2Agent begin

unbundle bit_operations_syntax

text \<open>
  The near real-time RIC: \<^verbatim>\<open>ric/near_ric.c\<close> with its event loop and the requests that the iApp forwards, the message handlers
  of \<^verbatim>\<open>ric/msg_handler_ric.c\<close>, \<^verbatim>\<open>ric/not_handler_ric.c\<close>, \<^verbatim>\<open>ric/plugin_ric.c\<close>, \<^verbatim>\<open>ric/asio_ric.c\<close>, \<^verbatim>\<open>ric/e2_node.c\<close> and the
  addresses of the nodes, \<^verbatim>\<open>ric/map_e2_node_sockaddr.c\<close>. The array of connected nodes is the list of its elements, which it
  is while it has at most 31; what goes to the iApp and to the listeners is recorded.
\<close>

section \<open>Timers and sockets\<close>

definition add_fd_asio_ric :: "asio_agent \<Rightarrow> int \<Rightarrow> asio_agent option" where
  "add_fd_asio_ric io fd = do {
     c_assert (fd > 0);
     c_assert (fd \<notin> io_fds io);
     Some (io\<lparr>io_fds := insert fd (io_fds io)\<rparr>)
   }"

definition create_timer_ms_asio_ric :: "asio_agent \<Rightarrow> int \<Rightarrow> int \<Rightarrow> int \<Rightarrow> (int \<times> asio_agent) option" where
  "create_timer_ms_asio_ric io tfd initial_ms interval_ms = do {
     c_assert (initial_ms > 0);
     c_assert (interval_ms > 0);
     c_assert (tfd \<noteq> - 1);
     let it_value = timer_spec initial_ms;
     let it_interval = timer_spec interval_ms;
     let io = io\<lparr>io_timers := (io_timers io)(tfd \<mapsto> (it_value, it_interval))\<rparr>;
     io \<leftarrow> add_fd_asio_ric io tfd;
     Some (tfd, io)
   }"

definition rm_fd_asio_ric :: "asio_agent \<Rightarrow> int \<Rightarrow> asio_agent option" where
  "rm_fd_asio_ric io fd = do {
     c_assert (fd \<in> io_fds io);
     Some (io\<lparr>io_fds := io_fds io - {fd}, io_timers := (io_timers io)(fd := None)\<rparr>)
   }"

definition event_asio_ric :: "epoll_result \<Rightarrow> int option" where
  "event_asio_ric r = (case r of
       Epoll_error \<Rightarrow> None
     | Epoll_timeout \<Rightarrow> Some (- 1)
     | Epoll_ready err fd \<Rightarrow> do {
         c_assert (\<not> err);
         Some fd
       })"

section \<open>The addresses of the nodes\<close>

text \<open>Of the second half of \<^verbatim>\<open>sctp_info_t\<close>, which all comparisons ignore, only the bytes are kept.\<close>

record sctp_info =
  sin_family :: u16
  sin_port :: u16
  sin_addr :: u32
  si_sri :: "byte list"

definition cmp_sockaddr_in :: "sctp_info \<Rightarrow> sctp_info \<Rightarrow> int" where
  "cmp_sockaddr_in m0 m1 =
     (if sin_port m0 < sin_port m1 then 1
      else if sin_port m0 > sin_port m1 then - 1
      else if sin_addr m0 < sin_addr m1 then 1
      else if sin_addr m0 > sin_addr m1 then - 1
      else if sin_family m0 < sin_family m1 then 1
      else if sin_family m0 > sin_family m1 then - 1
      else 0)"

definition cmp_sctp_info :: "sctp_info \<Rightarrow> sctp_info \<Rightarrow> int" where
  "cmp_sctp_info m0 m1 =
     (let cmp = cmp_sockaddr_in m0 m1
      in if cmp \<noteq> 0 then cmp else 0)"

abbreviation cmp_node :: "global_e2_node_id \<Rightarrow> global_e2_node_id \<Rightarrow> int" where
  "cmp_node a b \<equiv> the (cmp_global_e2_node_id a b)"

abbreviation "NODE_SZ \<equiv> (24 :: nat)"
abbreviation "SCTP_INFO_SZ \<equiv> (48 :: nat)"

type_synonym node_addrs = "(global_e2_node_id, sctp_info) bi_map"

definition init_map_e2_node_sad :: "ref \<Rightarrow> ref \<Rightarrow> node_addrs option" where
  "init_map_e2_node_sad d1 d2 = bi_map_init d1 d2 NODE_SZ SCTP_INFO_SZ cmp_node cmp_sctp_info"

definition add_map_e2_node_sad :: "node_addrs \<Rightarrow> ref \<Rightarrow> ref \<Rightarrow> global_e2_node_id \<Rightarrow> sctp_info \<Rightarrow> node_addrs option" where
  "add_map_e2_node_sad m z1 z2 i s = bi_map_insert m z1 z2 i NODE_SZ s SCTP_INFO_SZ"

definition rm_map_sad_e2_node :: "node_addrs \<Rightarrow> sctp_info \<Rightarrow> (global_e2_node_id \<times> node_addrs) option" where
  "rm_map_sad_e2_node m s = bi_map_extract_right m s SCTP_INFO_SZ"

definition find_map_e2_node_sad :: "node_addrs \<Rightarrow> global_e2_node_id \<Rightarrow> sctp_info option" where
  "find_map_e2_node_sad m i = do {
     let tree = b_left m;
     it \<leftarrow> assoc_rb_tree_front tree;
     let end_it = assoc_rb_tree_end tree;
     it \<leftarrow> find_if_rb_tree tree it end_it i (eq_global_e2_node_id False);
     c_assert (it \<noteq> end_it);
     s \<leftarrow> assoc_rb_tree_value tree it;
     s
   }"

section \<open>The state\<close>

datatype sm_ag_if_rd_e =
    MAC_STATS_V0 | RLC_STATS_V0 | PDCP_STATS_V0 | SLICE_STATS_V0 | TC_STATS_V0 | GTP_STATS_V0 | KPM_STATS_V0 | SM_AGENT_IF_READ_V0_END

text \<open>What a service model decodes: the tag of the union, and its bytes.\<close>

record sm_ag_if_rd =
  rd_type :: sm_ag_if_rd_e
  rd_stats :: "byte list"

text \<open>The procedures of a service model on the side of the RIC; a command is a string that the RIC does not look into.\<close>

record sm_ric =
  rp_on_subscription :: "string \<Rightarrow> sm_subs_data"
  rp_on_indication :: "sm_ind_data \<Rightarrow> sm_ag_if_rd"
  rp_on_control_req :: "string \<Rightarrow> sm_ctrl_req_data"
  rp_ran_func_id :: u16

record e2_node =
  en_id :: global_e2_node_id
  en_accepted :: "u16 list"

text \<open>What the RIC tells the iApp, a thread of its own.\<close>

datatype iapp_event = Iapp_add_node global_e2_node_id "ran_function list" | Iapp_rm_node global_e2_node_id | Iapp_msg e2ap_msg

text \<open>The values of \<^verbatim>\<open>pub_sub\<close> are pointers to arrays of listeners; \<open>nr_arrs\<close> are these arrays.\<close>

record near_ric =
  nr_ep_fd :: int
  nr_e2_nodes :: node_addrs
  nr_io :: asio_agent
  nr_sm_ds :: "(u16, sm_ric) assoc_rb_tree"
  nr_pub_sub :: "(u16, ref) assoc_rb_tree"
  nr_arrs :: "ref \<Rightarrow> string list option"
  nr_conn_e2_nodes :: "e2_node list"
  nr_req_id :: u32
  nr_pending :: "(int, pending_event_ric) bi_map"
  nr_server_stopped :: bool
  nr_stop_token :: bool
  nr_sent :: "(sctp_info \<times> e2ap_msg) list"
  nr_published :: "(string \<times> sm_ag_if_rd) list"
  nr_iapp :: "iapp_event list"

abbreviation "PENDING_RIC_SZ \<equiv> (12 :: nat)"

definition notify_msg_iapp_api :: "near_ric \<Rightarrow> e2ap_msg \<Rightarrow> near_ric" where
  "notify_msg_iapp_api ric m = ric\<lparr>nr_iapp := nr_iapp ric @ [Iapp_msg m]\<rparr>"

definition add_e2_node_iapp_api :: "near_ric \<Rightarrow> global_e2_node_id \<Rightarrow> ran_function list \<Rightarrow> near_ric option" where
  "add_e2_node_iapp_api ric i rfs = do {
     c_assert (length rfs > 0);
     Some (ric\<lparr>nr_iapp := nr_iapp ric @ [Iapp_add_node i rfs]\<rparr>)
   }"

definition e2ap_send_sctp_msg_ric :: "near_ric \<Rightarrow> sctp_info \<Rightarrow> e2ap_msg \<Rightarrow> near_ric" where
  "e2ap_send_sctp_msg_ric ric s m = ric\<lparr>nr_sent := nr_sent ric @ [(s, m)]\<rparr>"

definition e2ap_send_bytes_ric :: "near_ric \<Rightarrow> global_e2_node_id \<Rightarrow> e2ap_msg \<Rightarrow> near_ric option" where
  "e2ap_send_bytes_ric ric i m = do {
     s \<leftarrow> find_map_e2_node_sad (nr_e2_nodes ric) i;
     Some (ric\<lparr>nr_sent := nr_sent ric @ [(s, m)]\<rparr>)
   }"

section \<open>Service models and listeners\<close>

definition load_plugin_ric :: "(u16, sm_ric) assoc_rb_tree \<Rightarrow> ref \<Rightarrow> sm_ric \<Rightarrow> (u16, sm_ric) assoc_rb_tree option" where
  "load_plugin_ric sm_ds z sm = do {
     let rfid = rp_ran_func_id sm;
     c_assert (rfid > 0);
     assoc_rb_tree_insert sm_ds z rfid RAN_FUNC_SZ (Some sm)
   }"

fun load_all_pugin_ric :: "(u16, sm_ric) assoc_rb_tree \<Rightarrow> (ref \<times> sm_ric) list \<Rightarrow> (u16, sm_ric) assoc_rb_tree option" where
  "load_all_pugin_ric sm_ds [] = Some sm_ds"
| "load_all_pugin_ric sm_ds ((z, sm) # files) = do {
     sm_ds \<leftarrow> load_plugin_ric sm_ds z sm;
     load_all_pugin_ric sm_ds files
   }"

definition init_plugin_ric :: "ref \<Rightarrow> (ref \<times> sm_ric) list \<Rightarrow> (u16, sm_ric) assoc_rb_tree option" where
  "init_plugin_ric d files = do {
     sm_ds \<leftarrow> assoc_rb_tree_init d RAN_FUNC_SZ cmp_ran_func_id;
     load_all_pugin_ric sm_ds files
   }"

definition sm_plugin_ric :: "(u16, sm_ric) assoc_rb_tree \<Rightarrow> u16 \<Rightarrow> sm_ric option" where
  "sm_plugin_ric sm_ds rfid = do {
     c_assert (rfid > 0);
     start_it \<leftarrow> assoc_rb_tree_front sm_ds;
     let end_it = assoc_rb_tree_end sm_ds;
     it \<leftarrow> find_if_rb_tree sm_ds start_it end_it rfid eq_ran_func_id;
     c_assert (it \<noteq> end_it);
     sm \<leftarrow> assoc_rb_tree_value sm_ds it;
     sm \<leftarrow> sm;
     c_assert (rp_ran_func_id sm = rfid);
     Some sm
   }"

text \<open>Two addresses: of the array and of the node, when there is no array for the service model.\<close>

definition register_listeners_for_ran_func_id :: "near_ric \<Rightarrow> ref \<Rightarrow> ref \<Rightarrow> u16 \<Rightarrow> string \<Rightarrow> near_ric option" where
  "register_listeners_for_ran_func_id ric x z rfid subs = do {
     start_it \<leftarrow> assoc_rb_tree_front (nr_pub_sub ric);
     let end_it = assoc_rb_tree_end (nr_pub_sub ric);
     it \<leftarrow> find_if_rb_tree (nr_pub_sub ric) start_it end_it rfid eq_ran_func_id;
     if it = end_it
     then do {
       c_assert (x \<noteq> NULL \<and> nr_arrs ric x = None);
       let ric = ric\<lparr>nr_arrs := (nr_arrs ric)(x \<mapsto> [subs])\<rparr>;
       t \<leftarrow> assoc_rb_tree_insert (nr_pub_sub ric) z rfid RAN_FUNC_SZ (Some x);
       Some (ric\<lparr>nr_pub_sub := t\<rparr>)
     }
     else do {
       arr \<leftarrow> assoc_rb_tree_value (nr_pub_sub ric) it;
       arr \<leftarrow> arr;
       xs \<leftarrow> nr_arrs ric arr;
       Some (ric\<lparr>nr_arrs := (nr_arrs ric)(arr \<mapsto> xs @ [subs])\<rparr>)
     }
   }"

text \<open>The addresses are given for each service model.\<close>

partial_function (option) load_pub_sub_loop :: "near_ric \<Rightarrow> ref \<Rightarrow> (ref \<times> ref) list \<Rightarrow> near_ric option" where
  "load_pub_sub_loop ric it zs =
     (if it \<noteq> assoc_rb_tree_end (nr_sm_ds ric)
      then do {
        rfid \<leftarrow> assoc_rb_tree_key (nr_sm_ds ric) it;
        let (x, z) = (case zs of [] \<Rightarrow> (NULL, NULL) | p # _ \<Rightarrow> p);
        ric \<leftarrow> register_listeners_for_ran_func_id ric x z rfid ''stdout listener'';
        ric \<leftarrow> register_listeners_for_ran_func_id ric x z rfid ''redis listener'';
        ric \<leftarrow> register_listeners_for_ran_func_id ric x z rfid ''influx listener'';
        it \<leftarrow> assoc_rb_tree_next (nr_sm_ds ric) it;
        load_pub_sub_loop ric it (tl zs)
      }
      else Some ric)"

declare load_pub_sub_loop.simps [code]

definition load_default_pub_sub_ric :: "near_ric \<Rightarrow> (ref \<times> ref) list \<Rightarrow> near_ric option" where
  "load_default_pub_sub_ric ric zs = do {
     it \<leftarrow> assoc_rb_tree_front (nr_sm_ds ric);
     load_pub_sub_loop ric it zs
   }"

text \<open>It publishes to the listeners of the first service model: it looks at \<^verbatim>\<open>start_it\<close>, not at the one that it found.\<close>

definition publish_ind_msg :: "near_ric \<Rightarrow> u16 \<Rightarrow> sm_ag_if_rd \<Rightarrow> near_ric option" where
  "publish_ind_msg ric rfid d = do {
     start_it \<leftarrow> assoc_rb_tree_front (nr_pub_sub ric);
     let end_it = assoc_rb_tree_end (nr_pub_sub ric);
     sm_it \<leftarrow> find_if_rb_tree (nr_pub_sub ric) start_it end_it rfid eq_ran_func_id;
     c_assert (sm_it \<noteq> end_it);
     arr \<leftarrow> assoc_rb_tree_value (nr_pub_sub ric) start_it;
     arr \<leftarrow> arr;
     subs \<leftarrow> nr_arrs ric arr;
     _ \<leftarrow> assoc_rb_tree_next (nr_pub_sub ric) start_it;
     Some (ric\<lparr>nr_published := nr_published ric @ map (\<lambda>s. (s, d)) subs\<rparr>)
   }"

section \<open>Message handlers\<close>

text \<open>What the operating system gives to a round: what it gives to the agent, the address that a message comes from, and
  whether a notification is that of a shutdown.\<close>

record ric_stimulus = stimulus +
  rt_info :: sctp_info
  rt_shutdown :: bool

definition check_valid_msg_type_ric :: "e2ap_msg \<Rightarrow> bool" where
  "check_valid_msg_type_ric m = (case m of
       RIC_SUBSCRIPTION_RESPONSE _ \<Rightarrow> True
     | RIC_SUBSCRIPTION_FAILURE \<Rightarrow> True
     | RIC_SUBSCRIPTION_DELETE_RESPONSE _ \<Rightarrow> True
     | RIC_SUBSCRIPTION_DELETE_FAILURE \<Rightarrow> True
     | RIC_INDICATION _ \<Rightarrow> True
     | RIC_CONTROL_ACKNOWLEDGE _ \<Rightarrow> True
     | RIC_CONTROL_FAILURE \<Rightarrow> True
     | E2AP_ERROR_INDICATION \<Rightarrow> True
     | E2_SETUP_REQUEST _ \<Rightarrow> True
     | E2AP_RESET_REQUEST \<Rightarrow> True
     | E2AP_RESET_RESPONSE \<Rightarrow> True
     | RIC_SERVICE_UPDATE \<Rightarrow> True
     | E2_NODE_CONFIGURATION_UPDATE \<Rightarrow> True
     | E2_CONNECTION_UPDATE_ACKNOWLEDGE \<Rightarrow> True
     | E2_CONNECTION_UPDATE_FAILURE \<Rightarrow> True
     | _ \<Rightarrow> False)"

text \<open>The definition of a function is copied to a buffer of 128 bytes.\<close>

fun accept_loop :: "(u16, sm_ric) assoc_rb_tree \<Rightarrow> ran_function list \<Rightarrow> u16 list option" where
  "accept_loop sm_ds [] = Some []"
| "accept_loop sm_ds (rf # rfs) = do {
     start_it \<leftarrow> assoc_rb_tree_front sm_ds;
     let end_it = assoc_rb_tree_end sm_ds;
     let i = rf_id rf;
     it \<leftarrow> find_if_rb_tree sm_ds start_it end_it i eq_ran_func_id;
     c_assert (it \<noteq> end_it);
     key \<leftarrow> assoc_rb_tree_key sm_ds it;
     c_assert (i = key);
     c_assert (length (rf_def rf) < 127);
     acc \<leftarrow> accept_loop sm_ds rfs;
     Some (i # acc)
   }"

definition generate_setup_response :: "near_ric \<Rightarrow> e2_setup_request \<Rightarrow> e2_setup_response option" where
  "generate_setup_response ric req = do {
     accepted \<leftarrow> accept_loop (nr_sm_ds ric) (su_ran_func_item req);
     Some \<lparr>ss_plmn = n_plmn (su_id req), ss_near_ric_id = 25, ss_accepted = accepted, ss_len_rej = 0, ss_len_ccual = 0\<rparr>
   }"

definition init_e2_node :: "global_e2_node_id \<Rightarrow> u16 list \<Rightarrow> e2_node" where
  "init_e2_node i accepted = \<lparr>en_id = i, en_accepted = accepted\<rparr>"

definition stop_pending_event_ric :: "near_ric \<Rightarrow> pending_event_ric \<Rightarrow> near_ric option" where
  "stop_pending_event_ric ric ev = do {
     (fd, m) \<leftarrow> bi_map_extract_right (nr_pending ric) ev PENDING_RIC_SZ;
     let ric = ric\<lparr>nr_pending := m\<rparr>;
     c_assert (fd > 0);
     io \<leftarrow> rm_fd_asio_ric (nr_io ric) fd;
     Some (ric\<lparr>nr_io := io\<rparr>)
   }"

definition e2ap_handle_subscription_response_ric :: "near_ric \<Rightarrow> ric_subscription_response \<Rightarrow> (e2ap_msg \<times> near_ric) option" where
  "e2ap_handle_subscription_response_ric ric resp = do {
     ric \<leftarrow> stop_pending_event_ric ric \<lparr>pr_ev = SUBSCRIPTION_REQUEST_PENDING_EVENT, pr_id = sp_ric_id resp\<rparr>;
     c_assert (sp_len_na resp = 0);
     c_assert (length (sp_admitted resp) = 1);
     c_assert (sp_admitted resp ! 0 = 0);
     let ric = notify_msg_iapp_api ric (RIC_SUBSCRIPTION_RESPONSE resp);
     Some (NONE_E2_MSG_TYPE, ric)
   }"

definition e2ap_handle_subscription_delete_response_ric :: "near_ric \<Rightarrow> ric_gen_id \<Rightarrow> (e2ap_msg \<times> near_ric) option" where
  "e2ap_handle_subscription_delete_response_ric ric resp = do {
     ric \<leftarrow> stop_pending_event_ric ric \<lparr>pr_ev = SUBSCRIPTION_DELETE_REQUEST_PENDING_EVENT, pr_id = resp\<rparr>;
     let ric = notify_msg_iapp_api ric (RIC_SUBSCRIPTION_DELETE_RESPONSE resp);
     Some (NONE_E2_MSG_TYPE, ric)
   }"

text \<open>The time stamp of the statistics that is copied into the message is not a part of the message here.\<close>

definition e2ap_handle_indication_ric :: "near_ric \<Rightarrow> ric_indication \<Rightarrow> (e2ap_msg \<times> near_ric) option" where
  "e2ap_handle_indication_ric ric ind = do {
     let rfid = ran_func_id (ri_ric_id ind);
     sm \<leftarrow> sm_plugin_ric (nr_sm_ds ric) rfid;
     let data = \<lparr>si_ind_hdr = ri_hdr ind, si_ind_msg = ri_msg ind, si_call_process_id = ri_call_process_id ind\<rparr>;
     let d = rp_on_indication sm data;
     c_assert (rd_type d = MAC_STATS_V0 \<or> rd_type d = RLC_STATS_V0 \<or> rd_type d = PDCP_STATS_V0 \<or> rd_type d = SLICE_STATS_V0 \<or>
       rd_type d = KPM_STATS_V0 \<or> rd_type d = GTP_STATS_V0);
     ric \<leftarrow> publish_ind_msg ric rfid d;
     let ric = notify_msg_iapp_api ric (RIC_INDICATION ind);
     Some (NONE_E2_MSG_TYPE, ric)
   }"

definition e2ap_handle_control_ack_ric :: "near_ric \<Rightarrow> ric_control_acknowledge \<Rightarrow> (e2ap_msg \<times> near_ric) option" where
  "e2ap_handle_control_ack_ric ric ack = do {
     c_assert (ca_status ack = RIC_CONTROL_STATUS_SUCCESS);
     ric \<leftarrow> stop_pending_event_ric ric \<lparr>pr_ev = CONTROL_REQUEST_PENDING_EVENT, pr_id = ca_ric_id ack\<rparr>;
     let ric = notify_msg_iapp_api ric (RIC_CONTROL_ACKNOWLEDGE ack);
     Some (NONE_E2_MSG_TYPE, ric)
   }"

text \<open>Printing the request dereferences the identifier of a CU or a DU.\<close>

definition e2ap_handle_setup_request_ric :: "near_ric \<Rightarrow> e2_setup_request \<Rightarrow> (e2ap_msg \<times> near_ric) option" where
  "e2ap_handle_setup_request_ric ric req = do {
     c_assert (NODE_IS_MONOLITHIC (n_type (su_id req)) \<or> n_cu_du_id (su_id req) \<noteq> None);
     ric \<leftarrow> add_e2_node_iapp_api ric (su_id req) (su_ran_func_item req);
     resp \<leftarrow> generate_setup_response ric req;
     let n = init_e2_node (su_id req) (ss_accepted resp);
     Some (E2_SETUP_RESPONSE resp, ric\<lparr>nr_conn_e2_nodes := nr_conn_e2_nodes ric @ [n]\<rparr>)
   }"

text \<open>The handlers of all other valid types consist of a failing assertion.\<close>

definition e2ap_msg_handle_ric :: "near_ric \<Rightarrow> e2ap_msg \<Rightarrow> (e2ap_msg \<times> near_ric) option" where
  "e2ap_msg_handle_ric ric msg = do {
     c_assert (check_valid_msg_type_ric msg);
     case msg of
       RIC_SUBSCRIPTION_RESPONSE resp \<Rightarrow> e2ap_handle_subscription_response_ric ric resp
     | RIC_SUBSCRIPTION_DELETE_RESPONSE resp \<Rightarrow> e2ap_handle_subscription_delete_response_ric ric resp
     | RIC_INDICATION ind \<Rightarrow> e2ap_handle_indication_ric ric ind
     | RIC_CONTROL_ACKNOWLEDGE ack \<Rightarrow> e2ap_handle_control_ack_ric ric ack
     | E2_SETUP_REQUEST req \<Rightarrow> e2ap_handle_setup_request_ric ric req
     | _ \<Rightarrow> None
   }"

definition notification_handle_ric :: "near_ric \<Rightarrow> ric_stimulus \<Rightarrow> near_ric option" where
  "notification_handle_ric ric st = do {
     c_assert (rt_shutdown st);
     (i, m) \<leftarrow> rm_map_sad_e2_node (nr_e2_nodes ric) (rt_info st);
     let ric = ric\<lparr>nr_e2_nodes := m\<rparr>;
     let ns = nr_conn_e2_nodes ric;
     let it = length (takeWhile (\<lambda>n. \<not> eq_global_e2_node_id False i (en_id n)) ns);
     c_assert (it \<noteq> length ns);
     let ric = ric\<lparr>nr_conn_e2_nodes := take it ns @ drop (it + 1) ns\<rparr>;
     Some (ric\<lparr>nr_iapp := nr_iapp ric @ [Iapp_rm_node i]\<rparr>)
   }"

section \<open>The event loop\<close>

definition net_pkt_ric :: "near_ric \<Rightarrow> int \<Rightarrow> bool option" where
  "net_pkt_ric ric fd = do {
     c_assert (fd > 0);
     Some (fd = nr_ep_fd ric)
   }"

definition pend_event_ric :: "near_ric \<Rightarrow> int \<Rightarrow> pending_event_ric option option" where
  "pend_event_ric ric fd = do {
     c_assert (fd > 0);
     sz \<leftarrow> bi_map_size (nr_pending ric);
     c_assert (sz = 1);
     start_it \<leftarrow> assoc_rb_tree_front (b_left (nr_pending ric));
     let end_it = assoc_rb_tree_end (b_left (nr_pending ric));
     it \<leftarrow> find_if_rb_tree (b_left (nr_pending ric)) start_it end_it fd eq_fd_key;
     c_assert (it \<noteq> end_it);
     assoc_rb_tree_value (b_left (nr_pending ric)) it
   }"

datatype ric_async_event =
    RIC_CHECK_STOP_TOKEN_EVENT
  | RIC_SCTP_CONNECTION_SHUTDOWN_EVENT
  | RIC_SCTP_MSG_ARRIVED_EVENT e2ap_msg
  | RIC_PENDING_EVENT pending_event_ric

definition next_asio_event_ric :: "near_ric \<Rightarrow> ric_stimulus \<Rightarrow> (int \<times> ric_async_event) option" where
  "next_asio_event_ric ric st = do {
     fd \<leftarrow> event_asio_ric (st_ready st);
     if fd = - 1 then Some (fd, RIC_CHECK_STOP_TOKEN_EVENT)
     else do {
       net \<leftarrow> net_pkt_ric ric fd;
       if net then
         (case st_recv st of
            SCTP_MSG_NOTIFICATION \<Rightarrow> Some (fd, RIC_SCTP_CONNECTION_SHUTDOWN_EVENT)
          | SCTP_MSG_PAYLOAD m \<Rightarrow> Some (fd, RIC_SCTP_MSG_ARRIVED_EVENT m))
       else do {
         p_ev \<leftarrow> pend_event_ric ric fd;
         ev \<leftarrow> p_ev;
         Some (fd, RIC_PENDING_EVENT ev)
       }
     }
   }"

text \<open>One round of the loop.\<close>

definition e2_event_step_ric :: "near_ric \<Rightarrow> ric_stimulus \<Rightarrow> near_ric option" where
  "e2_event_step_ric ric st = do {
     (fd, e) \<leftarrow> next_asio_event_ric ric st;
     case e of
       RIC_SCTP_MSG_ARRIVED_EVENT msg \<Rightarrow> do {
         ric \<leftarrow> (case msg of
             E2_SETUP_REQUEST req \<Rightarrow> do {
               m \<leftarrow> add_map_e2_node_sad (nr_e2_nodes ric) (st_z1 st) (st_z2 st) (su_id req) (rt_info st);
               Some (ric\<lparr>nr_e2_nodes := m\<rparr>)
             }
           | _ \<Rightarrow> Some ric);
         (ans, ric) \<leftarrow> e2ap_msg_handle_ric ric msg;
         Some (if ans \<noteq> NONE_E2_MSG_TYPE then e2ap_send_sctp_msg_ric ric (rt_info st) ans else ric)
       }
     | RIC_PENDING_EVENT p_ev \<Rightarrow> do {
         consume_fd (st_read st) fd;
         Some ric
       }
     | RIC_SCTP_CONNECTION_SHUTDOWN_EVENT \<Rightarrow> notification_handle_ric ric st
     | RIC_CHECK_STOP_TOKEN_EVENT \<Rightarrow> Some ric
   }"

text \<open>The loop, on the rounds that it makes before another thread sets the stop token.\<close>

fun e2_event_loop_ric :: "near_ric \<Rightarrow> ric_stimulus list \<Rightarrow> near_ric option" where
  "e2_event_loop_ric ric [] = Some (ric\<lparr>nr_stop_token := True, nr_server_stopped := True\<rparr>)"
| "e2_event_loop_ric ric (st # sts) = do {
     ric \<leftarrow> e2_event_step_ric ric st;
     e2_event_loop_ric ric sts
   }"

section \<open>Requests\<close>

text \<open>A pending event is created along with a timer.\<close>

definition add_pending_event_ric :: "near_ric \<Rightarrow> stimulus \<Rightarrow> int \<Rightarrow> pending_event_ric \<Rightarrow> near_ric option" where
  "add_pending_event_ric ric st wait_ms ev = do {
     (fd_timer, io) \<leftarrow> create_timer_ms_asio_ric (nr_io ric) (st_tfd st) wait_ms wait_ms;
     let ric = ric\<lparr>nr_io := io\<rparr>;
     m \<leftarrow> bi_map_insert (nr_pending ric) (st_z1 st) (st_z2 st) fd_timer FD_SZ ev PENDING_RIC_SZ;
     Some (ric\<lparr>nr_pending := m\<rparr>)
   }"

text \<open>\<^verbatim>\<open>*(uint16_t*)&id.ric_req_id = r\<close> on a little-endian machine.\<close>

definition set_low_req_id :: "ric_gen_id \<Rightarrow> u16 \<Rightarrow> ric_gen_id" where
  "set_low_req_id i r = i\<lparr>ric_req_id := (ric_req_id i AND 0xFFFF0000) OR ucast r\<rparr>"

definition fwd_ric_subscription_request ::
    "near_ric \<Rightarrow> stimulus \<Rightarrow> global_e2_node_id \<Rightarrow> ric_subscription_request \<Rightarrow> (u16 \<times> near_ric) option" where
  "fwd_ric_subscription_request ric st i sr = do {
     let r = ucast (nr_req_id ric);
     let ric = ric\<lparr>nr_req_id := nr_req_id ric + 1\<rparr>;
     let sr = sr\<lparr>sr_ric_id := set_low_req_id (sr_ric_id sr) r\<rparr>;
     ric \<leftarrow> add_pending_event_ric ric st 3000 \<lparr>pr_ev = SUBSCRIPTION_REQUEST_PENDING_EVENT, pr_id = sr_ric_id sr\<rparr>;
     ric \<leftarrow> e2ap_send_bytes_ric ric i (RIC_SUBSCRIPTION_REQUEST sr);
     Some (r, ric)
   }"

definition fwd_ric_subscription_request_delete :: "near_ric \<Rightarrow> stimulus \<Rightarrow> global_e2_node_id \<Rightarrow> ric_gen_id \<Rightarrow> near_ric option" where
  "fwd_ric_subscription_request_delete ric st i sdr = do {
     ric \<leftarrow> add_pending_event_ric ric st 3000 \<lparr>pr_ev = SUBSCRIPTION_DELETE_REQUEST_PENDING_EVENT, pr_id = sdr\<rparr>;
     e2ap_send_bytes_ric ric i (RIC_SUBSCRIPTION_DELETE_REQUEST sdr)
   }"

definition fwd_ric_control_request ::
    "near_ric \<Rightarrow> stimulus \<Rightarrow> global_e2_node_id \<Rightarrow> ric_control_request \<Rightarrow> (u16 \<times> near_ric) option" where
  "fwd_ric_control_request ric st i cr = do {
     let r = ucast (nr_req_id ric);
     let ric = ric\<lparr>nr_req_id := nr_req_id ric + 1\<rparr>;
     let cr = cr\<lparr>cr_ric_id := set_low_req_id (cr_ric_id cr) r\<rparr>;
     ric \<leftarrow> add_pending_event_ric ric st 3000 \<lparr>pr_ev = CONTROL_REQUEST_PENDING_EVENT, pr_id = cr_ric_id cr\<rparr>;
     ric \<leftarrow> e2ap_send_bytes_ric ric i (RIC_CONTROL_REQUEST cr);
     Some (r, ric)
   }"

definition generate_subscription_request :: "near_ric \<Rightarrow> sm_ric \<Rightarrow> u16 \<Rightarrow> string \<Rightarrow> ric_subscription_request \<times> near_ric" where
  "generate_subscription_request ric sm rfid cmd =
     (let ric_id = \<lparr>ric_req_id = nr_req_id ric, ric_inst_id = 0, ran_func_id = rfid\<rparr>;
          ric = ric\<lparr>nr_req_id := nr_req_id ric + 1\<rparr>;
          data = rp_on_subscription sm cmd
      in (\<lparr>sr_ric_id = ric_id, sr_event_trigger = sd_event_trigger data,
           sr_action = [\<lparr>ra_id = 0, ra_type = RIC_ACT_REPORT, ra_definition = sd_action_def data, ra_subseq_action = None\<rparr>]\<rparr>, ric))"

definition report_service_near_ric :: "near_ric \<Rightarrow> stimulus \<Rightarrow> global_e2_node_id \<Rightarrow> u16 \<Rightarrow> string \<Rightarrow> near_ric option" where
  "report_service_near_ric ric st i rfid cmd = do {
     c_assert (rfid \<noteq> 0);
     sm \<leftarrow> sm_plugin_ric (nr_sm_ds ric) rfid;
     let (sr, ric) = generate_subscription_request ric sm rfid cmd;
     ric \<leftarrow> add_pending_event_ric ric st 3000 \<lparr>pr_ev = SUBSCRIPTION_REQUEST_PENDING_EVENT, pr_id = sr_ric_id sr\<rparr>;
     e2ap_send_bytes_ric ric i (RIC_SUBSCRIPTION_REQUEST sr)
   }"

definition generate_control_request :: "near_ric \<Rightarrow> sm_ric \<Rightarrow> string \<Rightarrow> ric_control_request \<times> near_ric" where
  "generate_control_request ric sm wr =
     (let ric_id = \<lparr>ric_req_id = nr_req_id ric, ric_inst_id = 0, ran_func_id = rp_ran_func_id sm\<rparr>;
          ric = ric\<lparr>nr_req_id := nr_req_id ric + 1\<rparr>;
          data = rp_on_control_req sm wr
      in (\<lparr>cr_ric_id = ric_id, cr_call_process_id = None, cr_hdr = sc_ctrl_hdr data, cr_msg = sc_ctrl_msg data,
           cr_ack_req = Some RIC_CONTROL_REQUEST_ACK\<rparr>, ric))"

definition control_service_near_ric :: "near_ric \<Rightarrow> stimulus \<Rightarrow> global_e2_node_id \<Rightarrow> u16 \<Rightarrow> string \<Rightarrow> near_ric option" where
  "control_service_near_ric ric st i rfid cmd = do {
     c_assert (rfid > 0);
     sm \<leftarrow> sm_plugin_ric (nr_sm_ds ric) rfid;
     c_assert (rp_ran_func_id sm = 142 \<or> rp_ran_func_id sm = 145);
     let (cr, ric) = generate_control_request ric sm cmd;
     ric \<leftarrow> add_pending_event_ric ric st 2000 \<lparr>pr_ev = CONTROL_REQUEST_PENDING_EVENT, pr_id = cr_ric_id cr\<rparr>;
     e2ap_send_bytes_ric ric i (RIC_CONTROL_REQUEST cr)
   }"

definition conn_e2_nodes :: "near_ric \<Rightarrow> e2_node list" where
  "conn_e2_nodes ric = foldl (\<lambda>arr n. arr @ [n]) [] (nr_conn_e2_nodes ric)"

section \<open>Start and end\<close>

definition init_pending_events_ric :: "ref \<Rightarrow> ref \<Rightarrow> (int, pending_event_ric) bi_map option" where
  "init_pending_events_ric d1 d2 = bi_map_init d1 d2 FD_SZ PENDING_RIC_SZ cmp_fd_key cmp_pending_event_ric"

text \<open>The addresses of the dummy nodes of the trees: service models, listeners, nodes and pending events.\<close>

record ric_refs =
  rr_sm :: ref
  rr_pub :: ref
  rr_n1 :: ref
  rr_n2 :: ref
  rr_p1 :: ref
  rr_p2 :: ref

text \<open>The initialisation, up to the listeners.\<close>

definition alloc_near_ric :: "int \<Rightarrow> ric_refs \<Rightarrow> (ref \<times> sm_ric) list \<Rightarrow> near_ric option" where
  "alloc_near_ric sock_fd d files = do {
     c_assert (sock_fd \<noteq> - 1);
     nodes \<leftarrow> init_map_e2_node_sad (rr_n1 d) (rr_n2 d);
     let io = init_asio_agent;
     io \<leftarrow> add_fd_asio_ric io sock_fd;
     sm_ds \<leftarrow> init_plugin_ric (rr_sm d) files;
     pub_sub \<leftarrow> assoc_rb_tree_init (rr_pub d) RAN_FUNC_SZ cmp_ran_func_id;
     pending \<leftarrow> init_pending_events_ric (rr_p1 d) (rr_p2 d);
     Some \<lparr>nr_ep_fd = sock_fd, nr_e2_nodes = nodes, nr_io = io, nr_sm_ds = sm_ds, nr_pub_sub = pub_sub, nr_arrs = Map.empty,
        nr_conn_e2_nodes = [], nr_req_id = 1021, nr_pending = pending, nr_server_stopped = False, nr_stop_token = False,
        nr_sent = [], nr_published = [], nr_iapp = []\<rparr>
   }"

definition init_near_ric :: "int \<Rightarrow> ric_refs \<Rightarrow> (ref \<times> sm_ric) list \<Rightarrow> (ref \<times> ref) list \<Rightarrow> near_ric option" where
  "init_near_ric sock_fd d files zs = do {
     ric \<leftarrow> alloc_near_ric sock_fd d files;
     load_default_pub_sub_ric ric zs
   }"

definition free_pending_ev_ric :: "pending_event_ric option \<times> 'v option \<Rightarrow> unit option" where
  "free_pending_ev_ric kv = do {
     ev \<leftarrow> fst kv;
     v \<leftarrow> snd kv;
     ok \<leftarrow> valid_pending_event (pr_ev ev);
     c_assert ok
   }"

definition free_near_ric :: "near_ric \<Rightarrow> unit option" where
  "free_near_ric ric = do {
     c_assert (nr_server_stopped ric);
     (fs, gs, _) \<leftarrow> bi_map_free (nr_e2_nodes ric);
     c_assert (\<forall>kv \<in> set fs. free_entry kv \<noteq> None);
     c_assert (\<forall>kv \<in> set gs. free_entry kv \<noteq> None);
     (fs, _) \<leftarrow> assoc_rb_tree_free (nr_sm_ds ric);
     c_assert (\<forall>kv \<in> set fs. free_entry kv \<noteq> None);
     (fs, _) \<leftarrow> assoc_rb_tree_free (nr_pub_sub ric);
     c_assert (\<forall>kv \<in> set fs. free_entry kv \<noteq> None);
     (fs, gs, _) \<leftarrow> bi_map_free (nr_pending ric);
     c_assert (\<forall>kv \<in> set fs. free_fd kv \<noteq> None);
     c_assert (\<forall>kv \<in> set gs. free_pending_ev_ric kv \<noteq> None)
   }"

end
