(* ===== verification/E2AgentSpec.thy ===== *)
theory E2AgentSpec
  imports E2Agent begin

text \<open>
  What an E2 agent promises to the controller: a state of four parts (the timers of pending setup requests, the active
  subscriptions, the RAN and the messages sent so far) and the rounds of the event loop as transitions on it.
\<close>

section \<open>The transitions\<close>

record 'w ag_state =
  as_pend :: "(int \<times> pending_event) set"
  as_ind :: "(int \<times> 'w ind_event) set"
  as_ran :: 'w
  as_sent :: "e2ap_msg list"

definition spec_sm :: "'w sm_agent list \<Rightarrow> u16 \<Rightarrow> 'w sm_agent option" where
  "spec_sm sms fid = (if fid > 0 then find (\<lambda>sm. sm_ran_func_id sm = fid) sms else None)"

fun setup_items :: "'w sm_agent list \<Rightarrow> 'w \<Rightarrow> ran_function list \<times> 'w" where
  "setup_items [] w = ([], w)"
| "setup_items (sm # sms) w =
     (let (d, w) = on_e2_setup sm w; (rfs, w) = setup_items sms w
      in (\<lparr>rf_def = d, rf_id = sm_ran_func_id sm, rf_rev = 0, rf_oid = None\<rparr> # rfs, w))"

definition spec_setup :: "global_e2_node_id \<Rightarrow> 'w sm_agent list \<Rightarrow> 'w ag_state \<Rightarrow> 'w ag_state" where
  "spec_setup gid sms a =
     (let (rfs, w) = setup_items sms (as_ran a)
      in a\<lparr>as_ran := w,
          as_sent := as_sent a @ [E2_SETUP_REQUEST \<lparr>su_id = gid, su_ran_func_item = rfs, su_len_ccu = 0\<rparr>]\<rparr>)"

definition spec_subscribe :: "'w sm_agent list \<Rightarrow> 'w ag_state \<Rightarrow> int \<Rightarrow> ric_subscription_request \<Rightarrow> 'w ag_state set" where
  "spec_subscribe sms a tfd sr =
     {a\<lparr>as_ran := snd (on_subscription sm (as_ran a) \<lparr>sd_event_trigger = sr_event_trigger sr, sd_action_def = ra_definition act\<rparr>),
        as_ind := insert (tfd, \<lparr>ie_ric_id = sr_ric_id sr, ie_sm = Some sm, ie_action_id = ra_id act\<rparr>) (as_ind a),
        as_sent := as_sent a @ [RIC_SUBSCRIPTION_RESPONSE
          \<lparr>sp_ric_id = sr_ric_id sr, sp_admitted = [ra_id act], sp_len_na = 0\<rparr>]\<rparr> |
      act sm. sr_action sr = [act] \<and> ra_type act = RIC_ACT_REPORT \<and> spec_sm sms (ran_func_id (sr_ric_id sr)) = Some sm}"

definition spec_delete :: "'w ag_state \<Rightarrow> ric_gen_id \<Rightarrow> 'w ag_state set" where
  "spec_delete a ric_id =
     {a\<lparr>as_ind := as_ind a - {(fd, e)}, as_sent := as_sent a @ [RIC_SUBSCRIPTION_DELETE_RESPONSE ric_id]\<rparr> |
      fd e. (fd, e) \<in> as_ind a \<and> ie_ric_id e = ric_id}"

definition spec_control :: "'w sm_agent list \<Rightarrow> 'w ag_state \<Rightarrow> ric_control_request \<Rightarrow> 'w ag_state set" where
  "spec_control sms a cr =
     {a\<lparr>as_ran := w,
        as_sent := as_sent a @ [RIC_CONTROL_ACKNOWLEDGE \<lparr>ca_ric_id = cr_ric_id cr, ca_call_process_id = None,
          ca_status = RIC_CONTROL_STATUS_SUCCESS, ca_control_outcome = (if out = [] then None else Some out)\<rparr>]\<rparr> |
      sm out w. cr_ack_req cr = Some RIC_CONTROL_REQUEST_ACK \<and> spec_sm sms (ran_func_id (cr_ric_id cr)) = Some sm \<and>
        on_control sm (as_ran a) \<lparr>sc_ctrl_hdr = cr_hdr cr, sc_ctrl_msg = cr_msg cr\<rparr> = (out, w)}"

definition spec_setup_response :: "'w ag_state \<Rightarrow> 'w ag_state set" where
  "spec_setup_response a = {a\<lparr>as_pend := as_pend a - {q}\<rparr> | q. q \<in> as_pend a}"

definition spec_msg :: "'w sm_agent list \<Rightarrow> 'w ag_state \<Rightarrow> int \<Rightarrow> e2ap_msg \<Rightarrow> 'w ag_state set" where
  "spec_msg sms a tfd m = (case m of
       RIC_SUBSCRIPTION_REQUEST sr \<Rightarrow> spec_subscribe sms a tfd sr
     | RIC_SUBSCRIPTION_DELETE_REQUEST ric_id \<Rightarrow> spec_delete a ric_id
     | RIC_CONTROL_REQUEST cr \<Rightarrow> spec_control sms a cr
     | E2_SETUP_RESPONSE _ \<Rightarrow> spec_setup_response a
     | _ \<Rightarrow> {})"

definition spec_indication :: "'w ag_state \<Rightarrow> int \<Rightarrow> 'w ag_state set" where
  "spec_indication a fd =
     {a\<lparr>as_ran := w,
        as_sent := as_sent a @ [RIC_INDICATION \<lparr>ri_ric_id = ie_ric_id e, ri_action_id = ie_action_id e, ri_sn = None,
          ri_type = RIC_IND_REPORT, ri_hdr = si_ind_hdr d, ri_msg = si_ind_msg d, ri_call_process_id = None\<rparr>]\<rparr> |
      e sm d w. (fd, e) \<in> as_ind a \<and> ie_sm e = Some sm \<and> on_indication sm (as_ran a) = (d, w) \<and> si_call_process_id d = None}"

text \<open>A round of the loop: the states it may lead to, none when the program stops.\<close>

definition spec_step :: "int \<Rightarrow> global_e2_node_id \<Rightarrow> 'w sm_agent list \<Rightarrow> 'w ag_state \<Rightarrow> stimulus \<Rightarrow> 'w ag_state set" where
  "spec_step ep gid sms a st = (case st_ready st of
       Epoll_error \<Rightarrow> {}
     | Epoll_timeout \<Rightarrow> {a}
     | Epoll_ready err fd \<Rightarrow>
         if err then {}
         else if fd = - 1 then {a}
         else if fd \<le> 0 then {}
         else if fd = ep then
           (case st_recv st of
              SCTP_MSG_PAYLOAD m \<Rightarrow> spec_msg sms a (st_tfd st) m
            | SCTP_MSG_NOTIFICATION \<Rightarrow> {a\<lparr>as_pend := insert (st_tfd st, SETUP_REQUEST_PENDING_EVENT) (as_pend a)\<rparr>})
         else if fd \<in> fst ` as_ind a then (if st_read st = 8 then spec_indication a fd else {})
         else if card (as_pend a) = 1 \<and> fd \<in> fst ` as_pend a \<and> sms \<noteq> [] \<and> st_read st = 8 then {spec_setup gid sms a}
         else {})"

section \<open>The representation\<close>

definition sm_ok :: "(u16, 'w sm_agent) assoc_rb_tree \<Rightarrow> 'w sm_agent list \<Rightarrow> bool" where
  "sm_ok ds sms \<longleftrightarrow> tree_holds ds (map (\<lambda>sm. (sm_ran_func_id sm, Some sm)) sms) \<and>
     sorted_wrt (\<lambda>a b. sm_ran_func_id a < sm_ran_func_id b) sms \<and> t_comp ds = cmp_ran_func_id \<and> t_key_sz ds = RAN_FUNC_SZ"

definition same_ind :: "'w ind_event \<Rightarrow> 'w ind_event \<Rightarrow> bool" where
  "same_ind a b \<longleftrightarrow> ie_ric_id a = ie_ric_id b"

interpretation ind3: three_way "\<lambda>_. True" cmp_ind_event same_ind
  by (rule three_way_key [where key = "\<lambda>e. ric_gen_key (ie_ric_id e)"])
    (simp_all add: cmp_ind_event_def cmp_ric_gen_key same_ind_def)

interpretation ind_map: bi_order "\<lambda>fd. 0 < fd" cmp_fd_key "\<lambda>a b. eq_fd a b = Some True" "\<lambda>_. True" cmp_ind_event same_ind
  ..

interpretation setup_map: bi_order "\<lambda>fd. 0 < fd" cmp_fd_key "\<lambda>a b. eq_fd a b = Some True" "\<lambda>_. True" cmp_pending_event "(=)"
  ..

definition fd_rel :: "nat \<Rightarrow> ('b \<Rightarrow> 'b \<Rightarrow> int) \<Rightarrow> (int, 'b) bi_map \<Rightarrow> (int \<times> 'b) set \<Rightarrow> bool" where
  "fd_rel sz cmp m P \<longleftrightarrow> bi_rel (\<lambda>fd. 0 < fd) cmp_fd_key FD_SZ (\<lambda>_. True) cmp sz m P \<and> inj_on fst P"

definition agent_ok :: "int \<Rightarrow> global_e2_node_id \<Rightarrow> 'w sm_agent list \<Rightarrow> 'w e2_agent \<Rightarrow> 'w ag_state \<Rightarrow> bool" where
  "agent_ok ep gid sms ag a \<longleftrightarrow>
     sm_ok (ag_sm_ds ag) sms \<and> fd_rel PENDING_EVENT_SZ cmp_pending_event (ag_pending ag) (as_pend a) \<and>
     fd_rel IND_EVENT_SZ cmp_ind_event (ag_ind_event ag) (as_ind a) \<and>
     ag_ep_fd ag = ep \<and> 0 < ep \<and> ep \<notin> fst ` as_pend a \<union> fst ` as_ind a \<and> fst ` as_pend a \<inter> fst ` as_ind a = {} \<and>
     io_fds (ag_io ag) = insert ep (fst ` as_pend a \<union> fst ` as_ind a) \<and>
     snd ` as_pend a \<subseteq> {SETUP_REQUEST_PENDING_EVENT} \<and> (\<forall>(fd, e) \<in> as_ind a. \<exists>sm \<in> set sms. ie_sm e = Some sm) \<and>
     ag_global_e2_node_id ag = gid \<and> ag_ran ag = as_ran a \<and> ag_sent ag = as_sent a"

text \<open>The operating system gives a new file descriptor and unused memory.\<close>

definition fresh :: "'w e2_agent \<Rightarrow> stimulus \<Rightarrow> bool" where
  "fresh ag st \<longleftrightarrow> 0 < st_tfd st \<and> st_tfd st \<notin> io_fds (ag_io ag) \<and> st_z1 st \<noteq> NULL \<and> st_z2 st \<noteq> NULL \<and>
     t_heap (b_left (ag_ind_event ag)) (st_z1 st) = None \<and> t_heap (b_right (ag_ind_event ag)) (st_z2 st) = None \<and>
     t_heap (b_left (ag_pending ag)) (st_z1 st) = None \<and> t_heap (b_right (ag_pending ag)) (st_z2 st) = None"

section \<open>Reading\<close>

lemma sm_distinct: "sm_ok ds sms \<Longrightarrow> distinct (map sm_ran_func_id sms)"
  using strict_sorted_iff [of "map sm_ran_func_id sms"] by (simp add: sm_ok_def sorted_wrt_map)

lemma sm_rel:
  assumes "sm_ok ds sms"
  shows "tree_rel (\<lambda>_. True) cmp_ran_func_id RAN_FUNC_SZ ds ((\<lambda>sm. (sm_ran_func_id sm, sm)) ` set sms)"
proof -
  let ?ps = "map (\<lambda>sm. (sm_ran_func_id sm, sm)) sms"
  have p: "pairs ?ps = map (\<lambda>sm. (sm_ran_func_id sm, Some sm)) sms" by simp
  have "sorted_wrt (\<lambda>a b. sm_ran_func_id a < sm_ran_func_id b) sms" using assms by (simp add: sm_ok_def)
  then have "sorted_wrt (\<lambda>a b. cmp_ran_func_id (sm_ran_func_id b) (sm_ran_func_id a) \<noteq> 1) sms"
    by (rule sorted_wrt_mono_rel [rotated]) (auto simp: cmp_ran_func_id_def dest: order.asym)
  then have "sorted_keys (\<lambda>_. True) cmp_ran_func_id (pairs ?ps)" unfolding p by (simp add: sorted_keys_def sorted_wrt_map)
  moreover have "distinct ?ps" using sm_distinct [OF assms] by (auto simp: distinct_map inj_on_def)
  moreover have "tree_holds ds (pairs ?ps)" unfolding p using assms by (simp add: sm_ok_def)
  moreover have "set ?ps = (\<lambda>sm. (sm_ran_func_id sm, sm)) ` set sms" by simp
  moreover have "t_comp ds = cmp_ran_func_id" "t_key_sz ds = RAN_FUNC_SZ" using assms by (simp_all add: sm_ok_def)
  moreover have "0 < RAN_FUNC_SZ" by simp
  ultimately show ?thesis unfolding tree_rel_def by blast
qed

lemma find_unique:
  "distinct (map f xs) \<Longrightarrow> x \<in> set xs \<Longrightarrow> find (\<lambda>y. f y = f x) xs = Some x"
  by (induction xs) (auto simp: image_iff)

lemma sm_plugin:
  assumes "sm_ok ds sms"
  shows "sm_plugin_ag ds fid = spec_sm sms fid"
proof -
  have run: "sm_plugin_ag ds fid = do {
      c_assert (fid > 0);
      it \<leftarrow> assoc_rb_tree_front ds \<bind> (\<lambda>first. find_if_rb_tree ds first (assoc_rb_tree_end ds) fid eq_ran_func_id);
      c_assert (it \<noteq> assoc_rb_tree_end ds);
      sm \<leftarrow> assoc_rb_tree_value ds it;
      sm \<leftarrow> sm;
      c_assert (sm_ran_func_id sm = fid);
      Some sm
    }"
    by (simp add: sm_plugin_ag_def Let_def Option.bind_assoc)
  show ?thesis
  proof (cases rule: tree_rel_find [OF sm_rel [OF assms], of fid eq_ran_func_id])
    case (1 it p)
    then obtain sm where sm: "p = (sm_ran_func_id sm, sm)" "sm \<in> set sms" "fid = sm_ran_func_id sm" by (auto simp: eq_ran_func_id_def)
    then have "find (\<lambda>y. sm_ran_func_id y = fid) sms = Some sm" using find_unique [OF sm_distinct [OF assms]] by blast
    then show ?thesis using 1 sm unfolding run by (simp add: spec_sm_def c_assert_def)
  next
    case 2
    then have "\<forall>sm \<in> set sms. sm_ran_func_id sm \<noteq> fid" by (auto simp: eq_ran_func_id_def)
    then have "find (\<lambda>y. sm_ran_func_id y = fid) sms = None" by (simp add: find_None_iff)
    then show ?thesis using 2(1) unfolding run by (simp add: spec_sm_def c_assert_def)
  qed
qed

lemma setup_loop:
  assumes "heap_tree ds T" and "entries T = xs @ ys" and "map snd ys = map (\<lambda>sm. (sm_ran_func_id sm, Some sm)) sms"
  shows "setup_loop ds (length sms) (first_ref (t_dummy ds) ys) w =
    (case setup_items sms w of (rfs, w) \<Rightarrow> Some (rfs, t_dummy ds, w))"
  using assms(2,3)
proof (induction sms arbitrary: xs ys w)
  case Nil
  then show ?case by simp
next
  case (Cons sm sms)
  then obtain e es where ys: "ys = e # es" "snd e = (sm_ran_func_id sm, Some sm)"
    "map snd es = map (\<lambda>sm. (sm_ran_func_id sm, Some sm)) sms"
    by (cases ys) auto
  have "entries T = xs @ e # es" using Cons.prems(1) ys(1) by simp
  note it = iterator [OF assms(1) this]
  obtain d w1 where d: "on_e2_setup sm w = (d, w1)" by (cases "on_e2_setup sm w")
  have "entries T = (xs @ [e]) @ es" using Cons.prems(1) ys(1) by simp
  from Cons.IH [OF this ys(3), of w1] show ?case
    using it ys d by (simp split: prod.splits)
qed

lemma generate_setup:
  assumes "sm_ok (ag_sm_ds ag) sms"
  shows "generate_setup_request ag = (if sms = [] then None
    else case setup_items sms (ag_ran ag) of (rfs, w) \<Rightarrow>
      Some (\<lparr>su_id = ag_global_e2_node_id ag, su_ran_func_item = rfs, su_len_ccu = 0\<rparr>, ag\<lparr>ag_ran := w\<rparr>))"
proof -
  let ?ds = "ag_sm_ds ag"
  have h: "tree_holds ?ds (map (\<lambda>sm. (sm_ran_func_id sm, Some sm)) sms)" using assms by (simp add: sm_ok_def)
  then obtain T where T: "heap_tree ?ds T" "map snd (entries T) = map (\<lambda>sm. (sm_ran_func_id sm, Some sm)) sms"
    by (auto simp: tree_holds_def tree_wf_def)
  have size: "assoc_rb_tree_size ?ds = length sms" using tree_holds_size [OF h] by simp
  have "setup_loop ?ds (length sms) (first_ref (t_dummy ?ds) (entries T)) (ag_ran ag) =
      (case setup_items sms (ag_ran ag) of (rfs, w) \<Rightarrow> Some (rfs, t_dummy ?ds, w))"
    by (rule setup_loop [OF T(1) _ T(2), of "[]"]) simp
  then show ?thesis
    using size assoc_rb_tree_front [OF T(1)]
    by (auto simp: generate_setup_request_def assoc_rb_tree_end_def c_assert_def split: prod.splits)
qed

lemma fd_relD:
  assumes "fd_rel sz cmp m P"
  shows "tree_rel (\<lambda>fd. 0 < fd) cmp_fd_key FD_SZ (b_left m) P" "inj_on fst P" "finite P" "q \<in> P \<Longrightarrow> 0 < fst q"
    "left_unique (\<lambda>a b. eq_fd a b = Some True) P" "bi_map_size m = Some (card P)"
proof -
  show t: "tree_rel (\<lambda>fd. 0 < fd) cmp_fd_key FD_SZ (b_left m) P" and i: "inj_on fst P"
    using assms by (simp_all add: fd_rel_def bi_rel_def)
  show "q \<in> P \<Longrightarrow> 0 < fst q" "finite P" using tree_rel_valid [OF t] tree_rel_finite [OF t] by auto
  show "left_unique (\<lambda>a b. eq_fd a b = Some True) P" using left_unique_fd [OF i] tree_rel_valid [OF t] by auto
  show "bi_map_size m = Some (card P)" using assms bi_map_size_rel by (simp add: fd_rel_def) blast
qed

text \<open>The search for a file descriptor in the left tree.\<close>

lemma find_fd:
  assumes "fd_rel sz cmp m P" and "0 < fd"
  obtains (hit) it e where "(assoc_rb_tree_front (b_left m) \<bind>
      (\<lambda>first. find_if_rb_tree (b_left m) first (assoc_rb_tree_end (b_left m)) fd eq_fd_key)) = Some it"
    "(fd, e) \<in> P" "it \<noteq> assoc_rb_tree_end (b_left m)" "assoc_rb_tree_value (b_left m) it = Some (Some e)"
  | (miss) "(assoc_rb_tree_front (b_left m) \<bind>
      (\<lambda>first. find_if_rb_tree (b_left m) first (assoc_rb_tree_end (b_left m)) fd eq_fd_key)) = Some (assoc_rb_tree_end (b_left m))"
    "fd \<notin> fst ` P"
proof (cases rule: tree_rel_find [OF fd_relD(1) [OF assms(1)], of fd eq_fd_key])
  case (1 it p)
  then have "fst p = fd" using fd_relD(4) [OF assms(1) 1(2)] assms(2) by (simp add: eq_fd_def)
  then have "(fd, snd p) \<in> P" using 1(2) by (cases p) auto
  then show ?thesis using 1 hit [of it "snd p"] by simp
next
  case 2
  have "fd \<noteq> fst p" if "p \<in> P" for p
    using that 2(2) fd_relD(4) [OF assms(1) that] assms(2) by (auto simp: eq_fd_def)
  then have "fd \<notin> fst ` P" by blast
  then show ?thesis using 2(1) miss by blast
qed

lemma the_pair:
  assumes "inj_on fst P" and "(x, y) \<in> P"
  shows "(THE z. (x, z) \<in> P) = y" "x \<in> fst ` P"
proof -
  have "z = y" if "(x, z) \<in> P" for z using inj_onD [OF assms(1) _ that assms(2)] by simp
  then show "(THE z. (x, z) \<in> P) = y" using assms(2) by blast
  show "x \<in> fst ` P" using assms(2) by force
qed

lemma ind_event_of:
  assumes "fd_rel sz cmp (ag_ind_event ag) I" and "0 < fd"
  shows "ind_event_of ag fd = (if fd \<in> fst ` I then Some (Some (THE e. (fd, e) \<in> I)) else Some None)"
proof -
  have run: "ind_event_of ag fd = do {
      it \<leftarrow> assoc_rb_tree_front (b_left (ag_ind_event ag)) \<bind>
        (\<lambda>first. find_if_rb_tree (b_left (ag_ind_event ag)) first (assoc_rb_tree_end (b_left (ag_ind_event ag))) fd eq_fd_key);
      if it \<noteq> assoc_rb_tree_end (b_left (ag_ind_event ag)) then assoc_rb_tree_value (b_left (ag_ind_event ag)) it else Some None
    }"
    using assms(2) by (simp add: ind_event_of_def ind_fd_def Let_def Option.bind_assoc)
  show ?thesis
  proof (cases rule: find_fd [OF assms])
    case (1 it e)
    note the_pair [OF fd_relD(2) [OF assms(1)] 1(2)]
    then show ?thesis using 1 unfolding run by (auto simp: image_iff)
  next
    case 2
    then show ?thesis unfolding run by simp
  qed
qed

lemma pend_event:
  assumes "fd_rel sz cmp (ag_pending ag) P" and "0 < fd"
  shows "pend_event ag fd = (if card P = 1 \<and> fd \<in> fst ` P then Some (Some (THE e. (fd, e) \<in> P)) else None)"
proof -
  have run: "pend_event ag fd = do {
      c_assert (card P = 1);
      it \<leftarrow> assoc_rb_tree_front (b_left (ag_pending ag)) \<bind>
        (\<lambda>first. find_if_rb_tree (b_left (ag_pending ag)) first (assoc_rb_tree_end (b_left (ag_pending ag))) fd eq_fd_key);
      c_assert (it \<noteq> assoc_rb_tree_end (b_left (ag_pending ag)));
      assoc_rb_tree_value (b_left (ag_pending ag)) it
    }"
    using assms(2) fd_relD(6) [OF assms(1)] by (simp add: pend_event_def Let_def Option.bind_assoc)
  show ?thesis
  proof (cases rule: find_fd [OF assms])
    case (1 it e)
    note the_pair [OF fd_relD(2) [OF assms(1)] 1(2)]
    then show ?thesis using 1 unfolding run by (auto simp: image_iff c_assert_def)
  next
    case 2
    then show ?thesis unfolding run by (simp add: c_assert_def)
  qed
qed

section \<open>Writing\<close>

lemma fd_insert:
  assumes "bi_order (\<lambda>fd. 0 < fd) cmp_fd_key (\<lambda>a b. eq_fd a b = Some True) (\<lambda>_. True) cmp same" and "fd_rel sz cmp m P"
    and "0 < fd" and "fd \<notin> fst ` P" and "z1 \<noteq> NULL" and "t_heap (b_left m) z1 = None" and "z2 \<noteq> NULL" and "t_heap (b_right m) z2 = None"
  shows "\<exists>m'. bi_map_insert m z1 z2 fd FD_SZ e sz = Some m' \<and> fd_rel sz cmp m' (insert (fd, e) P)"
proof -
  have "(fd, e) \<notin> P" using assms(4) by force
  from bi_order.bi_map_insert [OF assms(1) _ assms(3) _ this assms(5-8)] assms(2,4) show ?thesis
    by (auto simp: fd_rel_def image_iff)
qed

lemma fd_extract:
  assumes "bi_order (\<lambda>fd. 0 < fd) cmp_fd_key (\<lambda>a b. eq_fd a b = Some True) (\<lambda>_. True) cmp same" and "fd_rel sz cmp m P"
    and "p \<in> P" and "same b (snd p)"
  shows "\<exists>fd e m'. (fd, e) \<in> P \<and> same b e \<and> bi_map_extract_right m b sz = Some (fd, m') \<and> fd_rel sz cmp m' (P - {(fd, e)})"
proof -
  have b: "bi_rel (\<lambda>fd. 0 < fd) cmp_fd_key FD_SZ (\<lambda>_. True) cmp sz m P" and i: "inj_on fst P"
    using assms(2) by (simp_all add: fd_rel_def)
  from bi_order.bi_map_extract_right [OF assms(1) b fd_relD(5) [OF assms(2)] TrueI assms(3,4)] i show ?thesis
    by (auto simp: fd_rel_def intro: inj_on_subset)
qed

lemma fd_extract_miss:
  assumes "bi_order (\<lambda>fd. 0 < fd) cmp_fd_key (\<lambda>a b. eq_fd a b = Some True) (\<lambda>_. True) cmp same" and "fd_rel sz cmp m P"
    and "\<forall>p \<in> P. \<not> same b (snd p)"
  shows "bi_map_extract_right m b sz = None"
  using bi_order.bi_map_extract_right_miss [OF assms(1) _ TrueI assms(3)] assms(2) unfolding fd_rel_def by blast

lemma create_timer:
  assumes "tfd \<notin> io_fds io" and "0 < tfd" and "0 \<le> i" and "0 \<le> n"
  shows "\<exists>io'. create_timer_ms_asio_agent io tfd i n = Some (tfd, io') \<and> io_fds io' = insert tfd (io_fds io)"
  using assms by (simp add: create_timer_ms_asio_agent_def add_fd_asio_agent_def c_assert_def Let_def)

lemma agent_okD:
  assumes "agent_ok ep gid sms ag a"
  shows "sm_ok (ag_sm_ds ag) sms" "fd_rel PENDING_EVENT_SZ cmp_pending_event (ag_pending ag) (as_pend a)"
    "fd_rel IND_EVENT_SZ cmp_ind_event (ag_ind_event ag) (as_ind a)" "ag_ep_fd ag = ep" "0 < ep" "ag_ran ag = as_ran a"
    "ag_sent ag = as_sent a" "ag_global_e2_node_id ag = gid" "snd ` as_pend a \<subseteq> {SETUP_REQUEST_PENDING_EVENT}"
    "io_fds (ag_io ag) = insert ep (fst ` as_pend a \<union> fst ` as_ind a)" "fst ` as_pend a \<inter> fst ` as_ind a = {}"
    "ep \<notin> fst ` as_pend a" "ep \<notin> fst ` as_ind a" "(fd, e) \<in> as_ind a \<Longrightarrow> \<exists>sm \<in> set sms. ie_sm e = Some sm"
  using assms unfolding agent_ok_def by auto

definition refines :: "int \<Rightarrow> global_e2_node_id \<Rightarrow> 'w sm_agent list \<Rightarrow> 'w e2_agent option \<Rightarrow> 'w ag_state set \<Rightarrow> bool" where
  "refines ep gid sms r S \<longleftrightarrow> (case r of None \<Rightarrow> S = {} | Some ag \<Rightarrow> \<exists>a \<in> S. agent_ok ep gid sms ag a)"

lemma refines_None [simp]: "refines ep gid sms None {}" by (simp add: refines_def)

lemma refines_Some: "agent_ok ep gid sms ag a \<Longrightarrow> a \<in> S \<Longrightarrow> refines ep gid sms (Some ag) S" by (auto simp: refines_def)

text \<open>Sending is the last thing that a handler does.\<close>

lemma agent_send: "agent_ok ep gid sms ag a \<Longrightarrow> agent_ok ep gid sms (e2ap_send_bytes_agent ag m) (a\<lparr>as_sent := as_sent a @ [m]\<rparr>)"
  by (simp add: agent_ok_def e2ap_send_bytes_agent_def)

lemma agent_ran: "agent_ok ep gid sms ag a \<Longrightarrow> agent_ok ep gid sms (ag\<lparr>ag_ran := w\<rparr>) (a\<lparr>as_ran := w\<rparr>)"
  by (simp add: agent_ok_def)

lemma agent_pend_insert:
  assumes "agent_ok ep gid sms ag a" and "fresh ag st" and "io_fds io = insert (st_tfd st) (io_fds (ag_io ag))"
    and "fd_rel PENDING_EVENT_SZ cmp_pending_event m (insert (st_tfd st, SETUP_REQUEST_PENDING_EVENT) (as_pend a))"
  shows "agent_ok ep gid sms (ag\<lparr>ag_io := io, ag_pending := m\<rparr>)
    (a\<lparr>as_pend := insert (st_tfd st, SETUP_REQUEST_PENDING_EVENT) (as_pend a)\<rparr>)"
  using assms unfolding agent_ok_def fresh_def by auto

lemma agent_ind_insert:
  assumes "agent_ok ep gid sms ag a" and "fresh ag st" and "io_fds io = insert (st_tfd st) (io_fds (ag_io ag))"
    and "fd_rel IND_EVENT_SZ cmp_ind_event m (insert (st_tfd st, e) (as_ind a))" and "sm \<in> set sms" and "ie_sm e = Some sm"
  shows "agent_ok ep gid sms (ag\<lparr>ag_io := io, ag_ind_event := m\<rparr>) (a\<lparr>as_ind := insert (st_tfd st, e) (as_ind a)\<rparr>)"
  using assms unfolding agent_ok_def fresh_def by auto

lemma image_remove: "inj_on f P \<Longrightarrow> x \<in> P \<Longrightarrow> f ` (P - {x}) = f ` P - {f x}"
  by (auto simp: inj_on_def)

lemma agent_pend_remove:
  assumes "agent_ok ep gid sms ag a" and "(fd, e) \<in> as_pend a" and "io_fds io = io_fds (ag_io ag) - {fd}"
    and "fd_rel PENDING_EVENT_SZ cmp_pending_event m (as_pend a - {(fd, e)})"
  shows "agent_ok ep gid sms (ag\<lparr>ag_pending := m, ag_io := io\<rparr>) (a\<lparr>as_pend := as_pend a - {(fd, e)}\<rparr>)"
proof -
  note k = agent_okD [OF assms(1)]
  have f: "fst ` (as_pend a - {(fd, e)}) = fst ` as_pend a - {fd}"
    using image_remove [OF fd_relD(2) [OF k(2)] assms(2)] by simp
  have "fd \<in> fst ` as_pend a" using assms(2) by force
  then have "fd \<noteq> ep" "fd \<notin> fst ` as_ind a" using k(11,12) by blast+
  then have "io_fds io = insert ep (fst ` (as_pend a - {(fd, e)}) \<union> fst ` as_ind a)" unfolding f assms(3) k(10) by blast
  moreover have "fst ` (as_pend a - {(fd, e)}) \<inter> fst ` as_ind a = {}" "ep \<notin> fst ` (as_pend a - {(fd, e)}) \<union> fst ` as_ind a"
    unfolding f using k(11-13) by blast+
  moreover have "snd ` (as_pend a - {(fd, e)}) \<subseteq> {SETUP_REQUEST_PENDING_EVENT}" using k(9) by blast
  ultimately show ?thesis using assms(1,4) unfolding agent_ok_def by simp
qed

lemma agent_ind_remove:
  assumes "agent_ok ep gid sms ag a" and "(fd, e) \<in> as_ind a" and "io_fds io = io_fds (ag_io ag) - {fd}"
    and "fd_rel IND_EVENT_SZ cmp_ind_event m (as_ind a - {(fd, e)})"
  shows "agent_ok ep gid sms (ag\<lparr>ag_ind_event := m, ag_io := io\<rparr>) (a\<lparr>as_ind := as_ind a - {(fd, e)}\<rparr>)"
proof -
  note k = agent_okD [OF assms(1)]
  have f: "fst ` (as_ind a - {(fd, e)}) = fst ` as_ind a - {fd}"
    using image_remove [OF fd_relD(2) [OF k(3)] assms(2)] by simp
  have "fd \<in> fst ` as_ind a" using assms(2) by force
  then have "fd \<noteq> ep" "fd \<notin> fst ` as_pend a" using k(11,13) by blast+
  then have "io_fds io = insert ep (fst ` as_pend a \<union> fst ` (as_ind a - {(fd, e)}))" unfolding f assms(3) k(10) by blast
  moreover have "fst ` as_pend a \<inter> fst ` (as_ind a - {(fd, e)}) = {}" "ep \<notin> fst ` as_pend a \<union> fst ` (as_ind a - {(fd, e)})"
    unfolding f using k(11-13) by blast+
  moreover have "\<forall>(fd, e) \<in> as_ind a - {(fd, e)}. \<exists>sm \<in> set sms. ie_sm e = Some sm" using k(14) by blast
  ultimately show ?thesis using assms(1,4) unfolding agent_ok_def by simp
qed

section \<open>The handlers\<close>

lemma spec_sm_set: "spec_sm sms fid = Some sm \<Longrightarrow> sm \<in> set sms"
  by (auto simp: spec_sm_def find_Some_iff split: if_splits)

lemma setup_request_refines:
  assumes "agent_ok ep gid sms ag a"
  shows "generate_setup_request ag = None \<and> sms = [] \<or>
    (\<exists>sr ag'. sms \<noteq> [] \<and> generate_setup_request ag = Some (sr, ag') \<and>
      agent_ok ep gid sms (e2ap_send_bytes_agent ag' (E2_SETUP_REQUEST sr)) (spec_setup gid sms a) \<and>
      ag_io ag' = ag_io ag \<and> ag_pending ag' = ag_pending ag)"
proof (cases "sms = []")
  case True
  then show ?thesis using generate_setup [OF agent_okD(1) [OF assms]] by simp
next
  case False
  obtain rfs w where i: "setup_items sms (as_ran a) = (rfs, w)" by (cases "setup_items sms (as_ran a)")
  let ?sr = "\<lparr>su_id = gid, su_ran_func_item = rfs, su_len_ccu = 0\<rparr>"
  have "generate_setup_request ag = Some (?sr, ag\<lparr>ag_ran := w\<rparr>)"
    using generate_setup [OF agent_okD(1) [OF assms]] False i agent_okD(6,8) [OF assms] by simp
  moreover have "agent_ok ep gid sms (e2ap_send_bytes_agent (ag\<lparr>ag_ran := w\<rparr>) (E2_SETUP_REQUEST ?sr)) (spec_setup gid sms a)"
    using agent_send [OF agent_ran [OF assms]] i by (simp add: spec_setup_def)
  ultimately show ?thesis using False by (intro disjI2 exI [of _ ?sr] exI [of _ "ag\<lparr>ag_ran := w\<rparr>"]) simp
qed

lemma subscription_refines:
  assumes "agent_ok ep gid sms ag a" and "fresh ag st"
  shows "refines ep gid sms (do {
      (ans, ag) \<leftarrow> e2ap_handle_subscription_request_agent ag st sr;
      Some (e2ap_send_bytes_agent ag ans)
    }) (spec_subscribe sms a (st_tfd st) sr)"
proof (cases "\<exists>act sm. sr_action sr = [act] \<and> ra_type act = RIC_ACT_REPORT \<and> spec_sm sms (ran_func_id (sr_ric_id sr)) = Some sm")
  case False
  then have "spec_subscribe sms a (st_tfd st) sr = {}" by (auto simp: spec_subscribe_def)
  moreover have "e2ap_handle_subscription_request_agent ag st sr = None"
    using False sm_plugin [OF agent_okD(1) [OF assms(1)]]
    by (cases "sr_action sr") (auto simp: e2ap_handle_subscription_request_agent_def supported_ric_subscription_request_def c_assert_def)
  ultimately show ?thesis by simp
next
  case True
  then obtain act sm where t: "sr_action sr = [act]" "ra_type act = RIC_ACT_REPORT" "spec_sm sms (ran_func_id (sr_ric_id sr)) = Some sm"
    by blast
  let ?data = "\<lparr>sd_event_trigger = sr_event_trigger sr, sd_action_def = ra_definition act\<rparr>"
  obtain ms w where w: "on_subscription sm (as_ran a) ?data = (ms, w)" by (cases "on_subscription sm (as_ran a) ?data")
  let ?ag = "ag\<lparr>ag_ran := w\<rparr>"
  let ?ev = "\<lparr>ie_ric_id = sr_ric_id sr, ie_sm = Some sm, ie_action_id = ra_id act\<rparr>"
  note f = assms(2) [unfolded fresh_def]
  have ok: "agent_ok ep gid sms ?ag (a\<lparr>as_ran := w\<rparr>)" by (rule agent_ran [OF assms(1)])
  have fresh: "fresh ?ag st" using assms(2) by (simp add: fresh_def)
  obtain io where io: "create_timer_ms_asio_agent (ag_io ag) (st_tfd st) (uint ms) (uint ms) = Some (st_tfd st, io)"
    "io_fds io = insert (st_tfd st) (io_fds (ag_io ag))"
    using create_timer [of "st_tfd st" "ag_io ag" "uint ms" "uint ms"] f by auto
  have "st_tfd st \<notin> fst ` as_ind a" using f agent_okD(10) [OF assms(1)] by simp
  then obtain m where m: "bi_map_insert (ag_ind_event ag) (st_z1 st) (st_z2 st) (st_tfd st) FD_SZ ?ev IND_EVENT_SZ = Some m"
    "fd_rel IND_EVENT_SZ cmp_ind_event m (insert (st_tfd st, ?ev) (as_ind a))"
    using fd_insert [OF ind_map.bi_order_axioms agent_okD(3) [OF assms(1)]] f by blast
  have a: "agent_ok ep gid sms (?ag\<lparr>ag_io := io, ag_ind_event := m\<rparr>)
      (a\<lparr>as_ran := w, as_ind := insert (st_tfd st, ?ev) (as_ind a)\<rparr>)"
    using agent_ind_insert [OF ok fresh _ _ spec_sm_set [OF t(3)], of io m ?ev] io(2) m(2) by simp
  have run: "e2ap_handle_subscription_request_agent ag st sr =
      Some (RIC_SUBSCRIPTION_RESPONSE \<lparr>sp_ric_id = sr_ric_id sr, sp_admitted = [ra_id act], sp_len_na = 0\<rparr>,
        ?ag\<lparr>ag_io := io, ag_ind_event := m\<rparr>)"
    using t w io(1) m(1) sm_plugin [OF agent_okD(1) [OF assms(1)]] agent_okD(6) [OF assms(1)]
    by (cases "ra_definition act")
      (simp_all add: e2ap_handle_subscription_request_agent_def supported_ric_subscription_request_def generate_sm_subs_data_def
        generate_subscription_response_def c_assert_def)
  show ?thesis
    unfolding run Option.bind.bind_lunit prod.case
    by (rule refines_Some [OF agent_send [OF a]]) (use t w in \<open>auto simp: spec_subscribe_def\<close>)
qed

lemma delete_refines:
  assumes "agent_ok ep gid sms ag a"
  shows "refines ep gid sms (do {
      (ans, ag) \<leftarrow> e2ap_handle_subscription_delete_request_agent ag ric_id;
      Some (e2ap_send_bytes_agent ag ans)
    }) (spec_delete a ric_id)"
proof -
  let ?tmp = "\<lparr>ie_ric_id = ric_id, ie_sm = None, ie_action_id = 0\<rparr>"
  note i = agent_okD(3) [OF assms]
  show ?thesis
  proof (cases "\<exists>p \<in> as_ind a. ie_ric_id (snd p) = ric_id")
    case False
    then have "spec_delete a ric_id = {}" by (force simp: spec_delete_def)
    moreover have "bi_map_extract_right (ag_ind_event ag) ?tmp IND_EVENT_SZ = None"
      by (rule fd_extract_miss [OF ind_map.bi_order_axioms i]) (use False in \<open>auto simp: same_ind_def\<close>)
    ultimately show ?thesis
      by (simp add: e2ap_handle_subscription_delete_request_agent_def stop_ind_event_def)
  next
    case True
    then obtain p where p: "p \<in> as_ind a" "same_ind ?tmp (snd p)" by (auto simp: same_ind_def)
    obtain fd e m where e: "(fd, e) \<in> as_ind a" "same_ind ?tmp e"
      "bi_map_extract_right (ag_ind_event ag) ?tmp IND_EVENT_SZ = Some (fd, m)"
      "fd_rel IND_EVENT_SZ cmp_ind_event m (as_ind a - {(fd, e)})"
      using fd_extract [where same = same_ind and b = ?tmp, OF ind_map.bi_order_axioms i p] by blast
    have fd: "0 < fd" "fd \<in> io_fds (ag_io ag)"
      using fd_relD(4) [OF i e(1)] agent_okD(10) [OF assms] e(1) by force+
    let ?io = "(ag_io ag)\<lparr>io_fds := io_fds (ag_io ag) - {fd}, io_timers := (io_timers (ag_io ag))(fd := None)\<rparr>"
    have a: "agent_ok ep gid sms (ag\<lparr>ag_ind_event := m, ag_io := ?io\<rparr>) (a\<lparr>as_ind := as_ind a - {(fd, e)}\<rparr>)"
      by (rule agent_ind_remove [OF assms e(1) _ e(4)]) simp
    have run: "e2ap_handle_subscription_delete_request_agent ag ric_id =
        Some (RIC_SUBSCRIPTION_DELETE_RESPONSE ric_id, ag\<lparr>ag_ind_event := m, ag_io := ?io\<rparr>)"
      using e(3) fd
      by (simp add: e2ap_handle_subscription_delete_request_agent_def stop_ind_event_def rm_fd_asio_agent_def c_assert_def)
    show ?thesis
      unfolding run Option.bind.bind_lunit prod.case
      by (rule refines_Some [OF agent_send [OF a]]) (use e(1,2) in \<open>auto simp: spec_delete_def same_ind_def\<close>)
  qed
qed

lemma control_refines:
  assumes "agent_ok ep gid sms ag a"
  shows "refines ep gid sms (do {
      (ans, ag) \<leftarrow> e2ap_handle_control_request_agent ag cr;
      Some (e2ap_send_bytes_agent ag ans)
    }) (spec_control sms a cr)"
proof (cases "cr_ack_req cr = Some RIC_CONTROL_REQUEST_ACK \<and> spec_sm sms (ran_func_id (cr_ric_id cr)) \<noteq> None")
  case False
  then have "spec_control sms a cr = {}" by (auto simp: spec_control_def)
  moreover have "e2ap_handle_control_request_agent ag cr = None"
    using False sm_plugin [OF agent_okD(1) [OF assms]]
    by (auto simp: e2ap_handle_control_request_agent_def c_assert_def)
  ultimately show ?thesis by simp
next
  case True
  then obtain sm where sm: "cr_ack_req cr = Some RIC_CONTROL_REQUEST_ACK" "spec_sm sms (ran_func_id (cr_ric_id cr)) = Some sm" by blast
  let ?data = "\<lparr>sc_ctrl_hdr = cr_hdr cr, sc_ctrl_msg = cr_msg cr\<rparr>"
  obtain out w where w: "on_control sm (as_ran a) ?data = (out, w)" by (cases "on_control sm (as_ran a) ?data")
  have run: "e2ap_handle_control_request_agent ag cr = Some (RIC_CONTROL_ACKNOWLEDGE \<lparr>ca_ric_id = cr_ric_id cr,
      ca_call_process_id = None, ca_status = RIC_CONTROL_STATUS_SUCCESS, ca_control_outcome = (if out = [] then None else Some out)\<rparr>,
      ag\<lparr>ag_ran := w\<rparr>)"
    using sm w sm_plugin [OF agent_okD(1) [OF assms]] agent_okD(6) [OF assms]
    by (simp add: e2ap_handle_control_request_agent_def ba_from_ctrl_out_def c_assert_def)
  show ?thesis
    unfolding run Option.bind.bind_lunit prod.case
    by (rule refines_Some [OF agent_send [OF agent_ran [OF assms]]]) (use sm w in \<open>auto simp: spec_control_def\<close>)
qed

lemma setup_response_refines:
  assumes "agent_ok ep gid sms ag a"
  shows "case e2ap_handle_setup_response_agent ag of
      None \<Rightarrow> spec_setup_response a = {}
    | Some (ans, ag') \<Rightarrow> ans = NONE_E2_MSG_TYPE \<and> refines ep gid sms (Some ag') (spec_setup_response a)"
proof -
  note p = agent_okD(2) [OF assms]
  show ?thesis
  proof (cases "as_pend a = {}")
    case True
    then have "bi_map_extract_right (ag_pending ag) SETUP_REQUEST_PENDING_EVENT PENDING_EVENT_SZ = None"
      by (intro fd_extract_miss [OF setup_map.bi_order_axioms p]) simp
    then show ?thesis using True
      by (simp add: e2ap_handle_setup_response_agent_def stop_pending_event_def spec_setup_response_def)
  next
    case False
    then obtain q where q: "q \<in> as_pend a" by blast
    then have "SETUP_REQUEST_PENDING_EVENT = snd q" using agent_okD(9) [OF assms] by auto
    from fd_extract [where same = "(=)", OF setup_map.bi_order_axioms p q this] obtain fd e m where e: "(fd, e) \<in> as_pend a"
      "bi_map_extract_right (ag_pending ag) SETUP_REQUEST_PENDING_EVENT PENDING_EVENT_SZ = Some (fd, m)"
      "fd_rel PENDING_EVENT_SZ cmp_pending_event m (as_pend a - {(fd, e)})"
      by blast
    have fd: "0 < fd" "fd \<in> io_fds (ag_io ag)"
      using fd_relD(4) [OF p e(1)] agent_okD(10) [OF assms] e(1) by force+
    let ?io = "(ag_io ag)\<lparr>io_fds := io_fds (ag_io ag) - {fd}, io_timers := (io_timers (ag_io ag))(fd := None)\<rparr>"
    have a: "agent_ok ep gid sms (ag\<lparr>ag_pending := m, ag_io := ?io\<rparr>) (a\<lparr>as_pend := as_pend a - {(fd, e)}\<rparr>)"
      by (rule agent_pend_remove [OF assms e(1) _ e(3)]) simp
    have run: "e2ap_handle_setup_response_agent ag = Some (NONE_E2_MSG_TYPE, ag\<lparr>ag_pending := m, ag_io := ?io\<rparr>)"
      using e(2) fd
      by (simp add: e2ap_handle_setup_response_agent_def stop_pending_event_def rm_fd_asio_agent_def c_assert_def)
    show ?thesis
      unfolding run option.case prod.case
      by (rule conjI [OF refl refines_Some [OF a]]) (use e(1) in \<open>auto simp: spec_setup_response_def\<close>)
  qed
qed

section \<open>The event loop\<close>

lemma message_refines:
  assumes "agent_ok ep gid sms ag a" and "fresh ag st"
  shows "refines ep gid sms (do {
      (ans, ag) \<leftarrow> e2ap_msg_handle_agent ag st m;
      Some (if ans \<noteq> NONE_E2_MSG_TYPE then e2ap_send_bytes_agent ag ans else ag)
    }) (spec_msg sms a (st_tfd st) m)"
proof -
  have answer: "do {
      (ans, ag) \<leftarrow> h;
      Some (if ans \<noteq> NONE_E2_MSG_TYPE then e2ap_send_bytes_agent ag ans else ag)
    } = do {
      (ans, ag) \<leftarrow> h;
      Some (e2ap_send_bytes_agent ag ans)
    }" if "\<And>ans ag. h = Some (ans, ag) \<Longrightarrow> ans \<noteq> NONE_E2_MSG_TYPE" for h :: "(e2ap_msg \<times> 'a e2_agent) option"
    using that by (cases h) auto
  have sub: "ans \<noteq> NONE_E2_MSG_TYPE" if "e2ap_handle_subscription_request_agent ag st sr = Some (ans, ag')" for ans sr ag'
    using that by (auto simp: e2ap_handle_subscription_request_agent_def Let_def bind_eq_Some_conv split_beta)
  have del: "ans \<noteq> NONE_E2_MSG_TYPE" if "e2ap_handle_subscription_delete_request_agent ag r = Some (ans, ag')" for ans r ag'
    using that by (auto simp: e2ap_handle_subscription_delete_request_agent_def bind_eq_Some_conv)
  have ctrl: "ans \<noteq> NONE_E2_MSG_TYPE" if "e2ap_handle_control_request_agent ag cr = Some (ans, ag')" for ans cr ag'
    using that by (auto simp: e2ap_handle_control_request_agent_def Let_def bind_eq_Some_conv split_beta split: if_splits)
  show ?thesis
  proof (cases m)
    case (RIC_SUBSCRIPTION_REQUEST sr)
    then show ?thesis
      using subscription_refines [OF assms, of sr] answer [OF sub]
      by (simp add: e2ap_msg_handle_agent_def check_valid_msg_type_def spec_msg_def c_assert_def)
  next
    case (RIC_SUBSCRIPTION_DELETE_REQUEST r)
    then show ?thesis
      using delete_refines [OF assms(1), of r] answer [OF del]
      by (simp add: e2ap_msg_handle_agent_def check_valid_msg_type_def spec_msg_def c_assert_def)
  next
    case (RIC_CONTROL_REQUEST cr)
    then show ?thesis
      using control_refines [OF assms(1), of cr] answer [OF ctrl]
      by (simp add: e2ap_msg_handle_agent_def check_valid_msg_type_def spec_msg_def c_assert_def)
  next
    case (E2_SETUP_RESPONSE resp)
    then show ?thesis
      using setup_response_refines [OF assms(1)]
      by (auto simp: e2ap_msg_handle_agent_def check_valid_msg_type_def spec_msg_def c_assert_def split: option.splits)
  qed (simp_all add: e2ap_msg_handle_agent_def check_valid_msg_type_def spec_msg_def c_assert_def)
qed

lemma notification_refines:
  assumes "agent_ok ep gid sms ag a" and "fresh ag st"
  shows "refines ep gid sms (notification_handle_ag ag st)
    {a\<lparr>as_pend := insert (st_tfd st, SETUP_REQUEST_PENDING_EVENT) (as_pend a)\<rparr>}"
proof -
  note f = assms(2) [unfolded fresh_def]
  obtain io where io: "create_timer_ms_asio_agent (ag_io ag) (st_tfd st) 3000 3000 = Some (st_tfd st, io)"
    "io_fds io = insert (st_tfd st) (io_fds (ag_io ag))"
    using create_timer [of "st_tfd st" "ag_io ag" 3000 3000] f by auto
  have "st_tfd st \<notin> fst ` as_pend a" using f agent_okD(10) [OF assms(1)] by simp
  then obtain m where m: "bi_map_insert (ag_pending ag) (st_z1 st) (st_z2 st) (st_tfd st) FD_SZ SETUP_REQUEST_PENDING_EVENT PENDING_EVENT_SZ = Some m"
    "fd_rel PENDING_EVENT_SZ cmp_pending_event m (insert (st_tfd st, SETUP_REQUEST_PENDING_EVENT) (as_pend a))"
    using fd_insert [OF setup_map.bi_order_axioms agent_okD(2) [OF assms(1)]] f by blast
  have run: "notification_handle_ag ag st = Some (ag\<lparr>ag_io := io, ag_pending := m\<rparr>)"
    using io(1) m(1) by (simp add: notification_handle_ag_def)
  show ?thesis unfolding run by (rule refines_Some [OF agent_pend_insert [OF assms io(2) m(2)]]) simp
qed

lemma indication_refines:
  assumes "agent_ok ep gid sms ag a" and "(fd, e) \<in> as_ind a"
  shows "refines ep gid sms (do {
      sm \<leftarrow> ie_sm e;
      let (data, w) = on_indication sm (ag_ran ag);
      let ag = ag\<lparr>ag_ran := w\<rparr>;
      ind \<leftarrow> generate_indication data e;
      let ag = e2ap_send_bytes_agent ag (RIC_INDICATION ind);
      consume_fd (st_read st) fd;
      Some ag
    }) (if st_read st = 8 then spec_indication a fd else {})"
proof -
  obtain sm where sm: "ie_sm e = Some sm" using agent_okD(14) [OF assms] by blast
  obtain d w where w: "on_indication sm (as_ran a) = (d, w)" by (cases "on_indication sm (as_ran a)")
  have fd: "0 < fd" using fd_relD(4) [OF agent_okD(3) [OF assms(1)] assms(2)] by simp
  have e: "(fd, e') \<in> as_ind a \<longleftrightarrow> e' = e" for e'
    using assms(2) inj_onD [OF fd_relD(2) [OF agent_okD(3) [OF assms(1)]], of "(fd, e')" "(fd, e)"] by auto
  let ?ind = "\<lparr>ri_ric_id = ie_ric_id e, ri_action_id = ie_action_id e, ri_sn = None, ri_type = RIC_IND_REPORT,
     ri_hdr = si_ind_hdr d, ri_msg = si_ind_msg d, ri_call_process_id = None\<rparr>"
  have spec: "spec_indication a fd = (if si_call_process_id d = None
      then {a\<lparr>as_ran := w, as_sent := as_sent a @ [RIC_INDICATION ?ind]\<rparr>} else {})"
    using sm w by (auto simp: spec_indication_def e)
  show ?thesis
  proof (cases "si_call_process_id d = None \<and> st_read st = 8")
    case False
    then show ?thesis
      using sm w fd agent_okD(6) [OF assms(1)] unfolding spec by (auto simp: generate_indication_def consume_fd_def c_assert_def)
  next
    case True
    have "refines ep gid sms (Some (e2ap_send_bytes_agent (ag\<lparr>ag_ran := w\<rparr>) (RIC_INDICATION ?ind)))
        {a\<lparr>as_ran := w, as_sent := as_sent a @ [RIC_INDICATION ?ind]\<rparr>}"
      by (rule refines_Some [OF agent_send [OF agent_ran [OF assms(1)]]]) simp
    then show ?thesis
      using sm w fd True agent_okD(6) [OF assms(1)] unfolding spec by (simp add: generate_indication_def consume_fd_def c_assert_def)
  qed
qed

lemma setup_timer_refines:
  assumes "agent_ok ep gid sms ag a" and "(fd, p_ev) \<in> as_pend a"
  shows "refines ep gid sms (do {
      c_assert (p_ev = SETUP_REQUEST_PENDING_EVENT);
      (sr, ag) \<leftarrow> generate_setup_request ag;
      let ag = e2ap_send_bytes_agent ag (E2_SETUP_REQUEST sr);
      consume_fd (st_read st) fd;
      Some ag
    }) (if sms \<noteq> [] \<and> st_read st = 8 then {spec_setup gid sms a} else {})"
proof -
  have fd: "0 < fd" using fd_relD(4) [OF agent_okD(2) [OF assms(1)] assms(2)] by simp
  have ev: "p_ev = SETUP_REQUEST_PENDING_EVENT" using agent_okD(9) [OF assms(1)] assms(2) by force
  consider "generate_setup_request ag = None" "sms = []"
    | sr ag' where "sms \<noteq> []" "generate_setup_request ag = Some (sr, ag')"
      "agent_ok ep gid sms (e2ap_send_bytes_agent ag' (E2_SETUP_REQUEST sr)) (spec_setup gid sms a)"
    using setup_request_refines [OF assms(1)] by auto
  then show ?thesis
  proof cases
    case 1
    then show ?thesis using ev by (simp add: c_assert_def)
  next
    case (2 sr ag')
    then have "refines ep gid sms (Some (e2ap_send_bytes_agent ag' (E2_SETUP_REQUEST sr))) {spec_setup gid sms a}"
      by (intro refines_Some) auto
    then show ?thesis using 2 ev fd by (simp add: consume_fd_def c_assert_def)
  qed
qed

lemma step_refines:
  assumes "agent_ok ep gid sms ag a" and "fresh ag st"
  shows "refines ep gid sms (e2_event_step ag st) (spec_step ep gid sms a st)"
proof (cases "\<exists>fd. st_ready st = Epoll_ready False fd \<and> 0 < fd")
  case False
  then show ?thesis
    using refines_Some [OF assms(1), of "{a}"]
    by (cases "st_ready st")
      (auto simp: e2_event_step_def next_async_event_agent_def event_asio_agent_def spec_step_def net_pkt_def c_assert_def)
next
  case True
  then obtain fd where fd: "st_ready st = Epoll_ready False fd" "0 < fd" by blast
  have net: "net_pkt ag fd = Some (fd = ep)" using fd agent_okD(4) [OF assms(1)] by (simp add: net_pkt_def c_assert_def)
  note ind = ind_event_of [OF agent_okD(3) [OF assms(1)] fd(2)]
  note pend = pend_event [OF agent_okD(2) [OF assms(1)] fd(2)]
  note d = e2_event_step_def next_async_event_agent_def event_asio_agent_def spec_step_def
  consider "fd = ep" | "fd \<noteq> ep" "fd \<in> fst ` as_ind a" | "fd \<noteq> ep" "fd \<notin> fst ` as_ind a" "card (as_pend a) = 1" "fd \<in> fst ` as_pend a"
    | "fd \<noteq> ep" "fd \<notin> fst ` as_ind a" "\<not> (card (as_pend a) = 1 \<and> fd \<in> fst ` as_pend a)" by blast
  then show ?thesis
  proof cases
    case 1
    show ?thesis
    proof (cases "st_recv st")
      case (SCTP_MSG_PAYLOAD m)
      then show ?thesis using message_refines [OF assms, of m] fd net 1 by (simp add: d c_assert_def)
    next
      case SCTP_MSG_NOTIFICATION
      then show ?thesis using notification_refines [OF assms] fd net 1 by (simp add: d c_assert_def)
    qed
  next
    case 2
    then obtain e where e: "(fd, e) \<in> as_ind a" by auto
    have "ind_event_of ag fd = Some (Some e)"
      using ind 2 the_pair(1) [OF fd_relD(2) [OF agent_okD(3) [OF assms(1)]] e] by simp
    then show ?thesis using indication_refines [OF assms(1) e, of st] fd net 2 by (simp add: d c_assert_def)
  next
    case 3
    then obtain e where e: "(fd, e) \<in> as_pend a" by auto
    have "pend_event ag fd = Some (Some e)"
      using pend 3 the_pair(1) [OF fd_relD(2) [OF agent_okD(2) [OF assms(1)]] e] by simp
    then show ?thesis using setup_timer_refines [OF assms(1) e, of st] fd net ind 3 by (simp add: d c_assert_def)
  next
    case 4
    then show ?thesis using fd net ind pend by (auto simp: d c_assert_def)
  qed
qed

end
