(* ===== verification/E2RicSpec.thy ===== *)
theory E2RicSpec
  imports E2Ric E2AgentSpec begin

text \<open>
  What the state of the RIC represents: a set of pending requests with their timers, and a set of connected nodes with their
  addresses. For each operation: when it succeeds, and what it changes.
\<close>

section \<open>The representation\<close>

lemma cmp_sctp_info_key: "cmp_sctp_info a b = cmp3 (sin_port b, sin_addr b, sin_family b) (sin_port a, sin_addr a, sin_family a)"
  by (auto simp: cmp_sctp_info_def cmp_sockaddr_in_def cmp3_def Let_def)

definition same_addr :: "sctp_info \<Rightarrow> sctp_info \<Rightarrow> bool" where
  "same_addr a b \<longleftrightarrow> sin_port a = sin_port b \<and> sin_addr a = sin_addr b \<and> sin_family a = sin_family b"

interpretation addr3: three_way "\<lambda>_. True" cmp_sctp_info same_addr
  by (rule three_way_key [where key = "\<lambda>s. (sin_port s, sin_addr s, sin_family s)"])
    (simp_all add: cmp_sctp_info_key same_addr_def)

interpretation node_map: bi_order mono_node cmp_node "eq_global_e2_node_id False" "\<lambda>_. True" cmp_sctp_info same_addr
  ..

interpretation request_map: bi_order "\<lambda>fd. 0 < fd" cmp_fd_key "\<lambda>a b. eq_fd a b = Some True" "\<lambda>_. True" cmp_pending_event_ric "(=)"
  ..

definition pub_ok :: "near_ric \<Rightarrow> u16 set \<Rightarrow> bool" where
  "pub_ok ric I \<longleftrightarrow> (\<exists>X. tree_rel (\<lambda>_. True) cmp_ran_func_id RAN_FUNC_SZ (nr_pub_sub ric) X \<and>
     fst ` X = I \<and> (\<forall>p \<in> X. nr_arrs ric (snd p) \<noteq> None))"

definition ric_rep :: "int \<Rightarrow> sm_ric set \<Rightarrow> near_ric \<Rightarrow> (int \<times> pending_event_ric) set \<Rightarrow> (global_e2_node_id \<times> sctp_info) set \<Rightarrow> bool" where
  "ric_rep ep S ric P N \<longleftrightarrow>
     tree_rel (\<lambda>_. True) cmp_ran_func_id RAN_FUNC_SZ (nr_sm_ds ric) ((\<lambda>sm. (rp_ran_func_id sm, sm)) ` S) \<and> inj_on rp_ran_func_id S \<and>
     pub_ok ric (rp_ran_func_id ` S) \<and> fd_rel PENDING_RIC_SZ cmp_pending_event_ric (nr_pending ric) P \<and>
     bi_rel mono_node cmp_node NODE_SZ (\<lambda>_. True) cmp_sctp_info SCTP_INFO_SZ (nr_e2_nodes ric) N \<and>
     nr_ep_fd ric = ep \<and> 0 < ep \<and> ep \<notin> fst ` P \<and> io_fds (nr_io ric) = insert ep (fst ` P)"

definition fresh_ric :: "near_ric \<Rightarrow> ('a) stimulus_scheme \<Rightarrow> bool" where
  "fresh_ric ric st \<longleftrightarrow> 0 < st_tfd st \<and> st_tfd st \<notin> io_fds (nr_io ric) \<and> st_z1 st \<noteq> NULL \<and> st_z2 st \<noteq> NULL \<and>
     t_heap (b_left (nr_pending ric)) (st_z1 st) = None \<and> t_heap (b_right (nr_pending ric)) (st_z2 st) = None \<and>
     t_heap (b_left (nr_e2_nodes ric)) (st_z1 st) = None \<and> t_heap (b_right (nr_e2_nodes ric)) (st_z2 st) = None"

lemma ric_repD:
  assumes "ric_rep ep S ric P N"
  shows "tree_rel (\<lambda>_. True) cmp_ran_func_id RAN_FUNC_SZ (nr_sm_ds ric) ((\<lambda>sm. (rp_ran_func_id sm, sm)) ` S)" "inj_on rp_ran_func_id S"
    "pub_ok ric (rp_ran_func_id ` S)" "fd_rel PENDING_RIC_SZ cmp_pending_event_ric (nr_pending ric) P"
    "bi_rel mono_node cmp_node NODE_SZ (\<lambda>_. True) cmp_sctp_info SCTP_INFO_SZ (nr_e2_nodes ric) N"
    "nr_ep_fd ric = ep" "0 < ep" "ep \<notin> fst ` P" "io_fds (nr_io ric) = insert ep (fst ` P)"
  using assms unfolding ric_rep_def by blast+

text \<open>What the representation does not depend on.\<close>

lemma ric_rep_cong:
  "nr_sm_ds ric' = nr_sm_ds ric \<Longrightarrow> nr_pub_sub ric' = nr_pub_sub ric \<Longrightarrow> nr_arrs ric' = nr_arrs ric \<Longrightarrow>
   nr_pending ric' = nr_pending ric \<Longrightarrow> nr_e2_nodes ric' = nr_e2_nodes ric \<Longrightarrow> nr_ep_fd ric' = nr_ep_fd ric \<Longrightarrow>
   nr_io ric' = nr_io ric \<Longrightarrow> ric_rep ep S ric' P N \<longleftrightarrow> ric_rep ep S ric P N"
  unfolding ric_rep_def pub_ok_def by (simp only:)

lemma ric_rep_iapp: "ric_rep ep S (ric\<lparr>nr_iapp := x\<rparr>) P N \<longleftrightarrow> ric_rep ep S ric P N"
  by (rule ric_rep_cong) simp_all

lemma ric_rep_sent: "ric_rep ep S (ric\<lparr>nr_sent := y\<rparr>) P N \<longleftrightarrow> ric_rep ep S ric P N"
  by (rule ric_rep_cong) simp_all

lemma ric_rep_published: "ric_rep ep S (ric\<lparr>nr_published := z\<rparr>) P N \<longleftrightarrow> ric_rep ep S ric P N"
  by (rule ric_rep_cong) simp_all

lemma ric_rep_req_id: "ric_rep ep S (ric\<lparr>nr_req_id := q\<rparr>) P N \<longleftrightarrow> ric_rep ep S ric P N"
  by (rule ric_rep_cong) simp_all

lemma ric_rep_conn_e2_nodes: "ric_rep ep S (ric\<lparr>nr_conn_e2_nodes := c\<rparr>) P N \<longleftrightarrow> ric_rep ep S ric P N"
  by (rule ric_rep_cong) simp_all

lemmas ric_rep_upd [simp] = ric_rep_iapp ric_rep_sent ric_rep_published ric_rep_req_id ric_rep_conn_e2_nodes

section \<open>Service models\<close>

lemma sm_ric_find:
  assumes "ric_rep ep S ric P N" and "sm \<in> S"
  obtains it where "(assoc_rb_tree_front (nr_sm_ds ric) \<bind>
      (\<lambda>first. find_if_rb_tree (nr_sm_ds ric) first (assoc_rb_tree_end (nr_sm_ds ric)) (rp_ran_func_id sm) eq_ran_func_id)) = Some it"
    "it \<noteq> assoc_rb_tree_end (nr_sm_ds ric)" "assoc_rb_tree_value (nr_sm_ds ric) it = Some (Some sm)"
    "assoc_rb_tree_key (nr_sm_ds ric) it = Some (rp_ran_func_id sm)"
proof (cases rule: tree_rel_find [OF ric_repD(1) [OF assms(1)], of "rp_ran_func_id sm" eq_ran_func_id])
  case (1 it p)
  then obtain sm' where sm': "p = (rp_ran_func_id sm', sm')" "sm' \<in> S" by blast
  have "rp_ran_func_id sm' = rp_ran_func_id sm" using 1(3) by (simp add: sm'(1) eq_ran_func_id_def)
  then have "sm' = sm" by (rule inj_onD [OF ric_repD(2) [OF assms(1)] _ sm'(2) assms(2)])
  then have p: "fst p = rp_ran_func_id sm" "snd p = sm" by (simp_all add: sm'(1))
  show ?thesis by (rule that [OF 1(1,4) 1(5) [unfolded p] 1(6) [unfolded p]])
next
  case 2
  have "eq_ran_func_id (rp_ran_func_id sm) (fst (rp_ran_func_id sm, sm))" by (simp add: eq_ran_func_id_def)
  then show ?thesis using 2(2) assms(2) by blast
qed

lemma sm_plugin_ric:
  assumes "ric_rep ep S ric P N" and "sm \<in> S" and "rp_ran_func_id sm = fid" and "0 < fid"
  shows "sm_plugin_ric (nr_sm_ds ric) fid = Some sm"
proof -
  have run: "sm_plugin_ric (nr_sm_ds ric) fid = do {
      c_assert (fid > 0);
      it \<leftarrow> assoc_rb_tree_front (nr_sm_ds ric) \<bind>
        (\<lambda>first. find_if_rb_tree (nr_sm_ds ric) first (assoc_rb_tree_end (nr_sm_ds ric)) fid eq_ran_func_id);
      c_assert (it \<noteq> assoc_rb_tree_end (nr_sm_ds ric));
      sm \<leftarrow> assoc_rb_tree_value (nr_sm_ds ric) it;
      sm \<leftarrow> sm;
      c_assert (rp_ran_func_id sm = fid);
      Some sm
    }"
    by (simp add: sm_plugin_ric_def Let_def Option.bind_assoc)
  show ?thesis
    by (rule sm_ric_find [OF assms(1,2)]) (use assms(3,4) in \<open>unfold run, simp\<close>)
qed

lemma accept_loop:
  assumes "ric_rep ep S ric P N" and "\<forall>rf \<in> set rfs. length (rf_def rf) < 127 \<and> rf_id rf \<in> rp_ran_func_id ` S"
  shows "accept_loop (nr_sm_ds ric) rfs = Some (map rf_id rfs)"
  using assms(2)
proof (induction rfs)
  case (Cons rf rfs)
  have run: "accept_loop (nr_sm_ds ric) (rf # rfs) = do {
      it \<leftarrow> assoc_rb_tree_front (nr_sm_ds ric) \<bind>
        (\<lambda>first. find_if_rb_tree (nr_sm_ds ric) first (assoc_rb_tree_end (nr_sm_ds ric)) (rf_id rf) eq_ran_func_id);
      c_assert (it \<noteq> assoc_rb_tree_end (nr_sm_ds ric));
      key \<leftarrow> assoc_rb_tree_key (nr_sm_ds ric) it;
      c_assert (rf_id rf = key);
      c_assert (length (rf_def rf) < 127);
      acc \<leftarrow> accept_loop (nr_sm_ds ric) rfs;
      Some (rf_id rf # acc)
    }"
    by (simp add: Let_def Option.bind_assoc)
  obtain sm where sm: "sm \<in> S" "rf_id rf = rp_ran_func_id sm" using Cons.prems by auto
  show ?case
    by (rule sm_ric_find [OF assms(1) sm(1)]) (use Cons sm(2) in \<open>unfold run, simp\<close>)
qed simp

text \<open>The listeners of the first service model exist when any exists.\<close>

lemma publish_ind_msg:
  assumes "pub_ok ric I" and "fid \<in> I"
  shows "\<exists>subs. publish_ind_msg ric fid d = Some (ric\<lparr>nr_published := nr_published ric @ map (\<lambda>s. (s, d)) subs\<rparr>)"
proof -
  let ?t = "nr_pub_sub ric"
  obtain X where X: "tree_rel (\<lambda>_. True) cmp_ran_func_id RAN_FUNC_SZ ?t X" "fst ` X = I"
    "\<forall>p \<in> X. nr_arrs ric (snd p) \<noteq> None"
    using assms(1) by (auto simp: pub_ok_def)
  obtain ps T where T: "heap_tree ?t T" "map snd (entries T) = pairs ps" "set ps = X"
    using X(1) by (auto simp: tree_rel_def tree_holds_def tree_wf_def)
  have "X \<noteq> {}" using X(2) assms(2) by auto
  then obtain q qs where qs: "ps = q # qs" "q \<in> X" using T(3) by (cases ps) auto
  then obtain e es where e: "entries T = [] @ e # es" "snd e = (fst q, Some (snd q))" using T(2) by (cases "entries T") auto
  note i = iterator [OF T(1) e(1)]
  have front: "assoc_rb_tree_front ?t = Some (fst e)" using assoc_rb_tree_front [OF T(1)] e(1) by simp
  obtain subs where subs: "nr_arrs ric (snd q) = Some subs" using X(3) qs(2) by blast
  obtain sm_it where sm_it: "find_if_rb_tree ?t (fst e) (assoc_rb_tree_end ?t) fid eq_ran_func_id = Some sm_it"
    "sm_it \<noteq> assoc_rb_tree_end ?t"
  proof (cases rule: tree_rel_find [OF X(1), of fid eq_ran_func_id])
    case (1 it p)
    then show ?thesis using that front by simp
  next
    case 2
    obtain p where "p \<in> X" "fst p = fid" using assms(2) X(2) by (metis image_iff)
    then show ?thesis using 2 by (auto simp: eq_ran_func_id_def)
  qed
  show ?thesis using front sm_it i e(2) subs by (intro exI [of _ subs]) (simp add: publish_ind_msg_def)
qed

section \<open>Pending requests\<close>

lemma stop_pending_event_ric:
  assumes "ric_rep ep S ric P N" and "(fd0, ev) \<in> P"
  shows "\<exists>fd m io. (fd, ev) \<in> P \<and> stop_pending_event_ric ric ev = Some (ric\<lparr>nr_pending := m, nr_io := io\<rparr>) \<and>
    ric_rep ep S (ric\<lparr>nr_pending := m, nr_io := io\<rparr>) (P - {(fd, ev)}) N"
proof -
  note k = ric_repD [OF assms(1)]
  obtain fd e m where m: "(fd, e) \<in> P" "ev = e" "bi_map_extract_right (nr_pending ric) ev PENDING_RIC_SZ = Some (fd, m)"
    "fd_rel PENDING_RIC_SZ cmp_pending_event_ric m (P - {(fd, e)})"
    using fd_extract [OF request_map.bi_order_axioms k(4) assms(2), of ev] by auto
  have "fd \<in> fst ` P" using m(1) by force
  then have fd: "0 < fd" "fd \<in> io_fds (nr_io ric)" "fd \<noteq> ep" using fd_relD(4) [OF k(4) m(1)] k(8,9) by auto
  let ?io = "(nr_io ric)\<lparr>io_fds := io_fds (nr_io ric) - {fd}, io_timers := (io_timers (nr_io ric))(fd := None)\<rparr>"
  have "fst ` (P - {(fd, e)}) = fst ` P - {fd}" using image_remove [OF fd_relD(2) [OF k(4)] m(1)] by simp
  then have "io_fds ?io = insert ep (fst ` (P - {(fd, e)}))" using k(9) fd(3) by auto
  moreover have "stop_pending_event_ric ric ev = Some (ric\<lparr>nr_pending := m, nr_io := ?io\<rparr>)"
    using m(3) fd by (simp add: stop_pending_event_ric_def rm_fd_asio_ric_def)
  ultimately show ?thesis
    using assms(1) m(1,2,4)
    by (intro exI [of _ fd] exI [of _ m] exI [of _ ?io]) (auto simp: ric_rep_def pub_ok_def)
qed

lemma add_pending_event_ric:
  assumes "ric_rep ep S ric P N" and "fresh_ric ric st" and "0 < ms"
  shows "\<exists>m io. add_pending_event_ric ric st ms ev = Some (ric\<lparr>nr_pending := m, nr_io := io\<rparr>) \<and>
    ric_rep ep S (ric\<lparr>nr_pending := m, nr_io := io\<rparr>) (insert (st_tfd st, ev) P) N"
proof -
  note k = ric_repD [OF assms(1)] and f = assms(2) [unfolded fresh_ric_def]
  have new: "st_tfd st \<notin> fst ` P" "st_tfd st \<noteq> ep" using f k(9) by auto
  obtain m where m: "bi_map_insert (nr_pending ric) (st_z1 st) (st_z2 st) (st_tfd st) FD_SZ ev PENDING_RIC_SZ = Some m"
    "fd_rel PENDING_RIC_SZ cmp_pending_event_ric m (insert (st_tfd st, ev) P)"
    using fd_insert [OF request_map.bi_order_axioms k(4) _ new(1)] f by blast
  let ?io = "(nr_io ric)\<lparr>io_timers := (io_timers (nr_io ric))(st_tfd st \<mapsto> (timer_spec ms, timer_spec ms)),
    io_fds := insert (st_tfd st) (io_fds (nr_io ric))\<rparr>"
  have "add_pending_event_ric ric st ms ev = Some (ric\<lparr>nr_pending := m, nr_io := ?io\<rparr>)"
    using m(1) f assms(3) by (simp add: add_pending_event_ric_def create_timer_ms_asio_ric_def add_fd_asio_ric_def)
  then show ?thesis
    using assms(1) m(2) new by (intro exI [of _ m] exI [of _ ?io]) (auto simp: ric_rep_def pub_ok_def)
qed

section \<open>Nodes\<close>

lemma find_node_run:
  "find_map_e2_node_sad m i = do {
     it \<leftarrow> assoc_rb_tree_front (b_left m) \<bind>
       (\<lambda>first. find_if_rb_tree (b_left m) first (assoc_rb_tree_end (b_left m)) i (eq_global_e2_node_id False));
     c_assert (it \<noteq> assoc_rb_tree_end (b_left m));
     s \<leftarrow> assoc_rb_tree_value (b_left m) it;
     s
   }"
  by (simp add: find_map_e2_node_sad_def Let_def Option.bind_assoc)

lemma find_node:
  assumes "ric_rep ep S ric P {(i, s)}"
  shows "find_map_e2_node_sad (nr_e2_nodes ric) i = Some s"
proof -
  have t: "tree_rel mono_node cmp_node NODE_SZ (b_left (nr_e2_nodes ric)) {(i, s)}"
    using ric_repD(5) [OF assms] by (simp add: bi_rel_def)
  have "mono_node i" using tree_rel_valid [OF t, of "(i, s)"] by simp
  then have "eq_global_e2_node_id False i i" using mono.zero [of i i] mono.anti [of i i] by simp
  then show ?thesis
    by (cases rule: tree_rel_find [OF t, of i "eq_global_e2_node_id False"]) (unfold find_node_run, auto)
qed

lemma find_no_node:
  assumes "ric_rep ep S ric P {}"
  shows "find_map_e2_node_sad (nr_e2_nodes ric) i = None"
proof -
  have "tree_rel mono_node cmp_node NODE_SZ (b_left (nr_e2_nodes ric)) {}"
    using ric_repD(5) [OF assms] by (simp add: bi_rel_def)
  then show ?thesis
    by (cases rule: tree_rel_find [where x = i and f = "eq_global_e2_node_id False"])
      (unfold find_node_run, auto)
qed

lemma add_node:
  assumes "ric_rep ep S ric P {}" and "fresh_ric ric st" and "mono_node i"
  shows "\<exists>m. add_map_e2_node_sad (nr_e2_nodes ric) (st_z1 st) (st_z2 st) i s = Some m \<and>
    ric_rep ep S (ric\<lparr>nr_e2_nodes := m\<rparr>) P {(i, s)}"
proof -
  note k = ric_repD [OF assms(1)] and f = assms(2) [unfolded fresh_ric_def]
  obtain m where "bi_map_insert (nr_e2_nodes ric) (st_z1 st) (st_z2 st) i NODE_SZ s SCTP_INFO_SZ = Some m"
    "bi_rel mono_node cmp_node NODE_SZ (\<lambda>_. True) cmp_sctp_info SCTP_INFO_SZ m {(i, s)}"
    using node_map.bi_map_insert [OF k(5) assms(3) TrueI, of s] f by auto
  then show ?thesis using assms(1) by (auto simp: add_map_e2_node_sad_def ric_rep_def pub_ok_def)
qed

section \<open>Rounds of the loop\<close>

lemma ric_round:
  assumes "ric_rep ep S ric P N" and "st_ready st = Epoll_ready False ep" and "st_recv st = SCTP_MSG_PAYLOAD m"
  shows "e2_event_step_ric ric st = do {
      ric \<leftarrow> (case m of
          E2_SETUP_REQUEST req \<Rightarrow> do {
            m \<leftarrow> add_map_e2_node_sad (nr_e2_nodes ric) (st_z1 st) (st_z2 st) (su_id req) (rt_info st);
            Some (ric\<lparr>nr_e2_nodes := m\<rparr>)
          }
        | _ \<Rightarrow> Some ric);
      (ans, ric) \<leftarrow> e2ap_msg_handle_ric ric m;
      Some (if ans \<noteq> NONE_E2_MSG_TYPE then e2ap_send_sctp_msg_ric ric (rt_info st) ans else ric)
    }"
  using ric_repD(6,7) [OF assms(1)] assms(2,3)
  by (simp add: e2_event_step_ric_def next_asio_event_ric_def event_asio_ric_def net_pkt_ric_def)

text \<open>An answer to a request that is pending.\<close>

lemma answer_round:
  assumes "ric_rep ep S ric P N" and "st_ready st = Epoll_ready False ep" and "st_recv st = SCTP_MSG_PAYLOAD m"
    and "(fd0, \<lparr>pr_ev = k, pr_id = r\<rparr>) \<in> P"
    and "(\<exists>sp. m = RIC_SUBSCRIPTION_RESPONSE sp \<and> k = SUBSCRIPTION_REQUEST_PENDING_EVENT \<and> sp_ric_id sp = r \<and>
        sp_admitted sp = [0] \<and> sp_len_na sp = 0) \<or>
      m = RIC_SUBSCRIPTION_DELETE_RESPONSE r \<and> k = SUBSCRIPTION_DELETE_REQUEST_PENDING_EVENT \<or>
      (\<exists>ack. m = RIC_CONTROL_ACKNOWLEDGE ack \<and> k = CONTROL_REQUEST_PENDING_EVENT \<and> ca_ric_id ack = r \<and>
        ca_status ack = RIC_CONTROL_STATUS_SUCCESS)"
  shows "\<exists>ric' fd. e2_event_step_ric ric st = Some ric' \<and> (fd, \<lparr>pr_ev = k, pr_id = r\<rparr>) \<in> P \<and>
    ric_rep ep S ric' (P - {(fd, \<lparr>pr_ev = k, pr_id = r\<rparr>)}) N \<and> nr_sent ric' = nr_sent ric \<and>
    nr_iapp ric' = nr_iapp ric @ [Iapp_msg m]"
proof -
  obtain fd p io where s: "(fd, \<lparr>pr_ev = k, pr_id = r\<rparr>) \<in> P"
    "stop_pending_event_ric ric \<lparr>pr_ev = k, pr_id = r\<rparr> = Some (ric\<lparr>nr_pending := p, nr_io := io\<rparr>)"
    "ric_rep ep S (ric\<lparr>nr_pending := p, nr_io := io\<rparr>) (P - {(fd, \<lparr>pr_ev = k, pr_id = r\<rparr>)}) N"
    using stop_pending_event_ric [OF assms(1,4)] by blast
  let ?ric = "(ric\<lparr>nr_pending := p, nr_io := io\<rparr>)\<lparr>nr_iapp := nr_iapp ric @ [Iapp_msg m]\<rparr>"
  have "e2ap_msg_handle_ric ric m = Some (NONE_E2_MSG_TYPE, ?ric)"
    using assms(5) s(2)
    by (auto simp: e2ap_msg_handle_ric_def check_valid_msg_type_ric_def e2ap_handle_subscription_response_ric_def
        e2ap_handle_subscription_delete_response_ric_def e2ap_handle_control_ack_ric_def notify_msg_iapp_api_def)
  then have "e2_event_step_ric ric st = Some ?ric"
    using ric_round [OF assms(1-3)] assms(5) by auto
  moreover have "ric_rep ep S ?ric (P - {(fd, \<lparr>pr_ev = k, pr_id = r\<rparr>)}) N" using s(3) by (simp only: ric_rep_upd)
  ultimately show ?thesis using s(1) by (intro exI [of _ ?ric] exI [of _ fd]) simp
qed

text \<open>A response of the agent that does not admit exactly the action 0 stops the RIC.\<close>

lemma response_stops:
  assumes "ric_rep ep S ric P N" and "st_ready st = Epoll_ready False ep" and "st_recv st = SCTP_MSG_PAYLOAD (RIC_SUBSCRIPTION_RESPONSE sp)"
    and "sp_admitted sp \<noteq> [0]"
  shows "e2_event_step_ric ric st = None"
proof -
  have "\<not> (length (sp_admitted sp) = 1 \<and> sp_admitted sp ! 0 = 0)" using assms(4) by (cases "sp_admitted sp") auto
  then have "e2ap_handle_subscription_response_ric ric sp = None"
    by (cases "stop_pending_event_ric ric \<lparr>pr_ev = SUBSCRIPTION_REQUEST_PENDING_EVENT, pr_id = sp_ric_id sp\<rparr>")
      (auto simp: e2ap_handle_subscription_response_ric_def c_assert_def)
  then show ?thesis
    using ric_round [OF assms(1-3)] by (simp add: e2ap_msg_handle_ric_def check_valid_msg_type_ric_def)
qed

text \<open>The timer of a request: it is read, and nothing else happens; with other requests pending the RIC stops.\<close>

lemma timer_round:
  assumes "ric_rep ep S ric P N" and "st_ready st = Epoll_ready False fd" and "fd \<in> io_fds (nr_io ric)" and "fd \<noteq> ep"
  shows "e2_event_step_ric ric st = (if card P = 1 \<and> st_read st = 8 then Some ric else None)"
proof -
  note k = ric_repD [OF assms(1)]
  have fd: "fd \<in> fst ` P" using assms(3,4) k(9) by blast
  then have pos: "0 < fd" using fd_relD(4) [OF k(4)] by force
  have run: "pend_event_ric ric fd = do {
      c_assert (card P = 1);
      it \<leftarrow> assoc_rb_tree_front (b_left (nr_pending ric)) \<bind>
        (\<lambda>first. find_if_rb_tree (b_left (nr_pending ric)) first (assoc_rb_tree_end (b_left (nr_pending ric))) fd eq_fd_key);
      c_assert (it \<noteq> assoc_rb_tree_end (b_left (nr_pending ric)));
      assoc_rb_tree_value (b_left (nr_pending ric)) it
    }"
    using pos fd_relD(6) [OF k(4)] by (simp add: pend_event_ric_def Let_def Option.bind_assoc)
  have "\<exists>e. pend_event_ric ric fd = (if card P = 1 then Some (Some e) else None)"
  proof (cases rule: find_fd [OF k(4) pos])
    case (1 it e)
    then show ?thesis unfolding run by (intro exI [of _ e]) (simp add: c_assert_def)
  next
    case 2
    then show ?thesis using fd by blast
  qed
  then show ?thesis
    using assms(2,4) pos k(6)
    by (auto simp: e2_event_step_ric_def next_asio_event_ric_def event_asio_ric_def net_pkt_ric_def consume_fd_def c_assert_def)
qed

lemma indication_round:
  assumes "ric_rep ep S ric P N" and "st_ready st = Epoll_ready False ep" and "st_recv st = SCTP_MSG_PAYLOAD (RIC_INDICATION i)"
    and "sm \<in> S" and "rp_ran_func_id sm = ran_func_id (ri_ric_id i)" and "0 < ran_func_id (ri_ric_id i)"
    and "rd_type (rp_on_indication sm \<lparr>si_ind_hdr = ri_hdr i, si_ind_msg = ri_msg i, si_call_process_id = ri_call_process_id i\<rparr>)
      \<in> {MAC_STATS_V0, RLC_STATS_V0, PDCP_STATS_V0, SLICE_STATS_V0, KPM_STATS_V0, GTP_STATS_V0}"
  shows "\<exists>ric'. e2_event_step_ric ric st = Some ric' \<and> ric_rep ep S ric' P N \<and> nr_sent ric' = nr_sent ric \<and>
    nr_iapp ric' = nr_iapp ric @ [Iapp_msg (RIC_INDICATION i)]"
proof -
  let ?d = "rp_on_indication sm \<lparr>si_ind_hdr = ri_hdr i, si_ind_msg = ri_msg i, si_call_process_id = ri_call_process_id i\<rparr>"
  have fid: "ran_func_id (ri_ric_id i) \<in> rp_ran_func_id ` S" using assms(4,5) by force
  obtain subs where subs: "publish_ind_msg ric (ran_func_id (ri_ric_id i)) ?d =
      Some (ric\<lparr>nr_published := nr_published ric @ map (\<lambda>s. (s, ?d)) subs\<rparr>)"
    using publish_ind_msg [OF ric_repD(3) [OF assms(1)] fid] by blast
  let ?ric = "(ric\<lparr>nr_published := nr_published ric @ map (\<lambda>s. (s, ?d)) subs\<rparr>)\<lparr>nr_iapp := nr_iapp ric @ [Iapp_msg (RIC_INDICATION i)]\<rparr>"
  have "e2ap_handle_indication_ric ric i = Some (NONE_E2_MSG_TYPE, ?ric)"
    using sm_plugin_ric [OF assms(1,4,5,6)] subs assms(7)
    by (auto simp: e2ap_handle_indication_ric_def Let_def notify_msg_iapp_api_def)
  then have "e2_event_step_ric ric st = Some ?ric"
    using ric_round [OF assms(1-3)] by (simp add: e2ap_msg_handle_ric_def check_valid_msg_type_ric_def)
  moreover have "ric_rep ep S ?ric P N" using assms(1) by (simp only: ric_rep_upd)
  ultimately show ?thesis by (intro exI [of _ ?ric]) simp
qed

lemma setup_round:
  assumes "ric_rep ep S ric P {}" and "st_ready st = Epoll_ready False ep" and "st_recv st = SCTP_MSG_PAYLOAD (E2_SETUP_REQUEST req)"
    and "fresh_ric ric st" and "mono_node (su_id req)" and "su_ran_func_item req \<noteq> []"
    and "\<forall>rf \<in> set (su_ran_func_item req). length (rf_def rf) < 127 \<and> rf_id rf \<in> rp_ran_func_id ` S"
  shows "\<exists>ric' resp. e2_event_step_ric ric st = Some ric' \<and> ric_rep ep S ric' P {(su_id req, rt_info st)} \<and>
    nr_sent ric' = nr_sent ric @ [(rt_info st, E2_SETUP_RESPONSE resp)] \<and>
    nr_iapp ric' = nr_iapp ric @ [Iapp_add_node (su_id req) (su_ran_func_item req)]"
proof -
  obtain m where m: "add_map_e2_node_sad (nr_e2_nodes ric) (st_z1 st) (st_z2 st) (su_id req) (rt_info st) = Some m"
    "ric_rep ep S (ric\<lparr>nr_e2_nodes := m\<rparr>) P {(su_id req, rt_info st)}"
    using add_node [OF assms(1,4,5)] by blast
  let ?ric = "ric\<lparr>nr_e2_nodes := m\<rparr>" and ?acc = "map rf_id (su_ran_func_item req)"
  let ?resp = "\<lparr>ss_plmn = n_plmn (su_id req), ss_near_ric_id = 25, ss_accepted = ?acc, ss_len_rej = 0, ss_len_ccual = 0\<rparr>"
  let ?ric1 = "?ric\<lparr>nr_iapp := nr_iapp ric @ [Iapp_add_node (su_id req) (su_ran_func_item req)]\<rparr>"
  let ?ric2 = "?ric1\<lparr>nr_conn_e2_nodes := nr_conn_e2_nodes ric @ [init_e2_node (su_id req) ?acc]\<rparr>"
  have "ric_rep ep S ?ric1 P {(su_id req, rt_info st)}" using m(2) by (simp only: ric_rep_upd)
  then have acc: "accept_loop (nr_sm_ds ?ric1) (su_ran_func_item req) = Some ?acc" using accept_loop assms(7) by blast
  have "NODE_IS_MONOLITHIC (n_type (su_id req))" using assms(5) by (simp add: mono_node_def)
  then have "e2ap_handle_setup_request_ric ?ric req = Some (E2_SETUP_RESPONSE ?resp, ?ric2)"
    using assms(6) acc by (simp add: e2ap_handle_setup_request_ric_def add_e2_node_iapp_api_def generate_setup_response_def Let_def)
  then have "e2_event_step_ric ric st = Some (?ric2\<lparr>nr_sent := nr_sent ric @ [(rt_info st, E2_SETUP_RESPONSE ?resp)]\<rparr>)"
    using ric_round [OF assms(1-3)] m(1)
    by (simp add: e2ap_msg_handle_ric_def check_valid_msg_type_ric_def e2ap_send_sctp_msg_ric_def)
  moreover have "ric_rep ep S (?ric2\<lparr>nr_sent := nr_sent ric @ [(rt_info st, E2_SETUP_RESPONSE ?resp)]\<rparr>) P {(su_id req, rt_info st)}"
    using m(2) by (simp only: ric_rep_upd)
  ultimately show ?thesis by (intro exI) auto
qed

text \<open>A request of the iApp: the three functions differ in the message and the event.\<close>

lemma request_round:
  assumes "ric_rep ep S ric P N" and "N = {} \<or> N = {(i, s)}" and "fresh_ric ric st"
    and "do { ric \<leftarrow> add_pending_event_ric (ric\<lparr>nr_req_id := q\<rparr>) st 3000 ev; e2ap_send_bytes_ric ric i m } = Some ric'"
  shows "N = {(i, s)}" "ric_rep ep S ric' (insert (st_tfd st, ev) P) N" "nr_sent ric' = nr_sent ric @ [(s, m)]" "nr_iapp ric' = nr_iapp ric"
proof -
  let ?ric = "ric\<lparr>nr_req_id := q\<rparr>"
  have r: "ric_rep ep S ?ric P N" "fresh_ric ?ric st" using assms(1,3) by (simp_all add: fresh_ric_def)
  obtain p io where p: "add_pending_event_ric ?ric st 3000 ev = Some (?ric\<lparr>nr_pending := p, nr_io := io\<rparr>)"
    "ric_rep ep S (?ric\<lparr>nr_pending := p, nr_io := io\<rparr>) (insert (st_tfd st, ev) P) N"
    using add_pending_event_ric [OF r, of 3000 ev] by auto
  show N: "N = {(i, s)}"
  proof (rule ccontr)
    assume "N \<noteq> {(i, s)}"
    then have "N = {}" using assms(2) by blast
    from find_no_node [OF p(2) [unfolded this], of i] show False using assms(4) p(1) by (simp add: e2ap_send_bytes_ric_def)
  qed
  have "ric' = (?ric\<lparr>nr_pending := p, nr_io := io\<rparr>)\<lparr>nr_sent := nr_sent ric @ [(s, m)]\<rparr>"
    using assms(4) p find_node [OF p(2) [unfolded N]] by (simp add: e2ap_send_bytes_ric_def)
  then show "ric_rep ep S ric' (insert (st_tfd st, ev) P) N" "nr_sent ric' = nr_sent ric @ [(s, m)]" "nr_iapp ric' = nr_iapp ric"
    using p(2) by (simp_all only: ric_rep_upd) simp_all
qed

end
