(* ===== verification/E2RicStart.thy ===== *)
theory E2RicStart
  imports E2RicSpec begin

text \<open>
  The start of the RIC: the service models that are loaded, and the listeners that are registered for each of them.
\<close>

section \<open>Service models\<close>

fun unused_ric :: "(u16, sm_ric) assoc_rb_tree \<Rightarrow> (ref \<times> sm_ric) list \<Rightarrow> bool" where
  "unused_ric ds [] \<longleftrightarrow> True"
| "unused_ric ds ((z, sm) # files) \<longleftrightarrow>
     z \<noteq> NULL \<and> t_heap ds z = None \<and> (case load_plugin_ric ds z sm of None \<Rightarrow> True | Some ds \<Rightarrow> unused_ric ds files)"

lemma load_all_ric:
  assumes "tree_rel (\<lambda>_. True) cmp_ran_func_id RAN_FUNC_SZ ds ((\<lambda>sm. (rp_ran_func_id sm, sm)) ` S)" and "unused_ric ds files"
    and "distinct (map (\<lambda>f. rp_ran_func_id (snd f)) files)" and "\<forall>sm \<in> S. \<forall>f \<in> set files. rp_ran_func_id (snd f) \<noteq> rp_ran_func_id sm"
    and "\<forall>f \<in> set files. 0 < rp_ran_func_id (snd f)"
  shows "\<exists>ds'. load_all_pugin_ric ds files = Some ds' \<and>
    tree_rel (\<lambda>_. True) cmp_ran_func_id RAN_FUNC_SZ ds' ((\<lambda>sm. (rp_ran_func_id sm, sm)) ` (S \<union> snd ` set files))"
  using assms
proof (induction files arbitrary: ds S)
  case Nil
  then show ?case by simp
next
  case (Cons f files)
  obtain z sm where f: "f = (z, sm)" by (cases f)
  have z: "z \<noteq> NULL" "t_heap ds z = None" and new: "(rp_ran_func_id sm, sm) \<notin> (\<lambda>sm. (rp_ran_func_id sm, sm)) ` S"
    and pos: "0 < rp_ran_func_id sm"
    using Cons.prems(2,4,5) by (auto simp: f)
  obtain ds1 where ds1: "load_plugin_ric ds z sm = Some ds1"
    "tree_rel (\<lambda>_. True) cmp_ran_func_id RAN_FUNC_SZ ds1 ((\<lambda>sm. (rp_ran_func_id sm, sm)) ` insert sm S)"
    using ran_func3.rel_insert [OF Cons.prems(1) TrueI new z] pos by (auto simp: load_plugin_ric_def)
  have "\<forall>s \<in> insert sm S. \<forall>g \<in> set files. rp_ran_func_id (snd g) \<noteq> rp_ran_func_id s"
    using Cons.prems(3,4) by (auto simp: f image_iff)
  moreover have "unused_ric ds1 files" "distinct (map (\<lambda>f. rp_ran_func_id (snd f)) files)" "\<forall>f \<in> set files. 0 < rp_ran_func_id (snd f)"
    using Cons.prems(2,3,5) ds1(1) by (simp_all add: f)
  ultimately obtain ds' where "load_all_pugin_ric ds1 files = Some ds'"
    "tree_rel (\<lambda>_. True) cmp_ran_func_id RAN_FUNC_SZ ds' ((\<lambda>sm. (rp_ran_func_id sm, sm)) ` (insert sm S \<union> snd ` set files))"
    using Cons.IH [OF ds1(2)] by blast
  then show ?case using ds1(1) by (simp add: f)
qed

section \<open>Listeners\<close>

lemma register_listeners:
  assumes "pub_ok ric I" and "i \<notin> I \<Longrightarrow> x \<noteq> NULL \<and> z \<noteq> NULL \<and> nr_arrs ric x = None \<and> t_heap (nr_pub_sub ric) z = None"
  shows "\<exists>t f. register_listeners_for_ran_func_id ric x z i s = Some (ric\<lparr>nr_pub_sub := t, nr_arrs := f\<rparr>) \<and>
    pub_ok (ric\<lparr>nr_pub_sub := t, nr_arrs := f\<rparr>) (insert i I)"
proof -
  let ?t = "nr_pub_sub ric"
  obtain X where X: "tree_rel (\<lambda>_. True) cmp_ran_func_id RAN_FUNC_SZ ?t X" "fst ` X = I" "\<forall>p \<in> X. nr_arrs ric (snd p) \<noteq> None"
    using assms(1) by (auto simp: pub_ok_def)
  have run: "register_listeners_for_ran_func_id ric x z i s = do {
      it \<leftarrow> assoc_rb_tree_front ?t \<bind> (\<lambda>first. find_if_rb_tree ?t first (assoc_rb_tree_end ?t) i eq_ran_func_id);
      if it = assoc_rb_tree_end ?t
      then do {
        c_assert (x \<noteq> NULL \<and> nr_arrs ric x = None);
        t \<leftarrow> assoc_rb_tree_insert ?t z i RAN_FUNC_SZ (Some x);
        Some (ric\<lparr>nr_arrs := (nr_arrs ric)(x \<mapsto> [s]), nr_pub_sub := t\<rparr>)
      }
      else do {
        arr \<leftarrow> assoc_rb_tree_value ?t it;
        arr \<leftarrow> arr;
        xs \<leftarrow> nr_arrs ric arr;
        Some (ric\<lparr>nr_arrs := (nr_arrs ric)(arr \<mapsto> xs @ [s])\<rparr>)
      }
    }"
    unfolding register_listeners_for_ran_func_id_def Let_def Option.bind_assoc by (simp cong: if_cong)
  show ?thesis
  proof (cases rule: tree_rel_find [OF X(1), of i eq_ran_func_id])
    case (1 it p)
    then obtain xs where xs: "nr_arrs ric (snd p) = Some xs" "i = fst p" using X(3) by (auto simp: eq_ran_func_id_def)
    let ?f = "(nr_arrs ric)(snd p \<mapsto> xs @ [s])"
    have I: "insert i I = I" using 1(2) X(2) xs(2) by auto
    have "register_listeners_for_ran_func_id ric x z i s = Some (ric\<lparr>nr_pub_sub := ?t, nr_arrs := ?f\<rparr>)"
      using 1 xs(1) unfolding run by simp
    moreover have "pub_ok (ric\<lparr>nr_pub_sub := ?t, nr_arrs := ?f\<rparr>) (insert i I)"
      unfolding pub_ok_def I by (rule exI [of _ X]) (use X in auto)
    ultimately show ?thesis by blast
  next
    case 2
    then have i: "i \<notin> I" using X(2) by (auto simp: eq_ran_func_id_def)
    note f = assms(2) [OF i]
    have new: "(i, x) \<notin> X" using i X(2) by force
    have "\<exists>t. assoc_rb_tree_insert ?t z i RAN_FUNC_SZ (Some x) = Some t \<and>
        tree_rel (\<lambda>_. True) cmp_ran_func_id RAN_FUNC_SZ t (insert (i, x) X)"
      by (rule ran_func3.rel_insert [OF X(1) TrueI new]) (use f in simp_all)
    then obtain t where t: "assoc_rb_tree_insert ?t z i RAN_FUNC_SZ (Some x) = Some t"
      "tree_rel (\<lambda>_. True) cmp_ran_func_id RAN_FUNC_SZ t (insert (i, x) X)"
      by blast
    let ?f = "(nr_arrs ric)(x \<mapsto> [s])"
    have "register_listeners_for_ran_func_id ric x z i s = Some (ric\<lparr>nr_pub_sub := t, nr_arrs := ?f\<rparr>)"
      using 2(1) t(1) f unfolding run by simp
    moreover have "pub_ok (ric\<lparr>nr_pub_sub := t, nr_arrs := ?f\<rparr>) (insert i I)"
      unfolding pub_ok_def by (rule exI [of _ "insert (i, x) X"]) (use t(2) X(2,3) in auto)
    ultimately show ?thesis by blast
  qed
qed

definition register_three :: "near_ric \<Rightarrow> ref \<Rightarrow> ref \<Rightarrow> u16 \<Rightarrow> near_ric option" where
  "register_three ric x z i = do {
     ric \<leftarrow> register_listeners_for_ran_func_id ric x z i ''stdout listener'';
     ric \<leftarrow> register_listeners_for_ran_func_id ric x z i ''redis listener'';
     register_listeners_for_ran_func_id ric x z i ''influx listener''
   }"

lemma register_three:
  assumes "pub_ok ric I" and "x \<noteq> NULL \<and> z \<noteq> NULL \<and> nr_arrs ric x = None \<and> t_heap (nr_pub_sub ric) z = None"
  shows "\<exists>t f. register_three ric x z i = Some (ric\<lparr>nr_pub_sub := t, nr_arrs := f\<rparr>) \<and>
    pub_ok (ric\<lparr>nr_pub_sub := t, nr_arrs := f\<rparr>) (insert i I)"
proof -
  obtain t1 f1 where 1: "register_listeners_for_ran_func_id ric x z i ''stdout listener'' = Some (ric\<lparr>nr_pub_sub := t1, nr_arrs := f1\<rparr>)"
    "pub_ok (ric\<lparr>nr_pub_sub := t1, nr_arrs := f1\<rparr>) (insert i I)"
    using register_listeners [OF assms(1), of i x z] assms(2) by blast
  let ?r1 = "ric\<lparr>nr_pub_sub := t1, nr_arrs := f1\<rparr>"
  obtain t2 f2 where 2: "register_listeners_for_ran_func_id ?r1 x z i ''redis listener'' = Some (?r1\<lparr>nr_pub_sub := t2, nr_arrs := f2\<rparr>)"
    "pub_ok (?r1\<lparr>nr_pub_sub := t2, nr_arrs := f2\<rparr>) (insert i (insert i I))"
    using register_listeners [OF 1(2), of i x z] by blast
  let ?r2 = "?r1\<lparr>nr_pub_sub := t2, nr_arrs := f2\<rparr>"
  obtain t3 f3 where 3: "register_listeners_for_ran_func_id ?r2 x z i ''influx listener'' = Some (?r2\<lparr>nr_pub_sub := t3, nr_arrs := f3\<rparr>)"
    "pub_ok (?r2\<lparr>nr_pub_sub := t3, nr_arrs := f3\<rparr>) (insert i (insert i (insert i I)))"
    using register_listeners [OF 2(2), of i x z] by blast
  show ?thesis using 1(1) 2(1) 3 by (intro exI [of _ t3] exI [of _ f3]) (simp add: register_three_def)
qed

text \<open>The addresses given for the arrays and the nodes, in the order of the service models.\<close>

fun unused_pub :: "near_ric \<Rightarrow> u16 list \<Rightarrow> (ref \<times> ref) list \<Rightarrow> bool" where
  "unused_pub ric [] zs \<longleftrightarrow> True"
| "unused_pub ric (i # is) [] \<longleftrightarrow> False"
| "unused_pub ric (i # is) ((x, z) # zs) \<longleftrightarrow> x \<noteq> NULL \<and> z \<noteq> NULL \<and> nr_arrs ric x = None \<and> t_heap (nr_pub_sub ric) z = None \<and>
     (case register_three ric x z i of None \<Rightarrow> True | Some ric \<Rightarrow> unused_pub ric is zs)"

lemma load_pub_sub_loop:
  assumes "heap_tree (nr_sm_ds ric) T" and "entries T = xs @ ys" and "pub_ok ric I" and "unused_pub ric (map (\<lambda>e. fst (snd e)) ys) zs"
  shows "\<exists>t f. load_pub_sub_loop ric (first_ref (t_dummy (nr_sm_ds ric)) ys) zs = Some (ric\<lparr>nr_pub_sub := t, nr_arrs := f\<rparr>) \<and>
    pub_ok (ric\<lparr>nr_pub_sub := t, nr_arrs := f\<rparr>) (I \<union> (\<lambda>e. fst (snd e)) ` set ys)"
  using assms
proof (induction ys arbitrary: xs ric I zs)
  case Nil
  have "load_pub_sub_loop ric (t_dummy (nr_sm_ds ric)) zs = Some ric"
    by (subst load_pub_sub_loop.simps) (simp add: assoc_rb_tree_end_def)
  then show ?case using Nil.prems(3) by (intro exI [of _ "nr_pub_sub ric"] exI [of _ "nr_arrs ric"]) simp
next
  case (Cons e ys)
  let ?i = "fst (snd e)"
  obtain x z zs' where zs: "zs = (x, z) # zs'" using Cons.prems(4) by (cases zs) auto
  have new: "x \<noteq> NULL \<and> z \<noteq> NULL \<and> nr_arrs ric x = None \<and> t_heap (nr_pub_sub ric) z = None" using Cons.prems(4) by (simp add: zs)
  obtain t f where r: "register_three ric x z ?i = Some (ric\<lparr>nr_pub_sub := t, nr_arrs := f\<rparr>)"
    "pub_ok (ric\<lparr>nr_pub_sub := t, nr_arrs := f\<rparr>) (insert ?i I)"
    using register_three [OF Cons.prems(3) new] by blast
  let ?ric = "ric\<lparr>nr_pub_sub := t, nr_arrs := f\<rparr>"
  have un: "unused_pub ?ric (map (\<lambda>e. fst (snd e)) ys) zs'" using Cons.prems(4) r(1) by (simp add: zs)
  have h: "heap_tree (nr_sm_ds ?ric) T" "entries T = (xs @ [e]) @ ys" using Cons.prems(1,2) by simp_all
  obtain t' f' where l: "load_pub_sub_loop ?ric (first_ref (t_dummy (nr_sm_ds ?ric)) ys) zs' = Some (?ric\<lparr>nr_pub_sub := t', nr_arrs := f'\<rparr>)"
    "pub_ok (?ric\<lparr>nr_pub_sub := t', nr_arrs := f'\<rparr>) (insert ?i I \<union> (\<lambda>e. fst (snd e)) ` set ys)"
    using Cons.IH [OF h r(2) un] by blast
  note it = iterator [OF Cons.prems(1,2)]
  have step: "load_pub_sub_loop ric (fst e) zs =
      register_three ric x z ?i \<bind> (\<lambda>r. assoc_rb_tree_next (nr_sm_ds r) (fst e) \<bind> (\<lambda>it. load_pub_sub_loop r it zs'))"
    using it(2,4) by (subst load_pub_sub_loop.simps) (simp add: zs register_three_def Option.bind_assoc)
  have "load_pub_sub_loop ric (fst e) zs = Some (ric\<lparr>nr_pub_sub := t', nr_arrs := f'\<rparr>)"
    unfolding step r(1) using it(1) l(1) by simp
  then show ?case using l(2) by (intro exI [of _ t'] exI [of _ f']) simp
qed

section \<open>Start\<close>

lemma ric_init:
  assumes "0 < sock" and "rr_sm d \<noteq> NULL" and "rr_pub d \<noteq> NULL" and "rr_n1 d \<noteq> NULL" and "rr_n2 d \<noteq> NULL" and "rr_p1 d \<noteq> NULL" and "rr_p2 d \<noteq> NULL"
    and "\<forall>ds. assoc_rb_tree_init (rr_sm d) RAN_FUNC_SZ cmp_ran_func_id = Some ds \<longrightarrow> unused_ric ds files"
    and "distinct (map (\<lambda>f. rp_ran_func_id (snd f)) files)" and "\<forall>f \<in> set files. 0 < rp_ran_func_id (snd f)"
    and "\<forall>ric. alloc_near_ric sock d files = Some ric \<longrightarrow> unused_pub ric (sort (map (\<lambda>f. rp_ran_func_id (snd f)) files)) zs"
  shows "\<exists>ric. init_near_ric sock d files zs = Some ric \<and> ric_rep sock (snd ` set files) ric {} {} \<and> nr_sent ric = [] \<and> nr_iapp ric = []"
proof -
  let ?S = "snd ` set files" and ?is = "map (\<lambda>f. rp_ran_func_id (snd f)) files"
  obtain ds :: "(u16, sm_ric) assoc_rb_tree" where ds: "assoc_rb_tree_init (rr_sm d) RAN_FUNC_SZ cmp_ran_func_id = Some ds"
    "tree_rel (\<lambda>_. True) cmp_ran_func_id RAN_FUNC_SZ ds {}"
    using tree_rel_init [of RAN_FUNC_SZ "rr_sm d"] assms(2) by auto
  have un: "unused_ric ds files" using assms(8) ds(1) by blast
  obtain ds' where ds': "load_all_pugin_ric ds files = Some ds'"
    "tree_rel (\<lambda>_. True) cmp_ran_func_id RAN_FUNC_SZ ds' ((\<lambda>sm. (rp_ran_func_id sm, sm)) ` ?S)"
    using load_all_ric [of ds "{}" files] ds(2) un assms(9,10) by auto
  obtain pub :: "(u16, ref) assoc_rb_tree" where pub: "assoc_rb_tree_init (rr_pub d) RAN_FUNC_SZ cmp_ran_func_id = Some pub"
    "tree_rel (\<lambda>_. True) cmp_ran_func_id RAN_FUNC_SZ pub {}"
    using tree_rel_init [of RAN_FUNC_SZ "rr_pub d"] assms(3) by auto
  obtain p :: "(int, pending_event_ric) bi_map" where p: "init_pending_events_ric (rr_p1 d) (rr_p2 d) = Some p"
    "fd_rel PENDING_RIC_SZ cmp_pending_event_ric p {}"
    using bi_rel_init [of FD_SZ PENDING_RIC_SZ "rr_p1 d" "rr_p2 d" cmp_fd_key cmp_pending_event_ric] assms(6,7)
    by (auto simp: init_pending_events_ric_def fd_rel_def)
  obtain n :: node_addrs where n: "init_map_e2_node_sad (rr_n1 d) (rr_n2 d) = Some n"
    "bi_rel mono_node cmp_node NODE_SZ (\<lambda>_. True) cmp_sctp_info SCTP_INFO_SZ n {}"
    using bi_rel_init [of NODE_SZ SCTP_INFO_SZ "rr_n1 d" "rr_n2 d" cmp_node cmp_sctp_info] assms(4,5)
    by (auto simp: init_map_e2_node_sad_def)
  obtain ric where ric: "alloc_near_ric sock d files = Some ric" "nr_sm_ds ric = ds'" "nr_pub_sub ric = pub" "nr_pending ric = p"
    "nr_e2_nodes ric = n" "nr_ep_fd ric = sock" "io_fds (nr_io ric) = {sock}" "nr_sent ric = []" "nr_iapp ric = []"
    using ds(1) ds'(1) pub(1) p(1) n(1) assms(1)
    by (simp add: alloc_near_ric_def init_plugin_ric_def init_asio_agent_def add_fd_asio_ric_def)
  obtain ps T where T: "heap_tree ds' T" "map snd (entries T) = pairs ps" "set ps = (\<lambda>sm. (rp_ran_func_id sm, sm)) ` ?S" "distinct ps"
    "sorted_keys (\<lambda>_. True) cmp_ran_func_id (pairs ps)"
    using ds'(2) by (auto simp: tree_rel_def tree_holds_def tree_wf_def)
  have keys: "map (\<lambda>e. fst (snd e)) (entries T) = map fst ps" using arg_cong [OF T(2), of "map fst"] by (simp add: comp_def)
  have inj: "inj_on rp_ran_func_id ?S" using assms(9) by (auto simp: distinct_map inj_on_def)
  have "sorted (map fst ps)" using T(5)
    by (auto simp: sorted_keys_def sorted_wrt_map cmp_ran_func_id_def split: if_splits elim!: sorted_wrt_mono_rel [rotated])
  moreover have "inj_on fst (set ps)" using T(3) inj by (auto simp: inj_on_def)
  then have "distinct (map fst ps)" using T(4) by (simp add: distinct_map)
  moreover have "set (map fst ps) = set ?is" using T(3) by (auto simp: image_image)
  ultimately have "map fst ps = sort ?is"
    using sorted_distinct_set_unique [of "map fst ps" "sort ?is"] assms(9) by simp
  then have "unused_pub ric (map (\<lambda>e. fst (snd e)) (entries T)) zs" using assms(11) ric(1) keys by simp
  moreover have "pub_ok ric {}" unfolding pub_ok_def using pub(2) ric(3) by (intro exI [of _ "{}"]) simp
  ultimately obtain t f where l: "load_pub_sub_loop ric (first_ref (t_dummy ds') (entries T)) zs = Some (ric\<lparr>nr_pub_sub := t, nr_arrs := f\<rparr>)"
    "pub_ok (ric\<lparr>nr_pub_sub := t, nr_arrs := f\<rparr>) ((\<lambda>e. fst (snd e)) ` set (entries T))"
    using load_pub_sub_loop [of ric T "[]" "entries T" "{}" zs] T(1) ric(2) by auto
  have "(\<lambda>e. fst (snd e)) ` set (entries T) = rp_ran_func_id ` ?S"
    using arg_cong [OF keys, of set] T(3) by (simp add: image_image)
  then have "ric_rep sock ?S (ric\<lparr>nr_pub_sub := t, nr_arrs := f\<rparr>) {} {}"
    using l(2) ds'(2) inj p(2) n(2) ric assms(1) by (simp add: ric_rep_def)
  moreover have "init_near_ric sock d files zs = Some (ric\<lparr>nr_pub_sub := t, nr_arrs := f\<rparr>)"
    using ric(1,2) l(1) assoc_rb_tree_front [OF T(1)] by (simp add: init_near_ric_def load_default_pub_sub_ric_def)
  ultimately show ?thesis using ric(8,9) by (intro exI) auto
qed

text \<open>A RIC that has been started with the service models of a set \<open>S\<close>.\<close>

inductive ric_started :: "sm_ric set \<Rightarrow> near_ric \<Rightarrow> bool" where
  ric_started: "\<lbrakk>0 < sock; rr_sm d \<noteq> NULL; rr_pub d \<noteq> NULL; rr_n1 d \<noteq> NULL; rr_n2 d \<noteq> NULL; rr_p1 d \<noteq> NULL; rr_p2 d \<noteq> NULL;
     \<forall>ds. assoc_rb_tree_init (rr_sm d) RAN_FUNC_SZ cmp_ran_func_id = Some ds \<longrightarrow> unused_ric ds files;
     distinct (map (\<lambda>f. rp_ran_func_id (snd f)) files); \<forall>f \<in> set files. 0 < rp_ran_func_id (snd f);
     \<forall>ric. alloc_near_ric sock d files = Some ric \<longrightarrow> unused_pub ric (sort (map (\<lambda>f. rp_ran_func_id (snd f)) files)) zs;
     init_near_ric sock d files zs = Some ric\<rbrakk>
   \<Longrightarrow> ric_started (snd ` set files) ric"

lemma ric_started_ok:
  assumes "ric_started S ric"
  shows "\<exists>ep. ric_rep ep S ric {} {} \<and> nr_sent ric = [] \<and> nr_iapp ric = []"
  using assms
proof cases
  case (ric_started sock d files zs)
  from ric_init [OF ric_started(2-12)] ric_started(1,13) show ?thesis by auto
qed

end
