(* ===== verification/E2AgentRuns.thy ===== *)
theory E2AgentRuns
  imports E2AgentSpec begin

text \<open>
  The life of an E2 agent: its start from the service models that are loaded, the rounds of the event loop one after the other,
  and its end; and what holds in every state it reaches.
\<close>

section \<open>Runs\<close>

inductive agent_run :: "'w e2_agent \<Rightarrow> 'w e2_agent \<Rightarrow> bool" where
  run_start: "agent_run ag ag"
| run_round: "agent_run ag ag1 \<Longrightarrow> fresh ag1 st \<Longrightarrow> e2_event_step ag1 st = Some ag2 \<Longrightarrow> agent_run ag ag2"

text \<open>The addresses of the nodes in which the service models are stored are unused.\<close>

fun unused :: "(u16, 'w sm_agent) assoc_rb_tree \<Rightarrow> (ref \<times> 'w sm_agent) list \<Rightarrow> bool" where
  "unused ds [] \<longleftrightarrow> True"
| "unused ds ((z, sm) # files) \<longleftrightarrow> z \<noteq> NULL \<and> t_heap ds z = None \<and> (case load_plugin_ag ds z sm of None \<Rightarrow> True | Some ds \<Rightarrow> unused ds files)"

text \<open>The subscriptions that the messages sent so far leave active.\<close>

fun subs_delta :: "ric_gen_id \<Rightarrow> e2ap_msg \<Rightarrow> int" where
  "subs_delta r (RIC_SUBSCRIPTION_RESPONSE sp) = (if sp_ric_id sp = r then 1 else 0)"
| "subs_delta r (RIC_SUBSCRIPTION_DELETE_RESPONSE r') = (if r' = r then - 1 else 0)"
| "subs_delta r _ = 0"

definition subs_active :: "e2ap_msg list \<Rightarrow> ric_gen_id \<Rightarrow> int" where
  "subs_active ms r = sum_list (map (subs_delta r) ms)"

definition admitted :: "e2ap_msg list \<Rightarrow> ric_gen_id \<Rightarrow> u8 \<Rightarrow> bool" where
  "admitted ms r act \<longleftrightarrow> (\<exists>sp. RIC_SUBSCRIPTION_RESPONSE sp \<in> set ms \<and> sp_ric_id sp = r \<and> sp_admitted sp = [act])"

definition log_ok :: "e2ap_msg list \<Rightarrow> bool" where
  "log_ok ms \<longleftrightarrow> (\<forall>xs i ys. ms = xs @ RIC_INDICATION i # ys \<longrightarrow>
     0 < subs_active xs (ri_ric_id i) \<and> admitted xs (ri_ric_id i) (ri_action_id i))"

definition state_inv :: "'w ag_state \<Rightarrow> bool" where
  "state_inv a \<longleftrightarrow> finite (as_ind a) \<and> log_ok (as_sent a) \<and>
     (\<forall>r. subs_active (as_sent a) r = int (card {p \<in> as_ind a. ie_ric_id (snd p) = r})) \<and>
     (\<forall>p \<in> as_ind a. admitted (as_sent a) (ie_ric_id (snd p)) (ie_action_id (snd p)))"

section \<open>The log\<close>

lemma subs_active_simps [simp]:
  "subs_active [] r = 0" "subs_active (ms @ [m]) r = subs_active ms r + subs_delta r m"
  by (simp_all add: subs_active_def)

lemma admitted_snoc: "admitted ms r act \<Longrightarrow> admitted (ms @ [m]) r act"
  by (auto simp: admitted_def)

lemma log_ok_Nil [simp]: "log_ok []" by (simp add: log_ok_def)

lemma log_ok_snoc:
  "log_ok (ms @ [m]) \<longleftrightarrow> log_ok ms \<and>
     (\<forall>i. m = RIC_INDICATION i \<longrightarrow> 0 < subs_active ms (ri_ric_id i) \<and> admitted ms (ri_ric_id i) (ri_action_id i))"
proof -
  have split: "ms @ [m] = xs @ RIC_INDICATION i # ys \<longleftrightarrow>
      (ys = [] \<and> xs = ms \<and> m = RIC_INDICATION i) \<or> (\<exists>zs. ys = zs @ [m] \<and> ms = xs @ RIC_INDICATION i # zs)" for xs i ys
    by (cases ys rule: rev_cases) auto
  show ?thesis unfolding log_ok_def split by blast
qed

text \<open>Messages that do not change a subscription.\<close>

lemma inv_send:
  assumes "state_inv a" and "\<And>r. subs_delta r m = 0" and "\<And>i. m \<noteq> RIC_INDICATION i"
  shows "state_inv (a\<lparr>as_ran := w, as_sent := as_sent a @ [m]\<rparr>)"
  using assms by (auto simp: state_inv_def log_ok_snoc admitted_snoc)

lemma inv_setup: "state_inv a \<Longrightarrow> state_inv (spec_setup gid sms a)"
  using inv_send [of a] by (simp add: spec_setup_def split: prod.split)

lemma inv_pend: "state_inv a \<Longrightarrow> state_inv (a\<lparr>as_pend := P\<rparr>)"
  by (simp add: state_inv_def)

lemma inv_subscribe:
  assumes "state_inv a" and "tfd \<notin> fst ` as_ind a" and "a' \<in> spec_subscribe sms a tfd sr"
  shows "state_inv a'"
proof -
  obtain act :: ric_action and sm where a': "a' = a\<lparr>as_ran := snd (on_subscription sm (as_ran a)
      \<lparr>sd_event_trigger = sr_event_trigger sr, sd_action_def = ra_definition act\<rparr>),
      as_ind := insert (tfd, \<lparr>ie_ric_id = sr_ric_id sr, ie_sm = Some sm, ie_action_id = ra_id act\<rparr>) (as_ind a),
      as_sent := as_sent a @ [RIC_SUBSCRIPTION_RESPONSE \<lparr>sp_ric_id = sr_ric_id sr, sp_admitted = [ra_id act], sp_len_na = 0\<rparr>]\<rparr>"
    using assms(3) unfolding spec_subscribe_def by blast
  let ?p = "(tfd, \<lparr>ie_ric_id = sr_ric_id sr, ie_sm = Some sm, ie_action_id = ra_id act\<rparr>)"
  have new: "?p \<notin> as_ind a" using assms(2) by force
  have "{p \<in> insert ?p (as_ind a). ie_ric_id (snd p) = r} =
      (if r = sr_ric_id sr then insert ?p {p \<in> as_ind a. ie_ric_id (snd p) = r} else {p \<in> as_ind a. ie_ric_id (snd p) = r})" for r
    by auto
  moreover have "finite {p \<in> as_ind a. ie_ric_id (snd p) = r}" for r using assms(1) by (simp add: state_inv_def)
  ultimately have "int (card {p \<in> insert ?p (as_ind a). ie_ric_id (snd p) = r}) =
      int (card {p \<in> as_ind a. ie_ric_id (snd p) = r}) + (if r = sr_ric_id sr then 1 else 0)" for r
    using new by simp
  then show ?thesis
    using assms(1) by (auto simp: state_inv_def a' log_ok_snoc admitted_snoc intro: admitted_snoc) (auto simp: admitted_def)
qed

lemma inv_delete:
  assumes "state_inv a" and "a' \<in> spec_delete a ric_id"
  shows "state_inv a'"
proof -
  obtain fd e where a': "a' = a\<lparr>as_ind := as_ind a - {(fd, e)}, as_sent := as_sent a @ [RIC_SUBSCRIPTION_DELETE_RESPONSE ric_id]\<rparr>"
    "(fd, e) \<in> as_ind a" "ie_ric_id e = ric_id"
    using assms(2) unfolding spec_delete_def by blast
  have fin: "finite {p \<in> as_ind a. ie_ric_id (snd p) = r}" for r using assms(1) by (simp add: state_inv_def)
  have "{p \<in> as_ind a - {(fd, e)}. ie_ric_id (snd p) = r} = {p \<in> as_ind a. ie_ric_id (snd p) = r} - {(fd, e)}" for r by auto
  moreover have "card ({p \<in> as_ind a. ie_ric_id (snd p) = ric_id} - {(fd, e)}) + 1 = card {p \<in> as_ind a. ie_ric_id (snd p) = ric_id}"
    using card_Suc_Diff1 [OF fin, of "(fd, e)" ric_id] a'(2,3) by simp
  moreover have "{p \<in> as_ind a. ie_ric_id (snd p) = r} - {(fd, e)} = {p \<in> as_ind a. ie_ric_id (snd p) = r}" if "r \<noteq> ric_id" for r
    using that a'(3) by auto
  ultimately have "int (card {p \<in> as_ind a - {(fd, e)}. ie_ric_id (snd p) = r}) =
      int (card {p \<in> as_ind a. ie_ric_id (snd p) = r}) - (if r = ric_id then 1 else 0)" for r
    by (cases "r = ric_id") auto
  then show ?thesis
    using assms(1) unfolding state_inv_def a'(1) by (auto simp: log_ok_snoc intro: admitted_snoc)
qed

lemma inv_indication:
  assumes "state_inv a" and "a' \<in> spec_indication a fd"
  shows "state_inv a'"
proof -
  obtain e w and d :: sm_ind_data where a': "a' = a\<lparr>as_ran := w, as_sent := as_sent a @ [RIC_INDICATION \<lparr>ri_ric_id = ie_ric_id e,
      ri_action_id = ie_action_id e, ri_sn = None, ri_type = RIC_IND_REPORT, ri_hdr = si_ind_hdr d, ri_msg = si_ind_msg d,
      ri_call_process_id = None\<rparr>]\<rparr>" "(fd, e) \<in> as_ind a"
    using assms(2) unfolding spec_indication_def by blast
  have "finite {p \<in> as_ind a. ie_ric_id (snd p) = ie_ric_id e}" using assms(1) by (simp add: state_inv_def)
  then have "0 < card {p \<in> as_ind a. ie_ric_id (snd p) = ie_ric_id e}" using a'(2) by (auto simp: card_gt_0_iff)
  then show ?thesis
    using assms(1) a'(2) unfolding state_inv_def a'(1) by (auto simp: log_ok_snoc intro: admitted_snoc)
qed

lemma inv_step:
  assumes "state_inv a" and "st_tfd st \<notin> fst ` as_ind a" and "a' \<in> spec_step ep gid sms a st"
  shows "state_inv a'"
proof -
  have msg: "state_inv b" if "b \<in> spec_msg sms a (st_tfd st) m" for b m
  proof (cases m)
    case (RIC_SUBSCRIPTION_REQUEST sr)
    then show ?thesis using that inv_subscribe [OF assms(1,2)] by (simp add: spec_msg_def)
  next
    case (RIC_SUBSCRIPTION_DELETE_REQUEST r)
    then show ?thesis using that inv_delete [OF assms(1)] by (simp add: spec_msg_def)
  next
    case (RIC_CONTROL_REQUEST cr)
    then show ?thesis using that inv_send [OF assms(1)] by (auto simp: spec_msg_def spec_control_def)
  next
    case (E2_SETUP_RESPONSE resp)
    then show ?thesis using that inv_pend [OF assms(1)] by (auto simp: spec_msg_def spec_setup_response_def)
  qed (use that in \<open>simp_all add: spec_msg_def\<close>)
  show ?thesis
    using assms(3) assms(1) msg inv_setup inv_pend [OF assms(1)] inv_indication [OF assms(1)]
    by (auto simp: spec_step_def split: epoll_result.splits if_splits sctp_msg.splits)
qed

lemma run_inv:
  assumes "agent_run ag ag'" and "agent_ok ep gid sms ag a" and "state_inv a"
  shows "\<exists>a'. agent_ok ep gid sms ag' a' \<and> state_inv a'"
  using assms
proof (induction rule: agent_run.induct)
  case (run_start ag)
  then show ?case by blast
next
  case (run_round ag ag1 st ag2)
  then obtain a1 where a1: "agent_ok ep gid sms ag1 a1" "state_inv a1" by blast
  from step_refines [OF a1(1) run_round.hyps(2)] run_round.hyps(3) obtain a2 where
    a2: "a2 \<in> spec_step ep gid sms a1 st" "agent_ok ep gid sms ag2 a2"
    by (auto simp: refines_def)
  have "st_tfd st \<notin> fst ` as_ind a1" using run_round.hyps(2) agent_okD(10) [OF a1(1)] by (simp add: fresh_def)
  then show ?case using inv_step [OF a1(2) _ a2(1)] a2(2) by blast
qed

section \<open>Start\<close>

lemma load_all:
  assumes "tree_rel (\<lambda>_. True) cmp_ran_func_id RAN_FUNC_SZ ds ((\<lambda>sm. (sm_ran_func_id sm, sm)) ` S)" and "unused ds files"
    and "distinct (map (\<lambda>f. sm_ran_func_id (snd f)) files)" and "\<forall>sm \<in> S. \<forall>f \<in> set files. sm_ran_func_id (snd f) \<noteq> sm_ran_func_id sm"
  shows "\<exists>ds'. load_all_pugin_ag ds files = Some ds' \<and>
    tree_rel (\<lambda>_. True) cmp_ran_func_id RAN_FUNC_SZ ds' ((\<lambda>sm. (sm_ran_func_id sm, sm)) ` (S \<union> snd ` set files))"
  using assms
proof (induction files arbitrary: ds S)
  case Nil
  then show ?case by simp
next
  case (Cons f files)
  obtain z sm where f: "f = (z, sm)" by (cases f)
  have z: "z \<noteq> NULL" "t_heap ds z = None" and new: "(sm_ran_func_id sm, sm) \<notin> (\<lambda>sm. (sm_ran_func_id sm, sm)) ` S"
    using Cons.prems(2,4) by (auto simp: f)
  obtain ds1 where ds1: "load_plugin_ag ds z sm = Some ds1"
    "tree_rel (\<lambda>_. True) cmp_ran_func_id RAN_FUNC_SZ ds1 ((\<lambda>sm. (sm_ran_func_id sm, sm)) ` insert sm S)"
    using ran_func3.rel_insert [OF Cons.prems(1) TrueI new z] by (auto simp: load_plugin_ag_def)
  have "\<forall>s \<in> insert sm S. \<forall>g \<in> set files. sm_ran_func_id (snd g) \<noteq> sm_ran_func_id s"
    using Cons.prems(3,4) by (auto simp: f image_iff)
  moreover have "unused ds1 files" "distinct (map (\<lambda>f. sm_ran_func_id (snd f)) files)"
    using Cons.prems(2,3) ds1(1) by (simp_all add: f)
  ultimately obtain ds' where "load_all_pugin_ag ds1 files = Some ds'"
    "tree_rel (\<lambda>_. True) cmp_ran_func_id RAN_FUNC_SZ ds' ((\<lambda>sm. (sm_ran_func_id sm, sm)) ` (insert sm S \<union> snd ` set files))"
    using Cons.IH [OF ds1(2)] by blast
  then show ?case using ds1(1) by (simp add: f)
qed

lemma sm_okI:
  assumes "tree_rel (\<lambda>_. True) cmp_ran_func_id RAN_FUNC_SZ ds ((\<lambda>sm. (sm_ran_func_id sm, sm)) ` S)" and "inj_on sm_ran_func_id S"
  shows "\<exists>sms. sm_ok ds sms \<and> set sms = S"
proof -
  obtain ps where ps: "tree_holds ds (pairs ps)" "sorted_keys (\<lambda>_. True) cmp_ran_func_id (pairs ps)" "distinct ps"
    "set ps = (\<lambda>sm. (sm_ran_func_id sm, sm)) ` S" "t_comp ds = cmp_ran_func_id" "t_key_sz ds = RAN_FUNC_SZ"
    using assms(1) by (auto simp: tree_rel_def)
  let ?sms = "map snd ps"
  have p: "p = (sm_ran_func_id (snd p), snd p)" if "p \<in> set ps" for p using that ps(4) by auto
  have set: "set ?sms = S" using ps(4) by force
  have pairs: "pairs ps = map (\<lambda>sm. (sm_ran_func_id sm, Some sm)) ?sms" using p by (auto simp: comp_def)
  have "inj_on snd (set ps)" using ps(4) by (auto simp: inj_on_def)
  then have "distinct (map sm_ran_func_id ?sms)"
    using ps(3) assms(2) set by (simp add: distinct_map del: set_map map_map)
  moreover have "sorted_wrt (\<lambda>a b. cmp_ran_func_id (sm_ran_func_id b) (sm_ran_func_id a) \<noteq> 1) ?sms"
    using ps(2) unfolding pairs by (simp add: sorted_keys_def sorted_wrt_map)
  then have "sorted_wrt (\<lambda>a b. sm_ran_func_id a \<le> sm_ran_func_id b) ?sms"
    by (rule sorted_wrt_mono_rel [rotated]) (auto simp: cmp_ran_func_id_def split: if_splits)
  then have "sorted (map sm_ran_func_id ?sms)" by (simp add: sorted_wrt_map)
  ultimately have "sorted_wrt (<) (map sm_ran_func_id ?sms)" by (simp add: strict_sorted_iff)
  then have "sm_ok ds ?sms" using ps pairs by (simp add: sm_ok_def sorted_wrt_map)
  then show ?thesis using set by blast
qed

lemma agent_init:
  assumes "port > 0" and "port < 65535" and "0 < sock" and "d \<noteq> NULL" and "dp1 \<noteq> NULL" and "dp2 \<noteq> NULL" and "di1 \<noteq> NULL" and "di2 \<noteq> NULL"
    and "\<And>ds. assoc_rb_tree_init d RAN_FUNC_SZ cmp_ran_func_id = Some ds \<Longrightarrow> unused ds files"
    and "distinct (map (\<lambda>f. sm_ran_func_id (snd f)) files)"
  shows "\<exists>ag sms. e2_init_agent port sock gid d files dp1 dp2 di1 di2 w = Some ag \<and> set sms = snd ` set files \<and>
    agent_ok sock gid sms ag \<lparr>as_pend = {}, as_ind = {}, as_ran = w, as_sent = []\<rparr> \<and> \<not> ag_stop_token ag \<and> \<not> ag_agent_stopped ag"
proof -
  obtain ds :: "(u16, 'a sm_agent) assoc_rb_tree" where ds: "assoc_rb_tree_init d RAN_FUNC_SZ cmp_ran_func_id = Some ds"
    "tree_rel (\<lambda>_. True) cmp_ran_func_id RAN_FUNC_SZ ds {}"
    using tree_rel_init [of RAN_FUNC_SZ d] assms(4) by auto
  obtain ds' where ds': "load_all_pugin_ag ds files = Some ds'"
    "tree_rel (\<lambda>_. True) cmp_ran_func_id RAN_FUNC_SZ ds' ((\<lambda>sm. (sm_ran_func_id sm, sm)) ` (snd ` set files))"
    using load_all [of ds "{}" files] ds(2) assms(9) [OF ds(1)] assms(10) by auto
  have "inj_on sm_ran_func_id (snd ` set files)" using assms(10) by (auto simp: distinct_map inj_on_def)
  then obtain sms where sms: "sm_ok ds' sms" "set sms = snd ` set files" using sm_okI [OF ds'(2)] by blast
  obtain p :: "(int, pending_event) bi_map" where p: "init_pending_events_ag dp1 dp2 = Some p" "fd_rel PENDING_EVENT_SZ cmp_pending_event p {}"
    using bi_rel_init [of FD_SZ PENDING_EVENT_SZ dp1 dp2 cmp_fd_key cmp_pending_event] assms(5,6)
    by (auto simp: init_pending_events_ag_def fd_rel_def)
  obtain i :: "(int, 'a ind_event) bi_map" where i: "init_indication_event di1 di2 = Some i" "fd_rel IND_EVENT_SZ cmp_ind_event i {}"
    using bi_rel_init [of FD_SZ IND_EVENT_SZ di1 di2 cmp_fd_key cmp_ind_event] assms(7,8)
    by (auto simp: init_indication_event_def fd_rel_def)
  show ?thesis
    using ds(1) ds'(1) p i sms assms(1-3)
    by (auto simp: e2_init_agent_def init_plugin_ag_def init_asio_agent_def add_fd_asio_agent_def agent_ok_def c_assert_def)
qed

lemma agent_start:
  assumes "agent_ok ep gid sms ag a" and "sms \<noteq> []" and "fresh ag st"
  shows "\<exists>ag'. e2_start_agent ag st = Some ag' \<and>
    agent_ok ep gid sms ag' ((spec_setup gid sms a)\<lparr>as_pend := insert (st_tfd st, SETUP_REQUEST_PENDING_EVENT) (as_pend a)\<rparr>)"
proof -
  obtain sr ag1 where ag1: "generate_setup_request ag = Some (sr, ag1)"
    "agent_ok ep gid sms (e2ap_send_bytes_agent ag1 (E2_SETUP_REQUEST sr)) (spec_setup gid sms a)"
    using setup_request_refines [OF assms(1)] assms(2) by auto
  let ?ag = "e2ap_send_bytes_agent ag1 (E2_SETUP_REQUEST sr)"
  have same: "ag_io ?ag = ag_io ag" "ag_pending ?ag = ag_pending ag" "ag_ind_event ?ag = ag_ind_event ag"
    using ag1(1) by (auto simp: generate_setup_request_def e2ap_send_bytes_agent_def Let_def bind_eq_Some_conv split: prod.splits if_splits)
  have fresh: "fresh ?ag st" using assms(3) same by (simp add: fresh_def)
  have "as_pend (spec_setup gid sms a) = as_pend a" by (simp add: spec_setup_def split: prod.split)
  then show ?thesis
    using notification_refines [OF ag1(2) fresh] ag1(1)
    by (simp add: e2_start_agent_def notification_handle_ag_def refines_def Let_def split: option.splits)
qed

section \<open>End\<close>

lemma free_rel:
  assumes "tree_rel valid cmp sz t X"
  shows "\<exists>fs t'. assoc_rb_tree_free t = Some (fs, t') \<and> set fs = (\<lambda>p. (Some (fst p), Some (snd p))) ` X"
proof -
  obtain ps where ps: "tree_holds t (pairs ps)" "set ps = X" using assms by (auto simp: tree_rel_def)
  obtain T where T: "heap_tree t T" "map snd (entries T) = pairs ps" using ps(1) by (auto simp: tree_holds_def tree_wf_def)
  have "set (calls T) = (\<lambda>e. (Some (fst e), snd e)) ` set (map snd (entries T))"
    using arg_cong [OF mset_calls [of T], of set_mset] by (simp add: image_image)
  also have "\<dots> = (\<lambda>p. (Some (fst p), Some (snd p))) ` X" unfolding T(2) using ps(2) by (auto simp: image_image)
  finally show ?thesis using assoc_rb_tree_free [OF T(1)] by blast
qed

lemma free_bi:
  assumes "fd_rel sz cmp m P"
  shows "\<exists>fs gs m'. bi_map_free m = Some (fs, gs, m') \<and> set fs = (\<lambda>p. (Some (fst p), Some (snd p))) ` P \<and>
    set gs = (\<lambda>p. (Some (snd p), Some (fst p))) ` P"
proof -
  have t: "tree_rel (\<lambda>fd. 0 < fd) cmp_fd_key FD_SZ (b_left m) P" "tree_rel (\<lambda>_. True) cmp sz (b_right m) (converse P)"
    using assms by (simp_all add: fd_rel_def bi_rel_def)
  have "(\<lambda>p. (Some (fst p), Some (snd p))) ` converse P = (\<lambda>p. (Some (snd p), Some (fst p))) ` P"
    by (force simp: image_iff)
  then show ?thesis using free_rel [OF t(1)] free_rel [OF t(2)] by (auto simp: bi_map_free_def)
qed

lemma agent_free:
  assumes "agent_ok ep gid sms ag a" and "ag_agent_stopped ag"
  shows "e2_free_agent ag = Some ()"
proof -
  note k = agent_okD [OF assms(1)]
  obtain fs t where s: "assoc_rb_tree_free (ag_sm_ds ag) = Some (fs, t)"
    "set fs = (\<lambda>p. (Some (fst p), Some (snd p))) ` (\<lambda>sm. (sm_ran_func_id sm, sm)) ` set sms"
    using free_rel [OF sm_rel [OF k(1)]] by blast
  obtain ps qs m where p: "bi_map_free (ag_pending ag) = Some (ps, qs, m)" "set ps = (\<lambda>p. (Some (fst p), Some (snd p))) ` as_pend a"
    "set qs = (\<lambda>p. (Some (snd p), Some (fst p))) ` as_pend a"
    using free_bi [OF k(2)] by blast
  obtain us vs n where i: "bi_map_free (ag_ind_event ag) = Some (us, vs, n)" "set us = (\<lambda>p. (Some (fst p), Some (snd p))) ` as_ind a"
    "set vs = (\<lambda>p. (Some (snd p), Some (fst p))) ` as_ind a"
    using free_bi [OF k(3)] by blast
  have "\<forall>kv \<in> set fs. free_entry kv \<noteq> None" "\<forall>kv \<in> set us. free_entry kv \<noteq> None" "\<forall>kv \<in> set vs. free_entry kv \<noteq> None"
    using s(2) i(2,3) by (auto simp: free_entry_def)
  moreover have "\<forall>kv \<in> set ps. free_fd kv \<noteq> None"
    using p(2) fd_relD(4) [OF k(2)] by (auto simp: free_fd_def c_assert_def)
  moreover have "\<forall>kv \<in> set qs. free_pending_ev_ag kv \<noteq> None"
    using p(3) k(9) by (auto simp: free_pending_ev_ag_def valid_pending_event_def c_assert_def)
  ultimately show ?thesis
    using s(1) p(1) i(1) assms(2) by (simp add: e2_free_agent_def c_assert_def)
qed

end
