(* ===== verification/AgentLife.thy ===== *)
theory AgentLife
  imports E2AgentRuns begin

text \<open>
  What holds of an E2 agent over its whole life, from the start to the end; and an agent with one service model on which the
  properties are evaluated.
\<close>

section \<open>Started agents\<close>

text \<open>An agent that has been started with the service models of a set \<open>A\<close>.\<close>

inductive started_with :: "'w sm_agent set \<Rightarrow> 'w e2_agent \<Rightarrow> stimulus \<Rightarrow> bool" where
  started_with: "\<lbrakk>0 < sock; d \<noteq> NULL; dp1 \<noteq> NULL; dp2 \<noteq> NULL; di1 \<noteq> NULL; di2 \<noteq> NULL;
     \<forall>ds. assoc_rb_tree_init d RAN_FUNC_SZ cmp_ran_func_id = Some ds \<longrightarrow> unused ds files;
     distinct (map (\<lambda>f. sm_ran_func_id (snd f)) files);
     e2_init_agent port sock gid d files dp1 dp2 di1 di2 w = Some ag0; fresh ag0 st; e2_start_agent ag0 st = Some ag\<rbrakk>
   \<Longrightarrow> started_with (snd ` set files) ag st"

definition started :: "'w e2_agent \<Rightarrow> stimulus \<Rightarrow> bool" where
  "started ag st \<longleftrightarrow> (\<exists>A. started_with A ag st)"

fun fresh_all :: "'w e2_agent \<Rightarrow> stimulus list \<Rightarrow> bool" where
  "fresh_all ag [] \<longleftrightarrow> True"
| "fresh_all ag (st # sts) \<longleftrightarrow> fresh ag st \<and> (case e2_event_step ag st of None \<Rightarrow> True | Some ag \<Rightarrow> fresh_all ag sts)"

lemma started_with_ok:
  assumes "started_with A ag st"
  shows "\<exists>ep gid sms a w. agent_ok ep gid sms ag a \<and> state_inv a \<and> as_ind a = {} \<and>
    as_pend a = {(st_tfd st, SETUP_REQUEST_PENDING_EVENT)} \<and> sms \<noteq> [] \<and> set sms = A \<and>
    as_sent a = [E2_SETUP_REQUEST \<lparr>su_id = gid, su_ran_func_item = fst (setup_items sms w), su_len_ccu = 0\<rparr>]"
  using assms
proof cases
  case (started_with sock d dp1 dp2 di1 di2 files port gid w ag0)
  have port: "port > 0" "port < 65535" using started_with(10) by (auto simp: e2_init_agent_def c_assert_def split: if_splits)
  have un: "unused ds files" if "assoc_rb_tree_init d RAN_FUNC_SZ cmp_ran_func_id = Some ds" for ds using started_with(8) that by blast
  let ?a = "\<lparr>as_pend = {}, as_ind = {}, as_ran = w, as_sent = []\<rparr>"
  obtain sms where ok: "agent_ok sock gid sms ag0 ?a" and set: "set sms = A"
    using agent_init [OF port started_with(2-7) un started_with(9), where gid = gid and w = w] started_with(1,10) by fastforce
  have ne: "sms \<noteq> []"
    using setup_request_refines [OF ok] started_with(12) by (auto simp: e2_start_agent_def bind_eq_Some_conv)
  have "state_inv ?a" by (simp add: state_inv_def subs_active_def)
  then have "state_inv (spec_setup gid sms ?a)" by (rule inv_setup)
  moreover have "as_ind (spec_setup gid sms ?a) = {}" "as_pend (spec_setup gid sms ?a) = {}" "as_sent (spec_setup gid sms ?a) =
      [E2_SETUP_REQUEST \<lparr>su_id = gid, su_ran_func_item = fst (setup_items sms w), su_len_ccu = 0\<rparr>]"
    by (simp_all add: spec_setup_def split: prod.split)
  ultimately show ?thesis
    using agent_start [OF ok ne started_with(11)] started_with(12) inv_pend ne set by fastforce
qed

lemma started_ok:
  assumes "started ag st"
  shows "\<exists>ep gid sms a. agent_ok ep gid sms ag a \<and> state_inv a \<and> as_ind a = {} \<and>
    as_pend a = {(st_tfd st, SETUP_REQUEST_PENDING_EVENT)} \<and> sms \<noteq> []"
  using assms started_with_ok unfolding started_def by blast

lemma step_stops: "agent_ok ep gid sms ag a \<Longrightarrow> fresh ag st \<Longrightarrow> spec_step ep gid sms a st = {} \<Longrightarrow> e2_event_step ag st = None"
  using step_refines [of ep gid sms ag a st] by (cases "e2_event_step ag st") (simp_all add: refines_def)

lemma loop_run:
  "e2_event_loop_agent ag sts = Some ag' \<Longrightarrow> fresh_all ag sts \<Longrightarrow>
   \<exists>ag1. (\<forall>ag0. agent_run ag0 ag \<longrightarrow> agent_run ag0 ag1) \<and> ag' = ag1\<lparr>ag_stop_token := True, ag_agent_stopped := True\<rparr>"
proof (induction sts arbitrary: ag)
  case Nil
  then show ?case by auto
next
  case (Cons st sts)
  then obtain ag2 where ag2: "e2_event_step ag st = Some ag2" "e2_event_loop_agent ag2 sts = Some ag'" "fresh ag st" "fresh_all ag2 sts"
    by (auto simp: bind_eq_Some_conv)
  obtain ag1 where "\<forall>ag0. agent_run ag0 ag2 \<longrightarrow> agent_run ag0 ag1" "ag' = ag1\<lparr>ag_stop_token := True, ag_agent_stopped := True\<rparr>"
    using Cons.IH [OF ag2(2,4)] by blast
  then show ?case using run_round [OF _ ag2(3,1)] by blast
qed

section \<open>An agent with one service model\<close>

text \<open>The model counts in the RAN the requests that it gets; it has no call process identifiers.\<close>

definition demo_sm :: "nat sm_agent" where
  "demo_sm = \<lparr>on_subscription = (\<lambda>w d. (10, w + 1)), on_indication = (\<lambda>w. (\<lparr>si_ind_hdr = [1], si_ind_msg = [2], si_call_process_id = None\<rparr>, w)),
     on_control = (\<lambda>w d. ([], w + 1)), on_e2_setup = (\<lambda>w. ([7], w)), sm_ran_func_id = 142\<rparr>"

definition demo_gid :: global_e2_node_id where
  "demo_gid = \<lparr>n_type = ngran_eNB, n_plmn = \<lparr>mcc = 505, mnc = 1, mnc_digit_len = 2\<rparr>, n_nb_id = 10, n_cu_du_id = None\<rparr>"

definition demo_st :: "epoll_result \<Rightarrow> sctp_msg \<Rightarrow> nat \<Rightarrow> stimulus" where
  "demo_st r m k = \<lparr>st_ready = r, st_recv = m, st_tfd = int k, st_z1 = 100 + k, st_z2 = 100 + k, st_read = 8\<rparr>"

definition demo_start :: stimulus where "demo_start = demo_st Epoll_timeout SCTP_MSG_NOTIFICATION 6"

definition demo_agent0 :: "nat e2_agent option" where
  "demo_agent0 = e2_init_agent 36422 5 demo_gid 1 [(2, demo_sm)] 1 1 1 1 0"

definition demo_agent :: "nat e2_agent option" where
  "demo_agent = do { ag \<leftarrow> demo_agent0; e2_start_agent ag demo_start }"

definition demo_id :: ric_gen_id where "demo_id = \<lparr>ric_req_id = 1021, ric_inst_id = 0, ran_func_id = 142\<rparr>"

definition demo_subscribe :: stimulus where
  "demo_subscribe = demo_st (Epoll_ready False 5) (SCTP_MSG_PAYLOAD (RIC_SUBSCRIPTION_REQUEST
     \<lparr>sr_ric_id = demo_id, sr_event_trigger = [], sr_action = [\<lparr>ra_id = 3, ra_type = RIC_ACT_REPORT, ra_definition = None,
       ra_subseq_action = None\<rparr>]\<rparr>)) 7"

definition demo_timer :: stimulus where "demo_timer = demo_st (Epoll_ready False 7) SCTP_MSG_NOTIFICATION 8"

text \<open>C7: a round of the event loop does what the specification allows: it stops the program exactly when no transition is
  possible, and otherwise makes one of the transitions.\<close>

theorem e2_event_step_refines:
  assumes "agent_ok ep gid sms ag a" and "fresh ag st"
  shows "case e2_event_step ag st of
      None \<Rightarrow> spec_step ep gid sms a st = {}
    | Some ag' \<Rightarrow> \<exists>a' \<in> spec_step ep gid sms a st. agent_ok ep gid sms ag' a'"
  using step_refines [OF assms] by (auto simp: refines_def)

text \<open>C9: an agent sends an indication only while a subscription with its identifier is active, that is, answered and not
  deleted since, and only for an action that it has admitted.\<close>

theorem agent_indications_active:
  assumes "started ag0 st" and "agent_run ag0 ag" and "ag_sent ag = xs @ RIC_INDICATION i # ys"
  shows "0 < subs_active xs (ri_ric_id i) \<and> admitted xs (ri_ric_id i) (ri_action_id i)"
proof -
  obtain ep gid sms a where "agent_ok ep gid sms ag0 a" "state_inv a" using started_ok [OF assms(1)] by blast
  from run_inv [OF assms(2) this] obtain a' where "agent_ok ep gid sms ag a'" "state_inv a'" by blast
  then have "log_ok (ag_sent ag)" by (simp add: agent_ok_def state_inv_def)
  then show ?thesis unfolding log_ok_def using assms(3) by blast
qed

text \<open>C28: when the connection is lost before the controller has answered the setup request, the agent goes on, but the next
  timer that expires stops it: \<^verbatim>\<open>pend_event\<close> asserts that only one request is pending.\<close>

theorem second_connection_loss:
  assumes "started ag0 st0" and "fresh ag0 st" and "st_ready st = Epoll_ready False (ag_ep_fd ag0)" and "st_recv st = SCTP_MSG_NOTIFICATION"
  shows "\<exists>ag. e2_event_step ag0 st = Some ag \<and>
    (\<forall>st2. st_ready st2 \<in> {Epoll_ready False (st_tfd st0), Epoll_ready False (st_tfd st)} \<longrightarrow> fresh ag st2 \<longrightarrow> e2_event_step ag st2 = None)"
proof -
  obtain ep gid sms a where ok: "agent_ok ep gid sms ag0 a" "as_ind a = {}" "as_pend a = {(st_tfd st0, SETUP_REQUEST_PENDING_EVENT)}"
    using started_ok [OF assms(1)] by blast
  note k = agent_okD [OF ok(1)]
  let ?b = "a\<lparr>as_pend := insert (st_tfd st, SETUP_REQUEST_PENDING_EVENT) (as_pend a)\<rparr>"
  have ep: "0 < ep" "ag_ep_fd ag0 = ep" "st_tfd st0 \<noteq> ep" "st_tfd st \<noteq> ep" "st_tfd st \<noteq> st_tfd st0" "0 < st_tfd st"
    using ok assms(2) by (auto simp: agent_ok_def fresh_def)
  have "spec_step ep gid sms a st = {?b}" using ep assms(3,4) by (simp add: spec_step_def)
  then obtain ag where ag: "e2_event_step ag0 st = Some ag" "agent_ok ep gid sms ag ?b"
    using step_refines [OF ok(1) assms(2)] by (cases "e2_event_step ag0 st") (auto simp: refines_def)
  have "card (as_pend ?b) = 2" using ok(3) ep by simp
  then have "spec_step ep gid sms ?b st2 = {}"
    if "st_ready st2 \<in> {Epoll_ready False (st_tfd st0), Epoll_ready False (st_tfd st)}" for st2
    using that ep ok(2) fd_relD(4) [OF k(2)] ok(3) by (auto simp: spec_step_def)
  then have "e2_event_step ag st2 = None"
    if "st_ready st2 \<in> {Epoll_ready False (st_tfd st0), Epoll_ready False (st_tfd st)}" "fresh ag st2" for st2
    using step_stops [OF ag(2) that(2)] that(1) by blast
  then show ?thesis using ag(1) by blast
qed

text \<open>C30: after any number of rounds, an agent that is stopped frees its maps: no assertion of the functions that free their
  entries fails.\<close>

theorem e2_free_agent_returns:
  assumes "started ag0 st" and "fresh_all ag0 sts" and "e2_event_loop_agent ag0 sts = Some ag"
  shows "e2_free_agent ag = Some ()"
proof -
  obtain ep gid sms a where "agent_ok ep gid sms ag0 a" "state_inv a" using started_ok [OF assms(1)] by blast
  moreover obtain ag1 where ag1: "agent_run ag0 ag1" "ag = ag1\<lparr>ag_stop_token := True, ag_agent_stopped := True\<rparr>"
    using loop_run [OF assms(3,2)] run_start by blast
  ultimately obtain a' where "agent_ok ep gid sms ag1 a'" using run_inv by blast
  then have "agent_ok ep gid sms ag a'" by (simp add: ag1(2) agent_ok_def)
  then show ?thesis by (rule agent_free) (simp add: ag1(2))
qed

section \<open>Witnesses\<close>

lemma demo_facts:
  "map_option (\<lambda>ag. fresh ag demo_start) demo_agent0 = Some True"
  "map_option (\<lambda>ag. fresh_all ag [demo_subscribe, demo_timer]) demo_agent = Some True"
  "map_option (\<lambda>ag. fresh ag (demo_st (Epoll_ready False 5) SCTP_MSG_NOTIFICATION 7)) demo_agent = Some True"
  "map_option ag_ep_fd demo_agent = Some 5"
  by code_simp+

lemma demo_started_with: "\<exists>ag. demo_agent = Some ag \<and> started_with {demo_sm} ag demo_start"
proof -
  obtain ag0 where ag0: "demo_agent0 = Some ag0" "fresh ag0 demo_start" using demo_facts(1) by auto
  obtain ag where ag: "demo_agent = Some ag" using demo_facts(4) by auto
  have "unused ds [(2, demo_sm)]" if "assoc_rb_tree_init 1 RAN_FUNC_SZ cmp_ran_func_id = Some ds" for ds
  proof -
    have "map_option (\<lambda>ds. unused ds [(2, demo_sm)]) (assoc_rb_tree_init 1 RAN_FUNC_SZ cmp_ran_func_id) = Some True" by code_simp
    then show ?thesis using that by simp
  qed
  then have "started_with (snd ` set [(2 :: ref, demo_sm)]) ag demo_start"
    using ag0 ag by (intro started_with [of 5 1 1 1 1 1 "[(2, demo_sm)]" 36422 demo_gid 0 ag0]) (simp_all add: demo_agent_def demo_agent0_def)
  then show ?thesis using ag by auto
qed

lemma demo_started: "\<exists>ag. demo_agent = Some ag \<and> started ag demo_start"
  using demo_started_with unfolding started_def by blast

definition demo_sent :: "e2ap_msg list" where
  "demo_sent =
     [E2_SETUP_REQUEST \<lparr>su_id = demo_gid, su_ran_func_item = [\<lparr>rf_def = [7], rf_id = 142, rf_rev = 0, rf_oid = None\<rparr>], su_len_ccu = 0\<rparr>,
      RIC_SUBSCRIPTION_RESPONSE \<lparr>sp_ric_id = demo_id, sp_admitted = [3], sp_len_na = 0\<rparr>]"

definition demo_indication :: ric_indication where
  "demo_indication = \<lparr>ri_ric_id = demo_id, ri_action_id = 3, ri_sn = None, ri_type = RIC_IND_REPORT, ri_hdr = [1], ri_msg = [2],
     ri_call_process_id = None\<rparr>"

lemma demo_steps:
  "map_option (\<lambda>ag. map_option ag_sent (e2_event_step ag demo_subscribe)) demo_agent = Some (Some demo_sent)"
  "map_option (\<lambda>ag. map_option ag_sent (do { ag \<leftarrow> e2_event_step ag demo_subscribe; e2_event_step ag demo_timer })) demo_agent =
     Some (Some (demo_sent @ [RIC_INDICATION demo_indication]))"
  by code_simp+

lemma demo_run:
  "\<exists>ag ag1 ag2. demo_agent = Some ag \<and> started ag demo_start \<and> fresh ag demo_subscribe \<and>
     e2_event_step ag demo_subscribe = Some ag1 \<and> ag_sent ag1 = demo_sent \<and> fresh ag1 demo_timer \<and>
     e2_event_step ag1 demo_timer = Some ag2 \<and> ag_sent ag2 = demo_sent @ [RIC_INDICATION demo_indication]"
proof -
  obtain ag where ag: "demo_agent = Some ag" "started ag demo_start" using demo_started by blast
  obtain ag1 where ag1: "e2_event_step ag demo_subscribe = Some ag1" "ag_sent ag1 = demo_sent"
    using demo_steps(1) by (auto simp: ag(1))
  obtain ag2 where ag2: "e2_event_step ag1 demo_timer = Some ag2" "ag_sent ag2 = demo_sent @ [RIC_INDICATION demo_indication]"
    using demo_steps(2) by (auto simp: ag(1) ag1(1))
  have "fresh ag demo_subscribe" "fresh ag1 demo_timer" using demo_facts(2) by (auto simp: ag(1) ag1(1))
  then show ?thesis using ag ag1 ag2 by blast
qed

lemma e2_event_step_refines_witness:
  "\<exists>ag ag1 ep gid sms a a1. demo_agent = Some ag \<and> agent_ok ep gid sms ag a \<and> e2_event_step ag demo_subscribe = Some ag1 \<and>
     a1 \<in> spec_step ep gid sms a demo_subscribe \<and> agent_ok ep gid sms ag1 a1 \<and> as_sent a1 = demo_sent"
proof -
  obtain ag ag1 where ag: "demo_agent = Some ag" "started ag demo_start" "fresh ag demo_subscribe"
    "e2_event_step ag demo_subscribe = Some ag1" "ag_sent ag1 = demo_sent" using demo_run by blast
  obtain ep gid sms a where ok: "agent_ok ep gid sms ag a" using started_ok [OF ag(2)] by blast
  obtain a1 where a1: "a1 \<in> spec_step ep gid sms a demo_subscribe" "agent_ok ep gid sms ag1 a1"
    using e2_event_step_refines [OF ok ag(3)] ag(4) by auto
  have "as_sent a1 = demo_sent" using a1(2) ag(5) by (simp add: agent_ok_def)
  then show ?thesis using ag(1,4) ok a1 by blast
qed

lemma agent_indications_active_witness:
  "\<exists>ag ag1 ag2. demo_agent = Some ag \<and> e2_event_step ag demo_subscribe = Some ag1 \<and> e2_event_step ag1 demo_timer = Some ag2 \<and>
     ag_sent ag2 = demo_sent @ [RIC_INDICATION demo_indication] \<and> 0 < subs_active demo_sent demo_id \<and> admitted demo_sent demo_id 3"
proof -
  obtain ag ag1 ag2 where ag: "demo_agent = Some ag" "started ag demo_start" "fresh ag demo_subscribe"
    "e2_event_step ag demo_subscribe = Some ag1" "fresh ag1 demo_timer" "e2_event_step ag1 demo_timer = Some ag2"
    "ag_sent ag2 = demo_sent @ [RIC_INDICATION demo_indication]" using demo_run by blast
  have run: "agent_run ag ag2" using run_round [OF run_round [OF run_start ag(3,4)] ag(5,6)] .
  have "0 < subs_active demo_sent demo_id \<and> admitted demo_sent demo_id 3"
    using agent_indications_active [OF ag(2) run ag(7)] by (simp add: demo_indication_def)
  then show ?thesis using ag by blast
qed

lemma second_connection_loss_witness:
  "\<exists>ag ag1. demo_agent = Some ag \<and> e2_event_step ag (demo_st (Epoll_ready False 5) SCTP_MSG_NOTIFICATION 7) = Some ag1 \<and>
     e2_event_step ag1 (demo_st (Epoll_ready False 6) SCTP_MSG_NOTIFICATION 8) = None"
proof -
  let ?st = "demo_st (Epoll_ready False 5) SCTP_MSG_NOTIFICATION 7" and ?st2 = "demo_st (Epoll_ready False 6) SCTP_MSG_NOTIFICATION 8"
  obtain ag where ag: "demo_agent = Some ag" "started ag demo_start" using demo_started by blast
  have f: "fresh ag ?st" "ag_ep_fd ag = 5" using demo_facts(3,4) by (simp_all add: ag(1))
  have "map_option (\<lambda>ag. fresh_all ag [?st, ?st2]) demo_agent = Some True" by code_simp
  then have "fresh_all ag [?st, ?st2]" by (simp add: ag(1))
  then show ?thesis
    using second_connection_loss [OF ag(2) f(1)] f(2) ag(1) by (auto simp: demo_st_def demo_start_def)
qed

lemma e2_free_agent_returns_witness:
  "\<exists>ag ag'. demo_agent = Some ag \<and> e2_event_loop_agent ag [demo_subscribe, demo_timer] = Some ag' \<and> e2_free_agent ag' = Some ()"
proof -
  obtain ag where ag: "demo_agent = Some ag" "started ag demo_start" using demo_started by blast
  have f: "fresh_all ag [demo_subscribe, demo_timer]" using demo_facts(2) by (simp add: ag(1))
  obtain ag1 ag2 where "e2_event_step ag demo_subscribe = Some ag1" "e2_event_step ag1 demo_timer = Some ag2"
    using demo_run by (auto simp: ag(1))
  then obtain ag' where "e2_event_loop_agent ag [demo_subscribe, demo_timer] = Some ag'" by simp
  then show ?thesis using e2_free_agent_returns [OF ag(2) f] ag(1) by blast
qed

end
