(* ===== verification/E2System.thy ===== *)
theory E2System
  imports E2RicStart AgentLife begin

text \<open>
  An agent and a RIC with the two directions of the connection between them, each a queue of messages that arrive in order; the
  steps of this system, an invariant that relates pending requests, messages on their way and active subscriptions, and the
  timers that the agent has armed for them.
\<close>

section \<open>The system\<close>

record 'w e2_system =
  sy_ag :: "'w e2_agent"
  sy_ric :: near_ric
  sy_down :: "e2ap_msg list"
  sy_up :: "e2ap_msg list"

fun sub_req_id :: "e2ap_msg \<Rightarrow> ric_gen_id option" where
  "sub_req_id (RIC_SUBSCRIPTION_REQUEST sr) = Some (sr_ric_id sr)" | "sub_req_id _ = None"

fun sub_resp_id :: "e2ap_msg \<Rightarrow> ric_gen_id option" where
  "sub_resp_id (RIC_SUBSCRIPTION_RESPONSE sp) = Some (sp_ric_id sp)" | "sub_resp_id _ = None"

fun del_req_id :: "e2ap_msg \<Rightarrow> ric_gen_id option" where
  "del_req_id (RIC_SUBSCRIPTION_DELETE_REQUEST r) = Some r" | "del_req_id _ = None"

fun del_resp_id :: "e2ap_msg \<Rightarrow> ric_gen_id option" where
  "del_resp_id (RIC_SUBSCRIPTION_DELETE_RESPONSE r) = Some r" | "del_resp_id _ = None"

fun ctl_req_id :: "e2ap_msg \<Rightarrow> ric_gen_id option" where
  "ctl_req_id (RIC_CONTROL_REQUEST cr) = Some (cr_ric_id cr)" | "ctl_req_id _ = None"

fun ctl_ack_id :: "e2ap_msg \<Rightarrow> ric_gen_id option" where
  "ctl_ack_id (RIC_CONTROL_ACKNOWLEDGE ack) = Some (ca_ric_id ack)" | "ctl_ack_id _ = None"

definition cnt :: "(e2ap_msg \<Rightarrow> ric_gen_id option) \<Rightarrow> e2ap_msg list \<Rightarrow> ric_gen_id \<Rightarrow> nat" where
  "cnt f ms r = length (filter (\<lambda>m. f m = Some r) ms)"

fun iapp_msgs :: "iapp_event list \<Rightarrow> e2ap_msg list" where
  "iapp_msgs [] = []"
| "iapp_msgs (Iapp_msg m # es) = m # iapp_msgs es"
| "iapp_msgs (_ # es) = iapp_msgs es"

text \<open>The iApp has got more responses with this identifier than it has asked to delete.\<close>

definition open_subs :: "near_ric \<Rightarrow> ric_gen_id \<Rightarrow> bool" where
  "open_subs ric r \<longleftrightarrow> cnt del_req_id (map snd (nr_sent ric)) r < cnt sub_resp_id (iapp_msgs (nr_iapp ric)) r"

definition agent_new :: "'w e2_agent \<Rightarrow> 'w e2_agent \<Rightarrow> e2ap_msg list" where
  "agent_new ag ag' = drop (length (ag_sent ag)) (ag_sent ag')"

definition ric_new :: "near_ric \<Rightarrow> near_ric \<Rightarrow> e2ap_msg list" where
  "ric_new ric ric' = map snd (drop (length (nr_sent ric)) (nr_sent ric'))"

text \<open>A step of the system: one of the two receives a message, a timer of a subscription of the agent or of a pending request of
  the RIC expires, or the iApp makes any request to subscribe or to control, or ends a subscription that it knows to be active.
  Left out are the loss of the connection and the timer of the setup request of the agent: after three seconds without a
  response the agent would send the request again, and the second response would stop it.\<close>

inductive e2_step :: "sctp_info \<Rightarrow> 'w e2_system \<Rightarrow> 'w e2_system \<Rightarrow> bool" for info where
  agent_receives: "\<lbrakk>sy_down s = m # ms; st_ready st = Epoll_ready False (ag_ep_fd (sy_ag s)); st_recv st = SCTP_MSG_PAYLOAD m;
      fresh (sy_ag s) st; e2_event_step (sy_ag s) st = Some ag\<rbrakk>
    \<Longrightarrow> e2_step info s (s\<lparr>sy_ag := ag, sy_down := ms, sy_up := sy_up s @ agent_new (sy_ag s) ag\<rparr>)"
| ric_receives: "\<lbrakk>sy_up s = m # ms; st_ready st = Epoll_ready False (nr_ep_fd (sy_ric s)); st_recv st = SCTP_MSG_PAYLOAD m;
      rt_info st = info; fresh_ric (sy_ric s) st; e2_event_step_ric (sy_ric s) st = Some ric\<rbrakk>
    \<Longrightarrow> e2_step info s (s\<lparr>sy_ric := ric, sy_up := ms, sy_down := sy_down s @ ric_new (sy_ric s) ric\<rparr>)"
| agent_reports: "\<lbrakk>st_ready st = Epoll_ready False fd; fd \<noteq> ag_ep_fd (sy_ag s); ind_event_of (sy_ag s) fd = Some (Some e);
      fresh (sy_ag s) st; e2_event_step (sy_ag s) st = Some ag\<rbrakk>
    \<Longrightarrow> e2_step info s (s\<lparr>sy_ag := ag, sy_up := sy_up s @ agent_new (sy_ag s) ag\<rparr>)"
| ric_times_out: "\<lbrakk>st_ready st = Epoll_ready False fd; fd \<in> io_fds (nr_io (sy_ric s)); fd \<noteq> nr_ep_fd (sy_ric s);
      e2_event_step_ric (sy_ric s) st = Some ric\<rbrakk>
    \<Longrightarrow> e2_step info s (s\<lparr>sy_ric := ric, sy_down := sy_down s @ ric_new (sy_ric s) ric\<rparr>)"
| iapp_subscribes: "\<lbrakk>fresh_ric (sy_ric s) rst;
      fwd_ric_subscription_request (sy_ric s) rst (ag_global_e2_node_id (sy_ag s)) sr = Some (r, ric)\<rbrakk>
    \<Longrightarrow> e2_step info s (s\<lparr>sy_ric := ric, sy_down := sy_down s @ ric_new (sy_ric s) ric\<rparr>)"
| iapp_unsubscribes: "\<lbrakk>open_subs (sy_ric s) i; fresh_ric (sy_ric s) rst;
      fwd_ric_subscription_request_delete (sy_ric s) rst (ag_global_e2_node_id (sy_ag s)) i = Some ric\<rbrakk>
    \<Longrightarrow> e2_step info s (s\<lparr>sy_ric := ric, sy_down := sy_down s @ ric_new (sy_ric s) ric\<rparr>)"
| iapp_controls: "\<lbrakk>fresh_ric (sy_ric s) rst;
      fwd_ric_control_request (sy_ric s) rst (ag_global_e2_node_id (sy_ag s)) cr = Some (r, ric)\<rbrakk>
    \<Longrightarrow> e2_step info s (s\<lparr>sy_ric := ric, sy_down := sy_down s @ ric_new (sy_ric s) ric\<rparr>)"

inductive e2_reach :: "sctp_info \<Rightarrow> 'w e2_system \<Rightarrow> 'w e2_system \<Rightarrow> bool" for info where
  reach_start: "e2_reach info s s"
| reach_step: "e2_reach info s s1 \<Longrightarrow> e2_step info s1 s2 \<Longrightarrow> e2_reach info s s2"

text \<open>The requests that the agent supports, and the answers that the RIC supports. They stop on all others.\<close>

definition agent_takes :: "'w e2_agent \<Rightarrow> e2ap_msg \<Rightarrow> bool" where
  "agent_takes ag m \<longleftrightarrow> (case m of
       RIC_SUBSCRIPTION_REQUEST sr \<Rightarrow> map ra_type (sr_action sr) = [RIC_ACT_REPORT] \<and>
         sm_plugin_ag (ag_sm_ds ag) (ran_func_id (sr_ric_id sr)) \<noteq> None
     | RIC_CONTROL_REQUEST cr \<Rightarrow> cr_ack_req cr = Some RIC_CONTROL_REQUEST_ACK \<and>
         sm_plugin_ag (ag_sm_ds ag) (ran_func_id (cr_ric_id cr)) \<noteq> None
     | _ \<Rightarrow> True)"

definition ric_takes :: "e2ap_msg \<Rightarrow> bool" where
  "ric_takes m \<longleftrightarrow> (case m of RIC_SUBSCRIPTION_RESPONSE sp \<Rightarrow> sp_admitted sp = [0] | _ \<Rightarrow> True)"

text \<open>The service models of the agent have partners at the RIC that decode what they send.\<close>

definition compatible :: "'w sm_agent set \<Rightarrow> sm_ric set \<Rightarrow> bool" where
  "compatible A S \<longleftrightarrow> (\<forall>sm \<in> A. 0 < sm_ran_func_id sm \<and> (\<forall>w. length (fst (on_e2_setup sm w)) < 127) \<and>
     (\<exists>rsm \<in> S. rp_ran_func_id rsm = sm_ran_func_id sm \<and>
       (\<forall>w. si_call_process_id (fst (on_indication sm w)) = None \<and>
         rd_type (rp_on_indication rsm (fst (on_indication sm w))) \<in> {MAC_STATS_V0, RLC_STATS_V0, PDCP_STATS_V0, SLICE_STATS_V0, KPM_STATS_V0, GTP_STATS_V0})))"

section \<open>Counting\<close>

lemma cnt_simps [simp]:
  "cnt f [] r = 0" "cnt f (m # ms) r = (if f m = Some r then 1 else 0) + cnt f ms r" "cnt f (xs @ ys) r = cnt f xs r + cnt f ys r"
  by (simp_all add: cnt_def)

lemma iapp_msgs_append [simp]: "iapp_msgs (xs @ ys) = iapp_msgs xs @ iapp_msgs ys"
  by (induction xs rule: iapp_msgs.induct) auto

definition pend_cnt :: "pending_event \<Rightarrow> (int \<times> pending_event_ric) set \<Rightarrow> ric_gen_id \<Rightarrow> nat" where
  "pend_cnt k P r = card {p \<in> P. snd p = \<lparr>pr_ev = k, pr_id = r\<rparr>}"

definition subs_cnt :: "(int \<times> 'w ind_event) set \<Rightarrow> ric_gen_id \<Rightarrow> nat" where
  "subs_cnt I r = card {p \<in> I. ie_ric_id (snd p) = r}"

lemma card_insert_if:
  "finite P \<Longrightarrow> x \<notin> P \<Longrightarrow> card {p \<in> insert x P. Q p} = card {p \<in> P. Q p} + (if Q x then 1 else 0)"
proof -
  assume a: "finite P" "x \<notin> P"
  have "{p \<in> insert x P. Q p} = (if Q x then insert x {p \<in> P. Q p} else {p \<in> P. Q p})" by auto
  then show ?thesis using a by simp
qed

lemma card_remove_if:
  "finite P \<Longrightarrow> x \<in> P \<Longrightarrow> card {p \<in> P - {x}. Q p} + (if Q x then 1 else 0) = card {p \<in> P. Q p}"
  using card_insert_if [of "P - {x}" x Q] by (simp add: insert_absorb)

lemma pend_cnt_insert:
  "finite P \<Longrightarrow> fd \<notin> fst ` P \<Longrightarrow> pend_cnt k (insert (fd, \<lparr>pr_ev = k', pr_id = r'\<rparr>) P) r = pend_cnt k P r + (if k = k' \<and> r = r' then 1 else 0)"
  unfolding pend_cnt_def by (subst card_insert_if) (auto simp: image_iff)

lemma pend_cnt_remove:
  "finite P \<Longrightarrow> (fd, \<lparr>pr_ev = k', pr_id = r'\<rparr>) \<in> P \<Longrightarrow>
     pend_cnt k (P - {(fd, \<lparr>pr_ev = k', pr_id = r'\<rparr>)}) r + (if k = k' \<and> r = r' then 1 else 0) = pend_cnt k P r"
  unfolding pend_cnt_def using card_remove_if [of P "(fd, \<lparr>pr_ev = k', pr_id = r'\<rparr>)" "\<lambda>p. snd p = \<lparr>pr_ev = k, pr_id = r\<rparr>"] by auto

lemma pend_cnt_pos: "0 < pend_cnt k P r \<Longrightarrow> \<exists>fd. (fd, \<lparr>pr_ev = k, pr_id = r\<rparr>) \<in> P"
  by (auto simp: pend_cnt_def card_gt_0_iff)

lemma subs_cnt_insert:
  "finite I \<Longrightarrow> fd \<notin> fst ` I \<Longrightarrow> subs_cnt (insert (fd, e) I) r = subs_cnt I r + (if ie_ric_id e = r then 1 else 0)"
  unfolding subs_cnt_def by (subst card_insert_if) (auto simp: image_iff)

lemma subs_cnt_remove:
  "finite I \<Longrightarrow> (fd, e) \<in> I \<Longrightarrow> subs_cnt (I - {(fd, e)}) r + (if ie_ric_id e = r then 1 else 0) = subs_cnt I r"
  unfolding subs_cnt_def using card_remove_if [of I "(fd, e)" "\<lambda>p. ie_ric_id (snd p) = r"] by simp

lemma subs_cnt_pos: "0 < subs_cnt I r \<Longrightarrow> \<exists>fd e. (fd, e) \<in> I \<and> ie_ric_id e = r"
  by (auto simp: subs_cnt_def card_gt_0_iff)

section \<open>The invariant\<close>

text \<open>Every pending request is on its way, or its answer is.\<close>

definition req_flow :: "(int \<times> pending_event_ric) set \<Rightarrow> e2ap_msg list \<Rightarrow> e2ap_msg list \<Rightarrow> bool" where
  "req_flow P down up \<longleftrightarrow> (\<forall>r. pend_cnt SUBSCRIPTION_REQUEST_PENDING_EVENT P r = cnt sub_req_id down r + cnt sub_resp_id up r \<and>
     pend_cnt SUBSCRIPTION_DELETE_REQUEST_PENDING_EVENT P r = cnt del_req_id down r + cnt del_resp_id up r \<and>
     pend_cnt CONTROL_REQUEST_PENDING_EVENT P r = cnt ctl_req_id down r + cnt ctl_ack_id up r)"

text \<open>The active subscriptions of the agent are those the iApp knows, and those whose response or deletion is on its way.\<close>

definition sub_flow :: "(int \<times> 'w ind_event) set \<Rightarrow> near_ric \<Rightarrow> e2ap_msg list \<Rightarrow> e2ap_msg list \<Rightarrow> bool" where
  "sub_flow I ric down up \<longleftrightarrow> (\<forall>r. let sdel = cnt del_req_id (map snd (nr_sent ric)) r; got = cnt sub_resp_id (iapp_msgs (nr_iapp ric)) r
     in subs_cnt I r + sdel = got + cnt sub_resp_id up r + cnt del_req_id down r \<and> sdel \<le> got)"

lemma sub_flowD:
  assumes "sub_flow I ric down up"
  shows "subs_cnt I r + cnt del_req_id (map snd (nr_sent ric)) r =
      cnt sub_resp_id (iapp_msgs (nr_iapp ric)) r + cnt sub_resp_id up r + cnt del_req_id down r"
    "cnt del_req_id (map snd (nr_sent ric)) r \<le> cnt sub_resp_id (iapp_msgs (nr_iapp ric)) r"
  using assms by (simp_all add: sub_flow_def Let_def)

lemma sub_flowI:
  assumes "\<And>r. subs_cnt I r + cnt del_req_id (map snd (nr_sent ric)) r =
      cnt sub_resp_id (iapp_msgs (nr_iapp ric)) r + cnt sub_resp_id up r + cnt del_req_id down r"
    and "\<And>r. cnt del_req_id (map snd (nr_sent ric)) r \<le> cnt sub_resp_id (iapp_msgs (nr_iapp ric)) r"
  shows "sub_flow I ric down up"
  using assms by (simp add: sub_flow_def Let_def)

definition down_ok :: "e2ap_msg \<Rightarrow> bool" where
  "down_ok m \<longleftrightarrow> (case m of
       RIC_SUBSCRIPTION_REQUEST _ \<Rightarrow> True
     | RIC_SUBSCRIPTION_DELETE_REQUEST _ \<Rightarrow> True
     | RIC_CONTROL_REQUEST _ \<Rightarrow> True
     | E2_SETUP_RESPONSE _ \<Rightarrow> True
     | _ \<Rightarrow> False)"

definition spec_takes :: "'w sm_agent list \<Rightarrow> e2ap_msg \<Rightarrow> bool" where
  "spec_takes sms m \<longleftrightarrow> (case m of
       RIC_SUBSCRIPTION_REQUEST sr \<Rightarrow> map ra_type (sr_action sr) = [RIC_ACT_REPORT] \<and> spec_sm sms (ran_func_id (sr_ric_id sr)) \<noteq> None
     | RIC_CONTROL_REQUEST cr \<Rightarrow> cr_ack_req cr = Some RIC_CONTROL_REQUEST_ACK \<and> spec_sm sms (ran_func_id (cr_ric_id cr)) \<noteq> None
     | _ \<Rightarrow> True)"

definition up_ok :: "'w sm_agent list \<Rightarrow> global_e2_node_id \<Rightarrow> e2ap_msg \<Rightarrow> bool" where
  "up_ok sms gid m \<longleftrightarrow> (case m of
       RIC_SUBSCRIPTION_RESPONSE sp \<Rightarrow> sp_len_na sp = 0 \<and> length (sp_admitted sp) = 1
     | RIC_SUBSCRIPTION_DELETE_RESPONSE r \<Rightarrow> True
     | RIC_INDICATION i \<Rightarrow> (\<exists>sm w. sm \<in> set sms \<and> sm_ran_func_id sm = ran_func_id (ri_ric_id i) \<and>
         \<lparr>si_ind_hdr = ri_hdr i, si_ind_msg = ri_msg i, si_call_process_id = ri_call_process_id i\<rparr> = fst (on_indication sm w))
     | RIC_CONTROL_ACKNOWLEDGE ack \<Rightarrow> ca_status ack = RIC_CONTROL_STATUS_SUCCESS
     | E2_SETUP_REQUEST req \<Rightarrow> su_id req = gid \<and> su_ran_func_item req \<noteq> [] \<and>
         (\<forall>rf \<in> set (su_ran_func_item req). length (rf_def rf) < 127 \<and> rf_id rf \<in> sm_ran_func_id ` set sms)
     | _ \<Rightarrow> False)"

fun is_setup :: "e2ap_msg \<Rightarrow> bool" where
  "is_setup (E2_SETUP_REQUEST _) = True" | "is_setup (E2_SETUP_RESPONSE _) = True" | "is_setup _ = False"

definition setups :: "e2ap_msg list \<Rightarrow> nat" where
  "setups ms = length (filter is_setup ms)"

lemma setups_simps [simp]: "setups [] = 0" "setups (m # ms) = (if is_setup m then 1 else 0) + setups ms" "setups (xs @ ys) = setups xs + setups ys"
  by (simp_all add: setups_def)

text \<open>The setup: its request, its response, or neither of them is on its way.\<close>

definition setup_flow :: "(global_e2_node_id \<times> sctp_info) \<Rightarrow> (int \<times> pending_event) set \<Rightarrow> (global_e2_node_id \<times> sctp_info) set \<Rightarrow>
    e2ap_msg list \<Rightarrow> e2ap_msg list \<Rightarrow> bool" where
  "setup_flow n Q N down up \<longleftrightarrow> N = {} \<and> setups up = 1 \<and> setups down = 0 \<and> Q \<noteq> {} \<or>
     N = {n} \<and> setups up = 0 \<and> (setups down = 0 \<or> setups down = 1 \<and> Q \<noteq> {})"

definition ind_ok :: "'w sm_agent list \<Rightarrow> (int \<times> 'w ind_event) set \<Rightarrow> bool" where
  "ind_ok sms I \<longleftrightarrow> (\<forall>p \<in> I. \<exists>sm. ie_sm (snd p) = Some sm \<and> spec_sm sms (ran_func_id (ie_ric_id (snd p))) = Some sm)"

definition flow :: "'w sm_agent list \<Rightarrow> global_e2_node_id \<Rightarrow> sctp_info \<Rightarrow> 'w ag_state \<Rightarrow> near_ric \<Rightarrow> (int \<times> pending_event_ric) set \<Rightarrow>
    (global_e2_node_id \<times> sctp_info) set \<Rightarrow> e2ap_msg list \<Rightarrow> e2ap_msg list \<Rightarrow> bool" where
  "flow sms gid info a ric P N down up \<longleftrightarrow> req_flow P down up \<and> sub_flow (as_ind a) ric down up \<and>
     (\<forall>m \<in> set down. down_ok m) \<and> (\<forall>m \<in> set up. up_ok sms gid m) \<and>
     setup_flow (gid, info) (as_pend a) N down up \<and> ind_ok sms (as_ind a)"

section \<open>The agent\<close>

lemma spec_smD:
  assumes "spec_sm sms fid = Some sm"
  shows "sm \<in> set sms" "sm_ran_func_id sm = fid" "0 < fid"
  using assms by (auto simp: spec_sm_def find_Some_iff split: if_splits)

text \<open>A message of the RIC: the agent takes it when \<^term>\<open>spec_takes\<close> says so, and what it answers keeps the flow.\<close>

lemma subscribe_flow:
  assumes "flow sms gid info a ric P N (RIC_SUBSCRIPTION_REQUEST sr # ms) up" and "finite (as_ind a)" and "tfd \<notin> fst ` as_ind a"
    and "a' \<in> spec_subscribe sms a tfd sr"
  shows "\<exists>new. as_sent a' = as_sent a @ new \<and> flow sms gid info a' ric P N ms (up @ new)"
proof -
  note f = assms(1) [unfolded flow_def]
  obtain act :: ric_action and sm where t: "spec_sm sms (ran_func_id (sr_ric_id sr)) = Some sm" and
    a': "a' = a\<lparr>as_ran := snd (on_subscription sm (as_ran a) \<lparr>sd_event_trigger = sr_event_trigger sr, sd_action_def = ra_definition act\<rparr>),
      as_ind := insert (tfd, \<lparr>ie_ric_id = sr_ric_id sr, ie_sm = Some sm, ie_action_id = ra_id act\<rparr>) (as_ind a),
      as_sent := as_sent a @ [RIC_SUBSCRIPTION_RESPONSE \<lparr>sp_ric_id = sr_ric_id sr, sp_admitted = [ra_id act], sp_len_na = 0\<rparr>]\<rparr>"
    using assms(4) unfolding spec_subscribe_def by blast
  let ?e = "\<lparr>ie_ric_id = sr_ric_id sr, ie_sm = Some sm, ie_action_id = ra_id act\<rparr>"
  let ?new = "RIC_SUBSCRIPTION_RESPONSE \<lparr>sp_ric_id = sr_ric_id sr, sp_admitted = [ra_id act], sp_len_na = 0\<rparr>"
  have "req_flow P ms (up @ [?new])" using f by (simp add: req_flow_def)
  moreover have "sub_flow (as_ind a') ric ms (up @ [?new])"
    using f subs_cnt_insert [OF assms(2,3), of ?e] by (simp add: a' sub_flow_def Let_def)
  moreover have "ind_ok sms (as_ind a')" using f t by (simp add: a' ind_ok_def)
  moreover have "setup_flow (gid, info) (as_pend a') N ms (up @ [?new])" using f by (simp add: a' setup_flow_def)
  ultimately have "flow sms gid info a' ric P N ms (up @ [?new])" using f by (simp add: flow_def up_ok_def)
  then show ?thesis by (intro exI [of _ "[?new]"]) (simp add: a')
qed

lemma delete_flow:
  assumes "flow sms gid info a ric P N (RIC_SUBSCRIPTION_DELETE_REQUEST r # ms) up" and "finite (as_ind a)"
  shows "spec_delete a r \<noteq> {}"
    and "a' \<in> spec_delete a r \<Longrightarrow> \<exists>new. as_sent a' = as_sent a @ new \<and> flow sms gid info a' ric P N ms (up @ new)"
proof -
  note f = assms(1) [unfolded flow_def]
  let ?new = "RIC_SUBSCRIPTION_DELETE_RESPONSE r"
  have sub: "sub_flow (as_ind a) ric (RIC_SUBSCRIPTION_DELETE_REQUEST r # ms) up" using f by blast
  have "0 < subs_cnt (as_ind a) r" using sub_flowD [OF sub, of r] by simp
  then show "spec_delete a r \<noteq> {}" using subs_cnt_pos by (auto simp: spec_delete_def)
  assume "a' \<in> spec_delete a r"
  then obtain fd e where e: "(fd, e) \<in> as_ind a" "ie_ric_id e = r" and
    a': "a' = a\<lparr>as_ind := as_ind a - {(fd, e)}, as_sent := as_sent a @ [?new]\<rparr>"
    by (auto simp: spec_delete_def)
  have "sub_flow (as_ind a') ric ms (up @ [?new])"
  proof (rule sub_flowI)
    fix x
    show "subs_cnt (as_ind a') x + cnt del_req_id (map snd (nr_sent ric)) x =
        cnt sub_resp_id (iapp_msgs (nr_iapp ric)) x + cnt sub_resp_id (up @ [?new]) x + cnt del_req_id ms x"
      using sub_flowD(1) [OF sub, of x] subs_cnt_remove [OF assms(2) e(1), of x] e(2) by (simp add: a' split: if_splits)
  qed (rule sub_flowD(2) [OF sub])
  moreover have "req_flow P ms (up @ [?new])" using f by (simp add: req_flow_def)
  moreover have "ind_ok sms (as_ind a')" using f by (simp add: ind_ok_def a')
  moreover have "setup_flow (gid, info) (as_pend a') N ms (up @ [?new])" using f by (simp add: setup_flow_def a')
  ultimately have "flow sms gid info a' ric P N ms (up @ [?new])" using f by (simp add: flow_def up_ok_def)
  then show "\<exists>new. as_sent a' = as_sent a @ new \<and> flow sms gid info a' ric P N ms (up @ new)"
    by (intro exI [of _ "[?new]"]) (simp add: a')
qed

lemma spec_control_none:
  "spec_control sms a cr = {} \<longleftrightarrow> \<not> (cr_ack_req cr = Some RIC_CONTROL_REQUEST_ACK \<and> spec_sm sms (ran_func_id (cr_ric_id cr)) \<noteq> None)"
proof -
  have "\<exists>out w. on_control sm (as_ran a) \<lparr>sc_ctrl_hdr = cr_hdr cr, sc_ctrl_msg = cr_msg cr\<rparr> = (out, w)" for sm
    by (meson surj_pair)
  then show ?thesis unfolding spec_control_def by blast
qed

lemma control_flow:
  assumes "flow sms gid info a ric P N (RIC_CONTROL_REQUEST cr # ms) up" and "a' \<in> spec_control sms a cr"
  shows "\<exists>new. as_sent a' = as_sent a @ new \<and> flow sms gid info a' ric P N ms (up @ new)"
proof -
  obtain out w where a': "a' = a\<lparr>as_ran := w,
      as_sent := as_sent a @ [RIC_CONTROL_ACKNOWLEDGE \<lparr>ca_ric_id = cr_ric_id cr, ca_call_process_id = None,
        ca_status = RIC_CONTROL_STATUS_SUCCESS, ca_control_outcome = (if out = [] then None else Some out)\<rparr>]\<rparr>"
    using assms(2) unfolding spec_control_def by blast
  show ?thesis
    using assms(1) by (simp add: a' flow_def req_flow_def sub_flow_def setup_flow_def up_ok_def Let_def)
qed

lemma setup_response_flow:
  assumes "flow sms gid info a ric P N (E2_SETUP_RESPONSE resp # ms) up"
  shows "spec_setup_response a \<noteq> {}"
    and "a' \<in> spec_setup_response a \<Longrightarrow> \<exists>new. as_sent a' = as_sent a @ new \<and> flow sms gid info a' ric P N ms (up @ new)"
proof -
  note f = assms [unfolded flow_def]
  then have q: "N = {(gid, info)}" "setups up = 0" "setups ms = 0" "as_pend a \<noteq> {}" by (auto simp: setup_flow_def)
  then show "spec_setup_response a \<noteq> {}" by (auto simp: spec_setup_response_def)
  show "\<exists>new. as_sent a' = as_sent a @ new \<and> flow sms gid info a' ric P N ms (up @ new)" if "a' \<in> spec_setup_response a"
    using that f q by (intro exI [of _ "[]"])
      (auto simp: spec_setup_response_def flow_def req_flow_def sub_flow_def setup_flow_def Let_def)
qed

lemma spec_msg_flow:
  assumes "flow sms gid info a ric P N (m # ms) up" and "finite (as_ind a)" and "tfd \<notin> fst ` as_ind a"
  shows "spec_msg sms a tfd m \<noteq> {} \<longleftrightarrow> spec_takes sms m"
    and "a' \<in> spec_msg sms a tfd m \<Longrightarrow> \<exists>new. as_sent a' = as_sent a @ new \<and> flow sms gid info a' ric P N ms (up @ new)"
proof -
  have m: "down_ok m" using assms(1) by (simp add: flow_def)
  show "spec_msg sms a tfd m \<noteq> {} \<longleftrightarrow> spec_takes sms m"
  proof (cases m)
    case (RIC_SUBSCRIPTION_REQUEST sr)
    then show ?thesis by (auto simp: spec_takes_def spec_msg_def spec_subscribe_def)
  next
    case (RIC_SUBSCRIPTION_DELETE_REQUEST r)
    then show ?thesis using delete_flow(1) [OF assms(1) [unfolded RIC_SUBSCRIPTION_DELETE_REQUEST] assms(2)] by (simp add: spec_takes_def spec_msg_def)
  next
    case (RIC_CONTROL_REQUEST cr)
    then show ?thesis using spec_control_none [of sms a cr] by (auto simp: spec_takes_def spec_msg_def)
  next
    case (E2_SETUP_RESPONSE resp)
    then show ?thesis using setup_response_flow(1) [OF assms(1) [unfolded E2_SETUP_RESPONSE]] by (simp add: spec_takes_def spec_msg_def)
  qed (use m in \<open>simp_all add: down_ok_def\<close>)
  show "\<exists>new. as_sent a' = as_sent a @ new \<and> flow sms gid info a' ric P N ms (up @ new)" if "a' \<in> spec_msg sms a tfd m"
  proof (cases m)
    case (RIC_SUBSCRIPTION_REQUEST sr)
    then show ?thesis using subscribe_flow [OF assms(1) [unfolded RIC_SUBSCRIPTION_REQUEST] assms(2,3)] that by (simp add: spec_msg_def)
  next
    case (RIC_SUBSCRIPTION_DELETE_REQUEST r)
    then show ?thesis using delete_flow(2) [OF assms(1) [unfolded RIC_SUBSCRIPTION_DELETE_REQUEST] assms(2)] that by (simp add: spec_msg_def)
  next
    case (RIC_CONTROL_REQUEST cr)
    then show ?thesis using control_flow [OF assms(1) [unfolded RIC_CONTROL_REQUEST]] that by (simp add: spec_msg_def)
  next
    case (E2_SETUP_RESPONSE resp)
    then show ?thesis using setup_response_flow(2) [OF assms(1) [unfolded E2_SETUP_RESPONSE]] that by (simp add: spec_msg_def)
  qed (use m in \<open>simp_all add: down_ok_def\<close>)
qed

lemma spec_indication_flow:
  assumes "flow sms gid info a ric P N down up" and "compatible (set sms) S" and "(fd, e) \<in> as_ind a" and "inj_on fst (as_ind a)"
  shows "spec_indication a fd \<noteq> {}"
    and "a' \<in> spec_indication a fd \<Longrightarrow> \<exists>new. as_sent a' = as_sent a @ new \<and> flow sms gid info a' ric P N down (up @ new)"
proof -
  note f = assms(1) [unfolded flow_def]
  have call: "si_call_process_id (fst (on_indication sm w)) = None" if "sm \<in> set sms" for sm w
    using assms(2) that by (auto simp: compatible_def)
  have ind: "\<exists>sm. ie_sm e = Some sm \<and> spec_sm sms (ran_func_id (ie_ric_id e)) = Some sm" if "(fd, e) \<in> as_ind a" for e
    using f that by (fastforce simp: ind_ok_def)
  obtain sm where sm: "ie_sm e = Some sm" "sm \<in> set sms" using ind [OF assms(3)] spec_smD(1) by blast
  obtain d w where d: "on_indication sm (as_ran a) = (d, w)" by (cases "on_indication sm (as_ran a)")
  have "si_call_process_id d = None" using call [OF sm(2), of "as_ran a"] d by simp
  then show "spec_indication a fd \<noteq> {}" using assms(3) sm d unfolding spec_indication_def by blast
  assume "a' \<in> spec_indication a fd"
  then obtain e sm w and d :: sm_ind_data where a': "a' = a\<lparr>as_ran := w, as_sent := as_sent a @ [RIC_INDICATION \<lparr>ri_ric_id = ie_ric_id e,
      ri_action_id = ie_action_id e, ri_sn = None, ri_type = RIC_IND_REPORT, ri_hdr = si_ind_hdr d, ri_msg = si_ind_msg d,
      ri_call_process_id = None\<rparr>]\<rparr>" "(fd, e) \<in> as_ind a" "ie_sm e = Some sm" "on_indication sm (as_ran a) = (d, w)" "si_call_process_id d = None"
    unfolding spec_indication_def by blast
  let ?new = "RIC_INDICATION \<lparr>ri_ric_id = ie_ric_id e, ri_action_id = ie_action_id e, ri_sn = None, ri_type = RIC_IND_REPORT,
    ri_hdr = si_ind_hdr d, ri_msg = si_ind_msg d, ri_call_process_id = None\<rparr>"
  have sm: "spec_sm sms (ran_func_id (ie_ric_id e)) = Some sm" using ind [OF a'(2)] a'(3) by simp
  have "\<lparr>si_ind_hdr = si_ind_hdr d, si_ind_msg = si_ind_msg d, si_call_process_id = None\<rparr> = fst (on_indication sm (as_ran a))"
    using a'(4,5) by (cases d) simp
  then have "up_ok sms gid ?new" using spec_smD [OF sm] by (auto simp: up_ok_def)
  then have "flow sms gid info a' ric P N down (up @ [?new])"
    using f by (simp add: a'(1) flow_def req_flow_def sub_flow_def setup_flow_def Let_def)
  then show "\<exists>new. as_sent a' = as_sent a @ new \<and> flow sms gid info a' ric P N down (up @ new)" by (intro exI [of _ "[?new]"]) (simp add: a'(1))
qed

section \<open>The RIC\<close>

text \<open>An answer is taken off the queue and off the pending requests.\<close>

lemma req_flow_answer:
  assumes "req_flow P down (m # up)" and "finite P" and "(fd, \<lparr>pr_ev = k, pr_id = r\<rparr>) \<in> P"
    and "k = SUBSCRIPTION_REQUEST_PENDING_EVENT \<and> sub_resp_id m = Some r \<or>
      k = SUBSCRIPTION_DELETE_REQUEST_PENDING_EVENT \<and> del_resp_id m = Some r \<or> k = CONTROL_REQUEST_PENDING_EVENT \<and> ctl_ack_id m = Some r"
  shows "req_flow (P - {(fd, \<lparr>pr_ev = k, pr_id = r\<rparr>)}) down up"
  unfolding req_flow_def
proof
  fix x
  note c = pend_cnt_remove [OF assms(2,3), of SUBSCRIPTION_REQUEST_PENDING_EVENT x]
    pend_cnt_remove [OF assms(2,3), of SUBSCRIPTION_DELETE_REQUEST_PENDING_EVENT x]
    pend_cnt_remove [OF assms(2,3), of CONTROL_REQUEST_PENDING_EVENT x]
  note q = spec [OF assms(1) [unfolded req_flow_def], of x]
  show "pend_cnt SUBSCRIPTION_REQUEST_PENDING_EVENT (P - {(fd, \<lparr>pr_ev = k, pr_id = r\<rparr>)}) x = cnt sub_req_id down x + cnt sub_resp_id up x \<and>
     pend_cnt SUBSCRIPTION_DELETE_REQUEST_PENDING_EVENT (P - {(fd, \<lparr>pr_ev = k, pr_id = r\<rparr>)}) x = cnt del_req_id down x + cnt del_resp_id up x \<and>
     pend_cnt CONTROL_REQUEST_PENDING_EVENT (P - {(fd, \<lparr>pr_ev = k, pr_id = r\<rparr>)}) x = cnt ctl_req_id down x + cnt ctl_ack_id up x"
    using assms(4) c q by (cases m) (auto split: if_splits)
qed

lemma ric_gets_message:
  assumes "ric_rep ep S ric P N" and "flow sms gid info a ric P N down (m # ms)" and "compatible (set sms) S" and "mono_node gid"
    and "st_ready st = Epoll_ready False ep" and "st_recv st = SCTP_MSG_PAYLOAD m" and "rt_info st = info" and "fresh_ric ric st"
  shows "if ric_takes m then \<exists>ric' P' N'. e2_event_step_ric ric st = Some ric' \<and> ric_rep ep S ric' P' N' \<and>
      flow sms gid info a ric' P' N' (down @ ric_new ric ric') ms
    else e2_event_step_ric ric st = None" (is "if _ then ?step else _")
proof -
  note f = assms(2) [unfolded flow_def]
  have m: "up_ok sms gid m" using f by simp
  have fin: "finite P" using fd_relD(3) [OF ric_repD(4) [OF assms(1)]] .
  have answer: ?step
    if "(\<exists>sp. m = RIC_SUBSCRIPTION_RESPONSE sp \<and> k = SUBSCRIPTION_REQUEST_PENDING_EVENT \<and> sp_ric_id sp = r \<and>
        sp_admitted sp = [0] \<and> sp_len_na sp = 0) \<or>
      m = RIC_SUBSCRIPTION_DELETE_RESPONSE r \<and> k = SUBSCRIPTION_DELETE_REQUEST_PENDING_EVENT \<or>
      (\<exists>ack. m = RIC_CONTROL_ACKNOWLEDGE ack \<and> k = CONTROL_REQUEST_PENDING_EVENT \<and> ca_ric_id ack = r \<and>
        ca_status ack = RIC_CONTROL_STATUS_SUCCESS)" for k r
  proof -
    have "0 < pend_cnt k P r" using that f by (auto simp: req_flow_def)
    then obtain fd0 where "(fd0, \<lparr>pr_ev = k, pr_id = r\<rparr>) \<in> P" using pend_cnt_pos by blast
    from answer_round [OF assms(1,5,6) this that] obtain ric' fd where
      r: "e2_event_step_ric ric st = Some ric'" "(fd, \<lparr>pr_ev = k, pr_id = r\<rparr>) \<in> P" "nr_sent ric' = nr_sent ric"
      "ric_rep ep S ric' (P - {(fd, \<lparr>pr_ev = k, pr_id = r\<rparr>)}) N" "nr_iapp ric' = nr_iapp ric @ [Iapp_msg m]"
      by blast
    have "req_flow (P - {(fd, \<lparr>pr_ev = k, pr_id = r\<rparr>)}) down ms"
      by (rule req_flow_answer [of P down m, OF _ fin r(2)]) (use f that in auto)
    moreover have sub: "sub_flow (as_ind a) ric down (m # ms)" using f by blast
    have "sub_flow (as_ind a) ric' down ms"
      by (rule sub_flowI; use sub_flowD [OF sub] that r(3,5) in \<open>auto intro: le_SucI\<close>)
    moreover have "setup_flow (gid, info) (as_pend a) N down ms" using f that by (auto simp: setup_flow_def)
    moreover have "ric_new ric ric' = []" using r(3) by (simp add: ric_new_def)
    ultimately have "flow sms gid info a ric' (P - {(fd, \<lparr>pr_ev = k, pr_id = r\<rparr>)}) N (down @ ric_new ric ric') ms"
      using f by (simp add: flow_def)
    then show ?thesis using r(1,4) by blast
  qed
  show ?thesis
  proof (cases m)
    case (RIC_SUBSCRIPTION_RESPONSE sp)
    show ?thesis
    proof (cases "ric_takes m")
      case True
      then show ?thesis
        using m RIC_SUBSCRIPTION_RESPONSE answer [of SUBSCRIPTION_REQUEST_PENDING_EVENT "sp_ric_id sp"] by (simp add: up_ok_def ric_takes_def)
    next
      case False
      then show ?thesis
        using response_stops [OF assms(1,5) assms(6) [unfolded RIC_SUBSCRIPTION_RESPONSE]] RIC_SUBSCRIPTION_RESPONSE
        by (simp add: ric_takes_def)
    qed
  next
    case (RIC_SUBSCRIPTION_DELETE_RESPONSE r)
    then show ?thesis using answer [of SUBSCRIPTION_DELETE_REQUEST_PENDING_EVENT r] by (simp add: ric_takes_def)
  next
    case (RIC_CONTROL_ACKNOWLEDGE ack)
    then show ?thesis using m answer [of CONTROL_REQUEST_PENDING_EVENT "ca_ric_id ack"] by (simp add: up_ok_def ric_takes_def)
  next
    case (RIC_INDICATION i)
    then obtain sm w where sm: "sm \<in> set sms" "sm_ran_func_id sm = ran_func_id (ri_ric_id i)"
      "\<lparr>si_ind_hdr = ri_hdr i, si_ind_msg = ri_msg i, si_call_process_id = ri_call_process_id i\<rparr> = fst (on_indication sm w)"
      using m by (auto simp: up_ok_def)
    obtain rsm where rsm: "rsm \<in> S" "rp_ran_func_id rsm = sm_ran_func_id sm" "0 < sm_ran_func_id sm"
      "rd_type (rp_on_indication rsm (fst (on_indication sm w))) \<in> {MAC_STATS_V0, RLC_STATS_V0, PDCP_STATS_V0, SLICE_STATS_V0, KPM_STATS_V0, GTP_STATS_V0}"
      using assms(3) sm(1) unfolding compatible_def by blast
    obtain ric' where r: "e2_event_step_ric ric st = Some ric'" "ric_rep ep S ric' P N" "nr_sent ric' = nr_sent ric"
      "nr_iapp ric' = nr_iapp ric @ [Iapp_msg (RIC_INDICATION i)]"
      using indication_round [OF assms(1,5) assms(6) [unfolded RIC_INDICATION] rsm(1)] rsm sm(2,3) by auto
    have "flow sms gid info a ric' P N (down @ ric_new ric ric') ms"
      using f RIC_INDICATION r(3,4) by (simp add: flow_def req_flow_def sub_flow_def setup_flow_def ric_new_def Let_def)
    then have ?step using r(1,2) by blast
    then show ?thesis using RIC_INDICATION by (simp add: ric_takes_def)
  next
    case (E2_SETUP_REQUEST req)
    then have q: "N = {}" "setups ms = 0" "setups down = 0" "as_pend a \<noteq> {}" using f by (auto simp: setup_flow_def)
    have req: "su_id req = gid" "su_ran_func_item req \<noteq> []"
      "\<forall>rf \<in> set (su_ran_func_item req). length (rf_def rf) < 127 \<and> rf_id rf \<in> sm_ran_func_id ` set sms"
      using m E2_SETUP_REQUEST by (simp_all add: up_ok_def)
    have "sm_ran_func_id ` set sms \<subseteq> rp_ran_func_id ` S" using assms(3) unfolding compatible_def by force
    then have rfs: "\<forall>rf \<in> set (su_ran_func_item req). length (rf_def rf) < 127 \<and> rf_id rf \<in> rp_ran_func_id ` S" using req(3) by blast
    have "mono_node (su_id req)" using assms(4) req(1) by simp
    from setup_round [OF assms(1) [unfolded q(1)] assms(5) assms(6) [unfolded E2_SETUP_REQUEST] assms(8) this req(2) rfs] obtain ric' resp where
      r: "e2_event_step_ric ric st = Some ric'" "ric_rep ep S ric' P {(gid, info)}"
      "nr_sent ric' = nr_sent ric @ [(info, E2_SETUP_RESPONSE resp)]" "nr_iapp ric' = nr_iapp ric @ [Iapp_add_node gid (su_ran_func_item req)]"
      using req(1) assms(7) by auto
    have "flow sms gid info a ric' P {(gid, info)} (down @ ric_new ric ric') ms"
      using f E2_SETUP_REQUEST r(3,4) q
      by (simp add: flow_def req_flow_def sub_flow_def setup_flow_def ric_new_def down_ok_def Let_def)
    then have ?step using r(1,2) by blast
    then show ?thesis using E2_SETUP_REQUEST by (simp add: ric_takes_def)
  qed (use m in \<open>simp_all add: up_ok_def\<close>)
qed

text \<open>A new request.\<close>

lemma ric_requests:
  assumes "ric_rep ep S ric P N" and "flow sms gid info a ric P N down up" and "fresh_ric ric st"
    and "do { ric \<leftarrow> add_pending_event_ric (ric\<lparr>nr_req_id := q\<rparr>) st 3000 \<lparr>pr_ev = k, pr_id = r\<rparr>; e2ap_send_bytes_ric ric gid m } = Some ric'"
    and "down_ok m" and "(\<exists>sr. m = RIC_SUBSCRIPTION_REQUEST sr \<and> k = SUBSCRIPTION_REQUEST_PENDING_EVENT \<and> sr_ric_id sr = r) \<or>
      m = RIC_SUBSCRIPTION_DELETE_REQUEST r \<and> k = SUBSCRIPTION_DELETE_REQUEST_PENDING_EVENT \<and> open_subs ric r \<or>
      (\<exists>cr. m = RIC_CONTROL_REQUEST cr \<and> k = CONTROL_REQUEST_PENDING_EVENT \<and> cr_ric_id cr = r)"
  shows "\<exists>P'. ric_rep ep S ric' P' N \<and> flow sms gid info a ric' P' N (down @ ric_new ric ric') up"
proof -
  note f = assms(2) [unfolded flow_def]
  have N: "N = {} \<or> N = {(gid, info)}" using f by (auto simp: setup_flow_def)
  note r = request_round [OF assms(1) N assms(3,4)]
  have new: "ric_new ric ric' = [m]" using r(3) by (simp add: ric_new_def)
  have fin: "finite P" using fd_relD(3) [OF ric_repD(4) [OF assms(1)]] .
  have tfd: "st_tfd st \<notin> fst ` P" using assms(3) ric_repD(9) [OF assms(1)] by (simp add: fresh_ric_def)
  note c = pend_cnt_insert [OF fin tfd, of _ k r]
  have "req_flow (insert (st_tfd st, \<lparr>pr_ev = k, pr_id = r\<rparr>) P) (down @ [m]) up"
    using f assms(6) by (auto simp: req_flow_def c)
  moreover have "sub_flow (as_ind a) ric' (down @ [m]) up"
    using f assms(6) r(3,4) by (auto simp: sub_flow_def open_subs_def Let_def Suc_le_eq)
  moreover have "setup_flow (gid, info) (as_pend a) N (down @ [m]) up" using f assms(6) by (auto simp: setup_flow_def)
  ultimately have "flow sms gid info a ric' (insert (st_tfd st, \<lparr>pr_ev = k, pr_id = r\<rparr>) P) N (down @ ric_new ric ric') up"
    using f assms(5) by (simp add: flow_def new)
  then show ?thesis using r(2) by blast
qed

section \<open>Every step keeps the invariant\<close>

definition sys_inv :: "'w sm_agent set \<Rightarrow> sm_ric set \<Rightarrow> sctp_info \<Rightarrow> 'w e2_system \<Rightarrow> bool" where
  "sys_inv A S info s \<longleftrightarrow> compatible A S \<and> (\<exists>ep epr gid sms a P N. agent_ok ep gid sms (sy_ag s) a \<and> state_inv a \<and> set sms = A \<and>
     ric_rep epr S (sy_ric s) P N \<and> mono_node gid \<and> flow sms gid info a (sy_ric s) P N (sy_down s) (sy_up s))"

text \<open>A round of the agent in which a message arrives, or a subscription timer expires.\<close>

lemma agent_round:
  assumes "agent_ok ep gid sms ag a" and "state_inv a" and "fresh ag st" and "spec_step ep gid sms a st = B"
    and "B \<noteq> {}" and "\<And>a'. a' \<in> B \<Longrightarrow> \<exists>new. as_sent a' = as_sent a @ new \<and> flow sms gid info a' ric P N ms (up @ new)"
  shows "\<exists>ag' a'. e2_event_step ag st = Some ag' \<and> agent_ok ep gid sms ag' a' \<and> state_inv a' \<and>
    flow sms gid info a' ric P N ms (up @ agent_new ag ag')"
proof -
  obtain ag' a' where s: "e2_event_step ag st = Some ag'" "a' \<in> B" "agent_ok ep gid sms ag' a'"
    using step_refines [OF assms(1,3)] assms(4,5) by (cases "e2_event_step ag st") (auto simp: refines_def)
  obtain new where new: "as_sent a' = as_sent a @ new" "flow sms gid info a' ric P N ms (up @ new)" using assms(6) [OF s(2)] by blast
  have "agent_new ag ag' = new" using new(1) agent_okD(7) [OF assms(1)] agent_okD(7) [OF s(3)] by (simp add: agent_new_def)
  moreover have "st_tfd st \<notin> fst ` as_ind a" using assms(3) agent_okD(10) [OF assms(1)] by (simp add: fresh_def)
  then have "state_inv a'" using inv_step [OF assms(2)] s(2) assms(4) by blast
  ultimately show ?thesis using s new(2) by blast
qed

lemma agent_takes_spec:
  assumes "agent_ok ep gid sms ag a"
  shows "agent_takes ag m = spec_takes sms m"
  using sm_plugin [OF agent_okD(1) [OF assms]] by (simp add: agent_takes_def spec_takes_def split: e2ap_msg.splits)

lemma agent_gets_message:
  assumes "agent_ok ep gid sms ag a" and "state_inv a" and "fresh ag st" and "st_ready st = Epoll_ready False ep"
    and "st_recv st = SCTP_MSG_PAYLOAD m" and "flow sms gid info a ric P N (m # ms) up"
  shows "if agent_takes ag m then \<exists>ag' a'. e2_event_step ag st = Some ag' \<and> agent_ok ep gid sms ag' a' \<and> state_inv a' \<and>
      flow sms gid info a' ric P N ms (up @ agent_new ag ag')
    else e2_event_step ag st = None"
proof -
  have tfd: "st_tfd st \<notin> fst ` as_ind a" using assms(3) agent_okD(10) [OF assms(1)] by (simp add: fresh_def)
  have fin: "finite (as_ind a)" using assms(2) by (simp add: state_inv_def)
  have run: "spec_step ep gid sms a st = spec_msg sms a (st_tfd st) m"
    using assms(4,5) agent_okD(5) [OF assms(1)] by (simp add: spec_step_def)
  note flow = spec_msg_flow [OF assms(6) fin tfd] and takes = agent_takes_spec [OF assms(1), of m]
  show ?thesis
  proof (cases "agent_takes ag m")
    case True
    then have "spec_msg sms a (st_tfd st) m \<noteq> {}" using flow(1) takes by blast
    from agent_round [OF assms(1-3) run this flow(2)] show ?thesis using True by simp
  next
    case False
    then have "spec_step ep gid sms a st = {}" using flow(1) takes run by blast
    then show ?thesis using False step_stops [OF assms(1,3)] by simp
  qed
qed

lemma agent_timer:
  assumes "agent_ok ep gid sms ag a" and "state_inv a" and "fresh ag st" and "st_ready st = Epoll_ready False fd" and "fd \<noteq> ep"
    and "ind_event_of ag fd = Some (Some e)" and "st_read st = 8"
    and "flow sms gid info a ric P N down up" and "compatible (set sms) S"
  shows "\<exists>ag' a'. e2_event_step ag st = Some ag' \<and> agent_ok ep gid sms ag' a' \<and> state_inv a' \<and>
    flow sms gid info a' ric P N down (up @ agent_new ag ag')"
proof -
  note k = agent_okD [OF assms(1)]
  have "0 < fd" using assms(6) by (auto simp: ind_event_of_def ind_fd_def c_assert_def bind_eq_Some_conv split: if_splits)
  then have "fd \<in> fst ` as_ind a" using assms(6) ind_event_of [OF k(3)] by (auto split: if_splits)
  then obtain e' where e': "(fd, e') \<in> as_ind a" by auto
  have "spec_step ep gid sms a st = spec_indication a fd"
    using assms(4,5,7) \<open>0 < fd\<close> \<open>fd \<in> fst ` as_ind a\<close> by (simp add: spec_step_def)
  from agent_round [OF assms(1-3) this spec_indication_flow [OF assms(8,9) e' fd_relD(2) [OF k(3)]]] show ?thesis .
qed

text \<open>A timer that is read in a round that returns has expired.\<close>

lemma agent_timer_read:
  assumes "agent_ok ep gid sms ag a" and "fresh ag st" and "st_ready st = Epoll_ready False fd" and "fd \<noteq> ep"
    and "ind_event_of ag fd = Some (Some e)" and "e2_event_step ag st = Some ag'"
  shows "st_read st = 8"
proof (rule ccontr)
  assume read: "st_read st \<noteq> 8"
  have "0 < fd" using assms(5) by (auto simp: ind_event_of_def ind_fd_def c_assert_def bind_eq_Some_conv split: if_splits)
  then have "fd \<in> fst ` as_ind a" using assms(5) ind_event_of [OF agent_okD(3) [OF assms(1)]] by (auto split: if_splits)
  then have "spec_step ep gid sms a st = {}" using assms(3,4) read \<open>0 < fd\<close> by (simp add: spec_step_def)
  then show False using step_stops [OF assms(1,2)] assms(6) by simp
qed

lemma set_low_req_id [simp]: "ran_func_id (set_low_req_id i r) = ran_func_id i" "ric_inst_id (set_low_req_id i r) = ric_inst_id i"
  by (simp_all add: set_low_req_id_def)

lemma step_inv:
  assumes "e2_step info s s'" and "sys_inv A S info s"
  shows "sys_inv A S info s'"
proof -
  obtain ep epr gid sms a P N where i: "agent_ok ep gid sms (sy_ag s) a" "state_inv a" "set sms = A" "ric_rep epr S (sy_ric s) P N"
    "mono_node gid" "flow sms gid info a (sy_ric s) P N (sy_down s) (sy_up s)" and comp: "compatible (set sms) S"
    using assms(2) by (auto simp: sys_inv_def)
  have agent: ?thesis if "s' = s\<lparr>sy_ag := ag, sy_down := ms, sy_up := up\<rparr>" "agent_ok ep gid sms ag a'" "state_inv a'"
    "flow sms gid info a' (sy_ric s) P N ms up" for ag a' ms up
  proof -
    have "agent_ok ep gid sms (sy_ag s') a'" "ric_rep epr S (sy_ric s') P N" "flow sms gid info a' (sy_ric s') P N (sy_down s') (sy_up s')"
      using that i(4) by simp_all
    then show ?thesis using that(3) i(3,5) comp unfolding sys_inv_def by blast
  qed
  have ric: ?thesis if "s' = s\<lparr>sy_ric := ric, sy_up := ms, sy_down := down\<rparr>" "ric_rep epr S ric P' N'"
    "flow sms gid info a ric P' N' down ms" for ric P' N' ms down
  proof -
    have "agent_ok ep gid sms (sy_ag s') a" "ric_rep epr S (sy_ric s') P' N'" "flow sms gid info a (sy_ric s') P' N' (sy_down s') (sy_up s')"
      using that i(1) by simp_all
    then show ?thesis using i(2,3,5) comp unfolding sys_inv_def by blast
  qed
  note k = agent_okD [OF i(1)] and rk = ric_repD [OF i(4)]
  show ?thesis
    using assms(1)
  proof cases
    case (agent_receives m ms st ag)
    obtain a' where "agent_ok ep gid sms ag a'" "state_inv a'" "flow sms gid info a' (sy_ric s) P N ms (sy_up s @ agent_new (sy_ag s) ag)"
      using agent_gets_message [OF i(1,2) agent_receives(5) _ agent_receives(4) i(6) [unfolded agent_receives(2)]] agent_receives(3,6) k(4)
      by (auto split: if_splits)
    from agent [OF agent_receives(1) this] show ?thesis .
  next
    case (ric_receives m ms st ric)
    obtain P' N' where "ric_rep epr S ric P' N'" "flow sms gid info a ric P' N' (sy_down s @ ric_new (sy_ric s) ric) ms"
      using ric_gets_message [OF i(4) i(6) [unfolded ric_receives(2)] comp i(5) _ ric_receives(4,5,6)] ric_receives(3,7) rk(6)
      by (auto split: if_splits)
    from ric [OF ric_receives(1) this] show ?thesis .
  next
    case (agent_reports st fd e ag)
    have "fd \<noteq> ep" using agent_reports(3) k(4) by simp
    note t = agent_timer [OF i(1,2) agent_reports(5,2) this agent_reports(4)
        agent_timer_read [OF i(1) agent_reports(5,2) this agent_reports(4,6)] i(6) comp]
    obtain a' where "agent_ok ep gid sms ag a'" "state_inv a'"
      "flow sms gid info a' (sy_ric s) P N (sy_down s) (sy_up s @ agent_new (sy_ag s) ag)"
      using t agent_reports(6) by auto
    with agent [where ag = ag and ms = "sy_down s"] agent_reports(1) show ?thesis by simp
  next
    case (ric_times_out st fd ric)
    have "ric = sy_ric s"
      using timer_round [OF i(4) ric_times_out(2,3)] ric_times_out(4,5) rk(6) by (simp split: if_splits)
    moreover from this have "flow sms gid info a ric P N (sy_down s @ ric_new (sy_ric s) ric) (sy_up s)" using i(6) by (simp add: ric_new_def)
    ultimately show ?thesis using ric [where ric = ric and ms = "sy_up s"] ric_times_out(1) i(4) by simp
  next
    case (iapp_subscribes rst sr r ric)
    let ?sr = "sr\<lparr>sr_ric_id := set_low_req_id (sr_ric_id sr) (ucast (nr_req_id (sy_ric s)))\<rparr>"
    have ok: "down_ok (RIC_SUBSCRIPTION_REQUEST ?sr)" by (simp add: down_ok_def)
    have run: "do { ric \<leftarrow> add_pending_event_ric ((sy_ric s)\<lparr>nr_req_id := nr_req_id (sy_ric s) + 1\<rparr>) rst 3000
          \<lparr>pr_ev = SUBSCRIPTION_REQUEST_PENDING_EVENT, pr_id = sr_ric_id ?sr\<rparr>;
        e2ap_send_bytes_ric ric gid (RIC_SUBSCRIPTION_REQUEST ?sr) } = Some ric"
      using iapp_subscribes(3) k(8) by (auto simp: fwd_ric_subscription_request_def Let_def bind_eq_Some_conv)
    obtain P' where "ric_rep epr S ric P' N" "flow sms gid info a ric P' N (sy_down s @ ric_new (sy_ric s) ric) (sy_up s)"
      using ric_requests [OF i(4,6) iapp_subscribes(2) run ok] by auto
    with ric [where ric = ric and ms = "sy_up s"] iapp_subscribes(1) show ?thesis by simp
  next
    case (iapp_unsubscribes r rst ric)
    have ok: "down_ok (RIC_SUBSCRIPTION_DELETE_REQUEST r)" by (simp add: down_ok_def)
    have run: "do { ric \<leftarrow> add_pending_event_ric ((sy_ric s)\<lparr>nr_req_id := nr_req_id (sy_ric s)\<rparr>) rst 3000
          \<lparr>pr_ev = SUBSCRIPTION_DELETE_REQUEST_PENDING_EVENT, pr_id = r\<rparr>;
        e2ap_send_bytes_ric ric gid (RIC_SUBSCRIPTION_DELETE_REQUEST r) } = Some ric"
      using iapp_unsubscribes(4) k(8) by (auto simp: fwd_ric_subscription_request_delete_def bind_eq_Some_conv)
    obtain P' where "ric_rep epr S ric P' N" "flow sms gid info a ric P' N (sy_down s @ ric_new (sy_ric s) ric) (sy_up s)"
      using ric_requests [OF i(4,6) iapp_unsubscribes(3) run ok] iapp_unsubscribes(2) by auto
    with ric [where ric = ric and ms = "sy_up s"] iapp_unsubscribes(1) show ?thesis by simp
  next
    case (iapp_controls rst cr r ric)
    let ?cr = "cr\<lparr>cr_ric_id := set_low_req_id (cr_ric_id cr) (ucast (nr_req_id (sy_ric s)))\<rparr>"
    have ok: "down_ok (RIC_CONTROL_REQUEST ?cr)" by (simp add: down_ok_def)
    have run: "do { ric \<leftarrow> add_pending_event_ric ((sy_ric s)\<lparr>nr_req_id := nr_req_id (sy_ric s) + 1\<rparr>) rst 3000
          \<lparr>pr_ev = CONTROL_REQUEST_PENDING_EVENT, pr_id = cr_ric_id ?cr\<rparr>;
        e2ap_send_bytes_ric ric gid (RIC_CONTROL_REQUEST ?cr) } = Some ric"
      using iapp_controls(3) k(8) by (auto simp: fwd_ric_control_request_def Let_def bind_eq_Some_conv)
    obtain P' where "ric_rep epr S ric P' N" "flow sms gid info a ric P' N (sy_down s @ ric_new (sy_ric s) ric) (sy_up s)"
      using ric_requests [OF i(4,6) iapp_controls(2) run ok] by auto
    with ric [where ric = ric and ms = "sy_up s"] iapp_controls(1) show ?thesis by simp
  qed
qed

lemma reach_inv: "e2_reach info s s' \<Longrightarrow> sys_inv A S info s \<Longrightarrow> sys_inv A S info s'"
  by (induction rule: e2_reach.induct) (blast intro: step_inv)+

section \<open>The timers of the agent\<close>

text \<open>The timers of the subscription \<open>r\<close> that the agent waits for: registered, running, and found by the search of the loop.\<close>

definition armed :: "'w e2_agent \<Rightarrow> ric_gen_id \<Rightarrow> int set" where
  "armed ag r = {fd \<in> io_fds (ag_io ag). io_timers (ag_io ag) fd \<noteq> None \<and> (\<exists>e. ind_event_of ag fd = Some (Some e) \<and> ie_ric_id e = r)}"

definition io_timed :: "int \<Rightarrow> asio_agent \<Rightarrow> bool" where
  "io_timed ep io \<longleftrightarrow> io_fds io \<subseteq> insert ep (dom (io_timers io))"

abbreviation timed :: "'w e2_agent \<Rightarrow> bool" where
  "timed ag \<equiv> io_timed (ag_ep_fd ag) (ag_io ag)"

lemma timed_create: "create_timer_ms_asio_agent io tfd i n = Some (fd, io') \<Longrightarrow> io_timed ep io \<Longrightarrow> io_timed ep io'"
  by (auto simp: io_timed_def create_timer_ms_asio_agent_def add_fd_asio_agent_def c_assert_def bind_eq_Some_conv Let_def split: if_splits)

lemma timed_rm: "rm_fd_asio_agent io fd = Some io' \<Longrightarrow> io_timed ep io \<Longrightarrow> io_timed ep io'"
  by (auto simp: io_timed_def rm_fd_asio_agent_def c_assert_def bind_eq_Some_conv split: if_splits)

lemma timed_setup_request: "generate_setup_request ag = Some (sr, ag') \<Longrightarrow> ag_ep_fd ag' = ag_ep_fd ag \<and> ag_io ag' = ag_io ag"
  by (auto simp: generate_setup_request_def Let_def c_assert_def bind_eq_Some_conv split: if_splits)

lemma sent_io [simp]: "ag_io (e2ap_send_bytes_agent ag m) = ag_io ag" "ag_ep_fd (e2ap_send_bytes_agent ag m) = ag_ep_fd ag"
  by (simp_all add: e2ap_send_bytes_agent_def)

lemma handle_timed:
  assumes "timed ag" and "e2ap_msg_handle_agent ag st m = Some (ans, ag')"
  shows "timed ag'"
proof -
  have sub: "timed ag'" if "e2ap_handle_subscription_request_agent ag st sr = Some (ans, ag')" for sr
    using that assms(1) by (auto simp: e2ap_handle_subscription_request_agent_def Let_def bind_eq_Some_conv case_prod_beta dest: timed_create)
  have del: "timed ag'" if "e2ap_handle_subscription_delete_request_agent ag r = Some (ans, ag')" for r
    using that assms(1)
    by (auto simp: e2ap_handle_subscription_delete_request_agent_def stop_ind_event_def Let_def bind_eq_Some_conv dest: timed_rm split: if_splits)
  have ctl: "timed ag'" if "e2ap_handle_control_request_agent ag cr = Some (ans, ag')" for cr
    using that assms(1) by (auto simp: e2ap_handle_control_request_agent_def Let_def bind_eq_Some_conv case_prod_beta split: if_splits)
  have resp: "timed ag'" if "e2ap_handle_setup_response_agent ag = Some (ans, ag')"
    using that assms(1) by (auto simp: e2ap_handle_setup_response_agent_def stop_pending_event_def Let_def bind_eq_Some_conv dest: timed_rm split: if_splits)
  show ?thesis
    using assms(2) sub del ctl resp by (auto simp: e2ap_msg_handle_agent_def bind_eq_Some_conv split: e2ap_msg.splits if_splits)
qed

lemma step_timed:
  assumes "timed ag" and "e2_event_step ag st = Some ag'"
  shows "timed ag'"
proof -
  obtain fd e where e: "next_async_event_agent ag st = Some (fd, e)" using assms(2) by (auto simp: e2_event_step_def bind_eq_Some_conv)
  show ?thesis
  proof (cases e)
    case (SCTP_MSG_ARRIVED_EVENT m)
    then show ?thesis using assms e handle_timed [of ag st m] by (auto simp: e2_event_step_def bind_eq_Some_conv split: if_splits)
  next
    case (INDICATION_EVENT i)
    then show ?thesis using assms e by (auto simp: e2_event_step_def bind_eq_Some_conv Let_def case_prod_beta)
  next
    case (PENDING_EVENT p)
    then show ?thesis using assms e timed_setup_request [of ag] by (auto simp: e2_event_step_def Let_def bind_eq_Some_conv split: if_splits)
  next
    case SCTP_CONNECTION_SHUTDOWN_EVENT
    then show ?thesis
      using assms e by (auto simp: e2_event_step_def notification_handle_ag_def Let_def bind_eq_Some_conv dest: timed_create)
  next
    case CHECK_STOP_TOKEN_EVENT
    then show ?thesis using assms e by (simp add: e2_event_step_def)
  qed
qed

lemma reach_timed: "e2_reach info s s' \<Longrightarrow> timed (sy_ag s) \<Longrightarrow> timed (sy_ag s')"
proof (induction rule: e2_reach.induct)
  case (reach_step s s1 s2)
  from reach_step(2) have "timed (sy_ag s1) \<Longrightarrow> timed (sy_ag s2)"
    by cases (auto dest: step_timed)
  then show ?case using reach_step by blast
qed

lemma started_timed:
  assumes "started_with A ag st"
  shows "timed ag"
  using assms
proof cases
  case (started_with sock d dp1 dp2 di1 di2 files port gid w ag0)
  obtain io where io: "add_fd_asio_agent init_asio_agent sock = Some io" "ag_io ag0 = io" "ag_ep_fd ag0 = sock"
    using started_with(10) by (auto simp: e2_init_agent_def Let_def bind_eq_Some_conv c_assert_def split: if_splits)
  have "timed ag0" using io(1) by (auto simp: io(2,3) add_fd_asio_agent_def init_asio_agent_def io_timed_def c_assert_def)
  moreover obtain sr ag1 where ag1: "generate_setup_request ag0 = Some (sr, ag1)"
    using started_with(12) by (auto simp: e2_start_agent_def bind_eq_Some_conv)
  ultimately have "timed ag1" using timed_setup_request [OF ag1] by simp
  then show ?thesis
    using started_with(12) ag1 by (auto simp: e2_start_agent_def Let_def bind_eq_Some_conv dest: timed_create)
qed

text \<open>As many timers are armed for an identifier as there are subscriptions with it.\<close>

lemma card_armed:
  assumes "agent_ok ep gid sms ag a" and "timed ag"
  shows "finite (armed ag r)" "card (armed ag r) = subs_cnt (as_ind a) r"
proof -
  note k = agent_okD [OF assms(1)]
  have eq: "armed ag r = fst ` {p \<in> as_ind a. ie_ric_id (snd p) = r}"
  proof (intro set_eqI iffI)
    fix fd assume "fd \<in> armed ag r"
    then obtain e where e: "ind_event_of ag fd = Some (Some e)" "ie_ric_id e = r" by (auto simp: armed_def)
    have pos: "0 < fd" using e(1) by (auto simp: ind_event_of_def ind_fd_def c_assert_def bind_eq_Some_conv split: if_splits)
    then have "fd \<in> fst ` as_ind a" "e = (THE e. (fd, e) \<in> as_ind a)" using e(1) ind_event_of [OF k(3) pos] by (auto split: if_splits)
    then have "(fd, e) \<in> as_ind a" using the_pair(1) [OF fd_relD(2) [OF k(3)]] by auto
    then show "fd \<in> fst ` {p \<in> as_ind a. ie_ric_id (snd p) = r}" using e(2) by force
  next
    fix fd assume "fd \<in> fst ` {p \<in> as_ind a. ie_ric_id (snd p) = r}"
    then obtain e where e: "(fd, e) \<in> as_ind a" "ie_ric_id e = r" by auto
    note p = the_pair [OF fd_relD(2) [OF k(3)] e(1)]
    have "0 < fd" using fd_relD(4) [OF k(3) e(1)] by simp
    then have "ind_event_of ag fd = Some (Some e)" using ind_event_of [OF k(3)] p by simp
    moreover have "fd \<in> io_fds (ag_io ag)" "fd \<noteq> ag_ep_fd ag"
      unfolding k(4,10) using p(2) k(13) by blast+
    ultimately show "fd \<in> armed ag r" using assms(2) e(2) by (auto simp: armed_def io_timed_def)
  qed
  show "finite (armed ag r)" unfolding eq using fd_relD(3) [OF k(3)] by simp
  have "inj_on fst {p \<in> as_ind a. ie_ric_id (snd p) = r}" using fd_relD(2) [OF k(3)] by (rule inj_on_subset) blast
  then show "card (armed ag r) = subs_cnt (as_ind a) r" by (simp add: eq card_image subs_cnt_def)
qed

section \<open>Start\<close>

lemma setup_items_funcs:
  "map rf_id (fst (setup_items sms w)) = map sm_ran_func_id sms \<and>
   (\<forall>rf \<in> set (fst (setup_items sms w)). \<exists>sm \<in> set sms. \<exists>w. rf_def rf = fst (on_e2_setup sm w))"
proof (induction sms arbitrary: w)
  case (Cons sm sms)
  obtain d w1 where d: "on_e2_setup sm w = (d, w1)" by (cases "on_e2_setup sm w")
  obtain rfs w2 where r: "setup_items sms w1 = (rfs, w2)" by (cases "setup_items sms w1")
  have "\<exists>w. d = fst (on_e2_setup sm w)" by (rule exI [of _ w]) (simp add: d)
  then show ?case using Cons.IH [of w1] d r by auto
qed simp

text \<open>The system when the RIC runs and the agent has sent its setup request.\<close>

definition e2_started :: "'w e2_system \<Rightarrow> bool" where
  "e2_started s \<longleftrightarrow> (\<exists>A st S. started_with A (sy_ag s) st \<and> ric_started S (sy_ric s) \<and> compatible A S \<and>
     mono_node (ag_global_e2_node_id (sy_ag s)) \<and> sy_down s = [] \<and> sy_up s = ag_sent (sy_ag s))"

lemma started_inv:
  assumes "e2_started s"
  shows "\<exists>A S. sys_inv A S info s"
proof -
  obtain A st S where s: "started_with A (sy_ag s) st" "ric_started S (sy_ric s)" "compatible A S"
    "mono_node (ag_global_e2_node_id (sy_ag s))" "sy_down s = []" "sy_up s = ag_sent (sy_ag s)"
    using assms by (auto simp: e2_started_def)
  obtain ep gid sms a w where a: "agent_ok ep gid sms (sy_ag s) a" "state_inv a" "as_ind a = {}"
    "as_pend a = {(st_tfd st, SETUP_REQUEST_PENDING_EVENT)}" "sms \<noteq> []" "set sms = A"
    "as_sent a = [E2_SETUP_REQUEST \<lparr>su_id = gid, su_ran_func_item = fst (setup_items sms w), su_len_ccu = 0\<rparr>]"
    using started_with_ok [OF s(1)] by blast
  obtain epr where r: "ric_rep epr S (sy_ric s) {} {}" "nr_sent (sy_ric s) = []" "nr_iapp (sy_ric s) = []"
    using ric_started_ok [OF s(2)] by blast
  let ?rfs = "fst (setup_items sms w)"
  have ids: "map rf_id ?rfs = map sm_ran_func_id sms" and defs: "\<forall>rf \<in> set ?rfs. \<exists>sm \<in> set sms. \<exists>w. rf_def rf = fst (on_e2_setup sm w)"
    using setup_items_funcs [of sms w] by blast+
  have "?rfs \<noteq> []" using ids a(5) by (cases ?rfs) auto
  moreover have "rf_id rf \<in> sm_ran_func_id ` set sms" if "rf \<in> set ?rfs" for rf
    using that arg_cong [OF ids, of set] by (auto simp: set_eq_iff)
  moreover have "length (rf_def rf) < 127" if "rf \<in> set ?rfs" for rf
    using that defs s(3) a(6) by (fastforce simp: compatible_def)
  ultimately have "\<forall>m \<in> set (sy_up s). up_ok sms gid m" using agent_okD(7) [OF a(1)] s(6) a(7) by (simp add: up_ok_def)
  moreover have up: "sy_up s = [E2_SETUP_REQUEST \<lparr>su_id = gid, su_ran_func_item = ?rfs, su_len_ccu = 0\<rparr>]"
    using agent_okD(7) [OF a(1)] s(6) a(7) by simp
  ultimately have "flow sms gid info a (sy_ric s) {} {} (sy_down s) (sy_up s)"
    using s(5) a(3,4) r(2,3)
    by (simp add: flow_def req_flow_def sub_flow_def setup_flow_def ind_ok_def pend_cnt_def subs_cnt_def)
  moreover have "mono_node gid" using s(4) agent_okD(8) [OF a(1)] by simp
  ultimately show ?thesis using a(1,2,6) r(1) s(3) unfolding sys_inv_def by blast
qed

end
