(* ===== verification/E2SystemRuns.thy ===== *)
theory E2SystemRuns
  imports E2System begin

text \<open>
  The two properties of an agent and a RIC over a connection that lasts: which messages and timers they can handle, and that the
  timers of the agent are those of the subscriptions of the iApp; and a system with one service model on which they are evaluated.
\<close>

section \<open>What holds in every state\<close>


text \<open>C11: one agent of a monolithic node and a RIC with matching service models, and the steps of \<^term>\<open>e2_step\<close>, with the
  restrictions that are stated for the previous property. In every state that is reached from the start, for every identifier: the timers that the
  agent waits for, that run and that its search finds for a subscription with this identifier, and the deletions that the iApp
  has requested, are together as many as the responses that the iApp has received and the responses and the deletion requests
  that are on their way. When no message is on its way, a subscription that the iApp takes as active has its timer, and no other
  subscription has one.\<close>

theorem e2_subscriptions_agree:
  assumes "e2_started s0" and "e2_reach info s0 s"
  shows "finite (armed (sy_ag s) r) \<and> card (armed (sy_ag s) r) + cnt del_req_id (map snd (nr_sent (sy_ric s))) r =
    cnt sub_resp_id (iapp_msgs (nr_iapp (sy_ric s))) r + cnt sub_resp_id (sy_up s) r + cnt del_req_id (sy_down s) r"
proof -
  obtain A S where "sys_inv A S info s0" using started_inv [OF assms(1)] by blast
  then have "sys_inv A S info s" by (rule reach_inv [OF assms(2)])
  then obtain ep gid sms a P N where i: "agent_ok ep gid sms (sy_ag s) a" "flow sms gid info a (sy_ric s) P N (sy_down s) (sy_up s)"
    by (auto simp: sys_inv_def)
  have "timed (sy_ag s0)" using assms(1) started_timed by (auto simp: e2_started_def)
  then have "timed (sy_ag s)" by (rule reach_timed [OF assms(2)])
  note c = card_armed [OF i(1) this, of r]
  have "sub_flow (as_ind a) (sy_ric s) (sy_down s) (sy_up s)" using i(2) by (simp add: flow_def)
  from sub_flowD(1) [OF this, of r] show ?thesis using c by simp
qed

section \<open>An agent and a RIC with one service model\<close>

definition demo_rsm :: sm_ric where
  "demo_rsm = \<lparr>rp_on_subscription = (\<lambda>cmd. \<lparr>sd_event_trigger = [], sd_action_def = None\<rparr>),
     rp_on_indication = (\<lambda>d. \<lparr>rd_type = MAC_STATS_V0, rd_stats = si_ind_msg d\<rparr>),
     rp_on_control_req = (\<lambda>cmd. \<lparr>sc_ctrl_hdr = [], sc_ctrl_msg = []\<rparr>), rp_ran_func_id = 142\<rparr>"

definition demo_refs :: ric_refs where
  "demo_refs = \<lparr>rr_sm = 1, rr_pub = 1, rr_n1 = 1, rr_n2 = 1, rr_p1 = 1, rr_p2 = 1\<rparr>"

definition demo_ric :: "near_ric option" where
  "demo_ric = init_near_ric 4 demo_refs [(2, demo_rsm)] [(3, 2)]"

definition demo_info :: sctp_info where
  "demo_info = \<lparr>sin_family = 2, sin_port = 36421, sin_addr = 1, si_sri = []\<rparr>"

definition demo_rst :: "epoll_result \<Rightarrow> sctp_msg \<Rightarrow> nat \<Rightarrow> ric_stimulus" where
  "demo_rst r m k = \<lparr>st_ready = r, st_recv = m, st_tfd = int k, st_z1 = 100 + k, st_z2 = 100 + k, st_read = 8,
     rt_info = demo_info, rt_shutdown = False\<rparr>"

definition demo_sys :: "nat e2_system option" where
  "demo_sys = do {
     ag \<leftarrow> demo_agent;
     ric \<leftarrow> demo_ric;
     Some \<lparr>sy_ag = ag, sy_ric = ric, sy_down = [], sy_up = ag_sent ag\<rparr>
   }"

text \<open>Steps that are computed, with the number from which the new descriptor and the new addresses come.\<close>

definition demo_down :: "nat \<Rightarrow> nat e2_system \<Rightarrow> nat e2_system option" where
  "demo_down k s = (case sy_down s of [] \<Rightarrow> None | m # ms \<Rightarrow>
     (let st = demo_st (Epoll_ready False (ag_ep_fd (sy_ag s))) (SCTP_MSG_PAYLOAD m) k
      in if fresh (sy_ag s) st
         then do {
           ag \<leftarrow> e2_event_step (sy_ag s) st;
           Some (s\<lparr>sy_ag := ag, sy_down := ms, sy_up := sy_up s @ agent_new (sy_ag s) ag\<rparr>)
         }
         else None))"

definition demo_up :: "nat \<Rightarrow> nat e2_system \<Rightarrow> nat e2_system option" where
  "demo_up k s = (case sy_up s of [] \<Rightarrow> None | m # ms \<Rightarrow>
     (let st = demo_rst (Epoll_ready False (nr_ep_fd (sy_ric s))) (SCTP_MSG_PAYLOAD m) k
      in if fresh_ric (sy_ric s) st
         then do {
           ric \<leftarrow> e2_event_step_ric (sy_ric s) st;
           Some (s\<lparr>sy_ric := ric, sy_up := ms, sy_down := sy_down s @ ric_new (sy_ric s) ric\<rparr>)
         }
         else None))"

definition demo_sr :: ric_subscription_request where
  "demo_sr = \<lparr>sr_ric_id = demo_id, sr_event_trigger = [], sr_action = [\<lparr>ra_id = 0, ra_type = RIC_ACT_REPORT, ra_definition = None,
     ra_subseq_action = None\<rparr>]\<rparr>"

definition demo_iapp_subscribes :: "nat \<Rightarrow> nat e2_system \<Rightarrow> nat e2_system option" where
  "demo_iapp_subscribes k s =
     (let st = demo_st Epoll_timeout SCTP_MSG_NOTIFICATION k
      in if fresh_ric (sy_ric s) st
         then do {
           (r, ric) \<leftarrow> fwd_ric_subscription_request (sy_ric s) st (ag_global_e2_node_id (sy_ag s)) demo_sr;
           Some (s\<lparr>sy_ric := ric, sy_down := sy_down s @ ric_new (sy_ric s) ric\<rparr>)
         }
         else None)"

lemma demo_step:
  "demo_down k s = Some s' \<Longrightarrow> e2_step demo_info s s'" "demo_up k s = Some s' \<Longrightarrow> e2_step demo_info s s'"
  "demo_iapp_subscribes k s = Some s' \<Longrightarrow> e2_step demo_info s s'"
proof -
  show "e2_step demo_info s s'" if "demo_down k s = Some s'"
    using that by (auto simp: demo_down_def Let_def bind_eq_Some_conv demo_st_def intro!: agent_receives split: list.splits if_splits)
  show "e2_step demo_info s s'" if "demo_up k s = Some s'"
    using that by (auto simp: demo_up_def Let_def bind_eq_Some_conv demo_rst_def intro!: ric_receives split: list.splits if_splits)
  show "e2_step demo_info s s'" if "demo_iapp_subscribes k s = Some s'"
    using that by (auto simp: demo_iapp_subscribes_def Let_def bind_eq_Some_conv intro!: iapp_subscribes split: if_splits)
qed

text \<open>The connection is set up and the iApp subscribes; the agent answers, and the answer arrives.\<close>

definition demo_subscribed :: "nat e2_system \<Rightarrow> nat e2_system option" where
  "demo_subscribed s = do { s \<leftarrow> demo_up 20 s; s \<leftarrow> demo_down 21 s; demo_iapp_subscribes 22 s }"

definition demo_resp :: e2ap_msg where
  "demo_resp = RIC_SUBSCRIPTION_RESPONSE \<lparr>sp_ric_id = demo_id, sp_admitted = [0], sp_len_na = 0\<rparr>"

lemma demo_reach:
  assumes "e2_reach demo_info s0 s" and "demo_subscribed s = Some s'"
  shows "e2_reach demo_info s0 s'"
proof -
  obtain s1 s2 where s: "demo_up 20 s = Some s1" "demo_down 21 s1 = Some s2" "demo_iapp_subscribes 22 s2 = Some s'"
    using assms(2) by (auto simp: demo_subscribed_def bind_eq_Some_conv)
  show ?thesis
    by (rule reach_step [OF reach_step [OF reach_step [OF assms(1) demo_step(2) [OF s(1)]] demo_step(1) [OF s(2)]] demo_step(3) [OF s(3)]])
qed

text \<open>What the witnesses use of the three states: the queues, what is unused, and what the iApp has received.\<close>

lemma demo_sys_queues:
  "map_option (\<lambda>s. map_option (\<lambda>s1. (sy_down s1, sy_up s1)) (demo_subscribed s)) demo_sys = Some (Some ([RIC_SUBSCRIPTION_REQUEST demo_sr], []))"
  "map_option (\<lambda>s. map_option (\<lambda>s2. (sy_down s2, sy_up s2)) (do { s \<leftarrow> demo_subscribed s; demo_down 23 s })) demo_sys = Some (Some ([], [demo_resp]))"
  "map_option (\<lambda>s. map_option (\<lambda>s3. (sy_down s3, sy_up s3, cnt sub_resp_id (iapp_msgs (nr_iapp (sy_ric s3))) demo_id,
       cnt del_req_id (map snd (nr_sent (sy_ric s3))) demo_id)) (do { s \<leftarrow> demo_subscribed s; s \<leftarrow> demo_down 23 s; demo_up 24 s })) demo_sys =
     Some (Some ([], [], 1, 0))"
  by code_simp+


lemma demo_ric_started: "\<exists>ric. demo_ric = Some ric \<and> ric_started {demo_rsm} ric"
proof -
  have facts: "map_option (\<lambda>ds. unused_ric ds [(2, demo_rsm)]) (assoc_rb_tree_init 1 RAN_FUNC_SZ cmp_ran_func_id) = Some True"
    "map_option (\<lambda>ric. unused_pub ric [142] [(3, 2)]) (alloc_near_ric 4 demo_refs [(2, demo_rsm)]) = Some True"
    "map_option (\<lambda>ric. True) demo_ric = Some True"
    by code_simp+
  obtain ric where ric: "demo_ric = Some ric" using facts(3) by auto
  have un: "unused_ric ds [(2, demo_rsm)]" if "assoc_rb_tree_init 1 RAN_FUNC_SZ cmp_ran_func_id = Some ds" for ds
    using facts(1) that by simp
  have pub: "unused_pub ric [142] [(3, 2)]" if "alloc_near_ric 4 demo_refs [(2, demo_rsm)] = Some ric" for ric
    using facts(2) that by simp
  have "ric_started (snd ` set [(2 :: ref, demo_rsm)]) ric"
    using ric un pub
    by (intro ric_started [of 4 demo_refs "[(2, demo_rsm)]" "[(3, 2)]"]) (simp_all add: demo_ric_def demo_refs_def demo_rsm_def)
  then show ?thesis using ric by auto
qed

lemma demo_sys_started: "\<exists>s. demo_sys = Some s \<and> e2_started s"
proof -
  obtain ag where ag: "demo_agent = Some ag" "started_with {demo_sm} ag demo_start" using demo_started_with by blast
  obtain ric where ric: "demo_ric = Some ric" "ric_started {demo_rsm} ric" using demo_ric_started by blast
  have "map_option (\<lambda>ag. mono_node (ag_global_e2_node_id ag)) demo_agent = Some True" by code_simp
  then have "mono_node (ag_global_e2_node_id ag)" by (simp add: ag(1))
  moreover have "compatible {demo_sm} {demo_rsm}" by (simp add: compatible_def demo_sm_def demo_rsm_def)
  ultimately have started: "e2_started \<lparr>sy_ag = ag, sy_ric = ric, sy_down = [], sy_up = ag_sent ag\<rparr>"
    using ag(2) ric(2) unfolding e2_started_def by (intro exI [of _ "{demo_sm}"] exI [of _ demo_start] exI [of _ "{demo_rsm}"]) simp
  have "demo_sys = Some \<lparr>sy_ag = ag, sy_ric = ric, sy_down = [], sy_up = ag_sent ag\<rparr>"
    by (simp add: demo_sys_def ag(1) ric(1))
  then show ?thesis using started by blast
qed

lemma demo_sys_run:
  "\<exists>s0 s1 s2 s3. demo_sys = Some s0 \<and> e2_started s0 \<and> demo_subscribed s0 = Some s1 \<and> demo_down 23 s1 = Some s2 \<and> demo_up 24 s2 = Some s3 \<and>
     e2_reach demo_info s0 s1 \<and> e2_reach demo_info s0 s2 \<and> e2_reach demo_info s0 s3"
proof -
  obtain s0 where s0: "demo_sys = Some s0" "e2_started s0" using demo_sys_started by blast
  obtain s1 s2 s3 where s: "demo_subscribed s0 = Some s1" "demo_down 23 s1 = Some s2" "demo_up 24 s2 = Some s3"
    using demo_sys_queues(3) by (auto simp: s0(1) bind_eq_Some_conv)
  have r1: "e2_reach demo_info s0 s1" by (rule demo_reach [OF reach_start s(1)])
  have r2: "e2_reach demo_info s0 s2" by (rule reach_step [OF r1 demo_step(1) [OF s(2)]])
  have r3: "e2_reach demo_info s0 s3" by (rule reach_step [OF r2 demo_step(2) [OF s(3)]])
  show ?thesis using s0 s r1 r2 r3 by blast
qed


lemma e2_subscriptions_agree_witness:
  "\<exists>s0 s1 s2 s3. demo_sys = Some s0 \<and> demo_subscribed s0 = Some s1 \<and> demo_down 23 s1 = Some s2 \<and> demo_up 24 s2 = Some s3 \<and>
     sy_down s3 = [] \<and> sy_up s3 = [] \<and> card (armed (sy_ag s3) demo_id) = 1"
proof -
  obtain s0 s1 s2 s3 where s: "demo_sys = Some s0" "e2_started s0" "demo_subscribed s0 = Some s1" "demo_down 23 s1 = Some s2" "demo_up 24 s2 = Some s3"
    "e2_reach demo_info s0 s3" using demo_sys_run by blast
  have q: "sy_down s3 = []" "sy_up s3 = []" "cnt sub_resp_id (iapp_msgs (nr_iapp (sy_ric s3))) demo_id = 1"
    "cnt del_req_id (map snd (nr_sent (sy_ric s3))) demo_id = 0"
    using demo_sys_queues(3) by (simp_all add: s)
  have "card (armed (sy_ag s3) demo_id) = 1" using e2_subscriptions_agree [OF s(2,6), of demo_id] q by simp
  then show ?thesis using s q by blast
qed

end
