(* ===== verification/Spec2Isabelle.thy ===== *)
theory Spec2Isabelle
  imports Prelude SeqRing TsQueue SeqArr AssocReg E2apTypes ActProc GtpSm RlcSm PdcpSm MacSm SliceSm
    BitArray Crc PrSequence CbSegm TcInterl BitInterleaver TurboCoder PendingXapp E2SystemRuns
begin

text \<open>
  The repository holds an LTE/NR software radio, srsRAN (\<^verbatim>\<open>src/srsRAN\<close>), and FlexRIC, a near real-time RAN intelligent
  controller with the agent that connects a base station to it and the applications (xApps) that run on top
  (\<^verbatim>\<open>src/flexric\<close>). Paths below are relative to \<^verbatim>\<open>src/flexric/flexric-jyd/src\<close> and, for the physical layer, to
  \<^verbatim>\<open>src/srsRAN/srsran-jyd\<close>. The theories model parts of the C code of both.

  How the parts interact. An E2 agent (\<^verbatim>\<open>agent/\<close>) owns an epoll instance, a socket to the controller, a registry of service
  models and two bidirectional maps from timers to what they stand for: active subscriptions and pending setup requests. A
  map is a pair of red-black trees. The RIC (\<^verbatim>\<open>ric/\<close>) has the same shape, with a map of its pending requests and one of the
  addresses of its nodes; it forwards the requests of the iApp and passes the answers and the indications back to it. A
  service model packs the statistics of one layer of the base station into an indication message; its information
  elements and its plain codec are in \<^verbatim>\<open>sm/*_sm\<close>. An xApp keeps its active procedures in a registry with counter keys,
  the timers of its pending requests in a bidirectional map, and hands indications to worker threads through a queue over a
  growing ring. The physical layer segments a transport block, attaches a checksum, encodes the blocks
  with the turbo code and scrambles the result with a Gold sequence.

  Conventions. A C integer is a machine word of its width, a structure a record, a union with its tag a datatype. \<^verbatim>\<open>assert\<close>
  is taken as enabled: a failed assertion, a read outside of an object and every other undefined operation is the result
  None of a function in the option monad, so a theorem that a function returns Some also shows that no assertion fails.
  Addresses from \<^verbatim>\<open>malloc\<close>, file descriptors, ready events and received messages are arguments; the hypotheses on them (unused,
  not NULL) are those the operating system guarantees. A mutex is the atomicity of a step.

  Theories and what they model.
  - Prelude: C types as words, object representations, memory blocks with uninitialised cells, \<^verbatim>\<open>memcpy\<close>, \<^verbatim>\<open>assert\<close>, loops.
  - Fifo, SeqRing, TsQueue: the contract of a queue (locale fifo_queue), the ring of \<^verbatim>\<open>util/alg_ds/ds/seq_container/seq_ring.c\<close>
    that implements it, and the queue of \<^verbatim>\<open>ts_queue.c\<close> with its producers, its worker (\<^verbatim>\<open>xApp/db/db.c\<close>,
    \<^verbatim>\<open>xApp/msg_dispatcher_xapp.c\<close>) and its owner as a step relation. Shown: push and erase refine the operations on lists,
    the queue is first-in first-out over every interleaving, no wake-up is lost, \<^verbatim>\<open>free_tsq\<close> ends.
  - SeqArr, Registry, AssocReg, ActProc: the growing array \<^verbatim>\<open>seq_arr.c\<close>, the contract of a registry (locale registry), the
    sorted bucket array \<^verbatim>\<open>assoc_reg.c\<close> that implements it, and the active procedures of an xApp, \<^verbatim>\<open>xApp/act_proc.c\<close>.
  - Comparator, E2apTypes: the contract of a three-way comparison (locale comparator) and the identifiers of
    \<^verbatim>\<open>lib/ap/e2ap_types/common\<close> with their comparisons.
  - Codec, FieldCodec, MacSm, RlcSm, PdcpSm, GtpSm, SliceIe, SliceSm: writing and reading structures and their fields in a
    buffer (locales struct_codec, field_writer, field_reader), and the service models \<^verbatim>\<open>sm/mac_sm\<close>, \<^verbatim>\<open>sm/rlc_sm\<close>, \<^verbatim>\<open>sm/pdcp_sm\<close>,
    \<^verbatim>\<open>sm/gtp_sm\<close> and \<^verbatim>\<open>sm/slice_sm\<close> on top of it. Shown: round trips, that no byte outside of the buffer is touched, and when
    the 32-bit size wraps around. The decoder of SLICE allocates a string with a 32-bit sum that wraps for the greatest
    length; the round trips are for shorter strings.
  - RbTree, RbShape, RbInsert, RbDelete, RbMap: the red-black tree \<^verbatim>\<open>assoc_rb_tree.c\<close> with parent pointers, on a heap of nodes.
    RbTree has the code; RbShape the trees and contexts that a heap represents; RbInsert and RbDelete the preservation of
    the red-black invariants; RbMap (locale three_way) what clients rely on: a sorted list of entries, and that ways down
    a tree that the operations have built are of logarithmic length.
  - PendingEvent, BiMap, PendingXapp: \<^verbatim>\<open>lib/pending_events.c\<close>, \<^verbatim>\<open>lib/pending_event_ric.c\<close>, the bidirectional map \<^verbatim>\<open>bimap.c\<close>
    (locale bi_order) and the pending requests of an xApp, \<^verbatim>\<open>xApp/pending_event_xapp.c\<close>.
  - E2apMsg, E2Agent, E2AgentSpec, E2AgentRuns, AgentLife: the messages of \<^verbatim>\<open>lib/ap/type_defs.h\<close>, the agent
    (\<^verbatim>\<open>agent/e2_agent.c\<close>, \<^verbatim>\<open>msg_handler_agent.c\<close>, \<^verbatim>\<open>plugin_agent.c\<close>, \<^verbatim>\<open>asio_agent.c\<close>, \<^verbatim>\<open>not_handler_agent.c\<close>), an abstract
    specification of a round of its loop, the proof that the code refines it, the invariant of its runs, and the properties
    of its life from \<^verbatim>\<open>e2_init_agent\<close> to \<^verbatim>\<open>e2_free_agent\<close>. Shown: a round stops the program exactly when the specification has
    no transition, and an indication is only sent for an active subscription and an admitted action.
  - E2Ric, E2RicSpec, E2RicStart, E2System, E2SystemRuns: the near real-time RIC (\<^verbatim>\<open>ric/near_ric.c\<close>, \<^verbatim>\<open>msg_handler_ric.c\<close>,
    \<^verbatim>\<open>plugin_ric.c\<close>, \<^verbatim>\<open>asio_ric.c\<close>, \<^verbatim>\<open>not_handler_ric.c\<close>, \<^verbatim>\<open>map_e2_node_sockaddr.c\<close>), what its state represents (pending requests
    with their timers, nodes with their addresses), its start, and the composition of an agent and a RIC: a step relation
    with a queue of messages in each direction, and an invariant that relates pending requests, messages on their way and
    active subscriptions. The steps deliver messages in order, let the timers of subscriptions and of pending requests of the
    RIC expire, and let the iApp make any request, except that it ends only subscriptions that it knows to be active. They
    leave out the loss of the connection, the setup timer of the agent (a second setup response would stop it) and further
    nodes; the node is monolithic and the service models match. Shown for every state that these steps reach: exactly which
    messages and timers stop one of the programs, and that the timers of subscriptions that the agent has armed are those
    of the responses and deletions that the iApp has seen, asked for, or that are on their way.
  - BitArray, BitInterleaver, Crc, PrSequence, CbSegm, TcInterl, TurboCoder: \<^verbatim>\<open>lib/src/phy/utils/bit.c\<close>, \<^verbatim>\<open>fec/crc.c\<close>,
    \<^verbatim>\<open>common/sequence.c\<close>, \<^verbatim>\<open>fec/cbsegm.c\<close>, \<^verbatim>\<open>fec/turbo/tc_interl_lte.c\<close> and \<^verbatim>\<open>fec/turbo/turbocoder.c\<close>, in the branches without
    vector instructions. Shown: the table driven checksum is the bit-serial remainder and detects bursts, the generator of
    24 bits at once makes the Gold sequence and scrambling flips the bits where it is set, segmentation is a partition without overflow, the interleaver is the permutation
    of the standard, and the encoder with lookup tables equals the one on bits.

  Termination. Loops over an index are recursion on it. The loops of the ring and of the arrays count down the capacity of
  the ring, the size of the array or the number of occupied buckets, which the theorems show to be enough. The loops of
  the red-black tree follow pointers, so they are partial functions to an option, and the theorems show that they return on
  every heap that represents a tree. The loops of the queue's worker, of the agent and of the RIC run until
  another thread stops them: each is a step relation, or a function of the rounds that it makes.

  Not modelled. C++ code (the upper layers of srsRAN, the UE, the base station, the core network) and generated code
  (ASN.1, flatbuffers, SWIG) are not C of this program; \<^verbatim>\<open>sqlite3.c\<close> is vendored. The codec of E2AP messages copies into the
  structures of generated code. Sockets, \<^verbatim>\<open>epoll\<close> and \<^verbatim>\<open>dlopen\<close> are system calls: what they return is an argument. Signal
  processing on complex floating point samples is left out because its results depend on rounding. The iApp
  (\<^verbatim>\<open>ric/iApp\<close>), the loop of an xApp, the registry of nodes and the TC service model are left out; they use the containers
  that are modelled, and what the RIC tells the iApp is recorded. The expiry of the setup timer of the agent, the loss
  of a connection and several nodes are in the models of the agent and of the RIC, not in the steps of the composed system. Lengths
  of bit arrays are natural numbers: an overflow of \<^verbatim>\<open>len + order\<close> near the greatest int is not modelled. Of the physical
  layer the convolutional, LDPC and polar codes and rate matching are left out. Freeing of plain memory has no effect that the models show.
\<close>

end
